(* ===== verification/Prelude.thy ===== *)
theory Prelude
  imports Main "HOL-Library.Word" "HOL-Library.Multiset"
begin

text \<open>
  Shared vocabulary of the development: the names of the code's integer types, loops that may
  stop with an error (\<open>fold_opt\<close>), the selection vectors every operator writes its surviving row
  numbers to, C++ integer division, and the lemmas about them that the components share.
\<close>

unbundle bit_operations_syntax

section \<open>Types\<close>

type_synonym u32 = "32 word"
type_synonym u64 = "64 word"

text \<open>
  \<open>idx_t\<close> counts and indexes are \<open>nat\<close>: every use in the modelled code is bounded by the size of
  an allocated container.  Values whose width matters (hashes, keys, transaction ids) are words.
\<close>

type_synonym idx_t = nat

named_theorems sel_simps \<open>facts about selection vectors\<close>
named_theorems bound_simps \<open>facts that bound an index computed on words\<close>

section \<open>Loops that may fail\<close>

text \<open>
  \<open>fold_opt f xs s\<close> is the loop \<open>for (x : xs) s = f(x, s)\<close> whose body may fail (\<open>None\<close>); the first
  failure ends the loop.
\<close>

fun fold_opt :: "('a \<Rightarrow> 's \<Rightarrow> 's option) \<Rightarrow> 'a list \<Rightarrow> 's \<Rightarrow> 's option" where
  "fold_opt f [] s = Some s"
| "fold_opt f (x # xs) s = (case f x s of None \<Rightarrow> None | Some s' \<Rightarrow> fold_opt f xs s')"

lemma fold_opt_append:
  "fold_opt f (xs @ ys) s = Option.bind (fold_opt f xs s) (fold_opt f ys)"
  by (induction xs arbitrary: s) (auto split: option.splits)

lemma fold_opt_map: "fold_opt f (map g xs) s = fold_opt (f \<circ> g) xs s"
  by (induction xs arbitrary: s) (auto split: option.splits)

lemma fold_opt_map_fun: "fold_opt f (map g xs) = fold_opt (f \<circ> g) xs"
  by (simp add: fun_eq_iff fold_opt_map)

lemma fold_opt_cong:
  assumes "\<And>x s. x \<in> set xs \<Longrightarrow> f x s = g x s"
  shows "fold_opt f xs s = fold_opt g xs s"
  using assms by (induction xs arbitrary: s) (auto split: option.splits)

lemma fold_opt_inv:
  assumes "\<And>x s. P s \<Longrightarrow> \<exists>s'. f x s = Some s' \<and> P s'" and "P s"
  shows "\<exists>s'. fold_opt f xs s = Some s' \<and> P s'"
  using assms(2)
proof (induction xs arbitrary: s)
  case (Cons x xs)
  then obtain s' where "f x s = Some s'" "P s'" using assms(1) by blast
  with Cons.IH show ?case by simp
qed simp

lemma fold_opt_inv_on:
  assumes "\<And>x s. x \<in> set xs \<Longrightarrow> P s \<Longrightarrow> \<exists>s'. f x s = Some s' \<and> P s'" and "P s"
  shows "\<exists>s'. fold_opt f xs s = Some s' \<and> P s'"
  using assms
proof (induction xs arbitrary: s)
  case (Cons x xs)
  then obtain s' where "f x s = Some s'" "P s'" by (metis list.set_intros(1))
  with Cons show ?case by simp
qed simp

text \<open>When the bodies for two elements commute, the loop does not depend on the order.\<close>

lemma fold_opt_move:
  assumes comm: "\<And>x y s. Option.bind (f x s) (f y) = Option.bind (f y s) (f x)"
  shows "fold_opt f (as @ x # bs) s = fold_opt f (x # as @ bs) s"
proof (induction as arbitrary: s)
  case (Cons a as)
  have "fold_opt f ((a # as) @ x # bs) s = Option.bind (Option.bind (f a s) (f x)) (fold_opt f (as @ bs))"
    using Cons.IH by (cases "f a s") (auto split: option.splits bind_splits)
  also have "\<dots> = Option.bind (Option.bind (f x s) (f a)) (fold_opt f (as @ bs))"
    by (simp only: comm)
  also have "\<dots> = fold_opt f (x # (a # as) @ bs) s"
    by (cases "f x s") (auto split: option.splits bind_splits)
  finally show ?case .
qed simp

lemma fold_opt_perm:
  assumes comm: "\<And>x y s. Option.bind (f x s) (f y) = Option.bind (f y s) (f x)"
    and "mset xs = mset ys"
  shows "fold_opt f xs s = fold_opt f ys s"
  using assms(2)
proof (induction xs arbitrary: ys s)
  case (Cons x xs)
  then have "x \<in> set ys" by (metis list.set_intros(1) set_mset_mset)
  then obtain as bs where ys: "ys = as @ x # bs" by (meson split_list)
  with Cons.prems have "mset xs = mset (as @ bs)" by simp
  then have "\<And>s. fold_opt f xs s = fold_opt f (as @ bs) s" by (rule Cons.IH)
  then show ?case unfolding ys fold_opt_move [OF comm] by (simp split: option.split)
qed simp

text \<open>
  A loop that consumes \<open>w\<close> indexes per round while a whole round fits below \<open>n\<close> does what the plain
  loop does on the whole rounds.
\<close>

lemma batched_loop:
  assumes step: "\<And>i s. F i s = (if i + w \<le> n
      then case fold_opt g [i..<i + w] s of None \<Rightarrow> None | Some s' \<Rightarrow> F (i + w) s' else Some s)"
    and w: "0 < w"
  shows "F i s = fold_opt g [i..<i + w * ((n - i) div w)] s"
proof (induction "n - i" arbitrary: i s rule: less_induct)
  case less
  show ?case
  proof (cases "i + w \<le> n")
    case True
    let ?e = "i + w + w * ((n - (i + w)) div w)"
    have "(n - i) div w = Suc ((n - (i + w)) div w)"
      using True w by (simp add: le_div_geq)
    then have e: "i + w * ((n - i) div w) = ?e" by simp
    have split: "[i..<?e] = [i..<i + w] @ [i + w..<?e]"
      by (rule upt_add_eq_append) simp
    have IH: "F (i + w) s' = fold_opt g [i + w..<?e] s'" for s'
      using less [of "i + w" s'] True w by simp
    show ?thesis
      unfolding e split fold_opt_append
      by (subst step) (simp add: True IH split: option.split)
  next
    case False
    then have "n - i < w" using w by linarith
    then have "(n - i) div w = 0" by simp
    with False show ?thesis by (subst step) simp
  qed
qed

lemma mset_filter_neq:
  "distinct xs \<Longrightarrow> k \<in> set xs \<Longrightarrow> mset xs = add_mset k (mset (filter (\<lambda>x. x \<noteq> k) xs))"
proof (induction xs)
  case (Cons x xs)
  show ?case
  proof (cases "x = k")
    case True
    then have "filter (\<lambda>y. y \<noteq> k) xs = xs" using Cons.prems(1) by (auto simp: filter_id_conv)
    with True show ?thesis by simp
  next
    case False
    with Cons show ?thesis by simp
  qed
qed simp

section \<open>Selection vectors\<close>

text \<open>
  A \<open>SelectionVector\<close> is an array of row numbers: a function of the position.  Only the first
  \<open>count\<close> positions, the prefix, are meaningful to a reader.
\<close>

type_synonym sel_vector = "nat \<Rightarrow> nat"

definition set_index :: "sel_vector \<Rightarrow> nat \<Rightarrow> nat \<Rightarrow> sel_vector" where
  "set_index sel idx loc = sel(idx := loc)"

definition sel_prefix :: "sel_vector \<Rightarrow> nat \<Rightarrow> nat list" where
  "sel_prefix sel n = map sel [0..<n]"

lemma sel_prefix_0 [sel_simps]: "sel_prefix sel 0 = []"
  by (simp add: sel_prefix_def)

lemma sel_prefix_set_index [sel_simps]:
  "sel_prefix (set_index sel n x) (Suc n) = sel_prefix sel n @ [x]"
  by (simp add: sel_prefix_def set_index_def)

lemma sel_prefix_set_index_same [sel_simps]:
  "sel_prefix (set_index sel n x) n = sel_prefix sel n"
  by (simp add: sel_prefix_def set_index_def)

lemma length_sel_prefix [sel_simps]: "length (sel_prefix sel n) = n"
  by (simp add: sel_prefix_def)

text \<open>The body of the loops \<open>if (p(i)) sel.set_index(count++, i)\<close>.\<close>

definition sel_step :: "(nat \<Rightarrow> bool) \<Rightarrow> nat \<Rightarrow> nat \<times> sel_vector \<Rightarrow> nat \<times> sel_vector" where
  "sel_step p i cs = (if p i then (Suc (fst cs), set_index (snd cs) (fst cs) i) else cs)"

lemma sel_scan_gen:
  "fold (sel_step p) xs (c, sel) = (c', sel') \<Longrightarrow>
   c' = c + length (filter p xs) \<and> sel_prefix sel' c' = sel_prefix sel c @ filter p xs"
proof (induction xs arbitrary: c sel)
  case (Cons x xs)
  show ?case
  proof (cases "p x")
    case True
    with Cons.prems have "fold (sel_step p) xs (Suc c, set_index sel c x) = (c', sel')"
      by (simp add: sel_step_def [of p x])
    from Cons.IH [OF this] have len: "c' = Suc c + length (filter p xs)"
      and pre: "sel_prefix sel' c' = sel_prefix (set_index sel c x) (Suc c) @ filter p xs"
      by blast+
    from pre have "sel_prefix sel' c' = sel_prefix sel c @ filter p (x # xs)"
      using True by (simp only: sel_prefix_set_index) simp
    with len True show ?thesis by simp
  next
    case False
    with Cons show ?thesis by (simp add: sel_step_def)
  qed
qed simp

lemma sel_scan:
  assumes "fold (sel_step p) xs (0, sel) = (c, sel')"
  shows "c = length (filter p xs)" and "sel_prefix sel' c = filter p xs"
  using conjunct1 [OF sel_scan_gen [OF assms]] conjunct2 [OF sel_scan_gen [OF assms]]
  by (simp_all only: sel_prefix_0 append_Nil add_0)

lemma sel_scan_fst: "fst (fold (sel_step p) xs (0, sel)) = length (filter p xs)"
  by (metis sel_scan(1) prod.collapse)

lemma filter_upt_eq_all: "length (filter p [0..<n]) = n \<longleftrightarrow> (\<forall>i<n. p i)"
proof -
  have "length (filter p [0..<n]) = n \<longleftrightarrow> length (filter p [0..<n]) = length [0..<n]" by simp
  also have "\<dots> \<longleftrightarrow> (\<forall>x\<in>set [0..<n]. p x)"
    by (metis filter_True length_filter_less nat_less_le)
  finally show ?thesis by auto
qed

section \<open>C++ integer division\<close>

text \<open>\<open>/\<close> and \<open>%\<close> on signed integers truncate towards zero.\<close>

definition cdiv :: "int \<Rightarrow> int \<Rightarrow> int" where
  "cdiv a b = sgn a * sgn b * (\<bar>a\<bar> div \<bar>b\<bar>)"

definition cmod :: "int \<Rightarrow> int \<Rightarrow> int" where
  "cmod a b = a - cdiv a b * b"

lemma cdiv_nonneg: "0 \<le> a \<Longrightarrow> 0 < b \<Longrightarrow> cdiv a b = a div b"
  by (cases "a = 0") (simp_all add: cdiv_def)

lemma cmod_nonneg: "0 \<le> a \<Longrightarrow> 0 < b \<Longrightarrow> cmod a b = a mod b"
  by (simp add: cmod_def cdiv_nonneg minus_div_mult_eq_mod)

lemma cdiv_neg: "a < 0 \<Longrightarrow> 0 < b \<Longrightarrow> cdiv a b = - ((- a) div b)"
  by (simp add: cdiv_def)

lemma cmod_neg: "a < 0 \<Longrightarrow> 0 < b \<Longrightarrow> cmod a b = - ((- a) mod b)"
  by (simp add: cmod_def cdiv_neg minus_div_mult_eq_mod [symmetric])

lemmas c_arith = cdiv_nonneg cmod_nonneg cdiv_neg cmod_neg

section \<open>Words below a power of two\<close>

lemma word_lt_pow2_take_bit:
  fixes x :: "'a::len word"
  assumes "unat x < 2 ^ k"
  shows "take_bit k x = x"
proof -
  have "unat (take_bit k x) = take_bit k (unat x)" by (simp add: unsigned_take_bit_eq)
  also have "\<dots> = unat x" using assms by (simp add: take_bit_nat_eq_self)
  finally show ?thesis by (simp only: word_unat_eq_iff)
qed

lemma unat_xor_bound [bound_simps]:
  fixes x y :: "'a::len word"
  assumes "unat x < 2 ^ k" "unat y < 2 ^ k"
  shows "unat (x XOR y) < 2 ^ k"
proof -
  have "x XOR y = take_bit k (x XOR y)"
    using assms by (simp add: take_bit_xor word_lt_pow2_take_bit)
  then have "unat (x XOR y) = take_bit k (unat (x XOR y))"
    by (metis unsigned_take_bit_eq)
  then show ?thesis by (metis take_bit_nat_less_exp)
qed

lemma unat_and_minus_one_bound [bound_simps]:
  fixes x n :: "'a::len word"
  assumes "n \<noteq> 0"
  shows "unat (x AND (n - 1)) < unat n"
proof -
  have "x AND (n - 1) \<le> n - 1" by (rule word_and_le1)
  then have "unat (x AND (n - 1)) \<le> unat (n - 1)" by (simp add: word_le_nat_alt)
  moreover have "unat (n - 1) < unat n" using assms
    by (metis measure_unat)
  ultimately show ?thesis by simp
qed

end
