(* ===== verification/LogicalPlans.thy ===== *)
theory LogicalPlans
  imports Prelude
begin

text \<open>
  The logical query plan as the predicate transfer optimizer reads it, and the table operator manager,
  \<open>src/optimizer/predicate_transfer/table_operator_namager.cpp\<close>: which operators of a plan act as
  tables, which joins connect them, and how projected columns are traced back to table columns.

  An \<open>unordered_map\<close> that the code iterates over is an association list in its iteration order
  (erasing keeps the order of the other entries).
\<close>

section \<open>Plans\<close>

datatype logical_operator_type =
    LOGICAL_GET | LOGICAL_FILTER | LOGICAL_PROJECTION | LOGICAL_AGGREGATE_AND_GROUP_BY
  | LOGICAL_COMPARISON_JOIN | LOGICAL_DELIM_JOIN | LOGICAL_UNION | LOGICAL_EXCEPT | LOGICAL_INTERSECT
  | LOGICAL_WINDOW | LOGICAL_CHUNK_GET | LOGICAL_DELIM_GET | LOGICAL_EXPRESSION_GET
  | LOGICAL_DUMMY_SCAN | LOGICAL_EMPTY_RESULT | LOGICAL_CREATE_BF | LOGICAL_USE_BF | LOGICAL_OTHER

datatype join_type =
    JOIN_LEFT | JOIN_RIGHT | JOIN_INNER | JOIN_OUTER | JOIN_SEMI | JOIN_ANTI | JOIN_MARK
  | JOIN_SINGLE | JOIN_RIGHT_SEMI | JOIN_RIGHT_ANTI

record column_binding =
  table_index :: nat
  column_index :: nat

datatype plan_expr = BOUND_COLUMN_REF column_binding | OTHER_EXPRESSION nat

record join_condition =
  compare_equal :: bool
  jc_left :: plan_expr
  jc_right :: plan_expr
  jc_return_type :: nat

record filter_plan =
  fp_build :: "column_binding list"
  fp_apply :: "column_binding list"
  fp_return_types :: "nat list"

text \<open>
  One record for the operators' fields: \<open>op_ptr\<close> is the operator's address, \<open>op_table_index\<close> what
  \<open>GetTableIndex()\<close> returns, \<open>op_bindings\<close> what \<open>GetColumnBindings()\<close> returns and
  \<open>estimated_cardinality\<close> the value of \<open>EstimateCardinality\<close>.
\<close>

record op_node =
  op_ptr :: nat
  op_type :: logical_operator_type
  op_table_index :: "nat list"
  op_bindings :: "column_binding list"
  estimated_cardinality :: nat
  join_type_of :: join_type
  delim_flipped :: bool
  conditions :: "join_condition list"
  op_expressions :: "plan_expr list"
  op_groups :: "plan_expr list"
  grouping_sets :: nat
  table_filters :: nat
  bf_plans :: "filter_plan list"

datatype logical_operator = Operator (op_of: op_node) (children: "logical_operator list")

definition INVALID_TABLE :: nat where "INVALID_TABLE = 2 ^ 64 - 1"

section \<open>Table operators\<close>

fun GetScalarTableIndex :: "logical_operator \<Rightarrow> nat" where
  "GetScalarTableIndex (Operator n cs) =
     (if op_type n \<in> {LOGICAL_WINDOW, LOGICAL_CHUNK_GET, LOGICAL_GET, LOGICAL_DELIM_GET, LOGICAL_PROJECTION,
                       LOGICAL_UNION, LOGICAL_EXCEPT, LOGICAL_INTERSECT}
      then op_table_index n ! 0
      else if op_type n = LOGICAL_FILTER
      then (case cs of c # _ \<Rightarrow> GetScalarTableIndex c | [] \<Rightarrow> INVALID_TABLE)
      else if op_type n = LOGICAL_AGGREGATE_AND_GROUP_BY then op_table_index n ! 1
      else INVALID_TABLE)"

definition OperatorNeedsRelation :: "logical_operator_type \<Rightarrow> bool" where
  "OperatorNeedsRelation t \<longleftrightarrow> t \<in> {LOGICAL_PROJECTION, LOGICAL_EXPRESSION_GET, LOGICAL_GET,
     LOGICAL_DELIM_GET, LOGICAL_AGGREGATE_AND_GROUP_BY, LOGICAL_WINDOW}"

record table_operator_manager =
  sorted_table_operators :: "logical_operator list"
  table_operators :: "(nat \<times> logical_operator) list"
  rename_col_bindings :: "(column_binding \<times> column_binding) list"

definition empty_table_operator_manager :: table_operator_manager where
  "empty_table_operator_manager =
     \<lparr>sorted_table_operators = [], table_operators = [], rename_col_bindings = []\<rparr>"

definition operator_cardinality :: "logical_operator \<Rightarrow> nat" where
  "operator_cardinality x = estimated_cardinality (op_of x)"

definition SortTableOperators :: "table_operator_manager \<Rightarrow> table_operator_manager" where
  "SortTableOperators m =
     m\<lparr>sorted_table_operators := sort_key operator_cardinality (map snd (table_operators m))\<rparr>"

definition GetTableOperator :: "table_operator_manager \<Rightarrow> nat \<Rightarrow> logical_operator option" where
  "GetTableOperator m table_idx = map_of (table_operators m) table_idx"

fun operator_position :: "logical_operator list \<Rightarrow> nat \<Rightarrow> nat \<Rightarrow> nat option" where
  "operator_position [] ptr i = None"
| "operator_position (x # xs) ptr i = (if op_ptr (op_of x) = ptr then Some i else operator_position xs ptr (Suc i))"

definition GetTableOperatorOrder :: "table_operator_manager \<Rightarrow> logical_operator \<Rightarrow> table_operator_manager \<times> nat" where
  "GetTableOperatorOrder m node =
     (let m' = (if sorted_table_operators m = [] then SortTableOperators m else m)
      in (m', case operator_position (sorted_table_operators m') (op_ptr (op_of node)) 0 of
                Some i \<Rightarrow> i | None \<Rightarrow> 2 ^ 64 - 1))"

text \<open>The loop that follows renamings until a binding that is not renamed.\<close>

partial_function (option) GetRenaming ::
  "(column_binding \<times> column_binding) list \<Rightarrow> column_binding \<Rightarrow> column_binding option" where
  [code]: "GetRenaming renames binding =
     (case map_of renames binding of
        None \<Rightarrow> Some binding
      | Some b \<Rightarrow> GetRenaming renames b)"

text \<open>\<open>insert\<close> of an \<open>unordered_map\<close> keeps an entry that is already there.\<close>

definition insert_rename :: "column_binding \<times> column_binding \<Rightarrow> table_operator_manager \<Rightarrow> table_operator_manager" where
  "insert_rename e m =
     (if map_of (rename_col_bindings m) (fst e) = None
      then m\<lparr>rename_col_bindings := rename_col_bindings m @ [e]\<rparr> else m)"

definition AddTableOperator :: "logical_operator \<Rightarrow> table_operator_manager \<Rightarrow> table_operator_manager" where
  "AddTableOperator x m =
     (let table_idx = GetScalarTableIndex x
      in if table_idx \<noteq> INVALID_TABLE \<and> map_of (table_operators m) table_idx = None
         then m\<lparr>table_operators := table_operators m @ [(table_idx, x)]\<rparr> else m)"

text \<open>The column references among \<open>exprs\<close>, each renaming the output binding at its position.\<close>

fun rename_exprs :: "column_binding list \<Rightarrow> plan_expr list \<Rightarrow> table_operator_manager \<Rightarrow> table_operator_manager" where
  "rename_exprs (b # bs) (e # es) m =
     rename_exprs bs es (case e of BOUND_COLUMN_REF c \<Rightarrow> insert_rename (b, c) m | OTHER_EXPRESSION _ \<Rightarrow> m)"
| "rename_exprs _ _ m = m"

fun equality_condition :: "join_condition \<Rightarrow> bool" where
  "equality_condition jc =
     (compare_equal jc \<and> (case jc_left jc of BOUND_COLUMN_REF _ \<Rightarrow> True | _ \<Rightarrow> False)
        \<and> (case jc_right jc of BOUND_COLUMN_REF _ \<Rightarrow> True | _ \<Rightarrow> False))"

definition collects_join :: "op_node \<Rightarrow> bool" where
  "collects_join n \<longleftrightarrow> op_type n \<in> {LOGICAL_COMPARISON_JOIN, LOGICAL_DELIM_JOIN}
     \<and> join_type_of n \<in> {JOIN_INNER, JOIN_LEFT, JOIN_RIGHT, JOIN_SEMI, JOIN_RIGHT_SEMI}
     \<and> list_ex equality_condition (conditions n)"

function ExtractOperatorsInternal ::
  "logical_operator \<Rightarrow> table_operator_manager \<times> logical_operator list \<Rightarrow>
   table_operator_manager \<times> logical_operator list" where
  "ExtractOperatorsInternal (Operator n cs) (m, joins0) =
     (let op = Operator n cs;
          joins = (if collects_join n then joins0 @ [op] else joins0)
      in case op_type n of
           LOGICAL_FILTER \<Rightarrow>
             (case cs of
                [] \<Rightarrow> (m, joins)
              | child # _ \<Rightarrow> if op_type (op_of child) = LOGICAL_GET then (AddTableOperator op m, joins)
                            else ExtractOperatorsInternal child (m, joins))
         | LOGICAL_AGGREGATE_AND_GROUP_BY \<Rightarrow>
             (let m' = (if op_groups n = [] \<and> grouping_sets n \<le> 1 then AddTableOperator op m
                        else rename_exprs (op_bindings n) (op_groups n) m)
              in case cs of [] \<Rightarrow> (m', joins) | child # _ \<Rightarrow> ExtractOperatorsInternal child (m', joins))
         | LOGICAL_PROJECTION \<Rightarrow>
             (let m' = rename_exprs (op_bindings n) (op_expressions n) m
              in case cs of [] \<Rightarrow> (m', joins) | child # _ \<Rightarrow> ExtractOperatorsInternal child (m', joins))
         | LOGICAL_UNION \<Rightarrow> fold ExtractOperatorsInternal (take 2 cs) (AddTableOperator op m, joins)
         | LOGICAL_EXCEPT \<Rightarrow> fold ExtractOperatorsInternal (take 2 cs) (AddTableOperator op m, joins)
         | LOGICAL_INTERSECT \<Rightarrow> fold ExtractOperatorsInternal (take 2 cs) (AddTableOperator op m, joins)
         | LOGICAL_WINDOW \<Rightarrow>
             (case cs of [] \<Rightarrow> (AddTableOperator op m, joins)
              | child # _ \<Rightarrow> ExtractOperatorsInternal child (AddTableOperator op m, joins))
         | LOGICAL_DUMMY_SCAN \<Rightarrow> (AddTableOperator op m, joins)
         | LOGICAL_EXPRESSION_GET \<Rightarrow> (AddTableOperator op m, joins)
         | LOGICAL_GET \<Rightarrow> (AddTableOperator op m, joins)
         | LOGICAL_EMPTY_RESULT \<Rightarrow> (AddTableOperator op m, joins)
         | LOGICAL_CHUNK_GET \<Rightarrow> (AddTableOperator op m, joins)
         | _ \<Rightarrow> fold ExtractOperatorsInternal cs (m, joins))"
  by pat_completeness auto
termination
  by (relation "measure (\<lambda>(x, s). size x)")
    (auto simp: less_Suc_eq_le dest: in_set_takeD intro: size_list_estimation')

definition ExtractOperators :: "logical_operator \<Rightarrow> table_operator_manager \<Rightarrow>
    table_operator_manager \<times> logical_operator list" where
  "ExtractOperators plan m =
     (let (m', joins) = ExtractOperatorsInternal plan (m, []) in (SortTableOperators m', joins))"

section \<open>Renaming\<close>

text \<open>Renamings lead from outer operators to inner ones: a rank decreases along them.\<close>

definition acyclic_renames :: "(column_binding \<times> column_binding) list \<Rightarrow> bool" where
  "acyclic_renames rs \<longleftrightarrow> (\<exists>rank :: column_binding \<Rightarrow> nat. \<forall>(b, c)\<in>set rs. rank c < rank b)"

lemma GetRenaming_total:
  assumes "acyclic_renames rs"
  shows "\<exists>c. GetRenaming rs b = Some c \<and> map_of rs c = None"
proof -
  from assms obtain rank :: "column_binding \<Rightarrow> nat" where r: "\<forall>(b, c)\<in>set rs. rank c < rank b"
    unfolding acyclic_renames_def by blast
  show ?thesis
  proof (induction "rank b" arbitrary: b rule: less_induct)
    case less
    show ?case
    proof (cases "map_of rs b")
      case None
      then show ?thesis by (simp add: GetRenaming.simps)
    next
      case (Some c)
      then have "rank c < rank b" using r map_of_SomeD by fastforce
      from less [OF this] Some show ?thesis by (subst GetRenaming.simps) simp
    qed
  qed
qed

lemma GetRenaming_fixed: "map_of rs c = None \<Longrightarrow> GetRenaming rs c = Some c"
  by (simp add: GetRenaming.simps)

section \<open>Extraction\<close>

text \<open>
  The table operators of a plan: one per table index, under the index of its operator; the collected
  joins are those with an equality between two columns.
\<close>

definition tables_ok :: "(nat \<times> logical_operator) list \<Rightarrow> bool" where
  "tables_ok ts \<longleftrightarrow> distinct (map fst ts) \<and> (\<forall>(k, x)\<in>set ts. k = GetScalarTableIndex x \<and> k \<noteq> INVALID_TABLE)"

definition joins_ok :: "logical_operator list \<Rightarrow> bool" where
  "joins_ok js \<longleftrightarrow> (\<forall>j\<in>set js. collects_join (op_of j))"

lemma AddTableOperator_tables: "tables_ok (table_operators m) \<Longrightarrow> tables_ok (table_operators (AddTableOperator x m))"
  by (auto simp: AddTableOperator_def Let_def tables_ok_def map_of_eq_None_iff)

lemma insert_rename_tables [simp]: "table_operators (insert_rename e m) = table_operators m"
  by (simp add: insert_rename_def)

lemma rename_exprs_tables [simp]: "table_operators (rename_exprs bs es m) = table_operators m"
  by (induction bs es m rule: rename_exprs.induct) (simp_all split: plan_expr.split)

definition extraction_ok :: "table_operator_manager \<times> logical_operator list \<Rightarrow> bool" where
  "extraction_ok s \<longleftrightarrow> tables_ok (table_operators (fst s)) \<and> joins_ok (snd s)"

lemma fold_extraction_ok:
  assumes "\<And>c s. c \<in> set cs \<Longrightarrow> extraction_ok s \<Longrightarrow> extraction_ok (f c s)" "extraction_ok s"
  shows "extraction_ok (fold f cs s)"
  using assms by (induction cs arbitrary: s) auto

lemma ExtractOperatorsInternal_ok: "extraction_ok s \<Longrightarrow> extraction_ok (ExtractOperatorsInternal x s)"
proof (induction x arbitrary: s)
  case (Operator n cs)
  obtain m joins0 where s: "s = (m, joins0)" by fastforce
  define joins where "joins = (if collects_join n then joins0 @ [Operator n cs] else joins0)"
  have base: "extraction_ok (m, joins)"
    using Operator.prems unfolding s joins_def by (auto simp: extraction_ok_def joins_ok_def)
  then have add: "extraction_ok (AddTableOperator x m, joins)"
    and ren: "extraction_ok (rename_exprs bs es m, joins)" for x bs es
    by (auto simp: extraction_ok_def AddTableOperator_tables)
  have first: "extraction_ok (ExtractOperatorsInternal c s')" if "cs = c # ds" "extraction_ok s'" for c ds s'
    using Operator.IH that by simp
  have folds: "extraction_ok (fold ExtractOperatorsInternal ds s')" if "set ds \<subseteq> set cs" "extraction_ok s'" for ds s'
    using that Operator.IH by (intro fold_extraction_ok) auto
  show ?case
    unfolding s ExtractOperatorsInternal.simps joins_def [symmetric] Let_def
    using base add ren folds [OF set_take_subset] folds [OF subset_refl]
    by (cases "op_type n")
      (simp_all add: first del: ExtractOperatorsInternal.simps split: list.split, auto intro: first)
qed

text \<open>The operators of a plan; the extracted tables are among them.\<close>

fun operators :: "logical_operator \<Rightarrow> logical_operator list" where
  "operators (Operator n cs) = Operator n cs # concat (map operators cs)"

definition tables_in :: "logical_operator set \<Rightarrow> table_operator_manager \<times> logical_operator list \<Rightarrow> bool" where
  "tables_in X s \<longleftrightarrow> snd ` set (table_operators (fst s)) \<subseteq> X"

lemma operators_self: "x \<in> set (operators x)"
  by (cases x) simp

lemma ExtractOperatorsInternal_tables:
  "tables_in X s \<Longrightarrow> set (operators x) \<subseteq> X \<Longrightarrow> tables_in X (ExtractOperatorsInternal x s)"
proof (induction x arbitrary: s)
  case (Operator n cs)
  obtain m joins0 where s: "s = (m, joins0)" by fastforce
  define joins where "joins = (if collects_join n then joins0 @ [Operator n cs] else joins0)"
  have base: "tables_in X (m, joins)" using Operator.prems(1) by (simp add: s tables_in_def)
  then have add: "tables_in X (AddTableOperator (Operator n cs) m, joins)"
    using Operator.prems(2) by (auto simp: tables_in_def AddTableOperator_def Let_def)
  have ren: "tables_in X (rename_exprs bs es m, joins)" for bs es using base by (simp add: tables_in_def)
  have sub: "set (operators c) \<subseteq> X" if "c \<in> set cs" for c using Operator.prems(2) that by auto
  have first: "tables_in X (ExtractOperatorsInternal c s')" if "cs = c # ds" "tables_in X s'" for c ds s'
    using Operator.IH sub that by simp
  have folds: "tables_in X (fold ExtractOperatorsInternal ds s')" if "set ds \<subseteq> set cs" "tables_in X s'" for ds s'
    using that Operator.IH sub by (induction ds arbitrary: s') auto
  show ?case
    unfolding s ExtractOperatorsInternal.simps joins_def [symmetric] Let_def
    using base add ren folds [OF set_take_subset] folds [OF subset_refl]
    by (cases "op_type n")
      (simp_all add: first del: ExtractOperatorsInternal.simps split: list.split, auto intro: first)
qed

lemma ExtractOperators_tables:
  "snd ` set (table_operators (fst (ExtractOperators plan empty_table_operator_manager))) \<subseteq> set (operators plan)"
proof -
  have "tables_in (set (operators plan)) (empty_table_operator_manager, [])"
    by (simp add: tables_in_def empty_table_operator_manager_def)
  from ExtractOperatorsInternal_tables [OF this order_refl] show ?thesis
    by (simp add: ExtractOperators_def tables_in_def SortTableOperators_def case_prod_beta)
qed

lemma ExtractOperators_props:
  "tables_ok (table_operators (fst (ExtractOperators plan empty_table_operator_manager)))
   \<and> joins_ok (snd (ExtractOperators plan empty_table_operator_manager))
   \<and> mset (sorted_table_operators (fst (ExtractOperators plan empty_table_operator_manager))) =
       mset (map snd (table_operators (fst (ExtractOperators plan empty_table_operator_manager))))
   \<and> sorted (map operator_cardinality
       (sorted_table_operators (fst (ExtractOperators plan empty_table_operator_manager))))"
proof -
  have "extraction_ok (empty_table_operator_manager, [])"
    by (simp add: extraction_ok_def tables_ok_def joins_ok_def empty_table_operator_manager_def)
  from ExtractOperatorsInternal_ok [OF this, of plan] show ?thesis
    by (auto simp: ExtractOperators_def extraction_ok_def SortTableOperators_def split: prod.split)
qed

text \<open>
  Extraction gives each table index one operator, registered under the index that
  \<open>GetScalarTableIndex\<close> computes for it, collects only joins with an equality between columns, and
  leaves the operators sorted by estimated cardinality.
\<close>
theorem ExtractOperators_ok:
  "tables_ok (table_operators (fst (ExtractOperators plan empty_table_operator_manager)))
   \<and> joins_ok (snd (ExtractOperators plan empty_table_operator_manager))
   \<and> mset (sorted_table_operators (fst (ExtractOperators plan empty_table_operator_manager))) =
       mset (map snd (table_operators (fst (ExtractOperators plan empty_table_operator_manager))))
   \<and> sorted (map operator_cardinality
       (sorted_table_operators (fst (ExtractOperators plan empty_table_operator_manager))))"
  by (rule ExtractOperators_props)

end
