(* ===== verification/TransferGraph.thy ===== *)
theory TransferGraph
  imports LogicalPlans "HOL-Library.AList"
begin

text \<open>
  The transfer graph, \<open>src/optimizer/predicate_transfer/dag.cpp\<close> and \<open>transfer_graph_manager.cpp\<close>: edges
  between tables are extracted from join conditions, a spanning forest is grown from the largest
  table, and every selected edge becomes filter transfers from later to earlier tables of the order.

  Dereferencing a null pointer is \<open>None\<close>; the lemmas show that it does not happen.  The iteration order
  of an \<open>unordered_set\<close> is a parameter \<open>iter\<close> that rearranges the elements.
\<close>

section \<open>The graph\<close>

record graph_edge =
  destination :: nat
  ge_left :: "column_binding list"
  ge_right :: "column_binding list"
  ge_types :: "nat list"
  ge_filter_plan :: "filter_plan list"

definition GraphEdge :: "nat \<Rightarrow> graph_edge" where
  "GraphEdge d = \<lparr>destination = d, ge_left = [], ge_right = [], ge_types = [], ge_filter_plan = []\<rparr>"

record graph_node =
  node_id :: nat
  cardinality_order :: int
  forward_in :: "graph_edge list"
  forward_out :: "graph_edge list"
  backward_in :: "graph_edge list"
  backward_out :: "graph_edge list"

definition GraphNode :: "nat \<Rightarrow> int \<Rightarrow> graph_node" where
  "GraphNode i priority = \<lparr>node_id = i, cardinality_order = priority, forward_in = [], forward_out = [],
     backward_in = [], backward_out = []\<rparr>"

text \<open>
  \<open>Add\<close> finds the edge to \<open>other\<close> or appends a new one and returns it; its callers write to the
  edge returned, here the function \<open>upd\<close>.
\<close>

fun add_edge :: "(graph_edge \<Rightarrow> graph_edge) \<Rightarrow> nat \<Rightarrow> graph_edge list \<Rightarrow> graph_edge list" where
  "add_edge upd other [] = [upd (GraphEdge other)]"
| "add_edge upd other (e # es) = (if destination e = other then upd e # es else e # add_edge upd other es)"

definition node_Add :: "(graph_edge \<Rightarrow> graph_edge) \<Rightarrow> nat \<Rightarrow> bool \<Rightarrow> bool \<Rightarrow> graph_node \<Rightarrow> graph_node" where
  "node_Add upd other is_forward is_in_edge n =
     (if is_forward then
        (if is_in_edge then n\<lparr>forward_in := add_edge upd other (forward_in n)\<rparr>
         else n\<lparr>forward_out := add_edge upd other (forward_out n)\<rparr>)
      else
        (if is_in_edge then n\<lparr>backward_in := add_edge upd other (backward_in n)\<rparr>
         else n\<lparr>backward_out := add_edge upd other (backward_out n)\<rparr>))"

definition Add_columns :: "nat \<Rightarrow> column_binding list \<Rightarrow> column_binding list \<Rightarrow> nat list \<Rightarrow> bool \<Rightarrow> bool \<Rightarrow>
    graph_node \<Rightarrow> graph_node" where
  "Add_columns other left_cols right_cols types =
     node_Add (\<lambda>e. e\<lparr>ge_left := left_cols, ge_right := right_cols, ge_types := types\<rparr>) other"

definition Add_filter_plan :: "nat \<Rightarrow> filter_plan \<Rightarrow> bool \<Rightarrow> bool \<Rightarrow> graph_node \<Rightarrow> graph_node" where
  "Add_filter_plan other plan = node_Add (\<lambda>e. e\<lparr>ge_filter_plan := ge_filter_plan e @ [plan]\<rparr>) other"

section \<open>State\<close>

record edge_info =
  ei_type :: nat
  left_table :: logical_operator
  left_binding :: column_binding
  right_table :: logical_operator
  right_binding :: column_binding
  protect_left :: bool
  protect_right :: bool

record join_key_table_group =
  jg_type :: nat
  table_ids :: "nat set"

type_synonym binding_parents = "column_binding \<Rightarrow> column_binding option"
type_synonym group_map = "(column_binding \<times> join_key_table_group) list"

record transfer_graph_manager =
  table_operator_manager_of :: table_operator_manager
  transfer_graph :: "nat \<Rightarrow> graph_node option"
  transfer_order :: "logical_operator list"
  neighbor_matrix :: "nat \<Rightarrow> nat \<Rightarrow> edge_info option"
  has_neighbors :: bool
  selected_edges :: "edge_info option list"
  table_groups :: group_map

section \<open>Join key groups\<close>

partial_function (option) FindBindingRoot ::
  "column_binding \<Rightarrow> binding_parents \<Rightarrow> (column_binding \<times> binding_parents) option" where
  [code]: "FindBindingRoot binding parents =
     (case parents binding of
        None \<Rightarrow> Some (binding, parents)
      | Some root \<Rightarrow>
          if root \<noteq> binding then
            Option.bind (FindBindingRoot root parents)
              (\<lambda>(root', parents'). Some (root', parents'(binding \<mapsto> root')))
          else Some (root, parents))"

definition JoinKeyTableGroup :: "nat \<Rightarrow> nat \<Rightarrow> join_key_table_group" where
  "JoinKeyTableGroup t table_id = \<lparr>jg_type = t, table_ids = {table_id}\<rparr>"

definition group_Union :: "join_key_table_group \<Rightarrow> join_key_table_group \<Rightarrow> join_key_table_group" where
  "group_Union g other = g\<lparr>table_ids := table_ids g \<union> table_ids other\<rparr>"

definition group_or_new :: "group_map \<Rightarrow> column_binding \<Rightarrow> nat \<Rightarrow> nat \<Rightarrow> join_key_table_group" where
  "group_or_new gm root t table_id =
     (case map_of gm root of Some g \<Rightarrow> g | None \<Rightarrow> JoinKeyTableGroup t table_id)"

definition UnionBindings ::
  "column_binding \<Rightarrow> column_binding \<Rightarrow> nat \<Rightarrow> binding_parents \<times> group_map \<Rightarrow> (binding_parents \<times> group_map) option"
where
  "UnionBindings a b t s =
     Option.bind (FindBindingRoot a (fst s)) (\<lambda>(root_a, p1).
     Option.bind (FindBindingRoot b p1) (\<lambda>(root_b, p2).
       if root_a = root_b then Some (p2, snd s)
       else
         let parents = p2(root_b \<mapsto> root_a);
             group_a = group_or_new (snd s) root_a t (table_index a);
             gm1 = AList.update root_a group_a (snd s);
             group_b = group_or_new gm1 root_b t (table_index b);
             gm2 = AList.update root_b group_b gm1
         in Some (parents, AList.update root_a (group_Union group_a group_b) gm2)))"

section \<open>Edges\<close>

text \<open>The state of the loops of \<open>ExtractEdgesInfo\<close>; \<open>expr_hash\<close> stands for \<open>Expression::Hash\<close>.\<close>

record edge_extraction =
  existed_set :: "u64 set"
  ee_parents :: binding_parents
  ee_groups :: group_map
  ee_matrix :: "nat \<Rightarrow> nat \<Rightarrow> edge_info option"
  ee_any :: bool

text \<open>The protection flags of an edge; \<open>None\<close> where the code skips the condition.\<close>

definition edge_protection :: "op_node \<Rightarrow> (bool \<times> bool) option" where
  "edge_protection n =
     (case op_type n of
        LOGICAL_COMPARISON_JOIN \<Rightarrow>
          (case join_type_of n of
             JOIN_LEFT \<Rightarrow> Some (True, False)
           | JOIN_RIGHT \<Rightarrow> Some (False, True)
           | JOIN_MARK \<Rightarrow> Some (False, True)
           | JOIN_INNER \<Rightarrow> Some (False, False)
           | JOIN_SEMI \<Rightarrow> Some (False, False)
           | JOIN_RIGHT_SEMI \<Rightarrow> Some (False, False)
           | _ \<Rightarrow> None)
      | LOGICAL_DELIM_JOIN \<Rightarrow> (if \<not> delim_flipped n then Some (True, False) else Some (False, True))
      | _ \<Rightarrow> None)"

definition store_edge :: "edge_info \<Rightarrow> edge_extraction \<Rightarrow> edge_extraction" where
  "store_edge e s =
     (let l = table_index (left_binding e); r = table_index (right_binding e);
          m1 = (ee_matrix s)(l := (ee_matrix s l)(r \<mapsto> e));
          m2 = m1(r := (m1 r)(l \<mapsto> e))
      in s\<lparr>ee_matrix := m2, ee_any := True\<rparr>)"

definition extract_condition ::
  "(plan_expr \<Rightarrow> u64) \<Rightarrow> table_operator_manager \<Rightarrow> op_node \<Rightarrow> join_condition \<Rightarrow> edge_extraction \<Rightarrow> edge_extraction option"
where
  "extract_condition expr_hash tom join cond s =
     (case (jc_left cond, jc_right cond) of
        (BOUND_COLUMN_REF l, BOUND_COLUMN_REF r) \<Rightarrow>
          if \<not> compare_equal cond then Some s
          else
            let h = expr_hash (jc_left cond) + expr_hash (jc_right cond)
            in if h \<in> existed_set s then Some s
               else
                 let s1 = s\<lparr>existed_set := insert h (existed_set s)\<rparr>
                 in Option.bind (GetRenaming (rename_col_bindings tom) l) (\<lambda>lb.
                    Option.bind (GetRenaming (rename_col_bindings tom) r) (\<lambda>rb.
                      case (GetTableOperator tom (table_index lb), GetTableOperator tom (table_index rb)) of
                        (Some left_node, Some right_node) \<Rightarrow>
                          (case edge_protection join of
                             None \<Rightarrow> Some s1
                           | Some (pl, pr) \<Rightarrow>
                               let edge = \<lparr>ei_type = jc_return_type cond, left_table = left_node,
                                     left_binding = lb, right_table = right_node, right_binding = rb,
                                     protect_left = pl, protect_right = pr\<rparr>;
                                   s2 = store_edge edge s1
                               in if \<not> pl \<and> \<not> pr
                                  then map_option (\<lambda>(p, g). s2\<lparr>ee_parents := p, ee_groups := g\<rparr>)
                                         (UnionBindings lb rb (jc_return_type cond) (ee_parents s2, ee_groups s2))
                                  else Some s2)
                      | _ \<Rightarrow> Some s1))
      | _ \<Rightarrow> Some s)"

definition extract_join ::
  "(plan_expr \<Rightarrow> u64) \<Rightarrow> table_operator_manager \<Rightarrow> logical_operator \<Rightarrow> edge_extraction \<Rightarrow> edge_extraction option" where
  "extract_join expr_hash tom j s =
     (if op_type (op_of j) \<notin> {LOGICAL_COMPARISON_JOIN, LOGICAL_DELIM_JOIN} then Some s
      else fold_opt (extract_condition expr_hash tom (op_of j)) (conditions (op_of j)) s)"

text \<open>The last loop resolves each group's binding to the group of its root.\<close>

fun finalize_groups :: "group_map \<Rightarrow> group_map \<Rightarrow> binding_parents \<Rightarrow> group_map option" where
  "finalize_groups gm [] parents = Some []"
| "finalize_groups gm ((b, _) # rest) parents =
     Option.bind (FindBindingRoot b parents) (\<lambda>(rep, parents').
       Option.bind (map_of gm rep) (\<lambda>g. map_option (Cons (b, g)) (finalize_groups gm rest parents')))"

definition ExtractEdgesInfo ::
  "(plan_expr \<Rightarrow> u64) \<Rightarrow> logical_operator list \<Rightarrow> transfer_graph_manager \<Rightarrow> transfer_graph_manager option" where
  "ExtractEdgesInfo expr_hash joins m =
     Option.bind (fold_opt (extract_join expr_hash (table_operator_manager_of m)) joins
       \<lparr>existed_set = {}, ee_parents = Map.empty, ee_groups = [], ee_matrix = neighbor_matrix m, ee_any = has_neighbors m\<rparr>)
     (\<lambda>s. map_option (\<lambda>gs. m\<lparr>neighbor_matrix := ee_matrix s, has_neighbors := ee_any s, table_groups := gs\<rparr>)
        (finalize_groups (ee_groups s) (ee_groups s) (ee_parents s)))"

section \<open>The spanning forest\<close>

text \<open>The body of the two loops of \<open>FindEdge\<close>; the state is the result, \<open>max_cardinality\<close> and \<open>is_indirected\<close>.\<close>

definition find_step ::
  "(nat \<Rightarrow> nat \<Rightarrow> edge_info option) \<Rightarrow> table_operator_manager \<Rightarrow> nat \<Rightarrow> nat \<Rightarrow>
   (nat \<times> nat) option \<times> nat \<times> bool \<Rightarrow> ((nat \<times> nat) option \<times> nat \<times> bool) option" where
  "find_step nm tom i j s =
     (case nm j i of
        None \<Rightarrow> Some s
      | Some edge \<Rightarrow>
          map_option (\<lambda>op.
            let (res, max_cardinality, is_indirected) = s;
                cardinality = operator_cardinality op
            in if cardinality > max_cardinality
                  \<or> (\<not> is_indirected \<and> \<not> protect_left edge \<and> \<not> protect_right edge)
               then (Some (j, i), cardinality, \<not> protect_left edge \<and> \<not> protect_right edge)
               else s)
          (GetTableOperator tom i))"

definition FindEdge ::
  "(nat list \<Rightarrow> nat list) \<Rightarrow> transfer_graph_manager \<Rightarrow> nat list \<Rightarrow> nat list \<Rightarrow> (nat \<times> nat) option option" where
  "FindEdge iter m constructed unconstructed =
     map_option fst
       (fold_opt (\<lambda>i. fold_opt (find_step (neighbor_matrix m) (table_operator_manager_of m) i) (iter constructed))
         (iter unconstructed) (None, 0, False))"

definition erase_table :: "nat \<Rightarrow> transfer_graph_manager \<Rightarrow> transfer_graph_manager" where
  "erase_table k m = m\<lparr>table_operator_manager_of := (table_operator_manager_of m)
     \<lparr>table_operators := filter (\<lambda>e. fst e \<noteq> k) (table_operators (table_operator_manager_of m))\<rparr>\<rparr>"

definition push_table :: "nat \<Rightarrow> transfer_graph_manager \<Rightarrow> transfer_graph_manager option" where
  "push_table k m =
     map_option (\<lambda>op. erase_table k (m\<lparr>transfer_order := transfer_order m @ [op]\<rparr>))
       (GetTableOperator (table_operator_manager_of m) k)"

text \<open>One round of the loop that grows the forest, after \<open>FindEdge\<close> chose \<open>(j, i)\<close>.\<close>

definition select_edge :: "nat \<Rightarrow> nat \<Rightarrow> int \<Rightarrow> transfer_graph_manager \<Rightarrow> transfer_graph_manager option" where
  "select_edge j i prior m =
     (let nm = neighbor_matrix m;
          m1 = m\<lparr>selected_edges := selected_edges m @ [nm j i], neighbor_matrix := nm(j := (nm j)(i := None))\<rparr>
      in Option.bind (transfer_graph m1 i) (\<lambda>node.
           push_table (node_id node)
             (m1\<lparr>transfer_graph := (transfer_graph m1)(i \<mapsto> node\<lparr>cardinality_order := prior\<rparr>)\<rparr>)))"

partial_function (option) build_loop ::
  "(nat list \<Rightarrow> nat list) \<Rightarrow> nat list \<Rightarrow> nat list \<Rightarrow> int \<Rightarrow> transfer_graph_manager \<Rightarrow> transfer_graph_manager option"
where
  [code]: "build_loop iter constructed unconstructed prior m =
     (if unconstructed = [] then Some m
      else Option.bind (FindEdge iter m constructed unconstructed) (\<lambda>sel.
        case sel of
          None \<Rightarrow> Some m
        | Some (j, i) \<Rightarrow>
            Option.bind (select_edge j i prior m) (\<lambda>m'.
              build_loop iter (constructed @ [i]) (remove1 i unconstructed) (prior - 1) m')))"

text \<open>The loop \<open>Initialize nodes\<close>: fresh graph nodes, the root, and the two sets.\<close>

definition init_nodes :: "(nat \<times> logical_operator) list \<Rightarrow> int \<Rightarrow> (nat \<Rightarrow> graph_node option) \<Rightarrow> nat \<Rightarrow> graph_node option" where
  "init_nodes ts prior g =
     (\<lambda>k. case map_of (zip (map fst ts) [0..<length ts]) k of
            None \<Rightarrow> g k
          | Some n \<Rightarrow> Some (GraphNode k (prior - int n)))"

definition LargestRoot :: "(nat list \<Rightarrow> nat list) \<Rightarrow> transfer_graph_manager \<Rightarrow> transfer_graph_manager option" where
  "LargestRoot iter m =
     (let tom = table_operator_manager_of m;
          ts = table_operators tom;
          prior = int (length ts) - 1;
          largest = last (sorted_table_operators tom);
          constructed = map fst (filter (\<lambda>e. snd e = largest) ts);
          unconstructed = map fst (filter (\<lambda>e. snd e \<noteq> largest) ts);
          m1 = m\<lparr>transfer_graph := init_nodes ts prior (transfer_graph m)\<rparr>
      in case constructed of
           [] \<Rightarrow> None
         | _ \<Rightarrow> Option.bind (push_table (last constructed) m1)
                  (build_loop iter constructed unconstructed (prior - int (length ts))))"

definition sort_tables :: "transfer_graph_manager \<Rightarrow> transfer_graph_manager" where
  "sort_tables m = m\<lparr>table_operator_manager_of := SortTableOperators (table_operator_manager_of m)\<rparr>"

partial_function (option) forest_loop ::
  "(nat list \<Rightarrow> nat list) \<Rightarrow> transfer_graph_manager \<Rightarrow> transfer_graph_manager option" where
  [code]: "forest_loop iter m =
     (if table_operators (table_operator_manager_of m) = [] then Some m
      else Option.bind (LargestRoot iter m) (\<lambda>m'. forest_loop iter (sort_tables m')))"

section \<open>Transfers\<close>

text \<open>
  The ids, binding and protection of the smaller and the larger side of an edge: the two sides are
  swapped when the left one comes first in the order.
\<close>

definition oriented :: "(nat \<Rightarrow> int) \<Rightarrow> edge_info \<Rightarrow> (nat \<times> column_binding \<times> bool) \<times> (nat \<times> column_binding \<times> bool)" where
  "oriented prio e =
     (let l = (GetScalarTableIndex (left_table e), left_binding e, protect_left e);
          r = (GetScalarTableIndex (right_table e), right_binding e, protect_right e)
      in if prio (fst l) > prio (fst r) then (r, l) else (l, r))"

definition modify_node :: "nat \<Rightarrow> (graph_node \<Rightarrow> graph_node) \<Rightarrow> (nat \<Rightarrow> graph_node option) \<Rightarrow>
    (nat \<Rightarrow> graph_node option) option" where
  "modify_node k f g = map_option (\<lambda>n. g(k \<mapsto> f n)) (g k)"

definition add_transfer :: "edge_info option \<Rightarrow> (nat \<Rightarrow> graph_node option) \<Rightarrow> (nat \<Rightarrow> graph_node option) option" where
  "add_transfer eo g =
     (case eo of
        None \<Rightarrow> Some g
      | Some e \<Rightarrow>
          if g (GetScalarTableIndex (left_table e)) = None \<or> g (GetScalarTableIndex (right_table e)) = None then None
          else
            let ((l, left_cols, protect_left), (r, right_cols, protect_right)) =
                  oriented (\<lambda>k. case g k of Some n \<Rightarrow> cardinality_order n | None \<Rightarrow> 0) e;
                t = ei_type e;
                forward = (if \<not> protect_right
                  then (\<lambda>g. Option.bind (modify_node l (Add_columns r [left_cols] [right_cols] [t] True False) g)
                              (modify_node r (Add_columns l [left_cols] [right_cols] [t] True True)))
                  else Some);
                backward = (if \<not> protect_left
                  then (\<lambda>g. Option.bind (modify_node l (Add_columns r [left_cols] [right_cols] [t] False True) g)
                              (modify_node r (Add_columns l [left_cols] [right_cols] [t] False False)))
                  else Some)
            in Option.bind (forward g) backward)"

definition CreateOriginTransferPlan ::
  "(nat list \<Rightarrow> nat list) \<Rightarrow> transfer_graph_manager \<Rightarrow> transfer_graph_manager option" where
  "CreateOriginTransferPlan iter m =
     (let saved_nodes = table_operators (table_operator_manager_of m)
      in Option.bind (forest_loop iter m) (\<lambda>m1.
           let m2 = m1\<lparr>table_operator_manager_of := (table_operator_manager_of m1)\<lparr>table_operators := saved_nodes\<rparr>\<rparr>
           in map_option (\<lambda>g. m2\<lparr>transfer_graph := g\<rparr>)
                (fold_opt add_transfer (selected_edges m2) (transfer_graph m2))))"

definition empty_graph_manager :: transfer_graph_manager where
  "empty_graph_manager = \<lparr>table_operator_manager_of = empty_table_operator_manager,
     transfer_graph = Map.empty, transfer_order = [], neighbor_matrix = (\<lambda>_. Map.empty),
     has_neighbors = False, selected_edges = [], table_groups = []\<rparr>"

text \<open>\<open>Build\<close> returns whether a transfer graph was built.\<close>

definition Build ::
  "(plan_expr \<Rightarrow> u64) \<Rightarrow> (nat list \<Rightarrow> nat list) \<Rightarrow> logical_operator \<Rightarrow> transfer_graph_manager \<Rightarrow>
   (bool \<times> transfer_graph_manager) option" where
  "Build expr_hash iter plan m =
     (let (tom, joins) = ExtractOperators plan (table_operator_manager_of m);
          m1 = m\<lparr>table_operator_manager_of := tom\<rparr>
      in if length (table_operators tom) < 2 then Some (False, m1)
         else Option.bind (ExtractEdgesInfo expr_hash joins m1) (\<lambda>m2.
           if \<not> has_neighbors m2 then Some (False, m2)
           else map_option (Pair True) (CreateOriginTransferPlan iter m2)))"

definition AddFilterPlan :: "nat \<Rightarrow> filter_plan \<Rightarrow> bool \<Rightarrow> transfer_graph_manager \<Rightarrow> transfer_graph_manager option" where
  "AddFilterPlan create_table plan reverse m =
     (case fp_apply plan of
        [] \<Rightarrow> None
      | expr # _ \<Rightarrow>
          map_option (\<lambda>g. m\<lparr>transfer_graph := g\<rparr>)
            (modify_node (table_index expr) (Add_filter_plan create_table plan (\<not> reverse) True) (transfer_graph m)))"

section \<open>Growing the forest\<close>

definition iterates :: "(nat list \<Rightarrow> nat list) \<Rightarrow> bool" where
  "iterates iter \<longleftrightarrow> (\<forall>xs. set (iter xs) = set xs)"

definition ids :: "transfer_graph_manager \<Rightarrow> nat list" where
  "ids m = map GetScalarTableIndex (transfer_order m)"

definition remaining :: "transfer_graph_manager \<Rightarrow> (nat \<times> logical_operator) list" where
  "remaining m = table_operators (table_operator_manager_of m)"

definition keys :: "transfer_graph_manager \<Rightarrow> nat list" where
  "keys m = map fst (remaining m)"

text \<open>The two tables an edge connects, and the table of each of its columns.\<close>

definition edge_ends :: "edge_info \<Rightarrow> nat \<Rightarrow> nat \<Rightarrow> bool" where
  "edge_ends e j i \<longleftrightarrow>
     {GetScalarTableIndex (left_table e), GetScalarTableIndex (right_table e)} = {j, i}
     \<and> table_index (left_binding e) = GetScalarTableIndex (left_table e)
     \<and> table_index (right_binding e) = GetScalarTableIndex (right_table e)"

definition matrix_ok :: "(nat \<Rightarrow> nat \<Rightarrow> edge_info option) \<Rightarrow> bool" where
  "matrix_ok nm \<longleftrightarrow> (\<forall>j i e. nm j i = Some e \<longrightarrow> edge_ends e j i)"

definition prio :: "(nat \<Rightarrow> graph_node option) \<Rightarrow> nat \<Rightarrow> int" where
  "prio g k = (case g k of Some n \<Rightarrow> cardinality_order n | None \<Rightarrow> 0)"

definition node_ok :: "(nat \<Rightarrow> graph_node option) \<Rightarrow> nat \<Rightarrow> bool" where
  "node_ok g k \<longleftrightarrow> (\<exists>n. g k = Some n \<and> node_id n = k \<and> forward_in n = [] \<and> forward_out n = []
     \<and> backward_in n = [] \<and> backward_out n = [])"

definition before :: "'a list \<Rightarrow> 'a \<Rightarrow> 'a \<Rightarrow> bool" where
  "before xs a b \<longleftrightarrow> (\<exists>ys zs. xs = ys @ zs \<and> a \<in> set ys \<and> b \<in> set zs)"

lemma before_append: "before xs a b \<Longrightarrow> before (xs @ ws) a b"
  unfolding before_def by (metis append.assoc Un_iff set_append)

lemma before_new: "a \<in> set xs \<Longrightarrow> before (xs @ [b]) a b"
  unfolding before_def by (metis list.set_intros(1))

lemma before_in: "before xs a b \<Longrightarrow> a \<in> set xs \<and> b \<in> set xs"
  by (auto simp: before_def)

text \<open>A selected edge with the table it was grown from and the table it added.\<close>

definition edge_pair :: "nat list \<Rightarrow> (nat \<Rightarrow> int) \<Rightarrow> edge_info option \<Rightarrow> nat \<times> nat \<Rightarrow> bool" where
  "edge_pair order p eo ji \<longleftrightarrow> (\<exists>e. eo = Some e \<and> edge_ends e (fst ji) (snd ji) \<and> p (snd ji) < p (fst ji)
     \<and> before order (fst ji) (snd ji))"

text \<open>
  The selected edges form a forest over the ordered tables: every table is a root or was added by
  exactly one edge.
\<close>

definition forest :: "transfer_graph_manager \<Rightarrow> bool" where
  "forest m \<longleftrightarrow> (\<exists>ps roots. list_all2 (edge_pair (ids m) (prio (transfer_graph m))) (selected_edges m) ps
     \<and> mset (roots @ map snd ps) = mset (ids m))"

definition graph_inv :: "transfer_graph_manager \<Rightarrow> bool" where
  "graph_inv m \<longleftrightarrow> tables_ok (remaining m) \<and> distinct (ids m) \<and> set (keys m) \<inter> set (ids m) = {}
     \<and> matrix_ok (neighbor_matrix m) \<and> (\<forall>k\<in>set (ids m). node_ok (transfer_graph m) k)
     \<and> dom (transfer_graph m) \<subseteq> set (ids m) \<union> set (keys m) \<and> forest m"

lemma edge_pair_mono:
  assumes "edge_pair order p eo ji" "\<And>k. k \<in> set order \<Longrightarrow> p' k = p k"
  shows "edge_pair (order @ ws) p' eo ji"
  using assms before_in [of order "fst ji" "snd ji"] by (auto simp: edge_pair_def intro: before_append)

lemma edge_pairs_mono:
  assumes "list_all2 (edge_pair order p) es ps" "\<And>k. k \<in> set order \<Longrightarrow> p' k = p k"
  shows "list_all2 (edge_pair (order @ ws) p') es ps"
  using assms(1) by (rule list_all2_mono) (rule edge_pair_mono [OF _ assms(2)])

subsection \<open>FindEdge\<close>

lemma FindEdge_ok:
  assumes "iterates iter"
    and "\<And>i. i \<in> set us \<Longrightarrow> GetTableOperator (table_operator_manager_of m) i \<noteq> None"
  shows "\<exists>r. FindEdge iter m cs us = Some r
    \<and> (\<forall>j i. r = Some (j, i) \<longrightarrow> j \<in> set cs \<and> i \<in> set us \<and> neighbor_matrix m j i \<noteq> None)"
proof -
  let ?P = "\<lambda>s :: (nat \<times> nat) option \<times> nat \<times> bool. \<forall>j i. fst s = Some (j, i) \<longrightarrow>
    j \<in> set cs \<and> i \<in> set us \<and> neighbor_matrix m j i \<noteq> None"
  let ?step = "find_step (neighbor_matrix m) (table_operator_manager_of m)"
  have step: "\<exists>s'. ?step i j s = Some s' \<and> ?P s'" if "i \<in> set us" "j \<in> set cs" "?P s" for i j s
  proof -
    obtain res mc ind where s: "s = (res, mc, ind)" by (rule prod_cases3)
    have "GetTableOperator (table_operator_manager_of m) i \<noteq> None" using assms(2) that(1) .
    then obtain x where "GetTableOperator (table_operator_manager_of m) i = Some x" by blast
    then show ?thesis using that by (cases "neighbor_matrix m j i") (auto simp: find_step_def s Let_def split: if_splits)
  qed
  have inner: "\<exists>s'. fold_opt (?step i) (iter cs) s = Some s' \<and> ?P s'" if "i \<in> set us" "?P s" for i s
  proof (rule fold_opt_inv_on)
    fix j s assume "j \<in> set (iter cs)" and s: "?P s"
    then have "j \<in> set cs" using assms(1) by (simp add: iterates_def)
    then show "\<exists>s'. ?step i j s = Some s' \<and> ?P s'" using step that(1) s by blast
  qed (rule that(2))
  have "\<exists>s'. fold_opt (\<lambda>i. fold_opt (?step i) (iter cs)) (iter us) (None, 0, False) = Some s' \<and> ?P s'"
    by (rule fold_opt_inv_on, rule inner) (use assms(1) in \<open>simp_all add: iterates_def\<close>)
  then show ?thesis by (auto simp: FindEdge_def)
qed

subsection \<open>Adding a table\<close>

lemma tables_ok_map_of: "tables_ok ts \<Longrightarrow> (k, x) \<in> set ts \<Longrightarrow> map_of ts k = Some x \<and> GetScalarTableIndex x = k"
  by (auto simp: tables_ok_def)

lemma tables_ok_filter: "tables_ok ts \<Longrightarrow> tables_ok (filter P ts)"
  by (auto simp: tables_ok_def distinct_map_filter)

lemma push_table_ok:
  assumes "tables_ok (remaining m)" "k \<in> set (keys m)"
  shows "\<exists>m'. push_table k m = Some m' \<and> ids m' = ids m @ [k]
    \<and> remaining m' = filter (\<lambda>e. fst e \<noteq> k) (remaining m)
    \<and> transfer_graph m' = transfer_graph m \<and> neighbor_matrix m' = neighbor_matrix m
    \<and> selected_edges m' = selected_edges m \<and> has_neighbors m' = has_neighbors m"
proof -
  obtain x where x: "(k, x) \<in> set (remaining m)" using assms(2) by (auto simp: keys_def)
  note tables_ok_map_of [OF assms(1) x]
  then show ?thesis
    by (auto simp: push_table_def GetTableOperator_def remaining_def erase_table_def ids_def)
qed

lemma keys_filter: "map fst (filter (\<lambda>e. fst e \<noteq> k) ts) = filter (\<lambda>x. x \<noteq> k) (map fst ts)"
  by (simp add: filter_map o_def)

text \<open>The invariant of the loop that grows a tree.\<close>

definition build_inv :: "nat list \<Rightarrow> nat list \<Rightarrow> int \<Rightarrow> transfer_graph_manager \<Rightarrow> bool" where
  "build_inv cs us prior m \<longleftrightarrow> graph_inv m \<and> set cs \<subseteq> set (ids m) \<and> set us = set (keys m) \<and> distinct us
     \<and> (\<forall>k\<in>set us. node_ok (transfer_graph m) k) \<and> (\<forall>k\<in>set cs. prior < prio (transfer_graph m) k)"

lemma select_edge_ok:
  assumes inv: "build_inv cs us prior m" and sel: "j \<in> set cs" "i \<in> set us" "neighbor_matrix m j i = Some e"
  shows "\<exists>m'. select_edge j i prior m = Some m' \<and> build_inv (cs @ [i]) (remove1 i us) (prior - 1) m'
    \<and> ids m' = ids m @ [i] \<and> keys m' = filter (\<lambda>x. x \<noteq> i) (keys m)"
proof -
  let ?nm = "neighbor_matrix m" and ?g = "transfer_graph m"
  have g: "graph_inv m" and cs: "set cs \<subseteq> set (ids m)" and us: "set us = set (keys m)" "distinct us"
    and nodes: "\<And>k. k \<in> set us \<Longrightarrow> node_ok ?g k" and pr: "\<And>k. k \<in> set cs \<Longrightarrow> prior < prio ?g k"
    using inv by (auto simp: build_inv_def)
  obtain n where n: "?g i = Some n" "node_id n = i" using nodes [OF sel(2)] by (auto simp: node_ok_def)
  let ?g' = "?g(i \<mapsto> n\<lparr>cardinality_order := prior\<rparr>)"
  let ?m = "m\<lparr>selected_edges := selected_edges m @ [Some e], neighbor_matrix := ?nm(j := (?nm j)(i := None)),
      transfer_graph := ?g'\<rparr>"
  have rem: "remaining ?m = remaining m" "keys ?m = keys m" "ids ?m = ids m"
    by (simp_all add: remaining_def keys_def ids_def)
  have i: "i \<in> set (keys m)" "i \<notin> set (ids m)" using sel(2) us g by (auto simp: graph_inv_def)
  have t: "tables_ok (remaining m)" using g by (simp add: graph_inv_def)
  from push_table_ok [of ?m i] t i rem obtain m' where m': "push_table i ?m = Some m'" "ids m' = ids m @ [i]"
    "remaining m' = filter (\<lambda>e. fst e \<noteq> i) (remaining m)" "transfer_graph m' = ?g'"
    "neighbor_matrix m' = ?nm(j := (?nm j)(i := None))" "selected_edges m' = selected_edges m @ [Some e]"
    by auto
  have sel': "select_edge j i prior m = Some m'"
    using m'(1) n sel(3) by (simp add: select_edge_def Let_def)
  have keys': "keys m' = filter (\<lambda>x. x \<noteq> i) (keys m)" by (simp add: keys_def m'(3) keys_filter)
  have same: "prio ?g' k = prio ?g k" if "k \<noteq> i" for k using that by (simp add: prio_def)
  have pi: "prio ?g' i = prior" by (simp add: prio_def)
  have node': "node_ok ?g' k" if "node_ok ?g k" for k
    using that n by (cases "k = i") (auto simp: node_ok_def)
  have j: "j \<in> set (ids m)" "j \<noteq> i" using sel(1) cs i(2) by auto
  have "forest m'"
  proof -
    from g obtain ps roots where ps: "list_all2 (edge_pair (ids m) (prio ?g)) (selected_edges m) ps"
      "mset (roots @ map snd ps) = mset (ids m)" by (auto simp: graph_inv_def forest_def)
    have "prio ?g' k = prio ?g k" if "k \<in> set (ids m)" for k using that i(2) by (intro same) auto
    then have "list_all2 (edge_pair (ids m @ [i]) (prio ?g')) (selected_edges m) ps"
      by (rule edge_pairs_mono [OF ps(1)])
    moreover have "edge_pair (ids m @ [i]) (prio ?g') (Some e) (j, i)"
      using g sel pr [OF sel(1)] j same [OF j(2)] pi before_new [OF j(1)]
      by (simp add: edge_pair_def graph_inv_def matrix_ok_def)
    ultimately have "list_all2 (edge_pair (ids m') (prio (transfer_graph m'))) (selected_edges m') (ps @ [(j, i)])"
      unfolding m' by (intro list_all2_appendI) simp_all
    moreover have "mset (roots @ map snd (ps @ [(j, i)])) = mset (ids m')" using ps(2) by (simp add: m'(2))
    ultimately show ?thesis unfolding forest_def by blast
  qed
  moreover have "matrix_ok (neighbor_matrix m')"
    using g unfolding m'(5) by (auto simp: graph_inv_def matrix_ok_def)
  moreover have "\<forall>k\<in>set (ids m'). node_ok (transfer_graph m') k"
    using g nodes [OF sel(2)] node' unfolding m'(2,4) by (auto simp: graph_inv_def)
  moreover have "tables_ok (remaining m')" unfolding m'(3) using t by (rule tables_ok_filter)
  moreover have "distinct (ids m')" "set (keys m') \<inter> set (ids m') = {}"
    using g i(2) unfolding m'(2) keys' by (auto simp: graph_inv_def)
  moreover have "dom (transfer_graph m') \<subseteq> set (ids m') \<union> set (keys m')"
    using g unfolding m'(2,4) keys' by (auto simp: graph_inv_def)
  ultimately have "graph_inv m'" by (simp add: graph_inv_def)
  moreover have "\<forall>k\<in>set (remove1 i us). node_ok (transfer_graph m') k"
    using nodes node' us(2) unfolding m'(4) by simp
  moreover have "\<forall>k\<in>set (cs @ [i]). prior - 1 < prio (transfer_graph m') k"
  proof
    fix k assume "k \<in> set (cs @ [i])"
    then show "prior - 1 < prio (transfer_graph m') k"
      using pr [of k] same [of k] pi unfolding m'(4) by (cases "k = i") auto
  qed
  ultimately have "build_inv (cs @ [i]) (remove1 i us) (prior - 1) m'"
    using cs us unfolding build_inv_def m'(2) keys' by auto
  then show ?thesis using sel' m'(2) keys' by blast
qed

subsection \<open>One tree\<close>

lemma build_loop_ok:
  assumes "iterates iter"
  shows "build_inv cs us prior m \<Longrightarrow> \<exists>m'. build_loop iter cs us prior m = Some m' \<and> graph_inv m'
    \<and> mset (ids m' @ keys m') = mset (ids m @ keys m) \<and> length (keys m') \<le> length (keys m)"
proof (induction "length us" arbitrary: cs us prior m rule: less_induct)
  case less
  show ?case
  proof (cases "us = []")
    case True
    with less.prems show ?thesis by (simp add: build_loop.simps build_inv_def)
  next
    case False
    have us: "set us = set (keys m)" "distinct us" and g: "graph_inv m"
      using less.prems by (auto simp: build_inv_def)
    have ops: "GetTableOperator (table_operator_manager_of m) i \<noteq> None" if "i \<in> set us" for i
      using that us(1) by (simp add: GetTableOperator_def keys_def remaining_def map_of_eq_None_iff)
    from FindEdge_ok [OF assms ops, where cs = cs] obtain r where r: "FindEdge iter m cs us = Some r"
      "\<And>j i. r = Some (j, i) \<Longrightarrow> j \<in> set cs \<and> i \<in> set us \<and> neighbor_matrix m j i \<noteq> None" by blast
    show ?thesis
    proof (cases r)
      case None
      with r False g show ?thesis by (subst build_loop.simps) simp
    next
      case (Some ji)
      obtain j i where ji: "ji = (j, i)" by fastforce
      obtain e where sel: "j \<in> set cs" "i \<in> set us" "neighbor_matrix m j i = Some e"
        using r(2) Some ji by blast
      from select_edge_ok [OF less.prems sel] obtain m1 where m1: "select_edge j i prior m = Some m1"
        "build_inv (cs @ [i]) (remove1 i us) (prior - 1) m1" "ids m1 = ids m @ [i]"
        "keys m1 = filter (\<lambda>x. x \<noteq> i) (keys m)" by blast
      have "length (remove1 i us) < length us"
        using sel(2) length_pos_if_in_set [OF sel(2)] by (simp add: length_remove1)
      from less.hyps [OF this m1(2)] obtain m' where m': "build_loop iter (cs @ [i]) (remove1 i us) (prior - 1) m1 = Some m'"
        "graph_inv m'" "mset (ids m' @ keys m') = mset (ids m1 @ keys m1)" "length (keys m') \<le> length (keys m1)" by blast
      have "distinct (keys m)" using g by (simp add: graph_inv_def tables_ok_def keys_def)
      then have "mset (keys m) = add_mset i (mset (keys m1))"
        using sel(2) us(1) unfolding m1(4) by (intro mset_filter_neq) simp_all
      moreover have "length (keys m1) \<le> length (keys m)" unfolding m1(4) by simp
      ultimately show ?thesis
        using m' m1(1,3) r(1) Some ji False by (subst build_loop.simps) auto
    qed
  qed
qed

lemma tables_ok_unique:
  assumes "tables_ok ts" "(k, x) \<in> set ts"
  shows "map fst (filter (\<lambda>e. snd e = x) ts) = [k]"
  using assms
proof (induction ts)
  case (Cons e ts)
  have ok: "tables_ok ts" using Cons.prems(1) by (simp add: tables_ok_def)
  have key: "fst e' = GetScalarTableIndex (snd e')" if "e' \<in> set (e # ts)" for e'
    using that Cons.prems(1) unfolding tables_ok_def by (cases e') auto
  show ?case
  proof (cases "e = (k, x)")
    case True
    have "snd e' \<noteq> x" if "e' \<in> set ts" for e'
    proof
      assume "snd e' = x"
      then have "fst e' = k" using key [of e'] key [of e] that True by simp
      then have "k \<in> fst ` set ts" using that by (metis imageI)
      then show False using Cons.prems(1) True by (simp add: tables_ok_def)
    qed
    then have "filter (\<lambda>e. snd e = x) ts = []" by (simp add: filter_empty_conv)
    with True show ?thesis by simp
  next
    case False
    then have in_ts: "(k, x) \<in> set ts" using Cons.prems(2) by simp
    have "snd e \<noteq> x"
    proof
      assume "snd e = x"
      then have "fst e = k" using key [of e] key [of "(k, x)"] in_ts by simp
      with \<open>snd e = x\<close> False show False by (cases e) simp
    qed
    then show ?thesis using Cons.IH [OF ok in_ts] by simp
  qed
qed simp

lemma init_nodes_new:
  assumes "distinct (map fst ts)" "k \<in> set (map fst ts)"
  shows "node_ok (init_nodes ts prior g) k \<and> prior - int (length ts) < prio (init_nodes ts prior g) k"
proof -
  obtain n where n: "n < length ts" "map fst ts ! n = k" using assms(2) by (metis in_set_conv_nth length_map)
  have "map_of (zip (map fst ts) [0..<length ts]) (map fst ts ! n) = Some ([0..<length ts] ! n)"
    using assms(1) n(1) by (intro map_of_zip_nth) simp_all
  then show ?thesis using n by (simp add: init_nodes_def node_ok_def prio_def GraphNode_def)
qed

lemma init_nodes_old: "k \<notin> set (map fst ts) \<Longrightarrow> init_nodes ts prior g k = g k"
proof -
  assume "k \<notin> set (map fst ts)"
  then have "map_of (zip (map fst ts) [0..<length ts]) k = None"
    unfolding map_of_eq_None_iff by (auto dest: set_zip_leftD)
  then show ?thesis by (simp only: init_nodes_def option.case)
qed

definition sorted_ok :: "transfer_graph_manager \<Rightarrow> bool" where
  "sorted_ok m \<longleftrightarrow> set (sorted_table_operators (table_operator_manager_of m)) = set (map snd (remaining m))"

lemma LargestRoot_ok:
  assumes "iterates iter" "graph_inv m" "remaining m \<noteq> []" "sorted_ok m"
  shows "\<exists>m'. LargestRoot iter m = Some m' \<and> graph_inv m' \<and> mset (ids m' @ keys m') = mset (ids m @ keys m)
    \<and> length (keys m') < length (keys m)"
proof -
  let ?ts = "remaining m" and ?p = "int (length (remaining m)) - 1"
  let ?x = "last (sorted_table_operators (table_operator_manager_of m))"
  let ?g = "init_nodes ?ts ?p (transfer_graph m)"
  let ?m = "m\<lparr>transfer_graph := ?g\<rparr>"
  let ?us = "map fst (filter (\<lambda>e. snd e \<noteq> ?x) ?ts)"
  have ok: "tables_ok ?ts" and dist: "distinct (ids m)" and disj: "set (keys m) \<inter> set (ids m) = {}"
    and nm: "matrix_ok (neighbor_matrix m)" and nodes: "\<And>k. k \<in> set (ids m) \<Longrightarrow> node_ok (transfer_graph m) k"
    using assms(2) by (auto simp: graph_inv_def)
  have dk: "distinct (map fst ?ts)" using ok by (simp add: tables_ok_def)
  have "set (sorted_table_operators (table_operator_manager_of m)) \<noteq> {}"
    using assms(3,4) by (simp add: sorted_ok_def)
  then have "?x \<in> set (sorted_table_operators (table_operator_manager_of m))" by simp
  then obtain k where k: "(k, ?x) \<in> set ?ts" using assms(4) by (auto simp: sorted_ok_def)
  have cons: "map fst (filter (\<lambda>e. snd e = ?x) ?ts) = [k]" by (rule tables_ok_unique [OF ok k])
  have k_in: "k \<in> set (keys m)" using k by (force simp: keys_def)
  have rem: "remaining ?m = ?ts" "ids ?m = ids m" "keys ?m = keys m" by (simp_all add: remaining_def ids_def keys_def)
  from push_table_ok [of ?m k] ok k_in rem obtain m1 where m1: "push_table k ?m = Some m1" "ids m1 = ids m @ [k]"
    "remaining m1 = filter (\<lambda>e. fst e \<noteq> k) ?ts" "transfer_graph m1 = ?g"
    "neighbor_matrix m1 = neighbor_matrix m" "selected_edges m1 = selected_edges m" by auto
  have keys1: "keys m1 = filter (\<lambda>x. x \<noteq> k) (keys m)" by (simp add: keys_def m1(3) keys_filter)
  have "(snd e \<noteq> ?x) = (fst e \<noteq> k)" if "e \<in> set ?ts" for e
  proof -
    have "fst e = GetScalarTableIndex (snd e)" "k = GetScalarTableIndex ?x"
      using that k ok unfolding tables_ok_def by auto
    moreover have "snd e = ?x" if "fst e = k"
    proof -
      have "(k, snd e) \<in> set ?ts" using \<open>e \<in> set ?ts\<close> that by (metis prod.collapse)
      then show ?thesis using eq_key_imp_eq_value [OF dk k] by simp
    qed
    ultimately show ?thesis by (cases "fst e = k") auto
  qed
  then have "filter (\<lambda>e. snd e \<noteq> ?x) ?ts = filter (\<lambda>e. fst e \<noteq> k) ?ts" by (rule filter_cong [OF refl])
  then have us: "?us = keys m1" by (simp only: keys_def m1(3))
  have old: "?g i = transfer_graph m i" if "i \<in> set (ids m)" for i
    using that disj by (intro init_nodes_old) (auto simp: keys_def)
  have k_new: "k \<notin> set (ids m)" using k_in disj by auto
  have new: "node_ok ?g i \<and> ?p - int (length ?ts) < prio ?g i" if "i \<in> set (keys m)" for i
    using that dk by (intro init_nodes_new) (auto simp: keys_def)
  have "forest m1"
  proof -
    from assms(2) obtain ps roots where ps: "list_all2 (edge_pair (ids m) (prio (transfer_graph m))) (selected_edges m) ps"
      "mset (roots @ map snd ps) = mset (ids m)" by (auto simp: graph_inv_def forest_def)
    have "list_all2 (edge_pair (ids m1) (prio (transfer_graph m1))) (selected_edges m1) ps"
      unfolding m1 by (rule edge_pairs_mono [OF ps(1)]) (simp add: prio_def old)
    moreover have "mset ((roots @ [k]) @ map snd ps) = mset (ids m1)" using ps(2) by (simp add: m1(2))
    ultimately show ?thesis unfolding forest_def by blast
  qed
  moreover have "\<forall>i\<in>set (ids m1). node_ok (transfer_graph m1) i"
    using nodes old new [OF k_in] unfolding m1(2,4) by (auto simp: node_ok_def)
  moreover have "dom (transfer_graph m1) \<subseteq> set (ids m1) \<union> set (keys m1)"
  proof
    fix i assume "i \<in> dom (transfer_graph m1)"
    then have "i \<in> dom ?g" by (simp add: m1(4))
    then have "i \<in> dom (transfer_graph m) \<or> i \<in> set (keys m)"
      using init_nodes_old [of i ?ts ?p "transfer_graph m"]
      by (cases "i \<in> set (map fst ?ts)") (simp_all add: keys_def domIff)
    then show "i \<in> set (ids m1) \<union> set (keys m1)"
      using assms(2) unfolding m1(2) keys1 by (auto simp: graph_inv_def)
  qed
  ultimately have g1: "graph_inv m1"
    using tables_ok_filter [OF ok, of "\<lambda>e. fst e \<noteq> k"] dist disj nm k_new
    unfolding graph_inv_def keys1 m1(2,3,5) by auto
  have "build_inv [k] ?us (?p - int (length ?ts)) m1"
    using g1 new k_in dk unfolding build_inv_def us
    by (auto simp: m1(2,4) keys1) (simp add: keys_def)
  from build_loop_ok [OF assms(1) this] obtain m' where m': "build_loop iter [k] ?us (?p - int (length ?ts)) m1 = Some m'"
    "graph_inv m'" "mset (ids m' @ keys m') = mset (ids m1 @ keys m1)" "length (keys m') \<le> length (keys m1)" by blast
  have "distinct (keys m)" using dk by (simp add: keys_def)
  then have ms: "mset (keys m) = add_mset k (mset (keys m1))"
    using k_in unfolding keys1 by (intro mset_filter_neq)
  have "LargestRoot iter m = Some m'"
    using m1(1) m'(1) cons by (simp add: LargestRoot_def Let_def remaining_def)
  moreover have "mset (ids m' @ keys m') = mset (ids m @ keys m)" using m'(3) ms by (simp add: m1(2))
  moreover have "length (keys m') < length (keys m)"
    using m'(4) ms by (metis Suc_le_eq le_imp_less_Suc mset_eq_length size_add_mset size_mset)
  ultimately show ?thesis using m'(2) by blast
qed

subsection \<open>All trees\<close>

lemma graph_inv_sort [simp]: "graph_inv (sort_tables m) = graph_inv m" "ids (sort_tables m) = ids m"
  "keys (sort_tables m) = keys m" "remaining (sort_tables m) = remaining m"
  by (simp_all add: graph_inv_def sort_tables_def SortTableOperators_def remaining_def keys_def ids_def forest_def)

lemma sorted_ok_sort: "sorted_ok (sort_tables m)"
  by (simp add: sorted_ok_def sort_tables_def SortTableOperators_def remaining_def)

lemma forest_loop_ok:
  assumes "iterates iter"
  shows "graph_inv m \<Longrightarrow> sorted_ok m \<Longrightarrow> \<exists>m'. forest_loop iter m = Some m' \<and> graph_inv m'
    \<and> keys m' = [] \<and> mset (ids m') = mset (ids m @ keys m)"
proof (induction "length (keys m)" arbitrary: m rule: less_induct)
  case less
  show ?case
  proof (cases "remaining m = []")
    case True
    then show ?thesis using less.prems by (simp add: forest_loop.simps remaining_def keys_def)
  next
    case False
    from LargestRoot_ok [OF assms less.prems(1) False less.prems(2)] obtain m1 where m1: "LargestRoot iter m = Some m1"
      "graph_inv m1" "mset (ids m1 @ keys m1) = mset (ids m @ keys m)" "length (keys m1) < length (keys m)" by blast
    have "length (keys (sort_tables m1)) < length (keys m)" using m1(4) by simp
    from less.hyps [OF this] m1(2) sorted_ok_sort obtain m' where
      "forest_loop iter (sort_tables m1) = Some m'" "graph_inv m'" "keys m' = []" "mset (ids m') = mset (ids m1 @ keys m1)"
      by auto
    then show ?thesis using m1 False by (subst forest_loop.simps) (simp add: remaining_def)
  qed
qed

section \<open>The transfers of a plan\<close>

definition dests :: "graph_edge list \<Rightarrow> nat set" where
  "dests es = destination ` set es"

lemma dests_add_edge:
  assumes "\<And>e. destination (upd e) = destination e"
  shows "dests (add_edge upd d es) = insert d (dests es)"
  using assms by (induction es) (auto simp: dests_def GraphEdge_def)

text \<open>What a column transfer from the smaller to the larger table writes.\<close>

definition columns_edge :: "nat \<Rightarrow> column_binding \<Rightarrow> column_binding \<Rightarrow> graph_edge \<Rightarrow> bool" where
  "columns_edge d cl cr e \<longleftrightarrow> destination e = d \<and> ge_left e = [cl] \<and> ge_right e = [cr]
     \<and> length (ge_types e) = 1 \<and> ge_filter_plan e = []"

lemma add_columns_edge:
  assumes "\<And>e. e \<in> set es \<Longrightarrow> ge_filter_plan e = []"
    and "x \<in> set (add_edge (\<lambda>e. e\<lparr>ge_left := [cl], ge_right := [cr], ge_types := [t]\<rparr>) d es)"
  shows "x \<in> set es \<or> columns_edge d cl cr x"
  using assms
proof (induction es)
  case (Cons e es)
  show ?case
  proof (cases "destination e = d")
    case True
    then show ?thesis using Cons.prems by (auto simp: columns_edge_def)
  next
    case False
    then show ?thesis using Cons by auto
  qed
qed (simp add: columns_edge_def GraphEdge_def)

text \<open>
  \<open>sends p sel forward a b cl cr\<close>: a selected edge whose smaller side is \<open>a\<close> and larger side \<open>b\<close> transfers in
  the given direction, its receiving side not being protected.
\<close>

definition sends :: "(nat \<Rightarrow> int) \<Rightarrow> edge_info option set \<Rightarrow> bool \<Rightarrow> nat \<Rightarrow> nat \<Rightarrow> column_binding \<Rightarrow> column_binding \<Rightarrow> bool"
where
  "sends p sel forward a b cl cr \<longleftrightarrow> (\<exists>e pl pr. Some e \<in> sel \<and> oriented p e = ((a, cl, pl), (b, cr, pr))
     \<and> (if forward then \<not> pr else \<not> pl))"

definition edges_from :: "(graph_edge \<Rightarrow> column_binding \<Rightarrow> column_binding \<Rightarrow> bool) \<Rightarrow> graph_edge list \<Rightarrow> bool" where
  "edges_from P es \<longleftrightarrow> (\<forall>e\<in>set es. \<exists>cl cr. columns_edge (destination e) cl cr e \<and> P e cl cr)"

definition node_inv :: "(nat \<Rightarrow> int) \<Rightarrow> edge_info option set \<Rightarrow> nat \<Rightarrow> graph_node \<Rightarrow> bool" where
  "node_inv p sel k n \<longleftrightarrow> node_id n = k \<and> cardinality_order n = p k
     \<and> edges_from (\<lambda>e. sends p sel True k (destination e)) (forward_out n)
     \<and> edges_from (\<lambda>e. sends p sel True (destination e) k) (forward_in n)
     \<and> edges_from (\<lambda>e. sends p sel False k (destination e)) (backward_in n)
     \<and> edges_from (\<lambda>e. sends p sel False (destination e) k) (backward_out n)"

lemma edges_from_add:
  assumes "edges_from P es" "\<And>e. columns_edge d cl cr e \<Longrightarrow> P e cl cr"
  shows "edges_from P (add_edge (\<lambda>e. e\<lparr>ge_left := [cl], ge_right := [cr], ge_types := [t]\<rparr>) d es)"
  unfolding edges_from_def
proof
  fix x assume "x \<in> set (add_edge (\<lambda>e. e\<lparr>ge_left := [cl], ge_right := [cr], ge_types := [t]\<rparr>) d es)"
  moreover have "ge_filter_plan e = []" if "e \<in> set es" for e
    using that assms(1) by (auto simp: edges_from_def columns_edge_def)
  ultimately have "x \<in> set es \<or> columns_edge d cl cr x" by (rule add_columns_edge [rotated])
  then show "\<exists>cl cr. columns_edge (destination x) cl cr x \<and> P x cl cr"
    using assms by (auto simp: edges_from_def columns_edge_def)
qed

lemma node_inv_add:
  assumes "node_inv p sel k n"
    and "if is_forward then (if is_in then sends p sel True d k cl cr else sends p sel True k d cl cr)
         else (if is_in then sends p sel False k d cl cr else sends p sel False d k cl cr)"
  shows "node_inv p sel k (Add_columns d [cl] [cr] [t] is_forward is_in n)"
  using assms edges_from_add
  by (cases is_forward; cases is_in)
    (simp_all add: node_inv_def Add_columns_def node_Add_def columns_edge_def)

text \<open>All destinations a node has, by stage and direction.\<close>

definition node_dests :: "bool \<Rightarrow> bool \<Rightarrow> graph_node \<Rightarrow> nat set" where
  "node_dests is_forward is_in n = dests
     (if is_forward then (if is_in then forward_in n else forward_out n)
      else (if is_in then backward_in n else backward_out n))"

lemma node_dests_add:
  "node_dests f i (Add_columns d cl cr t f' i' n) =
    (if f = f' \<and> i = i' then insert d (node_dests f i n) else node_dests f i n)"
  by (simp add: node_dests_def Add_columns_def node_Add_def dests_add_edge)

definition graph_ok :: "(nat \<Rightarrow> int) \<Rightarrow> edge_info option set \<Rightarrow> (nat \<Rightarrow> graph_node option) \<Rightarrow> bool" where
  "graph_ok p sel g \<longleftrightarrow> (\<forall>k n. g k = Some n \<longrightarrow> node_inv p sel k n)"

text \<open>\<open>extends g g'\<close>: the same nodes, with at least the same destinations.\<close>

definition extends :: "(nat \<Rightarrow> graph_node option) \<Rightarrow> (nat \<Rightarrow> graph_node option) \<Rightarrow> bool" where
  "extends g g' \<longleftrightarrow> dom g' = dom g \<and> (\<forall>k n n' f i. g k = Some n \<longrightarrow> g' k = Some n' \<longrightarrow> node_dests f i n \<subseteq> node_dests f i n')"

definition sent :: "(nat \<Rightarrow> graph_node option) \<Rightarrow> bool \<Rightarrow> bool \<Rightarrow> nat \<Rightarrow> nat \<Rightarrow> bool" where
  "sent g f i k d \<longleftrightarrow> (\<exists>n. g k = Some n \<and> d \<in> node_dests f i n)"

lemma extends_refl: "extends g g" by (auto simp: extends_def)

lemma extends_trans: "extends g h \<Longrightarrow> extends h j \<Longrightarrow> extends g j"
  unfolding extends_def by (metis domIff option.exhaust order_trans)

lemma extends_sent: "extends g g' \<Longrightarrow> sent g f i k d \<Longrightarrow> sent g' f i k d"
proof -
  assume e: "extends g g'" and "sent g f i k d"
  then obtain n where n: "g k = Some n" "d \<in> node_dests f i n" by (auto simp: sent_def)
  then have "k \<in> dom g'" using e by (auto simp: extends_def)
  then obtain n' where "g' k = Some n'" by blast
  then show "sent g' f i k d" using e n unfolding extends_def sent_def by blast
qed

lemma modify_node_add:
  assumes "graph_ok p sel g" "k \<in> dom g"
    and "if f then (if i then sends p sel True d k cl cr else sends p sel True k d cl cr)
         else (if i then sends p sel False k d cl cr else sends p sel False d k cl cr)"
  shows "\<exists>g'. modify_node k (Add_columns d [cl] [cr] [t] f i) g = Some g' \<and> graph_ok p sel g' \<and> extends g g'
    \<and> sent g' f i k d"
proof -
  obtain n where n: "g k = Some n" using assms(2) by blast
  let ?n = "Add_columns d [cl] [cr] [t] f i n"
  have "node_inv p sel k ?n" using assms(1,3) n by (intro node_inv_add) (auto simp: graph_ok_def)
  then have "graph_ok p sel (g(k \<mapsto> ?n))" using assms(1) by (auto simp: graph_ok_def)
  moreover have "extends g (g(k \<mapsto> ?n))" using n by (auto simp: extends_def node_dests_add)
  ultimately show ?thesis using n by (auto simp: modify_node_def sent_def node_dests_add)
qed

text \<open>What an edge must have led to once it was processed.\<close>

definition edge_done :: "(nat \<Rightarrow> int) \<Rightarrow> (nat \<Rightarrow> graph_node option) \<Rightarrow> edge_info \<Rightarrow> bool" where
  "edge_done p g e \<longleftrightarrow> (\<forall>a cl pl b cr pr. oriented p e = ((a, cl, pl), (b, cr, pr)) \<longrightarrow>
     (\<not> pr \<longrightarrow> sent g True False a b \<and> sent g True True b a) \<and> (\<not> pl \<longrightarrow> sent g False True a b \<and> sent g False False b a))"

lemma edge_done_extends: "edge_done p g e \<Longrightarrow> extends g g' \<Longrightarrow> edge_done p g' e"
  unfolding edge_done_def using extends_sent by blast

lemma pair_add:
  assumes g: "graph_ok p sel g" "a \<in> dom g" "b \<in> dom g" and s: "sends p sel f a b cl cr"
  shows "\<exists>g'. Option.bind (modify_node a (Add_columns b [cl] [cr] [t] f (\<not> f)) g)
      (modify_node b (Add_columns a [cl] [cr] [t] f f)) = Some g'
    \<and> graph_ok p sel g' \<and> extends g g' \<and> sent g' f (\<not> f) a b \<and> sent g' f f b a"
proof -
  have "\<exists>g1. modify_node a (Add_columns b [cl] [cr] [t] f (\<not> f)) g = Some g1 \<and> graph_ok p sel g1 \<and> extends g g1
      \<and> sent g1 f (\<not> f) a b"
    using s by (intro modify_node_add [OF g(1,2)]) (cases f; simp)
  then obtain g1 where g1: "modify_node a (Add_columns b [cl] [cr] [t] f (\<not> f)) g = Some g1" "graph_ok p sel g1"
    "extends g g1" "sent g1 f (\<not> f) a b" by blast
  have "b \<in> dom g1" using g(3) g1(3) by (simp add: extends_def)
  from modify_node_add [OF g1(2) this, of f f a cl cr t] s
  have "\<exists>g2. modify_node b (Add_columns a [cl] [cr] [t] f f) g1 = Some g2 \<and> graph_ok p sel g2 \<and> extends g1 g2
      \<and> sent g2 f f b a"
    by (cases f) auto
  then obtain g2 where g2: "modify_node b (Add_columns a [cl] [cr] [t] f f) g1 = Some g2" "graph_ok p sel g2"
    "extends g1 g2" "sent g2 f f b a" by blast
  then show ?thesis
    using g1(1) extends_trans [OF g1(3) g2(3)] extends_sent [OF g2(3) g1(4)] by (intro exI [of _ g2]) simp
qed

lemma add_transfer_ok:
  assumes "graph_ok p sel g" "Some e \<in> sel"
    and dom: "GetScalarTableIndex (left_table e) \<in> dom g" "GetScalarTableIndex (right_table e) \<in> dom g"
  shows "\<exists>g'. add_transfer (Some e) g = Some g' \<and> graph_ok p sel g' \<and> extends g g' \<and> edge_done p g' e"
proof -
  obtain a cl pl b cr pr where o: "oriented p e = ((a, cl, pl), (b, cr, pr))" by (metis prod.collapse)
  have ab: "a \<in> dom g" "b \<in> dom g" using o dom by (auto simp: oriented_def Let_def split: if_splits)
  have "(case g k of Some n \<Rightarrow> cardinality_order n | None \<Rightarrow> 0) = p k" if "k \<in> dom g" for k
    using assms(1) that by (auto simp: graph_ok_def node_inv_def)
  then have o': "oriented (\<lambda>k. case g k of Some n \<Rightarrow> cardinality_order n | None \<Rightarrow> 0) e = ((a, cl, pl), (b, cr, pr))"
    using o dom by (simp add: oriented_def Let_def)
  let ?fwd = "Option.bind (modify_node a (Add_columns b [cl] [cr] [ei_type e] True False) g)
      (modify_node b (Add_columns a [cl] [cr] [ei_type e] True True))"
  have "\<exists>g1. (if \<not> pr then ?fwd else Some g) = Some g1 \<and> graph_ok p sel g1 \<and> extends g g1
      \<and> (\<not> pr \<longrightarrow> sent g1 True False a b \<and> sent g1 True True b a)"
  proof (cases pr)
    case False
    then have "sends p sel True a b cl cr" using o assms(2) by (auto simp: sends_def)
    from pair_add [OF assms(1) ab this, of "ei_type e"] False show ?thesis by simp
  qed (simp add: assms(1) extends_refl)
  then obtain g1 where g1: "(if \<not> pr then ?fwd else Some g) = Some g1" "graph_ok p sel g1" "extends g g1"
    "\<not> pr \<longrightarrow> sent g1 True False a b \<and> sent g1 True True b a" by blast
  have ab1: "a \<in> dom g1" "b \<in> dom g1" using ab g1(3) by (simp_all add: extends_def)
  let ?bwd = "Option.bind (modify_node a (Add_columns b [cl] [cr] [ei_type e] False True) g1)
      (modify_node b (Add_columns a [cl] [cr] [ei_type e] False False))"
  have "\<exists>g2. (if \<not> pl then ?bwd else Some g1) = Some g2 \<and> graph_ok p sel g2 \<and> extends g1 g2
      \<and> (\<not> pl \<longrightarrow> sent g2 False True a b \<and> sent g2 False False b a)"
  proof (cases pl)
    case False
    then have "sends p sel False a b cl cr" using o assms(2) by (auto simp: sends_def)
    from pair_add [OF g1(2) ab1 this, of "ei_type e"] False show ?thesis by simp
  qed (simp add: g1(2) extends_refl)
  then obtain g2 where g2: "(if \<not> pl then ?bwd else Some g1) = Some g2" "graph_ok p sel g2" "extends g1 g2"
    "\<not> pl \<longrightarrow> sent g2 False True a b \<and> sent g2 False False b a" by blast
  have "g (GetScalarTableIndex (left_table e)) \<noteq> None" "g (GetScalarTableIndex (right_table e)) \<noteq> None"
    using dom by (simp_all add: domIff)
  then have "add_transfer (Some e) g = Some g2"
    using g1(1) g2(1)
    by (simp add: add_transfer_def o' Let_def del: Option.bind_assoc split: if_splits)
  moreover have "edge_done p g2 e"
    using o g1(4) g2(4) extends_sent [OF g2(3)] by (simp add: edge_done_def)
  ultimately show ?thesis using g1(3) g2(2,3) extends_trans by blast
qed

lemma add_transfers_ok:
  "graph_ok p sel g \<Longrightarrow> set es \<subseteq> sel \<Longrightarrow>
   (\<And>eo. eo \<in> set es \<Longrightarrow> \<exists>e. eo = Some e \<and> GetScalarTableIndex (left_table e) \<in> dom g
      \<and> GetScalarTableIndex (right_table e) \<in> dom g) \<Longrightarrow>
   \<exists>g'. fold_opt add_transfer es g = Some g' \<and> graph_ok p sel g' \<and> extends g g'
     \<and> (\<forall>e. Some e \<in> set es \<longrightarrow> edge_done p g' e)"
proof (induction es arbitrary: g)
  case Nil
  then show ?case by (simp add: extends_refl)
next
  case (Cons eo es)
  obtain e where e: "eo = Some e" "GetScalarTableIndex (left_table e) \<in> dom g" "GetScalarTableIndex (right_table e) \<in> dom g"
    using Cons.prems(3) [of eo] by auto
  from add_transfer_ok [OF Cons.prems(1) _ e(2,3)] Cons.prems(2) e(1) obtain g1 where
    g1: "add_transfer eo g = Some g1" "graph_ok p sel g1" "extends g g1" "edge_done p g1 e" by auto
  have "dom g1 = dom g" using g1(3) by (simp add: extends_def)
  then obtain g' where g': "fold_opt add_transfer es g1 = Some g'" "graph_ok p sel g'" "extends g1 g'"
    "\<And>e. Some e \<in> set es \<Longrightarrow> edge_done p g' e"
    using Cons.IH [OF g1(2)] Cons.prems(2,3) by auto
  have "edge_done p g' e" using edge_done_extends [OF g1(4) g'(3)] .
  then show ?case using g1 g' e(1) extends_trans by auto
qed

text \<open>The smaller side of a selected edge is the table it added.\<close>

lemma edge_pair_oriented:
  assumes "edge_pair order p (Some e) (j, i)"
  shows "\<exists>ci pi cj pj. oriented p e = ((i, ci, pi), (j, cj, pj)) \<and> table_index ci = i \<and> table_index cj = j"
  using assms by (auto simp: edge_pair_def edge_ends_def oriented_def Let_def doubleton_eq_iff)

text \<open>The side of an edge that table \<open>k\<close> is on must not be filtered.\<close>

definition protects :: "edge_info \<Rightarrow> nat \<Rightarrow> bool" where
  "protects e k \<longleftrightarrow> (GetScalarTableIndex (left_table e) = k \<and> protect_left e)
     \<or> (GetScalarTableIndex (right_table e) = k \<and> protect_right e)"

text \<open>
  \<open>transfers_ordered m\<close>: a forward edge leads from a later to an earlier table of the transfer order,
  its columns belong to the sender and the receiver and are those of a selected edge that does not
  protect the receiver.
\<close>

definition forward_edge_ok :: "transfer_graph_manager \<Rightarrow> nat \<Rightarrow> nat \<Rightarrow> graph_edge \<Rightarrow> bool" where
  "forward_edge_ok m sender receiver x \<longleftrightarrow> before (ids m) receiver sender
     \<and> (\<exists>cl cr e. ge_left x = [cl] \<and> ge_right x = [cr] \<and> table_index cl = sender \<and> table_index cr = receiver
          \<and> Some e \<in> set (selected_edges m) \<and> edge_ends e receiver sender \<and> \<not> protects e receiver
          \<and> {cl, cr} = {left_binding e, right_binding e})
     \<and> length (ge_types x) = 1 \<and> ge_filter_plan x = []"

definition transfers_ordered :: "transfer_graph_manager \<Rightarrow> bool" where
  "transfers_ordered m \<longleftrightarrow> (\<forall>k n. transfer_graph m k = Some n \<longrightarrow> node_id n = k
     \<and> (\<forall>x\<in>set (forward_out n). forward_edge_ok m k (destination x) x)
     \<and> (\<forall>x\<in>set (forward_in n). forward_edge_ok m (destination x) k x))"

definition receives_allowed :: "transfer_graph_manager \<Rightarrow> bool" where
  "receives_allowed m \<longleftrightarrow> (\<forall>k n. transfer_graph m k = Some n \<longrightarrow>
     (\<forall>x\<in>set (forward_in n) \<union> set (backward_in n).
        \<exists>e. Some e \<in> set (selected_edges m) \<and> edge_ends e k (destination x) \<and> \<not> protects e k))"

definition all_sent :: "transfer_graph_manager \<Rightarrow> bool" where
  "all_sent m \<longleftrightarrow> (\<forall>e. Some e \<in> set (selected_edges m) \<longrightarrow>
     (\<exists>j i. edge_ends e j i \<and> before (ids m) j i
       \<and> (\<not> protects e j \<longrightarrow> sent (transfer_graph m) True False i j \<and> sent (transfer_graph m) True True j i)
       \<and> (\<not> protects e i \<longrightarrow> sent (transfer_graph m) False False j i \<and> sent (transfer_graph m) False True i j)))"

definition start_ok :: "transfer_graph_manager \<Rightarrow> bool" where
  "start_ok m \<longleftrightarrow> tables_ok (remaining m) \<and> sorted_ok m \<and> matrix_ok (neighbor_matrix m)
     \<and> transfer_order m = [] \<and> selected_edges m = [] \<and> transfer_graph m = Map.empty"

lemma start_graph_inv: "start_ok m \<Longrightarrow> graph_inv m"
  by (auto simp: start_ok_def graph_inv_def ids_def forest_def)


text \<open>
  What the forest and its transfers satisfy once the plan is created.
\<close>

lemma plan_properties:
  assumes inv: "graph_inv m" "keys m = []"
    and g: "graph_ok (prio (transfer_graph m)) (set (selected_edges m)) g'" "extends (transfer_graph m) g'"
      "\<And>e. Some e \<in> set (selected_edges m) \<Longrightarrow> edge_done (prio (transfer_graph m)) g' e"
  shows "transfers_ordered (m\<lparr>transfer_graph := g'\<rparr>) \<and> receives_allowed (m\<lparr>transfer_graph := g'\<rparr>)
    \<and> all_sent (m\<lparr>transfer_graph := g'\<rparr>)"
proof -
  let ?p = "prio (transfer_graph m)" and ?m = "m\<lparr>transfer_graph := g'\<rparr>"
  have ids: "ids ?m = ids m" by (simp add: ids_def)
  have pair: "\<exists>j i. edge_pair (ids m) ?p (Some e) (j, i)" if "Some e \<in> set (selected_edges m)" for e
  proof -
    from inv(1) obtain ps where "list_all2 (edge_pair (ids m) ?p) (selected_edges m) ps"
      by (auto simp: graph_inv_def forest_def)
    with that show ?thesis by (metis in_set_conv_nth list_all2_conv_all_nth prod.collapse)
  qed
  have sends: "\<exists>e. Some e \<in> set (selected_edges m) \<and> edge_ends e b a \<and> before (ids m) b a
      \<and> table_index cl = a \<and> table_index cr = b \<and> \<not> protects e (if f then b else a)
      \<and> {cl, cr} = {left_binding e, right_binding e}"
    if s: "sends ?p (set (selected_edges m)) f a b cl cr" for f a b cl cr
  proof -
    from s obtain e pl pr where e: "Some e \<in> set (selected_edges m)" "oriented ?p e = ((a, cl, pl), (b, cr, pr))"
      "if f then \<not> pr else \<not> pl" by (auto simp: sends_def)
    from pair [OF e(1)] obtain j i where ji: "edge_pair (ids m) ?p (Some e) (j, i)" by blast
    from edge_pair_oriented [OF ji] e(2) have "i = a" "j = b" "table_index cl = a" "table_index cr = b" by auto
    moreover have "a \<noteq> b" using ji \<open>i = a\<close> \<open>j = b\<close> by (auto simp: edge_pair_def)
    ultimately show ?thesis
      using e ji by (auto simp: edge_pair_def protects_def oriented_def Let_def split: if_splits)
  qed
  have "transfers_ordered ?m"
    unfolding transfers_ordered_def
  proof (intro allI impI conjI ballI)
    fix k n assume "transfer_graph ?m k = Some n"
    then have n: "node_inv ?p (set (selected_edges m)) k n" using g(1) by (simp add: graph_ok_def)
    then show "node_id n = k" by (simp add: node_inv_def)
    show "forward_edge_ok ?m k (destination x) x" if "x \<in> set (forward_out n)" for x
    proof -
      from n that obtain cl cr where x: "columns_edge (destination x) cl cr x"
        "sends ?p (set (selected_edges m)) True k (destination x) cl cr"
        by (auto simp: node_inv_def edges_from_def)
      from sends [OF x(2)] x(1) show ?thesis by (auto simp: forward_edge_ok_def columns_edge_def ids)
    qed
    show "forward_edge_ok ?m (destination x) k x" if "x \<in> set (forward_in n)" for x
    proof -
      from n that obtain cl cr where x: "columns_edge (destination x) cl cr x"
        "sends ?p (set (selected_edges m)) True (destination x) k cl cr"
        by (auto simp: node_inv_def edges_from_def)
      from sends [OF x(2)] x(1) show ?thesis by (auto simp: forward_edge_ok_def columns_edge_def ids)
    qed
  qed
  moreover have "receives_allowed ?m"
    unfolding receives_allowed_def
  proof (intro allI impI ballI)
    fix k n x assume n: "transfer_graph ?m k = Some n" and x: "x \<in> set (forward_in n) \<union> set (backward_in n)"
    have ninv: "node_inv ?p (set (selected_edges m)) k n" using n g(1) by (simp add: graph_ok_def)
    then consider (fwd) cl cr where "sends ?p (set (selected_edges m)) True (destination x) k cl cr"
      | (bwd) cl cr where "sends ?p (set (selected_edges m)) False k (destination x) cl cr"
      using x unfolding node_inv_def edges_from_def by blast
    then show "\<exists>e. Some e \<in> set (selected_edges ?m) \<and> edge_ends e k (destination x) \<and> \<not> protects e k"
    proof cases
      case fwd
      from sends [OF this] show ?thesis by auto
    next
      case bwd
      from sends [OF this] show ?thesis unfolding edge_ends_def by (auto simp: insert_commute)
    qed
  qed
  moreover have "all_sent ?m"
    unfolding all_sent_def ids
  proof (intro allI impI)
    fix e assume "Some e \<in> set (selected_edges ?m)"
    then have e: "Some e \<in> set (selected_edges m)" by simp
    from pair [OF this] obtain j i where ji: "edge_pair (ids m) ?p (Some e) (j, i)" by blast
    from edge_pair_oriented [OF ji] obtain ci pi cj pj where o: "oriented ?p e = ((i, ci, pi), (j, cj, pj))" by blast
    have "i \<noteq> j" using ji by (auto simp: edge_pair_def)
    with o have "pi = protects e i" "pj = protects e j"
      by (auto simp: oriented_def protects_def Let_def split: if_splits)
    then show "\<exists>j i. edge_ends e j i \<and> before (ids m) j i
       \<and> (\<not> protects e j \<longrightarrow> sent (transfer_graph ?m) True False i j \<and> sent (transfer_graph ?m) True True j i)
       \<and> (\<not> protects e i \<longrightarrow> sent (transfer_graph ?m) False False j i \<and> sent (transfer_graph ?m) False True i j)"
      using ji g(3) [OF e] o by (intro exI [of _ j] exI [of _ i]) (auto simp: edge_pair_def edge_done_def)
  qed
  ultimately show ?thesis by blast
qed

lemma CreateOriginTransferPlan_ok:
  assumes "iterates iter" "start_ok m"
  shows "\<exists>m'. CreateOriginTransferPlan iter m = Some m' \<and> mset (ids m') = mset (keys m) \<and> distinct (ids m')
    \<and> remaining m' = remaining m \<and> dom (transfer_graph m') = set (ids m')
    \<and> (\<exists>ps roots. list_all2 (\<lambda>eo ji. \<exists>e. eo = Some e \<and> edge_ends e (fst ji) (snd ji)
           \<and> before (ids m') (fst ji) (snd ji)) (selected_edges m') ps
         \<and> mset (roots @ map snd ps) = mset (ids m'))
    \<and> transfers_ordered m' \<and> receives_allowed m' \<and> all_sent m'"
proof -
  have start: "ids m = []" "sorted_ok m" using assms(2) by (simp_all add: start_ok_def ids_def)
  from forest_loop_ok [OF assms(1) start_graph_inv [OF assms(2)] start(2)] obtain m1 where
    m1: "forest_loop iter m = Some m1" "graph_inv m1" "keys m1 = []" "mset (ids m1) = mset (keys m)"
    using start(1) by auto
  let ?g = "transfer_graph m1" and ?sel = "set (selected_edges m1)"
  have dom: "dom ?g = set (ids m1)"
    using m1(2,3) by (auto simp: graph_inv_def node_ok_def)
  from m1(2) obtain ps roots where ps: "list_all2 (edge_pair (ids m1) (prio ?g)) (selected_edges m1) ps"
    "mset (roots @ map snd ps) = mset (ids m1)" by (auto simp: graph_inv_def forest_def)
  have "graph_ok (prio ?g) ?sel ?g"
  proof -
    have "node_inv (prio ?g) ?sel k n" if "?g k = Some n" for k n
    proof -
      have "node_ok ?g k" using that dom m1(2) by (auto simp: graph_inv_def)
      then show ?thesis using that by (auto simp: node_ok_def node_inv_def edges_from_def prio_def)
    qed
    then show ?thesis by (simp add: graph_ok_def)
  qed
  moreover have "\<exists>e. eo = Some e \<and> GetScalarTableIndex (left_table e) \<in> dom ?g
      \<and> GetScalarTableIndex (right_table e) \<in> dom ?g" if "eo \<in> ?sel" for eo
  proof -
    from that ps(1) obtain ji where "edge_pair (ids m1) (prio ?g) eo ji"
      by (metis in_set_conv_nth list_all2_conv_all_nth)
    then obtain e where "eo = Some e" "edge_ends e (fst ji) (snd ji)" "before (ids m1) (fst ji) (snd ji)"
      by (auto simp: edge_pair_def)
    then show ?thesis using before_in unfolding dom by (fastforce simp: edge_ends_def doubleton_eq_iff)
  qed
  ultimately obtain g' where g': "fold_opt add_transfer (selected_edges m1) ?g = Some g'"
    "graph_ok (prio ?g) ?sel g'" "extends ?g g'" "\<And>e. Some e \<in> ?sel \<Longrightarrow> edge_done (prio ?g) g' e"
    using add_transfers_ok [of "prio ?g" ?sel ?g "selected_edges m1"] by auto
  let ?m' = "m1\<lparr>table_operator_manager_of := (table_operator_manager_of m1)\<lparr>table_operators := remaining m\<rparr>,
      transfer_graph := g'\<rparr>"
  have "transfers_ordered ?m' \<and> receives_allowed ?m' \<and> all_sent ?m'"
    using plan_properties [OF m1(2,3) g'(2-4)]
    by (simp add: transfers_ordered_def receives_allowed_def all_sent_def forward_edge_ok_def ids_def)
  moreover have "CreateOriginTransferPlan iter m = Some ?m'"
    using m1(1) g'(1) by (simp add: CreateOriginTransferPlan_def remaining_def)
  moreover have "list_all2 (\<lambda>eo ji. \<exists>e. eo = Some e \<and> edge_ends e (fst ji) (snd ji)
      \<and> before (ids m1) (fst ji) (snd ji)) (selected_edges m1) ps"
    using ps(1) by (rule list_all2_mono) (auto simp: edge_pair_def ids_def)
  moreover have "dom g' = dom ?g" using g'(3) by (simp add: extends_def)
  moreover have "distinct (ids m1)" using m1(2) by (simp add: graph_inv_def)
  ultimately show ?thesis
    using m1(4) ps(2) dom by (intro exI [of _ ?m']) (auto simp: ids_def remaining_def)
qed

text \<open>
  What every edge of the matrix satisfies, every selected edge satisfies; what every table satisfies,
  every ordered table satisfies; and the recorded renamings do not change.
\<close>

definition contents_satisfy ::
  "(logical_operator \<Rightarrow> bool) \<Rightarrow> (edge_info \<Rightarrow> bool) \<Rightarrow> transfer_graph_manager \<Rightarrow> bool" where
  "contents_satisfy R P m \<longleftrightarrow> (\<forall>j i e. neighbor_matrix m j i = Some e \<longrightarrow> P e)
     \<and> (\<forall>e. Some e \<in> set (selected_edges m) \<longrightarrow> P e)
     \<and> (\<forall>(k, x)\<in>set (remaining m). R x) \<and> (\<forall>x\<in>set (transfer_order m). R x)"

definition renames_of :: "transfer_graph_manager \<Rightarrow> (column_binding \<times> column_binding) list" where
  "renames_of m = rename_col_bindings (table_operator_manager_of m)"

lemma push_table_satisfy:
  assumes "push_table k m = Some m'"
  shows "contents_satisfy R P m \<Longrightarrow> contents_satisfy R P m'" "renames_of m' = renames_of m"
  using assms
  by (auto simp: push_table_def erase_table_def contents_satisfy_def remaining_def renames_of_def
    GetTableOperator_def dest!: map_of_SomeD)

lemma select_edge_satisfy:
  assumes "select_edge j i prior m = Some m'" "contents_satisfy R P m"
  shows "contents_satisfy R P m' \<and> renames_of m' = renames_of m"
proof -
  from assms(1) obtain node where node: "push_table (node_id node) (m\<lparr>selected_edges := selected_edges m @ [neighbor_matrix m j i],
      neighbor_matrix := (neighbor_matrix m)(j := (neighbor_matrix m j)(i := None)),
      transfer_graph := (transfer_graph m)(i \<mapsto> node\<lparr>cardinality_order := prior\<rparr>)\<rparr>) = Some m'"
    by (auto simp: select_edge_def Let_def bind_eq_Some_conv)
  have "contents_satisfy R P m'"
    using assms(2) by (intro push_table_satisfy(1) [OF node]) (auto simp: contents_satisfy_def remaining_def eq_commute)
  then show ?thesis using push_table_satisfy(2) [OF node] by (simp add: renames_of_def)
qed

lemma build_loop_satisfy:
  "build_loop iter c u prior m = Some m' \<Longrightarrow> contents_satisfy R P m \<longrightarrow> contents_satisfy R P m' \<and> renames_of m' = renames_of m"
proof (induct iter c u prior m m' rule: build_loop.raw_induct [rotated, consumes 1])
  case (1 f iter c u prior m m')
  show ?case
  proof (cases "u = []")
    case False
    with 1(2) obtain sel where sel: "FindEdge iter m c u = Some sel"
      "(case sel of None \<Rightarrow> Some m | Some (j, i) \<Rightarrow> Option.bind (select_edge j i prior m)
          (\<lambda>m'. f iter (c @ [i]) (remove1 i u) (prior - 1) m')) = Some m'"
      by (auto simp: bind_eq_Some_conv)
    show ?thesis
    proof (cases sel)
      case (Some ji)
      then obtain j i m1 where "select_edge j i prior m = Some m1" "f iter (c @ [i]) (remove1 i u) (prior - 1) m1 = Some m'"
        using sel(2) by (cases ji) (auto simp: bind_eq_Some_conv)
      then show ?thesis using 1(1) select_edge_satisfy by metis
    qed (use sel in simp)
  qed (use 1(2) in simp)
qed

lemma LargestRoot_satisfy:
  assumes "LargestRoot iter m = Some m'" "contents_satisfy R P m"
  shows "contents_satisfy R P m' \<and> renames_of m' = renames_of m"
proof -
  define m0 where "m0 = m\<lparr>transfer_graph := init_nodes (table_operators (table_operator_manager_of m))
    (int (length (table_operators (table_operator_manager_of m))) - 1) (transfer_graph m)\<rparr>"
  have m0: "contents_satisfy R P m0" "renames_of m0 = renames_of m"
    using assms(2) by (simp_all add: m0_def contents_satisfy_def remaining_def renames_of_def)
  from assms(1) obtain k c u prior m1 where "push_table k m0 = Some m1" "build_loop iter c u prior m1 = Some m'"
    by (auto simp: LargestRoot_def Let_def m0_def bind_eq_Some_conv split: list.splits)
  then show ?thesis using m0 build_loop_satisfy push_table_satisfy by metis
qed

lemma forest_loop_satisfy:
  "forest_loop iter m = Some m' \<Longrightarrow> contents_satisfy R P m \<longrightarrow> contents_satisfy R P m' \<and> renames_of m' = renames_of m"
proof (induct iter m m' rule: forest_loop.raw_induct [rotated, consumes 1])
  case (1 f iter m m')
  show ?case
  proof (cases "table_operators (table_operator_manager_of m) = []")
    case False
    with 1(2) obtain m1 where m1: "LargestRoot iter m = Some m1" "f iter (sort_tables m1) = Some m'"
      by (auto simp: bind_eq_Some_conv)
    have "contents_satisfy R P (sort_tables m1) = contents_satisfy R P m1" "renames_of (sort_tables m1) = renames_of m1"
      by (simp_all add: sort_tables_def SortTableOperators_def contents_satisfy_def remaining_def renames_of_def)
    then show ?thesis using 1(1) [OF m1(2)] LargestRoot_satisfy [OF m1(1)] by simp
  qed (use 1(2) in simp)
qed

lemma CreateOriginTransferPlan_satisfy:
  assumes "CreateOriginTransferPlan iter m = Some m'" "contents_satisfy R P m"
  shows "contents_satisfy R P m' \<and> renames_of m' = renames_of m"
proof -
  from assms(1) obtain m1 g where m1: "forest_loop iter m = Some m1"
    "m' = m1\<lparr>table_operator_manager_of := (table_operator_manager_of m1)\<lparr>table_operators := remaining m\<rparr>, transfer_graph := g\<rparr>"
    by (auto simp: CreateOriginTransferPlan_def Let_def bind_eq_Some_conv remaining_def)
  from forest_loop_satisfy [OF m1(1), of R P] assms(2) have "contents_satisfy R P m1" "renames_of m1 = renames_of m" by auto
  then show ?thesis using assms(2) by (simp add: m1(2) contents_satisfy_def remaining_def renames_of_def)
qed

text \<open>A left join of two tables whose left side is protected.\<close>

definition example_table :: "nat \<Rightarrow> nat \<Rightarrow> logical_operator" where
  "example_table t c = Operator \<lparr>op_ptr = t, op_type = LOGICAL_GET, op_table_index = [t], op_bindings = [],
     estimated_cardinality = c, join_type_of = JOIN_INNER, delim_flipped = False, conditions = [],
     op_expressions = [], op_groups = [], grouping_sets = 0, table_filters = 0, bf_plans = []\<rparr> []"

definition example_edge :: edge_info where
  "example_edge = \<lparr>ei_type = 0, left_table = example_table 1 10,
     left_binding = \<lparr>table_index = 1, column_index = 0\<rparr>, right_table = example_table 2 99,
     right_binding = \<lparr>table_index = 2, column_index = 3\<rparr>, protect_left = True, protect_right = False\<rparr>"

definition example_manager :: transfer_graph_manager where
  "example_manager = empty_graph_manager\<lparr>
     table_operator_manager_of := SortTableOperators (empty_table_operator_manager
       \<lparr>table_operators := [(1, example_table 1 10), (2, example_table 2 99)]\<rparr>),
     neighbor_matrix := (\<lambda>j i. if (j, i) \<in> {(1, 2), (2, 1)} then Some example_edge else None)\<rparr>"

lemma example_start: "start_ok example_manager"
proof -
  have "sorted_ok example_manager"
    by (auto simp: example_manager_def sorted_ok_def remaining_def SortTableOperators_def)
  moreover have "matrix_ok (neighbor_matrix example_manager)"
    by (auto simp: example_manager_def matrix_ok_def example_edge_def edge_ends_def example_table_def)
  ultimately show ?thesis
    by (simp add: start_ok_def remaining_def example_manager_def SortTableOperators_def tables_ok_def
      example_table_def empty_graph_manager_def INVALID_TABLE_def)
qed

text \<open>
  C14: The transfer plan: from the extracted tables and edges, \<open>CreateOriginTransferPlan\<close> terminates
  without dereferencing a null pointer, for every iteration order of the sets; the transfer order holds
  every table exactly once; the selected edges form a forest in which each table is a root or was added
  by exactly one edge; and forward transfers lead only from later to earlier tables of the order, on
  columns of the two tables, so every filter is created before the pass reaches its users.
\<close>
theorem CreateOriginTransferPlan_forest:
  assumes "iterates iter" "start_ok m"
  shows "\<exists>m'. CreateOriginTransferPlan iter m = Some m' \<and> mset (ids m') = mset (keys m) \<and> distinct (ids m')
    \<and> (\<exists>ps roots. list_all2 (\<lambda>eo ji. \<exists>e. eo = Some e \<and> edge_ends e (fst ji) (snd ji)
           \<and> before (ids m') (fst ji) (snd ji)) (selected_edges m') ps
         \<and> mset (roots @ map snd ps) = mset (ids m'))
    \<and> transfers_ordered m'"
  using CreateOriginTransferPlan_ok [OF assms] by blast

theorem CreateOriginTransferPlan_forest_witness:
  "\<exists>m'. CreateOriginTransferPlan rev example_manager = Some m' \<and> mset (ids m') = mset (keys example_manager)
    \<and> distinct (ids m')
    \<and> (\<exists>ps roots. list_all2 (\<lambda>eo ji. \<exists>e. eo = Some e \<and> edge_ends e (fst ji) (snd ji)
           \<and> before (ids m') (fst ji) (snd ji)) (selected_edges m') ps
         \<and> mset (roots @ map snd ps) = mset (ids m'))
    \<and> transfers_ordered m'"
  by (rule CreateOriginTransferPlan_forest [OF _ example_start]) (simp add: iterates_def)

text \<open>
  C26: Join sides whose rows must survive are never filtered: every incoming transfer of a table, forward or
  backward, comes from a selected edge that does not protect that table; and none of the permitted
  transfers is lost, each unprotected direction of a selected edge has its edges at both ends.
\<close>
theorem CreateOriginTransferPlan_protection:
  assumes "iterates iter" "start_ok m"
  shows "\<exists>m'. CreateOriginTransferPlan iter m = Some m' \<and> receives_allowed m' \<and> all_sent m'"
  using CreateOriginTransferPlan_ok [OF assms] by blast

theorem CreateOriginTransferPlan_protection_witness:
  "\<exists>m'. CreateOriginTransferPlan (\<lambda>xs. xs) example_manager = Some m' \<and> receives_allowed m' \<and> all_sent m'"
  by (rule CreateOriginTransferPlan_protection [OF _ example_start]) (simp add: iterates_def)

section \<open>Extracting edges\<close>

lemma store_edge_ok:
  assumes "matrix_ok (ee_matrix s)" "edge_ends e (table_index (left_binding e)) (table_index (right_binding e))"
  shows "matrix_ok (ee_matrix (store_edge e s))"
proof -
  have "edge_ends e (table_index (right_binding e)) (table_index (left_binding e))"
    using assms(2) by (metis edge_ends_def insert_commute)
  then show ?thesis
    using assms by (auto simp: matrix_ok_def store_edge_def Let_def split: if_splits)
qed

lemma store_edge_frame [simp]:
  "ee_parents (store_edge e s) = ee_parents s" "ee_groups (store_edge e s) = ee_groups s"
  by (simp_all add: store_edge_def Let_def)

subsection \<open>Join key groups\<close>

text \<open>
  The parent pointers form trees: \<open>ranked\<close> gives a rank that decreases along them, \<open>root_of p b\<close> is
  the end of the path from \<open>b\<close>.
\<close>

definition ranked :: "(column_binding \<Rightarrow> nat) \<Rightarrow> binding_parents \<Rightarrow> bool" where
  "ranked rank p \<longleftrightarrow> (\<forall>b c. p b = Some c \<longrightarrow> rank c < rank b)"

inductive root_of :: "binding_parents \<Rightarrow> column_binding \<Rightarrow> column_binding \<Rightarrow> bool" for p where
  root: "p b = None \<Longrightarrow> root_of p b b"
| step: "p b = Some c \<Longrightarrow> root_of p c r \<Longrightarrow> root_of p b r"

inductive_cases root_ofE: "root_of p b r"

lemma root_of_det: "root_of p b r \<Longrightarrow> root_of p b r' \<Longrightarrow> r = r'"
proof (induction arbitrary: r' rule: root_of.induct)
  case (root b)
  from root.prems show ?case by (rule root_ofE) (use root.hyps in auto)
next
  case (step b c r)
  from step.prems show ?case
  proof (rule root_ofE)
    assume "p b = None"
    with step.hyps(1) show ?thesis by simp
  next
    fix c' assume "p b = Some c'" "root_of p c' r'"
    then show ?thesis using step.hyps(1) step.IH by simp
  qed
qed

lemma root_of_root: "root_of p b r \<Longrightarrow> p r = None"
  by (induction rule: root_of.induct) auto

lemma root_of_exists: "ranked rank p \<Longrightarrow> \<exists>r. root_of p b r"
proof (induction "rank b" arbitrary: b rule: less_induct)
  case less
  show ?case
  proof (cases "p b")
    case (Some c)
    then have "rank c < rank b" using less.prems by (simp add: ranked_def)
    from less.hyps [OF this less.prems] Some show ?thesis by (blast intro: root_of.step)
  qed (blast intro: root_of.root)
qed

lemma root_of_rank: "root_of p b r \<Longrightarrow> ranked rank p \<Longrightarrow> r = b \<or> rank r < rank b"
  by (induction rule: root_of.induct) (auto simp: ranked_def intro: less_trans)

text \<open>Path compression changes no root.\<close>

lemma compress_root_of:
  assumes "ranked rank p" "root_of p b r" "p b \<noteq> None"
  shows "root_of (p(b \<mapsto> r)) x s \<longleftrightarrow> root_of p x s" "ranked rank (p(b \<mapsto> r))"
proof -
  have rb: "rank r < rank b" using root_of_rank [OF assms(2,1)] assms(2,3) root_of_root by fastforce
  then show "ranked rank (p(b \<mapsto> r))" using assms(1) by (auto simp: ranked_def)
  have r: "root_of (p(b \<mapsto> r)) r r" using root_of_root [OF assms(2)] rb by (intro root_of.root) auto
  have "root_of p x s \<Longrightarrow> root_of (p(b \<mapsto> r)) x s" for x s
  proof (induction rule: root_of.induct)
    case (root y)
    then show ?case using assms(3) by (intro root_of.root) auto
  next
    case (step y c s)
    show ?case
    proof (cases "y = b")
      case True
      then have "s = r" using root_of_det [OF assms(2)] step.hyps by (blast intro: root_of.step)
      moreover have "(p(b \<mapsto> r)) b = Some r" by simp
      ultimately show ?thesis using True root_of.step [OF _ r] by blast
    next
      case False
      then show ?thesis using step by (auto intro: root_of.step)
    qed
  qed
  then show "root_of (p(b \<mapsto> r)) x s \<longleftrightarrow> root_of p x s"
    using root_of_exists [OF assms(1), of x] root_of_det by blast
qed

lemma FindBindingRoot_ok:
  assumes "ranked rank p"
  shows "\<exists>r p'. FindBindingRoot b p = Some (r, p') \<and> root_of p b r \<and> ranked rank p' \<and> dom p' = dom p
    \<and> (\<forall>x s. root_of p' x s \<longleftrightarrow> root_of p x s)"
  using assms
proof (induction "rank b" arbitrary: b rule: less_induct)
  case less
  show ?case
  proof (cases "p b")
    case None
    then show ?thesis using less.prems by (simp add: FindBindingRoot.simps root_of.root)
  next
    case (Some c)
    then have lt: "rank c < rank b" using less.prems by (simp add: ranked_def)
    from less.hyps [OF lt less.prems] obtain r p' where f: "FindBindingRoot c p = Some (r, p')" "root_of p c r"
      "ranked rank p'" "dom p' = dom p" "\<And>x s. root_of p' x s \<longleftrightarrow> root_of p x s" by blast
    have rb: "root_of p b r" using Some f(2) by (rule root_of.step)
    moreover have "p' b \<noteq> None" using Some f(4) by (metis domIff option.simps(3))
    ultimately have "ranked rank (p'(b \<mapsto> r))" "\<And>x s. root_of (p'(b \<mapsto> r)) x s \<longleftrightarrow> root_of p x s"
      using compress_root_of [OF f(3), of b r] f(5) by blast+
    moreover have "dom (p'(b \<mapsto> r)) = dom p" using f(4) Some by auto
    moreover have "FindBindingRoot b p = Some (r, p'(b \<mapsto> r))"
      using Some lt f(1) by (subst FindBindingRoot.simps) auto
    ultimately show ?thesis using rb by blast
  qed
qed

text \<open>Attaching one root to another merges the two trees.\<close>

lemma attach_root_of:
  assumes r: "ranked rank p" and a: "p ra = None" and b: "p rb = None" and ne: "ra \<noteq> rb"
  shows "root_of (p(rb \<mapsto> ra)) x s \<longleftrightarrow> (if root_of p x rb then s = ra else root_of p x s)"
    and "\<exists>rank'. ranked rank' (p(rb \<mapsto> ra))"
proof -
  let ?p = "p(rb \<mapsto> ra)"
  let ?rank = "\<lambda>x. rank x + (if root_of p x rb then Suc (rank ra) else 0)"
  have self: "root_of p ra ra" using a by (rule root_of.root)
  have nra: "\<not> root_of p ra rb" using root_of_det [OF self] ne by blast
  have "ranked ?rank ?p"
    unfolding ranked_def
  proof (intro allI impI)
    fix x c assume xc: "?p x = Some c"
    show "?rank c < ?rank x"
    proof (cases "x = rb")
      case True
      moreover have "root_of p rb rb" using b by (rule root_of.root)
      ultimately show ?thesis using xc nra by simp
    next
      case False
      then have "p x = Some c" using xc by simp
      moreover from this have "root_of p x rb = root_of p c rb"
        using False by (metis option.inject option.simps(3) root_of.step root_ofE)
      ultimately show ?thesis using r by (simp add: ranked_def)
    qed
  qed
  then show "\<exists>rank'. ranked rank' ?p" by blast
  have ra: "root_of ?p ra ra" using a ne by (intro root_of.root) simp
  have rb: "root_of ?p rb ra" using root_of.step [OF _ ra, of rb] by simp
  have fwd: "root_of p x s \<Longrightarrow> root_of ?p x (if s = rb then ra else s)" for x s
  proof (induction rule: root_of.induct)
    case (root y)
    show ?case
    proof (cases "y = rb")
      case True
      then show ?thesis using rb by (metis (full_types))
    next
      case False
      then show ?thesis using root by (simp add: root_of.root)
    qed
  next
    case (step y c s)
    have "y \<noteq> rb" using step.hyps(1) b by auto
    then show ?case using step by (auto intro: root_of.step)
  qed
  obtain s0 where s0: "root_of p x s0" using root_of_exists [OF r] by blast
  then have "root_of ?p x s \<longleftrightarrow> s = (if s0 = rb then ra else s0)"
    using fwd [OF s0] root_of_det by blast
  then show "root_of ?p x s \<longleftrightarrow> (if root_of p x rb then s = ra else root_of p x s)"
    using s0 root_of_det by (smt (verit))
qed

definition same_group :: "binding_parents \<Rightarrow> column_binding \<Rightarrow> column_binding \<Rightarrow> bool" where
  "same_group p x y \<longleftrightarrow> (\<exists>r. root_of p x r \<and> root_of p y r)"

lemma same_group_root:
  assumes "root_of p a r"
  shows "same_group p x a = root_of p x r"
proof
  assume "same_group p x a"
  then obtain r' where "root_of p x r'" "root_of p a r'" by (auto simp: same_group_def)
  then show "root_of p x r" using root_of_det [OF assms] by blast
next
  assume "root_of p x r"
  then show "same_group p x a" using assms by (auto simp: same_group_def)
qed

text \<open>
  The invariant of the union-find structure: the group stored for a root names the tables of exactly
  the bindings below it, a root without a group stands alone, and every stored binding's root has a group.
\<close>

fun group_exact :: "binding_parents \<Rightarrow> column_binding \<Rightarrow> join_key_table_group option \<Rightarrow> bool" where
  "group_exact p r None = ({b. root_of p b r} = {r})"
| "group_exact p r (Some g) = (table_ids g = table_index ` {b. root_of p b r})"

definition groups_ok :: "binding_parents \<Rightarrow> group_map \<Rightarrow> bool" where
  "groups_ok p gm \<longleftrightarrow> (\<exists>rank. ranked rank p)
     \<and> (\<forall>r. p r = None \<longrightarrow> group_exact p r (map_of gm r))
     \<and> (\<forall>b r. map_of gm b \<noteq> None \<longrightarrow> root_of p b r \<longrightarrow> map_of gm r \<noteq> None)"

lemma group_exact_cong: "{b. root_of p' b r} = {b. root_of p b r} \<Longrightarrow> group_exact p' r g = group_exact p r g"
  by (cases g) simp_all

lemma groups_ok_parents:
  assumes "groups_ok p gm" "ranked rank p'" "dom p' = dom p" "\<And>x s. root_of p' x s \<longleftrightarrow> root_of p x s"
  shows "groups_ok p' gm"
proof -
  have none: "p' r = None \<longleftrightarrow> p r = None" for r using assms(3) by (metis domIff)
  have "group_exact p' r g = group_exact p r g" for r g by (rule group_exact_cong) (simp add: assms(4))
  then show ?thesis using assms(1,2) unfolding groups_ok_def none assms(4) by blast
qed

lemma group_or_new_tables:
  assumes "groups_ok p gm" "root_of p a r"
  shows "table_ids (group_or_new gm r t (table_index a)) = table_index ` {b. root_of p b r}"
proof -
  have e: "group_exact p r (map_of gm r)" using assms root_of_root unfolding groups_ok_def by blast
  show ?thesis
  proof (cases "map_of gm r")
    case None
    then have alone: "{b. root_of p b r} = {r}" using e by simp
    then have "a = r" using assms(2) by blast
    then show ?thesis using None alone by (simp add: group_or_new_def JoinKeyTableGroup_def)
  next
    case (Some g)
    then show ?thesis using e by (simp add: group_or_new_def)
  qed
qed

lemma UnionBindings_ok:
  assumes "groups_ok p gm"
  shows "\<exists>p' gm'. UnionBindings a b t (p, gm) = Some (p', gm') \<and> groups_ok p' gm'
    \<and> (\<forall>x y. same_group p' x y \<longleftrightarrow> same_group p x y
         \<or> (same_group p x a \<and> same_group p y b) \<or> (same_group p x b \<and> same_group p y a))"
proof -
  obtain rank where rank: "ranked rank p" using assms by (auto simp: groups_ok_def)
  from FindBindingRoot_ok [OF rank, of a] obtain ra p1 where f1: "FindBindingRoot a p = Some (ra, p1)" "root_of p a ra"
    "ranked rank p1" "dom p1 = dom p" "\<And>x s. root_of p1 x s \<longleftrightarrow> root_of p x s" by blast
  from FindBindingRoot_ok [OF f1(3), of b] obtain rb p2 where f2: "FindBindingRoot b p1 = Some (rb, p2)" "root_of p b rb"
    "ranked rank p2" "dom p2 = dom p" "\<And>x s. root_of p2 x s \<longleftrightarrow> root_of p x s"
    using f1(4,5) by auto
  have ok2: "groups_ok p2 gm" by (rule groups_ok_parents [OF assms f2(3-5)])
  have none: "p2 ra = None" "p2 rb = None"
    using root_of_root [OF f1(2)] root_of_root [OF f2(2)] f2(4) by (metis domIff)+
  have same: "same_group p2 x y = same_group p x y" for x y using f2(5) by (simp add: same_group_def)
  have ab: "same_group p x a = root_of p x ra" "same_group p x b = root_of p x rb" for x
    using same_group_root [OF f1(2)] same_group_root [OF f2(2)] by blast+
  show ?thesis
  proof (cases "ra = rb")
    case True
    have "UnionBindings a b t (p, gm) = Some (p2, gm)" using f1(1) f2(1) True by (simp add: UnionBindings_def)
    moreover have "same_group p x y" if "root_of p x ra" "root_of p y rb" for x y
      using that True by (auto simp: same_group_def)
    then have "same_group p2 x y \<longleftrightarrow> same_group p x y \<or> (same_group p x a \<and> same_group p y b)
        \<or> (same_group p x b \<and> same_group p y a)" for x y
      unfolding same ab True by blast
    ultimately show ?thesis using ok2 by (intro exI [of _ p2] exI [of _ gm]) simp
  next
    case False
    let ?p = "p2(rb \<mapsto> ra)"
    note att = attach_root_of [OF f2(3) none False, unfolded f2(5)]
    define ga where "ga = group_or_new gm ra t (table_index a)"
    define gm1 where "gm1 = AList.update ra ga gm"
    define gb where "gb = group_or_new gm1 rb t (table_index b)"
    define gm3 where "gm3 = AList.update ra (group_Union ga gb) (AList.update rb gb gm1)"
    have u: "UnionBindings a b t (p, gm) = Some (?p, gm3)"
      using f1(1) f2(1) False by (simp add: UnionBindings_def Let_def ga_def gm1_def gb_def gm3_def)
    have "gb = group_or_new gm rb t (table_index b)"
      using False by (simp add: gb_def gm1_def group_or_new_def update_conv)
    then have tids: "table_ids ga = table_index ` {x. root_of p x ra}" "table_ids gb = table_index ` {x. root_of p x rb}"
      using group_or_new_tables [OF assms f1(2)] group_or_new_tables [OF assms f2(2)] by (simp_all add: ga_def)
    have m3: "map_of gm3 r = (if r = ra then Some (group_Union ga gb) else if r = rb then Some gb else map_of gm r)" for r
      by (simp add: gm3_def gm1_def update_conv)
    have cls: "{x. root_of ?p x ra} = {x. root_of p x ra} \<union> {x. root_of p x rb}" using att(1) root_of_det by auto
    have other: "{x. root_of ?p x r} = {x. root_of p x r}" if "r \<noteq> ra" "r \<noteq> rb" for r
      using att(1) that root_of_det by auto
    have "groups_ok ?p gm3"
      unfolding groups_ok_def
    proof (intro conjI allI impI)
      show "\<exists>rank. ranked rank ?p" by (rule att(2))
      fix r assume r: "?p r = None"
      then have nb: "r \<noteq> rb" by auto
      show "group_exact ?p r (map_of gm3 r)"
      proof (cases "r = ra")
        case True
        then show ?thesis by (simp add: m3 cls group_Union_def tids image_Un)
      next
        case False
        have "p2 r = None" using r nb by simp
        then have "group_exact p2 r (map_of gm r)" using ok2 by (simp add: groups_ok_def)
        moreover have "{x. root_of ?p x r} = {x. root_of p2 x r}" using other [OF False nb] by (simp add: f2(5))
        ultimately have "group_exact ?p r (map_of gm r)" using group_exact_cong by blast
        then show ?thesis using False nb by (simp only: m3 if_False)
      qed
    next
      fix x r assume x: "map_of gm3 x \<noteq> None" and r: "root_of ?p x r"
      note ne = False
      show "map_of gm3 r \<noteq> None"
      proof (cases "root_of p x rb \<or> root_of p x ra")
        case True
        then have "r = ra"
        proof
          assume "root_of p x rb"
          then show ?thesis using r att(1) by simp
        next
          assume xa: "root_of p x ra"
          then have "\<not> root_of p x rb" using root_of_det ne by blast
          then have "root_of p x r" using r att(1) by simp
          then show ?thesis using xa by (rule root_of_det)
        qed
        then show ?thesis by (simp add: m3)
      next
        case False
        then have "root_of p x r" using r att(1) by simp
        moreover have "x \<noteq> ra" "x \<noteq> rb" using False none f2(4) root_of.root by (metis domIff)+
        ultimately have "map_of gm r \<noteq> None" using x assms by (auto simp: m3 groups_ok_def split: if_splits)
        then show ?thesis by (simp add: m3)
      qed
    qed
    moreover have "same_group ?p x y \<longleftrightarrow> same_group p x y
         \<or> (same_group p x a \<and> same_group p y b) \<or> (same_group p x b \<and> same_group p y a)" for x y
    proof -
      obtain sx sy where s: "root_of p x sx" "root_of p y sy" using root_of_exists [OF rank] by blast
      then have x: "\<And>r. root_of p x r \<longleftrightarrow> r = sx" "\<And>r. root_of p y r \<longleftrightarrow> r = sy" using root_of_det by blast+
      show ?thesis unfolding ab unfolding same_group_def att(1) x using False by auto
    qed
    ultimately show ?thesis using u by blast
  qed
qed

text \<open>
  C29: The union-find structure of join keys: \<open>UnionBindings\<close> always terminates, joins exactly the groups
  of its two bindings and no others, and keeps the stored groups exact, path compression included: the
  group of a root names the tables of precisely the bindings connected to it.
\<close>
theorem UnionBindings_joins:
  assumes "groups_ok p gm"
  shows "\<exists>p' gm'. UnionBindings a b t (p, gm) = Some (p', gm') \<and> groups_ok p' gm'
    \<and> (\<forall>x y. same_group p' x y \<longleftrightarrow> same_group p x y
         \<or> (same_group p x a \<and> same_group p y b) \<or> (same_group p x b \<and> same_group p y a))"
  using assms by (rule UnionBindings_ok)

lemma groups_ok_empty: "groups_ok Map.empty []"
  by (auto simp: groups_ok_def ranked_def intro: root_of.intros elim: root_of.cases)

theorem UnionBindings_joins_witness:
  "\<exists>p' gm'. UnionBindings \<lparr>table_index = 1, column_index = 0\<rparr> \<lparr>table_index = 2, column_index = 0\<rparr> 3
      (Map.empty, []) = Some (p', gm') \<and> groups_ok p' gm'
    \<and> (\<forall>x y. same_group p' x y \<longleftrightarrow> same_group Map.empty x y
         \<or> (same_group Map.empty x \<lparr>table_index = 1, column_index = 0\<rparr> \<and> same_group Map.empty y \<lparr>table_index = 2, column_index = 0\<rparr>)
         \<or> (same_group Map.empty x \<lparr>table_index = 2, column_index = 0\<rparr> \<and> same_group Map.empty y \<lparr>table_index = 1, column_index = 0\<rparr>))"
  by (rule UnionBindings_joins [OF groups_ok_empty])

subsection \<open>The edges of a plan\<close>

text \<open>
  The edges found connect the tables of their columns, which are not renamed further, and the groups
  are exact.
\<close>

definition columns_fixed :: "(column_binding \<times> column_binding) list \<Rightarrow> edge_info \<Rightarrow> bool" where
  "columns_fixed rs e \<longleftrightarrow> map_of rs (left_binding e) = None \<and> map_of rs (right_binding e) = None"

definition matrix_fixed :: "(column_binding \<times> column_binding) list \<Rightarrow> (nat \<Rightarrow> nat \<Rightarrow> edge_info option) \<Rightarrow> bool" where
  "matrix_fixed rs nm \<longleftrightarrow> (\<forall>j i e. nm j i = Some e \<longrightarrow> columns_fixed rs e)"

lemma store_edge_fixed:
  "matrix_fixed rs (ee_matrix s) \<Longrightarrow> columns_fixed rs e \<Longrightarrow> matrix_fixed rs (ee_matrix (store_edge e s))"
  by (auto simp: matrix_fixed_def store_edge_def Let_def)

definition extraction_inv :: "(column_binding \<times> column_binding) list \<Rightarrow> edge_extraction \<Rightarrow> bool" where
  "extraction_inv rs s \<longleftrightarrow> matrix_ok (ee_matrix s) \<and> matrix_fixed rs (ee_matrix s) \<and> groups_ok (ee_parents s) (ee_groups s)"

lemma extract_condition_ok:
  assumes "tables_ok (table_operators tom)" "acyclic_renames (rename_col_bindings tom)" "extraction_inv (rename_col_bindings tom) s"
  shows "\<exists>s'. extract_condition expr_hash tom n cond s = Some s' \<and> extraction_inv (rename_col_bindings tom) s'"
proof (cases "jc_left cond")
  case (OTHER_EXPRESSION k)
  then show ?thesis using assms(3) by (simp add: extract_condition_def)
next
  case l: (BOUND_COLUMN_REF l)
  show ?thesis
  proof (cases "jc_right cond")
    case (OTHER_EXPRESSION k)
    then show ?thesis using assms(3) l by (simp add: extract_condition_def)
  next
    case r: (BOUND_COLUMN_REF r)
    let ?h = "expr_hash (jc_left cond) + expr_hash (jc_right cond)"
    show ?thesis
    proof (cases "compare_equal cond \<and> ?h \<notin> existed_set s")
      case False
      then show ?thesis using assms(3) l r by (auto simp: extract_condition_def Let_def)
    next
      case True
      obtain lb rb where b: "GetRenaming (rename_col_bindings tom) l = Some lb"
        "GetRenaming (rename_col_bindings tom) r = Some rb"
        "map_of (rename_col_bindings tom) lb = None" "map_of (rename_col_bindings tom) rb = None"
        using GetRenaming_total [OF assms(2)] by meson
      define s1 where "s1 = s\<lparr>existed_set := insert ?h (existed_set s)\<rparr>"
      have s1: "extraction_inv (rename_col_bindings tom) s1" using assms(3) by (simp add: s1_def extraction_inv_def)
      show ?thesis
      proof (cases "\<exists>ln rn p. GetTableOperator tom (table_index lb) = Some ln
          \<and> GetTableOperator tom (table_index rb) = Some rn \<and> edge_protection n = Some p")
        case False
        have "extract_condition expr_hash tom n cond s = Some s1"
          using False True l r b by (auto simp: extract_condition_def Let_def s1_def split: option.split)
        then show ?thesis using s1 by blast
      next
        case edge: True
        then obtain ln rn pl pr where t: "GetTableOperator tom (table_index lb) = Some ln"
          "GetTableOperator tom (table_index rb) = Some rn" "edge_protection n = Some (pl, pr)" by auto
        define e where "e = \<lparr>ei_type = jc_return_type cond, left_table = ln, left_binding = lb, right_table = rn,
          right_binding = rb, protect_left = pl, protect_right = pr\<rparr>"
        have "GetScalarTableIndex ln = table_index lb" "GetScalarTableIndex rn = table_index rb"
          using t(1,2) assms(1) by (auto simp: GetTableOperator_def tables_ok_def dest!: map_of_SomeD)
        then have "edge_ends e (table_index (left_binding e)) (table_index (right_binding e))"
          by (simp add: edge_ends_def e_def)
        then have m: "matrix_ok (ee_matrix (store_edge e s1))"
          using s1 store_edge_ok by (simp add: extraction_inv_def)
        have f: "matrix_fixed (rename_col_bindings tom) (ee_matrix (store_edge e s1))"
          using s1 b(3,4) by (intro store_edge_fixed) (simp_all add: extraction_inv_def columns_fixed_def e_def)
        from s1 have "groups_ok (ee_parents s1) (ee_groups s1)" by (simp add: extraction_inv_def)
        from UnionBindings_ok [OF this] obtain p' gm' where u:
          "UnionBindings lb rb (jc_return_type cond) (ee_parents s1, ee_groups s1) = Some (p', gm')" "groups_ok p' gm'"
          by metis
        have "extract_condition expr_hash tom n cond s = (if \<not> pl \<and> \<not> pr
            then Some ((store_edge e s1)\<lparr>ee_parents := p', ee_groups := gm'\<rparr>) else Some (store_edge e s1))"
          using True l r b t u(1) by (simp add: extract_condition_def Let_def s1_def e_def)
        then show ?thesis using m f s1 u(2) by (auto simp: extraction_inv_def)
      qed
    qed
  qed
qed

lemma finalize_groups_ok:
  assumes "groups_ok p gm"
  shows "set es \<subseteq> set gm \<Longrightarrow> groups_ok p' gm \<Longrightarrow> \<exists>gs. finalize_groups gm es p' = Some gs"
proof (induction es arbitrary: p')
  case (Cons e es)
  obtain b g where e: "e = (b, g)" by fastforce
  obtain rank where "ranked rank p'" using Cons.prems(2) by (auto simp: groups_ok_def)
  from FindBindingRoot_ok [OF this, of b] obtain r p1 where f: "FindBindingRoot b p' = Some (r, p1)" "root_of p' b r"
    "ranked rank p1" "dom p1 = dom p'" "\<And>x s. root_of p1 x s \<longleftrightarrow> root_of p' x s" by blast
  have "(b, g) \<in> set gm" using Cons.prems(1) e by simp
  then have "map_of gm b \<noteq> None" using weak_map_of_SomeI by fastforce
  then have "map_of gm r \<noteq> None" using f(2) Cons.prems(2) by (simp add: groups_ok_def)
  moreover have "\<exists>gs. finalize_groups gm es p1 = Some gs"
    using Cons.IH [OF _ groups_ok_parents [OF Cons.prems(2) f(3-5)]] Cons.prems(1) by simp
  ultimately show ?case using e f(1) by auto
qed simp

lemma ExtractEdgesInfo_ok:
  assumes "tables_ok (remaining m)" "acyclic_renames (rename_col_bindings (table_operator_manager_of m))"
    "matrix_ok (neighbor_matrix m)" "matrix_fixed (renames_of m) (neighbor_matrix m)"
  shows "\<exists>m'. ExtractEdgesInfo expr_hash joins m = Some m' \<and> matrix_ok (neighbor_matrix m')
    \<and> matrix_fixed (renames_of m) (neighbor_matrix m')
    \<and> table_operator_manager_of m' = table_operator_manager_of m \<and> transfer_order m' = transfer_order m
    \<and> selected_edges m' = selected_edges m \<and> transfer_graph m' = transfer_graph m"
proof -
  let ?tom = "table_operator_manager_of m"
  let ?s0 = "\<lparr>existed_set = {}, ee_parents = Map.empty, ee_groups = [], ee_matrix = neighbor_matrix m,
      ee_any = has_neighbors m\<rparr>"
  have s0: "extraction_inv (renames_of m) ?s0" using assms(3,4) groups_ok_empty by (simp add: extraction_inv_def)
  have cond: "\<exists>s'. extract_condition expr_hash ?tom n c s = Some s' \<and> extraction_inv (renames_of m) s'" if "extraction_inv (renames_of m) s" for n c s
    using extract_condition_ok [OF _ assms(2)] that assms(1) by (simp add: remaining_def renames_of_def)
  have join: "\<exists>s'. extract_join expr_hash ?tom j s = Some s' \<and> extraction_inv (renames_of m) s'" if "extraction_inv (renames_of m) s" for j s
  proof (cases "op_type (op_of j) \<notin> {LOGICAL_COMPARISON_JOIN, LOGICAL_DELIM_JOIN}")
    case True
    then show ?thesis using that by (simp add: extract_join_def)
  next
    case False
    then show ?thesis
      unfolding extract_join_def
      using fold_opt_inv [where f = "extract_condition expr_hash ?tom (op_of j)" and P = "extraction_inv (renames_of m)", OF cond that]
      by simp
  qed
  from fold_opt_inv [where f = "extract_join expr_hash ?tom" and P = "extraction_inv (renames_of m)", OF join s0] obtain s where s: "fold_opt (extract_join expr_hash ?tom) joins ?s0 = Some s"
    "extraction_inv (renames_of m) s" by blast
  then have "groups_ok (ee_parents s) (ee_groups s)" by (simp add: extraction_inv_def)
  from finalize_groups_ok [OF this subset_refl this] obtain gs where
    "finalize_groups (ee_groups s) (ee_groups s) (ee_parents s) = Some gs" by blast
  then show ?thesis using s by (auto simp: ExtractEdgesInfo_def extraction_inv_def)
qed

text \<open>
  A built transfer graph of the tables \<open>ts\<close> and renamings \<open>rs\<close>.
\<close>

definition graph_built ::
  "(nat \<times> logical_operator) list \<Rightarrow> (column_binding \<times> column_binding) list \<Rightarrow> transfer_graph_manager \<Rightarrow> bool" where
  "graph_built ts rs m \<longleftrightarrow> tables_ok ts \<and> remaining m = ts \<and> renames_of m = rs
     \<and> mset (ids m) = mset (map fst ts) \<and> distinct (ids m) \<and> dom (transfer_graph m) = set (ids m)
     \<and> set (transfer_order m) \<subseteq> snd ` set ts \<and> (\<forall>e. Some e \<in> set (selected_edges m) \<longrightarrow> columns_fixed rs e)
     \<and> transfers_ordered m \<and> receives_allowed m \<and> all_sent m"

lemma Build_ok:
  assumes "iterates iter" "ExtractOperators plan empty_table_operator_manager = (tom, joins)"
    and "acyclic_renames (rename_col_bindings tom)"
  shows "\<exists>built m. Build expr_hash iter plan empty_graph_manager = Some (built, m)
    \<and> (built \<longrightarrow> graph_built (table_operators tom) (rename_col_bindings tom) m)"
proof -
  have tom: "tables_ok (table_operators tom)"
    "mset (sorted_table_operators tom) = mset (map snd (table_operators tom))"
    using ExtractOperators_props [of plan] assms(2) by simp_all
  let ?m1 = "empty_graph_manager\<lparr>table_operator_manager_of := tom\<rparr>"
  have m1: "tables_ok (remaining ?m1)" "acyclic_renames (rename_col_bindings (table_operator_manager_of ?m1))"
    "matrix_ok (neighbor_matrix ?m1)" "matrix_fixed (renames_of ?m1) (neighbor_matrix ?m1)"
    using tom assms(3) by (simp_all add: remaining_def empty_graph_manager_def matrix_ok_def matrix_fixed_def)
  from ExtractEdgesInfo_ok [OF m1] obtain m2 where m2: "ExtractEdgesInfo expr_hash joins ?m1 = Some m2"
    "matrix_ok (neighbor_matrix m2)" "matrix_fixed (rename_col_bindings tom) (neighbor_matrix m2)"
    "table_operator_manager_of m2 = tom" "transfer_order m2 = []" "selected_edges m2 = []"
    "transfer_graph m2 = Map.empty"
    by (auto simp: empty_graph_manager_def renames_of_def)
  have "sorted_ok m2" using tom(2) m2(4) by (metis sorted_ok_def remaining_def set_mset_mset)
  then have "start_ok m2" using m2 tom(1) by (simp add: start_ok_def remaining_def)
  from CreateOriginTransferPlan_ok [OF assms(1) this] obtain m3 where m3: "CreateOriginTransferPlan iter m2 = Some m3"
    "mset (ids m3) = mset (keys m2)" "distinct (ids m3)" "remaining m3 = remaining m2"
    "dom (transfer_graph m3) = set (ids m3)" "transfers_ordered m3" "receives_allowed m3" "all_sent m3" by blast
  have "contents_satisfy (\<lambda>x. x \<in> snd ` set (table_operators tom)) (columns_fixed (rename_col_bindings tom)) m2"
    using m2 by (force simp: contents_satisfy_def remaining_def matrix_fixed_def)
  from CreateOriginTransferPlan_satisfy [OF m3(1) this] have
    "graph_built (table_operators tom) (rename_col_bindings tom) m3"
    using tom(1) m2(4) m3(2-)
    by (auto simp: graph_built_def contents_satisfy_def remaining_def renames_of_def keys_def)
  moreover have "ExtractOperators plan (table_operator_manager_of empty_graph_manager) = (tom, joins)"
    using assms(2) by (simp add: empty_graph_manager_def)
  ultimately show ?thesis
    using m2(1) m3(1)
    by (cases "length (table_operators tom) < 2"; cases "has_neighbors m2")
      (auto simp: Build_def intro: exI [of _ False] exI [of _ True])
qed


text \<open>A filtered and an unfiltered table joined on a column of each, the second one through a projection.\<close>

definition col :: "nat \<Rightarrow> nat \<Rightarrow> column_binding" where
  "col t c = \<lparr>table_index = t, column_index = c\<rparr>"

definition plain_node :: "nat \<Rightarrow> logical_operator_type \<Rightarrow> nat list \<Rightarrow> nat \<Rightarrow> op_node" where
  "plain_node p t tables c = \<lparr>op_ptr = p, op_type = t, op_table_index = tables, op_bindings = [],
     estimated_cardinality = c, join_type_of = JOIN_INNER, delim_flipped = False, conditions = [],
     op_expressions = [], op_groups = [], grouping_sets = 0, table_filters = 0, bf_plans = []\<rparr>"

definition example_plan :: logical_operator where
  "example_plan = Operator ((plain_node 1 LOGICAL_COMPARISON_JOIN [] 50)\<lparr>conditions :=
       [\<lparr>compare_equal = True, jc_left = BOUND_COLUMN_REF (col 1 0), jc_right = BOUND_COLUMN_REF (col 3 0),
         jc_return_type = 0\<rparr>]\<rparr>)
     [Operator (plain_node 2 LOGICAL_GET [1] 100) [],
      Operator ((plain_node 3 LOGICAL_PROJECTION [3] 10)\<lparr>op_bindings := [col 3 0],
         op_expressions := [BOUND_COLUMN_REF (col 2 5)]\<rparr>)
       [Operator ((plain_node 4 LOGICAL_GET [2] 10)\<lparr>table_filters := 1\<rparr>) []]]"

lemma example_extracted:
  "table_operators (fst (ExtractOperators example_plan empty_table_operator_manager)) =
     [(1, Operator (plain_node 2 LOGICAL_GET [1] 100) []),
      (2, Operator ((plain_node 4 LOGICAL_GET [2] 10)\<lparr>table_filters := 1\<rparr>) [])]"
  "rename_col_bindings (fst (ExtractOperators example_plan empty_table_operator_manager)) = [(col 3 0, col 2 5)]"
  by (simp_all add: ExtractOperators_def example_plan_def plain_node_def empty_table_operator_manager_def
    SortTableOperators_def AddTableOperator_def insert_rename_def INVALID_TABLE_def collects_join_def)

lemma example_acyclic:
  "acyclic_renames (rename_col_bindings (fst (ExtractOperators example_plan empty_table_operator_manager)))"
  unfolding example_extracted by (auto simp: acyclic_renames_def col_def intro!: exI [of _ table_index])


end
