(* ===== verification/PredicateTransfer.thy ===== *)
theory PredicateTransfer
  imports TransferGraph
begin

text \<open>
  The optimizer pass, \<open>src/optimizer/predicate_transfer/predicate_transfer_optimizer.cpp\<close>: walking the
  transfer order backwards it decides per table which Bloom filters to use and to create, and then
  inserts the corresponding operators into the plan.
\<close>

section \<open>State\<close>

text \<open>
  The two modification maps are keyed by the operator's address; an entry is a chain of filter
  operators that is to be put around the operator.
\<close>

record transfer_optimizer =
  graph_manager :: transfer_graph_manager
  forward_stage_modification :: "nat \<Rightarrow> logical_operator option"
  backward_stage_modification :: "nat \<Rightarrow> logical_operator option"

definition ptr :: "logical_operator \<Rightarrow> nat" where
  "ptr x = op_ptr (op_of x)"

section \<open>Filter operators\<close>

definition bf_node :: "logical_operator_type \<Rightarrow> filter_plan list \<Rightarrow> nat \<Rightarrow> op_node" where
  "bf_node t plans cardinality =
     \<lparr>op_ptr = 0, op_type = t, op_table_index = [], op_bindings = [], estimated_cardinality = cardinality,
      join_type_of = JOIN_INNER, delim_flipped = False, conditions = [], op_expressions = [], op_groups = [],
      grouping_sets = 0, table_filters = 0, bf_plans = plans\<rparr>"

definition BuildCreateBFOperator :: "logical_operator \<Rightarrow> filter_plan list \<Rightarrow> logical_operator" where
  "BuildCreateBFOperator node plans = Operator (bf_node LOGICAL_CREATE_BF plans (operator_cardinality node)) []"

definition BuildUseBFOperator :: "logical_operator \<Rightarrow> filter_plan list \<Rightarrow> logical_operator option" where
  "BuildUseBFOperator node plans =
     fold (\<lambda>p last_operator. Some (Operator (bf_node LOGICAL_USE_BF [p] (operator_cardinality node))
             (case last_operator of None \<Rightarrow> [] | Some x \<Rightarrow> [x]))) (rev plans) None"

definition AddChild :: "logical_operator \<Rightarrow> logical_operator \<Rightarrow> logical_operator" where
  "AddChild x c = Operator (op_of x) (children x @ [c])"

definition HasAnyFilter :: "transfer_optimizer \<Rightarrow> logical_operator \<Rightarrow> bool \<Rightarrow> bool" where
  "HasAnyFilter st node reverse =
     (if \<not> reverse \<or> forward_stage_modification st (ptr node) = None then
        (if op_type (op_of node) = LOGICAL_GET then table_filters (op_of node) \<noteq> 0
         else op_type (op_of node) \<noteq> LOGICAL_UNION)
      else True)"

section \<open>Planning one table\<close>

text \<open>
  Shared pointers to filter plans are compared by the plan: the plans of a table's incoming edges
  differ, because creator and receiver of a plan are those of its edge.
\<close>

definition GetAllBFsToUse :: "transfer_graph_manager \<Rightarrow> nat \<Rightarrow> bool \<Rightarrow> filter_plan list option" where
  "GetAllBFsToUse m cur reverse =
     map_option (\<lambda>node.
       fold (\<lambda>e acc. fold (\<lambda>bf acc. if bf \<in> set acc then acc else acc @ [bf]) (ge_filter_plan e) acc)
         (if reverse then backward_in node else forward_in node) [])
       (transfer_graph m cur)"

definition create_plan_step ::
  "(column_binding \<times> column_binding) list \<Rightarrow> nat \<Rightarrow> graph_edge \<Rightarrow> nat \<Rightarrow> filter_plan \<Rightarrow> filter_plan option" where
  "create_plan_step renames cur e i fp =
     Option.bind (GetRenaming renames (ge_left e ! i)) (\<lambda>binding0.
     Option.bind (GetRenaming renames (ge_right e ! i)) (\<lambda>binding1.
       let fp1 = fp\<lparr>fp_return_types := fp_return_types fp @ [ge_types e ! i]\<rparr>
       in Some (if table_index binding0 = cur
                then fp1\<lparr>fp_build := fp_build fp1 @ [binding0], fp_apply := fp_apply fp1 @ [binding1]\<rparr>
                else if table_index binding1 = cur
                then fp1\<lparr>fp_build := fp_build fp1 @ [binding1], fp_apply := fp_apply fp1 @ [binding0]\<rparr>
                else fp1)))"

text \<open>A plan without a built column raises an internal error, here \<open>None\<close>.\<close>

definition create_plan :: "(column_binding \<times> column_binding) list \<Rightarrow> nat \<Rightarrow> graph_edge \<Rightarrow> filter_plan option" where
  "create_plan renames cur e =
     Option.bind (fold_opt (create_plan_step renames cur e) [0..<length (ge_left e)]
         \<lparr>fp_build = [], fp_apply = [], fp_return_types = []\<rparr>)
       (\<lambda>fp. if fp_build fp \<noteq> [] then Some fp else None)"

definition GetAllBFsToCreate :: "transfer_graph_manager \<Rightarrow> nat \<Rightarrow> bool \<Rightarrow> filter_plan list option" where
  "GetAllBFsToCreate m cur reverse =
     Option.bind (transfer_graph m cur) (\<lambda>node.
     Option.bind (GetTableOperator (table_operator_manager_of m) cur) (\<lambda>base_table.
       if op_type (op_of base_table) \<in> {LOGICAL_UNION, LOGICAL_EXCEPT, LOGICAL_INTERSECT, LOGICAL_WINDOW} then Some []
       else fold_opt (\<lambda>e plans. map_option (\<lambda>p. plans @ [p])
                (create_plan (rename_col_bindings (table_operator_manager_of m)) cur e))
              (if reverse then backward_out node else forward_out node) []))"

definition put_modification :: "bool \<Rightarrow> logical_operator \<Rightarrow> logical_operator \<Rightarrow> transfer_optimizer \<Rightarrow> transfer_optimizer" where
  "put_modification reverse node x st =
     (if reverse then st\<lparr>backward_stage_modification := (backward_stage_modification st)(ptr node \<mapsto> x)\<rparr>
      else st\<lparr>forward_stage_modification := (forward_stage_modification st)(ptr node \<mapsto> x)\<rparr>)"

definition CreateBloomFilterPlan ::
  "transfer_optimizer \<Rightarrow> logical_operator \<Rightarrow> bool \<Rightarrow> (transfer_optimizer \<times> (nat \<times> filter_plan) list) option" where
  "CreateBloomFilterPlan st node reverse =
     (let node_id = GetScalarTableIndex node; m = graph_manager st
      in if node_id = INVALID_TABLE \<or> transfer_graph m node_id = None then Some (st, [])
         else
           Option.bind (GetAllBFsToUse m node_id reverse) (\<lambda>to_use.
           Option.bind (GetAllBFsToCreate m node_id reverse) (\<lambda>to_create.
             if to_use \<noteq> [] \<and> to_create \<noteq> [] then
               Option.bind (BuildUseBFOperator node to_use) (\<lambda>last_use_bf.
                 let create_bf = AddChild (BuildCreateBFOperator node to_create) last_use_bf
                 in Some (put_modification reverse node create_bf st, map (Pair node_id) to_create))
             else if to_use \<noteq> [] then
               map_option (\<lambda>last_use_bf. (put_modification reverse node last_use_bf st, []))
                 (BuildUseBFOperator node to_use)
             else if to_create \<noteq> [] then
               (if \<not> HasAnyFilter st node reverse then Some (st, [])
                else Some (put_modification reverse node (BuildCreateBFOperator node to_create) st,
                           map (Pair node_id) to_create))
             else Some (st, []))))"

section \<open>Inserting the operators\<close>

fun chain_bottom :: "logical_operator \<Rightarrow> logical_operator" where
  "chain_bottom (Operator n []) = Operator n []"
| "chain_bottom (Operator n (c # cs)) = chain_bottom c"

fun append_bottom :: "logical_operator \<Rightarrow> logical_operator \<Rightarrow> logical_operator" where
  "append_bottom (Operator n []) x = Operator n [x]"
| "append_bottom (Operator n (c # cs)) x = Operator n (append_bottom c x # cs)"

fun has_creator :: "logical_operator \<Rightarrow> bool" where
  "has_creator (Operator n []) = (op_type n = LOGICAL_CREATE_BF)"
| "has_creator (Operator n (c # cs)) = (op_type n = LOGICAL_CREATE_BF \<or> has_creator c)"

text \<open>
  \<open>wrap_last_creator f scan chain\<close>: at the last creator of the chain, which is not its bottom, the
  child, extended at its bottom by \<open>scan\<close>, is replaced by \<open>f\<close> of it.
\<close>

fun wrap_last_creator ::
  "(logical_operator \<Rightarrow> logical_operator) \<Rightarrow> logical_operator \<Rightarrow> logical_operator \<Rightarrow> logical_operator" where
  "wrap_last_creator f scan (Operator n []) = Operator n []"
| "wrap_last_creator f scan (Operator n (c # cs)) =
     (if has_creator c then Operator n (wrap_last_creator f scan c # cs)
      else Operator n (f (append_bottom c scan) # cs))"

definition with_first_child :: "logical_operator \<Rightarrow> logical_operator \<Rightarrow> logical_operator" where
  "with_first_child x c = Operator (op_of x) (c # tl (children x))"

definition apply_modification ::
  "(nat \<Rightarrow> logical_operator option) \<Rightarrow> nat \<Rightarrow> logical_operator \<Rightarrow> logical_operator" where
  "apply_modification modify_map original plan =
     (case modify_map original of
        None \<Rightarrow> plan
      | Some chain \<Rightarrow>
          if op_type (op_of (chain_bottom chain)) = LOGICAL_CREATE_BF \<or> op_type (op_of plan) \<noteq> LOGICAL_FILTER
          then append_bottom chain plan
          else if (case op_expressions (op_of plan) of BOUND_COLUMN_REF _ # _ \<Rightarrow> True | _ \<Rightarrow> False)
          then append_bottom chain plan
          else
            let scan = hd (children plan)
            in if \<not> has_creator chain
               then with_first_child plan (append_bottom chain scan)
               else wrap_last_creator (with_first_child plan) scan chain)"

fun InsertTransferOperators :: "transfer_optimizer \<Rightarrow> logical_operator \<Rightarrow> logical_operator" where
  "InsertTransferOperators st (Operator n cs) =
     (let plan = Operator n (map (InsertTransferOperators st) cs)
      in apply_modification (backward_stage_modification st) (op_ptr n)
           (apply_modification (forward_stage_modification st) (op_ptr n) plan))"

definition forward_node :: "logical_operator \<Rightarrow> transfer_optimizer \<Rightarrow> transfer_optimizer option" where
  "forward_node node st =
     Option.bind (CreateBloomFilterPlan st node False) (\<lambda>(st', plans).
       fold_opt (\<lambda>(create_table, plan) s.
           map_option (\<lambda>m. s\<lparr>graph_manager := m\<rparr>) (AddFilterPlan create_table plan False (graph_manager s)))
         plans st')"

definition Optimize :: "transfer_optimizer \<Rightarrow> logical_operator \<Rightarrow> (transfer_optimizer \<times> logical_operator) option" where
  "Optimize st plan =
     map_option (\<lambda>st'. (st', InsertTransferOperators st' plan))
       (fold_opt forward_node (rev (transfer_order (graph_manager st))) st)"

definition GetBFOrder :: "transfer_optimizer \<Rightarrow> logical_operator list" where
  "GetBFOrder st =
     concat (map (\<lambda>node.
       if op_type (op_of node) = LOGICAL_GET \<or> op_type (op_of node) = LOGICAL_DELIM_GET then [node]
       else if op_type (op_of node) = LOGICAL_FILTER then
         (case children node of
            c # _ \<Rightarrow> if op_type (op_of c) = LOGICAL_GET then [c] else []
          | [] \<Rightarrow> [])
       else []) (transfer_order (graph_manager st)))"

section \<open>The inserted operators change nothing else\<close>

definition is_bf :: "op_node \<Rightarrow> bool" where
  "is_bf n \<longleftrightarrow> op_type n = LOGICAL_CREATE_BF \<or> op_type n = LOGICAL_USE_BF"

text \<open>Removing the filter operators of a plan.\<close>

fun strip_bf :: "logical_operator \<Rightarrow> logical_operator" where
  "strip_bf (Operator n cs) =
     (case cs of
        [c] \<Rightarrow> if is_bf n then strip_bf c else Operator n [strip_bf c]
      | _ \<Rightarrow> Operator n (map strip_bf cs))"

text \<open>A plan without filter operators whose filters have an input.\<close>

fun plain_plan :: "logical_operator \<Rightarrow> bool" where
  "plain_plan (Operator n cs) \<longleftrightarrow> \<not> is_bf n \<and> (op_type n = LOGICAL_FILTER \<longrightarrow> cs \<noteq> []) \<and> list_all plain_plan cs"

text \<open>A chain of filter operators.\<close>

fun bf_chain :: "logical_operator \<Rightarrow> bool" where
  "bf_chain (Operator n []) \<longleftrightarrow> is_bf n"
| "bf_chain (Operator n (c # cs)) \<longleftrightarrow> is_bf n \<and> cs = [] \<and> bf_chain c"

lemma strip_append_bottom: "bf_chain ch \<Longrightarrow> strip_bf (append_bottom ch x) = strip_bf x"
  by (induction ch rule: bf_chain.induct) auto

lemma strip_plain: "plain_plan p \<Longrightarrow> strip_bf p = p"
  by (induction p rule: strip_bf.induct) (auto split: list.splits simp: list_all_iff intro: map_idI)

lemma strip_with_first_child:
  assumes "\<not> is_bf (op_of p)" "children p \<noteq> []" "strip_bf c = strip_bf (hd (children p))"
  shows "strip_bf (with_first_child p c) = strip_bf p"
  using assms by (cases p; cases "children p") (auto simp: with_first_child_def split: list.split)

lemma strip_wrap:
  assumes "bf_chain ch" "has_creator ch" "op_type (op_of (chain_bottom ch)) \<noteq> LOGICAL_CREATE_BF"
    and "\<And>c. strip_bf (f c) = strip_bf (g c)" and "\<And>c. bf_chain c \<Longrightarrow> strip_bf (g (append_bottom c scan)) = r"
  shows "strip_bf (wrap_last_creator f scan ch) = r"
  using assms(1-3)
proof (induction ch rule: bf_chain.induct)
  case (2 n c cs)
  then show ?case using assms(4,5) by (cases "has_creator c") auto
qed simp


section \<open>What a table uses and creates\<close>

fun chain_plans :: "logical_operator_type \<Rightarrow> logical_operator \<Rightarrow> filter_plan list" where
  "chain_plans t (Operator n cs) =
     (if op_type n = t then bf_plans n else []) @ (case cs of [] \<Rightarrow> [] | c # _ \<Rightarrow> chain_plans t c)"

definition mod_plans :: "logical_operator_type \<Rightarrow> transfer_optimizer \<Rightarrow> logical_operator \<Rightarrow> filter_plan set" where
  "mod_plans t st x = (case forward_stage_modification st (ptr x) of None \<Rightarrow> {} | Some ch \<Rightarrow> set (chain_plans t ch))"

abbreviation used :: "transfer_optimizer \<Rightarrow> logical_operator \<Rightarrow> filter_plan set" where
  "used \<equiv> mod_plans LOGICAL_USE_BF"

abbreviation created :: "transfer_optimizer \<Rightarrow> logical_operator \<Rightarrow> filter_plan set" where
  "created \<equiv> mod_plans LOGICAL_CREATE_BF"

definition receiver :: "filter_plan \<Rightarrow> nat" where
  "receiver p = table_index (hd (fp_apply p))"

definition incoming :: "graph_node \<Rightarrow> filter_plan set" where
  "incoming n = (\<Union>e\<in>set (forward_in n). set (ge_filter_plan e))"

lemma BuildUseBFOperator_ok:
  "(plans = [] \<longrightarrow> BuildUseBFOperator node plans = None)
   \<and> (plans \<noteq> [] \<longrightarrow> (\<exists>ch. BuildUseBFOperator node plans = Some ch \<and> bf_chain ch
         \<and> chain_plans LOGICAL_USE_BF ch = plans \<and> chain_plans LOGICAL_CREATE_BF ch = []))"
proof (induction plans)
  case (Cons p ps)
  have "BuildUseBFOperator node (p # ps) = Some (Operator (bf_node LOGICAL_USE_BF [p] (operator_cardinality node))
      (case BuildUseBFOperator node ps of None \<Rightarrow> [] | Some x \<Rightarrow> [x]))"
    by (simp add: BuildUseBFOperator_def)
  then show ?case using Cons by (cases "ps = []") (auto simp: bf_node_def is_bf_def)
qed (simp add: BuildUseBFOperator_def)

lemma BuildUseBFOperator_Some:
  assumes "plans \<noteq> []"
  obtains ch where "BuildUseBFOperator node plans = Some ch" "bf_chain ch"
    "chain_plans LOGICAL_USE_BF ch = plans" "chain_plans LOGICAL_CREATE_BF ch = []"
  using BuildUseBFOperator_ok [where node = node and plans = plans] assms by blast

lemma add_unseen_set: "set (fold (\<lambda>bf acc. if bf \<in> set acc then acc else acc @ [bf]) ps acc) = set acc \<union> set ps"
  by (induction ps arbitrary: acc) auto

lemma collect_plans_set:
  "set (fold (\<lambda>e acc. fold (\<lambda>bf acc. if bf \<in> set acc then acc else acc @ [bf]) (ge_filter_plan e) acc) es acc) =
     set acc \<union> (\<Union>e\<in>set es. set (ge_filter_plan e))"
  by (induction es arbitrary: acc) (auto simp: add_unseen_set)

lemma GetAllBFsToUse_ok:
  assumes "transfer_graph m k = Some n"
  shows "\<exists>ps. GetAllBFsToUse m k False = Some ps \<and> set ps = incoming n"
  using assms collect_plans_set [of "forward_in n" "[]"] by (simp add: GetAllBFsToUse_def incoming_def)

text \<open>The plan that the sender of an edge creates for it.\<close>

definition plan_of :: "graph_edge \<Rightarrow> filter_plan" where
  "plan_of x = \<lparr>fp_build = ge_left x, fp_apply = ge_right x, fp_return_types = ge_types x\<rparr>"

lemma create_plan_ok:
  assumes "forward_edge_ok m k d x" "\<And>e. Some e \<in> set (selected_edges m) \<Longrightarrow> columns_fixed rs e"
  shows "create_plan rs k x = Some (plan_of x)"
proof -
  from assms(1) obtain cl cr e t where x: "ge_left x = [cl]" "ge_right x = [cr]" "ge_types x = [t]" "table_index cl = k"
    "Some e \<in> set (selected_edges m)" "{cl, cr} = {left_binding e, right_binding e}"
    by (auto simp: forward_edge_ok_def length_Suc_conv)
  have "columns_fixed rs e" using assms(2) x(5) by blast
  then have "map_of rs cl = None" "map_of rs cr = None"
    using x(6) by (auto simp: columns_fixed_def doubleton_eq_iff)
  then show ?thesis
    using x(1-4) by (simp add: create_plan_def create_plan_step_def GetRenaming_fixed plan_of_def)
qed


definition ready :: "transfer_graph_manager \<Rightarrow> bool" where
  "ready m \<longleftrightarrow> graph_built (remaining m) (renames_of m) m \<and> distinct (map ptr (transfer_order m))"

text \<open>
  A filter plan created at table \<open>k\<close> belongs to a selected edge from \<open>k\<close> to an earlier table of the
  order, whose rows may be filtered: it is built on the column of \<open>k\<close> and applied to the other one.
\<close>

definition plan_sound :: "transfer_graph_manager \<Rightarrow> nat \<Rightarrow> filter_plan \<Rightarrow> bool" where
  "plan_sound m k p \<longleftrightarrow> (\<exists>cl cr e. fp_build p = [cl] \<and> fp_apply p = [cr] \<and> table_index cl = k
     \<and> before (ids m) (table_index cr) k \<and> Some e \<in> set (selected_edges m)
     \<and> edge_ends e (table_index cr) k \<and> \<not> protects e (table_index cr)
     \<and> {cl, cr} = {left_binding e, right_binding e})"

lemma plan_of_sound:
  assumes "forward_edge_ok m k (destination x) x"
  shows "plan_sound m k (plan_of x)"
proof -
  from assms obtain cl cr e where x: "before (ids m) (destination x) k" "ge_left x = [cl]" "ge_right x = [cr]"
    "table_index cl = k" "table_index cr = destination x" "Some e \<in> set (selected_edges m)"
    "edge_ends e (destination x) k" "\<not> protects e (destination x)" "{cl, cr} = {left_binding e, right_binding e}"
    unfolding forward_edge_ok_def by blast
  show ?thesis
    unfolding plan_sound_def
    by (rule exI [of _ cl], rule exI [of _ cr], rule exI [of _ e]) (use x in \<open>simp add: plan_of_def\<close>)
qed

lemma plan_sound_receiver:
  assumes "plan_sound m k p"
  shows "before (ids m) (receiver p) k" "fp_apply p \<noteq> []"
  using assms by (auto simp: plan_sound_def receiver_def)

lemma GetAllBFsToCreate_ok:
  assumes "ready m" "transfer_graph m' k = Some n'" "transfer_graph m k = Some n" "forward_out n' = forward_out n"
    "table_operator_manager_of m' = table_operator_manager_of m"
  shows "\<exists>ps. GetAllBFsToCreate m' k False = Some ps \<and> (\<forall>p\<in>set ps. plan_sound m k p)"
proof -
  let ?rs = "rename_col_bindings (table_operator_manager_of m)"
  have m: "graph_built (remaining m) (renames_of m) m" using assms(1) by (simp add: ready_def)
  have "k \<in> dom (transfer_graph m)" using assms(3) by blast
  then have "k \<in> fst ` set (remaining m)" using m unfolding graph_built_def by (metis set_map set_mset_mset)
  then obtain base where base: "GetTableOperator (table_operator_manager_of m) k = Some base"
    unfolding GetTableOperator_def remaining_def by (metis map_of_eq_None_iff option.exhaust)
  have ok: "forward_edge_ok m k (destination x) x" if "x \<in> set (forward_out n)" for x
    using m assms(3) that by (simp add: graph_built_def transfers_ordered_def)
  have plan: "create_plan ?rs k x = Some (plan_of x)" if "x \<in> set (forward_out n)" for x
    using create_plan_ok [OF ok [OF that]] m by (simp add: graph_built_def renames_of_def)
  have "fold_opt (\<lambda>e plans. map_option (\<lambda>p. plans @ [p]) (create_plan ?rs k e)) es acc = Some (acc @ map plan_of es)"
    if "set es \<subseteq> set (forward_out n)" for es acc
    using that by (induction es arbitrary: acc) (simp_all add: plan)
  then have "fold_opt (\<lambda>e plans. map_option (\<lambda>p. plans @ [p]) (create_plan ?rs k e)) (forward_out n) []
      = Some (map plan_of (forward_out n))" by simp
  then have "GetAllBFsToCreate m' k False \<in> {Some [], Some (map plan_of (forward_out n))}"
    using base assms(2,4,5) by (simp add: GetAllBFsToCreate_def)
  then show ?thesis using plan_of_sound [OF ok] by auto
qed

section \<open>One table of the forward pass\<close>

lemma mod_plans_put:
  "mod_plans t (put_modification False node ch st) x =
     (if ptr x = ptr node then set (chain_plans t ch) else mod_plans t st x)"
  by (simp add: mod_plans_def put_modification_def)

lemma CreateBloomFilterPlan_ok:
  assumes "ready m" "node \<in> set (transfer_order m)" "GetScalarTableIndex node = k"
    and "transfer_graph (graph_manager st) k = Some n'" "transfer_graph m k = Some n"
    and "forward_out n' = forward_out n"
    and "table_operator_manager_of (graph_manager st) = table_operator_manager_of m"
    and "forward_stage_modification st (ptr node) = None"
  shows "\<exists>st' ps. CreateBloomFilterPlan st node False = Some (st', map (Pair k) ps)
    \<and> graph_manager st' = graph_manager st \<and> backward_stage_modification st' = backward_stage_modification st
    \<and> (\<forall>x. ptr x \<noteq> ptr node \<longrightarrow> forward_stage_modification st' (ptr x) = forward_stage_modification st (ptr x))
    \<and> (\<forall>ch. forward_stage_modification st' (ptr node) = Some ch \<longrightarrow> bf_chain ch)
    \<and> created st' node = set ps \<and> used st' node = incoming n' \<and> (\<forall>p\<in>set ps. plan_sound m k p)"
proof -
  have built: "graph_built (remaining m) (renames_of m) m" using assms(1) by (simp add: ready_def)
  then have "node \<in> snd ` set (remaining m)" using assms(2) by (auto simp: graph_built_def)
  then have k: "k \<noteq> INVALID_TABLE" using assms(3) built by (auto simp: graph_built_def tables_ok_def)
  from GetAllBFsToUse_ok [OF assms(4)] obtain us where us: "GetAllBFsToUse (graph_manager st) k False = Some us"
    "set us = incoming n'" by blast
  from GetAllBFsToCreate_ok [OF assms(1,4,5,6,7)] obtain ps where ps:
    "GetAllBFsToCreate (graph_manager st) k False = Some ps" "\<forall>p\<in>set ps. plan_sound m k p" by blast
  have start: "CreateBloomFilterPlan st node False = (if us \<noteq> [] \<and> ps \<noteq> [] then
        Option.bind (BuildUseBFOperator node us) (\<lambda>last_use_bf.
          Some (put_modification False node (AddChild (BuildCreateBFOperator node ps) last_use_bf) st, map (Pair k) ps))
      else if us \<noteq> [] then
        map_option (\<lambda>last_use_bf. (put_modification False node last_use_bf st, [])) (BuildUseBFOperator node us)
      else if ps \<noteq> [] then
        (if \<not> HasAnyFilter st node False then Some (st, [])
         else Some (put_modification False node (BuildCreateBFOperator node ps) st, map (Pair k) ps))
      else Some (st, []))"
    using k assms(3,4) us(1) ps(1) by (simp add: CreateBloomFilterPlan_def Let_def)
  have frame: "graph_manager (put_modification False node ch st) = graph_manager st"
    "backward_stage_modification (put_modification False node ch st) = backward_stage_modification st"
    "forward_stage_modification (put_modification False node ch st) q =
       (if q = ptr node then Some ch else forward_stage_modification st q)" for ch q
    by (simp_all add: put_modification_def)
  consider (both) "us \<noteq> []" "ps \<noteq> []" | (use) "us \<noteq> []" "ps = []"
    | (create) "us = []" "ps \<noteq> []" "HasAnyFilter st node False" | (none) "us = []" "ps = [] \<or> \<not> HasAnyFilter st node False"
    by blast
  then show ?thesis
  proof cases
    case both
    from BuildUseBFOperator_Some [OF both(1)] obtain ch where ch: "BuildUseBFOperator node us = Some ch" "bf_chain ch"
      "chain_plans LOGICAL_USE_BF ch = us" "chain_plans LOGICAL_CREATE_BF ch = []" by blast
    then show ?thesis
      using both us(2) ps(2) unfolding start
      by (intro exI [of _ "put_modification False node (AddChild (BuildCreateBFOperator node ps) ch) st"] exI [of _ ps])
        (simp add: frame mod_plans_put AddChild_def BuildCreateBFOperator_def bf_node_def is_bf_def)
  next
    case use
    from BuildUseBFOperator_Some [OF use(1)] obtain ch where ch: "BuildUseBFOperator node us = Some ch" "bf_chain ch"
      "chain_plans LOGICAL_USE_BF ch = us" "chain_plans LOGICAL_CREATE_BF ch = []" by blast
    then show ?thesis
      using use us(2) unfolding start
      by (intro exI [of _ "put_modification False node ch st"] exI [of _ "[]"]) (simp add: frame mod_plans_put)
  next
    case create
    then show ?thesis
      using us(2) ps(2) unfolding start
      by (intro exI [of _ "put_modification False node (BuildCreateBFOperator node ps) st"] exI [of _ ps])
        (simp add: frame mod_plans_put BuildCreateBFOperator_def bf_node_def is_bf_def)
  next
    case none
    then have "CreateBloomFilterPlan st node False = Some (st, [])" using start by auto
    then show ?thesis
      using none us(2) assms(8) by (intro exI [of _ st] exI [of _ "[]"]) (simp add: mod_plans_def)
  qed
qed


section \<open>Attaching the created plans\<close>

definition attach_plan :: "nat \<times> filter_plan \<Rightarrow> transfer_optimizer \<Rightarrow> transfer_optimizer option" where
  "attach_plan = (\<lambda>(create_table, plan) s.
     map_option (\<lambda>m. s\<lparr>graph_manager := m\<rparr>) (AddFilterPlan create_table plan False (graph_manager s)))"

lemma forward_node_eq:
  "forward_node node st = Option.bind (CreateBloomFilterPlan st node False) (\<lambda>(st', plans). fold_opt attach_plan plans st')"
  by (simp add: forward_node_def attach_plan_def)

lemma plans_add_edge:
  "(\<Union>e\<in>set (add_edge (\<lambda>e. e\<lparr>ge_filter_plan := ge_filter_plan e @ [p]\<rparr>) d es). set (ge_filter_plan e)) =
     insert p (\<Union>e\<in>set es. set (ge_filter_plan e))"
  by (induction es) (auto simp: GraphEdge_def)

text \<open>\<open>same_graph m m'\<close>: the same nodes, tables and outgoing edges.\<close>

definition same_graph :: "transfer_graph_manager \<Rightarrow> transfer_graph_manager \<Rightarrow> bool" where
  "same_graph m m' \<longleftrightarrow> table_operator_manager_of m' = table_operator_manager_of m
     \<and> dom (transfer_graph m') = dom (transfer_graph m)
     \<and> (\<forall>k n n'. transfer_graph m k = Some n \<longrightarrow> transfer_graph m' k = Some n' \<longrightarrow> forward_out n' = forward_out n)"

definition incoming_at :: "transfer_graph_manager \<Rightarrow> nat \<Rightarrow> filter_plan set" where
  "incoming_at m k = (case transfer_graph m k of None \<Rightarrow> {} | Some n \<Rightarrow> incoming n)"

lemma same_graph_trans: "same_graph m1 m2 \<Longrightarrow> same_graph m2 m3 \<Longrightarrow> same_graph m1 m3"
  unfolding same_graph_def by (metis domD domI)

lemma attach_plan_ok:
  assumes "receiver p \<in> dom (transfer_graph (graph_manager st))" "fp_apply p \<noteq> []"
  shows "\<exists>m'. attach_plan (k, p) st = Some (st\<lparr>graph_manager := m'\<rparr>) \<and> same_graph (graph_manager st) m'
    \<and> (\<forall>j. incoming_at m' j = incoming_at (graph_manager st) j \<union> {q. q = p \<and> receiver q = j})"
proof -
  from assms(1) obtain n where n: "transfer_graph (graph_manager st) (receiver p) = Some n" by blast
  from assms(2) obtain c cs where c: "fp_apply p = c # cs" by (cases "fp_apply p") auto
  then have r: "table_index c = receiver p" by (simp add: receiver_def)
  let ?n' = "Add_filter_plan k p True True n"
  let ?m' = "(graph_manager st)\<lparr>transfer_graph := (transfer_graph (graph_manager st))(receiver p \<mapsto> ?n')\<rparr>"
  have i: "incoming ?n' = insert p (incoming n)"
    by (simp add: Add_filter_plan_def node_Add_def incoming_def plans_add_edge del: UN_insert)
  have o: "forward_out ?n' = forward_out n" by (simp add: Add_filter_plan_def node_Add_def)
  have "attach_plan (k, p) st = Some (st\<lparr>graph_manager := ?m'\<rparr>)"
    using n by (simp add: attach_plan_def AddFilterPlan_def c r modify_node_def)
  moreover have "same_graph (graph_manager st) ?m'" using n o by (auto simp: same_graph_def)
  moreover have "\<forall>j. incoming_at ?m' j = incoming_at (graph_manager st) j \<union> {q. q = p \<and> receiver q = j}"
    using n i by (auto simp: incoming_at_def)
  ultimately show ?thesis by blast
qed

lemma attach_plans_ok:
  assumes "\<And>p. p \<in> set ps \<Longrightarrow> receiver p \<in> dom (transfer_graph (graph_manager st)) \<and> fp_apply p \<noteq> []"
  shows "\<exists>m'. fold_opt attach_plan (map (Pair k) ps) st = Some (st\<lparr>graph_manager := m'\<rparr>)
    \<and> same_graph (graph_manager st) m'
    \<and> (\<forall>j. incoming_at m' j = incoming_at (graph_manager st) j \<union> {q\<in>set ps. receiver q = j})"
  using assms
proof (induction ps arbitrary: st)
  case Nil
  then show ?case by (intro exI [of _ "graph_manager st"]) (simp add: same_graph_def)
next
  case (Cons p ps)
  from attach_plan_ok [of p st k] Cons.prems obtain m1 where m1: "attach_plan (k, p) st = Some (st\<lparr>graph_manager := m1\<rparr>)"
    "same_graph (graph_manager st) m1"
    "\<And>j. incoming_at m1 j = incoming_at (graph_manager st) j \<union> {q. q = p \<and> receiver q = j}" by auto
  have "\<And>q. q \<in> set ps \<Longrightarrow> receiver q \<in> dom (transfer_graph m1) \<and> fp_apply q \<noteq> []"
    using Cons.prems m1(2) by (simp add: same_graph_def)
  from Cons.IH [of "st\<lparr>graph_manager := m1\<rparr>"] this obtain m2 where
    m2: "fold_opt attach_plan (map (Pair k) ps) (st\<lparr>graph_manager := m1\<rparr>) = Some (st\<lparr>graph_manager := m2\<rparr>)"
    "same_graph m1 m2" "\<And>j. incoming_at m2 j = incoming_at m1 j \<union> {q\<in>set ps. receiver q = j}" by auto
  show ?case
    using m1 m2 same_graph_trans [OF m1(2) m2(2)] by (intro exI [of _ m2]) auto
qed

section \<open>The forward pass\<close>

definition chains_ok :: "transfer_optimizer \<Rightarrow> bool" where
  "chains_ok st \<longleftrightarrow> (\<forall>q ch. forward_stage_modification st q = Some ch \<longrightarrow> bf_chain ch)
     \<and> backward_stage_modification st = Map.empty"

text \<open>After the tables \<open>ns\<close>: what they created and used, and what waits at the tables still to come.\<close>

definition pass_inv :: "transfer_graph_manager \<Rightarrow> logical_operator list \<Rightarrow> transfer_optimizer \<Rightarrow> bool" where
  "pass_inv m ns st \<longleftrightarrow> same_graph m (graph_manager st) \<and> chains_ok st
     \<and> (\<forall>q. forward_stage_modification st q \<noteq> None \<longrightarrow> q \<in> ptr ` set ns)
     \<and> (\<forall>y\<in>set ns. \<forall>p\<in>created st y. plan_sound m (GetScalarTableIndex y) p
          \<and> p \<in> incoming_at (graph_manager st) (receiver p))
     \<and> (\<forall>k. \<forall>p\<in>incoming_at (graph_manager st) k. receiver p = k \<and> (\<exists>y\<in>set ns. p \<in> created st y))
     \<and> (\<forall>x\<in>set ns. used st x = incoming_at (graph_manager st) (GetScalarTableIndex x))"

lemma before_last:
  assumes "before xs a k" "xs = as @ k # bs" "distinct xs"
  shows "a \<notin> insert k (set bs)"
proof -
  from assms(1) obtain ys zs where yz: "xs = ys @ zs" "a \<in> set ys" "k \<in> set zs" by (auto simp: before_def)
  then obtain us vs where "zs = us @ k # vs" by (meson split_list)
  then have eq: "(ys @ us) @ k # vs = as @ k # bs" using yz(1) assms(2) by simp
  have "distinct ((ys @ us) @ k # vs)" unfolding eq using assms(2,3) by simp
  then have "k \<notin> set (ys @ us)" "k \<notin> set vs" by auto
  then have "ys @ us = as \<and> vs = bs" using iffD1 [OF append_Cons_eq_iff eq] by simp
  then show ?thesis using yz(2) assms(2,3) by auto
qed

lemma before_later:
  assumes "before xs a k" "xs = as @ a # bs" "distinct xs"
  shows "k \<in> set bs"
proof -
  from assms(1) obtain ys zs where yz: "xs = ys @ zs" "a \<in> set ys" "k \<in> set zs" by (auto simp: before_def)
  then obtain us vs where "ys = us @ a # vs" by (meson split_list)
  then have eq: "us @ a # (vs @ zs) = as @ a # bs" using yz(1) assms(2) by simp
  have "distinct (us @ a # (vs @ zs))" unfolding eq using assms(2,3) by simp
  then have "a \<notin> set us" "a \<notin> set (vs @ zs)" by auto
  then have "us = as \<and> vs @ zs = bs" using iffD1 [OF append_Cons_eq_iff eq] by simp
  then show ?thesis using yz(3) by auto
qed

lemma forward_node_ok:
  assumes ready: "ready m" and inv: "pass_inv m ns st" and order: "rev (transfer_order m) = ns @ node # rest"
  shows "\<exists>st'. forward_node node st = Some st' \<and> pass_inv m (ns @ [node]) st'"
proof -
  let ?k = "GetScalarTableIndex node"
  have built: "graph_built (remaining m) (renames_of m) m" and ptrs: "distinct (map ptr (transfer_order m))"
    using ready by (simp_all add: ready_def)
  have node: "node \<in> set (transfer_order m)" using order by (metis in_set_conv_decomp set_rev)
  have new: "ptr node \<notin> ptr ` set ns"
    using ptrs arg_cong [OF order, of "\<lambda>xs. distinct (map ptr xs)"] by (auto simp: rev_map [symmetric])
  have dom: "dom (transfer_graph m) = set (ids m)" using built by (simp add: graph_built_def)
  from node have "?k \<in> dom (transfer_graph m)" by (simp add: dom ids_def)
  then obtain n n' where n: "transfer_graph m ?k = Some n" "transfer_graph (graph_manager st) ?k = Some n'"
    using inv unfolding pass_inv_def same_graph_def by blast
  have out: "forward_out n' = forward_out n" using inv n by (auto simp: pass_inv_def same_graph_def)
  have tom: "table_operator_manager_of (graph_manager st) = table_operator_manager_of m"
    using inv by (simp add: pass_inv_def same_graph_def)
  have fresh: "forward_stage_modification st (ptr node) = None" using inv new by (auto simp: pass_inv_def)
  from CreateBloomFilterPlan_ok [OF ready node refl n(2,1) out tom fresh] obtain st1 ps where
    c: "CreateBloomFilterPlan st node False = Some (st1, map (Pair ?k) ps)"
    "graph_manager st1 = graph_manager st" "backward_stage_modification st1 = backward_stage_modification st"
    "\<And>x. ptr x \<noteq> ptr node \<Longrightarrow> forward_stage_modification st1 (ptr x) = forward_stage_modification st (ptr x)"
    "\<And>ch. forward_stage_modification st1 (ptr node) = Some ch \<Longrightarrow> bf_chain ch"
    "created st1 node = set ps" "used st1 node = incoming n'" "\<And>p. p \<in> set ps \<Longrightarrow> plan_sound m ?k p" by metis
  have old: "forward_stage_modification st1 q = forward_stage_modification st q" if "q \<noteq> ptr node" for q
    using c(4) [of "Operator (bf_node LOGICAL_GET [] 0\<lparr>op_ptr := q\<rparr>) []"] that by (simp add: ptr_def)
  have "receiver p \<in> dom (transfer_graph (graph_manager st1)) \<and> fp_apply p \<noteq> []" if "p \<in> set ps" for p
    using plan_sound_receiver(2) [OF c(8) [OF that]] before_in [OF plan_sound_receiver(1) [OF c(8) [OF that]]] inv c(2)
    by (simp add: pass_inv_def same_graph_def dom)
  from attach_plans_ok [OF this] obtain m' where m':
    "fold_opt attach_plan (map (Pair ?k) ps) st1 = Some (st1\<lparr>graph_manager := m'\<rparr>)"
    "same_graph (graph_manager st) m'"
    "\<And>j. incoming_at m' j = incoming_at (graph_manager st) j \<union> {q\<in>set ps. receiver q = j}"
    unfolding c(2) by blast
  let ?st = "st1\<lparr>graph_manager := m'\<rparr>"
  have mods: "mod_plans t ?st x = mod_plans t st x" if "ptr x \<noteq> ptr node" for t x
    using old [OF that] by (simp add: mod_plans_def)
  have mods_ns: "mod_plans t ?st x = mod_plans t st x" if "x \<in> set ns" for t x
    using new that by (intro mods) (metis image_eqI)
  have self: "created ?st node = set ps" "used ?st node = incoming_at (graph_manager st) ?k"
    using c(6,7) n(2) by (simp_all add: mod_plans_def incoming_at_def)
  have later: "receiver p \<notin> GetScalarTableIndex ` set (ns @ [node])" if p: "p \<in> set ps" for p
  proof
    assume late: "receiver p \<in> GetScalarTableIndex ` set (ns @ [node])"
    define as where "as = rev (map GetScalarTableIndex rest)"
    define bs where "bs = rev (map GetScalarTableIndex ns)"
    have ids: "ids m = as @ ?k # bs"
      using arg_cong [OF order, of "\<lambda>xs. rev (map GetScalarTableIndex xs)"] by (simp add: ids_def rev_map as_def bs_def)
    moreover have "distinct (ids m)" using built by (simp add: graph_built_def)
    moreover have "receiver p \<in> insert ?k (set bs)" using late by (auto simp: bs_def)
    ultimately show False
      using plan_sound_receiver(1) [OF c(8) [OF p]] before_last by metis
  qed
  have "pass_inv m (ns @ [node]) ?st"
    unfolding pass_inv_def
  proof (intro conjI ballI allI impI)
    show "same_graph m (graph_manager ?st)"
      using same_graph_trans [OF _ m'(2)] inv by (simp add: pass_inv_def)
    show "chains_ok ?st"
      using inv c(3,5) old unfolding pass_inv_def chains_ok_def by (metis select_convs(2,3) surjective update_convs(1))
    show "q \<in> ptr ` set (ns @ [node])" if "forward_stage_modification ?st q \<noteq> None" for q
      using that old inv by (cases "q = ptr node") (auto simp: pass_inv_def)
  next
    fix y p assume y: "y \<in> set (ns @ [node])" and p: "p \<in> created ?st y"
    show "plan_sound m (GetScalarTableIndex y) p" "p \<in> incoming_at (graph_manager ?st) (receiver p)"
      using y p inv c(8) self(1) mods_ns m'(3) by (auto simp: pass_inv_def)
  next
    fix k p assume p: "p \<in> incoming_at (graph_manager ?st) k"
    then show "receiver p = k" using inv m'(3) by (auto simp: pass_inv_def)
    show "\<exists>y\<in>set (ns @ [node]). p \<in> created ?st y"
      using p inv m'(3) self(1) mods_ns by (auto simp: pass_inv_def)
  next
    fix x assume x: "x \<in> set (ns @ [node])"
    then have "{q\<in>set ps. receiver q = GetScalarTableIndex x} = {}" using later by fastforce
    then show "used ?st x = incoming_at (graph_manager ?st) (GetScalarTableIndex x)"
      using x inv m'(3) self(2) mods_ns by (auto simp: pass_inv_def)
  qed
  then show ?thesis using c(1) m'(1) by (auto simp: forward_node_eq)
qed


definition start_optimizer :: "transfer_graph_manager \<Rightarrow> transfer_optimizer" where
  "start_optimizer m =
     \<lparr>graph_manager = m, forward_stage_modification = Map.empty, backward_stage_modification = Map.empty\<rparr>"

lemma forward_pass_ok:
  assumes "ready m" "rev (transfer_order m) = ns @ rest" "pass_inv m ns st"
  shows "\<exists>st'. fold_opt forward_node rest st = Some st' \<and> pass_inv m (ns @ rest) st'"
  using assms(2,3)
proof (induction rest arbitrary: ns st)
  case (Cons node rest)
  from forward_node_ok [OF assms(1) Cons.prems(2,1)] obtain st1 where
    st1: "forward_node node st = Some st1" "pass_inv m (ns @ [node]) st1" by blast
  from Cons.IH [OF _ st1(2)] Cons.prems(1) st1(1) show ?case by simp
qed simp

lemma start_pass_inv:
  assumes "ready m"
  shows "pass_inv m [] (start_optimizer m)"
proof -
  have "incoming n = {}" if n: "transfer_graph m k = Some n" for k n
  proof -
    have "forward_edge_ok m (destination x) k x" if "x \<in> set (forward_in n)" for x
      using assms n that by (simp add: ready_def graph_built_def transfers_ordered_def)
    then show ?thesis by (auto simp: incoming_def forward_edge_ok_def)
  qed
  then show ?thesis
    by (auto simp: pass_inv_def start_optimizer_def same_graph_def chains_ok_def incoming_at_def split: option.splits)
qed

text \<open>
  \<open>transfers_sound m st\<close>: every filter used at a table was created at a later table of the order, which
  the pass visits earlier, for this table; every created filter is used at its receiver; and each
  belongs to a selected edge whose receiving side may be filtered.
\<close>

definition transfers_sound :: "transfer_graph_manager \<Rightarrow> transfer_optimizer \<Rightarrow> bool" where
  "transfers_sound m st \<longleftrightarrow> (\<forall>x\<in>set (transfer_order m).
     (\<forall>p\<in>used st x. receiver p = GetScalarTableIndex x
        \<and> (\<exists>y\<in>set (transfer_order m). p \<in> created st y \<and> before (ids m) (GetScalarTableIndex x) (GetScalarTableIndex y)))
     \<and> (\<forall>p\<in>created st x. plan_sound m (GetScalarTableIndex x) p
        \<and> (\<exists>y\<in>set (transfer_order m). GetScalarTableIndex y = receiver p \<and> p \<in> used st y)))"

lemma forward_pass_sound:
  assumes "ready m"
  shows "\<exists>st. fold_opt forward_node (rev (transfer_order m)) (start_optimizer m) = Some st \<and> chains_ok st
    \<and> transfers_sound m st"
proof -
  from forward_pass_ok [OF assms _ start_pass_inv [OF assms], of "rev (transfer_order m)"] obtain st where
    st: "fold_opt forward_node (rev (transfer_order m)) (start_optimizer m) = Some st"
    "pass_inv m (rev (transfer_order m)) st" by auto
  have "transfers_sound m st"
    unfolding transfers_sound_def
  proof (intro ballI conjI)
    fix x p assume x: "x \<in> set (transfer_order m)" and p: "p \<in> used st x"
    then have i: "p \<in> incoming_at (graph_manager st) (GetScalarTableIndex x)" using st(2) by (auto simp: pass_inv_def)
    then show r: "receiver p = GetScalarTableIndex x" using st(2) by (simp add: pass_inv_def)
    from i st(2) have "\<exists>y\<in>set (rev (transfer_order m)). p \<in> created st y" unfolding pass_inv_def by blast
    then obtain y where y: "y \<in> set (transfer_order m)" "p \<in> created st y" by auto
    then have "plan_sound m (GetScalarTableIndex y) p" using st(2) by (simp add: pass_inv_def)
    from plan_sound_receiver(1) [OF this] y r
    show "\<exists>y\<in>set (transfer_order m). p \<in> created st y \<and> before (ids m) (GetScalarTableIndex x) (GetScalarTableIndex y)"
      by metis
  next
    fix x p assume x: "x \<in> set (transfer_order m)" and p: "p \<in> created st x"
    then show s: "plan_sound m (GetScalarTableIndex x) p" using st(2) by (simp add: pass_inv_def)
    have "receiver p \<in> set (ids m)" using before_in [OF plan_sound_receiver(1) [OF s]] by simp
    then obtain y where "y \<in> set (transfer_order m)" "GetScalarTableIndex y = receiver p" by (auto simp: ids_def)
    then show "\<exists>y\<in>set (transfer_order m). GetScalarTableIndex y = receiver p \<and> p \<in> used st y"
      using x p st(2) by (auto simp: pass_inv_def)
  qed
  then show ?thesis using st by (auto simp: pass_inv_def)
qed

section \<open>The plan that results\<close>

lemma apply_modification_strip:
  assumes "\<And>ch. mods q = Some ch \<Longrightarrow> bf_chain ch" "op_type (op_of p) = LOGICAL_FILTER \<Longrightarrow> children p \<noteq> []"
  shows "strip_bf (apply_modification mods q p) = strip_bf p"
proof (cases "mods q")
  case (Some ch)
  then have ch: "bf_chain ch" by (rule assms(1))
  have nobf: "\<not> is_bf (op_of p)" if "op_type (op_of p) = LOGICAL_FILTER" using that by (simp add: is_bf_def)
  let ?scan = "hd (children p)"
  have child: "strip_bf (with_first_child p c) = strip_bf p"
    if "op_type (op_of p) = LOGICAL_FILTER" "strip_bf c = strip_bf ?scan" for c
    using strip_with_first_child [OF nobf [OF that(1)] assms(2) [OF that(1)] that(2)] .
  have wrap: "strip_bf (wrap_last_creator (with_first_child p) ?scan ch) = strip_bf p"
    if f: "op_type (op_of p) = LOGICAL_FILTER" "has_creator ch" "op_type (op_of (chain_bottom ch)) \<noteq> LOGICAL_CREATE_BF"
    using ch f(2,3)
  proof (induction ch rule: bf_chain.induct)
    case (2 n c cs)
    then show ?case
      using child [OF f(1) strip_append_bottom [of c ?scan]] by (cases "has_creator c") auto
  qed simp
  show ?thesis
    using Some strip_append_bottom [OF ch] child [OF _ strip_append_bottom [OF ch]] wrap
    by (auto simp: apply_modification_def Let_def split: list.split plan_expr.split)
qed (simp add: apply_modification_def)

lemma Insert_strip:
  assumes "chains_ok st"
  shows "plain_plan p \<Longrightarrow> strip_bf (InsertTransferOperators st p) = p"
proof (induction p)
  case (Operator n cs)
  have chain: "forward_stage_modification st q = Some ch \<Longrightarrow> bf_chain ch" for q ch
    using assms by (auto simp: chains_ok_def)
  have none: "backward_stage_modification st = Map.empty" using assms by (simp add: chains_ok_def)
  let ?cs = "map (InsertTransferOperators st) cs"
  have cs: "map strip_bf ?cs = cs" using Operator by (auto simp: list_all_iff intro: map_idI)
  have "strip_bf (apply_modification (forward_stage_modification st) (op_ptr n) (Operator n ?cs)) =
      strip_bf (Operator n ?cs)"
    by (rule apply_modification_strip) (use chain Operator.prems in auto)
  also have "\<dots> = Operator n cs" using Operator.prems cs by (auto split: list.split)
  finally show ?case by (simp add: Let_def none apply_modification_def [of Map.empty])
qed


section \<open>The pass on a whole plan\<close>

lemma ready_of_built:
  assumes "graph_built ts rs m" "snd ` set ts \<subseteq> set (operators plan)" "distinct (map ptr (operators plan))"
  shows "ready m"
proof -
  have m: "remaining m = ts" "renames_of m = rs" using assms(1) by (simp_all add: graph_built_def)
  have "distinct (transfer_order m)"
    using assms(1) by (simp add: graph_built_def ids_def distinct_map)
  moreover have "inj_on ptr (set (transfer_order m))"
    using assms unfolding graph_built_def distinct_map by (meson inj_on_subset subset_trans)
  ultimately show ?thesis using assms(1) by (simp add: ready_def m distinct_map)
qed


lemma example_plan_ok: "plain_plan example_plan" "distinct (map ptr (operators example_plan))"
  by (simp_all add: example_plan_def plain_node_def is_bf_def ptr_def)


section \<open>Running the transfers\<close>

text \<open>
  What the filters of a finished pass do to the tables when the plan runs: tables are visited in the
  order of the pass; each keeps the rows that every filter it uses accepts, and builds its filters from
  the rows it kept.  \<open>accept S\<close> is what a filter built from the values \<open>S\<close> accepts.
\<close>

fun run_transfers ::
  "('v set \<Rightarrow> 'v set) \<Rightarrow> transfer_optimizer \<Rightarrow> ('r \<Rightarrow> column_binding \<Rightarrow> 'v) \<Rightarrow> (nat \<Rightarrow> 'r set) \<Rightarrow> logical_operator list \<Rightarrow>
   (filter_plan \<Rightarrow> 'v set) \<times> (nat \<Rightarrow> 'r set)" where
  "run_transfers accept st val rows [] = ((\<lambda>_. {}), rows)"
| "run_transfers accept st val rows (x # later) =
     (let (filters, kept) = run_transfers accept st val rows later;
          k = GetScalarTableIndex x;
          mine = {r \<in> rows k. \<forall>p\<in>used st x. val r (hd (fp_apply p)) \<in> accept (filters p)}
      in ((\<lambda>p. if p \<in> created st x then (\<lambda>r. val r (hd (fp_build p))) ` mine else filters p), kept(k := mine)))"

definition joined :: "transfer_graph_manager \<Rightarrow> ('r \<Rightarrow> column_binding \<Rightarrow> 'v) \<Rightarrow> (nat \<Rightarrow> 'r set) \<Rightarrow> (nat \<Rightarrow> 'r) \<Rightarrow> bool" where
  "joined m val rows c \<longleftrightarrow> (\<forall>k\<in>set (ids m). c k \<in> rows k)
     \<and> (\<forall>e. Some e \<in> set (selected_edges m) \<longrightarrow>
          val (c (table_index (left_binding e))) (left_binding e) = val (c (table_index (right_binding e))) (right_binding e))"

lemma plan_sound_values:
  assumes "plan_sound m k p" "joined m val rows c"
  shows "val (c k) (hd (fp_build p)) = val (c (receiver p)) (hd (fp_apply p))" "table_index (hd (fp_build p)) = k"
proof -
  from assms(1) obtain cl cr e where p: "fp_build p = [cl]" "fp_apply p = [cr]" "table_index cl = k"
    "Some e \<in> set (selected_edges m)" "{cl, cr} = {left_binding e, right_binding e}"
    by (auto simp: plan_sound_def)
  show "table_index (hd (fp_build p)) = k" using p by simp
  from p(5) consider "cl = left_binding e" "cr = right_binding e" | "cl = right_binding e" "cr = left_binding e"
    by (auto simp: doubleton_eq_iff)
  then show "val (c k) (hd (fp_build p)) = val (c (receiver p)) (hd (fp_apply p))"
    using p assms(2) by cases (auto simp: joined_def receiver_def)
qed

lemma run_transfers_keep:
  assumes sound: "transfers_sound m st" and dist: "distinct (ids m)" and j: "joined m val rows c"
    and acc: "\<And>S. S \<subseteq> accept S"
  shows "transfer_order m = earlier @ later \<Longrightarrow>
    (\<forall>x\<in>set later. c (GetScalarTableIndex x) \<in> snd (run_transfers accept st val rows later) (GetScalarTableIndex x)
       \<and> (\<forall>p\<in>created st x. val (c (GetScalarTableIndex x)) (hd (fp_build p)) \<in> fst (run_transfers accept st val rows later) p))"
proof (induction later arbitrary: earlier)
  case (Cons x later)
  let ?k = "GetScalarTableIndex x"
  obtain filters kept where run: "run_transfers accept st val rows later = (filters, kept)" by fastforce
  have IH: "c (GetScalarTableIndex y) \<in> kept (GetScalarTableIndex y)"
    "\<And>p. p \<in> created st y \<Longrightarrow> val (c (GetScalarTableIndex y)) (hd (fp_build p)) \<in> filters p" if "y \<in> set later" for y
    using Cons.IH [of "earlier @ [x]"] Cons.prems run that by auto
  have ids: "ids m = map GetScalarTableIndex earlier @ ?k # map GetScalarTableIndex later"
    using Cons.prems by (simp add: ids_def)
  have x: "x \<in> set (transfer_order m)" using Cons.prems by simp
  have later_k: "GetScalarTableIndex y \<noteq> ?k" if "y \<in> set later" for y using dist ids that by (auto simp: image_iff)
  define mine where "mine = {r \<in> rows ?k. \<forall>p\<in>used st x. val r (hd (fp_apply p)) \<in> accept (filters p)}"
  have run': "run_transfers accept st val rows (x # later) =
    ((\<lambda>p. if p \<in> created st x then (\<lambda>r. val r (hd (fp_build p))) ` mine else filters p), kept(?k := mine))"
    unfolding run_transfers.simps run prod.case Let_def mine_def ..
  have "val (c ?k) (hd (fp_apply p)) \<in> accept (filters p)" if "p \<in> used st x" for p
  proof -
    from sound x that have "receiver p = ?k \<and> (\<exists>y\<in>set (transfer_order m). p \<in> created st y
      \<and> before (ids m) ?k (GetScalarTableIndex y))" unfolding transfers_sound_def by blast
    then obtain y where y: "receiver p = ?k" "y \<in> set (transfer_order m)" "p \<in> created st y"
      "before (ids m) ?k (GetScalarTableIndex y)" by blast
    from before_later [OF y(4) ids dist] have "GetScalarTableIndex y \<in> GetScalarTableIndex ` set later" by simp
    then have "y \<in> set later"
      using dist y(2) Cons.prems unfolding ids_def distinct_map by (auto simp: inj_on_def)
    moreover have "plan_sound m (GetScalarTableIndex y) p" using sound y(2,3) by (simp add: transfers_sound_def)
    ultimately show ?thesis
      using IH(2) [OF _ y(3)] plan_sound_values(1) [OF _ j] y(1) acc by (metis subsetD)
  qed
  then have self: "c ?k \<in> mine" using j x by (auto simp: mine_def joined_def ids_def)
  show ?case
  proof (intro ballI conjI)
    fix y assume y: "y \<in> set (x # later)"
    then show "c (GetScalarTableIndex y) \<in> snd (run_transfers accept st val rows (x # later)) (GetScalarTableIndex y)"
      using self IH(1) later_k by (auto simp: run' simp del: run_transfers.simps)
    fix p assume p: "p \<in> created st y"
    show "val (c (GetScalarTableIndex y)) (hd (fp_build p)) \<in> fst (run_transfers accept st val rows (x # later)) p"
    proof (cases "y = x")
      case True
      then show ?thesis using self p by (auto simp: run' simp del: run_transfers.simps)
    next
      case False
      then have y': "y \<in> set later" using y by simp
      then have "y \<in> set (transfer_order m)" using Cons.prems by simp
      then have "plan_sound m (GetScalarTableIndex y) p" using sound p by (simp add: transfers_sound_def)
      then have "p \<notin> created st x"
        using sound x later_k [OF y'] plan_sound_values(2) [OF _ j] unfolding transfers_sound_def by metis
      then show ?thesis using IH(2) [OF y' p] by (simp add: run' del: run_transfers.simps)
    qed
  qed
qed simp

text \<open>
  C2: Transferring predicates loses no join result: for the transfers of any built graph, and filters
  without false negatives, every combination of one row per table that satisfies all selected join
  edges is still there, row by row, after all the filters were applied.
\<close>
theorem transfers_lossless:
  assumes "ready m" "\<And>S. S \<subseteq> accept S" "joined m val rows c"
  shows "\<exists>st. fold_opt forward_node (rev (transfer_order m)) (start_optimizer m) = Some st
    \<and> (\<forall>k\<in>set (ids m). c k \<in> snd (run_transfers accept st val rows (transfer_order m)) k)"
proof -
  have "distinct (ids m)" using assms(1) by (simp add: ready_def graph_built_def)
  from forward_pass_sound [OF assms(1)] obtain st where
    "fold_opt forward_node (rev (transfer_order m)) (start_optimizer m) = Some st" "transfers_sound m st" by blast
  with run_transfers_keep [OF this(2) \<open>distinct (ids m)\<close> assms(3,2), of "[]" "transfer_order m"]
  show ?thesis by (auto simp: ids_def)
qed

text \<open>
  A graph of the two tables of the example plan: table 2 is the smaller one and sends to table 1.
  Rows are lists of column values; a filter accepts the values it was built from and every multiple of
  seven.
\<close>

definition example_1 :: logical_operator where
  "example_1 = Operator (plain_node 2 LOGICAL_GET [1] 100) []"

definition example_2 :: logical_operator where
  "example_2 = Operator ((plain_node 4 LOGICAL_GET [2] 10)\<lparr>table_filters := 1\<rparr>) []"

definition example_join :: edge_info where
  "example_join = \<lparr>ei_type = 0, left_table = example_1, left_binding = col 1 0, right_table = example_2,
     right_binding = col 2 5, protect_left = False, protect_right = False\<rparr>"

definition example_transfer :: "nat \<Rightarrow> graph_edge" where
  "example_transfer d = (GraphEdge d)\<lparr>ge_left := [col 2 5], ge_right := [col 1 0], ge_types := [0]\<rparr>"

definition example_graph :: transfer_graph_manager where
  "example_graph = empty_graph_manager
     \<lparr>table_operator_manager_of := empty_table_operator_manager
        \<lparr>table_operators := [(1, example_1), (2, example_2)]\<rparr>,
      transfer_order := [example_1, example_2], selected_edges := [Some example_join],
      transfer_graph := [1 \<mapsto> (GraphNode 1 1)\<lparr>forward_in := [example_transfer 2], backward_out := [example_transfer 2]\<rparr>,
        2 \<mapsto> (GraphNode 2 0)\<lparr>forward_out := [example_transfer 1], backward_in := [example_transfer 1]\<rparr>]\<rparr>"

lemma example_before: "before [1, 2 :: nat] 1 2"
  unfolding before_def by (rule exI [of _ "[1]"], rule exI [of _ "[2]"]) simp

lemma example_ids: "ids example_graph = [1, 2]" "selected_edges example_graph = [Some example_join]"
  by (simp_all add: ids_def example_graph_def example_1_def example_2_def plain_node_def)

lemma example_ends: "edge_ends example_join 1 2" "edge_ends example_join 2 1" "\<not> protects example_join k"
  by (auto simp: edge_ends_def example_join_def protects_def example_1_def example_2_def plain_node_def col_def)

lemma example_ready: "ready example_graph"
proof -
  let ?g = "transfer_graph example_graph"
  have g: "?g k = Some n \<longleftrightarrow> k = 1 \<and> n = (GraphNode 1 1)\<lparr>forward_in := [example_transfer 2], backward_out := [example_transfer 2]\<rparr>
      \<or> k = 2 \<and> n = (GraphNode 2 0)\<lparr>forward_out := [example_transfer 1], backward_in := [example_transfer 1]\<rparr>" for k n
    by (auto simp: example_graph_def)
  have edge: "forward_edge_ok example_graph 2 1 (example_transfer d)" for d
    unfolding forward_edge_ok_def example_ids
    using example_before example_ends
    by (auto simp: example_transfer_def GraphEdge_def col_def example_join_def intro!: exI [of _ example_join])
  have "transfers_ordered example_graph"
    using edge by (auto simp: transfers_ordered_def g GraphNode_def example_transfer_def GraphEdge_def)
  moreover have "receives_allowed example_graph"
    using example_ends
    by (auto simp: receives_allowed_def g example_ids GraphNode_def example_transfer_def GraphEdge_def)
  moreover have "all_sent example_graph"
    using example_ends example_before
    unfolding all_sent_def example_ids sent_def g
    by (intro allI impI exI [of _ "1::nat"] exI [of _ "2::nat"])
      (auto simp: node_dests_def dests_def GraphNode_def example_transfer_def GraphEdge_def)
  moreover have "dom ?g = {1, 2}" by (auto simp: example_graph_def)
  moreover have "tables_ok (remaining example_graph)"
    by (simp add: remaining_def example_graph_def tables_ok_def example_1_def example_2_def plain_node_def INVALID_TABLE_def)
  moreover have "\<forall>e. Some e \<in> set (selected_edges example_graph) \<longrightarrow> columns_fixed (renames_of example_graph) e"
    by (simp add: example_ids columns_fixed_def renames_of_def example_graph_def empty_table_operator_manager_def)
  ultimately show ?thesis
    by (auto simp: ready_def graph_built_def example_ids)
      (simp_all add: remaining_def example_graph_def ptr_def example_1_def example_2_def plain_node_def)
qed

definition example_value :: "nat list \<Rightarrow> column_binding \<Rightarrow> nat" where
  "example_value r b = r ! column_index b"

theorem transfers_lossless_witness:
  "\<exists>st. fold_opt forward_node (rev (transfer_order example_graph)) (start_optimizer example_graph) = Some st
    \<and> (\<forall>k\<in>set (ids example_graph). (if k = 1 then [8] else [0, 0, 0, 0, 0, 8])
         \<in> snd (run_transfers (\<lambda>S. S \<union> {v. 7 dvd v}) st example_value
                 (\<lambda>k. if k = 1 then {[8], [9]} else {[0, 0, 0, 0, 0, 8]}) (transfer_order example_graph)) k)"
  by (rule transfers_lossless [OF example_ready])
    (auto simp: joined_def example_ids example_join_def example_value_def col_def)

end
