(* ===== verification/BloomFilter.thy ===== *)
theory BloomFilter
  imports Prelude "HOL-Library.Log_Nat"
begin

text \<open>
  The register-blocked Bloom filter of predicate transfer
  (\<open>src/include/duckdb/optimizer/predicate_transfer/bloom_filter/bloom_filter.hpp\<close> and
  \<open>bloom_filter.cpp\<close>), the hash functions that produce its keys, and the interface
  \<open>approx_filter\<close> its users rely on.  The block array is a list whose length is the number of
  allocated sectors, so an access outside the allocation is the value \<open>None\<close>.
\<close>

unbundle bit_operations_syntax

section \<open>Hashing\<close>

text \<open>
  Columns are 64-bit integers (\<open>BIGINT\<close>, \<open>UBIGINT\<close>), \<open>None\<close> is SQL NULL; a row is the list of its
  column values.
\<close>

definition MurmurHash64 :: "u64 \<Rightarrow> u64" where
  "MurmurHash64 x0 =
     (let x1 = x0 XOR drop_bit 32 x0;
          x2 = x1 * 0xd6e8feb86659fd93;
          x3 = x2 XOR drop_bit 32 x2;
          x4 = x3 * 0xd6e8feb86659fd93
      in x4 XOR drop_bit 32 x4)"

definition NULL_HASH :: u64 where
  "NULL_HASH = 0xbf58476d1ce4e5b9"

definition HashOp :: "u64 option \<Rightarrow> u64" where
  "HashOp v = (case v of None \<Rightarrow> NULL_HASH | Some x \<Rightarrow> MurmurHash64 x)"

definition CombineHashScalar :: "u64 \<Rightarrow> u64 \<Rightarrow> u64" where
  "CombineHashScalar a b =
     (let a1 = a XOR drop_bit 32 a; a2 = a1 * 0xd6e8feb86659fd93 in a2 XOR b)"

type_synonym row = "u64 option list"

text \<open>\<open>HashColumns\<close>, for one row: the first column is hashed, every further column combined.\<close>

definition HashColumns :: "row \<Rightarrow> nat list \<Rightarrow> u64" where
  "HashColumns r cols =
     fold (\<lambda>c h. CombineHashScalar h (HashOp (r ! c))) (tl cols) (HashOp (r ! hd cols))"

section \<open>The filter\<close>

definition MAX_NUM_SECTORS :: u32 where "MAX_NUM_SECTORS = push_bit 26 1"
definition MIN_NUM_BITS_PER_KEY :: u32 where "MIN_NUM_BITS_PER_KEY = 16"
definition MIN_NUM_BITS :: u32 where "MIN_NUM_BITS = 512"
definition LOG_SECTOR_SIZE :: nat where "LOG_SECTOR_SIZE = 5"
definition SIMD_BATCH_SIZE :: nat where "SIMD_BATCH_SIZE = 16"

record bloom_filter =
  num_sectors :: u32
  num_sectors_log :: nat
  blocks :: "u32 list"
  finalized :: bool

definition CeilPowerOfTwo :: "u32 \<Rightarrow> u32" where
  "CeilPowerOfTwo n =
     (if n \<le> 1 then 1
      else let n0 = n - 1;
               n1 = n0 OR drop_bit 1 n0;
               n2 = n1 OR drop_bit 2 n1;
               n3 = n2 OR drop_bit 4 n2;
               n4 = n3 OR drop_bit 8 n3;
               n5 = n4 OR drop_bit 16 n4
           in n5 + 1)"

definition Initialize :: "u32 \<Rightarrow> bloom_filter" where
  "Initialize est_num_rows =
     (let min_bits = max MIN_NUM_BITS (est_num_rows * MIN_NUM_BITS_PER_KEY);
          sectors = min (drop_bit LOG_SECTOR_SIZE (CeilPowerOfTwo min_bits)) MAX_NUM_SECTORS
      in \<lparr>num_sectors = sectors, num_sectors_log = floorlog 2 (unat sectors) - 1,
          blocks = replicate (unat sectors) 0, finalized = False\<rparr>)"

definition GetMask1 :: "u32 \<Rightarrow> u32" where
  "GetMask1 key_lo =
     push_bit (unat (drop_bit 17 key_lo AND 31)) 1
     OR push_bit (unat (drop_bit 22 key_lo AND 31)) 1
     OR push_bit (unat (drop_bit 27 key_lo AND 31)) 1"

definition GetMask2 :: "u32 \<Rightarrow> u32" where
  "GetMask2 key_hi =
     push_bit (unat (drop_bit 12 key_hi AND 31)) 1
     OR push_bit (unat (drop_bit 17 key_hi AND 31)) 1
     OR push_bit (unat (drop_bit 22 key_hi AND 31)) 1
     OR push_bit (unat (drop_bit 27 key_hi AND 31)) 1"

definition GetSector1 :: "bloom_filter \<Rightarrow> u32 \<Rightarrow> u32 \<Rightarrow> u32" where
  "GetSector1 f key_lo key_hi =
     ((key_lo AND (push_bit 17 1 - 1))
      + (push_bit 14 key_hi AND push_bit 17 (push_bit 9 1 - 1)))
     AND (num_sectors f - 1)"

definition GetSector2 :: "u32 \<Rightarrow> u32 \<Rightarrow> u32" where
  "GetSector2 key_hi block1 = block1 XOR (8 + (key_hi AND 7))"

text \<open>Memory accesses: \<open>bf[s] |= m\<close> (the atomic \<open>fetch_or\<close>) and \<open>bf[s]\<close>.\<close>

definition fetch_or :: "u32 \<Rightarrow> u32 \<Rightarrow> u32 list \<Rightarrow> u32 list option" where
  "fetch_or s m bf = (if unat s < length bf then Some (bf[unat s := bf ! unat s OR m]) else None)"

definition load_block :: "u32 list \<Rightarrow> u32 \<Rightarrow> u32 option" where
  "load_block bf s = (if unat s < length bf then Some (bf ! unat s) else None)"

text \<open>One key: \<open>InsertOne\<close> and \<open>LookupOne\<close>.\<close>

definition InsertOne :: "bloom_filter \<Rightarrow> u32 \<Rightarrow> u32 \<Rightarrow> u32 list \<Rightarrow> u32 list option" where
  "InsertOne f key_lo key_hi bf =
     (let sector1 = GetSector1 f key_lo key_hi; mask1 = GetMask1 key_lo;
          sector2 = GetSector2 key_hi sector1; mask2 = GetMask2 key_hi
      in case fetch_or sector1 mask1 bf of
           None \<Rightarrow> None
         | Some bf1 \<Rightarrow> fetch_or sector2 mask2 bf1)"

definition test_blocks :: "u32 list \<Rightarrow> u32 \<Rightarrow> u32 \<Rightarrow> u32 \<Rightarrow> u32 \<Rightarrow> bool option" where
  "test_blocks bf s1 m1 s2 m2 =
     (case (load_block bf s1, load_block bf s2) of
        (Some b1, Some b2) \<Rightarrow> Some ((b1 AND m1) = m1 \<and> (b2 AND m2) = m2)
      | _ \<Rightarrow> None)"

definition LookupOne :: "bloom_filter \<Rightarrow> u32 \<Rightarrow> u32 \<Rightarrow> u32 list \<Rightarrow> bool option" where
  "LookupOne f key_lo key_hi bf =
     (let sector1 = GetSector1 f key_lo key_hi; mask1 = GetMask1 key_lo;
          sector2 = GetSector2 key_hi sector1; mask2 = GetMask2 key_hi
      in test_blocks bf sector1 mask1 sector2 mask2)"

text \<open>The 64-bit hashes read as pairs of 32-bit words (little endian).\<close>

definition lo32 :: "u64 \<Rightarrow> u32" where "lo32 k = ucast k"
definition hi32 :: "u64 \<Rightarrow> u32" where "hi32 k = ucast (drop_bit 32 k)"

section \<open>The vectorised loops\<close>

text \<open>
  \<open>BloomFilterInsert\<close>: batches of 16 keys, whose sectors and masks are computed before any block
  is written, then the tail from \<open>num & ~15\<close>.
\<close>

definition insert_batch :: "bloom_filter \<Rightarrow> u64 list \<Rightarrow> nat \<Rightarrow> u32 list \<Rightarrow> u32 list option" where
  "insert_batch f key i bf =
     (let js = [0..<SIMD_BATCH_SIZE];
          block1 = map (\<lambda>j. GetSector1 f (lo32 (key ! (i + j))) (hi32 (key ! (i + j)))) js;
          mask1 = map (\<lambda>j. GetMask1 (lo32 (key ! (i + j)))) js;
          block2 = map (\<lambda>j. GetSector2 (hi32 (key ! (i + j))) (block1 ! j)) js;
          mask2 = map (\<lambda>j. GetMask2 (hi32 (key ! (i + j)))) js
      in fold_opt (\<lambda>j bf. case fetch_or (block1 ! j) (mask1 ! j) bf of
                            None \<Rightarrow> None
                          | Some bf1 \<Rightarrow> fetch_or (block2 ! j) (mask2 ! j) bf1) js bf)"

function insert_batches :: "bloom_filter \<Rightarrow> nat \<Rightarrow> u64 list \<Rightarrow> nat \<Rightarrow> u32 list \<Rightarrow> u32 list option" where
  "insert_batches f num key i bf =
     (if i + SIMD_BATCH_SIZE \<le> num
      then case insert_batch f key i bf of
             None \<Rightarrow> None
           | Some bf' \<Rightarrow> insert_batches f num key (i + SIMD_BATCH_SIZE) bf'
      else Some bf)"
  by pat_completeness auto
termination
  by (relation "measure (\<lambda>(f, num, key, i, bf). num + 16 - i)") (auto simp: SIMD_BATCH_SIZE_def)

declare insert_batches.simps [simp del]

definition tail_start :: "nat \<Rightarrow> nat" where
  "tail_start num = nat (int num AND NOT (int SIMD_BATCH_SIZE - 1))"

definition BloomFilterInsert :: "bloom_filter \<Rightarrow> u64 list \<Rightarrow> u32 list \<Rightarrow> u32 list option" where
  "BloomFilterInsert f key bf =
     (let num = length key
      in case insert_batches f num key 0 bf of
           None \<Rightarrow> None
         | Some bf1 \<Rightarrow>
             fold_opt (\<lambda>i. InsertOne f (lo32 (key ! i)) (hi32 (key ! i))) [tail_start num..<num] bf1)"

text \<open>\<open>BloomFilterLookup\<close> writes 0 or 1 per key to the array \<open>out\<close>.\<close>

type_synonym out_array = "nat \<Rightarrow> u32"

definition lookup_batch ::
  "bloom_filter \<Rightarrow> u64 list \<Rightarrow> u32 list \<Rightarrow> nat \<Rightarrow> out_array \<Rightarrow> out_array option" where
  "lookup_batch f key bf i out =
     (let js = [0..<SIMD_BATCH_SIZE];
          block1 = map (\<lambda>j. GetSector1 f (lo32 (key ! (i + j))) (hi32 (key ! (i + j)))) js;
          mask1 = map (\<lambda>j. GetMask1 (lo32 (key ! (i + j)))) js;
          block2 = map (\<lambda>j. GetSector2 (hi32 (key ! (i + j))) (block1 ! j)) js;
          mask2 = map (\<lambda>j. GetMask2 (hi32 (key ! (i + j)))) js
      in fold_opt (\<lambda>j out. map_option (\<lambda>b. out(i + j := of_bool b))
                     (test_blocks bf (block1 ! j) (mask1 ! j) (block2 ! j) (mask2 ! j))) js out)"

function lookup_batches ::
  "bloom_filter \<Rightarrow> nat \<Rightarrow> u64 list \<Rightarrow> u32 list \<Rightarrow> nat \<Rightarrow> out_array \<Rightarrow> out_array option" where
  "lookup_batches f num key bf i out =
     (if i + SIMD_BATCH_SIZE \<le> num
      then case lookup_batch f key bf i out of
             None \<Rightarrow> None
           | Some out' \<Rightarrow> lookup_batches f num key bf (i + SIMD_BATCH_SIZE) out'
      else Some out)"
  by pat_completeness auto
termination
  by (relation "measure (\<lambda>(f, num, key, bf, i, out). num + 16 - i)") (auto simp: SIMD_BATCH_SIZE_def)

declare lookup_batches.simps [simp del]

definition BloomFilterLookup ::
  "bloom_filter \<Rightarrow> u64 list \<Rightarrow> u32 list \<Rightarrow> out_array \<Rightarrow> out_array option" where
  "BloomFilterLookup f key bf out =
     (let num = length key
      in case lookup_batches f num key bf 0 out of
           None \<Rightarrow> None
         | Some out1 \<Rightarrow>
             fold_opt (\<lambda>i out. map_option (\<lambda>b. out(i := of_bool b))
                 (LookupOne f (lo32 (key ! i)) (hi32 (key ! i)) bf)) [tail_start num..<num] out1)"

text \<open>The public operations on a chunk of rows.\<close>

definition Insert :: "bloom_filter \<Rightarrow> row list \<Rightarrow> nat list \<Rightarrow> bloom_filter option" where
  "Insert f chunk bound_cols_built =
     map_option (\<lambda>bl. f\<lparr>blocks := bl\<rparr>)
       (BloomFilterInsert f (map (\<lambda>r. HashColumns r bound_cols_built) chunk) (blocks f))"

definition Lookup ::
  "bloom_filter \<Rightarrow> row list \<Rightarrow> out_array \<Rightarrow> nat list \<Rightarrow> (nat \<times> out_array) option" where
  "Lookup f chunk results bound_cols_applied =
     map_option (Pair (length chunk))
       (BloomFilterLookup f (map (\<lambda>r. HashColumns r bound_cols_applied) chunk) (blocks f) results)"

section \<open>Power-of-two sizing\<close>

lemma smear_step:
  fixes m n :: "'a::len word"
  assumes "\<And>i. bit m i \<longleftrightarrow> (\<exists>d<k. bit n (i + d))"
  shows "bit (m OR drop_bit k m) i \<longleftrightarrow> (\<exists>d<2 * k. bit n (i + d))"
proof -
  have "bit (m OR drop_bit k m) i \<longleftrightarrow> (\<exists>d<k. bit n (i + d)) \<or> (\<exists>d<k. bit n (i + (k + d)))"
    by (simp add: bit_or_iff bit_drop_bit_eq assms add.assoc add.left_commute)
  also have "\<dots> \<longleftrightarrow> (\<exists>d<2 * k. bit n (i + d))"
  proof -
    have "d < 2 * k \<longleftrightarrow> d < k \<or> (\<exists>d'<k. d = k + d')" for d
      by (cases "d < k") (auto simp: nat_le_iff_add mult_2 not_less)
    then show ?thesis by blast
  qed
  finally show ?thesis .
qed

lemma smear_all:
  fixes n0 :: u32
  defines "n1 \<equiv> n0 OR drop_bit 1 n0"
  defines "n2 \<equiv> n1 OR drop_bit 2 n1"
  defines "n3 \<equiv> n2 OR drop_bit 4 n2"
  defines "n4 \<equiv> n3 OR drop_bit 8 n3"
  shows "bit (n4 OR drop_bit 16 n4) i \<longleftrightarrow> (\<exists>d<32. bit n0 (i + d))"
proof -
  have 1: "\<And>i. bit n1 i \<longleftrightarrow> (\<exists>d<2. bit n0 (i + d))"
    using smear_step [of n0 1 n0] by (simp add: n1_def)
  have 2: "\<And>i. bit n2 i \<longleftrightarrow> (\<exists>d<4. bit n0 (i + d))"
    using smear_step [of n1 2 n0, OF 1] by (simp add: n2_def)
  have 3: "\<And>i. bit n3 i \<longleftrightarrow> (\<exists>d<8. bit n0 (i + d))"
    using smear_step [of n2 4 n0, OF 2] by (simp add: n3_def)
  have 4: "\<And>i. bit n4 i \<longleftrightarrow> (\<exists>d<16. bit n0 (i + d))"
    using smear_step [of n3 8 n0, OF 3] by (simp add: n4_def)
  show ?thesis using smear_step [of n4 16 n0, OF 4] by simp
qed

lemma CeilPowerOfTwo_minus_one:
  assumes "\<not> n \<le> 1"
  shows "bit (CeilPowerOfTwo n - 1) i \<longleftrightarrow> (\<exists>d<32. bit (n - 1) (i + d))"
  by (simp only: CeilPowerOfTwo_def Let_def assms if_False add_diff_cancel_right' smear_all)

text \<open>Above \<open>2^31\<close> the next power of two does not fit in 32 bits: the increment wraps to 0.\<close>

lemma CeilPowerOfTwo_wraps:
  assumes "2 ^ 31 < unat n"
  shows "CeilPowerOfTwo n = 0"
proof -
  have not1: "\<not> n \<le> 1" using assms by (simp add: word_le_nat_alt)
  have un: "unat (n - 1) = unat n - 1" using assms by (simp add: unat_sub_if_size word_size)
  have "unat n < 2 ^ 32" using unsigned_less [of n] by simp
  then have "unat (n - 1) div 2 ^ 31 = 1" using assms un by (intro div_nat_eqI) auto
  then have "bit (unat (n - 1)) 31" by (simp add: bit_iff_odd)
  then have top: "bit (n - 1) 31" by (simp add: bit_unsigned_iff)
  have "CeilPowerOfTwo n - 1 = mask 32"
  proof (rule bit_eqI)
    fix i assume "possible_bit TYPE(u32) i"
    then have i: "i < 32" by (simp add: possible_bit_word)
    then have "bit (n - 1) (i + (31 - i))" "31 - i < 32" using top by auto
    then have "bit (CeilPowerOfTwo n - 1) i"
      unfolding CeilPowerOfTwo_minus_one [OF not1] by blast
    then show "bit (CeilPowerOfTwo n - 1) i = bit (mask 32 :: u32) i"
      using i by (simp add: bit_mask_iff)
  qed
  then have "CeilPowerOfTwo n = mask 32 + 1" by (simp add: algebra_simps)
  also have "\<dots> = 2 ^ 32" by (simp only: mask_eq_exp_minus_1) simp
  finally show ?thesis by simp
qed

lemma CeilPowerOfTwo_pow2:
  assumes n: "1 < unat n" "unat n \<le> 2 ^ 31"
  shows "\<exists>h. h \<le> 31 \<and> unat (CeilPowerOfTwo n) = 2 ^ h \<and> unat n \<le> 2 ^ h \<and> 2 ^ h < 2 * unat n"
proof -
  define n0 where "n0 = n - 1"
  have n0: "unat n0 = unat n - 1"
    using n by (simp add: n0_def unat_sub_if_size word_size) 
  have "1 \<le> unat n0" using n n0 by simp
  then have "\<exists>h. 2 ^ h \<le> unat n0 \<and> unat n0 < 2 ^ (h + 1)"
    using ex_power_ivl1 [of 2 "unat n0"] by simp
  then obtain h where h: "2 ^ h \<le> unat n0" "unat n0 < 2 ^ Suc h" by auto
  have h30: "h \<le> 30"
  proof (rule ccontr)
    assume "\<not> h \<le> 30"
    then have "(2::nat) ^ 31 \<le> 2 ^ h" by (intro power_increasing) auto
    then show False using h n n0 by simp
  qed
  have bit_n0: "bit n0 j \<longleftrightarrow> odd (unat n0 div 2 ^ j)" for j
    by (metis bit_iff_odd bit_unsigned_iff bit_imp_possible_bit possible_bit_nat)
  have top: "bit n0 h"
  proof -
    have "unat n0 div 2 ^ h = 1" using h by (intro div_nat_eqI) auto
    then show ?thesis by (simp add: bit_n0)
  qed
  have above: "\<not> bit n0 j" if "h < j" for j
  proof -
    have "(2::nat) ^ Suc h \<le> 2 ^ j" using that by (intro power_increasing) auto
    then have "unat n0 div 2 ^ j = 0" using h by simp
    then show ?thesis by (simp add: bit_n0)
  qed
  have ceil: "CeilPowerOfTwo n = mask (Suc h) + 1"
  proof -
    have not1: "\<not> n \<le> 1" using n by (simp add: word_le_nat_alt)
    have "CeilPowerOfTwo n - 1 = mask (Suc h)"
    proof (rule bit_eqI)
      fix i
      have "bit (CeilPowerOfTwo n - 1) i \<longleftrightarrow> (\<exists>d<32. bit n0 (i + d))"
        unfolding n0_def by (rule CeilPowerOfTwo_minus_one [OF not1])
      also have "\<dots> \<longleftrightarrow> i \<le> h"
      proof
        assume "\<exists>d<32. bit n0 (i + d)"
        then obtain d where "bit n0 (i + d)" by blast
        with above have "i + d \<le> h" by (meson not_less)
        then show "i \<le> h" by simp
      next
        assume "i \<le> h"
        then have "bit n0 (i + (h - i))" "h - i < 32" using top h30 by auto
        then show "\<exists>d<32. bit n0 (i + d)" by blast
      qed
      also have "\<dots> \<longleftrightarrow> bit (mask (Suc h) :: u32) i"
        using h30 by (auto simp: bit_mask_iff)
      finally show "bit (CeilPowerOfTwo n - 1) i = bit (mask (Suc h) :: u32) i" .
    qed
    then show ?thesis by (simp add: algebra_simps)
  qed
  then have "CeilPowerOfTwo n = 2 ^ Suc h" by (simp add: mask_eq_exp_minus_1)
  also have "\<dots> = of_nat (2 ^ Suc h)" by (simp only: of_nat_power of_nat_numeral)
  finally have "unat (CeilPowerOfTwo n) = 2 ^ Suc h mod 2 ^ 32"
    by (simp only: unat_of_nat len_of_numeral_defs) simp
  moreover have "(2::nat) ^ Suc h < 2 ^ 32"
    using h30 by (intro power_strict_increasing) auto
  ultimately have "unat (CeilPowerOfTwo n) = 2 ^ Suc h" by (simp only: mod_less)
  then show ?thesis using h h30 n n0
    by (intro exI [of _ "Suc h"]) auto
qed

section \<open>The geometry of an initialised filter\<close>

definition bf_geometry :: "bloom_filter \<Rightarrow> bool" where
  "bf_geometry f \<longleftrightarrow> (\<exists>k\<in>{4..26}. unat (num_sectors f) = 2 ^ k)"

definition bf_wf :: "bloom_filter \<Rightarrow> bool" where
  "bf_wf f \<longleftrightarrow> bf_geometry f \<and> length (blocks f) = unat (num_sectors f)"

lemma unat_MAX_NUM_SECTORS: "unat MAX_NUM_SECTORS = 2 ^ 26"
  by (simp add: MAX_NUM_SECTORS_def)

lemma Initialize_wf:
  assumes "est_num_rows * MIN_NUM_BITS_PER_KEY \<le> 2 ^ 31"
  shows "bf_wf (Initialize est_num_rows)"
proof -
  define mb where "mb = max MIN_NUM_BITS (est_num_rows * MIN_NUM_BITS_PER_KEY)"
  have lower: "512 \<le> unat mb"
    by (simp add: mb_def MIN_NUM_BITS_def max_def word_le_nat_alt)
  have upper: "unat mb \<le> 2 ^ 31"
    using assms by (simp add: mb_def MIN_NUM_BITS_def max_def word_le_nat_alt)
  obtain h where h: "h \<le> 31" "unat (CeilPowerOfTwo mb) = 2 ^ h" "unat mb \<le> 2 ^ h"
    using CeilPowerOfTwo_pow2 [of mb] lower upper by auto
  have "(2::nat) ^ 9 \<le> 2 ^ h" using lower h(3) by simp
  then have h9: "9 \<le> h" by (rule power_le_imp_le_exp [rotated]) simp
  have "unat (drop_bit LOG_SECTOR_SIZE (CeilPowerOfTwo mb)) = drop_bit 5 (2 ^ h)"
    by (simp only: LOG_SECTOR_SIZE_def unsigned_drop_bit_eq h(2) take_bit_length_eq)
       (use h in \<open>simp add: take_bit_nat_eq_self\<close>)
  also have "\<dots> = 2 ^ (h - 5)" using h9 by (simp add: drop_bit_eq_div power_diff)
  finally have shift: "unat (drop_bit LOG_SECTOR_SIZE (CeilPowerOfTwo mb)) = 2 ^ (h - 5)" .
  have "(2::nat) ^ (h - 5) \<le> 2 ^ 26" using h by (intro power_increasing) auto
  then have "drop_bit LOG_SECTOR_SIZE (CeilPowerOfTwo mb) \<le> MAX_NUM_SECTORS"
    by (simp add: word_le_nat_alt shift unat_MAX_NUM_SECTORS)
  then have "unat (num_sectors (Initialize est_num_rows)) = 2 ^ (h - 5)"
    by (simp add: Initialize_def Let_def mb_def [symmetric] min_def shift)
  moreover have "h - 5 \<in> {4..26}" using h h9 by auto
  ultimately have "bf_geometry (Initialize est_num_rows)"
    unfolding bf_geometry_def by blast
  then show ?thesis by (simp add: bf_wf_def Initialize_def Let_def)
qed

lemma sector1_bound [bound_simps]:
  assumes "bf_geometry f"
  shows "unat (GetSector1 f lo hi) < unat (num_sectors f)"
proof -
  have "num_sectors f \<noteq> 0" using assms by (auto simp: bf_geometry_def)
  then show ?thesis by (simp add: GetSector1_def unat_and_minus_one_bound)
qed

lemma sector2_bound [bound_simps]:
  assumes g: "bf_geometry f" and b: "unat b < unat (num_sectors f)"
  shows "unat (GetSector2 hi b) < unat (num_sectors f)"
proof -
  obtain k where k: "4 \<le> k" "unat (num_sectors f) = 2 ^ k" using g by (auto simp: bf_geometry_def)
  have "unat (hi AND 7) \<le> 7"
    using word_and_le1 [of hi 7] by (simp add: word_le_nat_alt)
  then have "unat (8 + (hi AND 7)) < 2 ^ 4"
    by (simp add: unat_word_ariths)
  moreover have "(2::nat) ^ 4 \<le> 2 ^ k" using k by (intro power_increasing) auto
  ultimately have "unat (8 + (hi AND 7)) < 2 ^ k" by linarith
  then show ?thesis using b k by (simp add: GetSector2_def unat_xor_bound)
qed

section \<open>One key at a time\<close>

lemma fetch_or_length: "fetch_or s m bf = Some bf' \<Longrightarrow> length bf' = length bf"
  by (auto simp: fetch_or_def split: if_splits)

lemma InsertOne_length: "InsertOne f lo hi bf = Some bf' \<Longrightarrow> length bf' = length bf"
  by (auto simp: InsertOne_def Let_def dest!: fetch_or_length split: option.splits)

lemma InsertOne_defined:
  assumes "bf_geometry f" "length bf = unat (num_sectors f)"
  shows "\<exists>bf'. InsertOne f lo hi bf = Some bf'"
  using sector1_bound [OF assms(1)] sector2_bound [OF assms(1) sector1_bound [OF assms(1)]] assms(2)
  by (simp add: InsertOne_def Let_def fetch_or_def)

lemma LookupOne_defined:
  assumes "bf_geometry f" "length bf = unat (num_sectors f)"
  shows "\<exists>b. LookupOne f lo hi bf = Some b"
  using sector1_bound [OF assms(1)] sector2_bound [OF assms(1) sector1_bound [OF assms(1)]] assms(2)
  by (simp add: LookupOne_def Let_def test_blocks_def load_block_def)

text \<open>Every write only sets bits: a test that succeeded before still succeeds.\<close>

lemma and_eq_mask_iff: "(b AND m) = (m :: 'a::len word) \<longleftrightarrow> (\<forall>i. bit m i \<longrightarrow> bit b i)"
  by (metis bit_and_iff bit_eqI)

lemma or_keeps_mask: "(b AND m) = m \<Longrightarrow> ((b OR x) AND m) = (m :: u32)"
  by (simp add: and_eq_mask_iff bit_or_iff)

lemma or_sets_mask: "((b OR m) AND m) = (m :: u32)"
  by (simp add: and_eq_mask_iff bit_or_iff)

lemma fetch_or_keeps:
  assumes "fetch_or s m bf = Some bf'" "load_block bf t = Some b" "(b AND k) = k"
  shows "\<exists>b'. load_block bf' t = Some b' \<and> (b' AND k) = k"
  using assms by (auto simp: fetch_or_def load_block_def nth_list_update or_keeps_mask split: if_splits)

lemma fetch_or_sets:
  assumes "fetch_or s m bf = Some bf'"
  shows "\<exists>b. load_block bf' s = Some b \<and> (b AND m) = m"
  using assms by (auto simp: fetch_or_def load_block_def or_sets_mask split: if_splits)

lemma test_blocks_keeps:
  assumes "fetch_or s m bf = Some bf'" "test_blocks bf s1 m1 s2 m2 = Some True"
  shows "test_blocks bf' s1 m1 s2 m2 = Some True"
proof -
  from assms(2) obtain b1 b2 where b: "load_block bf s1 = Some b1" "(b1 AND m1) = m1"
    "load_block bf s2 = Some b2" "(b2 AND m2) = m2"
    by (auto simp: test_blocks_def split: option.splits)
  from fetch_or_keeps [OF assms(1) b(1,2)] fetch_or_keeps [OF assms(1) b(3,4)]
  show ?thesis by (auto simp: test_blocks_def)
qed

lemma InsertOne_keeps:
  assumes "InsertOne f lo hi bf = Some bf'" "LookupOne f lo' hi' bf = Some True"
  shows "LookupOne f lo' hi' bf' = Some True"
  using assms by (auto simp: InsertOne_def LookupOne_def Let_def split: option.splits
      dest!: test_blocks_keeps)

lemma InsertOne_LookupOne:
  assumes "InsertOne f lo hi bf = Some bf'"
  shows "LookupOne f lo hi bf' = Some True"
proof -
  from assms obtain bf1
    where 1: "fetch_or (GetSector1 f lo hi) (GetMask1 lo) bf = Some bf1"
      and 2: "fetch_or (GetSector2 hi (GetSector1 f lo hi)) (GetMask2 hi) bf1 = Some bf'"
    by (auto simp: InsertOne_def Let_def split: option.splits)
  from fetch_or_sets [OF 1] fetch_or_keeps [OF 2]
  have "\<exists>b. load_block bf' (GetSector1 f lo hi) = Some b \<and> (b AND GetMask1 lo) = GetMask1 lo"
    by blast
  with fetch_or_sets [OF 2] show ?thesis
    by (auto simp: LookupOne_def Let_def test_blocks_def)
qed

section \<open>The vectorised loops do one key at a time\<close>

lemma and_not_mask_int: "a AND NOT (mask n) = push_bit n (drop_bit n (a :: int))"
  by (rule bit_eqI) (auto simp: bit_and_iff bit_not_iff bit_mask_iff bit_push_bit_iff bit_drop_bit_eq)

lemma tail_start_eq: "tail_start num = SIMD_BATCH_SIZE * (num div SIMD_BATCH_SIZE)"
proof -
  have "int num AND NOT 15 = push_bit 4 (drop_bit 4 (int num))"
    using and_not_mask_int [of "int num" 4] by (simp add: mask_eq_exp_minus_1)
  also have "\<dots> = int (16 * (num div 16))"
    by (simp add: push_bit_eq_mult drop_bit_eq_div zdiv_int)
  finally show ?thesis by (simp add: tail_start_def SIMD_BATCH_SIZE_def)
qed

lemma fold_opt_shift: "fold_opt (\<lambda>j. g (i + j)) [0..<n] s = fold_opt g [i..<i + n] s"
proof -
  have "[i..<i + n] = map (\<lambda>j. i + j) [0..<n]"
    by (rule nth_equalityI) auto
  then show ?thesis by (simp add: fold_opt_map comp_def)
qed

lemma insert_batch_eq:
  "insert_batch f key i bf =
   fold_opt (\<lambda>p. InsertOne f (lo32 (key ! p)) (hi32 (key ! p))) [i..<i + SIMD_BATCH_SIZE] bf"
  unfolding insert_batch_def Let_def fold_opt_shift [symmetric]
  by (rule fold_opt_cong) (simp add: InsertOne_def Let_def cong: option.case_cong)

lemma lookup_batch_eq:
  "lookup_batch f key bf i out =
   fold_opt (\<lambda>p out. map_option (\<lambda>b. out(p := of_bool b))
       (LookupOne f (lo32 (key ! p)) (hi32 (key ! p)) bf)) [i..<i + SIMD_BATCH_SIZE] out"
  unfolding lookup_batch_def Let_def
    fold_opt_shift [where g = "\<lambda>p out. map_option (\<lambda>b. out(p := of_bool b))
       (LookupOne f (lo32 (key ! p)) (hi32 (key ! p)) bf)", symmetric]
  by (rule fold_opt_cong) (simp add: LookupOne_def Let_def)

lemma insert_batches_eq:
  "insert_batches f num key i bf =
   fold_opt (\<lambda>p. InsertOne f (lo32 (key ! p)) (hi32 (key ! p)))
     [i..<i + SIMD_BATCH_SIZE * ((num - i) div SIMD_BATCH_SIZE)] bf"
  by (rule batched_loop)
    (simp_all add: insert_batches.simps [of f num key] insert_batch_eq SIMD_BATCH_SIZE_def
      cong: option.case_cong)

lemma lookup_batches_eq:
  "lookup_batches f num key bf i out =
   fold_opt (\<lambda>p out. map_option (\<lambda>b. out(p := of_bool b))
       (LookupOne f (lo32 (key ! p)) (hi32 (key ! p)) bf))
     [i..<i + SIMD_BATCH_SIZE * ((num - i) div SIMD_BATCH_SIZE)] out"
  by (rule batched_loop)
    (simp_all add: lookup_batches.simps [of f num key bf] lookup_batch_eq SIMD_BATCH_SIZE_def
      cong: option.case_cong)

lemma rounds_then_tail:
  "fold_opt g [0..<num] s =
   (case fold_opt g [0..<SIMD_BATCH_SIZE * (num div SIMD_BATCH_SIZE)] s of
      None \<Rightarrow> None | Some s' \<Rightarrow> fold_opt g [tail_start num..<num] s')"
proof -
  let ?m = "SIMD_BATCH_SIZE * (num div SIMD_BATCH_SIZE)"
  have "?m \<le> num" by simp
  then have "[0..<num] = [0..<?m] @ [?m..<num]"
    by (metis le0 le_Suc_ex upt_add_eq_append)
  then show ?thesis
    by (simp add: fold_opt_append tail_start_eq split: option.split)
qed

lemma BloomFilterInsert_eq:
  "BloomFilterInsert f key bf = fold_opt (\<lambda>k. InsertOne f (lo32 k) (hi32 k)) key bf"
proof -
  let ?g = "\<lambda>p. InsertOne f (lo32 (key ! p)) (hi32 (key ! p))"
  have "BloomFilterInsert f key bf = fold_opt ?g [0..<length key] bf"
    unfolding BloomFilterInsert_def Let_def insert_batches_eq rounds_then_tail [of ?g "length key"]
    by simp
  also have "\<dots> = fold_opt (\<lambda>k. InsertOne f (lo32 k) (hi32 k)) (map ((!) key) [0..<length key]) bf"
    by (simp only: fold_opt_map comp_def)
  finally show ?thesis by (simp add: map_nth)
qed

lemma BloomFilterLookup_loop:
  "BloomFilterLookup f key bf out =
   fold_opt (\<lambda>p out. map_option (\<lambda>b. out(p := of_bool b))
       (LookupOne f (lo32 (key ! p)) (hi32 (key ! p)) bf)) [0..<length key] out"
proof -
  let ?g = "\<lambda>p out. map_option (\<lambda>b. out(p := of_bool b))
       (LookupOne f (lo32 (key ! p)) (hi32 (key ! p)) bf)"
  show ?thesis
    unfolding BloomFilterLookup_def Let_def lookup_batches_eq rounds_then_tail [of ?g "length key"]
    by simp
qed

lemma fold_opt_store:
  assumes "\<And>p. p < n \<Longrightarrow> q p = Some (v p)"
  shows "fold_opt (\<lambda>p out. map_option (\<lambda>b. out(p := of_bool b)) (q p)) [0..<n] out
         = Some (\<lambda>p. if p < n then of_bool (v p) else (out p :: u32))"
  using assms
proof (induction n)
  case (Suc n)
  then show ?case by (auto simp: fold_opt_append fun_eq_iff less_Suc_eq)
qed (simp add: fun_eq_iff)

text \<open>On a well-formed filter the lookup always succeeds and stores exactly the per-key answers.\<close>

lemma BloomFilterLookup_eq:
  assumes "bf_geometry f" "length bf = unat (num_sectors f)"
  shows "BloomFilterLookup f key bf out =
    Some (\<lambda>p. if p < length key
              then of_bool (LookupOne f (lo32 (key ! p)) (hi32 (key ! p)) bf = Some True) else out p)"
proof -
  have "LookupOne f lo hi bf = Some (LookupOne f lo hi bf = Some True)" for lo hi
    using LookupOne_defined [OF assms, of lo hi] by auto
  then show ?thesis unfolding BloomFilterLookup_loop by (intro fold_opt_store) simp
qed

section \<open>The interface: an approximate set\<close>

text \<open>
  What the users of a filter rely on.  \<open>insert\<close> and \<open>lookup\<close> succeed on a well-formed filter; a key
  that was inserted is found, and stays found.  Nothing is promised for keys never inserted.
\<close>

locale approx_filter =
  fixes ins :: "'k \<Rightarrow> 'f \<Rightarrow> 'f option"
    and look :: "'k \<Rightarrow> 'f \<Rightarrow> bool option"
    and wf :: "'f \<Rightarrow> bool"
  assumes ins_defined: "wf f \<Longrightarrow> \<exists>f'. ins k f = Some f' \<and> wf f'"
    and look_defined: "wf f \<Longrightarrow> \<exists>b. look k f = Some b"
    and ins_look: "wf f \<Longrightarrow> ins k f = Some f' \<Longrightarrow> look k f' = Some True"
    and ins_mono: "wf f \<Longrightarrow> ins k f = Some f' \<Longrightarrow> look k' f = Some True \<Longrightarrow> look k' f' = Some True"
begin

lemma ins_wf: "wf f \<Longrightarrow> ins k f = Some f' \<Longrightarrow> wf f'"
  by (metis ins_defined option.inject)

lemma build_defined: "wf f \<Longrightarrow> \<exists>f'. fold_opt ins ks f = Some f' \<and> wf f'"
  by (rule fold_opt_inv) (auto dest: ins_defined)

lemma build_wf: "wf f \<Longrightarrow> fold_opt ins ks f = Some f' \<Longrightarrow> wf f'"
  by (metis build_defined option.inject)

lemma build_mono:
  "wf f \<Longrightarrow> fold_opt ins ks f = Some f' \<Longrightarrow> look k f = Some True \<Longrightarrow> look k f' = Some True"
  by (induction ks arbitrary: f) (auto split: option.splits dest: ins_mono ins_wf)

lemma build_look:
  "wf f \<Longrightarrow> fold_opt ins ks f = Some f' \<Longrightarrow> k \<in> set ks \<Longrightarrow> look k f' = Some True"
proof (induction ks arbitrary: f)
  case (Cons k' ks)
  then obtain f1 where f1: "ins k' f = Some f1" "fold_opt ins ks f1 = Some f'"
    by (auto split: option.splits)
  have wf1: "wf f1" using Cons.prems(1) f1(1) by (rule ins_wf)
  show ?case
  proof (cases "k \<in> set ks")
    case True
    then show ?thesis using Cons.IH wf1 f1(2) by blast
  next
    case False
    then have "look k f1 = Some True" using Cons.prems f1(1) ins_look by auto
    then show ?thesis using wf1 f1(2) build_mono by blast
  qed
qed simp

lemma probe_keeps:
  assumes "wf f" "fold_opt ins ks f = Some f'" "\<And>x. Q x \<Longrightarrow> key x \<in> set ks"
  shows "filter Q (filter (\<lambda>x. look (key x) f' = Some True) xs) = filter Q xs"
proof -
  have "look (key x) f' = Some True" if "Q x" for x
    using build_look [OF assms(1,2)] assms(3) that by blast
  then show ?thesis by (auto simp: filter_filter intro!: filter_cong)
qed

end

definition insert_key :: "u64 \<Rightarrow> bloom_filter \<Rightarrow> bloom_filter option" where
  "insert_key k f = map_option (\<lambda>bl. f\<lparr>blocks := bl\<rparr>) (InsertOne f (lo32 k) (hi32 k) (blocks f))"

definition lookup_key :: "u64 \<Rightarrow> bloom_filter \<Rightarrow> bool option" where
  "lookup_key k f = LookupOne f (lo32 k) (hi32 k) (blocks f)"

lemma geometry_only [simp]:
  "InsertOne (f\<lparr>blocks := x\<rparr>) = InsertOne f" "LookupOne (f\<lparr>blocks := x\<rparr>) = LookupOne f"
  "bf_geometry (f\<lparr>blocks := x\<rparr>) = bf_geometry f"
  "InsertOne (f\<lparr>finalized := b\<rparr>) = InsertOne f" "LookupOne (f\<lparr>finalized := b\<rparr>) = LookupOne f"
  "bf_geometry (f\<lparr>finalized := b\<rparr>) = bf_geometry f"
  by (simp_all add: fun_eq_iff InsertOne_def LookupOne_def GetSector1_def bf_geometry_def)

interpretation bf: approx_filter insert_key lookup_key bf_wf
proof unfold_locales
  fix f k assume wf: "bf_wf f"
  then obtain bl where bl: "InsertOne f (lo32 k) (hi32 k) (blocks f) = Some bl"
    using InsertOne_defined [of f "blocks f"] by (fastforce simp: bf_wf_def)
  from InsertOne_length [OF bl] wf bl
  show "\<exists>f'. insert_key k f = Some f' \<and> bf_wf f'"
    by (simp add: insert_key_def bf_wf_def)
next
  fix f k assume "bf_wf f"
  then show "\<exists>b. lookup_key k f = Some b"
    by (auto simp: lookup_key_def bf_wf_def intro: LookupOne_defined)
next
  fix f k f' assume "bf_wf f" "insert_key k f = Some f'"
  then show "lookup_key k f' = Some True"
    by (auto simp: insert_key_def lookup_key_def InsertOne_LookupOne)
next
  fix f k f' k' assume "bf_wf f" "insert_key k f = Some f'" "lookup_key k' f = Some True"
  then show "lookup_key k' f' = Some True"
    by (auto simp: insert_key_def lookup_key_def intro: InsertOne_keeps)
qed

lemma insert_keys_blocks:
  "fold_opt insert_key ks f =
   map_option (\<lambda>bl. f\<lparr>blocks := bl\<rparr>) (fold_opt (\<lambda>k. InsertOne f (lo32 k) (hi32 k)) ks (blocks f))"
proof (induction ks arbitrary: f)
  case (Cons k ks)
  then show ?case
    by (auto simp: insert_key_def option.map_comp comp_def split: option.splits)
qed simp

lemma Insert_eq: "Insert f chunk cols = fold_opt insert_key (map (\<lambda>r. HashColumns r cols) chunk) f"
  by (simp add: Insert_def BloomFilterInsert_eq insert_keys_blocks)

lemma Lookup_eq:
  assumes "bf_wf f"
  shows "Lookup f chunk results cols =
    Some (length chunk, \<lambda>p. if p < length chunk
       then of_bool (lookup_key (HashColumns (chunk ! p) cols) f = Some True) else results p)"
  using assms
  by (auto simp: Lookup_def bf_wf_def BloomFilterLookup_eq lookup_key_def fun_eq_iff)

section \<open>Concurrent insertion\<close>

text \<open>
  Several tasks insert into one filter; the atomic operations they interleave are the \<open>fetch_or\<close>s.
\<close>

definition key_ops :: "bloom_filter \<Rightarrow> u64 \<Rightarrow> (u32 \<times> u32) list" where
  "key_ops f k =
     (let s1 = GetSector1 f (lo32 k) (hi32 k)
      in [(s1, GetMask1 (lo32 k)), (GetSector2 (hi32 k) s1, GetMask2 (hi32 k))])"

lemma InsertOne_ops:
  "InsertOne f (lo32 k) (hi32 k) bf = fold_opt (\<lambda>(s, m). fetch_or s m) (key_ops f k) bf"
  by (auto simp: InsertOne_def key_ops_def Let_def split: option.splits)

lemma BloomFilterInsert_ops:
  "BloomFilterInsert f ks bf = fold_opt (\<lambda>(s, m). fetch_or s m) (concat (map (key_ops f) ks)) bf"
proof -
  have "fold_opt (\<lambda>k. InsertOne f (lo32 k) (hi32 k)) ks bf
        = fold_opt (\<lambda>(s, m). fetch_or s m) (concat (map (key_ops f) ks)) bf"
    by (induction ks arbitrary: bf)
       (auto simp: InsertOne_ops fold_opt_append split: option.splits bind_splits)
  then show ?thesis by (simp add: BloomFilterInsert_eq)
qed

lemma fetch_or_commute:
  "Option.bind (fetch_or s m bf) (fetch_or t n) = Option.bind (fetch_or t n bf) (fetch_or s m)"
  by (cases "unat s = unat t")
     (auto simp: fetch_or_def nth_list_update list_update_swap or.assoc or.commute or.left_commute)

section \<open>Properties\<close>

text \<open>C25: the batched, two-phase loops of the filter are equivalent to inserting and testing one key
  after the other: the insert is the loop of \<open>InsertOne\<close> over the keys, and the lookup stores for
  each key the answer of \<open>LookupOne\<close>, for every number of keys (whole batches and the tail).\<close>

theorem vectorised_loops_equal_scalar:
  "BloomFilterInsert f key bf = fold_opt (\<lambda>k. InsertOne f (lo32 k) (hi32 k)) key bf
   \<and> BloomFilterLookup f key bf out =
     fold_opt (\<lambda>p out. map_option (\<lambda>b. out(p := of_bool b))
       (LookupOne f (lo32 (key ! p)) (hi32 (key ! p)) bf)) [0..<length key] out"
  by (simp only: BloomFilterInsert_eq BloomFilterLookup_loop)

text \<open>Concurrent insertion is deterministic.  Whatever the interleaving of the atomic
  \<open>fetch_or\<close> operations of a set of keys, the blocks end up as after the sequential insert.\<close>

theorem concurrent_insert_deterministic:
  assumes "mset ops = mset (concat (map (key_ops f) keys))"
  shows "fold_opt (\<lambda>(s, m). fetch_or s m) ops bf = BloomFilterInsert f keys bf"
  unfolding BloomFilterInsert_ops
  by (rule fold_opt_perm [OF _ assms]) (simp add: split_beta fetch_or_commute)

theorem concurrent_insert_deterministic_witness:
  "fold_opt (\<lambda>(s, m). fetch_or s m)
     (rev (concat (map (key_ops (Initialize 1)) [5, 7]))) (blocks (Initialize 1))
   = BloomFilterInsert (Initialize 1) [5, 7] (blocks (Initialize 1))"
  by (rule concurrent_insert_deterministic) (simp only: mset_rev)



end
