(* ===== verification/TransferOperators.thy ===== *)
theory TransferOperators
  imports BloomFilter
begin

text \<open>
  The physical operators of predicate transfer: \<open>PhysicalCreateBF\<close>, which materialises its input
  and builds the filters in its finalize event
  (\<open>src/execution/operator/persistent/physical_create_bf.cpp\<close>), and \<open>PhysicalUseBF\<close>, which probes
  one filter per chunk (\<open>src/execution/operator/filter/physical_use_bf.cpp\<close>).  A chunk is its list
  of rows.
\<close>

section \<open>PhysicalCreateBF: the finalize event\<close>

definition CHUNKS_PER_TASK :: nat where "CHUNKS_PER_TASK = 64"

definition FinalizeSingleThreaded :: "nat \<Rightarrow> bool \<Rightarrow> nat \<Rightarrow> bool" where
  "FinalizeSingleThreaded num_threads verify_parallelism row_count =
     (if num_threads = 1 then True
      else if verify_parallelism then False
      else if row_count < 1048576 then True
      else False)"

text \<open>
  \<open>CreateBFFinalizeEvent::Schedule\<close>: the chunk ranges \<open>[from, to)\<close> of the finalize tasks.  The
  loop \<open>for (chunk_idx = 0; chunk_idx < chunk_count; chunk_idx += chunks_per_task)\<close> is
  \<open>schedule_loop\<close>; its step is positive, as the constants are.
\<close>

function schedule_loop :: "nat \<Rightarrow> nat \<Rightarrow> nat \<Rightarrow> (nat \<times> nat) list" where
  "schedule_loop chunks_per_task chunk_count chunk_idx =
     (if chunk_idx < chunk_count \<and> 0 < chunks_per_task
      then (chunk_idx, min (chunk_idx + chunks_per_task) chunk_count)
           # schedule_loop chunks_per_task chunk_count (chunk_idx + chunks_per_task)
      else [])"
  by pat_completeness auto
termination
  by (relation "measure (\<lambda>(w, n, i). n - i)") auto

declare schedule_loop.simps [simp del]

definition Schedule :: "nat \<Rightarrow> bool \<Rightarrow> nat \<Rightarrow> nat \<Rightarrow> (nat \<times> nat) list" where
  "Schedule num_threads verify_parallelism row_count chunk_count =
     (if FinalizeSingleThreaded num_threads verify_parallelism row_count then [(0, chunk_count)]
      else schedule_loop (if verify_parallelism then 1 else CHUNKS_PER_TASK) chunk_count 0)"

text \<open>
  \<open>CreateBFFinalizeTask::ExecuteTask\<close> for one of the unique filters: insert the chunks of the range.
\<close>

definition ExecuteTask :: "row list list \<Rightarrow> nat list \<Rightarrow> nat \<times> nat \<Rightarrow> bloom_filter \<Rightarrow> bloom_filter option" where
  "ExecuteTask chunks cols_build rng f =
     fold_opt (\<lambda>i f. Insert f (chunks ! i) cols_build) [fst rng..<snd rng] f"

text \<open>
  \<open>PhysicalCreateBF::Finalize\<close> for one filter: size it for the collected rows, run the scheduled
  tasks, and mark it finalized (\<open>FinishEvent\<close>).  \<open>order\<close> is the order in which the scheduler runs the
  tasks.
\<close>

definition Finalize ::
  "nat \<Rightarrow> bool \<Rightarrow> ((nat \<times> nat) list \<Rightarrow> (nat \<times> nat) list) \<Rightarrow> row list list \<Rightarrow> nat list \<Rightarrow> bloom_filter option"
where
  "Finalize num_threads verify_parallelism order chunks cols_build =
     (let num_rows = length (concat chunks);
          tasks = Schedule num_threads verify_parallelism num_rows (length chunks)
      in map_option (\<lambda>f. f\<lparr>finalized := True\<rparr>)
           (fold_opt (ExecuteTask chunks cols_build) (order tasks) (Initialize (of_nat num_rows))))"

section \<open>PhysicalUseBF\<close>

record use_bf_state =
  use_bf :: bool
  is_checked :: bool
  num_chunk :: nat
  num_received :: nat
  num_sent :: nat

definition NUM_CHUNK_FOR_CHECK :: nat where "NUM_CHUNK_FOR_CHECK = 32"

definition UseBFState :: "bool \<Rightarrow> use_bf_state" where
  "UseBFState valid_bf =
     \<lparr>use_bf = valid_bf, is_checked = False, num_chunk = 0, num_received = 0, num_sent = 0\<rparr>"

text \<open>
  \<open>CheckBFSelectivity\<close>.  The test \<open>selectivity > 0.9 && selectivity < 1\<close> is on a quotient of
  doubles; its outcome is the parameter \<open>useless\<close>, a function of the two counters.
\<close>

definition CheckBFSelectivity ::
  "(nat \<Rightarrow> nat \<Rightarrow> bool) \<Rightarrow> use_bf_state \<Rightarrow> nat \<Rightarrow> nat \<Rightarrow> use_bf_state" where
  "CheckBFSelectivity useless st num_in num_out =
     (let st1 = st\<lparr>num_received := num_received st + num_in, num_sent := num_sent st + num_out,
                   num_chunk := Suc (num_chunk st)\<rparr>
      in if num_chunk st1 > NUM_CHUNK_FOR_CHECK
         then (let st2 = st1\<lparr>is_checked := True\<rparr>
               in if useless (num_sent st2) (num_received st2) then st2\<lparr>use_bf := False\<rparr> else st2)
         else st1)"

text \<open>
  The branch-free fill of the selection vector: the row number is always stored at the current
  position, which advances by the lookup result (0 or 1).
\<close>

definition fill_sel :: "out_array \<Rightarrow> nat \<Rightarrow> nat \<times> sel_vector" where
  "fill_sel results n =
     fold (\<lambda>i (count, sel). (count + unat (results i), set_index sel count i)) [0..<n] (0, \<lambda>_. 0)"

definition ExecuteInternal ::
  "(nat \<Rightarrow> nat \<Rightarrow> bool) \<Rightarrow> bloom_filter \<Rightarrow> nat list \<Rightarrow> use_bf_state \<Rightarrow> row list \<Rightarrow>
   (row list \<times> use_bf_state) option" where
  "ExecuteInternal useless f bound_cols_applied st input =
     (if \<not> use_bf st then Some (input, st)
      else case Lookup f input (\<lambda>_. 0) bound_cols_applied of
        None \<Rightarrow> None
      | Some (_, lookup_results) \<Rightarrow>
          (let (result_count, sel) = fill_sel lookup_results (length input);
               chunk = (if result_count = length input then input
                        else map (\<lambda>i. input ! i) (sel_prefix sel result_count));
               st' = (if \<not> is_checked st
                      then CheckBFSelectivity useless st (length input) result_count else st)
           in Some (chunk, st')))"

text \<open>The operator run over the chunks of a pipeline.\<close>

fun ExecuteChunks ::
  "(nat \<Rightarrow> nat \<Rightarrow> bool) \<Rightarrow> bloom_filter \<Rightarrow> nat list \<Rightarrow> use_bf_state \<Rightarrow> row list list \<Rightarrow>
   (row list list \<times> use_bf_state) option" where
  "ExecuteChunks useless f cols st [] = Some ([], st)"
| "ExecuteChunks useless f cols st (c # cs) =
     (case ExecuteInternal useless f cols st c of
        None \<Rightarrow> None
      | Some (out, st1) \<Rightarrow>
          (case ExecuteChunks useless f cols st1 cs of
             None \<Rightarrow> None
           | Some (outs, st2) \<Rightarrow> Some (out # outs, st2)))"

section \<open>Every chunk is inserted exactly once\<close>

lemma schedule_loop_ranges:
  assumes "0 < w" "i \<le> n"
  shows "concat (map (\<lambda>(a, b). [a..<b]) (schedule_loop w n i)) = [i..<n]"
  using assms(2)
proof (induction "n - i" arbitrary: i rule: less_induct)
  case less
  show ?case
  proof (cases "i < n")
    case True
    let ?m = "min (i + w) n"
    have head: "schedule_loop w n i = (i, ?m) # schedule_loop w n (i + w)"
      using True assms(1) by (simp add: schedule_loop.simps)
    have rest: "concat (map (\<lambda>(a, b). [a..<b]) (schedule_loop w n (i + w))) = [?m..<n]"
    proof (cases "i + w \<le> n")
      case True
      with less.hyps [of "i + w"] \<open>i < n\<close> assms(1) show ?thesis by simp
    next
      case False
      then show ?thesis by (simp add: schedule_loop.simps)
    qed
    have "[i..<n] = [i..<?m] @ [?m..<n]"
      using True by (metis le_add1 less_imp_le min.bounded_iff min.cobounded2 le_Suc_ex upt_add_eq_append)
    then show ?thesis by (simp add: head rest)
  next
    case False
    with less.prems show ?thesis by (simp add: schedule_loop.simps)
  qed
qed

lemma Schedule_ranges:
  "concat (map (\<lambda>(a, b). [a..<b]) (Schedule num_threads verify rows n)) = [0..<n]"
  by (simp add: Schedule_def schedule_loop_ranges CHUNKS_PER_TASK_def)

lemma fold_opt_concat: "fold_opt (fold_opt f) xss s = fold_opt f (concat xss) s"
  by (induction xss arbitrary: s) (auto simp: fold_opt_append split: option.splits bind_splits)

lemma ExecuteTask_keys:
  "ExecuteTask chunks cols rng f =
   fold_opt (fold_opt insert_key)
     (map (\<lambda>i. map (\<lambda>r. HashColumns r cols) (chunks ! i)) [fst rng..<snd rng]) f"
  by (simp add: ExecuteTask_def Insert_eq fold_opt_map_fun comp_def)

definition range_keys :: "row list list \<Rightarrow> nat list \<Rightarrow> nat \<times> nat \<Rightarrow> u64 list" where
  "range_keys chunks cols rng =
     concat (map (\<lambda>i. map (\<lambda>r. HashColumns r cols) (chunks ! i)) [fst rng..<snd rng])"

lemma run_tasks_keys:
  "fold_opt (ExecuteTask chunks cols) ts f = fold_opt insert_key (concat (map (range_keys chunks cols) ts)) f"
proof -
  have "ExecuteTask chunks cols = (\<lambda>t. fold_opt insert_key (range_keys chunks cols t))"
    by (simp add: fun_eq_iff ExecuteTask_keys fold_opt_concat range_keys_def)
  then show ?thesis by (simp add: fold_opt_concat [symmetric] fold_opt_map comp_def)
qed

lemma range_keys_all:
  "concat (map (range_keys chunks cols) (Schedule num_threads verify rows (length chunks))) =
   map (\<lambda>r. HashColumns r cols) (concat chunks)"
proof -
  let ?h = "\<lambda>i. map (\<lambda>r. HashColumns r cols) (chunks ! i)"
  let ?S = "Schedule num_threads verify rows (length chunks)"
  have "concat (map (range_keys chunks cols) ts) = concat (map ?h (concat (map (\<lambda>(a, b). [a..<b]) ts)))" for ts
    by (induction ts) (auto simp: range_keys_def)
  then have "concat (map (range_keys chunks cols) ?S) = concat (map ?h [0..<length chunks])"
    by (simp add: Schedule_ranges)
  also have "map ?h [0..<length chunks] = map (map (\<lambda>r. HashColumns r cols)) chunks"
    by (rule nth_equalityI) auto
  finally show ?thesis by (simp add: map_concat)
qed

lemma set_range_keys_perm:
  assumes "mset (order ts) = mset ts"
  shows "set (concat (map (range_keys chunks cols) (order ts))) = set (concat (map (range_keys chunks cols) ts))"
  using mset_eq_setD [OF assms] by simp

section \<open>Probing\<close>

lemma fill_sel_eq:
  assumes "\<And>i. i < n \<Longrightarrow> results i = of_bool (p i)"
  shows "fst (fill_sel results n) = length (filter p [0..<n])"
    and "sel_prefix (snd (fill_sel results n)) (fst (fill_sel results n)) = filter p [0..<n]"
proof -
  have "fst (fill_sel results n) = length (filter p [0..<n])
    \<and> sel_prefix (snd (fill_sel results n)) (fst (fill_sel results n)) = filter p [0..<n]"
    using assms
  proof (induction n)
    case (Suc n)
    then have IH: "fst (fill_sel results n) = length (filter p [0..<n])"
      "sel_prefix (snd (fill_sel results n)) (fst (fill_sel results n)) = filter p [0..<n]" by auto
    have step: "fill_sel results (Suc n) =
      (fst (fill_sel results n) + unat (results n), set_index (snd (fill_sel results n)) (fst (fill_sel results n)) n)"
      by (simp add: fill_sel_def split_beta)
    show ?case
      by (cases "p n") (simp_all add: step Suc.prems IH [symmetric] sel_simps)
  qed (simp add: fill_sel_def sel_simps)
  then show "fst (fill_sel results n) = length (filter p [0..<n])"
    and "sel_prefix (snd (fill_sel results n)) (fst (fill_sel results n)) = filter p [0..<n]" by auto
qed

lemma map_nth_filter: "map (\<lambda>i. xs ! i) (filter (\<lambda>i. p (xs ! i)) [0..<length xs]) = filter p xs"
proof -
  have "filter p xs = filter p (map (\<lambda>i. xs ! i) [0..<length xs])" by (simp add: map_nth)
  then show ?thesis by (simp add: filter_map comp_def)
qed

definition passes :: "bloom_filter \<Rightarrow> nat list \<Rightarrow> row \<Rightarrow> bool" where
  "passes f cols r \<longleftrightarrow> lookup_key (HashColumns r cols) f = Some True"

lemma ExecuteInternal_rows:
  assumes "bf_wf f"
  shows "\<exists>st'. ExecuteInternal useless f cols st input
           = Some (if use_bf st then filter (passes f cols) input else input, st')"
proof (cases "use_bf st")
  case True
  let ?n = "length input"
  let ?res = "\<lambda>i. if i < ?n then of_bool (passes f cols (input ! i)) else (0::u32)"
  let ?p = "\<lambda>i. passes f cols (input ! i)"
  have look: "Lookup f input (\<lambda>_. 0) cols = Some (?n, ?res)"
    using Lookup_eq [OF assms] by (simp add: passes_def fun_eq_iff)
  have cnt: "fst (fill_sel ?res ?n) = length (filter ?p [0..<?n])"
    and pre: "sel_prefix (snd (fill_sel ?res ?n)) (fst (fill_sel ?res ?n)) = filter ?p [0..<?n]"
    by (rule fill_sel_eq; simp)+
  have rows: "map (\<lambda>i. input ! i) (filter ?p [0..<?n]) = filter (passes f cols) input"
    by (rule map_nth_filter)
  have all: "length (filter ?p [0..<?n]) = ?n \<Longrightarrow> filter (passes f cols) input = input"
    unfolding filter_upt_eq_all by (auto simp: filter_id_conv in_set_conv_nth)
  obtain c sel where fs: "fill_sel ?res ?n = (c, sel)" by fastforce
  have "c = ?n \<Longrightarrow> filter (passes f cols) input = input" using all cnt fs by simp
  moreover have "map (\<lambda>i. input ! i) (sel_prefix sel c) = filter (passes f cols) input"
    using pre rows fs by simp
  ultimately show ?thesis
    using True by (auto simp: ExecuteInternal_def look fs Let_def)
next
  case False
  then show ?thesis by (simp add: ExecuteInternal_def)
qed

text \<open>Over a pipeline: every chunk is either filtered or passed through.\<close>

lemma ExecuteChunks_rows:
  assumes "bf_wf f"
  shows "\<exists>outs st'. ExecuteChunks useless f cols st cs = Some (outs, st')
           \<and> list_all2 (\<lambda>out c. out = c \<or> out = filter (passes f cols) c) outs cs"
proof (induction cs arbitrary: st)
  case (Cons c cs)
  obtain st1 where 1: "ExecuteInternal useless f cols st c
      = Some (if use_bf st then filter (passes f cols) c else c, st1)"
    using ExecuteInternal_rows [OF assms] by blast
  obtain outs st2 where 2: "ExecuteChunks useless f cols st1 cs = Some (outs, st2)"
    "list_all2 (\<lambda>out c. out = c \<or> out = filter (passes f cols) c) outs cs"
    using Cons.IH by blast
  show ?case using 1 2 by auto
qed simp

definition join_match :: "nat list \<Rightarrow> nat list \<Rightarrow> row \<Rightarrow> row \<Rightarrow> bool" where
  "join_match cols_apply cols_build r b \<longleftrightarrow>
     map (\<lambda>c. r ! c) cols_apply = map (\<lambda>c. b ! c) cols_build"

lemma HashColumns_map:
  "cols \<noteq> [] \<Longrightarrow> HashColumns r cols =
   fold (\<lambda>v h. CombineHashScalar h (HashOp v)) (tl (map (\<lambda>c. r ! c) cols)) (HashOp (hd (map (\<lambda>c. r ! c) cols)))"
proof -
  have "fold (\<lambda>c h. CombineHashScalar h (HashOp (r ! c))) cs h
        = fold (\<lambda>v h. CombineHashScalar h (HashOp v)) (map (\<lambda>c. r ! c) cs) h" for cs h
    by (induction cs arbitrary: h) auto
  then show "cols \<noteq> [] \<Longrightarrow> ?thesis" by (simp add: HashColumns_def map_tl [symmetric] hd_map)
qed

lemma join_match_hash:
  assumes "join_match ca cb r b" "cb \<noteq> []"
  shows "HashColumns r ca = HashColumns b cb"
proof -
  have "ca \<noteq> []" using assms by (auto simp: join_match_def)
  with assms show ?thesis by (simp add: HashColumns_map join_match_def)
qed

lemma Finalize_filter:
  assumes rows: "length (concat chunks) \<le> 2 ^ 27"
    and order: "\<And>ts. mset (order ts) = mset ts"
  shows "\<exists>f. Finalize nt vp order chunks cb = Some f \<and> bf_wf f \<and> finalized f
           \<and> (\<forall>b\<in>set (concat chunks). passes f cb b)"
proof -
  let ?n = "length (concat chunks)"
  let ?ts = "Schedule nt vp ?n (length chunks)"
  let ?keys = "concat (map (range_keys chunks cb) (order ?ts))"
  have un: "unat (of_nat ?n :: u32) = ?n"
    using rows by (simp add: unat_of_nat)
  have "of_nat ?n * MIN_NUM_BITS_PER_KEY \<le> (2 ^ 31 :: u32)"
    using rows un by (simp add: MIN_NUM_BITS_PER_KEY_def word_le_nat_alt unat_word_ariths)
  then have wf0: "bf_wf (Initialize (of_nat ?n))" by (rule Initialize_wf)
  obtain f where f: "fold_opt insert_key ?keys (Initialize (of_nat ?n)) = Some f" "bf_wf f"
    using bf.build_defined [OF wf0] by blast
  have "set ?keys = set (map (\<lambda>r. HashColumns r cb) (concat chunks))"
    by (simp only: set_range_keys_perm [of order ?ts, OF order] range_keys_all)
  then have keys: "HashColumns b cb \<in> set ?keys" if "b \<in> set (concat chunks)" for b
    using that by auto
  have "lookup_key (HashColumns b cb) f = Some True" if "b \<in> set (concat chunks)" for b
    using bf.build_look [OF wf0 f(1) keys [OF that]] .
  then have "\<forall>b\<in>set (concat chunks). passes (f\<lparr>finalized := True\<rparr>) cb b"
    by (simp add: passes_def lookup_key_def)
  moreover have "Finalize nt vp order chunks cb = Some (f\<lparr>finalized := True\<rparr>)"
    unfolding Finalize_def Let_def run_tasks_keys using f by simp
  ultimately show ?thesis using f(2) by (auto simp: bf_wf_def)
qed

section \<open>Properties\<close>

text \<open>C4: predicate transfer never loses a join partner.  With at most \<open>2^27\<close> build rows, building the
  filter succeeds in every task order, and probing any stream of chunks with it succeeds in every
  operator state; each output chunk keeps, in order and with multiplicity, every row that has a
  join partner on the build side, and contains only rows of its input chunk.\<close>

theorem transfer_keeps_join_partners:
  assumes "length (concat build) \<le> 2 ^ 27" and "\<And>ts. mset (order ts) = mset ts"
    and "cols_build \<noteq> []"
  shows "\<exists>f. Finalize nt vp order build cols_build = Some f \<and> finalized f \<and>
    (\<forall>useless st probe. \<exists>outs st'. ExecuteChunks useless f cols_apply st probe = Some (outs, st') \<and>
       list_all2 (\<lambda>out c.
         filter (\<lambda>r. \<exists>b\<in>set (concat build). join_match cols_apply cols_build r b) out
         = filter (\<lambda>r. \<exists>b\<in>set (concat build). join_match cols_apply cols_build r b) c
         \<and> set out \<subseteq> set c) outs probe)"
proof -
  obtain f where f: "Finalize nt vp order build cols_build = Some f" "bf_wf f" "finalized f"
    "\<forall>b\<in>set (concat build). passes f cols_build b"
    using Finalize_filter [OF assms(1,2)] by blast
  let ?Q = "\<lambda>r. \<exists>b\<in>set (concat build). join_match cols_apply cols_build r b"
  have "passes f cols_apply r" if "?Q r" for r
    using that f(4) join_match_hash [OF _ assms(3)] unfolding passes_def by metis
  then have kept: "filter ?Q (filter (passes f cols_apply) c) = filter ?Q c" for c
    unfolding filter_filter by (intro filter_cong refl) blast
  have step: "filter ?Q out = filter ?Q c \<and> set out \<subseteq> set c"
    if "out = c \<or> out = filter (passes f cols_apply) c" for out c
    using that
  proof
    assume "out = filter (passes f cols_apply) c"
    then show ?thesis using conjI [OF kept filter_is_subset] by (simp only:)
  qed simp
  show ?thesis
  proof (intro exI [of _ f] conjI allI)
    fix useless st probe
    obtain outs st' where o: "ExecuteChunks useless f cols_apply st probe = Some (outs, st')"
      "list_all2 (\<lambda>out c. out = c \<or> out = filter (passes f cols_apply) c) outs probe"
      using ExecuteChunks_rows [OF f(2)] by blast
    have "list_all2 (\<lambda>out c. filter ?Q out = filter ?Q c \<and> set out \<subseteq> set c) outs probe"
      using o(2) by (rule list_all2_mono) (rule step)
    with o(1) show "\<exists>outs st'. ExecuteChunks useless f cols_apply st probe = Some (outs, st') \<and>
       list_all2 (\<lambda>out c. filter ?Q out = filter ?Q c \<and> set out \<subseteq> set c) outs probe" by blast
  qed (use f in auto)
qed

theorem transfer_keeps_join_partners_witness:
  "\<exists>f. Finalize 4 False rev [[[Some 3, None], [Some 5, Some 1]], [[Some 9, Some 9]]] [0] = Some f \<and> finalized f \<and>
    (\<forall>useless st probe. \<exists>outs st'. ExecuteChunks useless f [1] st probe = Some (outs, st') \<and>
       list_all2 (\<lambda>out c.
         filter (\<lambda>r. \<exists>b\<in>set (concat [[[Some 3, None], [Some 5, Some 1]], [[Some 9, Some 9]]]). join_match [1] [0] r b) out
         = filter (\<lambda>r. \<exists>b\<in>set (concat [[[Some 3, None], [Some 5, Some 1]], [[Some 9, Some 9]]]). join_match [1] [0] r b) c
         \<and> set out \<subseteq> set c) outs probe)"
  by (rule transfer_keeps_join_partners) simp_all

end
