(* ===== verification/ChunkInfo.thy ===== *)
theory ChunkInfo
  imports Prelude
begin

text \<open>
  The version information of one vector of rows, \<open>src/storage/table/chunk_info.cpp\<close> and
  \<open>src/include/duckdb/storage/table/chunk_info.hpp\<close>: who inserted and who deleted each of up to
  \<open>STANDARD_VECTOR_SIZE\<close> rows.  A C array of that size is a function of the index.
\<close>

section \<open>Transaction identifiers\<close>

type_synonym transaction_t = u64

definition TRANSACTION_ID_START :: transaction_t where
  "TRANSACTION_ID_START = 4611686018427388000"

definition MAX_TRANSACTION_ID :: transaction_t where
  "MAX_TRANSACTION_ID = 18446744073709551615"

definition NOT_DELETED_ID :: transaction_t where
  "NOT_DELETED_ID = 18446744073709551615 - 1"

definition STANDARD_VECTOR_SIZE :: nat where
  "STANDARD_VECTOR_SIZE = 2048"

record transaction_data =
  td_transaction_id :: transaction_t
  td_start_time :: transaction_t

datatype version_error = TransactionConflict | InternalError | SerializationError | NullDereference

section \<open>Visibility of a version\<close>

text \<open>The template parameter \<open>OP\<close> of \<open>TemplatedGetSelVector\<close>: two static functions.\<close>

record version_operator =
  UseInsertedVersion :: "transaction_t \<Rightarrow> transaction_t \<Rightarrow> transaction_t \<Rightarrow> bool"
  UseDeletedVersion :: "transaction_t \<Rightarrow> transaction_t \<Rightarrow> transaction_t \<Rightarrow> bool"

definition sees_id :: "transaction_t \<Rightarrow> transaction_t \<Rightarrow> transaction_t \<Rightarrow> bool" where
  "sees_id st tid v \<longleftrightarrow> v < st \<or> v = tid"

definition TransactionVersionOperator :: version_operator where
  "TransactionVersionOperator =
     \<lparr>UseInsertedVersion = sees_id, UseDeletedVersion = (\<lambda>st tid v. \<not> sees_id st tid v)\<rparr>"

definition CommittedVersionOperator :: version_operator where
  "CommittedVersionOperator =
     \<lparr>UseInsertedVersion = (\<lambda>st tid v. True),
      UseDeletedVersion = (\<lambda>min_start min_tid v.
        (min_start \<le> v \<and> v < TRANSACTION_ID_START) \<or> v = NOT_DELETED_ID)\<rparr>"

definition UseVersion :: "transaction_data \<Rightarrow> transaction_t \<Rightarrow> bool" where
  "UseVersion t v = UseInsertedVersion TransactionVersionOperator (td_start_time t) (td_transaction_id t) v"

section \<open>State\<close>

record chunk_constant_info =
  cc_start :: nat
  cc_insert_id :: transaction_t
  cc_delete_id :: transaction_t

record chunk_vector_info =
  cv_start :: nat
  inserted :: "nat \<Rightarrow> transaction_t"
  insert_id :: transaction_t
  same_inserted_id :: bool
  deleted :: "nat \<Rightarrow> transaction_t"
  any_deleted :: bool

datatype chunk_info = CONSTANT_INFO chunk_constant_info | VECTOR_INFO chunk_vector_info

record delete_info =
  di_vector_idx :: nat
  di_count :: nat
  di_is_consecutive :: bool
  di_rows :: "nat \<Rightarrow> nat"

definition ChunkConstantInfo :: "nat \<Rightarrow> chunk_constant_info" where
  "ChunkConstantInfo start = \<lparr>cc_start = start, cc_insert_id = 0, cc_delete_id = NOT_DELETED_ID\<rparr>"

definition ChunkVectorInfo :: "nat \<Rightarrow> chunk_vector_info" where
  "ChunkVectorInfo start =
     \<lparr>cv_start = start, inserted = (\<lambda>_. 0), insert_id = 0, same_inserted_id = True,
      deleted = (\<lambda>_. NOT_DELETED_ID), any_deleted = False\<rparr>"

section \<open>Constant info\<close>

definition constant_sel ::
  "version_operator \<Rightarrow> chunk_constant_info \<Rightarrow> transaction_t \<Rightarrow> transaction_t \<Rightarrow> sel_vector \<Rightarrow> nat \<Rightarrow>
   nat \<times> sel_vector" where
  "constant_sel OP ci start_time transaction_id sel max_count =
     (if UseInsertedVersion OP start_time transaction_id (cc_insert_id ci)
         \<and> UseDeletedVersion OP start_time transaction_id (cc_delete_id ci)
      then (max_count, sel) else (0, sel))"

definition constant_fetch :: "chunk_constant_info \<Rightarrow> transaction_data \<Rightarrow> nat \<Rightarrow> bool" where
  "constant_fetch ci t row \<longleftrightarrow> UseVersion t (cc_insert_id ci) \<and> \<not> UseVersion t (cc_delete_id ci)"

definition constant_commit_append :: "chunk_constant_info \<Rightarrow> transaction_t \<Rightarrow> chunk_constant_info" where
  "constant_commit_append ci commit_id = ci\<lparr>cc_insert_id := commit_id\<rparr>"

definition constant_has_deletes :: "chunk_constant_info \<Rightarrow> bool" where
  "constant_has_deletes ci \<longleftrightarrow>
     TRANSACTION_ID_START \<le> cc_insert_id ci \<or> cc_delete_id ci < TRANSACTION_ID_START"

definition constant_committed_deleted_count :: "chunk_constant_info \<Rightarrow> nat \<Rightarrow> nat" where
  "constant_committed_deleted_count ci max_count =
     (if cc_delete_id ci < TRANSACTION_ID_START then max_count else 0)"

definition constant_cleanup :: "chunk_constant_info \<Rightarrow> transaction_t \<Rightarrow> bool" where
  "constant_cleanup ci lowest_transaction =
     (if cc_delete_id ci \<noteq> NOT_DELETED_ID then False
      else if cc_insert_id ci > lowest_transaction then False
      else True)"

section \<open>Vector info\<close>

definition vector_sel ::
  "version_operator \<Rightarrow> chunk_vector_info \<Rightarrow> transaction_t \<Rightarrow> transaction_t \<Rightarrow> sel_vector \<Rightarrow> nat \<Rightarrow>
   nat \<times> sel_vector" where
  "vector_sel OP ci start_time transaction_id sel max_count =
     (let ins = UseInsertedVersion OP start_time transaction_id;
          del = UseDeletedVersion OP start_time transaction_id
      in if same_inserted_id ci \<and> \<not> any_deleted ci then
           (if ins (insert_id ci) then (max_count, sel) else (0, sel))
         else if same_inserted_id ci then
           (if \<not> ins (insert_id ci) then (0, sel)
            else fold (sel_step (\<lambda>i. del (deleted ci i))) [0..<max_count] (0, sel))
         else if \<not> any_deleted ci then
           fold (sel_step (\<lambda>i. ins (inserted ci i))) [0..<max_count] (0, sel)
         else
           fold (sel_step (\<lambda>i. ins (inserted ci i) \<and> del (deleted ci i))) [0..<max_count] (0, sel))"

definition vector_fetch :: "chunk_vector_info \<Rightarrow> transaction_data \<Rightarrow> nat \<Rightarrow> bool" where
  "vector_fetch ci t row \<longleftrightarrow> UseVersion t (inserted ci row) \<and> \<not> UseVersion t (deleted ci row)"

text \<open>
  \<open>Delete\<close>.  \<open>rows\<close> is read and compacted in the same loop: after the loop its first
  \<open>deleted_tuples\<close> entries are the rows this call deleted.  On a conflict the code resets
  \<open>deleted[rows[k]]\<close> for every \<open>k < i\<close> and throws.
\<close>

function delete_loop ::
  "transaction_t \<Rightarrow> nat \<Rightarrow> nat \<Rightarrow> (nat \<Rightarrow> transaction_t) \<Rightarrow> (nat \<Rightarrow> nat) \<Rightarrow> nat \<Rightarrow>
   (nat \<Rightarrow> transaction_t) \<times> (nat \<Rightarrow> nat) \<times> (version_error + nat)" where
  "delete_loop transaction_id cnt i del rows deleted_tuples =
     (if i < cnt then
        (if del (rows i) = transaction_id then
           delete_loop transaction_id cnt (Suc i) del rows deleted_tuples
         else if del (rows i) \<noteq> NOT_DELETED_ID then
           (fold (\<lambda>k d. d(rows k := NOT_DELETED_ID)) [0..<i] del, rows, Inl TransactionConflict)
         else
           delete_loop transaction_id cnt (Suc i) (del(rows i := transaction_id))
             (rows(deleted_tuples := rows i)) (Suc deleted_tuples))
      else (del, rows, Inr deleted_tuples))"
  by pat_completeness auto
termination
  by (relation "measure (\<lambda>(tid, cnt, i, del, rows, dt). cnt - i)") auto

declare delete_loop.simps [simp del]

definition vector_delete ::
  "chunk_vector_info \<Rightarrow> transaction_t \<Rightarrow> (nat \<Rightarrow> nat) \<Rightarrow> nat \<Rightarrow>
   chunk_vector_info \<times> (nat \<Rightarrow> nat) \<times> (version_error + nat)" where
  "vector_delete ci transaction_id rows cnt =
     (let (del, rows', r) = delete_loop transaction_id cnt 0 (deleted ci) rows 0
      in (ci\<lparr>any_deleted := True, deleted := del\<rparr>, rows', r))"

definition vector_commit_delete :: "chunk_vector_info \<Rightarrow> transaction_t \<Rightarrow> delete_info \<Rightarrow> chunk_vector_info" where
  "vector_commit_delete ci commit_id info =
     (if di_is_consecutive info
      then ci\<lparr>deleted := fold (\<lambda>i d. d(i := commit_id)) [0..<di_count info] (deleted ci)\<rparr>
      else ci\<lparr>deleted := fold (\<lambda>i d. d(di_rows info i := commit_id)) [0..<di_count info] (deleted ci)\<rparr>)"

definition vector_append :: "chunk_vector_info \<Rightarrow> nat \<Rightarrow> nat \<Rightarrow> transaction_t \<Rightarrow> chunk_vector_info" where
  "vector_append ci start end' commit_id =
     (let ci1 = (if start = 0 then ci\<lparr>insert_id := commit_id\<rparr>
                 else if insert_id ci \<noteq> commit_id
                 then ci\<lparr>same_inserted_id := False, insert_id := NOT_DELETED_ID\<rparr>
                 else ci)
      in ci1\<lparr>inserted := fold (\<lambda>i f. f(i := commit_id)) [start..<end'] (inserted ci1)\<rparr>)"

definition vector_commit_append :: "chunk_vector_info \<Rightarrow> transaction_t \<Rightarrow> nat \<Rightarrow> nat \<Rightarrow> chunk_vector_info" where
  "vector_commit_append ci commit_id start end' =
     (let ci1 = (if same_inserted_id ci then ci\<lparr>insert_id := commit_id\<rparr> else ci)
      in ci1\<lparr>inserted := fold (\<lambda>i f. f(i := commit_id)) [start..<end'] (inserted ci1)\<rparr>)"

definition vector_cleanup :: "chunk_vector_info \<Rightarrow> transaction_t \<Rightarrow> bool" where
  "vector_cleanup ci lowest_transaction =
     (if any_deleted ci then False
      else if \<not> same_inserted_id ci
           then list_all (\<lambda>idx. \<not> inserted ci idx > lowest_transaction) [1..<STANDARD_VECTOR_SIZE]
      else if insert_id ci > lowest_transaction then False
      else True)"

definition vector_has_deletes :: "chunk_vector_info \<Rightarrow> bool" where
  "vector_has_deletes ci \<longleftrightarrow> any_deleted ci"

definition vector_committed_deleted_count :: "chunk_vector_info \<Rightarrow> nat \<Rightarrow> nat" where
  "vector_committed_deleted_count ci max_count =
     (if \<not> any_deleted ci then 0
      else fold (\<lambda>i n. if deleted ci i < TRANSACTION_ID_START then Suc n else n) [0..<max_count] 0)"

section \<open>The virtual functions of ChunkInfo\<close>

fun TemplatedGetSelVector ::
  "version_operator \<Rightarrow> chunk_info \<Rightarrow> transaction_t \<Rightarrow> transaction_t \<Rightarrow> sel_vector \<Rightarrow> nat \<Rightarrow> nat \<times> sel_vector"
where
  "TemplatedGetSelVector OP (CONSTANT_INFO ci) st tid sel n = constant_sel OP ci st tid sel n"
| "TemplatedGetSelVector OP (VECTOR_INFO ci) st tid sel n = vector_sel OP ci st tid sel n"

definition GetSelVector :: "chunk_info \<Rightarrow> transaction_data \<Rightarrow> sel_vector \<Rightarrow> nat \<Rightarrow> nat \<times> sel_vector" where
  "GetSelVector ci t sel n =
     TemplatedGetSelVector TransactionVersionOperator ci (td_start_time t) (td_transaction_id t) sel n"

definition GetCommittedSelVector ::
  "chunk_info \<Rightarrow> transaction_t \<Rightarrow> transaction_t \<Rightarrow> sel_vector \<Rightarrow> nat \<Rightarrow> nat \<times> sel_vector" where
  "GetCommittedSelVector ci min_start_id min_transaction_id sel n =
     TemplatedGetSelVector CommittedVersionOperator ci min_start_id min_transaction_id sel n"

fun Fetch :: "chunk_info \<Rightarrow> transaction_data \<Rightarrow> nat \<Rightarrow> bool" where
  "Fetch (CONSTANT_INFO ci) t row = constant_fetch ci t row"
| "Fetch (VECTOR_INFO ci) t row = vector_fetch ci t row"

fun CommitAppend :: "chunk_info \<Rightarrow> transaction_t \<Rightarrow> nat \<Rightarrow> nat \<Rightarrow> chunk_info" where
  "CommitAppend (CONSTANT_INFO ci) commit_id start end' = CONSTANT_INFO (constant_commit_append ci commit_id)"
| "CommitAppend (VECTOR_INFO ci) commit_id start end' = VECTOR_INFO (vector_commit_append ci commit_id start end')"

fun Cleanup :: "chunk_info \<Rightarrow> transaction_t \<Rightarrow> bool" where
  "Cleanup (CONSTANT_INFO ci) lowest = constant_cleanup ci lowest"
| "Cleanup (VECTOR_INFO ci) lowest = vector_cleanup ci lowest"

fun HasDeletes :: "chunk_info \<Rightarrow> bool" where
  "HasDeletes (CONSTANT_INFO ci) = constant_has_deletes ci"
| "HasDeletes (VECTOR_INFO ci) = vector_has_deletes ci"

fun GetCommittedDeletedCount :: "chunk_info \<Rightarrow> nat \<Rightarrow> nat" where
  "GetCommittedDeletedCount (CONSTANT_INFO ci) n = constant_committed_deleted_count ci n"
| "GetCommittedDeletedCount (VECTOR_INFO ci) n = vector_committed_deleted_count ci n"

section \<open>Serialisation\<close>

text \<open>
  The stream is the list of the values written: the \<open>ChunkInfoType\<close> tag, row numbers, and validity
  masks (a mask is its set of valid bits as a predicate).
\<close>

datatype info_type = TAG_CONSTANT | TAG_VECTOR | TAG_EMPTY
datatype item = ItemType info_type | ItemIdx nat | ItemMask "nat \<Rightarrow> bool"

definition INVALID_INDEX :: transaction_t where "INVALID_INDEX = 18446744073709551615"

fun Write :: "chunk_info \<Rightarrow> item list" where
  "Write (CONSTANT_INFO ci) = [ItemType TAG_CONSTANT, ItemIdx (cc_start ci)]"
| "Write (VECTOR_INFO ci) =
     (let (cnt, sel) = vector_sel TransactionVersionOperator ci (TRANSACTION_ID_START - 1)
                           INVALID_INDEX (\<lambda>_. 0) STANDARD_VECTOR_SIZE
      in if cnt = STANDARD_VECTOR_SIZE then [ItemType TAG_EMPTY]
         else if cnt = 0 then [ItemType TAG_CONSTANT, ItemIdx (cv_start ci)]
         else [ItemType TAG_VECTOR, ItemIdx (cv_start ci),
               ItemMask (fold (\<lambda>i m. m(sel i := False)) [0..<cnt] (\<lambda>_. True))])"

text \<open>
  \<open>Read\<close> returns the info (\<open>None\<close> for the null pointer) and the rest of the stream; a stream that
  does not hold what is read is a serialization error.
\<close>

fun Read :: "item list \<Rightarrow> version_error + (chunk_info option \<times> item list)" where
  "Read (ItemType TAG_EMPTY # rest) = Inr (None, rest)"
| "Read (ItemType TAG_CONSTANT # ItemIdx start # rest) =
     Inr (Some (CONSTANT_INFO ((ChunkConstantInfo start)\<lparr>cc_insert_id := 0, cc_delete_id := 0\<rparr>)), rest)"
| "Read (ItemType TAG_VECTOR # ItemIdx start # ItemMask msk # rest) =
     (let ci = (ChunkVectorInfo start)\<lparr>any_deleted := True\<rparr>
      in Inr (Some (VECTOR_INFO (ci\<lparr>deleted :=
           fold (\<lambda>i d. if msk i then d(i := 0) else d) [0..<STANDARD_VECTOR_SIZE] (deleted ci)\<rparr>)), rest))"
| "Read _ = Inl SerializationError"

section \<open>The abstract view: one version per row\<close>

text \<open>
  A row version is the pair of the ids that inserted and deleted it; the absence of an info stands
  for rows inserted before every transaction and never deleted.
\<close>

type_synonym row_version = "transaction_t \<times> transaction_t"

fun chunk_version :: "chunk_info option \<Rightarrow> nat \<Rightarrow> row_version" where
  "chunk_version None i = (0, NOT_DELETED_ID)"
| "chunk_version (Some (CONSTANT_INFO ci)) i = (cc_insert_id ci, cc_delete_id ci)"
| "chunk_version (Some (VECTOR_INFO ci)) i = (inserted ci i, deleted ci i)"

definition visible :: "version_operator \<Rightarrow> transaction_t \<Rightarrow> transaction_t \<Rightarrow> row_version \<Rightarrow> bool" where
  "visible OP st tid v \<longleftrightarrow> UseInsertedVersion OP st tid (fst v) \<and> UseDeletedVersion OP st tid (snd v)"

definition visible_to :: "transaction_data \<Rightarrow> row_version \<Rightarrow> bool" where
  "visible_to t v \<longleftrightarrow> UseVersion t (fst v) \<and> \<not> UseVersion t (snd v)"

lemma visible_to_alt:
  "visible_to t v = visible TransactionVersionOperator (td_start_time t) (td_transaction_id t) v"
  by (simp add: visible_to_def visible_def UseVersion_def TransactionVersionOperator_def)

text \<open>
  The two flags of a vector info summarise its arrays: \<open>n\<close> is the number of rows appended so far.
\<close>

definition any_deleted_wf :: "chunk_vector_info \<Rightarrow> bool" where
  "any_deleted_wf ci \<longleftrightarrow> (\<not> any_deleted ci \<longrightarrow> (\<forall>i. deleted ci i = NOT_DELETED_ID))"

definition cv_wf :: "nat \<Rightarrow> chunk_vector_info \<Rightarrow> bool" where
  "cv_wf n ci \<longleftrightarrow>
     (same_inserted_id ci \<longrightarrow> (\<forall>i<n. inserted ci i = insert_id ci)) \<and> any_deleted_wf ci"

definition effective_insert_id :: "chunk_vector_info \<Rightarrow> nat \<Rightarrow> transaction_t" where
  "effective_insert_id ci i = (if same_inserted_id ci then insert_id ci else inserted ci i)"

fun chunk_wf :: "nat \<Rightarrow> chunk_info \<Rightarrow> bool" where
  "chunk_wf n (CONSTANT_INFO ci) = True"
| "chunk_wf n (VECTOR_INFO ci) = cv_wf n ci"

lemma cv_wf_mono: "cv_wf n ci \<Longrightarrow> m \<le> n \<Longrightarrow> cv_wf m ci"
  by (auto simp: cv_wf_def)

lemma chunk_wf_mono: "chunk_wf n ci \<Longrightarrow> m \<le> n \<Longrightarrow> chunk_wf m ci"
  by (cases ci) (auto intro: cv_wf_mono)

text \<open>
  The rows a scan reads after \<open>GetSelVector\<close> returned: all rows when the count is the maximum (the
  selection vector need not be filled then), otherwise the filled prefix.
\<close>

definition selected :: "nat \<Rightarrow> nat \<times> sel_vector \<Rightarrow> nat list" where
  "selected max_count r = (if fst r = max_count then [0..<max_count] else sel_prefix (snd r) (fst r))"

lemma selected_scan:
  "selected n (fold (sel_step p) [0..<n] (0, sel)) = filter p [0..<n]"
proof -
  obtain c sel' where f: "fold (sel_step p) [0..<n] (0, sel) = (c, sel')" by fastforce
  note scan = sel_scan [OF f]
  show ?thesis
  proof (cases "c = n")
    case True
    then have "\<forall>i<n. p i" using scan(1) filter_upt_eq_all [of p n] by simp
    then show ?thesis using f True by (simp add: selected_def)
  next
    case False
    then show ?thesis using f scan(2) by (simp add: selected_def)
  qed
qed

lemma selected_none: "selected n (0, sel) = []"
  by (simp add: selected_def sel_simps)

section \<open>The interface of a version operator\<close>

text \<open>
  What \<open>TemplatedGetSelVector\<close> relies on: the ids of a row that was never inserted or deleted in a
  tracked way, 0 and \<open>NOT_DELETED_ID\<close>, are read as present and not deleted.  \<open>admissible\<close> restricts
  the pairs of start time and transaction id a reader can have.
\<close>

locale version_operator_laws =
  fixes OP :: version_operator
    and admissible :: "transaction_t \<Rightarrow> transaction_t \<Rightarrow> bool"
  assumes reads_loaded: "admissible st tid \<Longrightarrow> UseInsertedVersion OP st tid 0"
    and reads_undeleted: "admissible st tid \<Longrightarrow> UseDeletedVersion OP st tid NOT_DELETED_ID"
begin

lemma vector_sel_effective:
  assumes "admissible st tid" "any_deleted_wf ci"
  shows "selected m (vector_sel OP ci st tid sel m) =
         filter (\<lambda>i. visible OP st tid (effective_insert_id ci i, deleted ci i)) [0..<m]"
proof -
  have del: "UseDeletedVersion OP st tid (deleted ci i)" if "\<not> any_deleted ci" for i
    using that assms by (simp add: any_deleted_wf_def reads_undeleted)
  have all: "selected m (m, sel) = [0..<m]" by (simp add: selected_def)
  show ?thesis
    by (simp add: vector_sel_def Let_def selected_scan selected_none visible_def
        effective_insert_id_def del all)
qed

lemma vector_sel_rows:
  assumes "admissible st tid" "cv_wf n ci" "m \<le> n"
  shows "selected m (vector_sel OP ci st tid sel m) =
         filter (\<lambda>i. visible OP st tid (inserted ci i, deleted ci i)) [0..<m]"
proof -
  have "effective_insert_id ci i = inserted ci i" if "i \<in> set [0..<m]" for i
    using that assms(2,3) by (simp add: cv_wf_def effective_insert_id_def)
  moreover have "any_deleted_wf ci" using assms(2) by (simp add: cv_wf_def)
  ultimately show ?thesis
    by (auto simp: vector_sel_effective [OF assms(1)] intro: filter_cong)
qed

lemma sel_rows:
  assumes "admissible st tid" "chunk_wf n ci" "m \<le> n"
  shows "selected m (TemplatedGetSelVector OP ci st tid sel m) =
         filter (\<lambda>i. visible OP st tid (chunk_version (Some ci) i)) [0..<m]"
proof (cases ci)
  case (CONSTANT_INFO c)
  then show ?thesis
    by (simp add: constant_sel_def visible_def selected_def sel_simps)
next
  case (VECTOR_INFO c)
  then show ?thesis using assms by (simp add: vector_sel_rows)
qed

lemma no_info_rows:
  "admissible st tid \<Longrightarrow> filter (\<lambda>i. visible OP st tid (chunk_version None i)) [0..<m] = [0..<m]"
  by (simp add: visible_def reads_loaded reads_undeleted)

end

definition reader_ids :: "transaction_t \<Rightarrow> transaction_t \<Rightarrow> bool" where
  "reader_ids st tid \<longleftrightarrow> 0 < st \<and> st \<le> TRANSACTION_ID_START \<and> tid \<noteq> NOT_DELETED_ID"

interpretation txn_op: version_operator_laws TransactionVersionOperator reader_ids
proof unfold_locales
  fix st tid assume r: "reader_ids st tid"
  then show "UseInsertedVersion TransactionVersionOperator st tid 0"
    by (simp add: TransactionVersionOperator_def sees_id_def reader_ids_def)
  have "TRANSACTION_ID_START < NOT_DELETED_ID"
    by (simp add: TRANSACTION_ID_START_def NOT_DELETED_ID_def)
  with r show "UseDeletedVersion TransactionVersionOperator st tid NOT_DELETED_ID"
    by (auto simp: TransactionVersionOperator_def sees_id_def reader_ids_def)
qed

interpretation committed_op: version_operator_laws CommittedVersionOperator "\<lambda>st tid. True"
  by unfold_locales (simp_all add: CommittedVersionOperator_def)

section \<open>The interface of ChunkInfo\<close>

text \<open>
  The abstract class \<open>ChunkInfo\<close> as the row version manager uses it: each implementation is a
  function from row numbers to versions, and its scans, fetches and counts read that function.
\<close>

definition reader :: "transaction_data \<Rightarrow> bool" where
  "reader t \<longleftrightarrow> reader_ids (td_start_time t) (td_transaction_id t)"

locale chunk_info_class =
  fixes row_versions :: "'c \<Rightarrow> nat \<Rightarrow> row_version"
    and wf :: "nat \<Rightarrow> 'c \<Rightarrow> bool"
    and get_sel :: "'c \<Rightarrow> transaction_data \<Rightarrow> sel_vector \<Rightarrow> nat \<Rightarrow> nat \<times> sel_vector"
    and fetch :: "'c \<Rightarrow> transaction_data \<Rightarrow> nat \<Rightarrow> bool"
    and deleted_count :: "'c \<Rightarrow> nat \<Rightarrow> nat"
  assumes sel_law: "reader t \<Longrightarrow> wf n c \<Longrightarrow> m \<le> n \<Longrightarrow>
      selected m (get_sel c t sel m) = filter (\<lambda>i. visible_to t (row_versions c i)) [0..<m]"
    and fetch_law: "fetch c t i = visible_to t (row_versions c i)"
    and count_law: "wf n c \<Longrightarrow>
      deleted_count c m = length (filter (\<lambda>i. snd (row_versions c i) < TRANSACTION_ID_START) [0..<m])"
begin

lemma scan_is_fetch:
  "reader t \<Longrightarrow> wf n c \<Longrightarrow> m \<le> n \<Longrightarrow> selected m (get_sel c t sel m) = filter (fetch c t) [0..<m]"
  by (auto simp: sel_law fetch_law intro: filter_cong)

lemma scan_count:
  assumes "reader t" "wf n c" "m \<le> n"
  shows "fst (get_sel c t sel m) = length (filter (fetch c t) [0..<m])"
proof -
  have "fst (get_sel c t sel m) = length (selected m (get_sel c t sel m))"
    by (simp add: selected_def sel_simps)
  then show ?thesis by (simp add: scan_is_fetch [OF assms])
qed

end

interpretation constant_class: chunk_info_class "\<lambda>ci i. (cc_insert_id ci, cc_delete_id ci)" "\<lambda>n ci. True"
  "\<lambda>ci t. constant_sel TransactionVersionOperator ci (td_start_time t) (td_transaction_id t)"
  constant_fetch constant_committed_deleted_count
  by unfold_locales
    (auto simp: constant_sel_def constant_fetch_def constant_committed_deleted_count_def selected_def
      sel_simps visible_to_def UseVersion_def TransactionVersionOperator_def)

lemma count_loop: "fold (\<lambda>i n. if p i then Suc n else n) xs k = k + length (filter p xs)"
  by (induction xs arbitrary: k) simp_all

interpretation vector_class: chunk_info_class "\<lambda>ci i. (inserted ci i, deleted ci i)" cv_wf
  "\<lambda>ci t. vector_sel TransactionVersionOperator ci (td_start_time t) (td_transaction_id t)"
  vector_fetch vector_committed_deleted_count
proof unfold_locales
  fix t n c m and sel :: sel_vector
  assume "reader t" "cv_wf n c" "m \<le> n"
  then show "selected m (vector_sel TransactionVersionOperator c (td_start_time t) (td_transaction_id t) sel m) =
      filter (\<lambda>i. visible_to t (inserted c i, deleted c i)) [0..<m]"
    by (simp add: reader_def visible_to_alt txn_op.vector_sel_rows)
next
  fix c t i
  show "vector_fetch c t i = visible_to t (inserted c i, deleted c i)"
    by (simp add: vector_fetch_def visible_to_def)
next
  fix n m :: nat and c
  assume wf: "cv_wf n c"
  have "\<not> NOT_DELETED_ID < TRANSACTION_ID_START"
    by (simp add: TRANSACTION_ID_START_def NOT_DELETED_ID_def)
  then show "vector_committed_deleted_count c m =
      length (filter (\<lambda>i. snd (inserted c i, deleted c i) < TRANSACTION_ID_START) [0..<m])"
    using wf by (simp add: vector_committed_deleted_count_def count_loop cv_wf_def any_deleted_wf_def)
qed

interpretation info_class: chunk_info_class "\<lambda>ci. chunk_version (Some ci)" chunk_wf GetSelVector Fetch
  GetCommittedDeletedCount
proof unfold_locales
  fix t n c m and sel :: sel_vector
  assume "reader t" "chunk_wf n c" "m \<le> n"
  then show "selected m (GetSelVector c t sel m) = filter (\<lambda>i. visible_to t (chunk_version (Some c) i)) [0..<m]"
    by (cases c) (simp_all add: GetSelVector_def constant_class.sel_law vector_class.sel_law)
next
  fix c t i
  show "Fetch c t i = visible_to t (chunk_version (Some c) i)"
    by (cases c) (simp_all add: constant_class.fetch_law vector_class.fetch_law)
next
  fix n m :: nat and c
  assume "chunk_wf n c"
  then show "GetCommittedDeletedCount c m =
      length (filter (\<lambda>i. snd (chunk_version (Some c) i) < TRANSACTION_ID_START) [0..<m])"
    by (cases c) (simp_all only: GetCommittedDeletedCount.simps chunk_wf.simps chunk_version.simps
        constant_class.count_law vector_class.count_law)
qed

text \<open>
  The bulk scan and the single-row lookup of a vector agree: for every reader that has started,
  the rows \<open>GetSelVector\<close> selects out of the first \<open>m\<close>, whichever of its five specialised loops ran,
  are in order exactly the rows \<open>Fetch\<close> reports as visible, and the returned count is their number.
\<close>
theorem GetSelVector_agrees_with_Fetch:
  assumes "reader t" "chunk_wf n ci" "m \<le> n"
  shows "selected m (GetSelVector ci t sel m) = filter (Fetch ci t) [0..<m]
    \<and> fst (GetSelVector ci t sel m) = length (filter (Fetch ci t) [0..<m])"
  using info_class.scan_is_fetch [OF assms] info_class.scan_count [OF assms] by simp

definition example_info :: chunk_vector_info where
  "example_info = (ChunkVectorInfo 0)\<lparr>any_deleted := True,
     deleted := (\<lambda>i. if i = 1 then 5 else NOT_DELETED_ID)\<rparr>"

definition example_reader :: transaction_data where
  "example_reader = \<lparr>td_transaction_id = TRANSACTION_ID_START, td_start_time = 7\<rparr>"

lemma example_info_wf: "cv_wf n example_info"
  by (simp add: example_info_def cv_wf_def any_deleted_wf_def ChunkVectorInfo_def)

lemma example_reader_reads: "reader example_reader"
  by (simp add: example_reader_def reader_def reader_ids_def TRANSACTION_ID_START_def NOT_DELETED_ID_def)

theorem GetSelVector_agrees_with_Fetch_witness:
  "selected 3 (GetSelVector (VECTOR_INFO example_info) example_reader (\<lambda>_. 0) 3) =
     filter (Fetch (VECTOR_INFO example_info) example_reader) [0..<3]
   \<and> fst (GetSelVector (VECTOR_INFO example_info) example_reader (\<lambda>_. 0) 3) =
     length (filter (Fetch (VECTOR_INFO example_info) example_reader) [0..<3])"
  by (rule GetSelVector_agrees_with_Fetch [where n = 3])
    (simp_all add: example_reader_reads example_info_wf)

section \<open>Deleting rows\<close>

lemma fold_upd_const:
  "fold (\<lambda>k d. d(f k := c)) ks d = (\<lambda>r. if r \<in> f ` set ks then c else d r)"
  by (induction ks arbitrary: d) (auto simp: fun_eq_iff)

lemma fold_upd_upt: "fold (\<lambda>i f. f(i := c)) [a..<b] d = (\<lambda>r. if a \<le> r \<and> r < b then c else d r)"
  using fold_upd_const [of id c "[a..<b]" d] by (auto simp: fun_eq_iff)

lemma delete_loop_success:
  assumes "tid \<noteq> NOT_DELETED_ID" and "dt \<le> i"
    and "\<forall>r\<in>set (map rows [i..<n]). del r = tid \<or> del r = NOT_DELETED_ID"
  shows "\<exists>rows' ns. delete_loop tid n i del rows dt =
      ((\<lambda>r. if r \<in> set (map rows [i..<n]) then tid else del r), rows', Inr (dt + length ns))
    \<and> sel_prefix rows' (dt + length ns) = sel_prefix rows dt @ ns \<and> distinct ns
    \<and> set ns = {r \<in> set (map rows [i..<n]). del r = NOT_DELETED_ID}"
  using assms(2,3)
proof (induction "n - i" arbitrary: i del rows dt)
  case 0
  then have "[i..<n] = []" and "\<not> i < n" by simp_all
  then show ?case by (intro exI [of _ rows] exI [of _ "[]"]) (simp add: delete_loop.simps)
next
  case (Suc k)
  then have lt: "i < n" and rows_i: "[i..<n] = i # [Suc i..<n]" by (simp_all add: upt_conv_Cons)
  from Suc.hyps(2) have k: "k = n - Suc i" by simp
  from Suc.prems(1) have dt: "dt \<le> Suc i" "Suc dt \<le> Suc i" by simp_all
  show ?case
  proof (cases "del (rows i) = tid")
    case True
    have "\<forall>r\<in>set (map rows [Suc i..<n]). del r = tid \<or> del r = NOT_DELETED_ID"
      using Suc.prems(2) rows_i by simp
    from Suc.hyps(1) [OF k dt(1) this] obtain rows' ns where
      r: "delete_loop tid n (Suc i) del rows dt =
        ((\<lambda>r. if r \<in> set (map rows [Suc i..<n]) then tid else del r), rows', Inr (dt + length ns))"
      and p: "sel_prefix rows' (dt + length ns) = sel_prefix rows dt @ ns" "distinct ns"
        "set ns = {r \<in> set (map rows [Suc i..<n]). del r = NOT_DELETED_ID}"
      by blast
    have "delete_loop tid n i del rows dt = delete_loop tid n (Suc i) del rows dt"
      using lt True by (subst delete_loop.simps) simp
    with r True rows_i have "delete_loop tid n i del rows dt =
        ((\<lambda>r. if r \<in> set (map rows [i..<n]) then tid else del r), rows', Inr (dt + length ns))"
      by (auto simp: fun_eq_iff)
    moreover have "set ns = {r \<in> set (map rows [i..<n]). del r = NOT_DELETED_ID}"
      using p(3) True rows_i assms(1) by auto
    ultimately show ?thesis using p by blast
  next
    case False
    with Suc.prems(2) rows_i have nd: "del (rows i) = NOT_DELETED_ID" by simp
    let ?del = "del(rows i := tid)" and ?rows = "rows(dt := rows i)"
    have same: "map ?rows [Suc i..<n] = map rows [Suc i..<n]"
      using Suc.prems(1) by simp
    have "\<forall>r\<in>set (map ?rows [Suc i..<n]). ?del r = tid \<or> ?del r = NOT_DELETED_ID"
      unfolding same using Suc.prems(2) rows_i by simp
    from Suc.hyps(1) [OF k dt(2) this] obtain rows' ns where
      r: "delete_loop tid n (Suc i) ?del ?rows (Suc dt) =
        ((\<lambda>r. if r \<in> set (map rows [Suc i..<n]) then tid else ?del r), rows', Inr (Suc dt + length ns))"
      and p: "sel_prefix rows' (Suc dt + length ns) = sel_prefix ?rows (Suc dt) @ ns" "distinct ns"
        "set ns = {r \<in> set (map rows [Suc i..<n]). ?del r = NOT_DELETED_ID}"
      unfolding same by blast
    have "delete_loop tid n i del rows dt = delete_loop tid n (Suc i) ?del ?rows (Suc dt)"
      using lt False nd by (subst delete_loop.simps) simp
    with r rows_i have "delete_loop tid n i del rows dt =
        ((\<lambda>r. if r \<in> set (map rows [i..<n]) then tid else del r), rows', Inr (dt + length (rows i # ns)))"
      by (auto simp: fun_eq_iff)
    moreover have "sel_prefix ?rows (Suc dt) = sel_prefix rows dt @ [rows i]"
      using sel_prefix_set_index [of rows dt "rows i"] by (simp add: set_index_def)
    then have "sel_prefix rows' (dt + length (rows i # ns)) = sel_prefix rows dt @ rows i # ns"
      using p(1) by simp
    moreover have "distinct (rows i # ns)" using p(2,3) assms(1) by auto
    moreover have "set (rows i # ns) = {r \<in> set (map rows [i..<n]). del r = NOT_DELETED_ID}"
      using p(3) nd rows_i assms(1) by auto
    ultimately show ?thesis by blast
  qed
qed

text \<open>
  The loop up to the first conflict: everything marked so far is among the rows already read, and
  each of those is marked by the transaction.
\<close>

definition marked_so_far ::
  "transaction_t \<Rightarrow> (nat \<Rightarrow> transaction_t) \<Rightarrow> nat \<Rightarrow> (nat \<Rightarrow> nat) \<Rightarrow> (nat \<Rightarrow> transaction_t) \<Rightarrow> bool" where
  "marked_so_far tid del0 i rows del \<longleftrightarrow>
     (\<forall>k<i. del (rows k) = tid)
     \<and> (\<forall>r. del r = del0 r \<or> del0 r = NOT_DELETED_ID \<and> del r = tid \<and> r \<in> rows ` {..<i})"

lemma marked_so_far_skip:
  "marked_so_far tid del0 i rows del \<Longrightarrow> del (rows i) = tid \<Longrightarrow> marked_so_far tid del0 (Suc i) rows del"
  by (auto simp: marked_so_far_def less_Suc_eq)

lemma marked_so_far_mark:
  assumes m: "marked_so_far tid del0 i rows del" and nd: "del (rows i) = NOT_DELETED_ID"
    and tid: "tid \<noteq> NOT_DELETED_ID" and dt: "dt \<le> i" and pre: "rows ` {..<i} \<subseteq> rows ` {..<dt} \<union> {r. del0 r = tid}"
  shows "marked_so_far tid del0 (Suc i) (rows(dt := rows i)) (del(rows i := tid))
    \<and> (rows(dt := rows i)) ` {..<Suc i} \<subseteq> (rows(dt := rows i)) ` {..<Suc dt} \<union> {r. del0 r = tid}"
proof -
  let ?rows = "rows(dt := rows i)"
  have upto: "{..<Suc j} = insert j {..<j}" for j by auto
  have same: "?rows ` {..<dt} = rows ` {..<dt}" by (rule image_cong) simp_all
  have img: "?rows ` {..<Suc dt} = insert (rows i) (rows ` {..<dt})"
    unfolding upto image_insert same by simp
  have "?rows ` {..<Suc i} \<subseteq> insert (rows i) (rows ` {..<i})"
    unfolding upto by (rule image_subsetI) auto
  then have "?rows ` {..<Suc i} \<subseteq> insert (rows i) (rows ` {..<dt} \<union> {r. del0 r = tid})"
    using insert_mono [OF pre] by (rule subset_trans)
  then have sub: "?rows ` {..<Suc i} \<subseteq> ?rows ` {..<Suc dt} \<union> {r. del0 r = tid}"
    unfolding img Un_insert_left .
  have mono: "?rows ` {..<Suc dt} \<subseteq> ?rows ` {..<Suc i}" using dt by (intro image_mono) auto
  have new: "r \<in> ?rows ` {..<Suc i}" if "r = rows i \<or> r \<in> rows ` {..<i} \<and> del0 r \<noteq> tid" for r
    using that pre mono unfolding img by blast
  have m1: "\<And>k. k < i \<Longrightarrow> del (rows k) = tid"
    and m2: "\<And>r. del r = del0 r \<or> del0 r = NOT_DELETED_ID \<and> del r = tid \<and> r \<in> rows ` {..<i}"
    using m unfolding marked_so_far_def by blast+
  have "(del(rows i := tid)) (?rows k) = tid" if "k < Suc i" for k
    using m1 that by (cases "k = i") auto
  moreover have "(del(rows i := tid)) r = del0 r
      \<or> del0 r = NOT_DELETED_ID \<and> (del(rows i := tid)) r = tid \<and> r \<in> ?rows ` {..<Suc i}" for r
  proof (cases "r = rows i")
    case True
    then show ?thesis using m2 [of r] nd tid new [of r] by auto
  next
    case False
    then show ?thesis using m2 [of r] tid new [of r] by auto
  qed
  ultimately have "marked_so_far tid del0 (Suc i) ?rows (del(rows i := tid))"
    unfolding marked_so_far_def by blast
  with sub show ?thesis by blast
qed

lemma delete_loop_conflict:
  assumes "tid \<noteq> NOT_DELETED_ID" and "dt \<le> i"
    and "marked_so_far tid del0 i rows del"
    and "rows ` {..<i} \<subseteq> rows ` {..<dt} \<union> {r. del0 r = tid}"
    and "\<exists>r\<in>set (map rows [i..<n]). del r \<noteq> tid \<and> del r \<noteq> NOT_DELETED_ID"
  shows "\<exists>del' rows'. delete_loop tid n i del rows dt = (del', rows', Inl TransactionConflict)
    \<and> (\<forall>r. del' r = del0 r \<or> del0 r = tid \<and> del' r = NOT_DELETED_ID)"
  using assms(2-)
proof (induction "n - i" arbitrary: i del rows dt)
  case 0
  then show ?case by simp
next
  case (Suc k)
  then have lt: "i < n" and rows_i: "[i..<n] = i # [Suc i..<n]" by (simp_all add: upt_conv_Cons)
  from Suc.hyps(2) have k: "k = n - Suc i" by simp
  consider (own) "del (rows i) = tid" | (conflict) "del (rows i) \<noteq> tid" "del (rows i) \<noteq> NOT_DELETED_ID"
    | (mark) "del (rows i) \<noteq> tid" "del (rows i) = NOT_DELETED_ID"
    by blast
  then show ?case
  proof cases
    case own
    have step: "delete_loop tid n i del rows dt = delete_loop tid n (Suc i) del rows dt"
      using lt own by (subst delete_loop.simps) simp
    have "del0 (rows i) = tid \<or> rows i \<in> rows ` {..<i}"
      using Suc.prems(2) own unfolding marked_so_far_def by metis
    then have "rows ` {..<Suc i} \<subseteq> rows ` {..<dt} \<union> {r. del0 r = tid}"
      using Suc.prems(3) unfolding lessThan_Suc by blast
    moreover have "\<exists>r\<in>set (map rows [Suc i..<n]). del r \<noteq> tid \<and> del r \<noteq> NOT_DELETED_ID"
      using Suc.prems(4) own rows_i by auto
    ultimately show ?thesis
      unfolding step using Suc.hyps(1) [OF k _ marked_so_far_skip [OF Suc.prems(2) own]] Suc.prems(1) by simp
  next
    case conflict
    have "delete_loop tid n i del rows dt =
        (fold (\<lambda>k d. d(rows k := NOT_DELETED_ID)) [0..<i] del, rows, Inl TransactionConflict)"
      using lt conflict by (subst delete_loop.simps) simp
    moreover have "(if r \<in> rows ` set [0..<i] then NOT_DELETED_ID else del r) = del0 r
        \<or> del0 r = tid \<and> (if r \<in> rows ` set [0..<i] then NOT_DELETED_ID else del r) = NOT_DELETED_ID" for r
    proof (cases "r \<in> rows ` {..<i}")
      case True
      then have "del r = tid" using Suc.prems(2) unfolding marked_so_far_def by blast
      moreover have "del r = del0 r \<or> del0 r = NOT_DELETED_ID"
        using Suc.prems(2) unfolding marked_so_far_def by blast
      ultimately show ?thesis using True by (auto simp: atLeast0LessThan)
    next
      case False
      then have "del r = del0 r" using Suc.prems(2) unfolding marked_so_far_def by blast
      with False show ?thesis by (auto simp: atLeast0LessThan)
    qed
    ultimately show ?thesis by (simp only: fold_upd_const) blast
  next
    case mark
    have step: "delete_loop tid n i del rows dt =
        delete_loop tid n (Suc i) (del(rows i := tid)) (rows(dt := rows i)) (Suc dt)"
      using lt mark by (subst delete_loop.simps) simp
    note m = marked_so_far_mark [OF Suc.prems(2) mark(2) assms(1) Suc.prems(1,3)]
    have "map (rows(dt := rows i)) [Suc i..<n] = map rows [Suc i..<n]"
      using Suc.prems(1) by simp
    moreover have "\<exists>r\<in>set (map rows [Suc i..<n]). (del(rows i := tid)) r \<noteq> tid
        \<and> (del(rows i := tid)) r \<noteq> NOT_DELETED_ID"
    proof -
      obtain r where "r \<in> set (map rows [i..<n])" "del r \<noteq> tid" "del r \<noteq> NOT_DELETED_ID"
        using Suc.prems(4) by blast
      with mark(2) rows_i show ?thesis by (intro bexI [of _ r]) auto
    qed
    ultimately show ?thesis
      unfolding step using Suc.hyps(1) [OF k _ conjunct1 [OF m] conjunct2 [OF m]] Suc.prems(1) by simp
  qed
qed

lemma vector_delete_success_aux:
  assumes "tid \<noteq> NOT_DELETED_ID"
    and "\<forall>r\<in>set (sel_prefix rows n). deleted ci r = tid \<or> deleted ci r = NOT_DELETED_ID"
  shows "\<exists>rows' k. vector_delete ci tid rows n = (ci\<lparr>any_deleted := True,
        deleted := (\<lambda>r. if r \<in> set (sel_prefix rows n) then tid else deleted ci r)\<rparr>, rows', Inr k)
    \<and> distinct (sel_prefix rows' k)
    \<and> set (sel_prefix rows' k) = {r \<in> set (sel_prefix rows n). deleted ci r = NOT_DELETED_ID}"
proof -
  have rs: "set (map rows [0..<n]) = set (sel_prefix rows n)" by (simp add: sel_prefix_def)
  from delete_loop_success [OF assms(1) le_refl, of rows 0 n "deleted ci"] assms(2) obtain rows' ns where
    "delete_loop tid n 0 (deleted ci) rows 0 =
      ((\<lambda>r. if r \<in> set (sel_prefix rows n) then tid else deleted ci r), rows', Inr (length ns))"
    and "sel_prefix rows' (length ns) = ns" "distinct ns"
      "set ns = {r \<in> set (sel_prefix rows n). deleted ci r = NOT_DELETED_ID}"
    unfolding rs by (auto simp: sel_prefix_0)
  then show ?thesis by (auto simp: vector_delete_def)
qed

text \<open>
  C17: \<open>ChunkVectorInfo::Delete\<close> without a conflict: when every given row is undeleted or was already
  deleted by this transaction, all given rows end up deleted by it, no other row changes, and the
  returned count and the compacted prefix of \<open>rows\<close> list each newly deleted row exactly once.
\<close>
theorem vector_delete_success:
  assumes "tid \<noteq> NOT_DELETED_ID"
    and "\<forall>r\<in>set (sel_prefix rows n). deleted ci r = tid \<or> deleted ci r = NOT_DELETED_ID"
  shows "\<exists>rows' k. vector_delete ci tid rows n = (ci\<lparr>any_deleted := True,
        deleted := (\<lambda>r. if r \<in> set (sel_prefix rows n) then tid else deleted ci r)\<rparr>, rows', Inr k)
    \<and> distinct (sel_prefix rows' k)
    \<and> set (sel_prefix rows' k) = {r \<in> set (sel_prefix rows n). deleted ci r = NOT_DELETED_ID}"
  using assms by (rule vector_delete_success_aux)

lemma vector_delete_conflict_aux:
  assumes "tid \<noteq> NOT_DELETED_ID"
    and "\<exists>r\<in>set (sel_prefix rows n). deleted ci r \<noteq> tid \<and> deleted ci r \<noteq> NOT_DELETED_ID"
  shows "\<exists>ci' rows'. vector_delete ci tid rows n = (ci', rows', Inl TransactionConflict)
    \<and> inserted ci' = inserted ci
    \<and> (\<forall>r. deleted ci' r = deleted ci r \<or> deleted ci r = tid \<and> deleted ci' r = NOT_DELETED_ID)"
  using delete_loop_conflict [OF assms(1), of 0 0 "deleted ci" rows "deleted ci" n] assms(2)
  by (auto simp: vector_delete_def sel_prefix_def marked_so_far_def)

text \<open>
  C30: \<open>ChunkVectorInfo::Delete\<close> with a conflict: when another transaction deleted one of the rows, the
  call throws, no deletion made by another transaction is touched, and no row that was undeleted before
  is left marked (a row the same transaction had deleted in an earlier call may be unmarked).
\<close>
theorem vector_delete_conflict:
  assumes "tid \<noteq> NOT_DELETED_ID"
    and "\<exists>r\<in>set (sel_prefix rows n). deleted ci r \<noteq> tid \<and> deleted ci r \<noteq> NOT_DELETED_ID"
  shows "\<exists>ci' rows'. vector_delete ci tid rows n = (ci', rows', Inl TransactionConflict)
    \<and> inserted ci' = inserted ci
    \<and> (\<forall>r. deleted ci' r = deleted ci r \<or> deleted ci r = tid \<and> deleted ci' r = NOT_DELETED_ID)"
  using assms by (rule vector_delete_conflict_aux)

lemma example_not_tid: "(7::transaction_t) \<noteq> NOT_DELETED_ID"
  by (simp add: NOT_DELETED_ID_def)

theorem vector_delete_success_witness:
  "\<exists>rows' k. vector_delete example_info 7 (\<lambda>i. i + 2) 3 = (example_info\<lparr>any_deleted := True,
        deleted := (\<lambda>r. if r \<in> set (sel_prefix (\<lambda>i. i + 2) 3) then 7 else deleted example_info r)\<rparr>, rows', Inr k)
    \<and> distinct (sel_prefix rows' k)
    \<and> set (sel_prefix rows' k) = {r \<in> set (sel_prefix (\<lambda>i. i + 2) 3). deleted example_info r = NOT_DELETED_ID}"
  by (rule vector_delete_success [OF example_not_tid])
    (simp add: example_info_def ChunkVectorInfo_def sel_prefix_def)

theorem vector_delete_conflict_witness:
  "\<exists>ci' rows'. vector_delete example_info 7 (\<lambda>i. i) 3 = (ci', rows', Inl TransactionConflict)
    \<and> inserted ci' = inserted example_info
    \<and> (\<forall>r. deleted ci' r = deleted example_info r
         \<or> deleted example_info r = 7 \<and> deleted ci' r = NOT_DELETED_ID)"
  by (rule vector_delete_conflict [OF example_not_tid])
    (auto simp: example_info_def ChunkVectorInfo_def sel_prefix_def NOT_DELETED_ID_def intro!: bexI [of _ 1])

section \<open>Operations on versions\<close>

text \<open>What each operation does to the version of row \<open>i\<close>, and that it keeps the flags in step.\<close>

lemma vector_delete_wf: "cv_wf n ci \<Longrightarrow> cv_wf n (fst (vector_delete ci tid rows m))"
  by (auto simp: vector_delete_def cv_wf_def any_deleted_wf_def split: prod.split)

lemma vector_append_inserted:
  "inserted (vector_append ci s e tid) i = (if s \<le> i \<and> i < e then tid else inserted ci i)"
  by (simp add: vector_append_def Let_def fold_upd_upt)

lemma vector_append_deleted [simp]: "deleted (vector_append ci s e tid) = deleted ci"
  "any_deleted (vector_append ci s e tid) = any_deleted ci"
  by (simp_all add: vector_append_def Let_def)

lemma vector_append_wf: "cv_wf n ci \<Longrightarrow> n \<le> e \<Longrightarrow> cv_wf e (vector_append ci n e tid)"
  by (auto simp: cv_wf_def any_deleted_wf_def vector_append_inserted)
    (auto simp: vector_append_def Let_def split: if_splits)

lemma vector_append_same:
  "cv_wf n ci \<Longrightarrow> same_inserted_id (vector_append ci n e tid) \<Longrightarrow> (\<forall>i<n. inserted ci i \<noteq> tid) \<Longrightarrow> n = 0"
  by (cases "n = 0") (auto simp: vector_append_def Let_def cv_wf_def split: if_splits)

lemma vector_commit_append_inserted:
  "inserted (vector_commit_append ci cid s e) i = (if s \<le> i \<and> i < e then cid else inserted ci i)"
  by (simp add: vector_commit_append_def Let_def fold_upd_upt)

lemma vector_commit_append_frame [simp]:
  "deleted (vector_commit_append ci cid s e) = deleted ci"
  "any_deleted (vector_commit_append ci cid s e) = any_deleted ci"
  "same_inserted_id (vector_commit_append ci cid s e) = same_inserted_id ci"
  by (simp_all add: vector_commit_append_def Let_def)

lemma vector_commit_append_wf:
  assumes "cv_wf e ci" "same_inserted_id ci \<longrightarrow> s = 0"
  shows "cv_wf e (vector_commit_append ci cid s e)"
  using assms by (auto simp: cv_wf_def any_deleted_wf_def vector_commit_append_inserted)
    (auto simp: vector_commit_append_def Let_def)

text \<open>
  A transaction that appends rows \<open>n..<e\<close> to a vector holding \<open>n\<close> rows of others and commits them
  under \<open>cid\<close> leaves a vector whose flags are exact, in which precisely these rows carry \<open>cid\<close> as their
  insertion id; every other row keeps its version, and before the commit they carry the transaction id.
\<close>
theorem append_then_commit:
  assumes "cv_wf n ci" and "n \<le> e" and "\<forall>i<n. inserted ci i \<noteq> tid"
  shows "cv_wf e (vector_append ci n e tid)
    \<and> cv_wf e (vector_commit_append (vector_append ci n e tid) cid n e)
    \<and> (\<forall>i. chunk_version (Some (VECTOR_INFO (vector_append ci n e tid))) i =
           (if n \<le> i \<and> i < e then tid else inserted ci i, deleted ci i))
    \<and> (\<forall>i. chunk_version (Some (CommitAppend (VECTOR_INFO (vector_append ci n e tid)) cid n e)) i =
           (if n \<le> i \<and> i < e then cid else inserted ci i, deleted ci i))"
proof -
  have wf: "cv_wf e (vector_append ci n e tid)" by (rule vector_append_wf [OF assms(1,2)])
  moreover have "same_inserted_id (vector_append ci n e tid) \<longrightarrow> n = 0"
    using vector_append_same [OF assms(1)] assms(3) by blast
  ultimately have "cv_wf e (vector_commit_append (vector_append ci n e tid) cid n e)"
    by (rule vector_commit_append_wf)
  with wf show ?thesis by (simp add: vector_append_inserted vector_commit_append_inserted)
qed

theorem append_then_commit_witness:
  "cv_wf 4 (vector_append example_info 2 4 7)
    \<and> cv_wf 4 (vector_commit_append (vector_append example_info 2 4 7) 9 2 4)
    \<and> (\<forall>i. chunk_version (Some (VECTOR_INFO (vector_append example_info 2 4 7))) i =
           (if 2 \<le> i \<and> i < 4 then 7 else inserted example_info i, deleted example_info i))
    \<and> (\<forall>i. chunk_version (Some (CommitAppend (VECTOR_INFO (vector_append example_info 2 4 7)) 9 2 4)) i =
           (if 2 \<le> i \<and> i < 4 then 9 else inserted example_info i, deleted example_info i))"
  by (rule append_then_commit) (simp_all add: example_info_wf, simp add: example_info_def ChunkVectorInfo_def)

text \<open>
  \<open>Cleanup\<close> answers whether the version information can be dropped.  Its loop starts at row 1; rows
  are appended in commit order, so the first row's id is not above the second's.
\<close>

fun append_ordered :: "chunk_info \<Rightarrow> bool" where
  "append_ordered (CONSTANT_INFO ci) = True"
| "append_ordered (VECTOR_INFO ci) = (inserted ci 0 \<le> inserted ci 1)"

lemma reader_sees:
  assumes "reader t" "lowest \<le> td_start_time t" "v \<le> lowest" "v \<noteq> td_start_time t"
  shows "visible_to t (v, NOT_DELETED_ID)"
proof -
  have "v < td_start_time t" using assms(2-4) by (meson order_le_less order_trans)
  moreover have "\<not> sees_id (td_start_time t) (td_transaction_id t) NOT_DELETED_ID"
    using txn_op.reads_undeleted [of "td_start_time t" "td_transaction_id t"] assms(1)
    by (simp add: reader_def TransactionVersionOperator_def)
  ultimately show ?thesis
    by (simp add: visible_to_def UseVersion_def TransactionVersionOperator_def sees_id_def)
qed

lemma vector_cleanup_ids:
  assumes "vector_cleanup ci lowest" "cv_wf STANDARD_VECTOR_SIZE ci" "inserted ci 0 \<le> inserted ci 1"
    and "i < STANDARD_VECTOR_SIZE"
  shows "inserted ci i \<le> lowest \<and> deleted ci i = NOT_DELETED_ID"
proof -
  have nd: "\<not> any_deleted ci" using assms(1) by (auto simp: vector_cleanup_def split: if_splits)
  then have del: "deleted ci i = NOT_DELETED_ID" using assms(2) by (simp add: cv_wf_def any_deleted_wf_def)
  show ?thesis
  proof (cases "same_inserted_id ci")
    case True
    then have "inserted ci i = insert_id ci" using assms(2,4) by (simp add: cv_wf_def)
    then show ?thesis using assms(1) nd True del by (auto simp: vector_cleanup_def split: if_splits)
  next
    case False
    then have all: "\<And>j. 1 \<le> j \<Longrightarrow> j < STANDARD_VECTOR_SIZE \<Longrightarrow> inserted ci j \<le> lowest"
      using assms(1) nd by (auto simp: vector_cleanup_def list_all_iff not_less)
    have "1 < STANDARD_VECTOR_SIZE" by (simp add: STANDARD_VECTOR_SIZE_def)
    then have "inserted ci 0 \<le> lowest" using all [of 1] assms(3) by (meson le_refl order_trans)
    then show ?thesis using all [of i] assms(4) del by (cases "i = 0") auto
  qed
qed

lemma Cleanup_sound_aux:
  assumes "Cleanup ci lowest" and "chunk_wf STANDARD_VECTOR_SIZE ci" and "append_ordered ci"
    and "reader t" and "lowest \<le> td_start_time t"
    and "i < STANDARD_VECTOR_SIZE" and "fst (chunk_version (Some ci) i) \<noteq> td_start_time t"
  shows "Fetch ci t i \<and> visible_to t (chunk_version None i)"
proof -
  have "0 < td_start_time t" using assms(4) by (simp add: reader_def reader_ids_def)
  then have "visible_to t (chunk_version None i)"
    by (simp add: reader_sees [OF assms(4), of 0])
  moreover have "visible_to t (chunk_version (Some ci) i)"
  proof (cases ci)
    case (CONSTANT_INFO c)
    then show ?thesis using assms reader_sees [OF assms(4,5), of "cc_insert_id c"]
      by (auto simp: constant_cleanup_def split: if_splits)
  next
    case (VECTOR_INFO c)
    then show ?thesis using assms vector_cleanup_ids [of c lowest i] reader_sees [OF assms(4,5), of "inserted c i"]
      by auto
  qed
  ultimately show ?thesis by (simp add: info_class.fetch_law)
qed



section \<open>Checkpointing version information\<close>

text \<open>
  \<open>effective_version\<close> is what a scan reads, also for rows that were not appended yet;
  \<open>writable\<close> is what the assertion of \<open>ChunkConstantInfo::Write\<close> demands, with the ids apart from the
  two that the checkpoint uses as its own.
\<close>

fun effective_version :: "chunk_info \<Rightarrow> nat \<Rightarrow> row_version" where
  "effective_version (CONSTANT_INFO ci) i = (cc_insert_id ci, cc_delete_id ci)"
| "effective_version (VECTOR_INFO ci) i = (effective_insert_id ci i, deleted ci i)"

fun writable :: "chunk_info \<Rightarrow> bool" where
  "writable (CONSTANT_INFO ci) \<longleftrightarrow> constant_has_deletes ci
     \<and> cc_insert_id ci \<noteq> INVALID_INDEX \<and> cc_delete_id ci \<noteq> TRANSACTION_ID_START - 1"
| "writable (VECTOR_INFO ci) \<longleftrightarrow> any_deleted_wf ci"

definition checkpoint_visible :: "row_version \<Rightarrow> bool" where
  "checkpoint_visible = visible TransactionVersionOperator (TRANSACTION_ID_START - 1) INVALID_INDEX"

lemma effective_version_wf:
  "chunk_wf n ci \<Longrightarrow> i < n \<Longrightarrow> effective_version ci i = chunk_version (Some ci) i"
  by (cases ci) (auto simp: cv_wf_def effective_insert_id_def)

lemma reader_loaded: "reader t \<Longrightarrow> visible_to t (0, NOT_DELETED_ID)"
  by (rule reader_sees [of t 0]) (auto simp: reader_def reader_ids_def)

lemma reader_dropped: "reader t \<Longrightarrow> \<not> visible_to t (v, 0)"
  by (simp add: reader_def reader_ids_def visible_to_def UseVersion_def TransactionVersionOperator_def
      sees_id_def)

lemma constant_not_checkpointed:
  assumes "writable (CONSTANT_INFO c)"
  shows "\<not> checkpoint_visible (cc_insert_id c, cc_delete_id c)"
proof -
  have below: "v < TRANSACTION_ID_START - 1" if "v < TRANSACTION_ID_START" "v \<noteq> TRANSACTION_ID_START - 1" for v
    using that unfolding TRANSACTION_ID_START_def
    by (simp add: word_less_nat_alt word_unat_eq_iff)
  have above: "\<not> v < TRANSACTION_ID_START - 1" if "TRANSACTION_ID_START \<le> v" for v
    using that unfolding TRANSACTION_ID_START_def
    by (simp add: word_less_nat_alt word_le_nat_alt)
  show ?thesis
    using assms below [of "cc_delete_id c"] above [of "cc_insert_id c"]
    by (auto simp: checkpoint_visible_def visible_def TransactionVersionOperator_def sees_id_def
        constant_has_deletes_def)
qed

lemma checkpoint_sel:
  assumes "any_deleted_wf c"
    and "vector_sel TransactionVersionOperator c (TRANSACTION_ID_START - 1) INVALID_INDEX sel0 n = (k, sel)"
  shows "selected n (k, sel) = filter (\<lambda>i. checkpoint_visible (effective_insert_id c i, deleted c i)) [0..<n]"
proof -
  have "reader_ids (TRANSACTION_ID_START - 1) INVALID_INDEX"
    by (simp add: reader_ids_def TRANSACTION_ID_START_def INVALID_INDEX_def NOT_DELETED_ID_def)
  then show ?thesis
    using txn_op.vector_sel_effective [OF _ assms(1), of "TRANSACTION_ID_START - 1" INVALID_INDEX n sel0] assms(2)
    by (simp add: checkpoint_visible_def)
qed

lemma vector_write_read:
  assumes "any_deleted_wf c"
  shows "\<exists>info. Read (Write (VECTOR_INFO c) @ rest) = Inr (info, rest)
    \<and> (\<forall>ci. info = Some ci \<longrightarrow> chunk_wf STANDARD_VECTOR_SIZE ci)
    \<and> (\<forall>i<STANDARD_VECTOR_SIZE. chunk_version info i =
         (0, if checkpoint_visible (effective_insert_id c i, deleted c i) then NOT_DELETED_ID else 0))"
proof -
  let ?n = STANDARD_VECTOR_SIZE
  let ?vis = "\<lambda>i. checkpoint_visible (effective_insert_id c i, deleted c i)"
  obtain k sel where sel: "vector_sel TransactionVersionOperator c (TRANSACTION_ID_START - 1)
      INVALID_INDEX (\<lambda>_. 0) ?n = (k, sel)" by fastforce
  note rows = checkpoint_sel [OF assms sel]
  have n: "?n \<noteq> 0" by (simp add: STANDARD_VECTOR_SIZE_def)
  consider (all) "k = ?n" | (none) "k = 0" | (some) "k \<noteq> ?n" "k \<noteq> 0" by blast
  then show ?thesis
  proof cases
    case all
    then have "\<forall>i<?n. ?vis i" using rows filter_upt_eq_all [of ?vis ?n] by (simp add: selected_def)
    then show ?thesis using sel all by simp
  next
    case none
    then have "filter ?vis [0..<?n] = []" using rows n by (simp add: selected_def sel_simps)
    then have "\<forall>i<?n. \<not> ?vis i" by (auto simp: filter_empty_conv)
    then show ?thesis using sel none n by (simp add: ChunkConstantInfo_def)
  next
    case some
    have read: "fold (\<lambda>i d. if m i then d(i := 0) else d) xs d = (\<lambda>i. if i \<in> set xs \<and> m i then 0 else d i)"
      for m and xs :: "nat list" and d :: "nat \<Rightarrow> transaction_t"
      by (induction xs arbitrary: d) (auto simp: fun_eq_iff)
    have "sel_prefix sel k = filter ?vis [0..<?n]" using rows some by (simp add: selected_def)
    then have "set (sel_prefix sel k) = set (filter ?vis [0..<?n])" by (rule arg_cong)
    then have img: "i \<in> sel ` {0..<k} \<longleftrightarrow> i < ?n \<and> ?vis i" for i
      by (simp add: sel_prefix_def)
    let ?del = "\<lambda>i. if i < ?n \<and> i \<notin> sel ` {0..<k} then 0 else NOT_DELETED_ID"
    have "Read (Write (VECTOR_INFO c) @ rest) = Inr (Some (VECTOR_INFO
        ((ChunkVectorInfo (cv_start c))\<lparr>any_deleted := True, deleted := ?del\<rparr>)), rest)"
      using sel some by (simp add: fold_upd_const read ChunkVectorInfo_def fun_eq_iff)
    then show ?thesis
      by (intro exI conjI) (assumption, auto simp: ChunkVectorInfo_def cv_wf_def any_deleted_wf_def img)
  qed
qed

lemma Write_Read_aux:
  assumes "writable ci" and "reader t"
  shows "\<exists>info. Read (Write ci @ rest) = Inr (info, rest)
    \<and> (\<forall>i<STANDARD_VECTOR_SIZE. visible_to t (chunk_version info i) = checkpoint_visible (effective_version ci i))"
proof (cases ci)
  case (CONSTANT_INFO c)
  then show ?thesis
    using assms constant_not_checkpointed [of c] reader_dropped [OF assms(2)]
    by (simp add: ChunkConstantInfo_def)
next
  case (VECTOR_INFO c)
  with assms(1) have "any_deleted_wf c" by simp
  from vector_write_read [OF this, of rest] obtain info where
    r: "Read (Write ci @ rest) = Inr (info, rest)"
    and v: "\<And>i. i < STANDARD_VECTOR_SIZE \<Longrightarrow> chunk_version info i =
      (0, if checkpoint_visible (effective_version ci i) then NOT_DELETED_ID else 0)"
    unfolding VECTOR_INFO by (simp only: effective_version.simps) blast
  then show ?thesis using reader_loaded [OF assms(2)] reader_dropped [OF assms(2)] by auto
qed

text \<open>
  A checkpoint round trip: reading back what \<open>Write\<close> wrote consumes exactly those items and gives
  version information under which, for every reader, precisely the rows that were visible at the
  checkpoint's snapshot are visible, whichever of the three formats was chosen.
\<close>
theorem Write_Read:
  assumes "writable ci" and "reader t"
  shows "\<exists>info. Read (Write ci @ rest) = Inr (info, rest)
    \<and> (\<forall>i<STANDARD_VECTOR_SIZE. visible_to t (chunk_version info i) = checkpoint_visible (effective_version ci i))"
  using assms by (rule Write_Read_aux)

theorem Write_Read_witness:
  "\<exists>info. Read (Write (VECTOR_INFO example_info) @ [ItemIdx 4]) = Inr (info, [ItemIdx 4])
    \<and> (\<forall>i<STANDARD_VECTOR_SIZE. visible_to example_reader (chunk_version info i) =
         checkpoint_visible (effective_version (VECTOR_INFO example_info) i))"
  by (rule Write_Read [OF _ example_reader_reads]) (use example_info_wf [of 0] in \<open>simp add: cv_wf_def\<close>)

end
