(* ===== verification/RowVersions.thy ===== *)
theory RowVersions
  imports ChunkInfo
begin

text \<open>
  The row version manager of a row group, \<open>src/storage/table/row_version_manager.cpp\<close>: a vector of
  optional \<open>ChunkInfo\<close>s, one per \<open>STANDARD_VECTOR_SIZE\<close> rows.  Its abstract view is one version per
  row of the row group (\<open>row_version_at\<close>); every operation is shown to be an update of that view.
\<close>

section \<open>State\<close>

text \<open>
  \<open>storage_pointers\<close> stands for the metadata blocks it points to, as the items written there.
\<close>

record row_version_manager =
  rvm_start :: nat
  vector_info :: "chunk_info option list"
  has_changes :: bool
  storage_pointers :: "item list"

definition RowVersionManager :: "nat \<Rightarrow> row_version_manager" where
  "RowVersionManager start = \<lparr>rvm_start = start, vector_info = [], has_changes = False, storage_pointers = []\<rparr>"

section \<open>Operations\<close>

fun set_info_start :: "nat \<Rightarrow> chunk_info \<Rightarrow> chunk_info" where
  "set_info_start s (CONSTANT_INFO ci) = CONSTANT_INFO (ci\<lparr>cc_start := s\<rparr>)"
| "set_info_start s (VECTOR_INFO ci) = VECTOR_INFO (ci\<lparr>cv_start := s\<rparr>)"

fun set_starts :: "nat \<Rightarrow> chunk_info option list \<Rightarrow> chunk_info option list" where
  "set_starts current_start [] = []"
| "set_starts current_start (info # infos) =
     map_option (set_info_start current_start) info # set_starts (current_start + STANDARD_VECTOR_SIZE) infos"

definition SetStart :: "row_version_manager \<Rightarrow> nat \<Rightarrow> row_version_manager" where
  "SetStart m new_start = m\<lparr>rvm_start := new_start, vector_info := set_starts new_start (vector_info m)\<rparr>"

definition GetChunkInfo :: "row_version_manager \<Rightarrow> nat \<Rightarrow> chunk_info option" where
  "GetChunkInfo m vector_idx =
     (if length (vector_info m) \<le> vector_idx then None else vector_info m ! vector_idx)"

text \<open>The loop \<open>for (r = 0, i = 0; r < count; r += STANDARD_VECTOR_SIZE, i++)\<close>.\<close>

function deleted_count_loop :: "row_version_manager \<Rightarrow> nat \<Rightarrow> nat \<Rightarrow> nat \<Rightarrow> nat \<Rightarrow> nat" where
  "deleted_count_loop m cnt r i deleted_count =
     (if r < cnt then
        (case GetChunkInfo m i of
           None \<Rightarrow> deleted_count_loop m cnt (r + STANDARD_VECTOR_SIZE) (Suc i) deleted_count
         | Some info \<Rightarrow>
             let max_count = min STANDARD_VECTOR_SIZE (cnt - r)
             in if max_count = 0 then deleted_count
                else deleted_count_loop m cnt (r + STANDARD_VECTOR_SIZE) (Suc i)
                       (deleted_count + GetCommittedDeletedCount info max_count))
      else deleted_count)"
  by pat_completeness auto
termination
  by (relation "measure (\<lambda>(m, cnt, r, i, d). cnt - r)") (auto simp: STANDARD_VECTOR_SIZE_def)

declare deleted_count_loop.simps [simp del]

definition rvm_GetCommittedDeletedCount :: "row_version_manager \<Rightarrow> nat \<Rightarrow> nat" where
  "rvm_GetCommittedDeletedCount m cnt = deleted_count_loop m cnt 0 0 0"

definition rvm_GetSelVector ::
  "row_version_manager \<Rightarrow> transaction_data \<Rightarrow> nat \<Rightarrow> sel_vector \<Rightarrow> nat \<Rightarrow> nat \<times> sel_vector" where
  "rvm_GetSelVector m t vector_idx sel max_count =
     (case GetChunkInfo m vector_idx of
        None \<Rightarrow> (max_count, sel)
      | Some info \<Rightarrow> GetSelVector info t sel max_count)"

definition rvm_GetCommittedSelVector ::
  "row_version_manager \<Rightarrow> transaction_t \<Rightarrow> transaction_t \<Rightarrow> nat \<Rightarrow> sel_vector \<Rightarrow> nat \<Rightarrow> nat \<times> sel_vector" where
  "rvm_GetCommittedSelVector m start_time transaction_id vector_idx sel max_count =
     (case GetChunkInfo m vector_idx of
        None \<Rightarrow> (max_count, sel)
      | Some info \<Rightarrow> GetCommittedSelVector info start_time transaction_id sel max_count)"

definition rvm_Fetch :: "row_version_manager \<Rightarrow> transaction_data \<Rightarrow> nat \<Rightarrow> bool" where
  "rvm_Fetch m t row =
     (let vector_index = row div STANDARD_VECTOR_SIZE
      in case GetChunkInfo m vector_index of
           None \<Rightarrow> True
         | Some info \<Rightarrow> Fetch info t (row - vector_index * STANDARD_VECTOR_SIZE))"

definition FillVectorInfo :: "nat \<Rightarrow> chunk_info option list \<Rightarrow> chunk_info option list" where
  "FillVectorInfo vector_idx infos =
     (if vector_idx < length infos then infos
      else infos @ replicate (Suc vector_idx - length infos) None)"

text \<open>
  The rows \<open>vector_range rs re v\<close> of vector \<open>v\<close> that the row range \<open>rs..<re\<close> covers, and the loop over
  the vectors of the range; \<open>vector_info[v]\<close> checks the index and dereferencing a null entry throws.
\<close>

definition first_vector :: "nat \<Rightarrow> nat" where
  "first_vector row_group_start = row_group_start div STANDARD_VECTOR_SIZE"

definition last_vector :: "nat \<Rightarrow> nat" where
  "last_vector row_group_end = (row_group_end - 1) div STANDARD_VECTOR_SIZE"

definition touched :: "nat \<Rightarrow> nat \<Rightarrow> nat list" where
  "touched rs re = [first_vector rs..<Suc (last_vector re)]"

definition vector_range :: "nat \<Rightarrow> nat \<Rightarrow> nat \<Rightarrow> nat \<times> nat" where
  "vector_range rs re v =
     (if v = first_vector rs then rs - first_vector rs * STANDARD_VECTOR_SIZE else 0,
      if v = last_vector re then re - last_vector re * STANDARD_VECTOR_SIZE else STANDARD_VECTOR_SIZE)"

fun update_vectors ::
  "(nat \<Rightarrow> chunk_info option \<Rightarrow> version_error + chunk_info option) \<Rightarrow> nat list \<Rightarrow> chunk_info option list \<Rightarrow>
   version_error + chunk_info option list" where
  "update_vectors f [] infos = Inr infos"
| "update_vectors f (v # vs) infos =
     (if length infos \<le> v then Inl InternalError
      else case f v (infos ! v) of
             Inl e \<Rightarrow> Inl e
           | Inr info \<Rightarrow> update_vectors f vs (infos[v := info]))"

definition append_vector ::
  "nat \<Rightarrow> transaction_data \<Rightarrow> nat \<Rightarrow> nat \<Rightarrow> nat \<Rightarrow> chunk_info option \<Rightarrow> version_error + chunk_info option" where
  "append_vector start t rs re v info =
     (let (vector_start, vector_end) = vector_range rs re v
      in if vector_start = 0 \<and> vector_end = STANDARD_VECTOR_SIZE
         then Inr (Some (CONSTANT_INFO ((ChunkConstantInfo (start + v * STANDARD_VECTOR_SIZE))
                \<lparr>cc_insert_id := td_transaction_id t, cc_delete_id := NOT_DELETED_ID\<rparr>)))
         else case info of
                None \<Rightarrow> Inr (Some (VECTOR_INFO (vector_append (ChunkVectorInfo (start + v * STANDARD_VECTOR_SIZE))
                         vector_start vector_end (td_transaction_id t))))
              | Some (VECTOR_INFO ci) \<Rightarrow>
                  Inr (Some (VECTOR_INFO (vector_append ci vector_start vector_end (td_transaction_id t))))
              | Some (CONSTANT_INFO ci) \<Rightarrow> Inl InternalError)"

definition AppendVersionInfo ::
  "row_version_manager \<Rightarrow> transaction_data \<Rightarrow> nat \<Rightarrow> nat \<Rightarrow> version_error + row_version_manager" where
  "AppendVersionInfo m t row_group_start row_group_end =
     (case update_vectors (append_vector (rvm_start m) t row_group_start row_group_end)
             (touched row_group_start row_group_end)
             (FillVectorInfo (last_vector row_group_end) (vector_info m)) of
        Inl e \<Rightarrow> Inl e
      | Inr infos \<Rightarrow> Inr (m\<lparr>has_changes := True, vector_info := infos\<rparr>))"

definition commit_vector ::
  "transaction_t \<Rightarrow> nat \<Rightarrow> nat \<Rightarrow> nat \<Rightarrow> chunk_info option \<Rightarrow> version_error + chunk_info option" where
  "commit_vector commit_id rs re v info =
     (let (vstart, vend) = vector_range rs re v
      in case info of
           None \<Rightarrow> Inl NullDereference
         | Some ci \<Rightarrow> Inr (Some (CommitAppend ci commit_id vstart vend)))"

definition rvm_CommitAppend ::
  "row_version_manager \<Rightarrow> transaction_t \<Rightarrow> nat \<Rightarrow> nat \<Rightarrow> version_error + row_version_manager" where
  "rvm_CommitAppend m commit_id row_group_start cnt =
     (if cnt = 0 then Inr m
      else let row_group_end = row_group_start + cnt
           in case update_vectors (commit_vector commit_id row_group_start row_group_end)
                     (touched row_group_start row_group_end) (vector_info m) of
                Inl e \<Rightarrow> Inl e
              | Inr infos \<Rightarrow> Inr (m\<lparr>vector_info := infos\<rparr>))"

definition cleanup_vector ::
  "transaction_t \<Rightarrow> nat \<Rightarrow> nat \<Rightarrow> chunk_info option list \<Rightarrow> chunk_info option list" where
  "cleanup_vector lowest re v infos =
     (let vcount = (if v = last_vector re then re - last_vector re * STANDARD_VECTOR_SIZE else STANDARD_VECTOR_SIZE)
      in if vcount \<noteq> STANDARD_VECTOR_SIZE then infos
         else if length infos \<le> v then infos
         else case infos ! v of
                None \<Rightarrow> infos
              | Some info \<Rightarrow> if Cleanup info lowest then infos[v := None] else infos)"

definition CleanupAppend :: "row_version_manager \<Rightarrow> transaction_t \<Rightarrow> nat \<Rightarrow> nat \<Rightarrow> row_version_manager" where
  "CleanupAppend m lowest row_group_start cnt =
     (if cnt = 0 then m
      else let row_group_end = row_group_start + cnt
           in m\<lparr>vector_info := fold (cleanup_vector lowest row_group_end)
                  (touched row_group_start row_group_end) (vector_info m)\<rparr>)"

definition RevertAppend :: "row_version_manager \<Rightarrow> nat \<Rightarrow> row_version_manager" where
  "RevertAppend m start_row =
     (let start_vector_idx = (start_row + (STANDARD_VECTOR_SIZE - 1)) div STANDARD_VECTOR_SIZE
      in m\<lparr>vector_info := fold (\<lambda>v infos. infos[v := None])
             [start_vector_idx..<length (vector_info m)] (vector_info m)\<rparr>)"

text \<open>
  \<open>GetVectorInfo\<close> returns the info it finds or creates at the index; the callers replace it there.
\<close>

definition GetVectorInfo :: "row_version_manager \<Rightarrow> nat \<Rightarrow> row_version_manager \<times> chunk_vector_info" where
  "GetVectorInfo m vector_idx =
     (let infos = FillVectorInfo vector_idx (vector_info m);
          fresh = ChunkVectorInfo (rvm_start m + vector_idx * STANDARD_VECTOR_SIZE);
          info = (case infos ! vector_idx of
                    None \<Rightarrow> fresh
                  | Some (CONSTANT_INFO c) \<Rightarrow>
                      fresh\<lparr>insert_id := cc_insert_id c,
                        inserted := fold (\<lambda>i f. f(i := cc_insert_id c)) [0..<STANDARD_VECTOR_SIZE] (inserted fresh)\<rparr>
                  | Some (VECTOR_INFO ci) \<Rightarrow> ci)
      in (m\<lparr>vector_info := infos[vector_idx := Some (VECTOR_INFO info)]\<rparr>, info))"

definition put_info :: "row_version_manager \<Rightarrow> nat \<Rightarrow> chunk_vector_info \<Rightarrow> row_version_manager" where
  "put_info m vector_idx info = m\<lparr>vector_info := (vector_info m)[vector_idx := Some (VECTOR_INFO info)]\<rparr>"

definition DeleteRows ::
  "row_version_manager \<Rightarrow> nat \<Rightarrow> transaction_t \<Rightarrow> (nat \<Rightarrow> nat) \<Rightarrow> nat \<Rightarrow>
   row_version_manager \<times> (nat \<Rightarrow> nat) \<times> (version_error + nat)" where
  "DeleteRows m vector_idx transaction_id rows cnt =
     (let (m1, info) = GetVectorInfo (m\<lparr>has_changes := True\<rparr>) vector_idx;
          (info', rows', r) = vector_delete info transaction_id rows cnt
      in (put_info m1 vector_idx info', rows', r))"

definition rvm_CommitDelete :: "row_version_manager \<Rightarrow> nat \<Rightarrow> transaction_t \<Rightarrow> delete_info \<Rightarrow> row_version_manager" where
  "rvm_CommitDelete m vector_idx commit_id info =
     (let (m1, vinfo) = GetVectorInfo (m\<lparr>has_changes := True\<rparr>) vector_idx
      in put_info m1 vector_idx (vector_commit_delete vinfo commit_id info))"

section \<open>Checkpoint and load\<close>

definition to_serialize :: "chunk_info option list \<Rightarrow> (nat \<times> chunk_info) list" where
  "to_serialize infos =
     concat (map (\<lambda>v. case infos ! v of
                        None \<Rightarrow> []
                      | Some info \<Rightarrow> if HasDeletes info then [(v, info)] else []) [0..<length infos])"

definition rvm_Checkpoint :: "row_version_manager \<Rightarrow> row_version_manager \<times> item list" where
  "rvm_Checkpoint m =
     (if \<not> has_changes m \<and> storage_pointers m \<noteq> [] then (m, storage_pointers m)
      else let ser = to_serialize (vector_info m)
           in if ser = [] then (m, [])
              else let blocks = ItemIdx (length ser) #
                         concat (map (\<lambda>(v, info). ItemIdx v # Write info) ser)
                   in (m\<lparr>storage_pointers := blocks, has_changes := False\<rparr>, blocks))"

definition MAX_ROW_GROUP_SIZE :: nat where "MAX_ROW_GROUP_SIZE = 2 ^ 30"

fun read_infos :: "nat \<Rightarrow> item list \<Rightarrow> chunk_info option list \<Rightarrow> version_error + chunk_info option list" where
  "read_infos 0 source infos = Inr infos"
| "read_infos (Suc n) (ItemIdx v # source) infos =
     (if MAX_ROW_GROUP_SIZE \<le> v * STANDARD_VECTOR_SIZE then Inl SerializationError
      else case Read source of
             Inl e \<Rightarrow> Inl e
           | Inr (info, source') \<Rightarrow> read_infos n source' ((FillVectorInfo v infos)[v := info]))"
| "read_infos (Suc n) _ infos = Inl SerializationError"

text \<open>An invalid pointer, the empty item list, gives no manager.\<close>

definition Deserialize :: "item list \<Rightarrow> nat \<Rightarrow> version_error + row_version_manager option" where
  "Deserialize delete_pointer start =
     (case delete_pointer of
        [] \<Rightarrow> Inr None
      | ItemIdx chunk_count # source \<Rightarrow>
          (case read_infos chunk_count source [] of
             Inl e \<Rightarrow> Inl e
           | Inr infos \<Rightarrow> Inr (Some ((RowVersionManager start)
               \<lparr>vector_info := infos, storage_pointers := delete_pointer, has_changes := False\<rparr>)))
      | _ \<Rightarrow> Inl SerializationError)"

section \<open>The abstract view\<close>

definition info_at :: "chunk_info option list \<Rightarrow> nat \<Rightarrow> chunk_info option" where
  "info_at infos v = (if length infos \<le> v then None else infos ! v)"

definition version_in :: "chunk_info option list \<Rightarrow> nat \<Rightarrow> row_version" where
  "version_in infos row =
     chunk_version (info_at infos (row div STANDARD_VECTOR_SIZE)) (row mod STANDARD_VECTOR_SIZE)"

definition row_version_at :: "row_version_manager \<Rightarrow> nat \<Rightarrow> row_version" where
  "row_version_at m = version_in (vector_info m)"

lemma version_in_vector:
  "i < STANDARD_VECTOR_SIZE \<Longrightarrow> version_in infos (v * STANDARD_VECTOR_SIZE + i) = chunk_version (info_at infos v) i"
  by (simp add: version_in_def)

text \<open>
  \<open>rvm_wf n m\<close>: the flags of every vector are exact for its share of the row group's \<open>n\<close> rows, and
  only a vector all of whose rows were appended has a constant info.
\<close>

definition vector_rows :: "nat \<Rightarrow> nat \<Rightarrow> nat" where
  "vector_rows n v = min STANDARD_VECTOR_SIZE (n - v * STANDARD_VECTOR_SIZE)"

fun info_wf :: "nat \<Rightarrow> nat \<Rightarrow> chunk_info option \<Rightarrow> bool" where
  "info_wf n v None = True"
| "info_wf n v (Some (CONSTANT_INFO c)) = (Suc v * STANDARD_VECTOR_SIZE \<le> n)"
| "info_wf n v (Some (VECTOR_INFO c)) = cv_wf (vector_rows n v) c"

definition rvm_wf :: "nat \<Rightarrow> row_version_manager \<Rightarrow> bool" where
  "rvm_wf n m \<longleftrightarrow> (\<forall>v. info_wf n v (info_at (vector_info m) v))"

lemma GetChunkInfo_info_at: "GetChunkInfo m v = info_at (vector_info m) v"
  by (simp add: GetChunkInfo_def info_at_def)

lemma info_at_Fill [simp]: "info_at (FillVectorInfo k infos) v = info_at infos v"
  by (auto simp: FillVectorInfo_def info_at_def nth_append)

lemma length_Fill: "k < length (FillVectorInfo k infos)"
  by (simp add: FillVectorInfo_def)

lemma info_at_upd: "v < length infos \<Longrightarrow> info_at (infos[v := x]) w = (if w = v then x else info_at infos w)"
  by (simp add: info_at_def nth_list_update)

lemma info_wf_chunk_wf: "info_wf n v (Some ci) \<Longrightarrow> chunk_wf (vector_rows n v) ci"
  by (cases ci) simp_all

text \<open>The loop over vectors updates each entry of the range on its own.\<close>

lemma update_vectors_ok:
  assumes "\<And>v. v \<in> set vs \<Longrightarrow> v < length infos \<and> f v (info_at infos v) = Inr (g v (info_at infos v))"
    and "distinct vs"
  shows "\<exists>infos'. update_vectors f vs infos = Inr infos'
    \<and> (\<forall>v. info_at infos' v = (if v \<in> set vs then g v (info_at infos v) else info_at infos v))"
  using assms
proof (induction vs arbitrary: infos)
  case (Cons v vs)
  let ?i = "infos[v := g v (info_at infos v)]"
  have v: "v < length infos" "f v (infos ! v) = Inr (g v (info_at infos v))"
    using Cons.prems(1) [of v] by (auto simp: info_at_def)
  have step: "update_vectors f (v # vs) infos = update_vectors f vs ?i" using v by simp
  have "\<exists>infos'. update_vectors f vs ?i = Inr infos'
    \<and> (\<forall>w. info_at infos' w = (if w \<in> set vs then g w (info_at ?i w) else info_at ?i w))"
    using Cons.prems v(1) by (intro Cons.IH) (auto simp: info_at_upd)
  then show ?case unfolding step using Cons.prems(2) v(1) by (auto simp: info_at_upd)
qed simp

text \<open>The vectors of a row range, and the rows of each.\<close>

lemma set_touched [simp]: "v \<in> set (touched rs re) \<longleftrightarrow> first_vector rs \<le> v \<and> v \<le> last_vector re"
  by (auto simp: touched_def)

lemma distinct_touched [simp]: "distinct (touched rs re)"
  by (simp add: touched_def)

lemma first_vector_bounds:
  "first_vector rs * STANDARD_VECTOR_SIZE \<le> rs" "rs < first_vector rs * STANDARD_VECTOR_SIZE + STANDARD_VECTOR_SIZE"
  by (simp_all add: first_vector_def STANDARD_VECTOR_SIZE_def)

lemma last_vector_bounds:
  assumes "0 < re"
  shows "last_vector re * STANDARD_VECTOR_SIZE < re" "re \<le> last_vector re * STANDARD_VECTOR_SIZE + STANDARD_VECTOR_SIZE"
  using assms by (simp_all add: last_vector_def STANDARD_VECTOR_SIZE_def)

lemma rows_of_range:
  assumes "rs < re" "vector_range rs re v = (s, e)" "i < STANDARD_VECTOR_SIZE"
  shows "(first_vector rs \<le> v \<and> v \<le> last_vector re \<and> s \<le> i \<and> i < e)
    \<longleftrightarrow> (rs \<le> v * STANDARD_VECTOR_SIZE + i \<and> v * STANDARD_VECTOR_SIZE + i < re)"
proof -
  define f l where "f = first_vector rs" and "l = last_vector re"
  have f: "f * 2048 \<le> rs" "rs < f * 2048 + 2048" and l: "l * 2048 < re" "re \<le> l * 2048 + 2048"
    using first_vector_bounds [of rs] last_vector_bounds [of re] assms(1)
    unfolding f_def l_def STANDARD_VECTOR_SIZE_def by simp_all
  have se: "s = (if v = f then rs - f * 2048 else 0)" "e = (if v = l then re - l * 2048 else 2048)"
    using assms(2) unfolding vector_range_def f_def l_def STANDARD_VECTOR_SIZE_def by simp_all
  have i: "i < 2048" using assms(3) by (simp add: STANDARD_VECTOR_SIZE_def)
  show ?thesis
    unfolding f_def [symmetric] l_def [symmetric] STANDARD_VECTOR_SIZE_def se
    using f l i by (cases v f rule: linorder_cases; cases v l rule: linorder_cases) (simp; linarith)+
qed

lemma range_bounds:
  assumes "rs < re" "vector_range rs re v = (s, e)" "first_vector rs \<le> v" "v \<le> last_vector re"
  shows "s = vector_rows rs v \<and> e = vector_rows re v \<and> s < e \<and> e \<le> STANDARD_VECTOR_SIZE
    \<and> v * STANDARD_VECTOR_SIZE + e \<le> re \<and> rs < Suc v * STANDARD_VECTOR_SIZE"
proof -
  define f l where "f = first_vector rs" and "l = last_vector re"
  have f: "f * 2048 \<le> rs" "rs < f * 2048 + 2048" and l: "l * 2048 < re" "re \<le> l * 2048 + 2048"
    using first_vector_bounds [of rs] last_vector_bounds [of re] assms(1)
    unfolding f_def l_def STANDARD_VECTOR_SIZE_def by simp_all
  have se: "s = (if v = f then rs - f * 2048 else 0)" "e = (if v = l then re - l * 2048 else 2048)"
    using assms(2) unfolding vector_range_def f_def l_def STANDARD_VECTOR_SIZE_def by simp_all
  have v: "f \<le> v" "v \<le> l" using assms(3,4) unfolding f_def l_def .
  show ?thesis
    unfolding vector_rows_def STANDARD_VECTOR_SIZE_def se
    using f l v assms(1) by (cases "v = f"; cases "v = l") (simp; linarith)+
qed

lemma outside_range:
  assumes "rs < re" "\<not> (first_vector rs \<le> v \<and> v \<le> last_vector re)"
  shows "vector_rows rs v = vector_rows re v"
proof -
  define f l where "f = first_vector rs" and "l = last_vector re"
  have f: "f * 2048 \<le> rs" "rs < f * 2048 + 2048" and l: "l * 2048 < re" "re \<le> l * 2048 + 2048"
    using first_vector_bounds [of rs] last_vector_bounds [of re] assms(1)
    unfolding f_def l_def STANDARD_VECTOR_SIZE_def by simp_all
  have "v < f \<or> l < v" using assms(2) unfolding f_def l_def by linarith
  then show ?thesis
    unfolding vector_rows_def STANDARD_VECTOR_SIZE_def
  proof
    assume "v < f"
    then have "Suc v * 2048 \<le> f * 2048" by (intro mult_right_mono) simp_all
    then show "min 2048 (rs - v * 2048) = min 2048 (re - v * 2048)" using f assms(1) by simp
  next
    assume "l < v"
    then have "Suc l * 2048 \<le> v * 2048" by (intro mult_right_mono) simp_all
    then show "min 2048 (rs - v * 2048) = min 2048 (re - v * 2048)" using l assms(1) by simp
  qed
qed

text \<open>Rows are addressed by their vector and their position in it.\<close>

lemma row_split: "row = row div STANDARD_VECTOR_SIZE * STANDARD_VECTOR_SIZE + row mod STANDARD_VECTOR_SIZE"
  by simp

lemma row_pos: "row mod STANDARD_VECTOR_SIZE < STANDARD_VECTOR_SIZE"
  by (simp add: STANDARD_VECTOR_SIZE_def)

lemma in_range_iff:
  assumes "rs < re" "vector_range rs re (row div STANDARD_VECTOR_SIZE) = (s, e)"
  shows "(row div STANDARD_VECTOR_SIZE \<in> set (touched rs re)
      \<and> s \<le> row mod STANDARD_VECTOR_SIZE \<and> row mod STANDARD_VECTOR_SIZE < e) \<longleftrightarrow> (rs \<le> row \<and> row < re)"
  using rows_of_range [OF assms row_pos, of row] by simp

text \<open>A range of vectors updated by \<open>g\<close>, where \<open>g\<close> writes the rows of the range and keeps the others.\<close>

lemma updated_versions:
  assumes "rs < re"
    and "\<And>v. info_at infos' v = (if v \<in> set (touched rs re)
           then g v (info_at infos v) else info_at infos v)"
    and "\<And>v s e i. v \<in> set (touched rs re) \<Longrightarrow> vector_range rs re v = (s, e) \<Longrightarrow>
           i < STANDARD_VECTOR_SIZE \<Longrightarrow> chunk_version (g v (info_at infos v)) i =
             (if s \<le> i \<and> i < e then upd (chunk_version (info_at infos v) i) else chunk_version (info_at infos v) i)"
  shows "version_in infos' row = (if rs \<le> row \<and> row < re then upd (version_in infos row) else version_in infos row)"
proof -
  obtain s e where r: "vector_range rs re (row div STANDARD_VECTOR_SIZE) = (s, e)" by fastforce
  note in_range_iff [OF assms(1) r]
  then show ?thesis unfolding version_in_def using assms(2) assms(3) [OF _ r row_pos] by auto
qed

lemma info_wf_mono:
  assumes "info_wf n v info" "n \<le> k" "vector_rows n v = vector_rows k v"
  shows "info_wf k v info"
  using assms by (cases "(n, v, info)" rule: info_wf.cases) auto

subsection \<open>Appending\<close>

text \<open>What an append makes of the info of a vector in its range.\<close>

definition appended :: "nat \<Rightarrow> transaction_t \<Rightarrow> nat \<Rightarrow> nat \<Rightarrow> nat \<Rightarrow> chunk_info option \<Rightarrow> chunk_info option" where
  "appended start tid rs re v info =
     (let (s, e) = vector_range rs re v
      in if s = 0 \<and> e = STANDARD_VECTOR_SIZE
         then Some (CONSTANT_INFO \<lparr>cc_start = start + v * STANDARD_VECTOR_SIZE, cc_insert_id = tid,
                      cc_delete_id = NOT_DELETED_ID\<rparr>)
         else Some (VECTOR_INFO (vector_append (case info of Some (VECTOR_INFO ci) \<Rightarrow> ci
                      | _ \<Rightarrow> ChunkVectorInfo (start + v * STANDARD_VECTOR_SIZE)) s e tid)))"

lemma range_not_constant:
  assumes "rs < re" "v \<in> set (touched rs re)" "info_wf rs v info"
  shows "\<not> (\<exists>c. info = Some (CONSTANT_INFO c))"
proof
  obtain s e where r: "vector_range rs re v = (s, e)" by fastforce
  assume "\<exists>c. info = Some (CONSTANT_INFO c)"
  then have "Suc v * STANDARD_VECTOR_SIZE \<le> rs" using assms(3) by auto
  moreover have "rs < Suc v * STANDARD_VECTOR_SIZE"
    using range_bounds [OF assms(1) r] assms(2) by auto
  ultimately show False by simp
qed

lemma append_vector_appended:
  assumes "rs < re" "v \<in> set (touched rs re)" "info_wf rs v info"
  shows "append_vector start t rs re v info = Inr (appended start (td_transaction_id t) rs re v info)"
  using range_not_constant [OF assms]
  by (auto simp: append_vector_def appended_def ChunkConstantInfo_def split: option.split chunk_info.split prod.split)

lemma appended_wf:
  assumes "rs < re" "v \<in> set (touched rs re)" "info_wf rs v info"
  shows "info_wf re v (appended start tid rs re v info)"
proof -
  obtain s e where r: "vector_range rs re v = (s, e)" by fastforce
  have b: "s = vector_rows rs v" "e = vector_rows re v" "s < e" "v * STANDARD_VECTOR_SIZE + e \<le> re"
    using range_bounds [OF assms(1) r] assms(2) by auto
  have fresh: "cv_wf s (ChunkVectorInfo k)" for k
    by (simp add: ChunkVectorInfo_def cv_wf_def any_deleted_wf_def)
  have "cv_wf s (case info of Some (VECTOR_INFO ci) \<Rightarrow> ci | _ \<Rightarrow> ChunkVectorInfo k)" for k
    using assms(3) fresh b(1) by (auto split: option.split chunk_info.split)
  then have "cv_wf e (vector_append (case info of Some (VECTOR_INFO ci) \<Rightarrow> ci | _ \<Rightarrow> ChunkVectorInfo k) s e tid)" for k
    using vector_append_wf b(3) by (meson less_imp_le)
  then show ?thesis using b(2,4) by (auto simp: appended_def r)
qed

lemma appended_version:
  assumes "rs < re" "v \<in> set (touched rs re)" "info_wf rs v info"
    and "vector_range rs re v = (s, e)" "i < STANDARD_VECTOR_SIZE"
    and "s \<le> i \<Longrightarrow> i < e \<Longrightarrow> snd (chunk_version info i) = NOT_DELETED_ID"
  shows "chunk_version (appended start tid rs re v info) i =
    (if s \<le> i \<and> i < e then (tid, NOT_DELETED_ID) else chunk_version info i)"
  using range_not_constant [OF assms(1-3)] assms(4-6)
  by (auto simp: appended_def vector_append_inserted ChunkVectorInfo_def split: option.split chunk_info.split)

lemma AppendVersionInfo_ok:
  assumes "rvm_wf rs m" "rs < re"
    and undeleted: "\<forall>row\<ge>rs. snd (row_version_at m row) = NOT_DELETED_ID"
  shows "\<exists>m'. AppendVersionInfo m t rs re = Inr m' \<and> rvm_wf re m'
    \<and> (\<forall>row. row_version_at m' row =
         (if rs \<le> row \<and> row < re then (td_transaction_id t, NOT_DELETED_ID) else row_version_at m row))
    \<and> (\<forall>v. info_at (vector_info m') v = (if v \<in> set (touched rs re)
         then appended (rvm_start m) (td_transaction_id t) rs re v (info_at (vector_info m) v)
         else info_at (vector_info m) v))"
proof -
  let ?vs = "(touched rs re)" and ?S = STANDARD_VECTOR_SIZE
  let ?g = "appended (rvm_start m) (td_transaction_id t) rs re"
  have wf: "info_wf rs v (info_at (vector_info m) v)" for v using assms(1) by (simp add: rvm_wf_def)
  let ?fill = "FillVectorInfo (last_vector re) (vector_info m)"
  have "v < length ?fill" if "v \<in> set ?vs" for v
    using that length_Fill [of "last_vector re" "vector_info m"] by auto
  then have "\<exists>infos'. update_vectors (append_vector (rvm_start m) t rs re) ?vs ?fill = Inr infos'
      \<and> (\<forall>v. info_at infos' v = (if v \<in> set ?vs then ?g v (info_at ?fill v) else info_at ?fill v))"
    by (intro update_vectors_ok conjI distinct_touched)
      (simp_all only: append_vector_appended [OF assms(2) _ wf] info_at_Fill)
  then obtain infos where u: "update_vectors (append_vector (rvm_start m) t rs re) ?vs ?fill = Inr infos"
    and at: "\<And>v. info_at infos v = (if v \<in> set ?vs then ?g v (info_at (vector_info m) v)
          else info_at (vector_info m) v)"
    by (auto simp only: info_at_Fill)
  let ?m = "m\<lparr>has_changes := True, vector_info := infos\<rparr>"
  have "info_wf re v (info_at infos v)" for v
  proof (cases "v \<in> set ?vs")
    case True
    then show ?thesis using at appended_wf [OF assms(2) True wf] by simp
  next
    case False
    then have "vector_rows rs v = vector_rows re v"
      by (intro outside_range [OF assms(2)]) simp
    then have "info_wf re v (info_at (vector_info m) v)"
      using info_wf_mono [OF wf] assms(2) by simp
    moreover have "info_at infos v = info_at (vector_info m) v" using at False by (simp only: if_False)
    ultimately show ?thesis by simp
  qed
  then have "rvm_wf re ?m" by (simp add: rvm_wf_def)
  moreover have "version_in infos row = (if rs \<le> row \<and> row < re then (td_transaction_id t, NOT_DELETED_ID)
      else version_in (vector_info m) row)" for row
  proof (rule updated_versions [OF assms(2), where g = ?g and upd = "\<lambda>_. (td_transaction_id t, NOT_DELETED_ID)", OF at])
    fix v s e i
    assume v: "v \<in> set ?vs" and r: "vector_range rs re v = (s, e)" and i: "i < ?S"
    show "chunk_version (?g v (info_at (vector_info m) v)) i = (if s \<le> i \<and> i < e
        then (td_transaction_id t, NOT_DELETED_ID) else chunk_version (info_at (vector_info m) v) i)"
    proof (rule appended_version [OF assms(2) v wf r i])
      assume "s \<le> i" "i < e"
      then have "rs \<le> v * ?S + i" using rows_of_range [OF assms(2) r i] v by simp
      then have "snd (row_version_at m (v * ?S + i)) = NOT_DELETED_ID" using undeleted by blast
      then show "snd (chunk_version (info_at (vector_info m) v) i) = NOT_DELETED_ID"
        using i by (simp add: row_version_at_def version_in_vector)
    qed
  qed
  ultimately show ?thesis
    using u at by (intro exI [of _ ?m]) (simp add: AppendVersionInfo_def row_version_at_def)
qed

subsection \<open>Committing an append\<close>

definition committed :: "transaction_t \<Rightarrow> nat \<Rightarrow> nat \<Rightarrow> nat \<Rightarrow> chunk_info option \<Rightarrow> chunk_info option" where
  "committed cid rs re v info =
     (let (s, e) = vector_range rs re v in map_option (\<lambda>ci. CommitAppend ci cid s e) info)"

text \<open>
  The vectors of a committed append exist, a constant one is covered entirely, and the summary id of a
  vector info is kept only when the append covers the vector from its first row.
\<close>

fun commit_ready :: "nat \<Rightarrow> nat \<Rightarrow> nat \<Rightarrow> chunk_info option \<Rightarrow> bool" where
  "commit_ready rs re v None = False"
| "commit_ready rs re v (Some (CONSTANT_INFO c)) = (vector_range rs re v = (0, STANDARD_VECTOR_SIZE))"
| "commit_ready rs re v (Some (VECTOR_INFO c)) = (same_inserted_id c \<longrightarrow> fst (vector_range rs re v) = 0)"

lemma commit_ready_vector: "commit_ready rs re v info \<Longrightarrow>
    commit_vector cid rs re v info = Inr (committed cid rs re v info)"
  by (cases info) (auto simp: commit_vector_def committed_def split: prod.split)

lemma committed_wf:
  assumes "rs < re" "v \<in> set (touched rs re)" "info_wf re v info" "commit_ready rs re v info"
  shows "info_wf re v (committed cid rs re v info)"
proof -
  obtain s e where r: "vector_range rs re v = (s, e)" by fastforce
  have "e = vector_rows re v" using range_bounds [OF assms(1) r] assms(2) by simp
  then show ?thesis
    using assms(3,4) vector_commit_append_wf
    by (cases "(rs, re, v, info)" rule: commit_ready.cases) (auto simp: committed_def r)
qed

lemma committed_version:
  assumes "commit_ready rs re v info" "vector_range rs re v = (s, e)" "i < STANDARD_VECTOR_SIZE"
  shows "chunk_version (committed cid rs re v info) i =
    (if s \<le> i \<and> i < e then (cid, snd (chunk_version info i)) else chunk_version info i)"
  using assms by (cases "(rs, re, v, info)" rule: commit_ready.cases)
    (auto simp: committed_def constant_commit_append_def vector_commit_append_inserted)

lemma info_at_length: "info_at infos v = Some ci \<Longrightarrow> v < length infos"
  by (simp add: info_at_def split: if_splits)

lemma commit_ready_length: "commit_ready rs re v (info_at infos v) \<Longrightarrow> v < length infos"
  by (cases "info_at infos v") (auto dest: info_at_length)

lemma CommitAppend_ok:
  assumes "rvm_wf re m" "rs < re"
    and ready: "\<And>v. v \<in> set (touched rs re) \<Longrightarrow> commit_ready rs re v (info_at (vector_info m) v)"
  shows "\<exists>m'. rvm_CommitAppend m cid rs (re - rs) = Inr m' \<and> rvm_wf re m'
    \<and> (\<forall>row. row_version_at m' row =
         (if rs \<le> row \<and> row < re then (cid, snd (row_version_at m row)) else row_version_at m row))"
proof -
  let ?g = "committed cid rs re" and ?vs = "touched rs re" and ?infos = "vector_info m"
  have "\<exists>infos'. update_vectors (commit_vector cid rs re) ?vs ?infos = Inr infos'
      \<and> (\<forall>v. info_at infos' v = (if v \<in> set ?vs then ?g v (info_at ?infos v) else info_at ?infos v))"
    by (intro update_vectors_ok conjI distinct_touched)
      (simp_all only: commit_ready_vector [OF ready] commit_ready_length [OF ready])
  then obtain infos where u: "update_vectors (commit_vector cid rs re) ?vs ?infos = Inr infos"
    and at: "\<And>v. info_at infos v = (if v \<in> set ?vs then ?g v (info_at ?infos v) else info_at ?infos v)"
    by blast
  let ?m = "m\<lparr>vector_info := infos\<rparr>"
  have "info_wf re v (info_at infos v)" for v
    unfolding at [of v] using committed_wf [OF assms(2) _ _ ready] assms(1) by (simp add: rvm_wf_def)
  then have "rvm_wf re ?m" by (simp add: rvm_wf_def)
  moreover have "version_in infos row =
      (if rs \<le> row \<and> row < re then (cid, snd (version_in ?infos row)) else version_in ?infos row)" for row
    by (rule updated_versions [OF assms(2), where g = ?g and upd = "\<lambda>w. (cid, snd w)", OF at])
      (rule committed_version [OF ready])
  moreover have "rvm_CommitAppend m cid rs (re - rs) = Inr ?m"
    using assms(2) u by (simp add: rvm_CommitAppend_def Let_def)
  ultimately show ?thesis by (intro exI [of _ ?m]) (simp add: row_version_at_def)
qed

lemma appended_ready:
  assumes "rs < re" "v \<in> set (touched rs re)" "info_wf rs v info"
    and "\<And>i. i < vector_rows rs v \<Longrightarrow> fst (chunk_version info i) \<noteq> tid"
    and "info = None \<Longrightarrow> tid \<noteq> 0"
  shows "commit_ready rs re v (appended start tid rs re v info)"
proof -
  obtain s e where r: "vector_range rs re v = (s, e)" by fastforce
  have s: "s = vector_rows rs v" using range_bounds [OF assms(1) r] assms(2) by simp
  have fresh: "cv_wf s (ChunkVectorInfo k)" for k
    by (simp add: ChunkVectorInfo_def cv_wf_def any_deleted_wf_def)
  consider (none) "info = None" | (vec) c where "info = Some (VECTOR_INFO c)"
    using range_not_constant [OF assms(1-3)] by (cases info) (auto, metis chunk_info.exhaust)
  then show ?thesis
  proof cases
    case none
    then show ?thesis
      using vector_append_same [OF fresh, of _ e tid] assms(5) r by (auto simp: appended_def ChunkVectorInfo_def)
  next
    case vec
    then show ?thesis
      using vector_append_same [of s c e tid] assms(3,4) r s by (auto simp: appended_def)
  qed
qed

lemma AppendVersionInfo_CommitAppend_aux:
  assumes "rvm_wf rs m" "rs < re"
    and "\<forall>row\<ge>rs. snd (row_version_at m row) = NOT_DELETED_ID"
    and "\<forall>row<rs. fst (row_version_at m row) \<noteq> td_transaction_id t" and "td_transaction_id t \<noteq> 0"
  shows "\<exists>m1 m2. AppendVersionInfo m t rs re = Inr m1 \<and> rvm_CommitAppend m1 cid rs (re - rs) = Inr m2
    \<and> rvm_wf re m1 \<and> rvm_wf re m2
    \<and> (\<forall>row. row_version_at m1 row =
         (if rs \<le> row \<and> row < re then (td_transaction_id t, NOT_DELETED_ID) else row_version_at m row))
    \<and> (\<forall>row. row_version_at m2 row =
         (if rs \<le> row \<and> row < re then (cid, NOT_DELETED_ID) else row_version_at m row))"
proof -
  from AppendVersionInfo_ok [OF assms(1-3)] obtain m1 where a: "AppendVersionInfo m t rs re = Inr m1"
    and wf: "rvm_wf re m1" and v: "\<And>row. row_version_at m1 row =
         (if rs \<le> row \<and> row < re then (td_transaction_id t, NOT_DELETED_ID) else row_version_at m row)"
    and at: "\<And>v. v \<in> set (touched rs re) \<Longrightarrow> info_at (vector_info m1) v =
         appended (rvm_start m) (td_transaction_id t) rs re v (info_at (vector_info m) v)"
    by force
  have "fst (chunk_version (info_at (vector_info m) v) i) \<noteq> td_transaction_id t"
    if "i < vector_rows rs v" for v i
  proof -
    from that have i: "i < STANDARD_VECTOR_SIZE" "v * STANDARD_VECTOR_SIZE + i < rs"
      by (auto simp: vector_rows_def)
    then have "fst (row_version_at m (v * STANDARD_VECTOR_SIZE + i)) \<noteq> td_transaction_id t"
      using assms(4) by blast
    then show ?thesis using i(1) by (simp add: row_version_at_def version_in_vector)
  qed
  then have "commit_ready rs re v (info_at (vector_info m1) v)" if "v \<in> set (touched rs re)" for v
    unfolding at [OF that] using assms(1,5) by (intro appended_ready [OF assms(2) that]) (simp_all add: rvm_wf_def)
  from CommitAppend_ok [OF wf assms(2) this, of cid] obtain m2 where
    "rvm_CommitAppend m1 cid rs (re - rs) = Inr m2" "rvm_wf re m2" "\<And>row. row_version_at m2 row =
         (if rs \<le> row \<and> row < re then (cid, snd (row_version_at m1 row)) else row_version_at m1 row)"
    by blast
  with a wf v show ?thesis by auto
qed

text \<open>
  C24: An append and its commit at row group level, over any number of full and partial vectors: from a
  well-formed manager with \<open>rs\<close> rows none of which belongs to the transaction, neither
  \<open>AppendVersionInfo\<close> nor \<open>CommitAppend\<close> raises an internal error; exactly the rows \<open>rs..<re\<close> get
  the transaction's id and after the commit the commit id, and every other row keeps its version.
\<close>
theorem AppendVersionInfo_CommitAppend:
  assumes "rvm_wf rs m" "rs < re"
    and "\<forall>row\<ge>rs. snd (row_version_at m row) = NOT_DELETED_ID"
    and "\<forall>row<rs. fst (row_version_at m row) \<noteq> td_transaction_id t" and "td_transaction_id t \<noteq> 0"
  shows "\<exists>m1 m2. AppendVersionInfo m t rs re = Inr m1 \<and> rvm_CommitAppend m1 cid rs (re - rs) = Inr m2
    \<and> rvm_wf re m1 \<and> rvm_wf re m2
    \<and> (\<forall>row. row_version_at m1 row =
         (if rs \<le> row \<and> row < re then (td_transaction_id t, NOT_DELETED_ID) else row_version_at m row))
    \<and> (\<forall>row. row_version_at m2 row =
         (if rs \<le> row \<and> row < re then (cid, NOT_DELETED_ID) else row_version_at m row))"
  using assms by (rule AppendVersionInfo_CommitAppend_aux)

definition empty_manager :: row_version_manager where
  "empty_manager = RowVersionManager 0"

lemma empty_manager_wf: "rvm_wf n empty_manager"
  by (simp add: empty_manager_def RowVersionManager_def rvm_wf_def info_at_def)

lemma empty_manager_version: "row_version_at empty_manager row = (0, NOT_DELETED_ID)"
  by (simp add: empty_manager_def RowVersionManager_def row_version_at_def version_in_def info_at_def)

theorem AppendVersionInfo_CommitAppend_witness:
  "\<exists>m1 m2. AppendVersionInfo empty_manager example_reader 5 5000 = Inr m1
    \<and> rvm_CommitAppend m1 9 5 (5000 - 5) = Inr m2
    \<and> rvm_wf 5000 m1 \<and> rvm_wf 5000 m2
    \<and> (\<forall>row. row_version_at m1 row = (if 5 \<le> row \<and> row < 5000
         then (td_transaction_id example_reader, NOT_DELETED_ID) else row_version_at empty_manager row))
    \<and> (\<forall>row. row_version_at m2 row =
         (if 5 \<le> row \<and> row < 5000 then (9, NOT_DELETED_ID) else row_version_at empty_manager row))"
  by (rule AppendVersionInfo_CommitAppend)
    (simp_all add: empty_manager_wf empty_manager_version example_reader_def TRANSACTION_ID_START_def)

subsection \<open>Reading\<close>

lemma rvm_Fetch_visible:
  assumes "reader t"
  shows "rvm_Fetch m t row = visible_to t (row_version_at m row)"
proof -
  have "row - row div STANDARD_VECTOR_SIZE * STANDARD_VECTOR_SIZE = row mod STANDARD_VECTOR_SIZE"
    by (rule minus_div_mult_eq_mod)
  then show ?thesis
    by (simp add: rvm_Fetch_def GetChunkInfo_info_at row_version_at_def version_in_def)
      (cases "info_at (vector_info m) (row div STANDARD_VECTOR_SIZE)";
        simp add: reader_loaded [OF assms] info_class.fetch_law)
qed

text \<open>
  At row group level a scan of a vector and a fetch of its rows agree, with or without version
  information: the selected rows are exactly those \<open>Fetch\<close> reports, which are those whose version is
  visible to the reader.
\<close>
theorem rvm_scan_is_fetch:
  assumes "reader t" "rvm_wf n m" "k \<le> vector_rows n v"
  shows "selected k (rvm_GetSelVector m t v sel k) =
      filter (\<lambda>i. rvm_Fetch m t (v * STANDARD_VECTOR_SIZE + i)) [0..<k]
    \<and> (\<forall>row. rvm_Fetch m t row = visible_to t (row_version_at m row))"
proof -
  have k: "i < STANDARD_VECTOR_SIZE" if "i \<in> set [0..<k]" for i
    using that assms(3) by (simp add: vector_rows_def)
  have fetch: "rvm_Fetch m t (v * STANDARD_VECTOR_SIZE + i) = visible_to t (chunk_version (info_at (vector_info m) v) i)"
    if "i \<in> set [0..<k]" for i
    using k [OF that] by (simp add: rvm_Fetch_visible [OF assms(1)] row_version_at_def version_in_vector)
  have "selected k (rvm_GetSelVector m t v sel k) =
      filter (\<lambda>i. visible_to t (chunk_version (info_at (vector_info m) v) i)) [0..<k]"
  proof (cases "info_at (vector_info m) v")
    case None
    then show ?thesis
      by (simp add: rvm_GetSelVector_def GetChunkInfo_info_at selected_def reader_loaded [OF assms(1)])
  next
    case (Some ci)
    then have "chunk_wf (vector_rows n v) ci"
      using assms(2) info_wf_chunk_wf by (metis rvm_wf_def)
    then show ?thesis
      using Some info_class.sel_law [OF assms(1) _ assms(3)]
      by (simp add: rvm_GetSelVector_def GetChunkInfo_info_at)
  qed
  also have "\<dots> = filter (\<lambda>i. rvm_Fetch m t (v * STANDARD_VECTOR_SIZE + i)) [0..<k]"
    by (rule filter_cong) (simp_all add: fetch)
  finally show ?thesis by (simp add: rvm_Fetch_visible [OF assms(1)])
qed

theorem rvm_scan_is_fetch_witness:
  "selected 4 (rvm_GetSelVector empty_manager example_reader 1 (\<lambda>_. 0) 4) =
      filter (\<lambda>i. rvm_Fetch empty_manager example_reader (1 * STANDARD_VECTOR_SIZE + i)) [0..<4]
    \<and> (\<forall>row. rvm_Fetch empty_manager example_reader row =
         visible_to example_reader (row_version_at empty_manager row))"
  by (rule rvm_scan_is_fetch [OF example_reader_reads empty_manager_wf [of 5000]])
    (simp add: vector_rows_def STANDARD_VECTOR_SIZE_def)

definition committed_deleted :: "row_version \<Rightarrow> bool" where
  "committed_deleted w \<longleftrightarrow> snd w < TRANSACTION_ID_START"

lemma vector_deleted_count:
  assumes "info_wf n v info" "k \<le> STANDARD_VECTOR_SIZE"
  shows "(case info of None \<Rightarrow> 0 | Some ci \<Rightarrow> GetCommittedDeletedCount ci k) =
    length (filter (\<lambda>i. committed_deleted (chunk_version info i)) [0..<k])"
proof (cases info)
  case None
  then show ?thesis
    by (simp add: committed_deleted_def NOT_DELETED_ID_def TRANSACTION_ID_START_def)
next
  case (Some ci)
  then have "chunk_wf (vector_rows n v) ci" using assms(1) info_wf_chunk_wf by simp
  with Some show ?thesis by (simp add: committed_deleted_def info_class.count_law)
qed

lemma filter_shift: "length (filter (\<lambda>i. P (a + i)) [0..<k]) = length (filter P [a..<a + k])"
proof -
  have "[a..<a + k] = map (\<lambda>i. a + i) [0..<k]" by (simp add: map_add_upt add.commute)
  then show ?thesis by (simp add: filter_map o_def)
qed

lemma deleted_count_step:
  assumes "r < c" "r = i * STANDARD_VECTOR_SIZE"
  shows "deleted_count_loop m c r i d = deleted_count_loop m c (r + STANDARD_VECTOR_SIZE) (Suc i)
    (d + (case GetChunkInfo m i of None \<Rightarrow> 0 | Some ci \<Rightarrow> GetCommittedDeletedCount ci (min STANDARD_VECTOR_SIZE (c - r))))"
proof -
  have "min STANDARD_VECTOR_SIZE (c - r) \<noteq> 0" using assms(1) by (simp add: STANDARD_VECTOR_SIZE_def min_def)
  then show ?thesis
    using assms(1) by (subst deleted_count_loop.simps, cases "GetChunkInfo m i") (simp_all only: Let_def if_True
        if_False option.case add_0_right refl)
qed

lemma deleted_count_loop_filter:
  assumes "rvm_wf n m"
  shows "r = i * STANDARD_VECTOR_SIZE \<Longrightarrow>
    deleted_count_loop m c r i d = d + length (filter (\<lambda>row. committed_deleted (row_version_at m row)) [r..<c])"
proof (induction "c - r" arbitrary: r i d rule: less_induct)
  case less
  show ?case
  proof (cases "r < c")
    case True
    let ?S = STANDARD_VECTOR_SIZE and ?k = "min STANDARD_VECTOR_SIZE (c - r)"
    let ?P = "\<lambda>row. committed_deleted (row_version_at m row)"
    have "(case GetChunkInfo m i of None \<Rightarrow> 0 | Some ci \<Rightarrow> GetCommittedDeletedCount ci ?k) =
        length (filter (\<lambda>j. committed_deleted (chunk_version (info_at (vector_info m) i) j)) [0..<?k])"
      unfolding GetChunkInfo_info_at using assms by (intro vector_deleted_count) (auto simp: rvm_wf_def)
    also have "\<dots> = length (filter (\<lambda>j. ?P (r + j)) [0..<?k])"
      by (rule arg_cong [where f = length], rule filter_cong)
        (simp_all add: less.prems row_version_at_def version_in_vector)
    also have "\<dots> = length (filter ?P [r..<r + ?k])" by (rule filter_shift)
    finally have count: "(case GetChunkInfo m i of None \<Rightarrow> 0 | Some ci \<Rightarrow> GetCommittedDeletedCount ci ?k) =
        length (filter ?P [r..<r + ?k])" .
    have "c - (r + ?S) < c - r" using True by (simp add: STANDARD_VECTOR_SIZE_def)
    then have IH: "deleted_count_loop m c (r + ?S) (Suc i) d' = d' + length (filter ?P [r + ?S..<c])" for d'
      by (rule less.hyps) (simp add: less.prems)
    have "[r..<c] = [r..<r + ?k] @ [r + ?S..<c]"
    proof (cases "r + ?S \<le> c")
      case True
      then have "?k = ?S" "c = r + ?S + (c - (r + ?S))" by simp_all
      then show ?thesis by (metis le_add1 upt_add_eq_append)
    next
      case False
      then have "r + ?k = c" using \<open>r < c\<close> by simp
      with False show ?thesis by simp
    qed
    then show ?thesis
      unfolding deleted_count_step [OF True less.prems] IH count by simp
  next
    case False
    then show ?thesis by (simp add: deleted_count_loop.simps)
  qed
qed

text \<open>
  \<open>GetCommittedDeletedCount\<close> counts, over full vectors, the last partial one and vectors without
  version information, exactly the rows below the count whose deletion is committed.
\<close>
theorem committed_deleted_count_exact:
  assumes "rvm_wf n m"
  shows "rvm_GetCommittedDeletedCount m c =
    length (filter (\<lambda>row. committed_deleted (row_version_at m row)) [0..<c])"
  unfolding rvm_GetCommittedDeletedCount_def using deleted_count_loop_filter [OF assms, of 0 0 c 0] by simp

theorem committed_deleted_count_exact_witness:
  "rvm_GetCommittedDeletedCount empty_manager 5000 =
    length (filter (\<lambda>row. committed_deleted (row_version_at empty_manager row)) [0..<5000])"
  by (rule committed_deleted_count_exact [OF empty_manager_wf])

subsection \<open>Reverting and cleaning up appends\<close>

lemma fold_reset:
  "info_at (fold (\<lambda>v infos. infos[v := None]) vs infos) w = (if w \<in> set vs then None else info_at infos w)"
proof (induction vs arbitrary: infos)
  case (Cons v vs)
  have "info_at (infos[v := None]) u = (if u = v then None else info_at infos u)" for u
    by (simp add: info_at_def nth_list_update)
  then show ?case by (simp add: Cons.IH)
qed simp

lemma RevertAppend_info:
  "info_at (vector_info (RevertAppend m s)) v =
    (if s \<le> v * STANDARD_VECTOR_SIZE then None else info_at (vector_info m) v)"
proof -
  define c where "c = (s + (STANDARD_VECTOR_SIZE - 1)) div STANDARD_VECTOR_SIZE"
  have c: "c \<le> v \<longleftrightarrow> s \<le> v * STANDARD_VECTOR_SIZE"
  proof -
    have "c \<le> v \<longleftrightarrow> c < Suc v" by linarith
    also have "\<dots> \<longleftrightarrow> s + (STANDARD_VECTOR_SIZE - 1) < Suc v * STANDARD_VECTOR_SIZE"
      unfolding c_def by (rule div_less_iff_less_mult) (simp add: STANDARD_VECTOR_SIZE_def)
    also have "\<dots> \<longleftrightarrow> s \<le> v * STANDARD_VECTOR_SIZE"
      unfolding STANDARD_VECTOR_SIZE_def by simp linarith
    finally show ?thesis .
  qed
  have "info_at (vector_info (RevertAppend m s)) v =
      (if v \<in> set [c..<length (vector_info m)] then None else info_at (vector_info m) v)"
    by (simp add: RevertAppend_def Let_def fold_reset c_def)
  also have "\<dots> = (if c \<le> v then None else info_at (vector_info m) v)"
    by (auto simp: info_at_def)
  finally show ?thesis unfolding c .
qed

lemma RevertAppend_restores_aux:
  assumes "rvm_wf n m" "s \<le> n"
    and "\<forall>v c. info_at (vector_info m) v = Some (CONSTANT_INFO c) \<longrightarrow>
           Suc v * STANDARD_VECTOR_SIZE \<le> s \<or> s \<le> v * STANDARD_VECTOR_SIZE"
  shows "rvm_wf s (RevertAppend m s)
    \<and> (\<forall>row < s. row_version_at (RevertAppend m s) row = row_version_at m row)
    \<and> (\<forall>v row. s \<le> v * STANDARD_VECTOR_SIZE \<and> row div STANDARD_VECTOR_SIZE = v \<longrightarrow>
         row_version_at (RevertAppend m s) row = (0, NOT_DELETED_ID))"
proof -
  have "info_wf s v (info_at (vector_info (RevertAppend m s)) v)" for v
  proof -
    have "info_wf n v (info_at (vector_info m) v)" using assms(1) by (simp add: rvm_wf_def)
    moreover have "vector_rows s v \<le> vector_rows n v" using assms(2) by (auto simp: vector_rows_def)
    ultimately show ?thesis
      unfolding RevertAppend_info using assms(3) cv_wf_mono
      by (cases "(n, v, info_at (vector_info m) v)" rule: info_wf.cases) auto
  qed
  moreover have "row_version_at (RevertAppend m s) row = row_version_at m row" if "row < s" for row
  proof -
    have "row div STANDARD_VECTOR_SIZE * STANDARD_VECTOR_SIZE \<le> row" by simp
    with that have "\<not> s \<le> row div STANDARD_VECTOR_SIZE * STANDARD_VECTOR_SIZE" by linarith
    then show ?thesis by (simp add: row_version_at_def version_in_def RevertAppend_info)
  qed
  moreover have "row_version_at (RevertAppend m s) row = (0, NOT_DELETED_ID)"
    if "s \<le> row div STANDARD_VECTOR_SIZE * STANDARD_VECTOR_SIZE" for row
    using that by (simp add: row_version_at_def version_in_def RevertAppend_info)
  ultimately show ?thesis by (auto simp: rvm_wf_def)
qed

definition deleted_manager :: row_version_manager where
  "deleted_manager = empty_manager\<lparr>vector_info := [Some (VECTOR_INFO example_info)]\<rparr>"

lemma deleted_manager_info:
  "info_at (vector_info deleted_manager) v = (if v = 0 then Some (VECTOR_INFO example_info) else None)"
  by (cases v) (simp_all add: deleted_manager_def info_at_def)

lemma cleanup_vector_info:
  "info_at (cleanup_vector lowest re v infos) w = info_at infos w
   \<or> w = v \<and> (\<exists>ci. info_at infos w = Some ci \<and> Cleanup ci lowest) \<and> info_at (cleanup_vector lowest re v infos) w = None
     \<and> (v = last_vector re \<longrightarrow> re - last_vector re * STANDARD_VECTOR_SIZE = STANDARD_VECTOR_SIZE)"
  by (auto simp: cleanup_vector_def info_at_def nth_list_update split: option.split)

lemma cleanup_vectors_info:
  "info_at (fold (cleanup_vector lowest re) vs infos) w = info_at infos w
   \<or> w \<in> set vs \<and> (\<exists>ci. info_at infos w = Some ci \<and> Cleanup ci lowest)
     \<and> info_at (fold (cleanup_vector lowest re) vs infos) w = None
     \<and> (w = last_vector re \<longrightarrow> re - last_vector re * STANDARD_VECTOR_SIZE = STANDARD_VECTOR_SIZE)"
proof (induction vs arbitrary: infos)
  case (Cons v vs)
  show ?case
    using Cons.IH [of "cleanup_vector lowest re v infos"] cleanup_vector_info [of lowest re v infos w] by auto
qed simp

lemma CleanupAppend_invisible_aux:
  assumes "rvm_wf n m" "rs + c \<le> n" and "reader t" "lowest \<le> td_start_time t"
    and ordered: "\<forall>v ci. info_at (vector_info m) v = Some ci \<longrightarrow> append_ordered ci"
    and "\<forall>row. fst (row_version_at m row) \<noteq> td_start_time t"
  shows "visible_to t (row_version_at (CleanupAppend m lowest rs c) row) = visible_to t (row_version_at m row)"
proof (cases "c = 0")
  case False
  let ?S = STANDARD_VECTOR_SIZE and ?re = "rs + c"
  let ?v = "row div ?S" and ?i = "row mod ?S"
  let ?new = "fold (cleanup_vector lowest ?re) (touched rs ?re) (vector_info m)"
  have new: "vector_info (CleanupAppend m lowest rs c) = ?new"
    using False by (simp add: CleanupAppend_def Let_def)
  consider (same) "info_at ?new ?v = info_at (vector_info m) ?v"
    | (dropped) ci where "info_at (vector_info m) ?v = Some ci" "Cleanup ci lowest" "info_at ?new ?v = None"
        "?v \<in> set (touched rs ?re)" "?v = last_vector ?re \<longrightarrow> ?re - last_vector ?re * ?S = ?S"
    using cleanup_vectors_info [of lowest ?re "touched rs ?re" "vector_info m" ?v] by blast
  then show ?thesis
  proof cases
    case same
    then show ?thesis by (simp add: row_version_at_def version_in_def new)
  next
    case dropped
    obtain s e where r: "vector_range rs ?re ?v = (s, e)" by fastforce
    have "e = ?S" using r dropped(5) by (auto simp: vector_range_def split: if_splits)
    moreover have "?v * ?S + e \<le> ?re" using range_bounds [OF _ r] False dropped(4) by simp
    ultimately have "vector_rows n ?v = ?S" using assms(2) by (simp add: vector_rows_def)
    then have wf: "chunk_wf ?S ci"
      using assms(1) dropped(1) info_wf_chunk_wf by (metis rvm_wf_def)
    have "fst (chunk_version (Some ci) ?i) \<noteq> td_start_time t"
      using assms(6) dropped(1) by (metis row_version_at_def version_in_def)
    with Cleanup_sound_aux [OF dropped(2) wf _ assms(3,4) row_pos] ordered dropped(1)
    have "Fetch ci t ?i \<and> visible_to t (chunk_version None ?i)" by blast
    then show ?thesis
      using dropped(1,3) by (simp add: row_version_at_def version_in_def new info_class.fetch_law)
  qed
qed (simp add: CleanupAppend_def)

text \<open>
  \<open>CleanupAppend\<close> never changes what an active reader sees: for every transaction that started at
  or after the lowest active start time, each row is visible after the cleanup exactly when it was before.
\<close>
theorem CleanupAppend_invisible:
  assumes "rvm_wf n m" "rs + c \<le> n" and "reader t" "lowest \<le> td_start_time t"
    and ordered: "\<forall>v ci. info_at (vector_info m) v = Some ci \<longrightarrow> append_ordered ci"
    and "\<forall>row. fst (row_version_at m row) \<noteq> td_start_time t"
  shows "visible_to t (row_version_at (CleanupAppend m lowest rs c) row) = visible_to t (row_version_at m row)"
  using assms by (rule CleanupAppend_invisible_aux)

theorem CleanupAppend_invisible_witness:
  "visible_to example_reader (row_version_at (CleanupAppend empty_manager 5 0 5000) 17) =
    visible_to example_reader (row_version_at empty_manager 17)"
  by (rule CleanupAppend_invisible [OF empty_manager_wf [of 5000] _ example_reader_reads])
    (simp_all add: empty_manager_version example_reader_def, simp add: empty_manager_def RowVersionManager_def info_at_def)

subsection \<open>Deleting\<close>

text \<open>
  A vector that was loaded as entirely deleted has a constant info; turning it into a vector info
  forgets its deletion, so a delete is only issued on vectors that are not of this kind.
\<close>

fun not_dropped :: "chunk_info option \<Rightarrow> bool" where
  "not_dropped (Some (CONSTANT_INFO c)) = (cc_delete_id c = NOT_DELETED_ID)"
| "not_dropped _ = True"

lemma length_Fill_upd [simp]: "v < length ((FillVectorInfo v infos)[v := x])"
  by (simp add: length_Fill)

lemma GetVectorInfo_ok:
  assumes "not_dropped (info_at (vector_info m) v)" "info_wf n v (info_at (vector_info m) v)"
    and "GetVectorInfo m v = (m1, ci)"
  shows "(\<forall>w. info_at (vector_info m1) w = (if w = v then Some (VECTOR_INFO ci) else info_at (vector_info m) w))
    \<and> cv_wf (vector_rows n v) ci \<and> v < length (vector_info m1)
    \<and> (\<forall>i<STANDARD_VECTOR_SIZE. (inserted ci i, deleted ci i) = chunk_version (info_at (vector_info m) v) i)"
proof -
  have at: "FillVectorInfo v (vector_info m) ! v = info_at (vector_info m) v"
    using length_Fill [of v "vector_info m"] info_at_Fill [of v "vector_info m" v] by (simp add: info_at_def)
  have "vector_rows n v \<le> STANDARD_VECTOR_SIZE" by (simp add: vector_rows_def)
  then show ?thesis
    using assms unfolding GetVectorInfo_def at Let_def
    by (cases "(n, v, info_at (vector_info m) v)" rule: info_wf.cases)
      (auto simp: info_at_upd length_Fill fold_upd_upt ChunkVectorInfo_def cv_wf_def any_deleted_wf_def)
qed

lemma put_info_info_at:
  assumes "v < length (vector_info m1)"
    and "\<And>w. info_at (vector_info m1) w = (if w = v then x else info_at (vector_info m) w)"
  shows "info_at (vector_info (put_info m1 v ci)) w = (if w = v then Some (VECTOR_INFO ci) else info_at (vector_info m) w)"
  using assms by (simp add: put_info_def info_at_upd)

lemma put_info_wf:
  assumes "rvm_wf n m" and "cv_wf (vector_rows n v) ci" and "v < length (vector_info m1)"
    and "\<And>w. info_at (vector_info m1) w = (if w = v then x else info_at (vector_info m) w)"
  shows "rvm_wf n (put_info m1 v ci)"
  using assms(1,2) by (simp add: put_info_info_at [OF assms(3,4)] rvm_wf_def)

lemma put_info_version:
  assumes "v < length (vector_info m1)"
    and "\<And>w. info_at (vector_info m1) w = (if w = v then x else info_at (vector_info m) w)"
    and "\<And>i. i < STANDARD_VECTOR_SIZE \<Longrightarrow> (inserted ci i, deleted ci i) = f i (chunk_version (info_at (vector_info m) v) i)"
  shows "row_version_at (put_info m1 v ci) row =
    (if row div STANDARD_VECTOR_SIZE = v then f (row mod STANDARD_VECTOR_SIZE) (row_version_at m row)
     else row_version_at m row)"
  using assms(3) [OF row_pos, of row]
  by (auto simp: row_version_at_def version_in_def put_info_info_at [OF assms(1,2)])

lemma DeleteRows_marks_aux:
  assumes "rvm_wf n m" "not_dropped (info_at (vector_info m) v)" "tid \<noteq> NOT_DELETED_ID"
    and rows: "\<forall>r\<in>set (sel_prefix rows k). r < STANDARD_VECTOR_SIZE
      \<and> snd (row_version_at m (v * STANDARD_VECTOR_SIZE + r)) \<in> {tid, NOT_DELETED_ID}"
  shows "\<exists>m' rows' j. DeleteRows m v tid rows k = (m', rows', Inr j) \<and> rvm_wf n m'
    \<and> (\<forall>row. row_version_at m' row =
         (if row div STANDARD_VECTOR_SIZE = v \<and> row mod STANDARD_VECTOR_SIZE \<in> set (sel_prefix rows k)
          then (fst (row_version_at m row), tid) else row_version_at m row))
    \<and> distinct (sel_prefix rows' j)
    \<and> set (sel_prefix rows' j) = {r \<in> set (sel_prefix rows k).
         snd (row_version_at m (v * STANDARD_VECTOR_SIZE + r)) = NOT_DELETED_ID}"
proof -
  let ?m = "m\<lparr>has_changes := True\<rparr>" and ?S = STANDARD_VECTOR_SIZE
  obtain m1 ci where g: "GetVectorInfo ?m v = (m1, ci)" by fastforce
  have wf: "info_wf n v (info_at (vector_info m) v)" using assms(1) by (simp add: rvm_wf_def)
  have m1: "\<And>w. info_at (vector_info m1) w = (if w = v then Some (VECTOR_INFO ci) else info_at (vector_info m) w)"
    "cv_wf (vector_rows n v) ci" "v < length (vector_info m1)"
    "\<And>i. i < ?S \<Longrightarrow> (inserted ci i, deleted ci i) = chunk_version (info_at (vector_info m) v) i"
    using GetVectorInfo_ok [OF _ _ g, of n] assms(2) wf by simp_all
  have at: "deleted ci r = snd (row_version_at m (v * ?S + r))" if "r < ?S" for r
    using m1(4) [OF that] that by (simp add: row_version_at_def version_in_vector) (metis snd_conv)
  have "\<forall>r\<in>set (sel_prefix rows k). deleted ci r = tid \<or> deleted ci r = NOT_DELETED_ID"
    using rows at by auto
  from vector_delete_success_aux [OF assms(3) this] obtain rows' j where
    d: "vector_delete ci tid rows k = (ci\<lparr>any_deleted := True,
        deleted := (\<lambda>r. if r \<in> set (sel_prefix rows k) then tid else deleted ci r)\<rparr>, rows', Inr j)"
    and dist: "distinct (sel_prefix rows' j)"
    and new: "set (sel_prefix rows' j) = {r \<in> set (sel_prefix rows k). deleted ci r = NOT_DELETED_ID}"
    by blast
  let ?ci = "ci\<lparr>any_deleted := True, deleted := (\<lambda>r. if r \<in> set (sel_prefix rows k) then tid else deleted ci r)\<rparr>"
  have r: "DeleteRows m v tid rows k = (put_info m1 v ?ci, rows', Inr j)"
    by (simp add: DeleteRows_def g d)
  have "cv_wf (vector_rows n v) ?ci" using m1(2) by (simp add: cv_wf_def any_deleted_wf_def)
  then have "rvm_wf n (put_info m1 v ?ci)" by (rule put_info_wf [OF assms(1) _ m1(3) m1(1)])
  moreover have "row_version_at (put_info m1 v ?ci) row =
      (if row div ?S = v then (\<lambda>i w. if i \<in> set (sel_prefix rows k) then (fst w, tid) else w) (row mod ?S) (row_version_at m row)
       else row_version_at m row)" for row
    by (rule put_info_version [OF m1(3) m1(1)]) (simp add: m1(4) [symmetric])
  moreover have "set (sel_prefix rows' j) = {r \<in> set (sel_prefix rows k).
      snd (row_version_at m (v * ?S + r)) = NOT_DELETED_ID}"
    unfolding new using at rows by auto
  ultimately show ?thesis using r dist by (intro exI [of _ "put_info m1 v ?ci"] exI [of _ rows'] exI [of _ j]) simp
qed

text \<open>The rows a \<open>DeleteInfo\<close> names.\<close>

definition delete_rows :: "delete_info \<Rightarrow> nat list" where
  "delete_rows d = (if di_is_consecutive d then [0..<di_count d] else map (di_rows d) [0..<di_count d])"

lemma vector_commit_delete_deleted:
  "deleted (vector_commit_delete ci cid d) = (\<lambda>i. if i \<in> set (delete_rows d) then cid else deleted ci i)"
  "inserted (vector_commit_delete ci cid d) = inserted ci"
  "any_deleted (vector_commit_delete ci cid d) = any_deleted ci"
  "same_inserted_id (vector_commit_delete ci cid d) = same_inserted_id ci"
  "insert_id (vector_commit_delete ci cid d) = insert_id ci"
  by (simp_all add: vector_commit_delete_def delete_rows_def fold_upd_const fold_upd_upt fun_eq_iff)

lemma CommitDelete_marks_aux:
  assumes "rvm_wf n m" and "info_at (vector_info m) v = Some (VECTOR_INFO ci)" and "any_deleted ci"
  shows "rvm_wf n (rvm_CommitDelete m v cid d)
    \<and> (\<forall>row. row_version_at (rvm_CommitDelete m v cid d) row =
         (if row div STANDARD_VECTOR_SIZE = v \<and> row mod STANDARD_VECTOR_SIZE \<in> set (delete_rows d)
          then (fst (row_version_at m row), cid) else row_version_at m row))"
proof -
  let ?m = "m\<lparr>has_changes := True\<rparr>" and ?S = STANDARD_VECTOR_SIZE
  let ?ci = "vector_commit_delete ci cid d"
  obtain m1 ci' where g: "GetVectorInfo ?m v = (m1, ci')" by fastforce
  have wf: "cv_wf (vector_rows n v) ci" using assms(1,2) by (metis rvm_wf_def info_wf.simps(3))
  have m1: "\<And>w. info_at (vector_info m1) w = (if w = v then Some (VECTOR_INFO ci') else info_at (vector_info m) w)"
    "v < length (vector_info m1)"
    using GetVectorInfo_ok [OF _ _ g, of n] assms(2) wf by simp_all
  have "ci' = ci"
  proof -
    have "FillVectorInfo v (vector_info m) ! v = Some (VECTOR_INFO ci)"
      using assms(2) length_Fill [of v "vector_info m"] info_at_Fill [of v "vector_info m" v]
      by (simp add: info_at_def)
    then show ?thesis using g by (simp add: GetVectorInfo_def Let_def)
  qed
  with g have r: "rvm_CommitDelete m v cid d = put_info m1 v ?ci" by (simp add: rvm_CommitDelete_def)
  have "cv_wf (vector_rows n v) ?ci"
    using wf assms(3) by (simp add: cv_wf_def any_deleted_wf_def vector_commit_delete_deleted)
  then have "rvm_wf n (put_info m1 v ?ci)" by (rule put_info_wf [OF assms(1) _ m1(2) m1(1)])
  moreover have "row_version_at (put_info m1 v ?ci) row =
      (if row div ?S = v then (\<lambda>i w. if i \<in> set (delete_rows d) then (fst w, cid) else w) (row mod ?S) (row_version_at m row)
       else row_version_at m row)" for row
    by (rule put_info_version [OF m1(2) m1(1)]) (simp add: assms(2) vector_commit_delete_deleted)
  ultimately show ?thesis unfolding r by simp
qed

subsection \<open>Checkpoint round trip\<close>

fun info_effective :: "chunk_info option \<Rightarrow> nat \<Rightarrow> row_version" where
  "info_effective None i = (0, NOT_DELETED_ID)"
| "info_effective (Some ci) i = effective_version ci i"

definition same_reading :: "transaction_data \<Rightarrow> chunk_info option \<Rightarrow> chunk_info option \<Rightarrow> bool" where
  "same_reading t old new \<longleftrightarrow> (\<forall>i<STANDARD_VECTOR_SIZE.
     visible_to t (chunk_version new i) = checkpoint_visible (info_effective old i))"

lemma checkpoint_none: "checkpoint_visible (0, NOT_DELETED_ID)"
  by (simp add: checkpoint_visible_def visible_def TransactionVersionOperator_def sees_id_def
      TRANSACTION_ID_START_def NOT_DELETED_ID_def INVALID_INDEX_def)

lemma same_reading_none: "reader t \<Longrightarrow> same_reading t None None"
  by (simp add: same_reading_def reader_loaded checkpoint_none)

lemma read_infos_written:
  assumes "reader t"
  shows "\<forall>(v, ci)\<in>set ser. writable ci \<and> v * STANDARD_VECTOR_SIZE < MAX_ROW_GROUP_SIZE \<Longrightarrow> distinct (map fst ser) \<Longrightarrow>
    \<exists>infos'. read_infos (length ser) (concat (map (\<lambda>(v, info). ItemIdx v # Write info) ser)) infos = Inr infos'
      \<and> (\<forall>v. v \<notin> fst ` set ser \<longrightarrow> info_at infos' v = info_at infos v)
      \<and> (\<forall>v ci. (v, ci) \<in> set ser \<longrightarrow> same_reading t (Some ci) (info_at infos' v))"
proof (induction ser arbitrary: infos)
  case (Cons e ser)
  obtain v ci where e: "e = (v, ci)" by fastforce
  let ?rest = "concat (map (\<lambda>(v, info). ItemIdx v # Write info) ser)"
  have w: "writable ci" "\<not> MAX_ROW_GROUP_SIZE \<le> v * STANDARD_VECTOR_SIZE" using Cons.prems(1) e by auto
  from Write_Read_aux [OF w(1) assms, of ?rest] obtain info where r: "Read (Write ci @ ?rest) = Inr (info, ?rest)"
    and vis: "same_reading t (Some ci) info"
    unfolding same_reading_def info_effective.simps by blast
  let ?infos = "(FillVectorInfo v infos)[v := info]"
  have upd: "info_at ?infos w = (if w = v then info else info_at infos w)" for w
    by (simp add: info_at_upd length_Fill)
  from Cons.IH [of ?infos] Cons.prems obtain infos' where
    i: "read_infos (length ser) ?rest ?infos = Inr infos'"
    and other: "\<And>w. w \<notin> fst ` set ser \<Longrightarrow> info_at infos' w = info_at ?infos w"
    and ser: "\<forall>v ci. (v, ci) \<in> set ser \<longrightarrow> same_reading t (Some ci) (info_at infos' v)"
    by auto
  have "v \<notin> fst ` set ser" using Cons.prems(2) e by simp
  then have "same_reading t (Some ci) (info_at infos' v)" using other upd vis by simp
  moreover have "read_infos (length (e # ser)) (concat (map (\<lambda>(v, info). ItemIdx v # Write info) (e # ser))) infos = Inr infos'"
    using e w(2) r i by simp
  ultimately show ?case using e other upd ser by auto
qed simp

lemma to_serialize_props:
  "distinct (map fst (to_serialize infos))"
  "(v, ci) \<in> set (to_serialize infos) \<longleftrightarrow> info_at infos v = Some ci \<and> HasDeletes ci"
proof -
  let ?f = "\<lambda>v. case infos ! v of None \<Rightarrow> [] | Some info \<Rightarrow> if HasDeletes info then [(v, info)] else []"
  have fst: "map fst (concat (map ?f vs)) = filter (\<lambda>v. ?f v \<noteq> []) vs" for vs
    by (induction vs) (auto split: option.split)
  show "distinct (map fst (to_serialize infos))"
    unfolding to_serialize_def fst by (rule distinct_filter) simp
  show "(v, ci) \<in> set (to_serialize infos) \<longleftrightarrow> info_at infos v = Some ci \<and> HasDeletes ci"
    by (auto simp: to_serialize_def info_at_def split: option.splits if_splits)
qed

definition loaded_infos :: "row_version_manager option \<Rightarrow> chunk_info option list" where
  "loaded_infos mo = (case mo of None \<Rightarrow> [] | Some m \<Rightarrow> vector_info m)"



end
