(* ===== verification/SegmentTree.thy ===== *)
theory SegmentTree
  imports Prelude
begin

text \<open>
  The segment tree, \<open>include/duckdb/storage/table/segment_tree.hpp\<close>: the ordered list of the segments
  (row groups, column segments) of a table, searched by row number, with segments that are loaded on
  demand.  A pointer to a segment is its index in \<open>nodes\<close>, the index the segment itself stores; its
  \<open>next\<close> pointer is kept, since erasing segments does not reset it.
\<close>

section \<open>State\<close>

record 'a segment =
  sg_start :: nat
  sg_count :: nat
  sg_next :: "nat option"
  sg_data :: 'a

definition SegmentBase :: "nat \<Rightarrow> nat \<Rightarrow> 'a \<Rightarrow> 'a segment" where
  "SegmentBase start cnt d = \<lparr>sg_start = start, sg_count = cnt, sg_next = None, sg_data = d\<rparr>"

text \<open>
  \<open>unloaded\<close> are the segments that \<open>LoadSegment\<close> still returns; without lazy loading there are none and
  \<open>finished_loading\<close> is set.
\<close>

record 'a segment_tree =
  nodes :: "(nat \<times> 'a segment) list"
  unloaded :: "'a segment list"
  finished_loading :: bool

definition empty_segment_tree :: "'a segment_tree" where
  "empty_segment_tree = \<lparr>nodes = [], unloaded = [], finished_loading = True\<rparr>"

section \<open>Operations\<close>

definition link_last :: "(nat \<times> 'a segment) list \<Rightarrow> (nat \<times> 'a segment) list" where
  "link_last ns = (if ns = [] then [] else butlast ns @ [(fst (last ns), (snd (last ns))\<lparr>sg_next := Some (length ns)\<rparr>)])"

definition AppendSegmentInternal :: "'a segment \<Rightarrow> 'a segment_tree \<Rightarrow> 'a segment_tree" where
  "AppendSegmentInternal s t = t\<lparr>nodes := link_last (nodes t) @ [(sg_start s, s\<lparr>sg_next := None\<rparr>)]\<rparr>"

text \<open>\<open>LoadNextSegment\<close> tells whether a segment was loaded; the loader sets the flag at the end.\<close>

definition LoadNextSegment :: "'a segment_tree \<Rightarrow> 'a segment_tree \<times> bool" where
  "LoadNextSegment t =
     (if finished_loading t then (t, False)
      else case unloaded t of
             [] \<Rightarrow> (t\<lparr>finished_loading := True\<rparr>, False)
           | s # ss \<Rightarrow> (AppendSegmentInternal s (t\<lparr>unloaded := ss\<rparr>), True))"

text \<open>\<open>while (go(t) && LoadNextSegment());\<close>\<close>

function load_while :: "('a segment_tree \<Rightarrow> bool) \<Rightarrow> 'a segment_tree \<Rightarrow> 'a segment_tree" where
  "load_while go t =
     (if go t then (let (t', loaded) = LoadNextSegment t in if loaded then load_while go t' else t') else t)"
  by pat_completeness auto
termination
  by (relation "measure (\<lambda>(go, t). length (unloaded t))")
    (auto simp: LoadNextSegment_def AppendSegmentInternal_def split: if_splits list.splits)

declare load_while.simps [simp del]

definition LoadAllSegments :: "'a segment_tree \<Rightarrow> 'a segment_tree" where
  "LoadAllSegments t = load_while (\<lambda>_. True) t"

definition AppendSegment :: "'a segment \<Rightarrow> 'a segment_tree \<Rightarrow> 'a segment_tree" where
  "AppendSegment s t = AppendSegmentInternal s (LoadAllSegments t)"

definition GetSegmentCount :: "'a segment_tree \<Rightarrow> nat" where
  "GetSegmentCount t = length (nodes t)"

text \<open>Pointers to segments are indexes; the tree is returned because segments may get loaded.\<close>

definition GetSegmentByIndex :: "int \<Rightarrow> 'a segment_tree \<Rightarrow> 'a segment_tree \<times> nat option" where
  "GetSegmentByIndex index t =
     (if index < 0 then
        let t' = LoadAllSegments t; i = index + int (length (nodes t'))
        in (t', if i < 0 then None else Some (nat i))
      else
        let t' = load_while (\<lambda>t. length (nodes t) \<le> nat index) t
        in (t', if length (nodes t') \<le> nat index then None else Some (nat index)))"

definition GetRootSegment :: "'a segment_tree \<Rightarrow> 'a segment_tree \<times> nat option" where
  "GetRootSegment t =
     (let t' = (if nodes t = [] then fst (LoadNextSegment t) else t)
      in (t', if nodes t' = [] then None else Some 0))"

definition tree_IsEmpty :: "'a segment_tree \<Rightarrow> 'a segment_tree \<times> bool" where
  "tree_IsEmpty t = (let (t', root) = GetRootSegment t in (t', root = None))"

definition GetNextSegment :: "nat \<Rightarrow> 'a segment_tree \<Rightarrow> 'a segment_tree \<times> nat option" where
  "GetNextSegment i t =
     (if finished_loading t then (t, sg_next (snd (nodes t ! i))) else GetSegmentByIndex (int i + 1) t)"

definition GetLastSegment :: "'a segment_tree \<Rightarrow> 'a segment_tree \<times> nat option" where
  "GetLastSegment t =
     (let t' = LoadAllSegments t in (t', if nodes t' = [] then None else Some (length (nodes t') - 1)))"

definition EraseSegments :: "nat \<Rightarrow> 'a segment_tree \<Rightarrow> 'a segment_tree" where
  "EraseSegments segment_start t =
     (let t' = LoadAllSegments t
      in if nodes t' \<noteq> [] \<and> length (nodes t') - 1 \<le> segment_start then t'
         else t'\<lparr>nodes := take (Suc segment_start) (nodes t')\<rparr>)"

definition MoveSegments :: "'a segment_tree \<Rightarrow> 'a segment_tree \<times> (nat \<times> 'a segment) list" where
  "MoveSegments t = (let t' = LoadAllSegments t in (t'\<lparr>nodes := []\<rparr>, nodes t'))"

text \<open>
  The binary search.  Indexes are 64-bit: \<open>index - 1\<close> wraps around at \<open>0\<close>, and reading a node outside
  the vector is \<open>OutOfBounds\<close>.
\<close>

datatype search_result = Found nat | NotFound | OutOfBounds

definition pred64 :: "nat \<Rightarrow> nat" where
  "pred64 i = (if i = 0 then 2 ^ 64 - 1 else i - 1)"

partial_function (option) search_nodes ::
  "(nat \<times> 'a segment) list \<Rightarrow> nat \<Rightarrow> nat \<Rightarrow> nat \<Rightarrow> search_result option" where
  [code]: "search_nodes ns row_number lower upper =
     (if upper < lower then Some NotFound
      else let index = (lower + upper) div 2
           in if length ns \<le> index then Some OutOfBounds
              else let (row_start, s) = ns ! index
                   in if row_number < row_start then search_nodes ns row_number lower (pred64 index)
                      else if row_start + sg_count s \<le> row_number then search_nodes ns row_number (Suc index) upper
                      else Some (Found index))"

definition last_end :: "(nat \<times> 'a segment) list \<Rightarrow> nat" where
  "last_end ns = fst (last ns) + sg_count (snd (last ns))"

definition TryGetSegmentIndex :: "nat \<Rightarrow> 'a segment_tree \<Rightarrow> 'a segment_tree \<times> search_result option" where
  "TryGetSegmentIndex row_number t =
     (let t' = load_while (\<lambda>t. nodes t = [] \<or> last_end (nodes t) \<le> row_number) t
      in if nodes t' = [] then (t', Some NotFound)
         else (t', search_nodes (nodes t') row_number 0 (length (nodes t') - 1)))"

text \<open>\<open>GetSegmentIndex\<close> throws an internal error when there is no such segment, here \<open>None\<close>.\<close>

definition GetSegment :: "nat \<Rightarrow> 'a segment_tree \<Rightarrow> 'a segment_tree \<times> nat option" where
  "GetSegment row_number t =
     (case TryGetSegmentIndex row_number t of
        (t', Some (Found i)) \<Rightarrow> (t', Some i)
      | (t', _) \<Rightarrow> (t', None))"

text \<open>\<open>Reinitialize\<close> throws when there is a gap between nodes.\<close>

fun reinit :: "nat \<Rightarrow> (nat \<times> 'a segment) list \<Rightarrow> (nat \<times> 'a segment) list option" where
  "reinit offset [] = Some []"
| "reinit offset ((r, s) # ns) =
     (if sg_start s \<noteq> offset then None else map_option (Cons (offset, s)) (reinit (offset + sg_count s) ns))"

definition Reinitialize :: "'a segment_tree \<Rightarrow> 'a segment_tree option" where
  "Reinitialize t =
     (case nodes t of
        [] \<Rightarrow> Some t
      | (r, s) # ns \<Rightarrow> map_option (\<lambda>ns'. t\<lparr>nodes := ns'\<rparr>) (reinit (sg_start s) (nodes t)))"


section \<open>Contiguous segments\<close>

text \<open>
  \<open>contiguous b ss\<close>: the segments start at row \<open>b\<close> and follow each other without a gap; \<open>rows_end\<close> is the row
  after the last one.
\<close>

fun contiguous :: "nat \<Rightarrow> 'a segment list \<Rightarrow> bool" where
  "contiguous b [] = True"
| "contiguous b (s # ss) \<longleftrightarrow> sg_start s = b \<and> contiguous (b + sg_count s) ss"

fun rows_end :: "nat \<Rightarrow> 'a segment list \<Rightarrow> nat" where
  "rows_end b [] = b"
| "rows_end b (s # ss) = rows_end (b + sg_count s) ss"

definition holds_row :: "'a segment \<Rightarrow> nat \<Rightarrow> bool" where
  "holds_row s row \<longleftrightarrow> sg_start s \<le> row \<and> row < sg_start s + sg_count s"

lemma contiguous_append: "contiguous b (ss @ ss') \<longleftrightarrow> contiguous b ss \<and> contiguous (rows_end b ss) ss'"
  by (induction ss arbitrary: b) auto

lemma rows_end_append: "rows_end b (ss @ ss') = rows_end (rows_end b ss) ss'"
  by (induction ss arbitrary: b) auto

lemma rows_end_ge: "b \<le> rows_end b ss"
proof (induction ss arbitrary: b)
  case (Cons s ss)
  from Cons [of "b + sg_count s"] show ?case by simp
qed simp

lemma contiguous_nth:
  "contiguous b ss \<Longrightarrow> i < length ss \<Longrightarrow> sg_start (ss ! i) = rows_end b (take i ss)
     \<and> sg_start (ss ! i) + sg_count (ss ! i) = rows_end b (take (Suc i) ss)"
proof (induction ss arbitrary: b i)
  case (Cons s ss)
  then show ?case by (cases i) auto
qed simp

lemma rows_end_take_mono: "i \<le> j \<Longrightarrow> rows_end b (take i ss) \<le> rows_end b (take j ss)"
proof -
  assume "i \<le> j"
  then have "take j ss = take i ss @ take (j - i) (drop i ss)" by (metis le_add_diff_inverse take_add)
  then show ?thesis using rows_end_ge by (simp add: rows_end_append)
qed

lemma contiguous_order:
  assumes "contiguous b ss" "i < j" "j < length ss"
  shows "sg_start (ss ! i) + sg_count (ss ! i) \<le> sg_start (ss ! j)"
  using contiguous_nth [OF assms(1), of i] contiguous_nth [OF assms(1,3)] rows_end_take_mono [of "Suc i" j b ss] assms
  by simp

lemma holds_row_unique:
  assumes "contiguous b ss" "i < length ss" "j < length ss" "holds_row (ss ! i) row" "holds_row (ss ! j) row"
  shows "i = j"
proof (rule ccontr)
  assume "i \<noteq> j"
  then consider "i < j" | "j < i" by linarith
  then show False
    using contiguous_order [OF assms(1)] assms(2-) by cases (fastforce simp: holds_row_def)+
qed

lemma row_in_segment:
  assumes "contiguous b ss" "b \<le> row" "row < rows_end b ss"
  shows "\<exists>i < length ss. holds_row (ss ! i) row"
  using assms
proof (induction ss arbitrary: b)
  case (Cons s ss)
  show ?case
  proof (cases "row < b + sg_count s")
    case True
    then show ?thesis using Cons.prems by (intro exI [of _ 0]) (simp add: holds_row_def)
  next
    case False
    then obtain i where "i < length ss" "holds_row (ss ! i) row" using Cons.IH [of "b + sg_count s"] Cons.prems by auto
    then show ?thesis by (intro exI [of _ "Suc i"]) simp
  qed
qed simp

section \<open>The binary search\<close>

definition nodes_ok :: "nat \<Rightarrow> (nat \<times> 'a segment) list \<Rightarrow> bool" where
  "nodes_ok b ns \<longleftrightarrow> contiguous b (map snd ns) \<and> (\<forall>(r, s)\<in>set ns. r = sg_start s)"

lemma nodes_ok_nth: "nodes_ok b ns \<Longrightarrow> i < length ns \<Longrightarrow> ns ! i = (sg_start (snd (ns ! i)), snd (ns ! i))"
  unfolding nodes_ok_def by (metis (mono_tags, lifting) case_prodD nth_mem prod.collapse)

lemma search_nodes_step:
  assumes "nodes_ok b ns" "lower \<le> upper" "upper < length ns"
  shows "search_nodes ns row lower upper =
    (let i = (lower + upper) div 2; s = snd (ns ! i)
     in if row < sg_start s then search_nodes ns row lower (pred64 i)
        else if sg_start s + sg_count s \<le> row then search_nodes ns row (Suc i) upper else Some (Found i))"
proof -
  have i: "(lower + upper) div 2 < length ns" using assms(2,3) by linarith
  obtain r s where rs: "ns ! ((lower + upper) div 2) = (r, s)" by fastforce
  then have "r = sg_start s" using nodes_ok_nth [OF assms(1) i] by simp
  then show ?thesis
    using assms(2) i rs by (subst search_nodes.simps) (simp add: Let_def)
qed

lemma search_found:
  assumes ns: "nodes_ok b ns" and k: "k < length ns" "holds_row (snd (ns ! k)) row"
  shows "lower \<le> k \<Longrightarrow> k \<le> upper \<Longrightarrow> upper < length ns \<Longrightarrow> search_nodes ns row lower upper = Some (Found k)"
proof (induction "upper - lower" arbitrary: lower upper rule: less_induct)
  case less
  define i where "i = (lower + upper) div 2"
  have b: "lower \<le> i" "i \<le> upper" using less.prems by (simp_all add: i_def)
  have c: "contiguous b (map snd ns)" using ns by (simp add: nodes_ok_def)
  have l: "i < length ns" using b less.prems by simp
  note step = search_nodes_step [OF ns _ less.prems(3), of lower row, folded i_def, unfolded Let_def]
  consider "k < i" | "i < k" | "i = k" by linarith
  then show ?case
  proof cases
    case 1
    then have "row < sg_start (snd (ns ! i))"
      using contiguous_order [OF c 1] l k by (simp add: holds_row_def)
    moreover have "pred64 i = i - 1" using 1 by (simp add: pred64_def)
    moreover have "search_nodes ns row lower (i - 1) = Some (Found k)"
      using 1 b less.prems l by (intro less.hyps) auto
    ultimately show ?thesis using step b by simp
  next
    case 2
    then have "sg_start (snd (ns ! i)) + sg_count (snd (ns ! i)) \<le> row"
      using contiguous_order [OF c 2] l k by (simp add: holds_row_def)
    moreover have "search_nodes ns row (Suc i) upper = Some (Found k)"
      using 2 b less.prems by (intro less.hyps) auto
    ultimately show ?thesis using step b by simp
  next
    case 3
    then show ?thesis using step b k(2) by (simp add: holds_row_def)
  qed
qed

lemma search_not_found:
  assumes ns: "nodes_ok b ns" and row: "\<And>i. i < length ns \<Longrightarrow> sg_start (snd (ns ! i)) + sg_count (snd (ns ! i)) \<le> row"
  shows "upper < length ns \<Longrightarrow> search_nodes ns row lower upper = Some NotFound"
proof (induction "Suc upper - lower" arbitrary: lower rule: less_induct)
  case less
  show ?case
  proof (cases "upper < lower")
    case True
    then show ?thesis by (simp add: search_nodes.simps)
  next
    case False
    define i where "i = (lower + upper) div 2"
    have b: "lower \<le> i" "i \<le> upper" using False by (simp_all add: i_def)
    then have "sg_start (snd (ns ! i)) + sg_count (snd (ns ! i)) \<le> row" using row less.prems by simp
    moreover from this have "\<not> row < sg_start (snd (ns ! i))" by linarith
    moreover have "search_nodes ns row (Suc i) upper = Some NotFound" using b less by (intro less.hyps) auto
    ultimately show ?thesis
      using search_nodes_step [OF ns _ less.prems, of lower row, folded i_def] False by (simp add: Let_def)
  qed
qed

lemma search_underflow:
  assumes ns: "nodes_ok b ns" "ns \<noteq> []" and row: "row < b" and len: "length ns < 2 ^ 63"
  shows "upper < length ns \<Longrightarrow> search_nodes ns row 0 upper = Some OutOfBounds"
proof (induction upper rule: less_induct)
  case (less upper)
  define i where "i = upper div 2"
  have i: "i \<le> upper" "i < length ns" using less.prems by (simp_all add: i_def)
  have "contiguous b (map snd ns)" using ns by (simp add: nodes_ok_def)
  from contiguous_nth [OF this, of i] have "b \<le> sg_start (snd (ns ! i))" using i(2) rows_end_ge by simp
  then have before: "row < sg_start (snd (ns ! i))" using row by simp
  have "search_nodes ns row 0 (pred64 i) = Some OutOfBounds"
  proof (cases "i = 0")
    case True
    have "search_nodes ns row 0 (2 ^ 64 - 1) = Some OutOfBounds"
      using len by (subst search_nodes.simps) simp
    then show ?thesis by (simp add: True pred64_def)
  next
    case False
    then show ?thesis using i less.prems by (simp add: pred64_def) (rule less.IH; simp add: i_def)
  qed
  then show ?case
    using search_nodes_step [OF ns(1) _ less.prems, of 0 row] before by (simp add: i_def)
qed


section \<open>The tree\<close>

text \<open>
  The segments of a tree, loaded or not, without their links; a well-formed tree is contiguous, its nodes
  repeat the start of their segment, and the links follow the order.
\<close>

definition unlinked :: "'a segment \<Rightarrow> 'a segment" where
  "unlinked s = s\<lparr>sg_next := None\<rparr>"

definition segments :: "'a segment_tree \<Rightarrow> 'a segment list" where
  "segments t = map unlinked (map snd (nodes t) @ unloaded t)"

definition linked :: "(nat \<times> 'a segment) list \<Rightarrow> bool" where
  "linked ns \<longleftrightarrow> (\<forall>i < length ns. sg_next (snd (ns ! i)) = (if Suc i < length ns then Some (Suc i) else None))"

definition tree_wf :: "nat \<Rightarrow> 'a segment_tree \<Rightarrow> bool" where
  "tree_wf b t \<longleftrightarrow> contiguous b (segments t) \<and> (\<forall>(r, s)\<in>set (nodes t). r = sg_start s) \<and> linked (nodes t)
     \<and> (finished_loading t \<longrightarrow> unloaded t = [])"

lemma unlinked_simps [simp]: "sg_start (unlinked s) = sg_start s" "sg_count (unlinked s) = sg_count s"
  "sg_data (unlinked s) = sg_data s" "holds_row (unlinked s) row = holds_row s row" "unlinked (unlinked s) = unlinked s"
  "unlinked (s\<lparr>sg_next := x\<rparr>) = unlinked s"
  by (simp_all add: unlinked_def holds_row_def)

lemma contiguous_unlinked [simp]: "contiguous b (map unlinked ss) = contiguous b ss"
  by (induction ss arbitrary: b) auto

lemma tree_nodes_ok: "tree_wf b t \<Longrightarrow> nodes_ok b (nodes t)"
  by (auto simp: tree_wf_def segments_def nodes_ok_def contiguous_append simp del: map_append)

lemma link_last_snoc [simp]: "link_last (ns @ [(r, s)]) = ns @ [(r, s\<lparr>sg_next := Some (Suc (length ns))\<rparr>)]"
  by (simp add: link_last_def)

lemma linked_snoc:
  assumes "linked ns" "sg_next s = None"
  shows "linked (link_last ns @ [(r, s)])"
proof (cases ns rule: rev_cases)
  case Nil
  then show ?thesis using assms(2) by (simp add: linked_def link_last_def)
next
  case (snoc ms x)
  then show ?thesis
    using assms by (cases x) (auto simp: linked_def nth_append less_Suc_eq)
qed

lemma link_last_map: "map (unlinked \<circ> snd) (link_last ns) = map (unlinked \<circ> snd) ns"
  by (cases ns rule: rev_cases) (auto simp: link_last_def)

lemma link_last_starts: "\<forall>(r, s)\<in>set ns. r = sg_start s \<Longrightarrow> \<forall>(r, s)\<in>set (link_last ns). r = sg_start s"
  by (cases ns rule: rev_cases) (auto simp: link_last_def)

lemma length_link_last [simp]: "length (link_last ns) = length ns"
  by (cases ns rule: rev_cases) (auto simp: link_last_def)

lemma LoadNextSegment_ok:
  assumes "tree_wf b t" "LoadNextSegment t = (t', loaded)"
  shows "tree_wf b t'" "segments t' = segments t" "\<not> loaded \<Longrightarrow> unloaded t' = []" "length (nodes t) \<le> length (nodes t')"
    "loaded \<Longrightarrow> nodes t' \<noteq> []"
proof -
  have "tree_wf b t' \<and> segments t' = segments t \<and> (\<not> loaded \<longrightarrow> unloaded t' = []) \<and> length (nodes t) \<le> length (nodes t')
    \<and> (loaded \<longrightarrow> nodes t' \<noteq> [])"
  proof (cases "finished_loading t \<or> unloaded t = []")
    case True
    then show ?thesis
      using assms by (auto simp: LoadNextSegment_def tree_wf_def segments_def split: if_splits list.splits)
  next
    case False
    then obtain s ss where u: "unloaded t = s # ss" by (cases "unloaded t") auto
    then have t': "t' = AppendSegmentInternal s (t\<lparr>unloaded := ss\<rparr>)" "loaded"
      using assms(2) False by (auto simp: LoadNextSegment_def)
    have segs: "segments t' = segments t"
      using link_last_map [of "nodes t"] by (simp add: segments_def t' AppendSegmentInternal_def u)
    have "linked (nodes t')"
      using assms(1) linked_snoc [of "nodes t" "s\<lparr>sg_next := None\<rparr>"]
      by (simp add: t' AppendSegmentInternal_def tree_wf_def)
    moreover have "\<forall>(r, s)\<in>set (nodes t'). r = sg_start s"
      using assms(1) link_last_starts [of "nodes t"] by (auto simp: t' AppendSegmentInternal_def tree_wf_def)
    ultimately show ?thesis
      using assms(1) segs False t'(2) by (auto simp: tree_wf_def t' AppendSegmentInternal_def)
  qed
  then show "tree_wf b t'" "segments t' = segments t" "\<not> loaded \<Longrightarrow> unloaded t' = []" "length (nodes t) \<le> length (nodes t')"
    "loaded \<Longrightarrow> nodes t' \<noteq> []"
    by blast+
qed

lemma load_while_ok:
  "tree_wf b t \<Longrightarrow> tree_wf b (load_while go t) \<and> segments (load_while go t) = segments t
     \<and> (go (load_while go t) \<longrightarrow> unloaded (load_while go t) = []) \<and> length (nodes t) \<le> length (nodes (load_while go t))"
proof (induction go t rule: load_while.induct)
  case (1 go t)
  obtain t' loaded where l: "LoadNextSegment t = (t', loaded)" by fastforce
  note ok = LoadNextSegment_ok [OF "1.prems" l]
  show ?case
  proof (cases "go t \<and> loaded")
    case True
    then have "tree_wf b (load_while go t') \<and> segments (load_while go t') = segments t'
      \<and> (go (load_while go t') \<longrightarrow> unloaded (load_while go t') = []) \<and> length (nodes t') \<le> length (nodes (load_while go t'))"
      using "1.IH" [OF _ l [symmetric] refl] ok(1) by auto
    moreover have "load_while go t = load_while go t'" using True l by (subst load_while.simps) simp
    ultimately show ?thesis using ok(2,4) by simp
  next
    case False
    then have "load_while go t = (if go t then t' else t)" using l by (subst load_while.simps) auto
    then show ?thesis using ok "1.prems" False by auto
  qed
qed

lemma LoadAllSegments_ok:
  assumes "tree_wf b t"
  shows "tree_wf b (LoadAllSegments t)" "segments (LoadAllSegments t) = segments t" "unloaded (LoadAllSegments t) = []"
  using load_while_ok [OF assms, of "\<lambda>_. True"] by (simp_all add: LoadAllSegments_def)

lemma segments_loaded: "unloaded t = [] \<Longrightarrow> segments t = map (unlinked \<circ> snd) (nodes t)"
  by (simp add: segments_def)

lemma segments_nth: "i < length (nodes t) \<Longrightarrow> segments t ! i = unlinked (snd (nodes t ! i))"
  by (simp add: segments_def nth_append)

lemma node_holds: "i < length (nodes t) \<Longrightarrow> holds_row (segments t ! i) row = holds_row (snd (nodes t ! i)) row"
  by (simp add: segments_nth)

lemma rows_end_unlinked [simp]: "rows_end b (map unlinked ss) = rows_end b ss"
  by (induction ss arbitrary: b) auto

lemma rows_end_unlinked_nodes [simp]: "rows_end b (map (unlinked \<circ> snd) ns) = rows_end b (map snd ns)"
  unfolding map_map [symmetric] rows_end_unlinked ..

lemma last_end_rows_end:
  assumes "nodes_ok b ns" "ns \<noteq> []"
  shows "last_end ns = rows_end b (map snd ns)"
proof -
  have l: "length ns - 1 < length ns" using assms(2) by simp
  have "ns ! (length ns - 1) = (sg_start (snd (ns ! (length ns - 1))), snd (ns ! (length ns - 1)))"
    using nodes_ok_nth [OF assms(1) l] .
  then have "last_end ns = sg_start (snd (ns ! (length ns - 1))) + sg_count (snd (ns ! (length ns - 1)))"
    using assms(2) by (metis fst_conv last_conv_nth last_end_def snd_conv)
  also have "\<dots> = rows_end b (take (Suc (length ns - 1)) (map snd ns))"
    using contiguous_nth [of b "map snd ns" "length ns - 1"] assms l by (simp add: nodes_ok_def)
  finally show ?thesis using assms(2) by simp
qed


lemma TryGetSegmentIndex_ok:
  fixes row :: nat
  assumes wf: "tree_wf b t"
  defines "t' \<equiv> fst (TryGetSegmentIndex row t)" and "r \<equiv> snd (TryGetSegmentIndex row t)"
  shows "tree_wf b t' \<and> segments t' = segments t"
    and "b \<le> row \<Longrightarrow> row < rows_end b (segments t) \<Longrightarrow>
      \<exists>i < length (nodes t'). r = Some (Found i) \<and> holds_row (segments t ! i) row"
    and "rows_end b (segments t) \<le> row \<Longrightarrow> r = Some NotFound"
    and "row < b \<Longrightarrow> segments t \<noteq> [] \<Longrightarrow> length (segments t) < 2 ^ 63 \<Longrightarrow> r = Some OutOfBounds"
proof -
  let ?go = "\<lambda>t. nodes t = [] \<or> last_end (nodes t) \<le> row"
  have t': "t' = load_while ?go t" by (simp add: t'_def TryGetSegmentIndex_def Let_def)
  have wf': "tree_wf b t'" and segs: "segments t' = segments t" and go: "?go t' \<Longrightarrow> unloaded t' = []"
    using load_while_ok [OF wf, of ?go] unfolding t' by blast+
  note ns = tree_nodes_ok [OF wf']
  have r: "r = (if nodes t' = [] then Some NotFound else search_nodes (nodes t') row 0 (length (nodes t') - 1))"
    by (simp add: r_def TryGetSegmentIndex_def t' Let_def)
  have c: "contiguous b (segments t)" using wf by (simp add: tree_wf_def)
  show "tree_wf b t' \<and> segments t' = segments t" using wf' segs ..
  have found: "r = Some (Found k)" if "k < length (nodes t')" "holds_row (segments t ! k) row" for k
    using search_found [OF ns, of k row 0 "length (nodes t') - 1"] that node_holds [of k t'] segs by (auto simp: r)
  show "\<exists>i < length (nodes t'). r = Some (Found i) \<and> holds_row (segments t ! i) row"
    if rng: "b \<le> row" "row < rows_end b (segments t)"
  proof -
    obtain k where k: "k < length (segments t)" "holds_row (segments t ! k) row"
      using row_in_segment [OF c rng] by blast
    have "k < length (nodes t')"
    proof (cases "?go t'")
      case True
      then show ?thesis using go k(1) segs by (metis length_map segments_loaded)
    next
      case False
      then have "row < rows_end b (map snd (nodes t'))" using last_end_rows_end [OF ns] by simp
      then obtain j where "j < length (nodes t')" "holds_row (snd (nodes t' ! j)) row"
        using row_in_segment [of b "map snd (nodes t')" row] ns rng(1) by (auto simp: nodes_ok_def)
      moreover from this have "holds_row (segments t ! j) row" using node_holds [of j t' row] segs by simp
      moreover have "length (nodes t') \<le> length (segments t)" unfolding segs [symmetric] by (simp add: segments_def)
      ultimately show ?thesis using holds_row_unique [OF c k(1) _ k(2)] by (metis order_less_le_trans)
    qed
    then show ?thesis using found k(2) by blast
  qed
  show "r = Some NotFound" if late: "rows_end b (segments t) \<le> row"
  proof (cases "nodes t' = []")
    case True
    then show ?thesis by (simp add: r)
  next
    case False
    have "sg_start (snd (nodes t' ! i)) + sg_count (snd (nodes t' ! i)) \<le> row" if i: "i < length (nodes t')" for i
    proof -
      have "sg_start (snd (nodes t' ! i)) + sg_count (snd (nodes t' ! i)) = rows_end b (take (Suc i) (map snd (nodes t')))"
        using contiguous_nth [of b "map snd (nodes t')" i] ns i by (simp add: nodes_ok_def)
      also have "\<dots> \<le> rows_end b (map snd (nodes t'))"
        using rows_end_take_mono [of "Suc i" "length (nodes t')" b "map snd (nodes t')"] i by simp
      also have "\<dots> \<le> rows_end b (segments t')"
        using rows_end_ge by (simp add: segments_def rows_end_append)
      finally show ?thesis using late segs by simp
    qed
    then show ?thesis using search_not_found [OF ns] False by (simp add: r)
  qed
  show "r = Some OutOfBounds" if "row < b" "segments t \<noteq> []" "length (segments t) < 2 ^ 63"
  proof -
    have len: "length (nodes t') \<le> length (segments t)" using segs by (metis le_add1 length_append length_map segments_def)
    have "nodes t' \<noteq> []" using go that(2) segs by (auto simp: segments_def)
    then show ?thesis using search_underflow [OF ns _ that(1)] len that(3) by (simp add: r)
  qed
qed



text \<open>Three segments of which only the first is loaded.\<close>

definition example_tree :: "nat segment_tree" where
  "example_tree = \<lparr>nodes = [(10, SegmentBase 10 5 0)], unloaded = [SegmentBase 15 0 1, SegmentBase 15 7 2],
     finished_loading = False\<rparr>"

lemma example_tree_wf: "tree_wf 10 example_tree" "segments example_tree = [SegmentBase 10 5 0, SegmentBase 15 0 1, SegmentBase 15 7 2]"
  by (simp_all add: example_tree_def tree_wf_def segments_def SegmentBase_def linked_def unlinked_def)


section \<open>The interface of the tree\<close>

lemma GetSegment_ok:
  assumes "tree_wf b t" "b \<le> row" "row < rows_end b (segments t)"
  shows "\<exists>t' i. GetSegment row t = (t', Some i) \<and> tree_wf b t' \<and> segments t' = segments t
    \<and> i < length (nodes t') \<and> holds_row (segments t ! i) row"
  using TryGetSegmentIndex_ok(1) [OF assms(1), of row] TryGetSegmentIndex_ok(2) [OF assms]
  by (auto simp: GetSegment_def split: prod.split option.split search_result.split)

lemma length_segments: "length (segments t) = length (nodes t) + length (unloaded t)"
  by (simp add: segments_def)

lemma GetSegmentByIndex_ok:
  assumes "tree_wf b t"
  shows "\<exists>t'. GetSegmentByIndex (int i) t = (t', if i < length (segments t) then Some i else None)
    \<and> tree_wf b t' \<and> segments t' = segments t \<and> (i < length (segments t) \<longrightarrow> i < length (nodes t'))
    \<and> length (nodes t) \<le> length (nodes t')"
proof -
  let ?t = "load_while (\<lambda>t. length (nodes t) \<le> i) t"
  have ok: "tree_wf b ?t" "segments ?t = segments t" "length (nodes ?t) \<le> i \<Longrightarrow> unloaded ?t = []"
    "length (nodes t) \<le> length (nodes ?t)"
    using load_while_ok [OF assms, of "\<lambda>t. length (nodes t) \<le> i"] by auto
  have "length (nodes ?t) \<le> i \<longleftrightarrow> length (segments t) \<le> i"
    using ok(3) length_segments [of ?t] ok(2) by auto
  then show ?thesis using ok by (auto simp: GetSegmentByIndex_def Let_def)
qed

lemma GetNextSegment_ok:
  assumes "tree_wf b t" "i < length (nodes t)"
  shows "\<exists>t'. GetNextSegment i t = (t', if Suc i < length (segments t) then Some (Suc i) else None)
    \<and> tree_wf b t' \<and> segments t' = segments t \<and> i < length (nodes t')
    \<and> (Suc i < length (segments t) \<longrightarrow> Suc i < length (nodes t'))"
proof (cases "finished_loading t")
  case True
  then have "unloaded t = []" using assms(1) by (simp add: tree_wf_def)
  then show ?thesis using True assms by (simp add: GetNextSegment_def tree_wf_def linked_def length_segments)
next
  case False
  from GetSegmentByIndex_ok [OF assms(1), of "Suc i"] obtain t' where t':
    "GetSegmentByIndex (int (Suc i)) t = (t', if Suc i < length (segments t) then Some (Suc i) else None)"
    "tree_wf b t'" "segments t' = segments t" "Suc i < length (segments t) \<longrightarrow> Suc i < length (nodes t')"
    "length (nodes t) \<le> length (nodes t')" by blast
  have "GetNextSegment i t = GetSegmentByIndex (int (Suc i)) t"
    using False by (simp add: GetNextSegment_def add.commute)
  then show ?thesis unfolding t'(1) using t'(2-) assms(2) by simp
qed

lemma GetLastSegment_ok:
  assumes "tree_wf b t"
  shows "GetLastSegment t = (LoadAllSegments t, if segments t = [] then None else Some (length (segments t) - 1))"
  using LoadAllSegments_ok [OF assms] length_segments [of "LoadAllSegments t"]
  by (cases "segments t") (auto simp: GetLastSegment_def Let_def)

lemma AppendSegment_ok:
  assumes "tree_wf b t" "sg_start s = rows_end b (segments t)"
  shows "tree_wf b (AppendSegment s t)" "segments (AppendSegment s t) = segments t @ [unlinked s]"
    "unloaded (AppendSegment s t) = []"
proof -
  let ?t = "LoadAllSegments t"
  note ok = LoadAllSegments_ok [OF assms(1)]
  show segs: "segments (AppendSegment s t) = segments t @ [unlinked s]"
    using link_last_map [of "nodes ?t"] ok by (simp add: segments_def AppendSegment_def AppendSegmentInternal_def)
  show "unloaded (AppendSegment s t) = []" using ok by (simp add: AppendSegment_def AppendSegmentInternal_def)
  have "contiguous b (segments (AppendSegment s t))"
    using assms unfolding segs tree_wf_def by (simp add: contiguous_append)
  moreover have "linked (nodes (AppendSegment s t))"
    using ok(1) linked_snoc [of "nodes ?t" "s\<lparr>sg_next := None\<rparr>"]
    by (simp add: AppendSegment_def AppendSegmentInternal_def tree_wf_def)
  moreover have "\<forall>(r, s)\<in>set (nodes (AppendSegment s t)). r = sg_start s"
    using ok(1) link_last_starts [of "nodes ?t"] by (auto simp: AppendSegment_def AppendSegmentInternal_def tree_wf_def)
  ultimately show "tree_wf b (AppendSegment s t)"
    using ok(3) by (simp add: tree_wf_def AppendSegment_def AppendSegmentInternal_def)
qed

end
