(* ===== verification/RowGroups.thy ===== *)
theory RowGroups
  imports RowVersions SegmentTree
begin

text \<open>
  Row groups and their collection, \<open>src/storage/table/row_group.cpp\<close> and \<open>row_group_collection.cpp\<close>: the
  versioned rows of a table.  The columns' data is left out: an appended chunk is its number of rows.
  A row group is a segment of the tree whose data is its version information.
\<close>

section \<open>Row groups\<close>

text \<open>\<open>deletes_pointers\<close> is, like \<open>storage_pointers\<close>, the items the metadata blocks hold; empty for none.\<close>

record row_group_data =
  version_info :: "row_version_manager option"
  deletes_pointers :: "item list"
  deletes_is_loaded :: bool

type_synonym row_group = "row_group_data segment"

abbreviation on_data :: "(row_group_data \<Rightarrow> row_group_data) \<Rightarrow> row_group \<Rightarrow> row_group" where
  "on_data f g \<equiv> g\<lparr>sg_data := f (sg_data g)\<rparr>"

definition RowGroup :: "nat \<Rightarrow> nat \<Rightarrow> row_group" where
  "RowGroup start cnt = SegmentBase start cnt \<lparr>version_info = None, deletes_pointers = [], deletes_is_loaded = False\<rparr>"

definition HasUnloadedDeletes :: "row_group \<Rightarrow> bool" where
  "HasUnloadedDeletes g = (if deletes_pointers (sg_data g) = [] then False else \<not> deletes_is_loaded (sg_data g))"

definition SetVersionInfo :: "row_version_manager option \<Rightarrow> row_group \<Rightarrow> row_group" where
  "SetVersionInfo v = on_data (\<lambda>d. d\<lparr>version_info := v\<rparr>)"

definition GetVersionInfo :: "row_group \<Rightarrow> version_error + row_group \<times> row_version_manager option" where
  "GetVersionInfo g =
     (if \<not> HasUnloadedDeletes g then Inr (g, version_info (sg_data g))
      else case Deserialize (deletes_pointers (sg_data g)) (sg_start g) of
             Inl e \<Rightarrow> Inl e
           | Inr loaded_info \<Rightarrow>
               Inr (on_data (\<lambda>d. d\<lparr>deletes_is_loaded := True\<rparr>) (SetVersionInfo loaded_info g), loaded_info))"

definition GetOrCreateVersionInfo :: "row_group \<Rightarrow> version_error + row_group \<times> row_version_manager" where
  "GetOrCreateVersionInfo g =
     (case GetVersionInfo g of
        Inl e \<Rightarrow> Inl e
      | Inr (g', Some v) \<Rightarrow> Inr (g', v)
      | Inr (g', None) \<Rightarrow>
          let v = RowVersionManager (sg_start g') in Inr (SetVersionInfo (Some v) g', v))"

text \<open>An operation on the version information, created when there is none.\<close>

definition with_vinfo ::
  "(row_version_manager \<Rightarrow> version_error + row_version_manager) \<Rightarrow> row_group \<Rightarrow> version_error + row_group" where
  "with_vinfo f g =
     (case GetOrCreateVersionInfo g of
        Inl e \<Rightarrow> Inl e
      | Inr (g', v) \<Rightarrow> (case f v of Inl e \<Rightarrow> Inl e | Inr v' \<Rightarrow> Inr (SetVersionInfo (Some v') g')))"

definition rg_AppendVersionInfo :: "nat \<Rightarrow> transaction_data \<Rightarrow> nat \<Rightarrow> row_group \<Rightarrow> version_error + row_group" where
  "rg_AppendVersionInfo row_group_size t cnt g =
     (let row_group_start = sg_count g;
          row_group_end = min (row_group_start + cnt) row_group_size
      in case with_vinfo (\<lambda>v. AppendVersionInfo v t row_group_start row_group_end) g of
           Inl e \<Rightarrow> Inl e
         | Inr g' \<Rightarrow> Inr (g'\<lparr>sg_count := row_group_end\<rparr>))"

definition rg_CommitAppend :: "transaction_t \<Rightarrow> nat \<Rightarrow> nat \<Rightarrow> row_group \<Rightarrow> version_error + row_group" where
  "rg_CommitAppend commit_id row_group_start cnt = with_vinfo (\<lambda>v. rvm_CommitAppend v commit_id row_group_start cnt)"

definition rg_RevertAppend :: "nat \<Rightarrow> row_group \<Rightarrow> version_error + row_group" where
  "rg_RevertAppend row_group_start g =
     (case with_vinfo (\<lambda>v. Inr (RevertAppend v (row_group_start - sg_start g))) g of
        Inl e \<Rightarrow> Inl e
      | Inr g' \<Rightarrow> Inr (g'\<lparr>sg_count := min (row_group_start - sg_start g') (sg_count g')\<rparr>))"

definition rg_CleanupAppend :: "transaction_t \<Rightarrow> nat \<Rightarrow> nat \<Rightarrow> row_group \<Rightarrow> version_error + row_group" where
  "rg_CleanupAppend lowest start cnt = with_vinfo (\<lambda>v. Inr (CleanupAppend v lowest start cnt))"

definition rg_GetSelVector ::
  "transaction_data \<Rightarrow> nat \<Rightarrow> sel_vector \<Rightarrow> nat \<Rightarrow> row_group \<Rightarrow> version_error + row_group \<times> nat \<times> sel_vector" where
  "rg_GetSelVector t vector_idx sel max_count g =
     (case GetVersionInfo g of
        Inl e \<Rightarrow> Inl e
      | Inr (g', None) \<Rightarrow> Inr (g', max_count, sel)
      | Inr (g', Some v) \<Rightarrow> Inr (g', rvm_GetSelVector v t vector_idx sel max_count))"

definition rg_Fetch :: "transaction_data \<Rightarrow> nat \<Rightarrow> row_group \<Rightarrow> version_error + row_group \<times> bool" where
  "rg_Fetch t row g =
     (case GetVersionInfo g of
        Inl e \<Rightarrow> Inl e
      | Inr (g', None) \<Rightarrow> Inr (g', True)
      | Inr (g', Some v) \<Rightarrow> Inr (g', rvm_Fetch v t row))"

definition rg_GetCommittedRowCount :: "row_group \<Rightarrow> version_error + row_group \<times> nat" where
  "rg_GetCommittedRowCount g =
     (case GetVersionInfo g of
        Inl e \<Rightarrow> Inl e
      | Inr (g', None) \<Rightarrow> Inr (g', sg_count g')
      | Inr (g', Some v) \<Rightarrow> Inr (g', sg_count g' - rvm_GetCommittedDeletedCount v (sg_count g')))"

definition rg_MoveToCollection :: "nat \<Rightarrow> row_group \<Rightarrow> version_error + row_group" where
  "rg_MoveToCollection new_start g =
     (let g1 = g\<lparr>sg_start := new_start\<rparr>
      in if \<not> HasUnloadedDeletes g1 then
           (case GetVersionInfo g1 of
              Inl e \<Rightarrow> Inl e
            | Inr (g2, None) \<Rightarrow> Inr g2
            | Inr (g2, Some v) \<Rightarrow> Inr (SetVersionInfo (Some (SetStart v new_start)) g2))
         else Inr g1)"

section \<open>Deleting rows of a row group\<close>

text \<open>
  What \<open>DuckTransaction::PushDelete\<close> records in the undo buffer; \<open>du_version_info\<close> is the row group the
  version information of which the entry points to.
\<close>

record delete_undo =
  du_version_info :: nat
  du_base_row :: nat
  du_info :: delete_info

definition PushDelete :: "nat \<Rightarrow> nat \<Rightarrow> (nat \<Rightarrow> nat) \<Rightarrow> nat \<Rightarrow> nat \<Rightarrow> delete_undo" where
  "PushDelete info vector_idx rows cnt base_row =
     (let is_consecutive = list_all (\<lambda>i. rows i = i) [0..<cnt]
      in \<lparr>du_version_info = info, du_base_row = base_row, du_info = \<lparr>di_vector_idx = vector_idx, di_count = cnt,
           di_is_consecutive = is_consecutive, di_rows = (if is_consecutive then (\<lambda>_. 0) else rows)\<rparr>\<rparr>)"

text \<open>\<open>VersionDeleteState\<close>; the row group and the transaction's undo entries are the state it writes to.\<close>

record delete_state =
  ds_info :: nat
  ds_group :: row_group
  ds_undo :: "delete_undo list"
  current_chunk :: "nat option"
  ds_rows :: "nat \<Rightarrow> nat"
  ds_count :: nat
  chunk_row :: nat
  delete_count :: nat

definition VersionDeleteState :: "nat \<Rightarrow> row_group \<Rightarrow> delete_state" where
  "VersionDeleteState info g = \<lparr>ds_info = info, ds_group = g, ds_undo = [], current_chunk = None, ds_rows = (\<lambda>_. 0), ds_count = 0,
     chunk_row = 0, delete_count = 0\<rparr>"

definition rg_DeleteRows ::
  "nat \<Rightarrow> transaction_t \<Rightarrow> (nat \<Rightarrow> nat) \<Rightarrow> nat \<Rightarrow> row_group \<Rightarrow>
   version_error + row_group \<times> (nat \<Rightarrow> nat) \<times> (version_error + nat)" where
  "rg_DeleteRows vector_idx transaction_id rows cnt g =
     (case GetOrCreateVersionInfo g of
        Inl e \<Rightarrow> Inl e
      | Inr (g', v) \<Rightarrow>
          (let (v', rows', r) = DeleteRows v vector_idx transaction_id rows cnt
           in Inr (SetVersionInfo (Some v') g', rows', r)))"

text \<open>
  An exception carries the state it leaves: rows marked before a conflict stay marked until the
  transaction rolls back.
\<close>

definition delete_Flush ::
  "bool \<Rightarrow> nat \<Rightarrow> transaction_t \<Rightarrow> delete_state \<Rightarrow> (version_error \<times> delete_state) + delete_state" where
  "delete_Flush has_transaction base_row transaction_id s =
     (if ds_count s = 0 then Inr s
      else case rg_DeleteRows (the (current_chunk s)) transaction_id (ds_rows s) (ds_count s) (ds_group s) of
             Inl e \<Rightarrow> Inl (e, s)
           | Inr (g, rows, Inl e) \<Rightarrow> Inl (e, s\<lparr>ds_group := g, ds_rows := rows\<rparr>)
           | Inr (g, rows, Inr actual_delete_count) \<Rightarrow>
               Inr (s\<lparr>ds_group := g, ds_rows := rows, delete_count := delete_count s + actual_delete_count,
                      ds_undo := (if has_transaction \<and> actual_delete_count > 0
                        then ds_undo s @ [PushDelete (ds_info s) (the (current_chunk s)) rows actual_delete_count (base_row + chunk_row s)]
                        else ds_undo s),
                      ds_count := 0\<rparr>))"

definition delete_Delete ::
  "bool \<Rightarrow> nat \<Rightarrow> transaction_t \<Rightarrow> nat \<Rightarrow> delete_state \<Rightarrow> (version_error \<times> delete_state) + delete_state" where
  "delete_Delete has_transaction base_row transaction_id row_id s =
     (let vector_idx = row_id div STANDARD_VECTOR_SIZE;
          idx_in_vector = row_id - vector_idx * STANDARD_VECTOR_SIZE;
          add = (\<lambda>s. s\<lparr>ds_rows := (ds_rows s)(ds_count s := idx_in_vector), ds_count := Suc (ds_count s)\<rparr>)
      in if current_chunk s \<noteq> Some vector_idx then
           (case delete_Flush has_transaction base_row transaction_id s of
              Inl e \<Rightarrow> Inl e
            | Inr s' \<Rightarrow> Inr (add (s'\<lparr>current_chunk := Some vector_idx, chunk_row := vector_idx * STANDARD_VECTOR_SIZE\<rparr>)))
         else Inr (add s))"

fun delete_rows_loop ::
  "bool \<Rightarrow> nat \<Rightarrow> transaction_t \<Rightarrow> nat list \<Rightarrow> delete_state \<Rightarrow> (version_error \<times> delete_state) + delete_state" where
  "delete_rows_loop ht base tid [] s = delete_Flush ht base tid s"
| "delete_rows_loop ht base tid (i # ids) s =
     (case delete_Delete ht base tid (i - base) s of Inl e \<Rightarrow> Inl e | Inr s' \<Rightarrow> delete_rows_loop ht base tid ids s')"

definition rg_Delete ::
  "bool \<Rightarrow> transaction_t \<Rightarrow> nat list \<Rightarrow> nat \<Rightarrow> row_group \<Rightarrow> (version_error \<times> delete_state) + delete_state" where
  "rg_Delete has_transaction transaction_id ids this g =
     delete_rows_loop has_transaction (sg_start g) transaction_id ids (VersionDeleteState this g)"

section \<open>The collection\<close>

record row_group_collection =
  row_groups :: "row_group_data segment_tree"
  row_group_size :: nat
  total_rows :: nat
  row_start :: nat

definition RowGroupCollection :: "nat \<Rightarrow> nat \<Rightarrow> nat \<Rightarrow> row_group_collection" where
  "RowGroupCollection start rows gsize =
     \<lparr>row_groups = empty_segment_tree, row_group_size = gsize, total_rows = rows, row_start = start\<rparr>"

definition put_group :: "nat \<Rightarrow> row_group \<Rightarrow> row_group_data segment_tree \<Rightarrow> row_group_data segment_tree" where
  "put_group i g t = t\<lparr>nodes := (nodes t)[i := (fst (nodes t ! i), g)]\<rparr>"

definition AppendRowGroup :: "nat \<Rightarrow> row_group_data segment_tree \<Rightarrow> row_group_data segment_tree" where
  "AppendRowGroup start_row t = AppendSegment (RowGroup start_row 0) t"

text \<open>
  Row groups hold at most \<open>row_group_size\<close> rows and a row is addressed in the group that holds it, so the
  differences below do not wrap around.  The append state; \<open>append_group\<close> and \<open>start_row_group\<close> are indexes of row
  groups, as all pointers to them.
\<close>

record table_append_state =
  as_row_start :: nat
  as_current_row :: nat
  total_append_count :: nat
  start_row_group :: "nat option"
  append_group :: nat
  offset_in_row_group :: nat

definition InitializeAppend ::
  "row_group_collection \<Rightarrow> (row_group_collection \<times> table_append_state) option" where
  "InitializeAppend c =
     (let (t0, is_empty) = tree_IsEmpty (row_groups c);
          t1 = (if is_empty then AppendRowGroup (row_start c) t0 else t0)
      in case GetLastSegment t1 of
           (t2, None) \<Rightarrow> None
         | (t2, Some i) \<Rightarrow>
             Some (c\<lparr>row_groups := t2\<rparr>,
               \<lparr>as_row_start = total_rows c, as_current_row = total_rows c, total_append_count = 0, start_row_group = Some i,
                append_group = i, offset_in_row_group = sg_count (snd (nodes t2 ! i))\<rparr>))"

text \<open>
  \<open>Append\<close> of a chunk of \<open>n\<close> rows: the loop fills the current row group and opens further ones; it
  returns whether it did.
\<close>

partial_function (option) append_loop ::
  "nat \<Rightarrow> nat \<Rightarrow> bool \<Rightarrow> row_group_data segment_tree \<Rightarrow> table_append_state \<Rightarrow>
   (row_group_data segment_tree \<times> table_append_state \<times> bool) option" where
  [code]: "append_loop gsize remaining new_row_group t s =
     (let append_count = min remaining (gsize - offset_in_row_group s);
          s1 = s\<lparr>offset_in_row_group := offset_in_row_group s + append_count\<rparr>
      in if remaining - append_count > 0 then
           (let next_start = sg_start (snd (nodes t ! append_group s1)) + offset_in_row_group s1
            in case GetLastSegment (AppendRowGroup next_start t) of
                 (t', None) \<Rightarrow> None
               | (t', Some i) \<Rightarrow>
                   append_loop gsize (remaining - append_count) True t'
                     (s1\<lparr>append_group := i, offset_in_row_group := sg_count (snd (nodes t' ! i))\<rparr>))
         else Some (t, s1, new_row_group))"

definition coll_Append ::
  "nat \<Rightarrow> row_group_collection \<times> table_append_state \<Rightarrow> (row_group_collection \<times> table_append_state \<times> bool) option" where
  "coll_Append n cs =
     (let (c, s) = cs
      in map_option (\<lambda>(t, s', new). (c\<lparr>row_groups := t\<rparr>, s'\<lparr>as_current_row := as_current_row s' + n\<rparr>, new))
           (append_loop (row_group_size c) n False (row_groups c)
              (s\<lparr>total_append_count := total_append_count s + n\<rparr>)))"

text \<open>
  The loops over row groups end with the row groups: \<open>None\<close> would be an endless loop, a null
  dereference is an error.
\<close>

partial_function (option) finalize_loop ::
  "nat \<Rightarrow> transaction_data \<Rightarrow> nat \<Rightarrow> nat option \<Rightarrow> row_group_data segment_tree \<Rightarrow>
   (version_error + row_group_data segment_tree) option" where
  [code]: "finalize_loop gsize td remaining i t =
     (if remaining = 0 then Some (Inr t)
      else case i of
             None \<Rightarrow> Some (Inl NullDereference)
           | Some i \<Rightarrow>
               (let g = snd (nodes t ! i); append_count = min remaining (gsize - sg_count g)
                in case rg_AppendVersionInfo gsize td append_count g of
                     Inl e \<Rightarrow> Some (Inl e)
                   | Inr g' \<Rightarrow>
                       (case GetNextSegment i (put_group i g' t) of
                          (t', next) \<Rightarrow> finalize_loop gsize td (remaining - append_count) next t')))"

definition FinalizeAppend ::
  "transaction_data \<Rightarrow> row_group_collection \<times> table_append_state \<Rightarrow>
   (version_error + row_group_collection \<times> table_append_state) option" where
  "FinalizeAppend td cs =
     (let (c, s) = cs
      in map_option (map_sum id (\<lambda>t. (c\<lparr>row_groups := t, total_rows := total_rows c + total_append_count s\<rparr>,
                                     s\<lparr>total_append_count := 0, start_row_group := None\<rparr>)))
           (finalize_loop (row_group_size c) td (total_append_count s) (start_row_group s) (row_groups c)))"

text \<open>
  The loop that \<open>CommitAppend\<close> and \<open>CleanupAppend\<close> share: the rows from \<open>current_row\<close> on, row group by
  row group.
\<close>

partial_function (option) range_loop ::
  "(nat \<Rightarrow> nat \<Rightarrow> row_group \<Rightarrow> version_error + row_group) \<Rightarrow> nat \<Rightarrow> nat \<Rightarrow> nat option \<Rightarrow>
   row_group_data segment_tree \<Rightarrow> (version_error + row_group_data segment_tree) option" where
  [code]: "range_loop f current_row remaining i t =
     (case i of
        None \<Rightarrow> Some (Inl NullDereference)
      | Some i \<Rightarrow>
          (let g = snd (nodes t ! i);
               start_in_row_group = current_row - sg_start g;
               append_count = min (sg_count g - start_in_row_group) remaining
           in case f start_in_row_group append_count g of
                Inl e \<Rightarrow> Some (Inl e)
              | Inr g' \<Rightarrow>
                  (if remaining - append_count = 0 then Some (Inr (put_group i g' t))
                   else case GetNextSegment i (put_group i g' t) of
                          (t', next) \<Rightarrow> range_loop f (current_row + append_count) (remaining - append_count) next t')))"

definition on_range ::
  "(nat \<Rightarrow> nat \<Rightarrow> row_group \<Rightarrow> version_error + row_group) \<Rightarrow> nat \<Rightarrow> nat \<Rightarrow> row_group_collection \<Rightarrow>
   (version_error + row_group_collection) option" where
  "on_range f start cnt c =
     (case GetSegment start (row_groups c) of
        (t, None) \<Rightarrow> Some (Inl InternalError)
      | (t, Some i) \<Rightarrow> map_option (map_sum id (\<lambda>t'. c\<lparr>row_groups := t'\<rparr>)) (range_loop f start cnt (Some i) t))"

definition coll_CommitAppend ::
  "transaction_t \<Rightarrow> nat \<Rightarrow> nat \<Rightarrow> row_group_collection \<Rightarrow> (version_error + row_group_collection) option" where
  "coll_CommitAppend commit_id = on_range (rg_CommitAppend commit_id)"

definition coll_CleanupAppend ::
  "transaction_t \<Rightarrow> nat \<Rightarrow> nat \<Rightarrow> row_group_collection \<Rightarrow> (version_error + row_group_collection) option" where
  "coll_CleanupAppend lowest = on_range (rg_CleanupAppend lowest)"

definition RevertAppendInternal :: "nat \<Rightarrow> row_group_collection \<Rightarrow> (version_error + row_group_collection) option" where
  "RevertAppendInternal start_row c =
     (let t0 = row_groups c; segment_count = GetSegmentCount t0; c1 = c\<lparr>total_rows := start_row\<rparr>
      in if segment_count = 0 then Some (Inr c1)
         else case TryGetSegmentIndex start_row t0 of
                (t1, None) \<Rightarrow> None
              | (t1, Some r) \<Rightarrow>
                  (let segment_index = (case r of Found i \<Rightarrow> i | _ \<Rightarrow> segment_count - 1)
                   in case GetSegmentByIndex (int segment_index) t1 of
                        (t2, None) \<Rightarrow> Some (Inl NullDereference)
                      | (t2, Some i) \<Rightarrow>
                          (let t3 = EraseSegments i t2; g = (snd (nodes t3 ! i))\<lparr>sg_next := None\<rparr>
                           in Some (map_sum id (\<lambda>g'. c1\<lparr>row_groups := put_group i g' t3\<rparr>) (rg_RevertAppend start_row g)))))"

text \<open>
  The ids that belong to the row group of the first one, and the loop over the ids; the caller passes at
  least one.
\<close>

definition in_group :: "row_group \<Rightarrow> nat \<Rightarrow> bool" where
  "in_group g i \<longleftrightarrow> \<not> (i < sg_start g) \<and> \<not> (sg_start g + sg_count g \<le> i)"

function coll_Delete ::
  "bool \<Rightarrow> transaction_t \<Rightarrow> nat list \<Rightarrow> row_group_collection \<Rightarrow>
   row_group_collection \<times> delete_undo list \<times> (version_error + nat)" where
  "coll_Delete ht tid [] c = (c, [], Inr 0)"
| "coll_Delete ht tid (i # ids) c =
     (case GetSegment i (row_groups c) of
        (t, None) \<Rightarrow> (c\<lparr>row_groups := t\<rparr>, [], Inl InternalError)
      | (t, Some k) \<Rightarrow>
          (let g = snd (nodes t ! k); run = takeWhile (in_group g) ids; rest = dropWhile (in_group g) ids
           in case rg_Delete ht tid (i # run) k g of
                Inl (e, s) \<Rightarrow> (c\<lparr>row_groups := put_group k (ds_group s) t\<rparr>, ds_undo s, Inl e)
              | Inr s \<Rightarrow>
                  (let c' = c\<lparr>row_groups := put_group k (ds_group s) t\<rparr>
                   in if rest = [] then (c', ds_undo s, Inr (delete_count s))
                      else case coll_Delete ht tid rest c' of
                             (c'', undo, r) \<Rightarrow> (c'', ds_undo s @ undo, map_sum id (\<lambda>n. delete_count s + n) r))))"
  by pat_completeness auto
termination
  by (relation "measure (\<lambda>(ht, tid, ids, c). length ids)") (auto simp: less_Suc_eq_le length_dropWhile_le)

text \<open>\<open>MergeStorage\<close>: the row groups of \<open>d\<close> are moved behind those of \<open>c\<close>.\<close>

fun move_groups ::
  "nat \<Rightarrow> (nat \<times> row_group) list \<Rightarrow> row_group_data segment_tree \<Rightarrow> version_error + row_group_data segment_tree" where
  "move_groups index [] t = Inr t"
| "move_groups index ((_, g) # gs) t =
     (case rg_MoveToCollection index g of
        Inl e \<Rightarrow> Inl e
      | Inr g' \<Rightarrow> move_groups (index + sg_count g') gs (AppendSegment g' t))"

definition MergeStorage :: "row_group_collection \<Rightarrow> row_group_collection \<Rightarrow> version_error + row_group_collection" where
  "MergeStorage c d =
     (let start_index = row_start c + total_rows c; (_, segs) = MoveSegments (row_groups d)
      in map_sum id (\<lambda>t. c\<lparr>row_groups := t, total_rows := total_rows c + total_rows d\<rparr>)
           (move_groups start_index segs (row_groups c)))"

end
