(* ===== verification/TableRows.thy ===== *)
theory TableRows
  imports RowGroups
begin

text \<open>
  What the operations of a row group collection do to the rows of the table: the abstract view is the
  list of the versions of all rows, and appending and committing are updates of that list, over any number
  of row groups.
\<close>

section \<open>The version information of a row group\<close>

definition loads :: "row_group \<Rightarrow> bool" where
  "loads g \<longleftrightarrow> (\<exists>x. GetVersionInfo g = Inr x)"

definition loaded_manager :: "row_group \<Rightarrow> row_version_manager" where
  "loaded_manager g = (case GetVersionInfo g of Inr (_, Some v) \<Rightarrow> v | _ \<Rightarrow> RowVersionManager (sg_start g))"

definition same_extent :: "row_group \<Rightarrow> row_group \<Rightarrow> bool" where
  "same_extent g g' \<longleftrightarrow> sg_start g' = sg_start g \<and> sg_count g' = sg_count g \<and> sg_next g' = sg_next g"

text \<open>
  No vector is a constant info with a deletion id (which a load makes of an entirely deleted vector), and
  the version information is loaded.
\<close>

definition no_dropped :: "row_group \<Rightarrow> bool" where
  "no_dropped g \<longleftrightarrow> (\<forall>v. not_dropped (info_at (vector_info (loaded_manager g)) v))"

definition attached :: "row_group \<Rightarrow> bool" where
  "attached g \<longleftrightarrow> \<not> HasUnloadedDeletes g \<and> version_info (sg_data g) = Some (loaded_manager g)"

lemma manager_cong:
  assumes "sg_start g' = sg_start g" "sg_data g' = sg_data g"
  shows "loads g' = loads g" "loaded_manager g' = loaded_manager g"
  using assms
  by (auto simp: loads_def loaded_manager_def GetVersionInfo_def HasUnloadedDeletes_def SetVersionInfo_def
      split: sum.split option.split)

lemma manager_unlinked [simp]: "loads (unlinked g) = loads g" "loaded_manager (unlinked g) = loaded_manager g"
  by (rule manager_cong; simp)+

lemma infos_unlinked [simp]: "no_dropped (unlinked g) = no_dropped g" "attached (unlinked g) = attached g"
  by (simp_all add: no_dropped_def attached_def HasUnloadedDeletes_def)

lemma manager_count [simp]: "loads (g\<lparr>sg_count := n\<rparr>) = loads g" "loaded_manager (g\<lparr>sg_count := n\<rparr>) = loaded_manager g"
  by (rule manager_cong; simp)+

lemma manager_next [simp]: "loads (g\<lparr>sg_next := n\<rparr>) = loads g" "loaded_manager (g\<lparr>sg_next := n\<rparr>) = loaded_manager g"
  by (rule manager_cong; simp)+

lemma manager_fresh [simp]: "loads (RowGroup st n)" "loaded_manager (RowGroup st n) = RowVersionManager st"
  by (simp_all add: loads_def loaded_manager_def GetVersionInfo_def HasUnloadedDeletes_def RowGroup_def SegmentBase_def)

lemma GetOrCreateVersionInfo_ok:
  assumes "loads g"
  shows "\<exists>g'. GetOrCreateVersionInfo g = Inr (g', loaded_manager g) \<and> same_extent g g' \<and> \<not> HasUnloadedDeletes g'
    \<and> version_info (sg_data g') = Some (loaded_manager g)"
proof -
  obtain g' v where g: "GetVersionInfo g = Inr (g', v)" using assms by (auto simp: loads_def)
  then have "\<not> HasUnloadedDeletes g'" "same_extent g g'" "version_info (sg_data g') = v"
    by (auto simp: GetVersionInfo_def HasUnloadedDeletes_def SetVersionInfo_def same_extent_def split: if_splits sum.splits)
  then show ?thesis
    using g by (cases v) (auto simp: GetOrCreateVersionInfo_def loaded_manager_def SetVersionInfo_def Let_def
        HasUnloadedDeletes_def same_extent_def)
qed

lemma manager_set:
  assumes "\<not> HasUnloadedDeletes g"
  shows "loads (SetVersionInfo (Some v) g)" "loaded_manager (SetVersionInfo (Some v) g) = v"
    "same_extent g (SetVersionInfo (Some v) g)" "attached (SetVersionInfo (Some v) g)"
  using assms
  by (auto simp: attached_def loads_def loaded_manager_def GetVersionInfo_def HasUnloadedDeletes_def SetVersionInfo_def same_extent_def
      split: if_splits)

lemma same_extent_trans: "same_extent a b \<Longrightarrow> same_extent b c \<Longrightarrow> same_extent a c"
  by (simp add: same_extent_def)

lemma with_vinfo_ok:
  assumes "loads g" "f (loaded_manager g) = Inr v"
  shows "\<exists>g'. with_vinfo f g = Inr g' \<and> loads g' \<and> loaded_manager g' = v \<and> same_extent g g' \<and> attached g'"
proof -
  from GetOrCreateVersionInfo_ok [OF assms(1)] obtain g1 where
    "GetOrCreateVersionInfo g = Inr (g1, loaded_manager g)" "same_extent g g1" "\<not> HasUnloadedDeletes g1" by blast
  then show ?thesis using assms(2) manager_set same_extent_trans by (simp add: with_vinfo_def)
qed

section \<open>The rows of a row group\<close>

definition group_rows :: "row_group \<Rightarrow> row_version list" where
  "group_rows g = map (row_version_at (loaded_manager g)) [0..<sg_count g]"

definition group_wf :: "nat \<Rightarrow> row_group \<Rightarrow> bool" where
  "group_wf gsize g \<longleftrightarrow> loads g \<and> rvm_wf (sg_count g) (loaded_manager g) \<and> sg_count g \<le> gsize
     \<and> (\<forall>r\<ge>sg_count g. snd (row_version_at (loaded_manager g) r) = NOT_DELETED_ID)"

definition valid_size :: "nat \<Rightarrow> bool" where
  "valid_size gsize \<longleftrightarrow> 0 < gsize \<and> STANDARD_VECTOR_SIZE dvd gsize"

lemma length_group_rows [simp]: "length (group_rows g) = sg_count g"
  by (simp add: group_rows_def)

lemma group_rows_nth: "i < sg_count g \<Longrightarrow> group_rows g ! i = row_version_at (loaded_manager g) i"
  by (simp add: group_rows_def)

lemma group_unlinked [simp]: "group_rows (unlinked g) = group_rows g" "group_wf n (unlinked g) = group_wf n g"
  by (simp_all add: group_rows_def group_wf_def)

lemma fresh_manager: "rvm_wf n (RowVersionManager st)" "row_version_at (RowVersionManager st) r = (0, NOT_DELETED_ID)"
  by (simp_all add: RowVersionManager_def rvm_wf_def info_at_def row_version_at_def version_in_def)

lemma group_fresh [simp]: "group_rows (RowGroup st 0) = []" "group_wf n (RowGroup st 0)"
  by (simp_all add: group_rows_def group_wf_def fresh_manager)
    (simp_all add: RowGroup_def SegmentBase_def)

section \<open>The rows of a collection\<close>

abbreviation groups :: "row_group_collection \<Rightarrow> row_group list" where
  "groups c \<equiv> segments (row_groups c)"

definition coll_rows :: "row_group_collection \<Rightarrow> row_version list" where
  "coll_rows c = concat (map group_rows (groups c))"

definition coll_wf :: "row_group_collection \<Rightarrow> bool" where
  "coll_wf c \<longleftrightarrow> tree_wf (row_start c) (row_groups c) \<and> (\<forall>g\<in>set (groups c). group_wf (row_group_size c) g)
     \<and> valid_size (row_group_size c) \<and> row_start c + total_rows c = rows_end (row_start c) (groups c)"

definition extents :: "row_group_collection \<Rightarrow> (nat \<times> nat) list" where
  "extents c = map (\<lambda>g. (sg_start g, sg_count g)) (groups c)"

lemma rows_end_length: "rows_end b gs = b + length (concat (map group_rows gs))"
  by (induction gs arbitrary: b) (auto simp: add.assoc)

lemma length_coll_rows: "coll_wf c \<Longrightarrow> length (coll_rows c) = total_rows c"
  using rows_end_length [of "row_start c" "groups c"] by (simp add: coll_wf_def coll_rows_def)

section \<open>Appending\<close>

subsection \<open>To a row group\<close>

lemma append_nothing:
  assumes "rvm_wf n m" "STANDARD_VECTOR_SIZE dvd n" "0 < n"
  shows "\<exists>m'. AppendVersionInfo m t n n = Inr m' \<and> rvm_wf n m' \<and> row_version_at m' = row_version_at m"
proof -
  obtain k where k: "n = STANDARD_VECTOR_SIZE * k" using assms(2) by blast
  have "last_vector n < first_vector n"
    using assms(3) by (simp add: k last_vector_def first_vector_def STANDARD_VECTOR_SIZE_def)
  then have "touched n n = []" by (simp add: touched_def)
  then show ?thesis
    using assms(1) by (auto simp: AppendVersionInfo_def rvm_wf_def row_version_at_def version_in_def fun_eq_iff)
qed

lemma rg_AppendVersionInfo_ok:
  assumes wf: "group_wf gsize g" and sz: "valid_size gsize" and n: "n \<le> gsize - sg_count g"
    and full: "n = 0 \<Longrightarrow> sg_count g = gsize"
  shows "\<exists>g'. rg_AppendVersionInfo gsize t n g = Inr g' \<and> group_wf gsize g' \<and> sg_start g' = sg_start g
    \<and> sg_next g' = sg_next g \<and> sg_count g' = sg_count g + n
    \<and> group_rows g' = group_rows g @ replicate n (td_transaction_id t, NOT_DELETED_ID)"
proof -
  let ?m = "loaded_manager g" and ?a = "sg_count g" and ?v = "(td_transaction_id t, NOT_DELETED_ID)"
  have e: "min (?a + n) gsize = ?a + n" using wf n by (auto simp: group_wf_def)
  have m: "rvm_wf ?a ?m" "\<forall>r\<ge>?a. snd (row_version_at ?m r) = NOT_DELETED_ID" "loads g"
    using wf by (simp_all add: group_wf_def)
  have "\<exists>m'. AppendVersionInfo ?m t ?a (?a + n) = Inr m' \<and> rvm_wf (?a + n) m'
      \<and> (\<forall>r. row_version_at m' r = (if ?a \<le> r \<and> r < ?a + n then ?v else row_version_at ?m r))"
  proof (cases "n = 0")
    case True
    then have "?a = gsize" by (rule full)
    then show ?thesis using append_nothing [OF m(1), of t] sz True by (auto simp: valid_size_def)
  next
    case False
    then show ?thesis using AppendVersionInfo_ok [OF m(1) _ m(2), of "?a + n" t] by auto
  qed
  then obtain m' where m': "AppendVersionInfo ?m t ?a (?a + n) = Inr m'" "rvm_wf (?a + n) m'"
    "\<And>r. row_version_at m' r = (if ?a \<le> r \<and> r < ?a + n then ?v else row_version_at ?m r)" by blast
  from with_vinfo_ok [OF m(3), of "\<lambda>v. AppendVersionInfo v t ?a (?a + n)", OF m'(1)] obtain g' where
    g': "with_vinfo (\<lambda>v. AppendVersionInfo v t ?a (?a + n)) g = Inr g'" "loads g'" "loaded_manager g' = m'" "same_extent g g'"
    by blast
  let ?g = "g'\<lparr>sg_count := ?a + n\<rparr>"
  have "rg_AppendVersionInfo gsize t n g = Inr ?g" by (simp add: rg_AppendVersionInfo_def Let_def e g'(1))
  moreover have "group_rows ?g = group_rows g @ replicate n ?v"
    by (rule nth_equalityI) (auto simp: group_rows_nth nth_append g'(3) m'(3))
  moreover have "group_wf gsize ?g"
    using g' m'(2) m(2) wf n by (auto simp: group_wf_def m'(3))
  ultimately show ?thesis using g'(4) by (intro exI [of _ ?g]) (simp add: same_extent_def)
qed

subsection \<open>Opening row groups\<close>

text \<open>
  While a chunk is appended the counts of the row groups do not change, only the new groups are opened:
  \<open>fresh_groups gsize st n\<close> are the groups that \<open>n\<close> rows from row \<open>st\<close> on need.
\<close>

function fresh_groups :: "nat \<Rightarrow> nat \<Rightarrow> nat \<Rightarrow> row_group list" where
  "fresh_groups gsize st n =
     (if n = 0 \<or> gsize = 0 then [] else RowGroup st 0 # fresh_groups gsize (st + gsize) (n - gsize))"
  by pat_completeness auto
termination
  by (relation "measure (\<lambda>(gsize, st, n). n)") auto

declare fresh_groups.simps [simp del]

definition tree_shape :: "'a segment_tree \<Rightarrow> bool" where
  "tree_shape t \<longleftrightarrow> (\<forall>(r, s)\<in>set (nodes t). r = sg_start s) \<and> linked (nodes t) \<and> finished_loading t \<and> unloaded t = []"

lemma shape_wf: "tree_shape t \<Longrightarrow> tree_wf b t \<longleftrightarrow> contiguous b (segments t)"
  by (simp add: tree_wf_def tree_shape_def)

lemma Load_shape: "tree_shape t \<Longrightarrow> LoadAllSegments t = t"
  by (simp add: LoadAllSegments_def load_while.simps LoadNextSegment_def tree_shape_def)

lemma wf_load_shape:
  assumes "tree_wf b t"
  shows "tree_shape (LoadAllSegments t)"
proof -
  have "finished_loading (load_while (\<lambda>_. True) t)"
  proof (induction "length (unloaded t)" arbitrary: t)
    case 0
    then show ?case by (simp add: load_while.simps LoadNextSegment_def)
  next
    case (Suc n)
    then show ?case
      by (subst load_while.simps) (auto simp: LoadNextSegment_def AppendSegmentInternal_def split: list.split)
  qed
  then show ?thesis
    using LoadAllSegments_ok [OF assms] by (simp add: tree_shape_def tree_wf_def LoadAllSegments_def)
qed

lemma AppendSegment_shape:
  assumes "tree_shape t"
  shows "tree_shape (AppendSegment s t)" "segments (AppendSegment s t) = segments t @ [unlinked s]"
proof -
  have a: "AppendSegment s t = AppendSegmentInternal s t" by (simp add: AppendSegment_def Load_shape [OF assms])
  show "segments (AppendSegment s t) = segments t @ [unlinked s]"
    using link_last_map [of "nodes t"] assms by (simp add: a segments_def AppendSegmentInternal_def tree_shape_def)
  have "linked (link_last (nodes t) @ [(sg_start s, s\<lparr>sg_next := None\<rparr>)])"
    using linked_snoc [of "nodes t" "s\<lparr>sg_next := None\<rparr>"] assms by (simp add: tree_shape_def)
  moreover have "\<forall>(r, s)\<in>set (link_last (nodes t)). r = sg_start s"
    using link_last_starts assms unfolding tree_shape_def by blast
  ultimately show "tree_shape (AppendSegment s t)"
    using assms by (auto simp: a AppendSegmentInternal_def tree_shape_def)
qed

lemma GetLastSegment_shape:
  "tree_shape t \<Longrightarrow> GetLastSegment t = (t, if segments t = [] then None else Some (length (segments t) - 1))"
  by (simp add: GetLastSegment_def Load_shape length_segments) (simp add: tree_shape_def segments_def)

lemma shape_nth:
  assumes "tree_shape t" "i < length (segments t)"
  shows "i < length (nodes t)" "unlinked (snd (nodes t ! i)) = segments t ! i"
    "sg_start (snd (nodes t ! i)) = sg_start (segments t ! i)" "sg_count (snd (nodes t ! i)) = sg_count (segments t ! i)"
proof -
  show "i < length (nodes t)" using assms by (simp add: length_segments tree_shape_def)
  from segments_nth [OF this] show "unlinked (snd (nodes t ! i)) = segments t ! i" by simp
  then show "sg_start (snd (nodes t ! i)) = sg_start (segments t ! i)" "sg_count (snd (nodes t ! i)) = sg_count (segments t ! i)"
    by (metis unlinked_simps(1), metis unlinked_simps(2))
qed

lemma unlinked_RowGroup [simp]: "unlinked (RowGroup st n) = RowGroup st n"
  by (simp add: RowGroup_def SegmentBase_def unlinked_def)

lemma RowGroup_simps [simp]: "sg_start (RowGroup st n) = st" "sg_count (RowGroup st n) = n"
  by (simp_all add: RowGroup_def SegmentBase_def)

lemma append_loop_ok:
  assumes "tree_shape t" "segments t \<noteq> []" "append_group s = length (segments t) - 1"
    and "offset_in_row_group s \<le> gsize" "0 < gsize"
  shows "\<exists>t' s' b'. append_loop gsize n b t s = Some (t', s', b') \<and> tree_shape t'
    \<and> total_append_count s' = total_append_count s \<and> start_row_group s' = start_row_group s
    \<and> append_group s' = length (segments t') - 1 \<and> offset_in_row_group s' \<le> gsize
    \<and> sg_start (last (segments t')) + offset_in_row_group s'
        = sg_start (last (segments t)) + offset_in_row_group s + n
    \<and> segments t' = segments t @ fresh_groups gsize (sg_start (last (segments t)) + gsize)
         (n - (gsize - offset_in_row_group s))"
  using assms
proof (induction "2 * n + (if offset_in_row_group s = gsize then 1 else 0)" arbitrary: n b t s rule: less_induct)
  case less
  let ?o = "offset_in_row_group s" and ?g = "append_group s"
  let ?a = "min n (gsize - ?o)"
  show ?case
  proof (cases "n \<le> gsize - ?o")
    case True
    then show ?thesis
      using less.prems by (subst append_loop.simps) (simp add: Let_def fresh_groups.simps)
  next
    case False
    define st where "st = sg_start (last (segments t)) + gsize"
    let ?t = "AppendRowGroup st t"
    let ?s = "s\<lparr>append_group := length (segments t), offset_in_row_group := 0\<rparr>"
    have shape: "tree_shape ?t" and segs: "segments ?t = segments t @ [RowGroup st 0]"
      using AppendSegment_shape [OF less.prems(1)] by (simp_all add: AppendRowGroup_def)
    have cnt: "sg_count (snd (nodes ?t ! length (segments t))) = 0"
      using shape_nth(4) [OF shape, of "length (segments t)"] by (simp add: segs)
    have start: "sg_start (snd (nodes t ! ?g)) + (?o + ?a) = st"
      using shape_nth(3) [OF less.prems(1), of ?g] less.prems False
      by (simp add: last_conv_nth st_def)
    have step: "append_loop gsize n b t s = append_loop gsize (n - ?a) True ?t ?s"
      using False cnt start less.prems
      by (subst append_loop.simps) (simp add: Let_def GetLastSegment_shape [OF shape] segs add.assoc)
    have less: "2 * (n - ?a) + (if offset_in_row_group ?s = gsize then 1 else 0)
        < 2 * n + (if ?o = gsize then 1 else 0)"
      using False less.prems by auto
    have ih: "\<exists>t' s' b'. append_loop gsize (n - ?a) True ?t ?s = Some (t', s', b') \<and> tree_shape t'
      \<and> total_append_count s' = total_append_count ?s \<and> start_row_group s' = start_row_group ?s
      \<and> append_group s' = length (segments t') - 1 \<and> offset_in_row_group s' \<le> gsize
      \<and> sg_start (last (segments t')) + offset_in_row_group s'
        = sg_start (last (segments ?t)) + offset_in_row_group ?s + (n - ?a)
      \<and> segments t' = segments ?t @ fresh_groups gsize (sg_start (last (segments ?t)) + gsize)
         (n - ?a - (gsize - offset_in_row_group ?s))"
      by (rule less.hyps [OF less shape]) (use less.prems in \<open>simp_all add: segs\<close>)
    have "fresh_groups gsize st (n - (gsize - ?o)) = RowGroup st 0 # fresh_groups gsize (st + gsize) (n - ?a - gsize)"
      using False less.prems(5) by (subst fresh_groups.simps) simp
    moreover have "sg_start (last (segments t)) + ?o + n = st + (n - ?a)"
      using False less.prems(4) by (simp add: st_def)
    ultimately show ?thesis using ih unfolding step st_def [symmetric] by (simp add: segs)
  qed
qed

subsection \<open>Versioning the new rows\<close>

lemma put_segments:
  assumes "i < length (nodes t)"
  shows "segments (put_group i g t) = (segments t)[i := unlinked g]" "length (nodes (put_group i g t)) = length (nodes t)"
  using assms by (simp_all add: put_group_def segments_def list_update_append map_update)

lemma put_linked:
  assumes "linked (nodes t)" "i < length (nodes t)" "sg_next g = sg_next (snd (nodes t ! i))"
  shows "linked (nodes (put_group i g t))"
  using assms by (auto simp: linked_def put_group_def nth_list_update)

lemma put_starts:
  assumes "\<forall>(r, s)\<in>set (nodes t). r = sg_start s" "i < length (nodes t)" "sg_start g = sg_start (snd (nodes t ! i))"
  shows "\<forall>(r, s)\<in>set (nodes (put_group i g t)). r = sg_start s"
proof -
  have "fst (nodes t ! i) = sg_start g" using assms by (metis (mono_tags, lifting) case_prodD nth_mem prod.collapse)
  then show ?thesis using assms(1) by (auto simp: put_group_def dest!: set_update_subset_insert [THEN subsetD])
qed

lemma put_shape:
  assumes "tree_shape t" "i < length (nodes t)" "sg_start g = sg_start (snd (nodes t ! i))"
    and "sg_next g = sg_next (snd (nodes t ! i))"
  shows "tree_shape (put_group i g t)"
  using put_linked [OF _ assms(2,4)] put_starts [OF _ assms(2,3)] assms(1)
  by (simp add: tree_shape_def) (simp add: put_group_def)

lemma GetNextSegment_shape:
  assumes "tree_shape t" "i < length (segments t)"
  shows "GetNextSegment i t = (t, if Suc i < length (segments t) then Some (Suc i) else None)"
  using assms by (simp add: GetNextSegment_def tree_shape_def linked_def length_segments)

lemma fresh_groups_empty [simp]: "fresh_groups gsize st 0 = []"
  by (simp add: fresh_groups.simps)

lemma finalize_done [simp]: "finalize_loop gsize td 0 i t = Some (Inr t)"
  by (simp add: finalize_loop.simps)

lemma finalize_loop_ok:
  assumes "tree_shape t" "segments t = pre @ g # fresh_groups gsize (sg_start g + gsize) (n - (gsize - sg_count g))"
    and "group_wf gsize g" "valid_size gsize"
  shows "\<exists>t' gs. finalize_loop gsize td n (Some (length pre)) t = Some (Inr t') \<and> tree_shape t' \<and> segments t' = pre @ gs
    \<and> contiguous (sg_start g) gs \<and> (\<forall>g\<in>set gs. group_wf gsize g)
    \<and> concat (map group_rows gs) = group_rows g @ replicate n (td_transaction_id td, NOT_DELETED_ID)"
  using assms
proof (induction "2 * n + (if sg_count g = gsize then 1 else 0)" arbitrary: n pre g t rule: less_induct)
  case less
  let ?i = "length pre" and ?v = "(td_transaction_id td, NOT_DELETED_ID)"
  let ?a = "min n (gsize - sg_count g)"
  note shape = less.prems(1)
  show ?case
  proof (cases "n = 0")
    case True
    then show ?thesis using less.prems by (intro exI [of _ t] exI [of _ "[g]"]) simp
  next
    case False
    have i: "?i < length (segments t)" by (simp add: less.prems(2))
    define g0 where "g0 = snd (nodes t ! ?i)"
    have g0: "unlinked g0 = g" "?i < length (nodes t)"
      using shape_nth(1,2) [OF shape i] by (simp_all add: g0_def less.prems(2))
    have same: "sg_start g0 = sg_start g" "sg_count g0 = sg_count g" "group_rows g0 = group_rows g" "group_wf gsize g0"
      using g0(1) less.prems(3) by (metis unlinked_simps(1), metis unlinked_simps(2), metis group_unlinked(1), metis group_unlinked(2))
    have "?a \<le> gsize - sg_count g0" "?a = 0 \<Longrightarrow> sg_count g0 = gsize"
      using False same(2) less.prems(3) by (auto simp: group_wf_def)
    from rg_AppendVersionInfo_ok [OF same(4) less.prems(4) this, of td] obtain g1 where
      g1: "rg_AppendVersionInfo gsize td ?a g0 = Inr g1" "group_wf gsize g1" "sg_start g1 = sg_start g0"
      "sg_next g1 = sg_next g0" "sg_count g1 = sg_count g + ?a" "group_rows g1 = group_rows g @ replicate ?a ?v"
      using same by auto
    let ?t = "put_group ?i g1 t"
    let ?fresh = "fresh_groups gsize (sg_start g + gsize) (n - (gsize - sg_count g))"
    have shape': "tree_shape ?t" using put_shape [OF shape g0(2)] g1 by (simp add: g0_def)
    have segs: "segments ?t = (pre @ [unlinked g1]) @ ?fresh"
      using put_segments(1) [OF g0(2)] by (simp add: less.prems(2))
    have step: "finalize_loop gsize td n (Some ?i) t =
        finalize_loop gsize td (n - ?a) (if ?fresh = [] then None else Some (Suc ?i)) ?t"
      using False g1(1) GetNextSegment_shape [OF shape', of ?i] same(2) g0_def
      by (subst finalize_loop.simps) (simp add: Let_def segs)
    show ?thesis
    proof (cases "n \<le> gsize - sg_count g")
      case True
      then show ?thesis
        using g1 same shape' unfolding step segs
        by (intro exI [of _ ?t] exI [of _ "[unlinked g1]"]) (simp add: segs)
    next
      case False
      let ?st = "sg_start g + gsize"
      let ?pre = "pre @ [unlinked g1]" and ?new = "RowGroup ?st 0"
      have f: "?fresh = ?new # fresh_groups gsize (sg_start ?new + gsize) ((n - ?a) - (gsize - sg_count ?new))"
        using False less.prems(4) by (subst fresh_groups.simps) (simp add: valid_size_def)
      have m: "2 * (n - ?a) + (if sg_count ?new = gsize then 1 else 0) < 2 * n + (if sg_count g = gsize then 1 else 0)"
        using False less.prems(3,4) by (auto simp: group_wf_def valid_size_def)
      have segs': "segments ?t = ?pre @ ?new # fresh_groups gsize (sg_start ?new + gsize) ((n - ?a) - (gsize - sg_count ?new))"
        unfolding segs f ..
      from less.hyps [OF m shape' segs' _ less.prems(4)] obtain t' gs where
        t': "finalize_loop gsize td (n - ?a) (Some (length ?pre)) ?t = Some (Inr t')" "tree_shape t'" "segments t' = ?pre @ gs"
        "contiguous ?st gs" "\<forall>g\<in>set gs. group_wf gsize g" "concat (map group_rows gs) = replicate (n - ?a) ?v"
        by auto
      have nonempty: "(if ?fresh = [] then None else Some (Suc ?i)) = Some (length ?pre)" unfolding f by simp
      have full: "sg_count g1 = gsize" "?a + (n - ?a) = n"
        using g1(5) False less.prems(3) by (auto simp: group_wf_def)
      have "contiguous (sg_start g) (unlinked g1 # gs)" using t'(4) g1(3) same(1) full(1) by simp
      moreover have "concat (map group_rows (unlinked g1 # gs)) = group_rows g @ replicate n ?v"
        using t'(6) g1(6) full(2) by (simp add: replicate_add [symmetric])
      moreover have "\<forall>g\<in>set (unlinked g1 # gs). group_wf gsize g" using t'(5) g1(2) by simp
      ultimately show ?thesis
        unfolding step nonempty using t'(1,2,3) by (intro exI [of _ t'] exI [of _ "unlinked g1 # gs"]) simp
    qed
  qed
qed


subsection \<open>A whole append\<close>

lemma fresh_groups_length:
  "0 < gsize \<Longrightarrow> n \<le> gsize * length (fresh_groups gsize st n)"
proof (induction gsize st n rule: fresh_groups.induct)
  case (1 gsize st n)
  then show ?case by (cases "n = 0") (simp, simp add: fresh_groups.simps [of gsize st n])
qed

lemma fresh_groups_append:
  "0 < gsize \<Longrightarrow> fresh_groups gsize st n @ fresh_groups gsize (st + gsize * length (fresh_groups gsize st n))
     (m - (gsize * length (fresh_groups gsize st n) - n)) = fresh_groups gsize st (n + m)"
proof (induction gsize st n rule: fresh_groups.induct)
  case (1 gsize st n)
  show ?case
  proof (cases "n = 0")
    case False
    let ?l = "length (fresh_groups gsize (st + gsize) (n - gsize))"
    have f: "fresh_groups gsize st n = RowGroup st 0 # fresh_groups gsize (st + gsize) (n - gsize)"
      "fresh_groups gsize st (n + m) = RowGroup st 0 # fresh_groups gsize (st + gsize) (n + m - gsize)"
      using False 1 by (subst fresh_groups.simps, simp)+
    have "fresh_groups gsize (st + gsize) (n - gsize) @ fresh_groups gsize (st + gsize + gsize * ?l) (m - (gsize * ?l - (n - gsize)))
        = fresh_groups gsize (st + gsize) (n - gsize + m)"
      using 1 False by simp
    moreover have "n \<le> gsize \<Longrightarrow> ?l = 0" by simp
    ultimately show ?thesis
      unfolding f by (cases "gsize \<le> n") (simp_all add: algebra_simps)
  qed simp
qed

lemma last_fresh:
  "0 < gsize \<Longrightarrow> fresh_groups gsize st n \<noteq> [] \<Longrightarrow>
    sg_start (last (fresh_groups gsize st n)) + gsize = st + gsize * length (fresh_groups gsize st n)"
proof (induction gsize st n rule: fresh_groups.induct)
  case (1 gsize st n)
  have n: "n \<noteq> 0" using "1.prems" by (cases "n = 0") simp_all
  have f: "fresh_groups gsize st n = RowGroup st 0 # fresh_groups gsize (st + gsize) (n - gsize)"
    using n "1.prems"(1) by (subst fresh_groups.simps) simp
  show ?case
  proof (cases "fresh_groups gsize (st + gsize) (n - gsize) = []")
    case False
    then show ?thesis using "1.IH" n "1.prems"(1) unfolding f by simp
  qed (simp add: f)
qed

text \<open>
  The state between \<open>InitializeAppend\<close> and \<open>FinalizeAppend\<close>: \<open>n\<close> rows were appended after those of the group
  \<open>g\<close>, which was the last one.
\<close>

definition appending ::
  "row_group_collection \<Rightarrow> row_group list \<Rightarrow> row_group \<Rightarrow> nat \<Rightarrow> row_group_collection \<times> table_append_state \<Rightarrow> bool" where
  "appending c0 pre g n cs \<longleftrightarrow> (\<exists>t s. cs = (c0\<lparr>row_groups := t\<rparr>, s) \<and> tree_shape t
     \<and> segments t = pre @ g # fresh_groups (row_group_size c0) (sg_start g + row_group_size c0)
          (n - (row_group_size c0 - sg_count g))
     \<and> total_append_count s = n \<and> start_row_group s = Some (length pre)
     \<and> append_group s = length (segments t) - 1 \<and> offset_in_row_group s \<le> row_group_size c0
     \<and> sg_start (last (segments t)) + offset_in_row_group s = sg_start g + sg_count g + n)"

lemma coll_Append_ok:
  assumes "appending c0 pre g n (c, s)" "0 < row_group_size c0" "sg_count g \<le> row_group_size c0"
  shows "\<exists>c' s' b. coll_Append m (c, s) = Some (c', s', b) \<and> appending c0 pre g (n + m) (c', s')"
proof -
  let ?G = "row_group_size c0" and ?k = "sg_count g" and ?S = "sg_start g"
  let ?x = "n - (?G - ?k)"
  let ?f = "fresh_groups ?G (?S + ?G) ?x"
  from assms(1) obtain t where t: "c = c0\<lparr>row_groups := t\<rparr>" "tree_shape t" "segments t = pre @ g # ?f"
    "total_append_count s = n" "start_row_group s = Some (length pre)" "append_group s = length (segments t) - 1"
    "offset_in_row_group s \<le> ?G" "sg_start (last (segments t)) + offset_in_row_group s = ?S + ?k + n"
    by (auto simp: appending_def)
  let ?s = "s\<lparr>total_append_count := n + m\<rparr>" and ?o = "offset_in_row_group s"
  have pre: "segments t \<noteq> []" "append_group ?s = length (segments t) - 1" "offset_in_row_group ?s \<le> ?G"
    using t by simp_all
  from append_loop_ok [OF t(2) pre assms(2), of m False] obtain t' s' b where
    l: "append_loop ?G m False t ?s = Some (t', s', b)" "tree_shape t'" "total_append_count s' = n + m"
    "start_row_group s' = Some (length pre)" "append_group s' = length (segments t') - 1"
    "offset_in_row_group s' \<le> ?G" "sg_start (last (segments t')) + offset_in_row_group s' = ?S + ?k + n + m"
    "segments t' = segments t @ fresh_groups ?G (sg_start (last (segments t)) + ?G) (m - (?G - ?o))"
    using t by auto
  have last: "sg_start (last (segments t)) + ?G = ?S + ?G + ?G * length ?f"
    using last_fresh [OF assms(2), of "?S + ?G" ?x] t(3) by (cases "?f = []") simp_all
  have "?f @ fresh_groups ?G (sg_start (last (segments t)) + ?G) (m - (?G - ?o))
      = fresh_groups ?G (?S + ?G) (n + m - (?G - ?k))"
  proof (cases "?G - ?k \<le> n")
    case True
    have "?x \<le> ?G * length ?f" by (rule fresh_groups_length [OF assms(2)])
    then have "?G - ?o = ?G * length ?f - ?x" "?x + m = n + m - (?G - ?k)"
      using last t(7,8) True assms(3) by linarith+
    then show ?thesis using fresh_groups_append [OF assms(2), of "?S + ?G" ?x m] unfolding last by simp
  next
    case False
    then have "?f = []" "?o = ?k + n" using t(3,8) by simp_all
    then show ?thesis using False last by (simp add: ac_simps)
  qed
  then have segs: "segments t' = pre @ g # fresh_groups ?G (?S + ?G) (n + m - (?G - ?k))"
    unfolding l(8) t(3) by simp
  let ?s' = "s'\<lparr>as_current_row := as_current_row s' + m\<rparr>"
  have "coll_Append m (c, s) = Some (c0\<lparr>row_groups := t'\<rparr>, ?s', b)"
    using l(1) t(1,4) by (simp add: coll_Append_def)
  moreover have "appending c0 pre g (n + m) (c0\<lparr>row_groups := t'\<rparr>, ?s')"
    using l segs by (auto simp: appending_def add.assoc)
  ultimately show ?thesis by blast
qed

lemma InitializeAppend_ok:
  assumes "coll_wf c"
  shows "\<exists>c' s pre g. InitializeAppend c = Some (c', s) \<and> appending c pre g 0 (c', s) \<and> groups c' = pre @ [g]
    \<and> contiguous (row_start c) (pre @ [g]) \<and> (\<forall>h\<in>set (pre @ [g]). group_wf (row_group_size c) h)
    \<and> concat (map group_rows (pre @ [g])) = coll_rows c"
proof -
  let ?t0 = "fst (tree_IsEmpty (row_groups c))" and ?e = "snd (tree_IsEmpty (row_groups c))"
  have wf: "tree_wf (row_start c) (row_groups c)" using assms by (simp add: coll_wf_def)
  have t0: "tree_wf (row_start c) ?t0" "segments ?t0 = groups c" "?e \<longleftrightarrow> groups c = []"
  proof -
    obtain t1 l where l: "LoadNextSegment (row_groups c) = (t1, l)" by fastforce
    note ok = LoadNextSegment_ok [OF wf l]
    show "tree_wf (row_start c) ?t0" "segments ?t0 = groups c"
      using ok wf by (simp_all add: tree_IsEmpty_def GetRootSegment_def l split: prod.split)
    show "?e \<longleftrightarrow> groups c = []"
      using ok wf by (cases l) (auto simp: tree_IsEmpty_def GetRootSegment_def l length_segments segments_def
          split: prod.split)
  qed
  define t1 where "t1 = (if ?e then AppendRowGroup (row_start c) ?t0 else ?t0)"
  have t1: "tree_wf (row_start c) t1" "segments t1 = (if groups c = [] then [RowGroup (row_start c) 0] else groups c)"
    using t0 AppendSegment_ok [OF t0(1), of "RowGroup (row_start c) 0"] by (auto simp: AppendRowGroup_def t1_def)
  define t2 where "t2 = LoadAllSegments t1"
  note t2 = LoadAllSegments_ok [OF t1(1), folded t2_def] wf_load_shape [OF t1(1), folded t2_def]
  have ne: "segments t1 \<noteq> []" using t1(2) by simp
  then obtain pre g where pg: "segments t2 = pre @ [g]" unfolding t2(2) by (metis rev_exhaust)
  have pg1: "segments t1 = pre @ [g]" using pg t2(2) by simp
  have gw: "\<forall>h\<in>set (pre @ [g]). group_wf (row_group_size c) h"
    using assms unfolding pg1 [symmetric] t1(2) by (simp add: coll_wf_def)
  have rows: "concat (map group_rows (pre @ [g])) = coll_rows c"
    unfolding pg1 [symmetric] t1(2) by (simp add: coll_rows_def)
  have last: "GetLastSegment t1 = (t2, Some (length pre))"
    using GetLastSegment_ok [OF t1(1)] by (simp add: pg1 t2_def)
  let ?s = "\<lparr>as_row_start = total_rows c, as_current_row = total_rows c, total_append_count = 0,
    start_row_group = Some (length pre), append_group = length pre, offset_in_row_group = sg_count (snd (nodes t2 ! length pre))\<rparr>"
  have init: "InitializeAppend c = Some (c\<lparr>row_groups := t2\<rparr>, ?s)"
    using last by (simp add: InitializeAppend_def split_beta Let_def t1_def [symmetric])
  have cnt: "sg_count (snd (nodes t2 ! length pre)) = sg_count g"
    using shape_nth(4) [OF t2(4), of "length pre"] pg by simp
  have "appending c pre g 0 (c\<lparr>row_groups := t2\<rparr>, ?s)"
    unfolding appending_def using t2(4) pg cnt gw by (intro exI [of _ t2] exI [of _ ?s]) (simp add: group_wf_def)
  moreover have "contiguous (row_start c) (pre @ [g])" using t1(1) unfolding pg1 [symmetric] by (simp add: tree_wf_def)
  ultimately show ?thesis using init gw rows pg by (intro exI conjI) auto
qed

lemma FinalizeAppend_ok:
  assumes "appending c0 pre g n (c, s)" "coll_wf c0" "contiguous (row_start c0) (pre @ [g])"
    and "\<forall>h\<in>set (pre @ [g]). group_wf (row_group_size c0) h" "concat (map group_rows (pre @ [g])) = coll_rows c0"
  shows "\<exists>c' s'. FinalizeAppend td (c, s) = Some (Inr (c', s')) \<and> coll_wf c' \<and> total_rows c' = total_rows c0 + n
    \<and> row_start c' = row_start c0 \<and> row_group_size c' = row_group_size c0
    \<and> total_append_count s' = 0 \<and> start_row_group s' = None \<and> tree_shape (row_groups c')
    \<and> coll_rows c' = coll_rows c0 @ replicate n (td_transaction_id td, NOT_DELETED_ID)"
proof -
  let ?G = "row_group_size c0" and ?v = "(td_transaction_id td, NOT_DELETED_ID)"
  from assms(1) obtain t where t: "c = c0\<lparr>row_groups := t\<rparr>" "tree_shape t"
    "segments t = pre @ g # fresh_groups ?G (sg_start g + ?G) (n - (?G - sg_count g))"
    "total_append_count s = n" "start_row_group s = Some (length pre)"
    by (auto simp: appending_def)
  have wf: "group_wf ?G g" "valid_size ?G" "row_start c0 + total_rows c0 = rows_end (row_start c0) (groups c0)"
    using assms(2,4) by (simp_all add: coll_wf_def)
  from finalize_loop_ok [OF t(2,3) wf(1,2), of td] obtain t' gs where
    f: "finalize_loop ?G td n (Some (length pre)) t = Some (Inr t')" "tree_shape t'" "segments t' = pre @ gs"
    "contiguous (sg_start g) gs" "\<forall>g\<in>set gs. group_wf ?G g" "concat (map group_rows gs) = group_rows g @ replicate n ?v"
    by blast
  let ?c = "c0\<lparr>row_groups := t', total_rows := total_rows c0 + n\<rparr>"
  have rows: "coll_rows ?c = coll_rows c0 @ replicate n ?v"
    using f(3,6) assms(5) by (simp add: coll_rows_def)
  have "contiguous (row_start c0) (pre @ gs)" using assms(3) f(4) by (simp add: contiguous_append)
  then have "tree_wf (row_start c0) t'" using shape_wf [OF f(2)] f(3) by simp
  moreover have "rows_end (row_start c0) (pre @ gs) = row_start c0 + (total_rows c0 + n)"
    using rows length_coll_rows [OF assms(2)] rows_end_length [of "row_start c0" "pre @ gs"] f(3) by (simp add: coll_rows_def)
  moreover have "\<forall>h\<in>set (pre @ gs). group_wf ?G h" using assms(4) f(5) by auto
  ultimately have "coll_wf ?c" using wf(2) by (simp add: coll_wf_def f(3))
  then show ?thesis
    using rows f(1,2) t(1,4,5) by (simp add: FinalizeAppend_def)
qed

text \<open>The chunks of one append.\<close>

fun append_chunks :: "nat list \<Rightarrow> row_group_collection \<times> table_append_state \<Rightarrow>
    (row_group_collection \<times> table_append_state) option" where
  "append_chunks [] cs = Some cs"
| "append_chunks (n # ns) cs =
     (case coll_Append n cs of None \<Rightarrow> None | Some (c, s, new) \<Rightarrow> append_chunks ns (c, s))"

lemma append_chunks_ok:
  assumes "appending c0 pre g n cs" "0 < row_group_size c0" "sg_count g \<le> row_group_size c0"
  shows "\<exists>cs'. append_chunks ns cs = Some cs' \<and> appending c0 pre g (n + sum_list ns) cs'"
  using assms(1)
proof (induction ns arbitrary: cs n)
  case (Cons m ns)
  obtain c s where cs: "cs = (c, s)" by fastforce
  from coll_Append_ok [OF Cons.prems [unfolded cs] assms(2,3), of m] obtain c' s' b where
    "coll_Append m (c, s) = Some (c', s', b)" "appending c0 pre g (n + m) (c', s')" by blast
  then show ?case using Cons.IH [of "n + m" "(c', s')"] by (auto simp: cs add.assoc)
qed simp

lemma append_refines_aux:
  assumes "coll_wf c"
  shows "\<exists>c1 s1 c2 s2 c3 s3. InitializeAppend c = Some (c1, s1) \<and> append_chunks ns (c1, s1) = Some (c2, s2)
    \<and> FinalizeAppend td (c2, s2) = Some (Inr (c3, s3)) \<and> coll_wf c3 \<and> total_rows c3 = total_rows c + sum_list ns
    \<and> row_start c3 = row_start c \<and> row_group_size c3 = row_group_size c \<and> tree_shape (row_groups c3)
    \<and> coll_rows c3 = coll_rows c @ replicate (sum_list ns) (td_transaction_id td, NOT_DELETED_ID)"
proof -
  from InitializeAppend_ok [OF assms] obtain c1 s1 pre g where i: "InitializeAppend c = Some (c1, s1)"
    "appending c pre g 0 (c1, s1)" "contiguous (row_start c) (pre @ [g])"
    "\<forall>h\<in>set (pre @ [g]). group_wf (row_group_size c) h" "concat (map group_rows (pre @ [g])) = coll_rows c" by blast
  have "0 < row_group_size c" "sg_count g \<le> row_group_size c"
    using assms i(4) by (simp_all add: coll_wf_def valid_size_def group_wf_def)
  from append_chunks_ok [OF i(2) this, of ns] obtain c2 s2 where
    a: "append_chunks ns (c1, s1) = Some (c2, s2)" "appending c pre g (sum_list ns) (c2, s2)" by auto
  from FinalizeAppend_ok [OF a(2) assms i(3-5), of td] i(1) a(1) show ?thesis by blast
qed

text \<open>
  C34: An append of chunks of any sizes to a table, \<open>InitializeAppend\<close>, \<open>Append\<close> for each chunk and
  \<open>FinalizeAppend\<close>, refines appending to the list of row versions: it ends without an error, opens the row
  groups it needs, keeps the collection well-formed (contiguous row groups, none larger than the row group
  size, exact version flags), and the new rows, exactly as many as were given, carry the transaction's id.
\<close>
theorem append_refines:
  assumes "coll_wf c"
  shows "\<exists>c1 s1 c2 s2 c3 s3. InitializeAppend c = Some (c1, s1) \<and> append_chunks ns (c1, s1) = Some (c2, s2)
    \<and> FinalizeAppend td (c2, s2) = Some (Inr (c3, s3)) \<and> coll_wf c3 \<and> total_rows c3 = total_rows c + sum_list ns
    \<and> coll_rows c3 = coll_rows c @ replicate (sum_list ns) (td_transaction_id td, NOT_DELETED_ID)"
  using append_refines_aux [OF assms] by meson

text \<open>A table with row groups of 2048 rows that does not hold any yet.\<close>

definition example_table :: row_group_collection where
  "example_table = RowGroupCollection 0 0 2048"

lemma example_table_wf: "coll_wf example_table" "coll_rows example_table = []" "total_rows example_table = 0"
  by (simp_all add: example_table_def RowGroupCollection_def coll_wf_def coll_rows_def empty_segment_tree_def segments_def
      tree_wf_def linked_def valid_size_def STANDARD_VECTOR_SIZE_def)

theorem append_refines_witness:
  "\<exists>c1 s1 c2 s2 c3 s3. InitializeAppend example_table = Some (c1, s1) \<and> append_chunks [1500, 2000, 2048] (c1, s1) = Some (c2, s2)
    \<and> FinalizeAppend example_reader (c2, s2) = Some (Inr (c3, s3)) \<and> coll_wf c3 \<and> total_rows c3 = 5548
    \<and> coll_rows c3 = replicate 5548 (td_transaction_id example_reader, NOT_DELETED_ID)"
  using append_refines [OF example_table_wf(1), of "[1500, 2000, 2048]" "example_reader"]
  by (simp add: example_table_wf)

section \<open>Operations on a range of rows\<close>

lemma contiguous_update:
  "contiguous b ss \<Longrightarrow> i < length ss \<Longrightarrow> sg_start s = sg_start (ss ! i) \<Longrightarrow> sg_count s = sg_count (ss ! i) \<Longrightarrow>
    contiguous b (ss[i := s])"
proof (induction ss arbitrary: b i)
  case (Cons a ss)
  then show ?case by (cases i) auto
qed simp

lemma rows_end_update:
  "i < length ss \<Longrightarrow> sg_count s = sg_count (ss ! i) \<Longrightarrow> rows_end b (ss[i := s]) = rows_end b ss"
proof (induction ss arbitrary: b i)
  case (Cons a ss)
  then show ?case by (cases i) auto
qed simp

lemma put_wf:
  assumes "tree_wf b t" "i < length (nodes t)" "same_extent (snd (nodes t ! i)) g"
  shows "tree_wf b (put_group i g t)"
proof -
  have "contiguous b (segments (put_group i g t))"
    unfolding put_segments(1) [OF assms(2)]
    using assms segments_nth [OF assms(2)] by (intro contiguous_update) (simp_all add: tree_wf_def same_extent_def length_segments)
  then show ?thesis
    using put_linked [OF _ assms(2), of g] put_starts [OF _ assms(2), of g] assms
    by (simp add: tree_wf_def same_extent_def) (simp add: put_group_def)
qed

lemma load_while_finished: "finished_loading t \<Longrightarrow> finished_loading (load_while go t)"
  by (simp add: load_while.simps LoadNextSegment_def)

lemma GetSegment_finished: "finished_loading t \<Longrightarrow> finished_loading (fst (GetSegment row t))"
  by (simp add: GetSegment_def TryGetSegmentIndex_def Let_def load_while_finished split: prod.split option.split search_result.split)

text \<open>
  A group and what it becomes when its extent is kept and \<open>Q r\<close> relates the old and the new version of row
  \<open>r\<close>.  For an operation on the rows \<open>lo..<hi\<close>, \<open>R True\<close> relates the versions of a row operated on and
  \<open>R False\<close> those of another.
\<close>

definition group_upd ::
  "nat \<Rightarrow> (nat \<Rightarrow> row_version \<Rightarrow> row_version \<Rightarrow> bool) \<Rightarrow> row_group \<Rightarrow> row_group \<Rightarrow> bool" where
  "group_upd gsize Q g g' \<longleftrightarrow> sg_start g' = sg_start g \<and> sg_count g' = sg_count g \<and> group_wf gsize g'
     \<and> (no_dropped g \<longrightarrow> no_dropped g') \<and> (attached g \<longrightarrow> attached g')
     \<and> (\<forall>k < sg_count g. Q (sg_start g + k) (group_rows g ! k) (group_rows g' ! k))"

abbreviation group_rel ::
  "nat \<Rightarrow> (bool \<Rightarrow> row_version \<Rightarrow> row_version \<Rightarrow> bool) \<Rightarrow> nat \<Rightarrow> nat \<Rightarrow> row_group \<Rightarrow> row_group \<Rightarrow> bool" where
  "group_rel gsize R lo hi \<equiv> group_upd gsize (\<lambda>r. R (lo \<le> r \<and> r < hi))"

lemma group_upd_rows:
  assumes "list_all2 (group_upd gsize Q) gs gs'" "contiguous b gs"
  shows "contiguous b gs' \<and> (\<forall>g\<in>set gs'. group_wf gsize g)
    \<and> length (concat (map group_rows gs')) = length (concat (map group_rows gs))
    \<and> (\<forall>k < length (concat (map group_rows gs)). Q (b + k)
         (concat (map group_rows gs) ! k) (concat (map group_rows gs') ! k))"
  using assms
proof (induction gs gs' arbitrary: b rule: list_all2_induct)
  case (Cons g gs g' gs')
  have g: "sg_start g = b" "sg_start g' = b" "sg_count g' = sg_count g" "group_wf gsize g'"
    "\<And>k. k < sg_count g \<Longrightarrow> Q (b + k) (group_rows g ! k) (group_rows g' ! k)"
    using Cons by (simp_all add: group_upd_def)
  have ih: "contiguous (b + sg_count g) gs' \<and> (\<forall>g\<in>set gs'. group_wf gsize g)
    \<and> length (concat (map group_rows gs')) = length (concat (map group_rows gs))
    \<and> (\<forall>k < length (concat (map group_rows gs)). Q (b + sg_count g + k)
         (concat (map group_rows gs) ! k) (concat (map group_rows gs') ! k))"
    using Cons.prems by (intro Cons(3)) simp
  have "Q (b + k) (concat (map group_rows (g # gs)) ! k) (concat (map group_rows (g' # gs')) ! k)"
    if "k < length (concat (map group_rows (g # gs)))" for k
  proof (cases "k < sg_count g")
    case True
    then show ?thesis using g by (simp add: nth_append)
  next
    case False
    then have k: "k - sg_count g < length (concat (map group_rows gs))" "b + sg_count g + (k - sg_count g) = b + k"
      using that by simp_all
    have "Q (b + k) (concat (map group_rows gs) ! (k - sg_count g))
        (concat (map group_rows gs') ! (k - sg_count g))"
      using ih k(1) unfolding k(2) [symmetric] by blast
    then show ?thesis using False g(3) by (simp add: nth_append)
  qed
  then show ?case using ih g by simp
qed simp

text \<open>
  The interface between \<open>RowGroupCollection\<close> and \<open>RowGroup\<close>: an operation that the collection applies to a
  range of rows, group by group.
\<close>

locale range_operation =
  fixes f :: "nat \<Rightarrow> nat \<Rightarrow> row_group \<Rightarrow> version_error + row_group"
    and ready :: "nat \<Rightarrow> nat \<Rightarrow> nat \<Rightarrow> row_group \<Rightarrow> bool"
    and R :: "bool \<Rightarrow> row_version \<Rightarrow> row_version \<Rightarrow> bool"
  assumes step: "group_wf gsize g \<Longrightarrow> ready gsize lo hi g \<Longrightarrow> s + n \<le> sg_count g \<Longrightarrow>
      (\<And>k. k < sg_count g \<Longrightarrow> s \<le> k \<and> k < s + n \<longleftrightarrow> lo \<le> sg_start g + k \<and> sg_start g + k < hi) \<Longrightarrow>
      \<exists>g'. f s n g = Inr g' \<and> same_extent g g' \<and> group_rel gsize R lo hi g g'"
    and untouched: "R False v v"
    and ready_unlinked: "ready gsize lo hi (unlinked g) = ready gsize lo hi g"
begin

lemma keep:
  assumes "group_wf gsize g" "sg_start g + sg_count g \<le> lo \<or> hi \<le> sg_start g"
  shows "group_rel gsize R lo hi g g"
proof -
  have "R (lo \<le> sg_start g + k \<and> sg_start g + k < hi) v v" if "k < sg_count g" for k v
  proof -
    have "(lo \<le> sg_start g + k \<and> sg_start g + k < hi) = False" using assms(2) that by auto
    then show ?thesis using untouched by (simp only:)
  qed
  then show ?thesis using assms(1) by (simp add: group_upd_def)
qed

lemma loop_ok:
  assumes "tree_wf b t" "i < length (nodes t)" "\<forall>g\<in>set (drop i (segments t)). group_wf gsize g \<and> ready gsize lo hi g"
    and "hi \<le> rows_end b (segments t)" "cur = max lo (sg_start (segments t ! i))"
    and "cur \<le> sg_start (segments t ! i) + sg_count (segments t ! i)" "cur + rem = hi" "0 < rem"
  shows "\<exists>t'. range_loop f cur rem (Some i) t = Some (Inr t') \<and> tree_wf b t'
    \<and> (finished_loading t \<longrightarrow> finished_loading t') \<and> take i (segments t') = take i (segments t)
    \<and> list_all2 (group_rel gsize R lo hi) (drop i (segments t)) (drop i (segments t'))"
  using assms
proof (induction "length (segments t) - i" arbitrary: i t cur rem rule: less_induct)
  case less
  note wf = less.prems(1) and i = less.prems(2)
  define g0 where "g0 = snd (nodes t ! i)"
  have seg: "segments t ! i = unlinked g0" using segments_nth [OF i] by (simp add: g0_def)
  have l: "i < length (segments t)" using i by (simp add: length_segments)
  have d: "drop i (segments t) = segments t ! i # drop (Suc i) (segments t)" by (rule Cons_nth_drop_Suc [OF l, symmetric])
  have g0: "group_wf gsize g0" "ready gsize lo hi g0"
    using less.prems(3) unfolding d by (auto simp: seg ready_unlinked)
  define s n where "s = cur - sg_start g0" and "n = min (sg_count g0 - s) rem"
  have cur: "cur = max lo (sg_start g0)" "cur \<le> sg_start g0 + sg_count g0"
    using less.prems(5,6) by (simp_all add: seg)
  then have sn: "s + n \<le> sg_count g0" "sg_start g0 + s = cur"
    by (simp_all add: s_def n_def)
  have range: "s \<le> k \<and> k < s + n \<longleftrightarrow> lo \<le> sg_start g0 + k \<and> sg_start g0 + k < hi" if "k < sg_count g0" for k
    using that cur sn less.prems(7) by (auto simp: n_def)
  from step [OF g0 sn(1) range] obtain g1 where
    g1: "f s n g0 = Inr g1" "same_extent g0 g1" "group_rel gsize R lo hi g0 g1" by blast
  let ?t = "put_group i g1 t"
  have twf: "tree_wf b ?t" using put_wf [OF wf i] g1(2) by (simp add: g0_def)
  have segs: "segments ?t = (segments t)[i := unlinked g1]" "length (nodes ?t) = length (nodes t)"
    by (rule put_segments [OF i])+
  have rel: "group_rel gsize R lo hi (segments t ! i) (unlinked g1)"
    using g1(3) by (simp add: seg group_upd_def)
  have d2: "drop i (segments ?t) = unlinked g1 # drop (Suc i) (segments t)"
    using l by (simp add: segs Cons_nth_drop_Suc [symmetric])
  have c: "contiguous b (segments t)" using wf by (simp add: tree_wf_def)
  show ?case
  proof (cases "rem - n = 0")
    case True
    then have hi: "hi \<le> sg_start g0 + sg_count g0" using less.prems(7) sn by (auto simp: n_def)
    have "group_rel gsize R lo hi g g" if "g \<in> set (drop (Suc i) (segments t))" for g
    proof -
      from that obtain k where "k < length (drop (Suc i) (segments t))" "g = drop (Suc i) (segments t) ! k"
        by (metis in_set_conv_nth)
      then have k: "Suc i + k < length (segments t)" "g = segments t ! (Suc i + k)" by simp_all
      then have "hi \<le> sg_start g" using contiguous_order [OF c _ k(1), of i] hi by (simp add: seg)
      moreover have "group_wf gsize g" using that less.prems(3) unfolding d by simp
      ultimately show ?thesis using keep by simp
    qed
    then have "list_all2 (group_rel gsize R lo hi) (drop (Suc i) (segments t)) (drop (Suc i) (segments t))"
      by (simp add: list_all2_same)
    then have "list_all2 (group_rel gsize R lo hi) (drop i (segments t)) (drop i (segments ?t))"
      using rel unfolding d2 d by simp
    moreover have "range_loop f cur rem (Some i) t = Some (Inr ?t)"
      using True g1(1) by (subst range_loop.simps) (simp add: Let_def g0_def [symmetric] s_def [symmetric] n_def [symmetric])
    moreover have "finished_loading ?t = finished_loading t" by (simp add: put_group_def)
    ultimately show ?thesis using twf segs by (intro exI [of _ ?t]) simp
  next
    case False
    have n: "n = sg_count g0 - s" "s + n = sg_count g0" using False sn by (auto simp: n_def)
    have "sg_start g0 + sg_count g0 < hi" using False less.prems(7) sn n by simp
    moreover have "sg_start (segments t ! i) + sg_count (segments t ! i) = rows_end b (take (Suc i) (segments t))"
      using contiguous_nth [OF c l] by simp
    ultimately have "\<not> length (segments t) \<le> Suc i" using less.prems(4) seg by auto
    then have nx: "Suc i < length (segments t)" by simp
    from GetNextSegment_ok [OF twf, of i] obtain t2 where
      t2: "GetNextSegment i ?t = (t2, Some (Suc i))" "tree_wf b t2" "segments t2 = segments ?t" "Suc i < length (nodes t2)"
      using nx i segs by auto
    have nxt: "sg_start (segments t ! Suc i) = cur + n"
    proof -
      have "sg_start (segments t ! Suc i) = sg_start g0 + sg_count g0"
        using contiguous_nth [OF c nx] contiguous_nth [OF c l] by (simp add: seg)
      then show ?thesis using sn(2) n(2) by linarith
    qed
    have seg2: "segments t2 ! Suc i = segments t ! Suc i" using t2(3) segs(1) by simp
    have e: "rows_end b (segments t2) = rows_end b (segments t)"
      unfolding t2(3) segs(1) using g1(2) by (intro rows_end_update [OF l]) (simp add: seg same_extent_def)
    have fin2: "finished_loading t \<longrightarrow> finished_loading t2"
      using t2(1) by (auto simp: GetNextSegment_def put_group_def)
    have ih: "\<exists>t'. range_loop f (cur + n) (rem - n) (Some (Suc i)) t2 = Some (Inr t') \<and> tree_wf b t'
      \<and> (finished_loading t2 \<longrightarrow> finished_loading t')
      \<and> take (Suc i) (segments t') = take (Suc i) (segments t2)
      \<and> list_all2 (group_rel gsize R lo hi) (drop (Suc i) (segments t2)) (drop (Suc i) (segments t'))"
    proof (rule less.hyps)
      show "length (segments t2) - Suc i < length (segments t) - i" using l t2(3) segs(1) by simp
      show "\<forall>g\<in>set (drop (Suc i) (segments t2)). group_wf gsize g \<and> ready gsize lo hi g"
        using less.prems(3) unfolding t2(3) segs(1) d by simp
      show "hi \<le> rows_end b (segments t2)" using less.prems(4) e by simp
      show "cur + n = max lo (sg_start (segments t2 ! Suc i))" using nxt seg2 cur(1) by simp
      show "cur + n \<le> sg_start (segments t2 ! Suc i) + sg_count (segments t2 ! Suc i)" using nxt seg2 by simp
      show "cur + n + (rem - n) = hi" using less.prems(7) by (simp add: n_def)
      show "0 < rem - n" using False by simp
    qed (use t2 in auto)
    then obtain t' where t': "range_loop f (cur + n) (rem - n) (Some (Suc i)) t2 = Some (Inr t')" "tree_wf b t'"
      "finished_loading t2 \<longrightarrow> finished_loading t'"
      "take (Suc i) (segments t') = take (Suc i) (segments t2)"
      "list_all2 (group_rel gsize R lo hi) (drop (Suc i) (segments t2)) (drop (Suc i) (segments t'))" by blast
    have len: "length (segments t') = length (segments t)"
      using list_all2_lengthD [OF t'(5)] t'(4) nx by (auto simp: t2(3) segs(1) dest: arg_cong [where f = length])
    have "segments t' ! i = unlinked g1"
      using arg_cong [OF t'(4), of "\<lambda>xs. xs ! i"] l by (simp add: t2(3) segs(1))
    then have "list_all2 (group_rel gsize R lo hi) (drop i (segments t)) (drop i (segments t'))"
      using rel t'(5) l len unfolding d Cons_nth_drop_Suc [of i "segments t'", symmetric]
      by (simp add: t2(3) segs(1) Cons_nth_drop_Suc [symmetric])
    moreover have "take i (segments t') = take i (segments t)"
      using arg_cong [OF t'(4), of "take i"] by (simp add: t2(3) segs(1) min_def)
    moreover have "range_loop f cur rem (Some i) t = Some (Inr t')"
      using False g1(1) t2(1) t'(1)
      by (subst range_loop.simps) (simp add: Let_def g0_def [symmetric] s_def [symmetric] n_def [symmetric])
    ultimately show ?thesis using t'(2,3) fin2 by blast
  qed
qed

lemma on_range_ok:
  assumes wf: "coll_wf c" and rdy: "\<forall>g\<in>set (groups c). ready (row_group_size c) lo (lo + cnt) g"
    and b: "row_start c \<le> lo" "0 < cnt" "lo + cnt \<le> row_start c + total_rows c"
  shows "\<exists>c'. on_range f lo cnt c = Some (Inr c') \<and> coll_wf c' \<and> total_rows c' = total_rows c
    \<and> row_start c' = row_start c \<and> row_group_size c' = row_group_size c
    \<and> list_all2 (group_rel (row_group_size c) R lo (lo + cnt)) (groups c) (groups c')
    \<and> (finished_loading (row_groups c) \<longrightarrow> finished_loading (row_groups c'))
    \<and> length (coll_rows c') = length (coll_rows c)
    \<and> (\<forall>k < total_rows c. R (lo \<le> row_start c + k \<and> row_start c + k < lo + cnt) (coll_rows c ! k) (coll_rows c' ! k))"
proof -
  let ?b = "row_start c" and ?G = "row_group_size c" and ?hi = "lo + cnt"
  let ?rel = "group_rel ?G R lo ?hi"
  have c: "tree_wf ?b (row_groups c)" "\<forall>g\<in>set (groups c). group_wf ?G g" "valid_size ?G"
    "?b + total_rows c = rows_end ?b (groups c)" using wf by (simp_all add: coll_wf_def)
  then have "lo < rows_end ?b (groups c)" using b by simp
  from GetSegment_ok [OF c(1) b(1) this] obtain t i where
    t: "GetSegment lo (row_groups c) = (t, Some i)" "tree_wf ?b t" "segments t = groups c" "i < length (nodes t)"
    "holds_row (groups c ! i) lo" by blast
  have i: "i < length (groups c)" using t(3,4) length_segments [of t] by simp
  have "\<exists>t'. range_loop f lo cnt (Some i) t = Some (Inr t') \<and> tree_wf ?b t'
    \<and> (finished_loading t \<longrightarrow> finished_loading t') \<and> take i (segments t') = take i (segments t) \<and> list_all2 ?rel (drop i (segments t)) (drop i (segments t'))"
    using t b c rdy by (intro loop_ok) (auto simp: holds_row_def dest: in_set_dropD)
  then obtain t' where t': "range_loop f lo cnt (Some i) t = Some (Inr t')" "tree_wf ?b t'"
    "finished_loading t \<longrightarrow> finished_loading t'" "take i (segments t') = take i (groups c)" "list_all2 ?rel (drop i (groups c)) (drop i (segments t'))"
    using t(3) by auto
  have "?rel g g" if "g \<in> set (take i (groups c))" for g
  proof -
    from that obtain j where j: "j < i" "g = groups c ! j" using i by (auto simp: in_set_conv_nth)
    have "contiguous ?b (groups c)" using c(1) by (simp add: tree_wf_def)
    from contiguous_order [OF this j(1) i] have "sg_start g + sg_count g \<le> lo" using t(5) j(2) by (simp add: holds_row_def)
    moreover have "group_wf ?G g" using c(2) that by (meson in_set_takeD)
    ultimately show ?thesis using keep by simp
  qed
  then have "list_all2 ?rel (take i (groups c)) (take i (segments t'))"
    unfolding t'(4) by (simp add: list_all2_same)
  from list_all2_appendI [OF this t'(5)] have rel: "list_all2 ?rel (groups c) (segments t')" by simp
  have "contiguous ?b (groups c)" using c(1) by (simp add: tree_wf_def)
  note rows = group_upd_rows [OF rel this]
  let ?c = "c\<lparr>row_groups := t'\<rparr>"
  have fin: "finished_loading (row_groups c) \<longrightarrow> finished_loading t"
    using GetSegment_finished [of "row_groups c" lo] t(1) by simp
  have "on_range f lo cnt c = Some (Inr ?c)" using t(1) t'(1) by (simp add: on_range_def)
  moreover have "coll_wf ?c"
    using rows t'(2) c(3,4) rows_end_length [of ?b "segments t'"] rows_end_length [of ?b "groups c"]
    by (simp add: coll_wf_def)
  moreover have "length (coll_rows ?c) = length (coll_rows c)" using rows by (simp add: coll_rows_def)
  moreover have "\<forall>k < total_rows c. R (lo \<le> ?b + k \<and> ?b + k < ?hi) (coll_rows c ! k) (coll_rows ?c ! k)"
    using rows length_coll_rows [OF wf] by (simp add: coll_rows_def)
  ultimately show ?thesis using rel t'(3) fin by (intro exI [of _ ?c]) simp
qed

end

subsection \<open>Commit\<close>

text \<open>
  The rows of a transaction in a row group are those it appended: each of their vectors can be committed,
  whatever rows others append after them.
\<close>

lemma own_rows_ready:
  assumes wf: "rvm_wf n m" and rs: "rs < re" "re \<le> n" and tid: "tid \<noteq> 0"
    and own: "\<And>r. r < n \<Longrightarrow> fst (row_version_at m r) = tid \<longleftrightarrow> rs \<le> r \<and> r < re"
    and v: "v \<in> set (touched rs re)" "vector_range rs re v = (s, e)"
  shows "commit_ready rs re v (info_at (vector_info m) v)"
    and "info_at (vector_info m) v = Some (VECTOR_INFO c) \<Longrightarrow> same_inserted_id c \<Longrightarrow> e = vector_rows n v"
proof -
  let ?S = STANDARD_VECTOR_SIZE and ?info = "info_at (vector_info m) v"
  have se: "s < e" "e \<le> ?S" "v * ?S + e \<le> re" using range_bounds [OF rs(1) v(2)] v(1) by auto
  have mem: "fst (chunk_version ?info i) = tid \<longleftrightarrow> s \<le> i \<and> i < e" if "i < ?S" "v * ?S + i < n" for i
    using own [OF that(2)] rows_of_range [OF rs(1) v(2) that(1)] v(1) version_in_vector [OF that(1), of "vector_info m" v]
    by (simp add: row_version_at_def)
  have s: "fst (chunk_version ?info s) = tid" using mem [of s] se rs(2) by simp
  have w: "info_wf n v ?info" using wf by (simp add: rvm_wf_def)
  have same: "s = 0 \<and> e = vector_rows n v" if "\<And>i. i < vector_rows n v \<Longrightarrow> fst (chunk_version ?info i) = tid"
  proof -
    have all: "s \<le> i \<and> i < e" if "i < vector_rows n v" for i
      using mem [of i] \<open>\<And>i. i < vector_rows n v \<Longrightarrow> fst (chunk_version ?info i) = tid\<close> [OF that] that
      by (auto simp: vector_rows_def)
    have "e \<le> vector_rows n v" using se rs(2) by (simp add: vector_rows_def)
    moreover from this have "s = 0" using all [of 0] se(1) by simp
    moreover have "vector_rows n v \<le> e"
    proof (rule ccontr)
      assume "\<not> vector_rows n v \<le> e"
      then show False using all [of e] by simp
    qed
    ultimately show ?thesis by simp
  qed
  have vec: "s = 0 \<and> e = vector_rows n v" if c: "?info = Some (VECTOR_INFO c)" "same_inserted_id c" for c
  proof (rule same)
    have "cv_wf (vector_rows n v) c" using w c(1) by simp
    then have const: "\<And>i. i < vector_rows n v \<Longrightarrow> inserted c i = insert_id c" using c(2) by (simp add: cv_wf_def)
    have "s < vector_rows n v" using se rs(2) by (simp add: vector_rows_def)
    then show "fst (chunk_version ?info i) = tid" if "i < vector_rows n v" for i
      using s const that by (simp add: c(1))
  qed
  then show "?info = Some (VECTOR_INFO c) \<Longrightarrow> same_inserted_id c \<Longrightarrow> e = vector_rows n v" by blast
  show "commit_ready rs re v ?info"
  proof (cases "(rs, re, v, ?info)" rule: commit_ready.cases)
    case (1 rs' re' v')
    then have "?info = None" by auto
    then show ?thesis using s tid by simp
  next
    case (2 rs' re' v' c)
    then have info: "?info = Some (CONSTANT_INFO c)" by auto
    have "vector_rows n v = ?S" using w unfolding info by (simp add: vector_rows_def)
    then have "s = 0 \<and> e = ?S" using same s by (simp add: info)
    then show ?thesis using v(2) by (simp add: info)
  next
    case (3 rs' re' v' c)
    then have info: "?info = Some (VECTOR_INFO c)" by auto
    then show ?thesis using vec v(2) by auto
  qed
qed

lemma committed_not_dropped: "not_dropped info \<Longrightarrow> not_dropped (committed cid rs re v info)"
  by (cases info rule: not_dropped.cases) (auto simp: committed_def constant_commit_append_def split: prod.split)

lemma rvm_CommitAppend_own:
  assumes wf: "rvm_wf n m" and rs: "rs < re" "re \<le> n" and tid: "tid \<noteq> 0"
    and own: "\<And>r. r < n \<Longrightarrow> fst (row_version_at m r) = tid \<longleftrightarrow> rs \<le> r \<and> r < re"
  shows "\<exists>m'. rvm_CommitAppend m cid rs (re - rs) = Inr m' \<and> rvm_wf n m'
    \<and> (\<forall>v. not_dropped (info_at (vector_info m) v) \<longrightarrow> not_dropped (info_at (vector_info m') v))
    \<and> (\<forall>row. row_version_at m' row =
         (if rs \<le> row \<and> row < re then (cid, snd (row_version_at m row)) else row_version_at m row))"
proof -
  let ?g = "committed cid rs re" and ?vs = "touched rs re" and ?infos = "vector_info m"
  have ready: "commit_ready rs re v (info_at ?infos v)" if "v \<in> set ?vs" for v
    using own_rows_ready(1) [OF wf rs tid own that] by (metis prod.exhaust)
  have "\<exists>infos'. update_vectors (commit_vector cid rs re) ?vs ?infos = Inr infos'
      \<and> (\<forall>v. info_at infos' v = (if v \<in> set ?vs then ?g v (info_at ?infos v) else info_at ?infos v))"
    by (intro update_vectors_ok conjI distinct_touched)
      (simp_all only: commit_ready_vector [OF ready] commit_ready_length [OF ready])
  then obtain infos where u: "update_vectors (commit_vector cid rs re) ?vs ?infos = Inr infos"
    and at: "\<And>v. info_at infos v = (if v \<in> set ?vs then ?g v (info_at ?infos v) else info_at ?infos v)"
    by blast
  let ?m = "m\<lparr>vector_info := infos\<rparr>"
  have "info_wf n v (info_at infos v)" for v
  proof (cases "v \<in> set ?vs")
    case True
    obtain s e where r: "vector_range rs re v = (s, e)" by fastforce
    have w: "info_wf n v (info_at ?infos v)" using wf by (simp add: rvm_wf_def)
    show ?thesis
    proof (cases "(n, v, info_at ?infos v)" rule: info_wf.cases)
      case (3 n' v' c)
      then have c: "info_at ?infos v = Some (VECTOR_INFO c)" by auto
      have "same_inserted_id c \<Longrightarrow> s = 0 \<and> e = vector_rows n v"
        using ready [OF True] own_rows_ready(2) [OF wf rs tid own True r c] by (simp add: c r)
      then have "cv_wf (vector_rows n v) (vector_commit_append c cid s e)"
        using w vector_commit_append_wf by (auto simp: c cv_wf_def any_deleted_wf_def)
      then show ?thesis using True by (simp add: at c committed_def r)
    qed (use True w in \<open>simp_all add: at committed_def r\<close>)
  next
    case False
    then have "info_at infos v = info_at ?infos v" using at by metis
    then show ?thesis using wf by (simp add: rvm_wf_def)
  qed
  then have "rvm_wf n ?m" by (simp add: rvm_wf_def)
  moreover have "not_dropped (info_at ?infos v) \<longrightarrow> not_dropped (info_at infos v)" for v
    unfolding at [of v] using committed_not_dropped by simp
  moreover have "version_in infos row =
      (if rs \<le> row \<and> row < re then (cid, snd (version_in ?infos row)) else version_in ?infos row)" for row
    by (rule updated_versions [OF rs(1), where g = ?g and upd = "\<lambda>w. (cid, snd w)", OF at])
      (rule committed_version [OF ready])
  moreover have "rvm_CommitAppend m cid rs (re - rs) = Inr ?m"
    using rs(1) u by (simp add: rvm_CommitAppend_def Let_def)
  ultimately show ?thesis by (intro exI [of _ ?m]) (simp add: row_version_at_def)
qed

definition own_rows :: "transaction_t \<Rightarrow> nat \<Rightarrow> nat \<Rightarrow> row_group \<Rightarrow> bool" where
  "own_rows tid lo hi g \<longleftrightarrow> (\<forall>k < sg_count g. fst (group_rows g ! k) = tid \<longleftrightarrow> lo \<le> sg_start g + k \<and> sg_start g + k < hi)"

lemma rg_CommitAppend_ok:
  assumes g: "group_wf gsize g" and tid: "tid \<noteq> 0" "own_rows tid lo hi g" and sn: "s + n \<le> sg_count g"
    and rng: "\<And>k. k < sg_count g \<Longrightarrow> s \<le> k \<and> k < s + n \<longleftrightarrow> lo \<le> sg_start g + k \<and> sg_start g + k < hi"
  shows "\<exists>g'. rg_CommitAppend cid s n g = Inr g' \<and> same_extent g g'
    \<and> group_rel gsize (\<lambda>b v v'. v' = (if b then (cid, snd v) else v)) lo hi g g'"
proof -
  let ?m = "loaded_manager g" and ?c = "sg_count g"
  have m: "loads g" "rvm_wf ?c ?m" "sg_count g \<le> gsize" "\<forall>r\<ge>?c. snd (row_version_at ?m r) = NOT_DELETED_ID"
    using g by (simp_all add: group_wf_def)
  have "\<exists>m'. rvm_CommitAppend ?m cid s n = Inr m' \<and> rvm_wf ?c m'
    \<and> (\<forall>v. not_dropped (info_at (vector_info ?m) v) \<longrightarrow> not_dropped (info_at (vector_info m') v))
    \<and> (\<forall>r. row_version_at m' r = (if s \<le> r \<and> r < s + n then (cid, snd (row_version_at ?m r)) else row_version_at ?m r))"
  proof (cases "n = 0")
    case True
    then show ?thesis using m by (auto simp: rvm_CommitAppend_def)
  next
    case False
    have "fst (row_version_at ?m r) = tid \<longleftrightarrow> s \<le> r \<and> r < s + n" if "r < ?c" for r
      using tid(2) that rng [OF that] by (simp add: own_rows_def group_rows_nth)
    from rvm_CommitAppend_own [OF m(2) _ sn tid(1) this, of cid] show ?thesis using False by simp
  qed
  then obtain m' where m': "rvm_CommitAppend ?m cid s n = Inr m'" "rvm_wf ?c m'"
    "\<forall>v. not_dropped (info_at (vector_info ?m) v) \<longrightarrow> not_dropped (info_at (vector_info m') v)"
    "\<And>r. row_version_at m' r = (if s \<le> r \<and> r < s + n then (cid, snd (row_version_at ?m r)) else row_version_at ?m r)"
    by blast
  from with_vinfo_ok [OF m(1), of "\<lambda>v. rvm_CommitAppend v cid s n", OF m'(1)] obtain g' where
    g': "rg_CommitAppend cid s n g = Inr g'" "loads g'" "loaded_manager g' = m'" "same_extent g g'" "attached g'"
    by (auto simp: rg_CommitAppend_def)
  have "group_wf gsize g'" using g' m' m by (simp add: group_wf_def same_extent_def)
  moreover have "group_rows g' ! k = (if lo \<le> sg_start g + k \<and> sg_start g + k < hi then (cid, snd (group_rows g ! k)) else group_rows g ! k)"
    if "k < ?c" for k
    using that rng [OF that] g'(3,4) m'(4) by (simp add: group_rows_nth same_extent_def)
  ultimately have "group_rel gsize (\<lambda>b v v'. v' = (if b then (cid, snd v) else v)) lo hi g g'"
    using g'(3-5) m'(3) by (simp add: group_upd_def same_extent_def no_dropped_def)
  then show ?thesis using g' by blast
qed

interpretation commit: range_operation "rg_CommitAppend cid" "\<lambda>gsize lo hi g. tid \<noteq> 0 \<and> own_rows tid lo hi g"
  "\<lambda>b v v'. v' = (if b then (cid, snd v) else v)" for cid tid
proof
  show "\<exists>g'. rg_CommitAppend cid s n g = Inr g' \<and> same_extent g g'
      \<and> group_rel gsize (\<lambda>b v v'. v' = (if b then (cid, snd v) else v)) lo hi g g'"
    if "group_wf gsize g" "tid \<noteq> 0 \<and> own_rows tid lo hi g" "s + n \<le> sg_count g"
      "\<And>k. k < sg_count g \<Longrightarrow> s \<le> k \<and> k < s + n \<longleftrightarrow> lo \<le> sg_start g + k \<and> sg_start g + k < hi" for gsize g lo hi s n
    using rg_CommitAppend_ok [OF that(1) _ _ that(3,4)] that(2) by blast
qed (simp_all add: own_rows_def)

lemma rows_in_groups:
  assumes "contiguous b gs" "\<And>k. k < length (concat (map group_rows gs)) \<Longrightarrow> P (b + k) (concat (map group_rows gs) ! k)"
    and "g \<in> set gs" "k < sg_count g"
  shows "P (sg_start g + k) (group_rows g ! k)"
  using assms
proof (induction gs arbitrary: b)
  case (Cons h gs)
  show ?case
  proof (cases "g = h")
    case True
    then show ?thesis using Cons.prems(2) [of k] Cons.prems(1,4) by (simp add: nth_append)
  next
    case False
    have "P (b + sg_count h + j) (concat (map group_rows gs) ! j)" if "j < length (concat (map group_rows gs))" for j
      using Cons.prems(2) [of "sg_count h + j"] that by (simp add: nth_append add.assoc)
    then show ?thesis using Cons.IH [of "b + sg_count h"] Cons.prems False by simp
  qed
qed simp

lemma coll_own_rows:
  assumes "coll_wf c" "\<forall>k < total_rows c. fst (coll_rows c ! k) = tid \<longleftrightarrow> lo \<le> row_start c + k \<and> row_start c + k < hi"
    and "g \<in> set (groups c)"
  shows "own_rows tid lo hi g"
  unfolding own_rows_def
proof (intro allI impI)
  fix k assume "k < sg_count g"
  moreover have "contiguous (row_start c) (groups c)" using assms(1) by (simp add: coll_wf_def tree_wf_def)
  ultimately show "fst (group_rows g ! k) = tid \<longleftrightarrow> lo \<le> sg_start g + k \<and> sg_start g + k < hi"
    using rows_in_groups [of "row_start c" "groups c" "\<lambda>r v. fst v = tid \<longleftrightarrow> lo \<le> r \<and> r < hi" g k]
      assms(2,3) length_coll_rows [OF assms(1)] by (simp add: coll_rows_def)
qed

text \<open>
  C35: \<open>CommitAppend\<close> of the rows a transaction appended, anywhere in the table and over any number of row
  groups, whatever others appended before and after them: it ends without an error, keeps the collection
  well-formed, and gives exactly these rows the commit id as their insertion id.
\<close>
theorem CommitAppend_refines:
  assumes "coll_wf c" and "row_start c \<le> start" "0 < cnt" "start + cnt \<le> row_start c + total_rows c" and "tid \<noteq> 0"
    and "\<forall>k < total_rows c. fst (coll_rows c ! k) = tid \<longleftrightarrow> start \<le> row_start c + k \<and> row_start c + k < start + cnt"
  shows "\<exists>c'. coll_CommitAppend cid start cnt c = Some (Inr c') \<and> coll_wf c' \<and> total_rows c' = total_rows c
    \<and> coll_rows c' = map (\<lambda>k. if start \<le> row_start c + k \<and> row_start c + k < start + cnt
         then (cid, snd (coll_rows c ! k)) else coll_rows c ! k) [0..<total_rows c]"
proof -
  have "\<forall>g\<in>set (groups c). tid \<noteq> 0 \<and> own_rows tid start (start + cnt) g"
    using assms(5) coll_own_rows [OF assms(1,6)] by blast
  from commit.on_range_ok [OF assms(1) this assms(2-4), of cid] obtain c' where
    c': "on_range (rg_CommitAppend cid) start cnt c = Some (Inr c')" "coll_wf c'" "total_rows c' = total_rows c"
    "\<forall>k < total_rows c. coll_rows c' ! k = (if start \<le> row_start c + k \<and> row_start c + k < start + cnt
       then (cid, snd (coll_rows c ! k)) else coll_rows c ! k)" by blast
  have "coll_rows c' = map (\<lambda>k. if start \<le> row_start c + k \<and> row_start c + k < start + cnt
         then (cid, snd (coll_rows c ! k)) else coll_rows c ! k) [0..<total_rows c]"
    using c' length_coll_rows [OF assms(1)] length_coll_rows [OF c'(2)] by (intro nth_equalityI) auto
  then show ?thesis using c' by (auto simp: coll_CommitAppend_def)
qed

text \<open>Rows 2..4 of five belong to the transaction.\<close>

definition example_vector :: chunk_vector_info where
  "example_vector = vector_append (vector_append (ChunkVectorInfo 0) 0 2 3) 2 5 TRANSACTION_ID_START"

definition example_group :: row_group where
  "example_group = SetVersionInfo (Some ((RowVersionManager 0)\<lparr>vector_info := [Some (VECTOR_INFO example_vector)]\<rparr>)) (RowGroup 0 5)"

definition example_rows :: row_group_collection where
  "example_rows = \<lparr>row_groups = \<lparr>nodes = [(0, example_group)], unloaded = [], finished_loading = True\<rparr>,
     row_group_size = 2048, total_rows = 5, row_start = 0\<rparr>"

lemma example_group_manager:
  "loads example_group" "loaded_manager example_group = (RowVersionManager 0)\<lparr>vector_info := [Some (VECTOR_INFO example_vector)]\<rparr>"
  "sg_start example_group = 0" "sg_count example_group = 5" "sg_next example_group = None"
proof -
  have "\<not> HasUnloadedDeletes (RowGroup 0 5)" by (simp add: HasUnloadedDeletes_def RowGroup_def SegmentBase_def)
  note m = manager_set [OF this, folded example_group_def]
  show "loads example_group" "loaded_manager example_group = (RowVersionManager 0)\<lparr>vector_info := [Some (VECTOR_INFO example_vector)]\<rparr>"
    by (simp_all add: example_group_def m manager_set HasUnloadedDeletes_def RowGroup_def SegmentBase_def)
  show "sg_start example_group = 0" "sg_count example_group = 5" "sg_next example_group = None"
    by (simp_all add: example_group_def SetVersionInfo_def RowGroup_def SegmentBase_def)
qed

lemma example_group_rows:
  "group_rows example_group = [(3, NOT_DELETED_ID), (3, NOT_DELETED_ID), (TRANSACTION_ID_START, NOT_DELETED_ID),
     (TRANSACTION_ID_START, NOT_DELETED_ID), (TRANSACTION_ID_START, NOT_DELETED_ID)]"
proof -
  have u: "[0..<5] = [0, 1, 2, 3, 4::nat]" by (simp add: upt_rec)
  show ?thesis
    by (simp add: group_rows_def example_group_manager u row_version_at_def version_in_def info_at_def STANDARD_VECTOR_SIZE_def
        RowVersionManager_def example_vector_def vector_append_inserted ChunkVectorInfo_def)
qed

lemma example_rows_wf: "coll_wf example_rows" "coll_rows example_rows = group_rows example_group"
proof -
  have "cv_wf 0 (ChunkVectorInfo 0)" by (simp add: ChunkVectorInfo_def cv_wf_def any_deleted_wf_def)
  then have "cv_wf 5 example_vector" unfolding example_vector_def by (intro vector_append_wf) (auto intro: vector_append_wf)
  then have "\<forall>v. \<not> Suc 0 \<le> v \<longrightarrow> cv_wf (5 - v * 2048) example_vector" by (auto simp: not_less_eq_eq)
  moreover have "deleted example_vector i = NOT_DELETED_ID" for i
    by (simp add: example_vector_def vector_append_inserted ChunkVectorInfo_def)
  ultimately have "group_wf 2048 example_group"
    by (simp add: group_wf_def example_group_manager rvm_wf_def info_at_def vector_rows_def STANDARD_VECTOR_SIZE_def
        row_version_at_def version_in_def RowVersionManager_def nth_Cons')
  then show "coll_wf example_rows"
    by (simp add: example_rows_def coll_wf_def tree_wf_def segments_def linked_def example_group_manager valid_size_def
        STANDARD_VECTOR_SIZE_def)
  show "coll_rows example_rows = group_rows example_group"
    by (simp add: example_rows_def coll_rows_def segments_def)
qed

lemma example_rows_simps [simp]: "row_start example_rows = 0" "total_rows example_rows = 5"
  by (simp_all add: example_rows_def)

lemma less_5: "k < (5::nat) \<longleftrightarrow> k = 0 \<or> k = 1 \<or> k = 2 \<or> k = 3 \<or> k = 4"
  by presburger

lemma all_less_5: "(\<forall>k < (5::nat). P k) \<longleftrightarrow> P 0 \<and> P 1 \<and> P 2 \<and> P 3 \<and> P 4"
  unfolding less_5 by blast

theorem CommitAppend_refines_witness:
  "\<exists>c'. coll_CommitAppend 9 2 3 example_rows = Some (Inr c') \<and> coll_wf c' \<and> total_rows c' = 5
    \<and> coll_rows c' = [(3, NOT_DELETED_ID), (3, NOT_DELETED_ID), (9, NOT_DELETED_ID), (9, NOT_DELETED_ID), (9, NOT_DELETED_ID)]"
proof -
  have u: "[0..<5] = [0, 1, 2, 3, 4::nat]" by (simp add: upt_rec)
  have own: "\<forall>k < total_rows example_rows. fst (coll_rows example_rows ! k) = TRANSACTION_ID_START
      \<longleftrightarrow> 2 \<le> row_start example_rows + k \<and> row_start example_rows + k < 2 + 3"
    unfolding example_rows_simps all_less_5 example_rows_wf(2) example_group_rows by (simp add: TRANSACTION_ID_START_def)
  have "TRANSACTION_ID_START \<noteq> 0" by (simp add: TRANSACTION_ID_START_def)
  from CommitAppend_refines [OF example_rows_wf(1) _ _ _ this own, of 9] show ?thesis
    by (simp add: example_rows_wf(2) example_group_rows u)
qed

end
