(* ===== verification/TableChanges.thy ===== *)
theory TableChanges
  imports TableRows
begin

text \<open>
  The other operations on the rows of a table: reverting an append, the cleanup of old versions, and
  deletes, with the undo entries a transaction keeps of them.
\<close>

section \<open>Reverting an append\<close>

lemma RevertAppend_deleted:
  assumes "snd (row_version_at m r) = NOT_DELETED_ID"
  shows "snd (row_version_at (RevertAppend m s) r) = NOT_DELETED_ID"
  using assms by (auto simp: row_version_at_def version_in_def RevertAppend_info)

lemma rg_RevertAppend_ok:
  assumes g: "group_wf gsize g" and s: "sg_start g \<le> row" "row \<le> sg_start g + sg_count g"
    and old: "\<And>k. sg_start g + k < row \<Longrightarrow> fst (group_rows g ! k) \<noteq> tid"
    and new: "\<And>k. row \<le> sg_start g + k \<Longrightarrow> k < sg_count g \<Longrightarrow> group_rows g ! k = (tid, NOT_DELETED_ID)"
  shows "\<exists>g'. rg_RevertAppend row g = Inr g' \<and> sg_start g' = sg_start g \<and> sg_next g' = sg_next g
    \<and> sg_count g' = row - sg_start g \<and> group_wf gsize g' \<and> group_rows g' = take (row - sg_start g) (group_rows g)
    \<and> (no_dropped g \<longrightarrow> no_dropped g') \<and> attached g'"
proof -
  let ?m = "loaded_manager g" and ?n = "sg_count g" and ?s = "row - sg_start g"
  have m: "loads g" "rvm_wf ?n ?m" "?n \<le> gsize" "\<forall>r\<ge>?n. snd (row_version_at ?m r) = NOT_DELETED_ID"
    using g by (simp_all add: group_wf_def)
  have sn: "?s \<le> ?n" using s by simp
  have straddle: "\<forall>v c. info_at (vector_info ?m) v = Some (CONSTANT_INFO c) \<longrightarrow>
      Suc v * STANDARD_VECTOR_SIZE \<le> ?s \<or> ?s \<le> v * STANDARD_VECTOR_SIZE"
  proof (intro allI impI, rule ccontr)
    fix v c assume c: "info_at (vector_info ?m) v = Some (CONSTANT_INFO c)"
      and "\<not> (Suc v * STANDARD_VECTOR_SIZE \<le> ?s \<or> ?s \<le> v * STANDARD_VECTOR_SIZE)"
    then have b: "v * STANDARD_VECTOR_SIZE < ?s" "?s < v * STANDARD_VECTOR_SIZE + STANDARD_VECTOR_SIZE" by simp_all
    have "info_wf ?n v (Some (CONSTANT_INFO c))" using m(2) c by (metis rvm_wf_def)
    then have n: "?s < ?n" using b(2) by simp
    have const: "row_version_at ?m (v * STANDARD_VECTOR_SIZE + i) = (cc_insert_id c, cc_delete_id c)"
      if "i < STANDARD_VECTOR_SIZE" for i
      using version_in_vector [OF that, of "vector_info ?m" v] c by (simp add: row_version_at_def)
    have "row_version_at ?m ?s = (cc_insert_id c, cc_delete_id c)"
      using const [of "?s - v * STANDARD_VECTOR_SIZE"] b by simp
    moreover have "group_rows g ! ?s = (tid, NOT_DELETED_ID)" using s(1) n by (intro new) simp_all
    ultimately have "cc_insert_id c = tid" using n by (simp add: group_rows_nth)
    moreover have "row_version_at ?m (v * STANDARD_VECTOR_SIZE) = (cc_insert_id c, cc_delete_id c)"
      using const [of 0] by (simp add: STANDARD_VECTOR_SIZE_def)
    moreover have "fst (group_rows g ! (v * STANDARD_VECTOR_SIZE)) \<noteq> tid" using b(1) by (intro old) simp
    ultimately show False using b(1) n by (simp add: group_rows_nth)
  qed
  note rev = RevertAppend_restores_aux [OF m(2) sn straddle]
  from with_vinfo_ok [OF m(1), of "\<lambda>v. Inr (RevertAppend v ?s)", OF refl] obtain g1 where
    g1: "with_vinfo (\<lambda>v. Inr (RevertAppend v ?s)) g = Inr g1" "loads g1" "loaded_manager g1 = RevertAppend ?m ?s"
    "same_extent g g1" "attached g1" by blast
  let ?g = "g1\<lparr>sg_count := ?s\<rparr>"
  have "rg_RevertAppend row g = Inr ?g" using g1(1,4) sn by (simp add: rg_RevertAppend_def same_extent_def min_absorb1)
  moreover have "snd (row_version_at (RevertAppend ?m ?s) r) = NOT_DELETED_ID" if "?s \<le> r" for r
  proof (rule RevertAppend_deleted, cases "r < ?n")
    case True
    have "group_rows g ! r = (tid, NOT_DELETED_ID)" using that True by (intro new) linarith+
    then show "snd (row_version_at ?m r) = NOT_DELETED_ID" using True by (simp add: group_rows_nth)
  qed (use m(4) in simp)
  then have "group_wf gsize ?g" using g1 rev m(3) sn by (simp add: group_wf_def)
  moreover have "group_rows ?g = take ?s (group_rows g)"
    using sn rev by (intro nth_equalityI) (simp_all add: group_rows_nth g1(3))
  moreover have "no_dropped g \<longrightarrow> no_dropped ?g" by (simp add: no_dropped_def g1(3) RevertAppend_info)
  moreover have "attached ?g" using g1(5) by (auto simp: attached_def HasUnloadedDeletes_def split: if_splits)
  ultimately show ?thesis using g1(4) by (intro exI [of _ ?g]) (simp add: same_extent_def)
qed

lemma GetSegmentByIndex_shape:
  "tree_shape t \<Longrightarrow> i < length (segments t) \<Longrightarrow> GetSegmentByIndex (int i) t = (t, Some i)"
  by (simp add: GetSegmentByIndex_def load_while.simps length_segments tree_shape_def)

lemma TryGetSegmentIndex_shape:
  assumes "tree_shape t"
  shows "fst (TryGetSegmentIndex r t) = t"
proof -
  have "load_while go t = t" for go
    using assms by (simp add: load_while.simps LoadNextSegment_def tree_shape_def)
  then show ?thesis by (simp add: TryGetSegmentIndex_def Let_def)
qed

lemma EraseSegments_shape:
  assumes "tree_shape t" "i < length (nodes t)"
  shows "nodes (EraseSegments i t) = take (Suc i) (nodes t)" "finished_loading (EraseSegments i t)"
    "unloaded (EraseSegments i t) = []"
  using assms by (auto simp: EraseSegments_def Load_shape Let_def) (simp_all add: tree_shape_def)

text \<open>The tree after the erasure, with the last group replaced.\<close>

lemma erase_put:
  assumes t: "tree_shape t" and i: "i < length (nodes t)" and g: "sg_start g = sg_start (snd (nodes t ! i))" "sg_next g = None"
  shows "tree_shape (put_group i g (EraseSegments i t))"
    "segments (put_group i g (EraseSegments i t)) = take i (segments t) @ [unlinked g]"
proof -
  note e = EraseSegments_shape [OF t i]
  let ?t = "put_group i g (EraseSegments i t)"
  have ns: "nodes ?t = take i (nodes t) @ [(sg_start g, g)]"
  proof -
    have "fst (nodes t ! i) = sg_start g"
      using t i g(1) unfolding tree_shape_def by (metis (mono_tags, lifting) case_prodD nth_mem prod.collapse)
    then show ?thesis using i by (simp add: put_group_def e take_Suc_conv_app_nth list_update_append nth_append)
  qed
  have "linked (nodes ?t)"
    unfolding linked_def
  proof (intro allI impI)
    fix j assume "j < length (nodes ?t)"
    then consider "j < i" | "j = i" using i by (auto simp: ns less_Suc_eq)
    then show "sg_next (snd (nodes ?t ! j)) = (if Suc j < length (nodes ?t) then Some (Suc j) else None)"
    proof cases
      case 1
      then have "sg_next (snd (nodes t ! j)) = Some (Suc j)" using t i by (simp add: tree_shape_def linked_def)
      then show ?thesis using 1 i by (simp add: ns nth_append)
    qed (use i g(2) in \<open>simp add: ns nth_append\<close>)
  qed
  moreover have "\<forall>(r, s)\<in>set (nodes ?t). r = sg_start s"
    using t unfolding ns tree_shape_def by (auto dest: in_set_takeD)
  moreover have l: "finished_loading ?t" "unloaded ?t = []" using e by (simp_all add: put_group_def)
  ultimately show "tree_shape ?t" by (simp add: tree_shape_def)
  show "segments ?t = take i (segments t) @ [unlinked g]"
    using t i unfolding segments_def ns l(2) by (simp add: tree_shape_def take_map)
qed

text \<open>The row groups left by cutting a table at row \<open>r\<close>: those up to the one that holds row \<open>r\<close>, shortened.\<close>

definition truncated :: "nat \<Rightarrow> row_group list \<Rightarrow> row_group list \<Rightarrow> bool" where
  "truncated r gs gs' \<longleftrightarrow> length gs' \<le> length gs \<and> (\<forall>k < length gs. (\<exists>j < r. holds_row (gs ! k) j) \<longrightarrow> k < length gs')
     \<and> (\<forall>k < length gs'. sg_start (gs' ! k) = sg_start (gs ! k)
          \<and> sg_count (gs' ! k) = min (sg_count (gs ! k)) (r - sg_start (gs ! k))
          \<and> (no_dropped (gs ! k) \<longrightarrow> no_dropped (gs' ! k)) \<and> (attached (gs ! k) \<longrightarrow> attached (gs' ! k)))"

lemma truncated_take:
  assumes c: "contiguous b gs" and i: "i < length gs" "sg_start (gs ! i) \<le> r" "r \<le> sg_start (gs ! i) + sg_count (gs ! i)"
    and g: "sg_start g = sg_start (gs ! i)" "sg_count g = r - sg_start (gs ! i)"
      "no_dropped (gs ! i) \<longrightarrow> no_dropped g" "attached (gs ! i) \<longrightarrow> attached g"
  shows "truncated r gs (take i gs @ [g])"
proof -
  have "k \<le> i" if "k < length gs" "j < r" "holds_row (gs ! k) j" for k j
    using contiguous_order [OF c, of i k] that i by (auto simp: holds_row_def not_le [symmetric])
  then have "k < length (take i gs @ [g])" if "k < length gs" "\<exists>j < r. holds_row (gs ! k) j" for k
    using that i(1) by (auto simp: less_Suc_eq_le)
  moreover have "sg_count (gs ! k) = min (sg_count (gs ! k)) (r - sg_start (gs ! k))" if "k < i" for k
    using contiguous_order [OF c that i(1)] i(2) by simp
  ultimately show ?thesis
    unfolding truncated_def using i g by (auto simp: nth_append less_Suc_eq)
qed

lemma RevertAppendInternal_ok:
  assumes wf: "coll_wf c" and shape: "tree_shape (row_groups c)" and base: "row_start c = 0" and r: "r \<le> total_rows c"
    and old: "\<forall>k < r. fst (coll_rows c ! k) \<noteq> tid"
    and new: "\<forall>k. r \<le> k \<and> k < total_rows c \<longrightarrow> coll_rows c ! k = (tid, NOT_DELETED_ID)"
  shows "\<exists>c'. RevertAppendInternal r c = Some (Inr c') \<and> coll_wf c' \<and> total_rows c' = r \<and> row_start c' = 0
    \<and> tree_shape (row_groups c') \<and> truncated r (groups c) (groups c')
    \<and> coll_rows c' = take r (coll_rows c)"
proof (cases "groups c = []")
  case True
  then have "total_rows c = 0" using wf base by (simp add: coll_wf_def)
  then have "RevertAppendInternal r c = Some (Inr c)" "r = 0"
    using True r shape by (simp_all add: RevertAppendInternal_def GetSegmentCount_def length_segments [symmetric] segments_def)
  then show ?thesis using wf base shape True \<open>total_rows c = 0\<close> by (simp add: coll_rows_def truncated_def)
next
  case False
  let ?t = "row_groups c" and ?G = "row_group_size c"
  have c: "tree_wf 0 ?t" "contiguous 0 (groups c)" "\<forall>g\<in>set (groups c). group_wf ?G g" "valid_size ?G"
    "total_rows c = rows_end 0 (groups c)" using wf base by (simp_all add: coll_wf_def tree_wf_def)
  have len: "length (groups c) = length (nodes ?t)" using shape by (simp add: length_segments tree_shape_def)
  note fst = TryGetSegmentIndex_shape [OF shape, of r]
  have "\<exists>i res. TryGetSegmentIndex r ?t = (?t, Some res) \<and> i < length (groups c)
      \<and> (case res of Found j \<Rightarrow> j | _ \<Rightarrow> length (groups c) - 1) = i
      \<and> sg_start (groups c ! i) \<le> r \<and> r \<le> sg_start (groups c ! i) + sg_count (groups c ! i)"
  proof (cases "r < total_rows c")
    case True
    then have "r < rows_end 0 (groups c)" using c(5) by simp
    from TryGetSegmentIndex_ok(2) [OF c(1) le0 this] obtain i where
      "i < length (nodes ?t)" "snd (TryGetSegmentIndex r ?t) = Some (Found i)" "holds_row (groups c ! i) r"
      unfolding fst by blast
    then show ?thesis using fst len
      by (intro exI [of _ i] exI [of _ "Found i"]) (cases "TryGetSegmentIndex r ?t"; simp add: holds_row_def)
  next
    case False
    then have e: "r = rows_end 0 (groups c)" using r c(5) by simp
    then have "snd (TryGetSegmentIndex r ?t) = Some NotFound" by (intro TryGetSegmentIndex_ok(3) [OF c(1)]) simp
    moreover have "length (groups c) - 1 < length (groups c)" using \<open>groups c \<noteq> []\<close> by simp
    moreover from contiguous_nth [OF c(2) this] have
      "sg_start (groups c ! (length (groups c) - 1)) + sg_count (groups c ! (length (groups c) - 1)) = r"
      using e \<open>groups c \<noteq> []\<close> by simp
    ultimately show ?thesis using fst
      by (intro exI [of _ "length (groups c) - 1"] exI [of _ NotFound]) (cases "TryGetSegmentIndex r ?t"; simp)
  qed
  then obtain i res where i: "TryGetSegmentIndex r ?t = (?t, Some res)" "i < length (groups c)"
    "(case res of Found j \<Rightarrow> j | _ \<Rightarrow> length (groups c) - 1) = i"
    "sg_start (groups c ! i) \<le> r" "r \<le> sg_start (groups c ! i) + sg_count (groups c ! i)" by blast
  define g where "g = (snd (nodes ?t ! i))\<lparr>sg_next := None\<rparr>"
  have g: "groups c ! i = unlinked g" using segments_nth [of i ?t] i(2) len by (simp add: g_def)
  have gi: "i < length (nodes ?t)" using i(2) len by simp
  have mem: "unlinked g \<in> set (groups c)" using nth_mem [OF i(2)] by (simp add: g)
  then have gr: "group_wf ?G g" using c(3) by (metis group_unlinked(2))
  have rows: "(sg_start g + k < r \<longrightarrow> fst (group_rows g ! k) \<noteq> tid)
      \<and> (r \<le> sg_start g + k \<longrightarrow> group_rows g ! k = (tid, NOT_DELETED_ID))" if "k < sg_count g" for k
    using rows_in_groups [OF c(2), of "\<lambda>p v. (p < r \<longrightarrow> fst v \<noteq> tid) \<and> (r \<le> p \<longrightarrow> v = (tid, NOT_DELETED_ID))" "unlinked g" k]
      mem that old new length_coll_rows [OF wf] by (simp add: coll_rows_def)
  have b: "sg_start g \<le> r" "r \<le> sg_start g + sg_count g" using i(4,5) by (simp_all add: g)
  have old_g: "fst (group_rows g ! k) \<noteq> tid" if "sg_start g + k < r" for k
    using rows [of k] that b by simp
  have new_g: "group_rows g ! k = (tid, NOT_DELETED_ID)" if "r \<le> sg_start g + k" "k < sg_count g" for k
    using rows [of k] that by simp
  from rg_RevertAppend_ok [OF gr b old_g new_g] obtain g' where
    g': "rg_RevertAppend r g = Inr g'" "sg_start g' = sg_start g" "sg_next g' = sg_next g"
    "sg_count g' = r - sg_start g" "group_wf ?G g'" "group_rows g' = take (r - sg_start g) (group_rows g)"
    "no_dropped g \<longrightarrow> no_dropped g'" "attached g'" by blast
  have "sg_start g' = sg_start (snd (nodes ?t ! i))" "sg_next g' = None" using g' by (simp_all add: g_def)
  note e = erase_put [OF shape gi this]
  let ?t' = "put_group i g' (EraseSegments i ?t)"
  let ?c = "c\<lparr>total_rows := r, row_groups := ?t'\<rparr>"
  have nd: "snd (nodes (EraseSegments i ?t) ! i) = snd (nodes ?t ! i)"
    using EraseSegments_shape(1) [OF shape gi] gi by (simp add: take_Suc_conv_app_nth nth_append)
  have idx: "(case res of Found j \<Rightarrow> j | _ \<Rightarrow> length (nodes ?t) - 1) = i" using i(3) unfolding len .
  have "nodes ?t \<noteq> []" using gi by auto
  then have "RevertAppendInternal r c = Some (Inr ?c)"
    unfolding RevertAppendInternal_def GetSegmentCount_def Let_def i(1) prod.case option.case idx
    by (simp add: GetSegmentByIndex_shape [OF shape i(2)]
        nd g_def [symmetric] g'(1))
  moreover have start: "sg_start g = length (concat (map group_rows (take i (groups c))))"
    using contiguous_nth [OF c(2) i(2)] rows_end_length [of 0 "take i (groups c)"] by (simp add: g)
  then have "coll_rows ?c = take r (coll_rows c)"
  proof -
    have "groups c = take i (groups c) @ unlinked g # drop (Suc i) (groups c)"
      using id_take_nth_drop [OF i(2)] by (simp add: g)
    from arg_cong [OF this, of "\<lambda>gs. concat (map group_rows gs)"]
    have "coll_rows c = concat (map group_rows (take i (groups c))) @ group_rows g
        @ concat (map group_rows (drop (Suc i) (groups c)))"
      by (simp add: coll_rows_def)
    moreover have "coll_rows ?c = concat (map group_rows (take i (groups c))) @ take (r - sg_start g) (group_rows g)"
      by (simp add: coll_rows_def e(2) g'(6))
    ultimately show ?thesis using start b by simp
  qed
  moreover have "coll_wf ?c"
  proof -
    have "contiguous 0 (take i (groups c) @ [unlinked g'])"
      using c(2) g'(2) contiguous_nth [OF c(2) i(2)]
      by (metis append_take_drop_id contiguous.simps contiguous_append g unlinked_simps(1))
    then have "tree_wf 0 ?t'" using shape_wf [OF e(1)] e(2) by simp
    moreover have "rows_end 0 (segments ?t') = r"
      using rows_end_length [of 0 "segments ?t'"] start g'(4) b by (simp add: e(2))
    moreover have "\<forall>h\<in>set (segments ?t'). group_wf ?G h"
      using c(3) g'(5) unfolding e(2) by (auto dest: in_set_takeD)
    ultimately show ?thesis using c(4) base by (simp add: coll_wf_def)
  qed
  moreover have "truncated r (groups c) (take i (groups c) @ [unlinked g'])"
    using g'(2,4,7,8) by (intro truncated_take [OF c(2) i(2,4,5)]) (simp_all add: g)
  ultimately show ?thesis using base e by (intro exI [of _ ?c]) simp
qed

text \<open>
  C36: A failed append leaves no trace: appending chunks to a table whose rows do not stem from the
  transaction, and then reverting to the row count before with \<open>RevertAppendInternal\<close>, succeeds and
  restores exactly the rows, the row count and the well-formedness of the collection, whatever row groups
  and vectors the append had opened or filled.
\<close>
theorem append_then_revert:
  assumes "coll_wf c" "row_start c = 0"
    and "\<forall>k < total_rows c. fst (coll_rows c ! k) \<noteq> td_transaction_id td"
  shows "\<exists>c1 s1 c2 s2 c3 s3 c4. InitializeAppend c = Some (c1, s1) \<and> append_chunks ns (c1, s1) = Some (c2, s2)
    \<and> FinalizeAppend td (c2, s2) = Some (Inr (c3, s3)) \<and> RevertAppendInternal (total_rows c) c3 = Some (Inr c4)
    \<and> coll_wf c4 \<and> total_rows c4 = total_rows c \<and> coll_rows c4 = coll_rows c"
proof -
  from append_refines_aux [OF assms(1), of ns td] obtain c1 s1 c2 s2 c3 s3 where
    c: "InitializeAppend c = Some (c1, s1)" "append_chunks ns (c1, s1) = Some (c2, s2)"
      "FinalizeAppend td (c2, s2) = Some (Inr (c3, s3))"
    and c3: "coll_wf c3" "total_rows c3 = total_rows c + sum_list ns" "row_start c3 = row_start c"
      "tree_shape (row_groups c3)"
      "coll_rows c3 = coll_rows c @ replicate (sum_list ns) (td_transaction_id td, NOT_DELETED_ID)" by blast
  note len = length_coll_rows [OF assms(1)]
  have "\<exists>c4. RevertAppendInternal (total_rows c) c3 = Some (Inr c4) \<and> coll_wf c4 \<and> total_rows c4 = total_rows c
      \<and> row_start c4 = 0 \<and> tree_shape (row_groups c4) \<and> truncated (total_rows c) (groups c3) (groups c4)
      \<and> coll_rows c4 = take (total_rows c) (coll_rows c3)"
    using assms(2,3) c3 len by (intro RevertAppendInternal_ok [where tid = "td_transaction_id td"]) (auto simp: nth_append)
  then show ?thesis using c c3(5) len by auto
qed

theorem append_then_revert_witness:
  "\<exists>c1 s1 c2 s2 c3 s3 c4. InitializeAppend example_rows = Some (c1, s1)
    \<and> append_chunks [5000, 17] (c1, s1) = Some (c2, s2)
    \<and> FinalizeAppend \<lparr>td_transaction_id = TRANSACTION_ID_START + 1, td_start_time = 7\<rparr> (c2, s2) = Some (Inr (c3, s3))
    \<and> RevertAppendInternal 5 c3 = Some (Inr c4)
    \<and> coll_wf c4 \<and> total_rows c4 = 5 \<and> coll_rows c4 = coll_rows example_rows"
  using append_then_revert [OF example_rows_wf(1), of "\<lparr>td_transaction_id = TRANSACTION_ID_START + 1, td_start_time = 7\<rparr>" "[5000, 17]"]
  by (simp add: all_less_5 example_rows_wf(2) example_group_rows TRANSACTION_ID_START_def)

section \<open>Cleaning up an append\<close>

lemma CleanupAppend_info:
  "info_at (vector_info (CleanupAppend m lowest rs n)) v \<in> {info_at (vector_info m) v, None}"
proof (cases "n = 0")
  case False
  then show ?thesis
    using cleanup_vectors_info [of lowest "rs + n" "touched rs (rs + n)" "vector_info m" v]
    by (auto simp: CleanupAppend_def Let_def)
qed (simp add: CleanupAppend_def)

lemma CleanupAppend_keeps:
  shows "rvm_wf n m \<Longrightarrow> rvm_wf n (CleanupAppend m lowest rs k)"
    and "snd (row_version_at m r) = NOT_DELETED_ID \<Longrightarrow> snd (row_version_at (CleanupAppend m lowest rs k) r) = NOT_DELETED_ID"
proof -
  have "info_wf n v (info_at (vector_info (CleanupAppend m lowest rs k)) v)" if "rvm_wf n m" for v
    using CleanupAppend_info [of m lowest rs k v] that by (auto simp: rvm_wf_def)
  then show "rvm_wf n m \<Longrightarrow> rvm_wf n (CleanupAppend m lowest rs k)" by (simp add: rvm_wf_def)
  show "snd (row_version_at m r) = NOT_DELETED_ID \<Longrightarrow> snd (row_version_at (CleanupAppend m lowest rs k) r) = NOT_DELETED_ID"
    using CleanupAppend_info [of m lowest rs k "r div STANDARD_VECTOR_SIZE"]
    by (auto simp: row_version_at_def version_in_def)
qed

text \<open>
  What cleaning up relies on: commit ids grow along a vector, and no row has the reader's start time as
  its insertion id.
\<close>

definition cleanable :: "transaction_data \<Rightarrow> transaction_t \<Rightarrow> row_group \<Rightarrow> bool" where
  "cleanable t lowest g \<longleftrightarrow> reader t \<and> lowest \<le> td_start_time t
     \<and> (\<forall>v ci. info_at (vector_info (loaded_manager g)) v = Some ci \<longrightarrow> append_ordered ci)
     \<and> (\<forall>r. fst (row_version_at (loaded_manager g) r) \<noteq> td_start_time t)"

lemma rg_CleanupAppend_ok:
  assumes g: "group_wf gsize g" and rdy: "cleanable t lowest g" and sn: "s + n \<le> sg_count g"
  shows "\<exists>g'. rg_CleanupAppend lowest s n g = Inr g' \<and> same_extent g g'
    \<and> group_rel gsize (\<lambda>b v v'. visible_to t v' = visible_to t v) lo hi g g'"
proof -
  let ?m = "loaded_manager g" and ?c = "sg_count g"
  let ?m' = "CleanupAppend ?m lowest s n"
  have m: "loads g" "rvm_wf ?c ?m" "sg_count g \<le> gsize" "\<forall>r\<ge>?c. snd (row_version_at ?m r) = NOT_DELETED_ID"
    using g by (simp_all add: group_wf_def)
  from with_vinfo_ok [OF m(1), of "\<lambda>v. Inr (CleanupAppend v lowest s n)", OF refl] obtain g' where
    g': "rg_CleanupAppend lowest s n g = Inr g'" "loads g'" "loaded_manager g' = ?m'" "same_extent g g'" "attached g'"
    by (auto simp: rg_CleanupAppend_def)
  have "group_wf gsize g'" using g' m CleanupAppend_keeps by (simp add: group_wf_def same_extent_def)
  moreover have "visible_to t (row_version_at ?m' r) = visible_to t (row_version_at ?m r)" for r
    using rdy unfolding cleanable_def by (intro CleanupAppend_invisible_aux [OF m(2) sn]) blast+
  then have "visible_to t (group_rows g' ! k) = visible_to t (group_rows g ! k)" if "k < ?c" for k
    using that g'(3,4) by (simp add: group_rows_nth same_extent_def)
  moreover have "no_dropped g \<Longrightarrow> no_dropped g'"
    using CleanupAppend_info [of ?m lowest s n] unfolding no_dropped_def g'(3) by (metis insertE not_dropped.simps(2) singletonD)
  ultimately have "group_rel gsize (\<lambda>b v v'. visible_to t v' = visible_to t v) lo hi g g'"
    using g'(4,5) by (simp add: group_upd_def same_extent_def)
  then show ?thesis using g' by blast
qed

interpretation cleanup: range_operation "rg_CleanupAppend lowest" "\<lambda>gsize lo hi g. cleanable t lowest g"
  "\<lambda>b v v'. visible_to t v' = visible_to t v" for lowest t
proof
  show "\<exists>g'. rg_CleanupAppend lowest s n g = Inr g' \<and> same_extent g g'
      \<and> group_rel gsize (\<lambda>b v v'. visible_to t v' = visible_to t v) lo hi g g'"
    if "group_wf gsize g" "cleanable t lowest g" "s + n \<le> sg_count g" for gsize g lo hi s n
    by (rule rg_CleanupAppend_ok [OF that])
qed (simp_all add: cleanable_def)

text \<open>
  Cleaning up an append, anywhere in the table and over any number of row groups, keeps the
  collection well-formed and never changes what an active reader sees: each row of the table is visible
  to a transaction that started at or after the lowest active start exactly when it was before.
\<close>
theorem coll_CleanupAppend_invisible:
  assumes "coll_wf c" and "row_start c \<le> start" "0 < cnt" "start + cnt \<le> row_start c + total_rows c"
    and "\<forall>g\<in>set (groups c). cleanable t lowest g"
  shows "\<exists>c'. coll_CleanupAppend lowest start cnt c = Some (Inr c') \<and> coll_wf c' \<and> total_rows c' = total_rows c
    \<and> map (visible_to t) (coll_rows c') = map (visible_to t) (coll_rows c)"
proof -
  from cleanup.on_range_ok [OF assms(1,5,2-4)] obtain c' where
    c': "on_range (rg_CleanupAppend lowest) start cnt c = Some (Inr c')" "coll_wf c'" "total_rows c' = total_rows c"
    "length (coll_rows c') = length (coll_rows c)"
    "\<forall>k < total_rows c. visible_to t (coll_rows c' ! k) = visible_to t (coll_rows c ! k)" by blast
  have "map (visible_to t) (coll_rows c') = map (visible_to t) (coll_rows c)"
    using c' length_coll_rows [OF assms(1)] by (intro nth_equalityI) auto
  then show ?thesis using c' by (simp add: coll_CleanupAppend_def)
qed

theorem coll_CleanupAppend_invisible_witness:
  "\<exists>c'. coll_CleanupAppend 5 2 3 example_rows = Some (Inr c') \<and> coll_wf c' \<and> total_rows c' = 5
    \<and> map (visible_to example_reader) (coll_rows c') = map (visible_to example_reader) (coll_rows example_rows)"
proof -
  have "cleanable example_reader 5 (unlinked example_group)"
    using example_reader_reads unfolding cleanable_def manager_unlinked
    by (simp add: example_group_manager info_at_def RowVersionManager_def row_version_at_def version_in_def
        example_vector_def vector_append_inserted ChunkVectorInfo_def example_reader_def TRANSACTION_ID_START_def nth_Cons')
  moreover have "groups example_rows = [unlinked example_group]" by (simp add: example_rows_def segments_def)
  ultimately show ?thesis using coll_CleanupAppend_invisible [OF example_rows_wf(1), of 2 3 example_reader 5] by simp
qed

end
