(* ===== verification/TableDeletes.thy ===== *)
theory TableDeletes
  imports TableRows
begin

text \<open>
  Deleting rows of a table: the ids are grouped by row group and by vector, each group is marked in the
  version information and recorded in the transaction's undo buffer.
\<close>

section \<open>Marking one vector\<close>

lemma GetVectorInfo_infos:
  assumes "GetVectorInfo m v = (m1, ci)"
  shows "v < length (vector_info m1)"
    "\<And>w. info_at (vector_info m1) w = (if w = v then Some (VECTOR_INFO ci) else info_at (vector_info m) w)"
proof -
  let ?infos = "FillVectorInfo v (vector_info m)"
  have l: "v < length ?infos" by (rule length_Fill)
  from assms have m1: "vector_info m1 = ?infos[v := Some (VECTOR_INFO ci)]"
    by (auto simp: GetVectorInfo_def Let_def)
  show "v < length (vector_info m1)" using l by (simp add: m1)
  show "info_at (vector_info m1) w = (if w = v then Some (VECTOR_INFO ci) else info_at (vector_info m) w)" for w
    unfolding m1 using info_at_upd [OF l] by simp
qed

lemma DeleteRows_not_dropped:
  assumes "DeleteRows m v tid rows k = (m', rows', r)" "not_dropped (info_at (vector_info m) w)"
  shows "not_dropped (info_at (vector_info m') w)"
proof -
  obtain m1 ci where g: "GetVectorInfo (m\<lparr>has_changes := True\<rparr>) v = (m1, ci)" by fastforce
  note i = GetVectorInfo_infos [OF g]
  obtain ci' where "m' = put_info m1 v ci'" using assms(1) by (auto simp: DeleteRows_def g split: prod.splits)
  then have "info_at (vector_info m') w = (if w = v then Some (VECTOR_INFO ci') else info_at (vector_info m) w)"
    using put_info_info_at [OF i(1), of "Some (VECTOR_INFO ci)" "m\<lparr>has_changes := True\<rparr>"] i(2) by simp
  then show ?thesis using assms(2) by simp
qed

lemma rg_DeleteRows_ok:
  assumes g: "group_wf gsize g" "no_dropped g" and tid: "tid \<noteq> NOT_DELETED_ID"
    and rows: "\<forall>r\<in>set (sel_prefix rows k). r < STANDARD_VECTOR_SIZE \<and> v * STANDARD_VECTOR_SIZE + r < sg_count g
      \<and> snd (row_version_at (loaded_manager g) (v * STANDARD_VECTOR_SIZE + r)) \<in> {tid, NOT_DELETED_ID}"
  shows "\<exists>g' rows' j. rg_DeleteRows v tid rows k g = Inr (g', rows', Inr j) \<and> group_wf gsize g' \<and> no_dropped g'
    \<and> same_extent g g' \<and> attached g'
    \<and> (\<forall>r. row_version_at (loaded_manager g') r =
         (if r \<in> (\<lambda>i. v * STANDARD_VECTOR_SIZE + i) ` set (sel_prefix rows k)
          then (fst (row_version_at (loaded_manager g) r), tid) else row_version_at (loaded_manager g) r))
    \<and> distinct (sel_prefix rows' j)
    \<and> set (sel_prefix rows' j) = {r \<in> set (sel_prefix rows k).
         snd (row_version_at (loaded_manager g) (v * STANDARD_VECTOR_SIZE + r)) = NOT_DELETED_ID}"
proof -
  let ?m = "loaded_manager g" and ?n = "sg_count g" and ?S = STANDARD_VECTOR_SIZE
  have m: "loads g" "rvm_wf ?n ?m" "?n \<le> gsize" "\<forall>r\<ge>?n. snd (row_version_at ?m r) = NOT_DELETED_ID"
    "not_dropped (info_at (vector_info ?m) v)" using g by (simp_all add: group_wf_def no_dropped_def)
  from rows have "\<forall>r\<in>set (sel_prefix rows k). r < ?S \<and> snd (row_version_at ?m (v * ?S + r)) \<in> {tid, NOT_DELETED_ID}"
    by blast
  from DeleteRows_marks_aux [OF m(2,5) tid this] obtain m' rows' j where
    d: "DeleteRows ?m v tid rows k = (m', rows', Inr j)" "rvm_wf ?n m'"
    "\<And>r. row_version_at m' r = (if r div ?S = v \<and> r mod ?S \<in> set (sel_prefix rows k)
        then (fst (row_version_at ?m r), tid) else row_version_at ?m r)"
    "distinct (sel_prefix rows' j)"
    "set (sel_prefix rows' j) = {r \<in> set (sel_prefix rows k). snd (row_version_at ?m (v * ?S + r)) = NOT_DELETED_ID}"
    by blast
  have img: "r div ?S = v \<and> r mod ?S \<in> set (sel_prefix rows k)
      \<longleftrightarrow> r \<in> (\<lambda>i. v * ?S + i) ` set (sel_prefix rows k)" for r
  proof
    assume "r div ?S = v \<and> r mod ?S \<in> set (sel_prefix rows k)"
    then show "r \<in> (\<lambda>i. v * ?S + i) ` set (sel_prefix rows k)"
      by (intro image_eqI [of _ _ "r mod ?S"]) (auto simp: div_mult_mod_eq)
  qed (use rows in auto)
  from GetOrCreateVersionInfo_ok [OF m(1)] obtain g1 where
    g1: "GetOrCreateVersionInfo g = Inr (g1, ?m)" "same_extent g g1" "\<not> HasUnloadedDeletes g1" by blast
  let ?g = "SetVersionInfo (Some m') g1"
  note set = manager_set [OF g1(3), of m']
  have ext: "same_extent g ?g" using g1(2) set(3) same_extent_trans by blast
  have "no_dropped ?g" using DeleteRows_not_dropped [OF d(1)] g(2) by (simp add: no_dropped_def set)
  moreover have "snd (row_version_at m' r) = NOT_DELETED_ID" if "?n \<le> r" for r
    using that m(4) rows unfolding d(3) img by auto
  then have "group_wf gsize ?g" using d(2) m(3) ext by (simp add: group_wf_def set same_extent_def)
  moreover have "rg_DeleteRows v tid rows k g = Inr (?g, rows', Inr j)"
    by (simp add: rg_DeleteRows_def g1(1) d(1))
  ultimately show ?thesis using ext d(3,4,5) unfolding img by (intro exI [of _ ?g] exI [of _ rows'] exI [of _ j]) (simp add: set)
qed

section \<open>Marking the rows of a row group\<close>

text \<open>The rows an undo entry names.\<close>

definition undo_rows :: "delete_undo \<Rightarrow> nat list" where
  "undo_rows u = map ((+) (du_base_row u)) (delete_rows (du_info u))"

definition undone_rows :: "delete_undo list \<Rightarrow> nat list" where
  "undone_rows us = concat (map undo_rows us)"

lemma undone_rows_simps [simp]: "undone_rows [] = []" "undone_rows (us @ us') = undone_rows us @ undone_rows us'"
  "undone_rows [u] = undo_rows u"
  by (simp_all add: undone_rows_def)

text \<open>An entry of a row group that starts at \<open>st\<close> and has \<open>cnt\<close> rows, the group \<open>k\<close> of the table.\<close>

definition located :: "nat \<Rightarrow> nat \<times> nat \<Rightarrow> delete_undo \<Rightarrow> bool" where
  "located k e u \<longleftrightarrow> du_version_info u = k \<and> du_base_row u = fst e + di_vector_idx (du_info u) * STANDARD_VECTOR_SIZE
     \<and> (\<forall>i\<in>set (delete_rows (du_info u)). i < STANDARD_VECTOR_SIZE
          \<and> di_vector_idx (du_info u) * STANDARD_VECTOR_SIZE + i < snd e)"

definition undo_located :: "(nat \<times> nat) list \<Rightarrow> delete_undo \<Rightarrow> bool" where
  "undo_located es u \<longleftrightarrow> du_version_info u < length es \<and> located (du_version_info u) (es ! du_version_info u) u"

lemma PushDelete_info: "delete_rows (du_info (PushDelete k v rows n base)) = sel_prefix rows n"
proof (cases "list_all (\<lambda>i. rows i = i) [0..<n]")
  case True
  then have "map rows [0..<n] = map (\<lambda>i. i) [0..<n]" unfolding map_eq_conv by (auto simp: list_all_iff)
  then show ?thesis using True by (simp add: PushDelete_def delete_rows_def sel_prefix_def)
next
  case False
  then show ?thesis by (simp add: PushDelete_def delete_rows_def sel_prefix_def)
qed

lemma PushDelete_rows: "undo_rows (PushDelete k v rows n base) = map ((+) base) (sel_prefix rows n)"
  by (simp add: undo_rows_def PushDelete_info) (simp add: PushDelete_def Let_def)

text \<open>The rows buffered for the current vector, as offsets in the row group.\<close>

definition pending :: "delete_state \<Rightarrow> nat set" where
  "pending s = (case current_chunk s of None \<Rightarrow> {}
     | Some v \<Rightarrow> (\<lambda>i. v * STANDARD_VECTOR_SIZE + i) ` set (sel_prefix (ds_rows s) (ds_count s)))"

abbreviation version :: "row_group \<Rightarrow> nat \<Rightarrow> row_version" where
  "version g \<equiv> row_version_at (loaded_manager g)"

text \<open>
  The invariant of \<open>VersionDeleteState\<close>: of the rows \<open>D\<close> seen so far, those already flushed are marked and
  recorded, the others are buffered.
\<close>

definition flushed :: "transaction_t \<Rightarrow> row_group \<Rightarrow> nat set \<Rightarrow> delete_state \<Rightarrow> bool" where
  "flushed tid g0 F s \<longleftrightarrow> (\<forall>r. version (ds_group s) r = (if r \<in> F then (fst (version g0 r), tid) else version g0 r))
     \<and> distinct (undone_rows (ds_undo s))
     \<and> set (undone_rows (ds_undo s)) = (+) (sg_start g0) ` {r \<in> F. snd (version g0 r) = NOT_DELETED_ID}
     \<and> delete_count s = length (undone_rows (ds_undo s))
     \<and> (\<forall>u\<in>set (ds_undo s). located (ds_info s) (sg_start g0, sg_count g0) u)"

definition delete_inv :: "nat \<Rightarrow> nat \<Rightarrow> transaction_t \<Rightarrow> row_group \<Rightarrow> nat set \<Rightarrow> delete_state \<Rightarrow> bool" where
  "delete_inv gsize k tid g0 D s \<longleftrightarrow> group_wf gsize (ds_group s) \<and> no_dropped (ds_group s) \<and> same_extent g0 (ds_group s)
     \<and> (attached g0 \<longrightarrow> attached (ds_group s)) \<and> ds_info s = k \<and> (current_chunk s = None \<longrightarrow> ds_count s = 0)
     \<and> (\<forall>v. current_chunk s = Some v \<longrightarrow> chunk_row s = v * STANDARD_VECTOR_SIZE)
     \<and> (\<forall>i\<in>set (sel_prefix (ds_rows s) (ds_count s)). i < STANDARD_VECTOR_SIZE)
     \<and> D \<subseteq> {..<sg_count g0} \<and> (\<exists>F. D = F \<union> pending s \<and> flushed tid g0 F s)"

definition deletable :: "transaction_t \<Rightarrow> row_group \<Rightarrow> nat set \<Rightarrow> bool" where
  "deletable tid g D \<longleftrightarrow> (\<forall>r\<in>D. snd (version g r) \<in> {tid, NOT_DELETED_ID})"

lemma delete_Flush_ok:
  assumes inv: "delete_inv gsize k tid g0 D s" and tid: "tid \<noteq> NOT_DELETED_ID" and ok: "deletable tid g0 D"
  shows "\<exists>s'. delete_Flush True (sg_start g0) tid s = Inr s' \<and> delete_inv gsize k tid g0 D s' \<and> ds_count s' = 0"
proof (cases "ds_count s = 0")
  case True
  then show ?thesis using inv by (simp add: delete_Flush_def)
next
  case False
  let ?S = STANDARD_VECTOR_SIZE and ?g = "ds_group s" and ?P = "set (sel_prefix (ds_rows s) (ds_count s))"
  from inv obtain F where F: "D = F \<union> pending s" "flushed tid g0 F s" by (auto simp: delete_inv_def)
  obtain v where v: "current_chunk s = Some v" "chunk_row s = v * ?S" "pending s = (\<lambda>i. v * ?S + i) ` ?P"
    using inv False by (cases "current_chunk s") (auto simp: delete_inv_def pending_def)
  have g: "group_wf gsize ?g" "no_dropped ?g" "same_extent g0 ?g" "\<forall>i\<in>?P. i < ?S" "D \<subseteq> {..<sg_count g0}"
    using inv by (simp_all add: delete_inv_def)
  have V: "version ?g r = (if r \<in> F then (fst (version g0 r), tid) else version g0 r)" for r
    using F(2) by (simp add: flushed_def)
  have rows: "\<forall>r\<in>?P. r < ?S \<and> v * ?S + r < sg_count ?g \<and> snd (version ?g (v * ?S + r)) \<in> {tid, NOT_DELETED_ID}"
  proof
    fix r assume r: "r \<in> ?P"
    then have "v * ?S + r \<in> D" using F(1) v(3) by simp
    then show "r < ?S \<and> v * ?S + r < sg_count ?g \<and> snd (version ?g (v * ?S + r)) \<in> {tid, NOT_DELETED_ID}"
      using g r ok by (auto simp: V deletable_def same_extent_def)
  qed
  from rg_DeleteRows_ok [OF g(1,2) tid rows] obtain g' rows' j where
    d: "rg_DeleteRows v tid (ds_rows s) (ds_count s) ?g = Inr (g', rows', Inr j)" "group_wf gsize g'" "no_dropped g'"
    "same_extent ?g g'" "attached g'"
    "\<And>r. version g' r = (if r \<in> pending s then (fst (version ?g r), tid) else version ?g r)"
    "distinct (sel_prefix rows' j)"
    "set (sel_prefix rows' j) = {r \<in> ?P. snd (version ?g (v * ?S + r)) = NOT_DELETED_ID}"
    unfolding v(3) by blast
  let ?base = "sg_start g0 + v * ?S"
  define undo where "undo = (if j > 0 then ds_undo s @ [PushDelete (ds_info s) v rows' j ?base] else ds_undo s)"
  let ?s = "s\<lparr>ds_group := g', ds_rows := rows', delete_count := delete_count s + j, ds_undo := undo, ds_count := 0\<rparr>"
  have fl: "delete_Flush True (sg_start g0) tid s = Inr ?s"
    using False v(1,2) d(1) by (simp add: delete_Flush_def undo_def)
  have undone: "undone_rows undo = undone_rows (ds_undo s) @ map ((+) ?base) (sel_prefix rows' j)"
    by (cases "j = 0") (simp_all add: undo_def PushDelete_rows sel_prefix_def)
  have new: "(+) ?base ` set (sel_prefix rows' j)
      = (+) (sg_start g0) ` {r \<in> pending s - F. snd (version g0 r) = NOT_DELETED_ID}"
    unfolding d(8) v(3) image_image [symmetric] using tid by (auto simp: V image_iff add.assoc split: if_splits)
  have old: "set (undone_rows (ds_undo s)) = (+) (sg_start g0) ` {r \<in> F. snd (version g0 r) = NOT_DELETED_ID}"
    "distinct (undone_rows (ds_undo s))" "delete_count s = length (undone_rows (ds_undo s))"
    "\<forall>u\<in>set (ds_undo s). located (ds_info s) (sg_start g0, sg_count g0) u"
    using F(2) by (simp_all add: flushed_def)
  have "flushed tid g0 D ?s"
    unfolding flushed_def
  proof (intro conjI)
    show "\<forall>r. version (ds_group ?s) r = (if r \<in> D then (fst (version g0 r), tid) else version g0 r)"
      by (auto simp: d(6) V F(1))
    have "distinct (map ((+) ?base) (sel_prefix rows' j))" using d(7) by (simp add: distinct_map)
    moreover have "set (undone_rows (ds_undo s)) \<inter> (+) ?base ` set (sel_prefix rows' j) = {}"
      unfolding old(1) new by auto
    ultimately show "distinct (undone_rows (ds_undo ?s))" using old(2) by (simp add: undone)
    show "set (undone_rows (ds_undo ?s)) = (+) (sg_start g0) ` {r \<in> D. snd (version g0 r) = NOT_DELETED_ID}"
      unfolding F(1) by (auto simp: undone old(1) new)
    show "delete_count ?s = length (undone_rows (ds_undo ?s))" by (simp add: undone old(3) sel_prefix_def)
    have "located (ds_info s) (sg_start g0, sg_count g0) (PushDelete (ds_info s) v rows' j ?base)"
      unfolding located_def PushDelete_info
      using d(8) rows g(3) by (simp add: PushDelete_def Let_def same_extent_def)
    then show "\<forall>u\<in>set (ds_undo ?s). located (ds_info ?s) (sg_start g0, sg_count g0) u"
      using old(4) by (simp add: undo_def)
  qed
  moreover have "pending ?s = {}" by (simp add: pending_def sel_prefix_def v(1))
  ultimately have "delete_inv gsize k tid g0 D ?s"
    using d(2-5) g(3,5) v(1,2) inv same_extent_trans by (auto simp: delete_inv_def sel_prefix_def)
  then show ?thesis using fl by simp
qed

lemma sel_prefix_upd: "sel_prefix (f(n := x)) (Suc n) = sel_prefix f n @ [x]"
  by (simp add: sel_prefix_def)

lemma delete_Delete_ok:
  assumes inv: "delete_inv gsize k tid g0 D s" and tid: "tid \<noteq> NOT_DELETED_ID" and ok: "deletable tid g0 D"
    and r: "r < sg_count g0"
  shows "\<exists>s'. delete_Delete True (sg_start g0) tid r s = Inr s' \<and> delete_inv gsize k tid g0 (insert r D) s'"
proof -
  let ?S = STANDARD_VECTOR_SIZE
  let ?v = "r div ?S"
  have mod: "r - ?v * ?S = r mod ?S" by (rule minus_div_mult_eq_mod)
  have "\<exists>s1. (if current_chunk s \<noteq> Some ?v
        then case delete_Flush True (sg_start g0) tid s of Inl e \<Rightarrow> Inl e
             | Inr s' \<Rightarrow> Inr (s'\<lparr>current_chunk := Some ?v, chunk_row := ?v * ?S\<rparr>)
        else Inr s) = Inr s1 \<and> delete_inv gsize k tid g0 D s1 \<and> current_chunk s1 = Some ?v"
  proof (cases "current_chunk s = Some ?v")
    case False
    from delete_Flush_ok [OF inv tid ok] obtain s' where
      s': "delete_Flush True (sg_start g0) tid s = Inr s'" "delete_inv gsize k tid g0 D s'" "ds_count s' = 0" by blast
    have "pending s' = {}" "pending (s'\<lparr>current_chunk := Some ?v, chunk_row := ?v * ?S\<rparr>) = {}"
      using s'(3) by (auto simp: pending_def sel_prefix_def split: option.split)
    then have "delete_inv gsize k tid g0 D (s'\<lparr>current_chunk := Some ?v, chunk_row := ?v * ?S\<rparr>)"
      using s'(2,3) by (auto simp: delete_inv_def flushed_def)
    then show ?thesis using False s'(1) by simp
  qed (use inv in simp)
  then obtain s1 where s1: "(if current_chunk s \<noteq> Some ?v
        then case delete_Flush True (sg_start g0) tid s of Inl e \<Rightarrow> Inl e
             | Inr s' \<Rightarrow> Inr (s'\<lparr>current_chunk := Some ?v, chunk_row := ?v * ?S\<rparr>)
        else Inr s) = Inr s1" "delete_inv gsize k tid g0 D s1" "current_chunk s1 = Some ?v" by blast
  let ?s = "s1\<lparr>ds_rows := (ds_rows s1)(ds_count s1 := r mod ?S), ds_count := Suc (ds_count s1)\<rparr>"
  have del: "delete_Delete True (sg_start g0) tid r s = Inr ?s"
    using s1(1) by (auto simp: delete_Delete_def Let_def mod split: if_splits sum.splits)
  have pend: "pending ?s = insert r (pending s1)"
    using s1(3) by (simp add: pending_def sel_prefix_upd)
  from s1(2) obtain F where F: "D = F \<union> pending s1" "flushed tid g0 F s1" by (auto simp: delete_inv_def)
  have "flushed tid g0 F ?s" using F(2) by (simp add: flushed_def)
  moreover have "insert r D = F \<union> pending ?s" unfolding pend F(1) by simp
  ultimately have ex: "\<exists>F. insert r D = F \<union> pending ?s \<and> flushed tid g0 F ?s" by blast
  have parts: "group_wf gsize (ds_group s1)" "no_dropped (ds_group s1)" "same_extent g0 (ds_group s1)"
    "attached g0 \<longrightarrow> attached (ds_group s1)" "ds_info s1 = k" "chunk_row s1 = ?v * ?S" "\<forall>i\<in>set (sel_prefix (ds_rows s1) (ds_count s1)). i < ?S" "D \<subseteq> {..<sg_count g0}"
    using s1(2,3) unfolding delete_inv_def by blast+
  have "delete_inv gsize k tid g0 (insert r D) ?s"
    unfolding delete_inv_def using parts s1(3) r row_pos [of r] by (intro conjI ex) (simp_all add: sel_prefix_upd)
  with del show ?thesis by blast
qed

lemma delete_rows_loop_ok:
  assumes "delete_inv gsize k tid g0 D s" "tid \<noteq> NOT_DELETED_ID"
    and "deletable tid g0 (D \<union> (\<lambda>i. i - sg_start g0) ` set ids)"
    and "\<forall>i\<in>set ids. i - sg_start g0 < sg_count g0"
  shows "\<exists>s'. delete_rows_loop True (sg_start g0) tid ids s = Inr s'
    \<and> delete_inv gsize k tid g0 (D \<union> (\<lambda>i. i - sg_start g0) ` set ids) s' \<and> ds_count s' = 0"
  using assms
proof (induction ids arbitrary: D s)
  case Nil
  then show ?case using delete_Flush_ok by simp
next
  case (Cons i ids)
  let ?r = "i - sg_start g0"
  have "deletable tid g0 D" using Cons.prems(3) by (simp add: deletable_def)
  from delete_Delete_ok [OF Cons.prems(1,2) this, of ?r] Cons.prems(4) obtain s' where
    s': "delete_Delete True (sg_start g0) tid ?r s = Inr s'" "delete_inv gsize k tid g0 (insert ?r D) s'" by auto
  have "\<exists>s''. delete_rows_loop True (sg_start g0) tid ids s' = Inr s''
    \<and> delete_inv gsize k tid g0 (insert ?r D \<union> (\<lambda>i. i - sg_start g0) ` set ids) s'' \<and> ds_count s'' = 0"
    using Cons.prems by (intro Cons.IH [OF s'(2)]) auto
  then show ?case using s'(1) by simp
qed

lemma rg_Delete_ok:
  assumes g: "group_wf gsize g" "no_dropped g" and tid: "tid \<noteq> NOT_DELETED_ID"
    and ids: "\<forall>i\<in>set ids. holds_row g i \<and> snd (group_rows g ! (i - sg_start g)) \<in> {tid, NOT_DELETED_ID}"
  shows "\<exists>s. rg_Delete True tid ids k g = Inr s \<and> group_wf gsize (ds_group s) \<and> no_dropped (ds_group s)
    \<and> same_extent g (ds_group s) \<and> (attached g \<longrightarrow> attached (ds_group s))
    \<and> (\<forall>u\<in>set (ds_undo s). located k (sg_start g, sg_count g) u)
    \<and> (\<forall>j < sg_count g. group_rows (ds_group s) ! j =
         (if sg_start g + j \<in> set ids then (fst (group_rows g ! j), tid) else group_rows g ! j))
    \<and> distinct (undone_rows (ds_undo s)) \<and> delete_count s = length (undone_rows (ds_undo s))
    \<and> set (undone_rows (ds_undo s)) = {i \<in> set ids. snd (group_rows g ! (i - sg_start g)) = NOT_DELETED_ID}"
proof -
  let ?D = "(\<lambda>i. i - sg_start g) ` set ids"
  have "delete_inv gsize k tid g {} (VersionDeleteState k g)"
    using g by (simp add: delete_inv_def VersionDeleteState_def pending_def flushed_def same_extent_def sel_prefix_def)
  moreover have "deletable tid g ({} \<union> ?D)" using ids by (auto simp: deletable_def holds_row_def group_rows_nth)
  moreover have "\<forall>i\<in>set ids. i - sg_start g < sg_count g" using ids by (auto simp: holds_row_def)
  ultimately obtain s where s: "delete_rows_loop True (sg_start g) tid ids (VersionDeleteState k g) = Inr s"
    "delete_inv gsize k tid g ?D s" "ds_count s = 0"
    using delete_rows_loop_ok [of gsize k tid g "{}" "VersionDeleteState k g" ids] tid by auto
  have "pending s = {}" using s(3) by (auto simp: pending_def sel_prefix_def split: option.split)
  then have f: "flushed tid g ?D s" and inv: "group_wf gsize (ds_group s)" "no_dropped (ds_group s)" "same_extent g (ds_group s)"
    "attached g \<longrightarrow> attached (ds_group s)" "ds_info s = k"
    using s(2) by (auto simp: delete_inv_def)
  have mem: "j \<in> ?D \<longleftrightarrow> sg_start g + j \<in> set ids" for j
    using ids by (auto simp: image_iff holds_row_def) (metis add_diff_cancel_left')
  have "group_rows (ds_group s) ! j = (if sg_start g + j \<in> set ids then (fst (group_rows g ! j), tid) else group_rows g ! j)"
    if "j < sg_count g" for j
    using that f inv(3) unfolding flushed_def mem by (simp add: group_rows_nth same_extent_def)
  moreover have "set (undone_rows (ds_undo s)) = {i \<in> set ids. snd (group_rows g ! (i - sg_start g)) = NOT_DELETED_ID}"
  proof -
    have "set (undone_rows (ds_undo s)) = (+) (sg_start g) ` {r. sg_start g + r \<in> set ids \<and> snd (version g r) = NOT_DELETED_ID}"
      using f by (simp add: flushed_def mem)
    also have "\<dots> = {i \<in> set ids. snd (version g (i - sg_start g)) = NOT_DELETED_ID}"
      using ids by (force simp: holds_row_def image_iff)
    finally show ?thesis using ids by (auto simp: group_rows_nth holds_row_def)
  qed
  ultimately show ?thesis using s(1) inv f by (intro exI [of _ s]) (simp add: rg_Delete_def flushed_def)
qed

section \<open>Deleting rows of the table\<close>

lemma in_group_holds: "in_group g i \<longleftrightarrow> holds_row g i"
  by (auto simp: in_group_def holds_row_def)

lemma coll_row_nth:
  assumes "coll_wf c" "g \<in> set (groups c)" "holds_row g i"
  shows "group_rows g ! (i - sg_start g) = coll_rows c ! (i - row_start c)"
proof -
  have c: "contiguous (row_start c) (groups c)" using assms(1) by (simp add: coll_wf_def tree_wf_def)
  have less: "i - sg_start g < sg_count g" using assms(3) by (auto simp: holds_row_def)
  have "group_rows g ! (i - sg_start g) = coll_rows c ! (sg_start g + (i - sg_start g) - row_start c)"
    using less rows_in_groups [OF c, of "\<lambda>r v. v = coll_rows c ! (r - row_start c)" g "i - sg_start g"] assms(2)
    by (simp add: coll_rows_def)
  moreover have "sg_start g + (i - sg_start g) = i" using assms(3) by (simp add: holds_row_def)
  ultimately show ?thesis by simp
qed

lemma delete_run_ok:
  assumes wf: "coll_wf c" and nd: "\<forall>g\<in>set (groups c). no_dropped g" and tid: "tid \<noteq> NOT_DELETED_ID"
    and t: "tree_wf (row_start c) t" "segments t = groups c" "k < length (nodes t)"
    and ids: "\<forall>i\<in>set ids. holds_row (groups c ! k) i \<and> snd (coll_rows c ! (i - row_start c)) \<in> {tid, NOT_DELETED_ID}"
  shows "\<exists>s. rg_Delete True tid ids k (snd (nodes t ! k)) = Inr s
    \<and> coll_wf (c\<lparr>row_groups := put_group k (ds_group s) t\<rparr>)
    \<and> (\<forall>g\<in>set (groups (c\<lparr>row_groups := put_group k (ds_group s) t\<rparr>)). no_dropped g)
    \<and> extents (c\<lparr>row_groups := put_group k (ds_group s) t\<rparr>) = extents c
    \<and> (\<forall>u\<in>set (ds_undo s). undo_located (extents c) u)
    \<and> coll_rows (c\<lparr>row_groups := put_group k (ds_group s) t\<rparr>) =
        map (\<lambda>j. if row_start c + j \<in> set ids then (fst (coll_rows c ! j), tid) else coll_rows c ! j) [0..<total_rows c]
    \<and> distinct (undone_rows (ds_undo s)) \<and> delete_count s = length (undone_rows (ds_undo s))
    \<and> set (undone_rows (ds_undo s)) = {i \<in> set ids. snd (coll_rows c ! (i - row_start c)) = NOT_DELETED_ID}"
proof -
  let ?b = "row_start c" and ?G = "row_group_size c"
  define g where "g = snd (nodes t ! k)"
  have k: "k < length (groups c)" using t(2,3) length_segments [of t] by simp
  have gk: "groups c ! k = unlinked g" using segments_nth [OF t(3)] by (simp add: t(2) g_def)
  have mem: "unlinked g \<in> set (groups c)" using nth_mem [OF k] by (simp add: gk)
  have c: "contiguous ?b (groups c)" "\<forall>g\<in>set (groups c). group_wf ?G g" "valid_size ?G"
    "?b + total_rows c = rows_end ?b (groups c)" using wf by (simp_all add: coll_wf_def tree_wf_def)
  have g: "group_wf ?G g" "no_dropped g"
    using c(2) nd mem by (metis group_unlinked(2), metis infos_unlinked(1))
  have row: "group_rows g ! (i - sg_start g) = coll_rows c ! (i - ?b)" if "i \<in> set ids" for i
    using coll_row_nth [OF wf mem, of i] ids that gk by simp
  have "\<forall>i\<in>set ids. holds_row g i \<and> snd (group_rows g ! (i - sg_start g)) \<in> {tid, NOT_DELETED_ID}"
    using ids row gk by simp
  from rg_Delete_ok [OF g tid this] obtain s where
    s: "rg_Delete True tid ids k g = Inr s" "group_wf ?G (ds_group s)" "no_dropped (ds_group s)" "same_extent g (ds_group s)"
    "attached g \<longrightarrow> attached (ds_group s)" "\<forall>u\<in>set (ds_undo s). located k (sg_start g, sg_count g) u"
    "\<And>j. j < sg_count g \<Longrightarrow> group_rows (ds_group s) ! j =
         (if sg_start g + j \<in> set ids then (fst (group_rows g ! j), tid) else group_rows g ! j)"
    "distinct (undone_rows (ds_undo s))" "delete_count s = length (undone_rows (ds_undo s))"
    "set (undone_rows (ds_undo s)) = {i \<in> set ids. snd (group_rows g ! (i - sg_start g)) = NOT_DELETED_ID}" by blast
  let ?g' = "unlinked (ds_group s)"
  let ?t = "put_group k (ds_group s) t"
  let ?Q = "\<lambda>r v v'. v' = (if r \<in> set ids then (fst v, tid) else v)"
  have segs: "segments ?t = (groups c)[k := ?g']" using put_segments(1) [OF t(3)] t(2) by simp
  have twf: "tree_wf ?b ?t" using put_wf [OF t(1,3)] s(4) by (simp add: g_def)
  have "group_upd ?G ?Q (groups c ! j) (segments ?t ! j)" if j: "j < length (groups c)" for j
  proof (cases "j = k")
    case True
    then show ?thesis using s(2-7) k by (simp add: segs gk group_upd_def same_extent_def)
  next
    case False
    have "sg_start (groups c ! j) + m \<notin> set ids" if "m < sg_count (groups c ! j)" for m
    proof
      assume "sg_start (groups c ! j) + m \<in> set ids"
      then have "holds_row (groups c ! k) (sg_start (groups c ! j) + m)" using ids by blast
      moreover have "holds_row (groups c ! j) (sg_start (groups c ! j) + m)" using that by (simp add: holds_row_def)
      ultimately show False using holds_row_unique [OF c(1) k j] False by blast
    qed
    moreover have "group_wf ?G (groups c ! j)" using c(2) nth_mem [OF j] by blast
    ultimately show ?thesis using False j by (simp add: segs group_upd_def)
  qed
  then have "list_all2 (group_upd ?G ?Q) (groups c) (segments ?t)" by (simp add: list_all2_conv_all_nth segs)
  note rows = group_upd_rows [OF this c(1)]
  let ?c = "c\<lparr>row_groups := ?t\<rparr>"
  have ext: "extents ?c = extents c"
    using s(4) k by (simp add: extents_def segs gk map_update same_extent_def list_update_same_conv)
  have loc: "\<forall>u\<in>set (ds_undo s). undo_located (extents c) u"
    using s(6) k by (auto simp: undo_located_def extents_def gk) (auto simp: located_def gk)
  have cwf: "coll_wf ?c"
    using rows twf c(3,4) rows_end_length [of ?b "segments ?t"] rows_end_length [of ?b "groups c"] by (simp add: coll_wf_def)
  have "coll_rows ?c = map (\<lambda>j. if ?b + j \<in> set ids then (fst (coll_rows c ! j), tid) else coll_rows c ! j) [0..<total_rows c]"
    using rows length_coll_rows [OF wf] length_coll_rows [OF cwf]
    by (intro nth_equalityI) (simp_all add: coll_rows_def)
  moreover have "\<forall>h\<in>set (groups ?c). no_dropped h"
    using nd s(3) set_update_subset_insert [of "groups c" k ?g'] by (auto simp: segs)
  moreover have "set (undone_rows (ds_undo s)) = {i \<in> set ids. snd (coll_rows c ! (i - ?b)) = NOT_DELETED_ID}"
    using s(10) row by auto
  ultimately show ?thesis using s(1,8,9) cwf ext loc unfolding g_def by blast
qed

lemma coll_Delete_ok:
  assumes "coll_wf c" "\<forall>g\<in>set (groups c). no_dropped g" "tid \<noteq> NOT_DELETED_ID"
    and "\<forall>i\<in>set ids. row_start c \<le> i \<and> i < row_start c + total_rows c
      \<and> snd (coll_rows c ! (i - row_start c)) \<in> {tid, NOT_DELETED_ID}"
  shows "\<exists>c' undo. coll_Delete True tid ids c = (c', undo, Inr (length (undone_rows undo))) \<and> coll_wf c'
    \<and> row_start c' = row_start c \<and> total_rows c' = total_rows c
    \<and> extents c' = extents c \<and> (\<forall>u\<in>set undo. undo_located (extents c) u)
    \<and> coll_rows c' = map (\<lambda>j. if row_start c + j \<in> set ids then (fst (coll_rows c ! j), tid) else coll_rows c ! j)
        [0..<total_rows c]
    \<and> distinct (undone_rows undo)
    \<and> set (undone_rows undo) = {i \<in> set ids. snd (coll_rows c ! (i - row_start c)) = NOT_DELETED_ID}"
  using assms
proof (induction "length ids" arbitrary: ids c rule: less_induct)
  case less
  note wf = less.prems(1)
  let ?b = "row_start c" and ?n = "total_rows c"
  show ?case
  proof (cases ids)
    case Nil
    then show ?thesis using wf length_coll_rows [OF wf] map_nth [of "coll_rows c"] by simp
  next
    case (Cons i js)
    have c: "tree_wf ?b (row_groups c)" "?b + ?n = rows_end ?b (groups c)" using wf by (simp_all add: coll_wf_def)
    have i: "?b \<le> i" "i < rows_end ?b (groups c)" using less.prems(4) c(2) by (auto simp: Cons)
    from GetSegment_ok [OF c(1) i] obtain t k where
      t: "GetSegment i (row_groups c) = (t, Some k)" "tree_wf ?b t" "segments t = groups c" "k < length (nodes t)"
      "holds_row (groups c ! k) i" by blast
    define g where "g = snd (nodes t ! k)"
    have gk: "groups c ! k = unlinked g" using segments_nth [OF t(4)] by (simp add: t(3) g_def)
    define run where "run = takeWhile (in_group g) js"
    define rest where "rest = dropWhile (in_group g) js"
    have ids: "set ids = set (i # run) \<union> set rest"
      using takeWhile_dropWhile_id [of "in_group g" js] by (metis Cons list.set(2) set_append run_def rest_def Un_insert_left)
    have "holds_row (groups c ! k) j" if "j \<in> set (i # run)" for j
      using that t(5) set_takeWhileD [of j "in_group g" js] by (auto simp: run_def gk in_group_holds)
    then have hold: "\<forall>j\<in>set (i # run). holds_row (groups c ! k) j \<and> snd (coll_rows c ! (j - ?b)) \<in> {tid, NOT_DELETED_ID}"
      using less.prems(4) ids by blast
    from delete_run_ok [OF wf less.prems(2,3) t(2-4) hold] obtain s where
      s: "rg_Delete True tid (i # run) k g = Inr s" "coll_wf (c\<lparr>row_groups := put_group k (ds_group s) t\<rparr>)"
      "\<forall>g\<in>set (groups (c\<lparr>row_groups := put_group k (ds_group s) t\<rparr>)). no_dropped g"
      "extents (c\<lparr>row_groups := put_group k (ds_group s) t\<rparr>) = extents c"
      "\<forall>u\<in>set (ds_undo s). undo_located (extents c) u"
      "coll_rows (c\<lparr>row_groups := put_group k (ds_group s) t\<rparr>) =
        map (\<lambda>j. if ?b + j \<in> set (i # run) then (fst (coll_rows c ! j), tid) else coll_rows c ! j) [0..<?n]"
      "distinct (undone_rows (ds_undo s))" "delete_count s = length (undone_rows (ds_undo s))"
      "set (undone_rows (ds_undo s)) = {j \<in> set (i # run). snd (coll_rows c ! (j - ?b)) = NOT_DELETED_ID}"
      unfolding g_def by blast
    define c1 where "c1 = c\<lparr>row_groups := put_group k (ds_group s) t\<rparr>"
    have c1: "coll_wf c1" "\<forall>g\<in>set (groups c1). no_dropped g" "row_start c1 = ?b" "total_rows c1 = ?n"
      "extents c1 = extents c"
      using s(2-4) unfolding c1_def [symmetric] by (simp_all add: c1_def)
    have row1: "coll_rows c1 ! j = (if ?b + j \<in> set (i # run) then (fst (coll_rows c ! j), tid) else coll_rows c ! j)"
      if "j < ?n" for j using that s(6) unfolding c1_def by simp
    have at: "coll_rows c1 ! (j - ?b) = (if j \<in> set (i # run) then (fst (coll_rows c ! (j - ?b)), tid) else coll_rows c ! (j - ?b))"
      if "j \<in> set ids" for j
    proof -
      have "?b \<le> j" "j < ?b + ?n" using less.prems(4) that by blast+
      then show ?thesis using row1 [of "j - ?b"] by simp
    qed
    have "length rest < length ids" unfolding rest_def Cons by (simp add: length_dropWhile_le le_imp_less_Suc)
    moreover have "\<forall>j\<in>set rest. ?b \<le> j \<and> j < ?b + ?n \<and> snd (coll_rows c1 ! (j - ?b)) \<in> {tid, NOT_DELETED_ID}"
      using less.prems(4) ids at by auto
    ultimately obtain c' undo where
      c': "coll_Delete True tid rest c1 = (c', undo, Inr (length (undone_rows undo)))" "coll_wf c'"
      "row_start c' = ?b" "total_rows c' = ?n" "extents c' = extents c" "\<forall>u\<in>set undo. undo_located (extents c) u"
      "coll_rows c' = map (\<lambda>j. if ?b + j \<in> set rest then (fst (coll_rows c1 ! j), tid) else coll_rows c1 ! j) [0..<?n]"
      "distinct (undone_rows undo)"
      "set (undone_rows undo) = {j \<in> set rest. snd (coll_rows c1 ! (j - ?b)) = NOT_DELETED_ID}"
      using less.hyps [of rest c1, unfolded c1(3-5)] c1(1,2) less.prems(3) by blast
    let ?undo = "ds_undo s @ undo"
    have del: "coll_Delete True tid ids c = (c', ?undo, Inr (length (undone_rows ?undo)))"
    proof (cases "rest = []")
      case True
      then have "c' = c1" "undo = []" using c'(1) by simp_all
      then show ?thesis
        using t(1) s(1,8) True unfolding Cons g_def run_def rest_def c1_def by (simp add: Let_def)
    next
      case False
      then show ?thesis
        using t(1) s(1,8) c'(1) unfolding Cons g_def run_def rest_def c1_def by (auto simp: Let_def)
    qed
    have rows: "coll_rows c' = map (\<lambda>j. if ?b + j \<in> set ids then (fst (coll_rows c ! j), tid) else coll_rows c ! j) [0..<?n]"
      unfolding c'(7) ids by (auto simp: row1)
    have newrest: "set (undone_rows undo) = {j \<in> set rest - set (i # run). snd (coll_rows c ! (j - ?b)) = NOT_DELETED_ID}"
    proof -
      have "snd (coll_rows c1 ! (j - ?b)) = NOT_DELETED_ID
          \<longleftrightarrow> j \<notin> set (i # run) \<and> snd (coll_rows c ! (j - ?b)) = NOT_DELETED_ID" if "j \<in> set rest" for j
      proof -
        have "j \<in> set ids" using that ids by blast
        then show ?thesis using less.prems(3) at [of j] by simp
      qed
      then show ?thesis unfolding c'(9) by blast
    qed
    have "set (undone_rows (ds_undo s)) \<inter> set (undone_rows undo) = {}" unfolding s(9) newrest by blast
    then have "distinct (undone_rows ?undo)" using s(7) c'(8) by simp
    moreover have "set (undone_rows ?undo) = {j \<in> set ids. snd (coll_rows c ! (j - ?b)) = NOT_DELETED_ID}"
      unfolding ids using s(9) newrest by auto
    ultimately show ?thesis using del c'(2-6) s(5) rows by auto
  qed
qed



end
