(* ===== verification/UndoBuffer.thy ===== *)
theory UndoBuffer
  imports Prelude
begin

text \<open>
  The undo buffer of a transaction, \<open>transaction/undo_buffer.cpp\<close> and \<open>undo_buffer_allocator.cpp\<close>: a chain of
  memory blocks to which entries are appended, and the loops over them that commit, revert, roll back and
  clean up a transaction.  An entry is its payload and the length written before it; byte positions are
  kept because a failed commit is reverted up to a position.
\<close>

section \<open>State\<close>

definition UNDO_ENTRY_HEADER_SIZE :: nat where
  "UNDO_ENTRY_HEADER_SIZE = 8"

text \<open>A block with the entries written to it, in order; the allocator's blocks, the newest (\<open>head\<close>) first.\<close>

record 'e undo_block =
  blk_position :: nat
  blk_capacity :: nat
  blk_entries :: "(nat \<times> 'e) list"

type_synonym 'e undo_allocator = "'e undo_block list"

text \<open>\<open>it_current\<close> is the index of the block counted from the tail, null when all blocks are done.\<close>

record iterator_state =
  it_current :: "nat option"
  it_start :: nat

section \<open>Allocation\<close>

text \<open>\<open>v |= v >> n\<close>.\<close>

definition or_shifted :: "nat \<Rightarrow> u64 \<Rightarrow> u64" where
  "or_shifted n v = or v (drop_bit n v)"

definition NextPowerOfTwo :: "u64 \<Rightarrow> u64 option" where
  "NextPowerOfTwo v =
     (if v < 1 then Some 2
      else let v' = or_shifted 32 (or_shifted 16 (or_shifted 8 (or_shifted 4 (or_shifted 2 (or_shifted 1 (v - 1)))))) + 1
           in if v' = 0 then None else Some v')"

definition AlignValue :: "nat \<Rightarrow> nat" where
  "AlignValue n = ((n + (8 - 1)) div 8) * 8"

text \<open>\<open>Allocate\<close> returns the position of the allocation in the head block; \<open>None\<close> is an exception.\<close>

definition new_capacity :: "nat \<Rightarrow> bool \<Rightarrow> nat \<Rightarrow> nat option" where
  "new_capacity block_size has_head alloc_len =
     (let capacity = (if \<not> has_head \<and> alloc_len \<le> 4096 then 4096 else block_size)
      in if capacity < alloc_len then map_option unat (NextPowerOfTwo (word_of_nat alloc_len)) else Some capacity)"

definition Allocate :: "nat \<Rightarrow> nat \<Rightarrow> 'e undo_allocator \<Rightarrow> ('e undo_allocator \<times> nat) option" where
  "Allocate block_size alloc_len bs =
     (case bs of
        [] \<Rightarrow>
          (case new_capacity block_size False alloc_len of
             None \<Rightarrow> None
           | Some c \<Rightarrow> Some ([\<lparr>blk_position = 0 + alloc_len, blk_capacity = c, blk_entries = []\<rparr>], 0))
      | h # rest \<Rightarrow>
          if blk_position h + alloc_len > blk_capacity h then
            (case new_capacity block_size True alloc_len of
               None \<Rightarrow> None
             | Some c \<Rightarrow> Some (\<lparr>blk_position = 0 + alloc_len, blk_capacity = c, blk_entries = []\<rparr> # h # rest, 0))
          else Some (h\<lparr>blk_position := blk_position h + alloc_len\<rparr> # rest, blk_position h))"

text \<open>\<open>CreateEntry\<close> and the write of the entry by its caller.\<close>

definition CreateEntry :: "nat \<Rightarrow> 'e \<Rightarrow> nat \<Rightarrow> 'e undo_allocator \<Rightarrow> 'e undo_allocator option" where
  "CreateEntry block_size e len bs =
     (let alloc_len = AlignValue (len + UNDO_ENTRY_HEADER_SIZE)
      in case Allocate block_size alloc_len bs of
           Some (h # rest, pos) \<Rightarrow>
             Some (h\<lparr>blk_entries := blk_entries h @ [((alloc_len - UNDO_ENTRY_HEADER_SIZE) mod 2 ^ 32, e)]\<rparr> # rest)
         | _ \<Rightarrow> None)"

section \<open>Iteration\<close>

text \<open>
  A callback may change the state and throw; \<open>None\<close> means that it does not return.  The loop over a block
  ends at byte position \<open>end'\<close>; when the callback throws, the start position is behind the entry's header.
\<close>

type_synonym ('e, 's, 'err) callback = "'e \<Rightarrow> 's \<Rightarrow> ('s \<times> 'err option) option"

fun run_block ::
  "('e, 's, 'err) callback \<Rightarrow> nat \<Rightarrow> (nat \<times> 'e) list \<Rightarrow> nat \<Rightarrow> 's \<Rightarrow> ('s \<times> (nat \<times> 'err) option) option" where
  "run_block f end' [] start s = Some (s, None)"
| "run_block f end' ((len, e) # es) start s =
     (if start < end' then
        (case f e s of
           None \<Rightarrow> None
         | Some (s', Some err) \<Rightarrow> Some (s', Some (start + UNDO_ENTRY_HEADER_SIZE, err))
         | Some (s', None) \<Rightarrow> run_block f end' es (start + UNDO_ENTRY_HEADER_SIZE + len) s')
      else Some (s, None))"

fun iterate_blocks ::
  "('e, 's, 'err) callback \<Rightarrow> nat \<Rightarrow> 'e undo_block list \<Rightarrow> 's \<Rightarrow> ('s \<times> iterator_state \<times> 'err option) option" where
  "iterate_blocks f i [] s = Some (s, \<lparr>it_current = None, it_start = 0\<rparr>, None)"
| "iterate_blocks f i (b # bs) s =
     (case run_block f (blk_position b) (blk_entries b) 0 s of
        None \<Rightarrow> None
      | Some (s', Some (pos, err)) \<Rightarrow> Some (s', \<lparr>it_current = Some i, it_start = pos\<rparr>, Some err)
      | Some (s', None) \<Rightarrow> iterate_blocks f (Suc i) bs s')"

definition IterateEntries ::
  "('e, 's, 'err) callback \<Rightarrow> 'e undo_allocator \<Rightarrow> 's \<Rightarrow> ('s \<times> iterator_state \<times> 'err option) option" where
  "IterateEntries f bs = iterate_blocks f 0 (rev bs)"

fun iterate_blocks_until ::
  "('e, 's, 'err) callback \<Rightarrow> iterator_state \<Rightarrow> nat \<Rightarrow> 'e undo_block list \<Rightarrow> 's \<Rightarrow> ('s \<times> 'err option) option" where
  "iterate_blocks_until f end_state i [] s = Some (s, None)"
| "iterate_blocks_until f end_state i (b # bs) s =
     (let end' = (if it_current end_state = Some i then it_start end_state else blk_position b)
      in case run_block f end' (blk_entries b) 0 s of
           None \<Rightarrow> None
         | Some (s', Some (pos, err)) \<Rightarrow> Some (s', Some err)
         | Some (s', None) \<Rightarrow>
             if it_current end_state = Some i then Some (s', None) else iterate_blocks_until f end_state (Suc i) bs s')"

definition IterateEntries_until ::
  "('e, 's, 'err) callback \<Rightarrow> iterator_state \<Rightarrow> 'e undo_allocator \<Rightarrow> 's \<Rightarrow> ('s \<times> 'err option) option" where
  "IterateEntries_until f end_state bs = iterate_blocks_until f end_state 0 (rev bs)"

fun block_nodes :: "nat \<Rightarrow> (nat \<times> 'e) list \<Rightarrow> nat \<Rightarrow> 'e list" where
  "block_nodes end' [] start = []"
| "block_nodes end' ((len, e) # es) start =
     (if start < end' then e # block_nodes end' es (start + UNDO_ENTRY_HEADER_SIZE + len) else [])"

fun run_list :: "('e, 's, 'err) callback \<Rightarrow> 'e list \<Rightarrow> 's \<Rightarrow> ('s \<times> 'err option) option" where
  "run_list f [] s = Some (s, None)"
| "run_list f (e # es) s =
     (case f e s of
        None \<Rightarrow> None
      | Some (s', Some err) \<Rightarrow> Some (s', Some err)
      | Some (s', None) \<Rightarrow> run_list f es s')"

fun ReverseIterateEntries :: "('e, 's, 'err) callback \<Rightarrow> 'e undo_allocator \<Rightarrow> 's \<Rightarrow> ('s \<times> 'err option) option" where
  "ReverseIterateEntries f [] s = Some (s, None)"
| "ReverseIterateEntries f (b # bs) s =
     (case run_list f (rev (block_nodes (blk_position b) (blk_entries b) 0)) s of
        None \<Rightarrow> None
      | Some (s', Some err) \<Rightarrow> Some (s', Some err)
      | Some (s', None) \<Rightarrow> ReverseIterateEntries f bs s')"

definition ChangesMade :: "'e undo_allocator \<Rightarrow> bool" where
  "ChangesMade bs \<longleftrightarrow> bs \<noteq> []"

section \<open>The abstract buffer: a list of entries\<close>

definition undo_entries :: "'e undo_allocator \<Rightarrow> 'e list" where
  "undo_entries bs = map snd (concat (map blk_entries (rev bs)))"

definition block_size_of :: "(nat \<times> 'e) list \<Rightarrow> nat" where
  "block_size_of es = sum_list (map (\<lambda>(len, e). UNDO_ENTRY_HEADER_SIZE + len) es)"

definition undo_wf :: "'e undo_allocator \<Rightarrow> bool" where
  "undo_wf bs \<longleftrightarrow> (\<forall>b\<in>set bs. blk_position b = block_size_of (blk_entries b) \<and> blk_position b \<le> blk_capacity b
     \<and> blk_entries b \<noteq> [])"

lemma block_size_simps [simp]: "block_size_of [] = 0"
  "block_size_of ((len, e) # es) = UNDO_ENTRY_HEADER_SIZE + len + block_size_of es"
  "block_size_of (es @ es') = block_size_of es + block_size_of es'"
  by (simp_all add: block_size_of_def)

lemma header_pos: "0 < UNDO_ENTRY_HEADER_SIZE"
  by (simp add: UNDO_ENTRY_HEADER_SIZE_def)

text \<open>The specification of a loop that may fail: the number of entries completed before the failing one.\<close>

fun run_count :: "('e, 's, 'err) callback \<Rightarrow> 'e list \<Rightarrow> 's \<Rightarrow> ('s \<times> nat \<times> 'err option) option" where
  "run_count f [] s = Some (s, 0, None)"
| "run_count f (e # es) s =
     (case f e s of
        None \<Rightarrow> None
      | Some (s', Some err) \<Rightarrow> Some (s', 0, Some err)
      | Some (s', None) \<Rightarrow> map_option (\<lambda>(s'', n, r). (s'', Suc n, r)) (run_count f es s'))"

lemma run_count_list: "run_list f es s = map_option (\<lambda>(s', n, r). (s', r)) (run_count f es s)"
  by (induction f es s rule: run_count.induct) (auto split: option.split simp: option.map_comp comp_def split_beta)

lemma run_list_append:
  "run_list f (es @ es') s = (case run_list f es s of None \<Rightarrow> None
     | Some (s', Some err) \<Rightarrow> Some (s', Some err) | Some (s', None) \<Rightarrow> run_list f es' s')"
  by (induction f es s rule: run_list.induct) (auto split: option.split)

lemma run_count_append:
  "run_count f (es @ es') s = (case run_count f es s of None \<Rightarrow> None
     | Some (s', n, Some err) \<Rightarrow> Some (s', n, Some err)
     | Some (s', n, None) \<Rightarrow> map_option (\<lambda>(s'', m, r). (s'', length es + m, r)) (run_count f es' s'))"
  by (induction f es s rule: run_count.induct)
    (auto split: option.split simp: option.map_comp comp_def option.map_id intro!: option.map_cong)

lemma run_count_bound: "run_count f es s = Some (s', n, r) \<Longrightarrow> (r = None \<longrightarrow> n = length es) \<and> (r \<noteq> None \<longrightarrow> n < length es)"
  by (induction f es s arbitrary: s' n r rule: run_count.induct) (fastforce split: option.splits)+

text \<open>One block.\<close>

definition entry_end :: "(nat \<times> 'e) list \<Rightarrow> nat \<Rightarrow> nat" where
  "entry_end es n = block_size_of (take n es) + UNDO_ENTRY_HEADER_SIZE"

lemma run_block_all:
  assumes "end' = start + block_size_of es"
  shows "run_block f end' es start s = map_option (\<lambda>(s', n, r). (s', map_option (Pair (start + entry_end es n)) r))
    (run_count f (map snd es) s)"
  using assms
proof (induction f end' es start s rule: run_block.induct)
  case (2 f end' len e es start s)
  have "start < end'" using 2(2) header_pos by simp
  moreover have "entry_end ((len, e) # es) (Suc n) = UNDO_ENTRY_HEADER_SIZE + len + entry_end es n" for n
    by (simp add: entry_end_def)
  moreover have "entry_end ((len, e) # es) 0 = UNDO_ENTRY_HEADER_SIZE" by (simp add: entry_end_def)
  ultimately show ?case
    using 2 by (auto split: option.split simp: option.map_comp comp_def split_beta add.assoc)
qed simp

lemma run_block_part:
  assumes "n < length es"
  shows "run_block g (start + entry_end es n) es start s =
    map_option (\<lambda>(s', m, r). (s', map_option (Pair (start + entry_end es m)) r)) (run_count g (map snd (take (Suc n) es)) s)"
  using assms
proof (induction es arbitrary: n start s)
  case (Cons le es)
  obtain len e where le: "le = (len, e)" by fastforce
  have e0: "entry_end (le # es) 0 = UNDO_ENTRY_HEADER_SIZE" by (simp add: entry_end_def)
  have eS: "entry_end (le # es) (Suc m) = UNDO_ENTRY_HEADER_SIZE + len + entry_end es m" for m
    by (simp add: entry_end_def le)
  show ?case
  proof (cases n)
    case 0
    have "run_block g (start + UNDO_ENTRY_HEADER_SIZE) es (start + UNDO_ENTRY_HEADER_SIZE + len) s' = Some (s', None)" for s'
      by (cases es) auto
    then show ?thesis using header_pos by (auto simp: 0 le e0 [unfolded le] split: option.split)
  next
    case (Suc m)
    have ih: "run_block g (start + (UNDO_ENTRY_HEADER_SIZE + len + entry_end es m)) es (start + UNDO_ENTRY_HEADER_SIZE + len) s' =
        map_option (\<lambda>(s', k, r). (s', map_option (Pair (start + UNDO_ENTRY_HEADER_SIZE + len + entry_end es k)) r))
          (run_count g (map snd (take (Suc m) es)) s')" for s'
      using Cons.IH [of m "start + UNDO_ENTRY_HEADER_SIZE + len" s'] Cons.prems Suc by (simp add: add.assoc)
    have "0 < entry_end es m" using header_pos by (simp add: entry_end_def)
    then show ?thesis
      unfolding Suc eS using ih
      by (auto simp: le e0 [unfolded le] eS [unfolded le] split: option.split
          simp: option.map_comp comp_def add.assoc intro!: option.map_cong)
  qed
qed simp

text \<open>All blocks.\<close>

abbreviation entries_of :: "'e undo_block list \<Rightarrow> 'e list" where
  "entries_of bs \<equiv> map snd (concat (map blk_entries bs))"

definition full_blocks :: "'e undo_block list \<Rightarrow> bool" where
  "full_blocks bs \<longleftrightarrow> (\<forall>b\<in>set bs. blk_position b = block_size_of (blk_entries b))"

lemma run_block_full:
  assumes "blk_position b = block_size_of (blk_entries b)"
  shows "run_block f (blk_position b) (blk_entries b) 0 s =
    map_option (\<lambda>(s', n, r). (s', map_option (Pair (entry_end (blk_entries b) n)) r)) (run_count f (map snd (blk_entries b)) s)"
  using run_block_all [of "blk_position b" 0 "blk_entries b"] assms by simp

lemma run_block_list:
  assumes "blk_position b = block_size_of (blk_entries b)"
  shows "(case run_block g (blk_position b) (blk_entries b) 0 s of None \<Rightarrow> None
      | Some (s', Some (pos, err)) \<Rightarrow> Some (s', Some err) | Some (s', None) \<Rightarrow> X s')
    = (case run_list g (map snd (blk_entries b)) s of None \<Rightarrow> None
      | Some (s', Some err) \<Rightarrow> Some (s', Some err) | Some (s', None) \<Rightarrow> X s')"
  by (auto simp: run_block_full [OF assms] run_count_list split: option.split)

lemma iterate_until_all:
  "full_blocks bs \<Longrightarrow> (\<forall>j. it_current it = Some j \<longrightarrow> j < i) \<Longrightarrow>
    iterate_blocks_until g it i bs s = run_list g (entries_of bs) s"
proof (induction bs arbitrary: i s)
  case (Cons b bs)
  have b: "blk_position b = block_size_of (blk_entries b)" "full_blocks bs" "it_current it \<noteq> Some i"
    using Cons.prems by (auto simp: full_blocks_def)
  have "iterate_blocks_until g it (Suc i) bs t = run_list g (entries_of bs) t" for t
    by (rule Cons.IH [OF b(2)]) (use Cons.prems(2) less_SucI in blast)
  then show ?case
    using b(3) by (auto simp: run_list_append run_block_list [OF b(1)] split: option.split)
qed simp

lemma iterate_blocks_spec:
  "full_blocks bs \<Longrightarrow> (case run_count f (entries_of bs) s of
      None \<Rightarrow> iterate_blocks f i bs s = None
    | Some (s', n, None) \<Rightarrow> iterate_blocks f i bs s = Some (s', \<lparr>it_current = None, it_start = 0\<rparr>, None)
    | Some (s', n, Some err) \<Rightarrow> \<exists>j pos. i \<le> j \<and> iterate_blocks f i bs s = Some (s', \<lparr>it_current = Some j, it_start = pos\<rparr>, Some err)
        \<and> (\<forall>(g :: ('e, 't, 'x) callback) t. iterate_blocks_until g \<lparr>it_current = Some j, it_start = pos\<rparr> i bs t
             = run_list g (take (Suc n) (entries_of bs)) t))"
proof (induction bs arbitrary: i s)
  case (Cons b bs)
  let ?es = "blk_entries b"
  have b: "blk_position b = block_size_of ?es" "full_blocks bs" using Cons.prems by (auto simp: full_blocks_def)
  note full = run_block_full [OF b(1)]
  show ?case
  proof (cases "run_count f (map snd ?es) s")
    case None
    then show ?thesis by (simp add: full run_count_append)
  next
    case (Some x)
    obtain s1 n1 r1 where x: "x = (s1, n1, r1)" by (cases x)
    show ?thesis
    proof (cases r1)
      case (Some err)
      have n1: "n1 < length ?es" using run_count_bound [OF \<open>run_count f (map snd ?es) s = Some x\<close> [unfolded x]] Some by simp
      let ?it = "\<lparr>it_current = Some i, it_start = entry_end ?es n1\<rparr>"
      have "iterate_blocks_until g ?it i (b # bs) t = run_list g (take (Suc n1) (entries_of (b # bs))) t"
        for g :: "('e, 't, 'x) callback" and t
        using run_block_part [OF n1, of g 0 t] n1
        by (simp add: run_count_list take_map) (auto split: option.split)
      then show ?thesis
        using \<open>run_count f (map snd ?es) s = Some x\<close> x Some by (simp add: full run_count_append)
    next
      case None
      have n1: "n1 = length ?es" using run_count_bound [OF \<open>run_count f (map snd ?es) s = Some x\<close> [unfolded x]] None by simp
      have step: "iterate_blocks f i (b # bs) s = iterate_blocks f (Suc i) bs s1"
        using \<open>run_count f (map snd ?es) s = Some x\<close> x None by (simp add: full)
      have cnt: "run_count f (entries_of (b # bs)) s
          = map_option (\<lambda>(s'', m, r). (s'', length ?es + m, r)) (run_count f (entries_of bs) s1)"
        using \<open>run_count f (map snd ?es) s = Some x\<close> x None by (simp add: run_count_append)
      show ?thesis
      proof (cases "run_count f (entries_of bs) s1")
        case (Some y)
        obtain s2 n2 r2 where y: "y = (s2, n2, r2)" by (cases y)
        show ?thesis
        proof (cases r2)
          case None
          then show ?thesis using Cons.IH [OF b(2), where s = s1 and i = "Suc i"] Some y unfolding step cnt by simp
        next
          case (Some err)
          then obtain j pos where j: "Suc i \<le> j"
            "iterate_blocks f (Suc i) bs s1 = Some (s2, \<lparr>it_current = Some j, it_start = pos\<rparr>, Some err)"
            "\<And>(g :: ('e, 't, 'x) callback) t. iterate_blocks_until g \<lparr>it_current = Some j, it_start = pos\<rparr> (Suc i) bs t
               = run_list g (take (Suc n2) (entries_of bs)) t"
            using Cons.IH [OF b(2), where s = s1 and i = "Suc i"] \<open>run_count f (entries_of bs) s1 = Some y\<close> y by auto
          have "iterate_blocks_until g \<lparr>it_current = Some j, it_start = pos\<rparr> i (b # bs) t
              = run_list g (take (Suc (length ?es + n2)) (entries_of (b # bs))) t" for g :: "('e, 't, 'x) callback" and t
            using j(1) by (auto simp: j(3) run_list_append run_block_list [OF b(1)] split: option.split)
          then show ?thesis
            using \<open>run_count f (entries_of bs) s1 = Some y\<close> y Some j(1,2) unfolding step cnt by auto
        qed
      next
        case None
        then show ?thesis using Cons.IH [OF b(2), where s = s1 and i = "Suc i"] unfolding step cnt by simp
      qed
    qed
  qed
qed simp

lemma full_rev: "undo_wf bs \<Longrightarrow> full_blocks (rev bs)"
  by (simp add: undo_wf_def full_blocks_def)

lemma block_nodes_all: "end' = start + block_size_of es \<Longrightarrow> block_nodes end' es start = map snd es"
  using header_pos by (induction end' es start rule: block_nodes.induct) auto

lemma ReverseIterate_spec:
  "full_blocks bs \<Longrightarrow> ReverseIterateEntries f bs s = run_list f (rev (entries_of (rev bs))) s"
proof (induction bs arbitrary: s)
  case (Cons b bs)
  have "blk_position b = block_size_of (blk_entries b)" "full_blocks bs" using Cons.prems by (auto simp: full_blocks_def)
  then show ?case
    using Cons.IH block_nodes_all [of "blk_position b" 0 "blk_entries b"]
    by (auto simp: run_list_append split: option.split)
qed simp

lemma IterateEntries_ok:
  assumes "undo_wf bs"
  shows "IterateEntries f bs s = None \<longleftrightarrow> run_count f (undo_entries bs) s = None"
    "run_count f (undo_entries bs) s = Some (s', n, None) \<Longrightarrow>
       IterateEntries f bs s = Some (s', \<lparr>it_current = None, it_start = 0\<rparr>, None)"
    "run_count f (undo_entries bs) s = Some (s', n, Some err) \<Longrightarrow>
       \<exists>it. IterateEntries f bs s = Some (s', it, Some err)
         \<and> (\<forall>g t. IterateEntries_until g it bs t = run_list g (take (Suc n) (undo_entries bs)) t)"
    "it_current it = None \<Longrightarrow> IterateEntries_until g it bs t = run_list g (undo_entries bs) t"
    "ReverseIterateEntries g bs t = run_list g (rev (undo_entries bs)) t"
proof -
  note spec = iterate_blocks_spec [OF full_rev [OF assms], where f = f and s = s and i = 0, folded IterateEntries_def undo_entries_def]
  show "IterateEntries f bs s = None \<longleftrightarrow> run_count f (undo_entries bs) s = None"
    using spec by (auto split: option.splits)
  show "run_count f (undo_entries bs) s = Some (s', n, None) \<Longrightarrow>
       IterateEntries f bs s = Some (s', \<lparr>it_current = None, it_start = 0\<rparr>, None)"
    using spec by simp
  show "run_count f (undo_entries bs) s = Some (s', n, Some err) \<Longrightarrow>
       \<exists>it. IterateEntries f bs s = Some (s', it, Some err)
         \<and> (\<forall>g t. IterateEntries_until g it bs t = run_list g (take (Suc n) (undo_entries bs)) t)"
    using spec by (auto simp: IterateEntries_until_def)
  show "it_current it = None \<Longrightarrow> IterateEntries_until g it bs t = run_list g (undo_entries bs) t"
    using iterate_until_all [OF full_rev [OF assms], of it 0 g t] by (simp add: IterateEntries_until_def undo_entries_def)
  have "full_blocks bs" using assms by (simp add: undo_wf_def full_blocks_def)
  then show "ReverseIterateEntries g bs t = run_list g (rev (undo_entries bs)) t"
    unfolding undo_entries_def by (rule ReverseIterate_spec)
qed

section \<open>Writing entries\<close>

lemma or_shifted_bounds:
  assumes "uint v < 2 ^ 40"
  shows "v \<le> or_shifted n v \<and> uint (or_shifted n v) < 2 ^ 40"
proof
  show "v \<le> or_shifted n v" unfolding or_shifted_def by (rule le_word_or2)
  have "unat (drop_bit n v) = unat v div unat (2 ^ n :: u64)" by (simp only: drop_bit_eq_div unat_div_distrib)
  then have "drop_bit n v \<le> v" unfolding word_le_nat_alt by simp
  then have "uint (drop_bit n v) < 2 ^ 40" using assms unfolding word_le_def by linarith
  then show "uint (or_shifted n v) < 2 ^ 40"
    unfolding or_shifted_def uint_or using assms by (intro OR_upper) simp_all
qed

lemma NextPowerOfTwo_ge:
  assumes "n < 2 ^ 40"
  shows "\<exists>w. NextPowerOfTwo (word_of_nat n) = Some w \<and> n \<le> unat w"
proof (cases "n = 0")
  case False
  define v :: u64 where "v = word_of_nat n"
  have "unat v = n mod 2 ^ 64" by (simp only: v_def unat_of_nat) simp
  then have "unat v = n" using assms by simp
  then have u: "uint v = int n" by (simp add: uint_nat)
  have not0: "\<not> v < 1" using u False by (simp add: word_less_def)
  have u1: "uint (v - 1) = int n - 1" using u False by (simp add: uint_sub_if')
  define w where "w = or_shifted 32 (or_shifted 16 (or_shifted 8 (or_shifted 4 (or_shifted 2 (or_shifted 1 (v - 1))))))"
  have b1: "uint (v - 1) < 2 ^ 40" using u1 assms by simp
  note b2 = or_shifted_bounds [OF b1, of 1]
  note b3 = or_shifted_bounds [OF conjunct2 [OF b2], of 2]
  note b4 = or_shifted_bounds [OF conjunct2 [OF b3], of 4]
  note b5 = or_shifted_bounds [OF conjunct2 [OF b4], of 8]
  note b6 = or_shifted_bounds [OF conjunct2 [OF b5], of 16]
  note b7 = or_shifted_bounds [OF conjunct2 [OF b6], of 32, folded w_def]
  have "v - 1 \<le> w" using b2 b3 b4 b5 b6 b7 by (meson order_trans)
  then have "int n - 1 \<le> uint w" using u1 by (simp add: word_le_def)
  moreover have u8: "uint (w + 1) = uint w + 1" using b7 by (simp add: uint_plus_if')
  ultimately have ge: "int n \<le> uint (w + 1)" by simp
  then have "w + 1 \<noteq> 0" using False by auto
  then have "NextPowerOfTwo v = Some (w + 1)"
    unfolding NextPowerOfTwo_def Let_def w_def [symmetric] using not0 by simp
  moreover have "n \<le> unat (w + 1)" using ge unfolding uint_nat by (simp only: of_nat_le_iff)
  ultimately show ?thesis by (auto simp: v_def)
qed (simp add: NextPowerOfTwo_def)

lemma new_capacity_ok:
  assumes "n < 2 ^ 40"
  shows "\<exists>c. new_capacity block_size h n = Some c \<and> n \<le> c"
  using NextPowerOfTwo_ge [OF assms] by (auto simp: new_capacity_def Let_def not_less)

lemma AlignValue_ge: "n \<le> AlignValue n" "AlignValue n < n + 8"
  by (simp_all add: AlignValue_def)

lemma CreateEntry_ok:
  assumes "undo_wf bs" "len < 2 ^ 32 - 16"
  shows "\<exists>bs'. CreateEntry block_size e len bs = Some bs' \<and> undo_wf bs' \<and> undo_entries bs' = undo_entries bs @ [e]"
proof -
  let ?H = UNDO_ENTRY_HEADER_SIZE
  define n where "n = AlignValue (len + ?H)"
  have n: "?H \<le> n" "n < 2 ^ 32"
    using AlignValue_ge [of "len + ?H"] assms(2) by (simp_all add: n_def UNDO_ENTRY_HEADER_SIZE_def)
  then have m: "(n - ?H) mod 2 ^ 32 = n - ?H" "n < 2 ^ 40" by simp_all
  obtain c where c: "new_capacity block_size False n = Some c" "n \<le> c" using new_capacity_ok [OF m(2)] by blast
  obtain d where d: "new_capacity block_size True n = Some d" "n \<le> d" using new_capacity_ok [OF m(2)] by blast
  show ?thesis
  proof (cases bs)
    case Nil
    then show ?thesis
      using c m(1) n(1) by (simp add: CreateEntry_def Let_def n_def [symmetric] Allocate_def undo_wf_def undo_entries_def)
  next
    case (Cons h rest)
    then show ?thesis
      using d m(1) n(1) assms(1)
      by (auto simp: CreateEntry_def Let_def n_def [symmetric] Allocate_def undo_wf_def undo_entries_def)
  qed
qed

text \<open>
  C38: The undo buffer is a list.  Writing an entry (at most 2^32 bytes, into a block of any size) appends
  to it; committing visits its entries in the order they were written and stops at the first that throws;
  reverting then visits exactly the entries up to and including that one, or all of them when none was
  reached or all were; rolling back visits all in reverse order.  The blocks and byte positions do not show.
\<close>
theorem undo_buffer_is_list:
  assumes "undo_wf bs"
  shows "(len < 2 ^ 32 - 16 \<longrightarrow>
      (\<exists>bs'. CreateEntry block_size e len bs = Some bs' \<and> undo_wf bs' \<and> undo_entries bs' = undo_entries bs @ [e]))
    \<and> map_option (\<lambda>(s', it, r). (s', r)) (IterateEntries f bs s) = run_list f (undo_entries bs) s
    \<and> (\<forall>s' it r. IterateEntries f bs s = Some (s', it, r) \<longrightarrow>
        (\<exists>n. run_count f (undo_entries bs) s = Some (s', n, r)
          \<and> IterateEntries_until g it bs t = run_list g (take (Suc n) (undo_entries bs)) t))
    \<and> ReverseIterateEntries g bs t = run_list g (rev (undo_entries bs)) t"
proof (intro conjI impI allI)
  note ok = IterateEntries_ok [OF assms]
  show "\<exists>bs'. CreateEntry block_size e len bs = Some bs' \<and> undo_wf bs' \<and> undo_entries bs' = undo_entries bs @ [e]"
    if "len < 2 ^ 32 - 16" by (rule CreateEntry_ok [OF assms that])
  show "ReverseIterateEntries g bs t = run_list g (rev (undo_entries bs)) t" by (rule ok(5))
  show "map_option (\<lambda>(s', it, r). (s', r)) (IterateEntries f bs s) = run_list f (undo_entries bs) s"
  proof (cases "run_count f (undo_entries bs) s")
    case None
    then show ?thesis using ok(1) [of f s] by (simp add: run_count_list)
  next
    case (Some x)
    obtain s' n r where x: "x = (s', n, r)" by (cases x)
    then show ?thesis using Some ok(2,3) [of f s s' n] by (cases r) (auto simp: run_count_list)
  qed
  fix s' it r assume it: "IterateEntries f bs s = Some (s', it, r)"
  then obtain s2 n r2 where n: "run_count f (undo_entries bs) s = Some (s2, n, r2)"
    using ok(1) [of f s] by (cases "run_count f (undo_entries bs) s") auto
  show "\<exists>n. run_count f (undo_entries bs) s = Some (s', n, r)
      \<and> IterateEntries_until g it bs t = run_list g (take (Suc n) (undo_entries bs)) t"
  proof (cases r2)
    case None
    then have "s' = s2" "r = None" "it_current it = None" "n = length (undo_entries bs)"
      using ok(2) [of f s s2 n] it n run_count_bound [OF n] by auto
    then show ?thesis using n None ok(4) by auto
  next
    case (Some err)
    then show ?thesis using ok(3) [of f s s2 n err] it n by auto
  qed
qed

text \<open>A buffer of two blocks; the callback throws at the second entry.\<close>

definition example_undo :: "nat undo_allocator" where
  "example_undo = [\<lparr>blk_position = 24, blk_capacity = 100, blk_entries = [(16, 30)]\<rparr>,
     \<lparr>blk_position = 32, blk_capacity = 40, blk_entries = [(8, 10), (8, 20)]\<rparr>]"

lemma example_undo_wf: "undo_wf example_undo" "undo_entries example_undo = [10, 20, 30]"
  by (simp_all add: example_undo_def undo_wf_def undo_entries_def UNDO_ENTRY_HEADER_SIZE_def)

definition example_callback :: "(nat, nat list, unit) callback" where
  "example_callback e s = Some (e # s, if e = 20 then Some () else None)"

theorem undo_buffer_is_list_witness:
  "(\<exists>bs'. CreateEntry 4096 40 100 example_undo = Some bs' \<and> undo_wf bs' \<and> undo_entries bs' = [10, 20, 30, 40])
   \<and> (\<exists>it. IterateEntries example_callback example_undo [] = Some ([20, 10], it, Some ())
        \<and> IterateEntries_until (\<lambda>e s. Some (s + e, None :: unit option)) it example_undo 0 = Some (30, None))
   \<and> ReverseIterateEntries (\<lambda>e s. Some (e # s, None :: unit option)) example_undo [] = Some ([10, 20, 30], None)"
proof -
  have i: "IterateEntries example_callback example_undo [] = Some ([20, 10], \<lparr>it_current = Some 0, it_start = 24\<rparr>, Some ())"
    by (simp add: IterateEntries_def example_undo_def example_callback_def UNDO_ENTRY_HEADER_SIZE_def)
  note th = undo_buffer_is_list [OF example_undo_wf(1), unfolded example_undo_wf(2)]
  from th [of 100 4096 40 example_callback "[]" "\<lambda>e s. Some (s + e, None :: unit option)" 0]
  have a: "\<exists>bs'. CreateEntry 4096 40 100 example_undo = Some bs' \<and> undo_wf bs' \<and> undo_entries bs' = [10, 20, 30, 40]"
    and b: "IterateEntries_until (\<lambda>e s. Some (s + e, None :: unit option)) \<lparr>it_current = Some 0, it_start = 24\<rparr> example_undo 0
      = Some (30, None)"
    by (simp, auto simp: i example_callback_def)
  from th [of 100 4096 40 example_callback "[]" "\<lambda>e s. Some (e # s, None :: unit option)" "[]"]
  have "ReverseIterateEntries (\<lambda>e s. Some (e # s, None :: unit option)) example_undo [] = Some ([10, 20, 30], None)" by simp
  then show ?thesis using a b i by blast
qed

end
