(* ===== verification/Transactions.thy ===== *)
theory Transactions
  imports TableChanges TableDeletes UndoBuffer
begin

text \<open>
  What the entries of a transaction's undo buffer do to the database when the transaction commits, when
  a failed commit is reverted, when it rolls back and when it is cleaned up: \<open>transaction/commit_state.cpp\<close>,
  \<open>rollback_state.cpp\<close>, \<open>cleanup_state.cpp\<close> and the functions of \<open>undo_buffer.cpp\<close> that run them.
\<close>

section \<open>Entries and the database\<close>

record append_info =
  ai_table :: nat
  ai_start_row :: nat
  ai_count :: nat

record delete_entry =
  de_table :: nat
  de_info :: delete_undo

text \<open>A catalog entry, an update info and a sequence are pointers.\<close>

datatype undo_entry =
    EMPTY_ENTRY
  | CATALOG_ENTRY nat
  | INSERT_TUPLE append_info
  | DELETE_TUPLE delete_entry
  | UPDATE_TUPLE nat
  | SEQUENCE_VALUE nat

text \<open>
  The database: the row groups of each table, the version numbers of the update infos, and the state
  \<open>'c\<close> of the catalog, the update chains and the indexes.
\<close>

record 'c database =
  db_tables :: "nat \<Rightarrow> row_group_collection"
  version_number :: "nat \<Rightarrow> transaction_t"
  db_other :: 'c

text \<open>
  What the loops call in the catalog, the update segments and the indexes is a parameter.  Only the
  commit of a catalog entry throws.
\<close>

record 'c calls =
  commit_catalog :: "transaction_t \<Rightarrow> transaction_t \<Rightarrow> nat \<Rightarrow> 'c \<Rightarrow> 'c \<times> version_error option"
  revert_catalog :: "transaction_t \<Rightarrow> nat \<Rightarrow> 'c \<Rightarrow> 'c"
  undo_catalog :: "nat \<Rightarrow> 'c \<Rightarrow> 'c"
  cleanup_catalog :: "nat \<Rightarrow> 'c \<Rightarrow> 'c"
  rollback_update :: "nat \<Rightarrow> 'c \<Rightarrow> 'c"
  cleanup_update :: "nat \<Rightarrow> 'c \<Rightarrow> 'c"
  has_indexes :: "nat \<Rightarrow> 'c \<Rightarrow> bool"
  revert_indexes :: "nat \<Rightarrow> nat \<Rightarrow> nat \<Rightarrow> 'c \<Rightarrow> 'c"
  remove_from_indexes :: "nat \<Rightarrow> nat list \<Rightarrow> 'c \<Rightarrow> 'c"

section \<open>Operations\<close>

definition set_table :: "nat \<Rightarrow> row_group_collection \<Rightarrow> 'c database \<Rightarrow> 'c database" where
  "set_table t c db = db\<lparr>db_tables := (db_tables db)(t := c)\<rparr>"

text \<open>The outcome of an operation on the row groups of a table; \<open>None\<close> when it does not return.\<close>

definition on_table ::
  "nat \<Rightarrow> (row_group_collection \<Rightarrow> (version_error + row_group_collection) option) \<Rightarrow> 'c database \<Rightarrow>
   ('c database \<times> version_error option) option" where
  "on_table t f db =
     (case f (db_tables db t) of
        None \<Rightarrow> None
      | Some (Inl e) \<Rightarrow> Some (db, Some e)
      | Some (Inr c) \<Rightarrow> Some (set_table t c db, None))"

text \<open>The version information an entry points to; a pointer to a group without any is dangling.\<close>

definition version_CommitDelete ::
  "transaction_t \<Rightarrow> delete_undo \<Rightarrow> row_group_collection \<Rightarrow> (version_error + row_group_collection) option" where
  "version_CommitDelete commit_id u c =
     (let t = row_groups c; k = du_version_info u
      in if length (nodes t) \<le> k then Some (Inl NullDereference)
         else let g = snd (nodes t ! k)
              in case version_info (sg_data g) of
                   None \<Rightarrow> Some (Inl NullDereference)
                 | Some m \<Rightarrow> Some (Inr (c\<lparr>row_groups := put_group k
                     (SetVersionInfo (Some (rvm_CommitDelete m (di_vector_idx (du_info u)) commit_id (du_info u))) g) t\<rparr>)))"

definition DataTable_RevertAppend ::
  "'c calls \<Rightarrow> nat \<Rightarrow> nat \<Rightarrow> nat \<Rightarrow> 'c database \<Rightarrow> ('c database \<times> version_error option) option" where
  "DataTable_RevertAppend calls t start_row cnt db =
     (let scan_count = min cnt (total_rows (db_tables db t) - start_row);
          db1 = (if has_indexes calls t (db_other db)
                 then db\<lparr>db_other := revert_indexes calls t start_row scan_count (db_other db)\<rparr> else db)
      in on_table t (RevertAppendInternal start_row) db1)"

fun CommitEntry ::
  "'c calls \<Rightarrow> transaction_t \<Rightarrow> transaction_t \<Rightarrow> (undo_entry, 'c database, version_error) callback" where
  "CommitEntry calls start_time commit_id (CATALOG_ENTRY p) db =
     (let (c, err) = commit_catalog calls start_time commit_id p (db_other db) in Some (db\<lparr>db_other := c\<rparr>, err))"
| "CommitEntry calls start_time commit_id (INSERT_TUPLE info) db =
     on_table (ai_table info) (coll_CommitAppend commit_id (ai_start_row info) (ai_count info)) db"
| "CommitEntry calls start_time commit_id (DELETE_TUPLE info) db =
     on_table (de_table info) (version_CommitDelete commit_id (de_info info)) db"
| "CommitEntry calls start_time commit_id (UPDATE_TUPLE p) db =
     Some (db\<lparr>version_number := (version_number db)(p := commit_id)\<rparr>, None)"
| "CommitEntry calls start_time commit_id (SEQUENCE_VALUE p) db = Some (db, None)"
| "CommitEntry calls start_time commit_id EMPTY_ENTRY db = Some (db, Some InternalError)"

fun RevertCommit :: "'c calls \<Rightarrow> transaction_t \<Rightarrow> (undo_entry, 'c database, version_error) callback" where
  "RevertCommit calls transaction_id (CATALOG_ENTRY p) db =
     Some (db\<lparr>db_other := revert_catalog calls transaction_id p (db_other db)\<rparr>, None)"
| "RevertCommit calls transaction_id (INSERT_TUPLE info) db =
     DataTable_RevertAppend calls (ai_table info) (ai_start_row info) (ai_count info) db"
| "RevertCommit calls transaction_id (DELETE_TUPLE info) db =
     on_table (de_table info) (version_CommitDelete transaction_id (de_info info)) db"
| "RevertCommit calls transaction_id (UPDATE_TUPLE p) db =
     Some (db\<lparr>version_number := (version_number db)(p := transaction_id)\<rparr>, None)"
| "RevertCommit calls transaction_id (SEQUENCE_VALUE p) db = Some (db, None)"
| "RevertCommit calls transaction_id EMPTY_ENTRY db = Some (db, Some InternalError)"

fun RollbackEntry :: "'c calls \<Rightarrow> (undo_entry, 'c database, version_error) callback" where
  "RollbackEntry calls (CATALOG_ENTRY p) db = Some (db\<lparr>db_other := undo_catalog calls p (db_other db)\<rparr>, None)"
| "RollbackEntry calls (INSERT_TUPLE info) db =
     DataTable_RevertAppend calls (ai_table info) (ai_start_row info) (ai_count info) db"
| "RollbackEntry calls (DELETE_TUPLE info) db =
     on_table (de_table info) (version_CommitDelete NOT_DELETED_ID (de_info info)) db"
| "RollbackEntry calls (UPDATE_TUPLE p) db = Some (db\<lparr>db_other := rollback_update calls p (db_other db)\<rparr>, None)"
| "RollbackEntry calls (SEQUENCE_VALUE p) db = Some (db, None)"
| "RollbackEntry calls EMPTY_ENTRY db = Some (db, None)"

text \<open>\<open>CleanupState\<close>: the row numbers collected for the indexes of a table.\<close>

record cleanup_state =
  lowest_active_transaction :: transaction_t
  current_table :: "nat option"
  indexed_tables :: "nat list"
  row_numbers :: "nat list"

definition CleanupState :: "transaction_t \<Rightarrow> cleanup_state" where
  "CleanupState lowest = \<lparr>lowest_active_transaction = lowest, current_table = None, indexed_tables = [], row_numbers = []\<rparr>"

definition cleanup_Flush :: "'c calls \<Rightarrow> 'c database \<times> cleanup_state \<Rightarrow> 'c database \<times> cleanup_state" where
  "cleanup_Flush calls ds =
     (let (db, s) = ds
      in if row_numbers s = [] then (db, s)
         else (case current_table s of
                 None \<Rightarrow> db
               | Some t \<Rightarrow> db\<lparr>db_other := remove_from_indexes calls t (row_numbers s) (db_other db)\<rparr>,
               s\<lparr>row_numbers := []\<rparr>))"

definition CleanupDelete :: "'c calls \<Rightarrow> delete_entry \<Rightarrow> 'c database \<times> cleanup_state \<Rightarrow> 'c database \<times> cleanup_state" where
  "CleanupDelete calls info ds =
     (let version_table = de_table info
      in if \<not> has_indexes calls version_table (db_other (fst ds)) then ds
         else let (db, s) = (if current_table (snd ds) \<noteq> Some version_table
                             then let (db, s) = cleanup_Flush calls ds in (db, s\<lparr>current_table := Some version_table\<rparr>)
                             else ds);
                  u = de_info info; d = du_info u
              in cleanup_Flush calls (db, s\<lparr>indexed_tables := List.insert version_table (indexed_tables s),
                   row_numbers := (if di_is_consecutive d then map (\<lambda>i. du_base_row u + i) [0..<di_count d]
                                   else map (\<lambda>i. du_base_row u + di_rows d i) [0..<di_count d])\<rparr>))"

fun CleanupEntry :: "'c calls \<Rightarrow> (undo_entry, 'c database \<times> cleanup_state, version_error) callback" where
  "CleanupEntry calls (CATALOG_ENTRY p) (db, s) = Some ((db\<lparr>db_other := cleanup_catalog calls p (db_other db)\<rparr>, s), None)"
| "CleanupEntry calls (INSERT_TUPLE info) (db, s) =
     map_option (\<lambda>(db', err). ((db', s), err))
       (on_table (ai_table info) (coll_CleanupAppend (lowest_active_transaction s) (ai_start_row info) (ai_count info)) db)"
| "CleanupEntry calls (DELETE_TUPLE info) ds = Some (CleanupDelete calls info ds, None)"
| "CleanupEntry calls (UPDATE_TUPLE p) (db, s) = Some ((db\<lparr>db_other := cleanup_update calls p (db_other db)\<rparr>, s), None)"
| "CleanupEntry calls e ds = Some (ds, None)"

type_synonym undo_buffer = "undo_entry undo_allocator"

definition undo_Commit ::
  "'c calls \<Rightarrow> transaction_t \<Rightarrow> transaction_t \<Rightarrow> undo_buffer \<Rightarrow> 'c database \<Rightarrow>
   ('c database \<times> iterator_state \<times> version_error option) option" where
  "undo_Commit calls start_time commit_id ub = IterateEntries (CommitEntry calls start_time commit_id) ub"

definition undo_RevertCommit ::
  "'c calls \<Rightarrow> iterator_state \<Rightarrow> transaction_t \<Rightarrow> undo_buffer \<Rightarrow> 'c database \<Rightarrow>
   ('c database \<times> version_error option) option" where
  "undo_RevertCommit calls end_state transaction_id ub = IterateEntries_until (RevertCommit calls transaction_id) end_state ub"

definition undo_Rollback ::
  "'c calls \<Rightarrow> undo_buffer \<Rightarrow> 'c database \<Rightarrow> ('c database \<times> version_error option) option" where
  "undo_Rollback calls ub = ReverseIterateEntries (RollbackEntry calls) ub"

text \<open>The destructor of the cleanup state flushes.\<close>

definition undo_Cleanup ::
  "'c calls \<Rightarrow> transaction_t \<Rightarrow> undo_buffer \<Rightarrow> 'c database \<Rightarrow> ('c database \<times> version_error option) option" where
  "undo_Cleanup calls lowest ub db =
     map_option (\<lambda>(ds, it, err). (fst (cleanup_Flush calls ds), err))
       (IterateEntries (CleanupEntry calls) ub (db, CleanupState lowest))"

end
