(* ===== verification/StorageLock.thy ===== *)
theory StorageLock
  imports ChunkInfo
begin

text \<open>
  The checkpoint lock, \<open>storage/storage_lock.cpp\<close>: shared keys for transactions that write, an exclusive key
  for a checkpoint, and the upgrade that gives the only writer an exclusive key beside its shared one.
\<close>

section \<open>Operations\<close>

datatype storage_lock_type = SHARED | EXCLUSIVE

record storage_lock =
  exclusive_lock :: bool
  read_count :: nat

definition StorageLockInternals :: storage_lock where
  "StorageLockInternals = \<lparr>exclusive_lock = False, read_count = 0\<rparr>"

text \<open>
  An operation that waits for the mutex has the outcome \<open>None\<close> while another thread holds it.
  \<open>GetExclusiveLock\<close> first takes the mutex, then spins until all shared keys are released.
\<close>

definition exclusive_acquire :: "storage_lock \<Rightarrow> storage_lock option" where
  "exclusive_acquire l = (if exclusive_lock l then None else Some (l\<lparr>exclusive_lock := True\<rparr>))"

definition exclusive_spin :: "storage_lock \<Rightarrow> storage_lock_type option" where
  "exclusive_spin l = (if read_count l \<noteq> 0 then None else Some EXCLUSIVE)"

definition GetSharedLock :: "storage_lock \<Rightarrow> storage_lock option" where
  "GetSharedLock l = (if exclusive_lock l then None else Some (l\<lparr>read_count := read_count l + 1\<rparr>))"

text \<open>The operations that try have the outcome \<open>None\<close> where the code returns a null pointer.\<close>

definition TryGetExclusiveLock :: "storage_lock \<Rightarrow> storage_lock option" where
  "TryGetExclusiveLock l =
     (if exclusive_lock l then None
      else if read_count l \<noteq> 0 then None
      else Some (l\<lparr>exclusive_lock := True\<rparr>))"

definition TryUpgradeCheckpointLock :: "storage_lock_type \<Rightarrow> storage_lock \<Rightarrow> version_error + storage_lock option" where
  "TryUpgradeCheckpointLock key l =
     (if key \<noteq> SHARED then Inl InternalError
      else if exclusive_lock l then Inr None
      else if read_count l \<noteq> 1 then Inr None
      else Inr (Some (l\<lparr>exclusive_lock := True\<rparr>)))"

definition ReleaseExclusiveLock :: "storage_lock \<Rightarrow> storage_lock" where
  "ReleaseExclusiveLock l = l\<lparr>exclusive_lock := False\<rparr>"

definition ReleaseSharedLock :: "storage_lock \<Rightarrow> storage_lock" where
  "ReleaseSharedLock l = l\<lparr>read_count := read_count l - 1\<rparr>"

text \<open>The destructor of a key.\<close>

definition release_key :: "storage_lock_type \<Rightarrow> storage_lock \<Rightarrow> storage_lock" where
  "release_key key l = (if key = EXCLUSIVE then ReleaseExclusiveLock l else ReleaseSharedLock l)"

section \<open>Threads\<close>

text \<open>The lock with the owners of its shared keys, and who has the mutex and whether it has the key already.\<close>

datatype exclusive_stage = Waiting | Held

record lock_system =
  ls_lock :: storage_lock
  ls_shared :: "nat list"
  ls_exclusive :: "(nat \<times> exclusive_stage) option"

inductive lock_step :: "lock_system \<Rightarrow> lock_system \<Rightarrow> bool" where
  shared: "GetSharedLock (ls_lock s) = Some l \<Longrightarrow> lock_step s (s\<lparr>ls_lock := l, ls_shared := a # ls_shared s\<rparr>)"
| acquire: "exclusive_acquire (ls_lock s) = Some l \<Longrightarrow> lock_step s (s\<lparr>ls_lock := l, ls_exclusive := Some (a, Waiting)\<rparr>)"
| spin: "ls_exclusive s = Some (a, Waiting) \<Longrightarrow> exclusive_spin (ls_lock s) = Some EXCLUSIVE \<Longrightarrow>
    lock_step s (s\<lparr>ls_exclusive := Some (a, Held)\<rparr>)"
| try_lock: "TryGetExclusiveLock (ls_lock s) = Some l \<Longrightarrow> lock_step s (s\<lparr>ls_lock := l, ls_exclusive := Some (a, Held)\<rparr>)"
| upgrade: "a \<in> set (ls_shared s) \<Longrightarrow> TryUpgradeCheckpointLock SHARED (ls_lock s) = Inr (Some l) \<Longrightarrow>
    lock_step s (s\<lparr>ls_lock := l, ls_exclusive := Some (a, Held)\<rparr>)"
| release_shared: "a \<in> set (ls_shared s) \<Longrightarrow>
    lock_step s (s\<lparr>ls_lock := release_key SHARED (ls_lock s), ls_shared := remove1 a (ls_shared s)\<rparr>)"
| release_exclusive: "ls_exclusive s = Some (a, Held) \<Longrightarrow>
    lock_step s (s\<lparr>ls_lock := release_key EXCLUSIVE (ls_lock s), ls_exclusive := None\<rparr>)"

definition lock_start :: lock_system where
  "lock_start = \<lparr>ls_lock = StorageLockInternals, ls_shared = [], ls_exclusive = None\<rparr>"

text \<open>The shared keys beside a held exclusive key are those of its owner, at most one.\<close>

definition lock_inv :: "lock_system \<Rightarrow> bool" where
  "lock_inv s \<longleftrightarrow> read_count (ls_lock s) = length (ls_shared s)
     \<and> (exclusive_lock (ls_lock s) \<longleftrightarrow> ls_exclusive s \<noteq> None)
     \<and> (\<forall>a. ls_exclusive s = Some (a, Held) \<longrightarrow> ls_shared s = [] \<or> ls_shared s = [a])"

lemma lock_inv_start: "lock_inv lock_start"
  by (simp add: lock_inv_def lock_start_def StorageLockInternals_def)

lemmas lock_operations = GetSharedLock_def exclusive_acquire_def exclusive_spin_def TryGetExclusiveLock_def
  TryUpgradeCheckpointLock_def release_key_def ReleaseSharedLock_def ReleaseExclusiveLock_def

lemma only_key: "a \<in> set xs \<Longrightarrow> length xs = Suc 0 \<Longrightarrow> xs = [a]"
  by (cases xs) auto

lemma lock_step_inv:
  assumes "lock_step s s'" "lock_inv s"
  shows "lock_inv s'"
  using assms
proof (induction rule: lock_step.induct)
  case (release_shared a s)
  then show ?case
    by (auto simp: lock_inv_def lock_operations length_remove1 Suc_le_eq)
qed (auto simp: lock_inv_def lock_operations only_key split: if_splits)

lemma lock_reachable_inv: "lock_step\<^sup>*\<^sup>* lock_start s \<Longrightarrow> lock_inv s"
  by (induction rule: rtranclp_induct) (simp_all add: lock_inv_start lock_step_inv)

text \<open>
  The checkpoint lock excludes writers.  Whatever the threads do, while one of them has an exclusive
  key no other thread has a shared or an exclusive key; it may have a shared key itself, after an upgrade,
  and then exactly one.  Once it has released what it holds, everything can be acquired again.
\<close>

theorem checkpoint_lock_exclusive:
  assumes "lock_step\<^sup>*\<^sup>* lock_start s"
  shows "(ls_exclusive s = Some (a, Held) \<longrightarrow> (\<forall>b\<in>set (ls_shared s). b = a) \<and> length (ls_shared s) \<le> 1
      \<and> GetSharedLock (ls_lock s) = None \<and> exclusive_acquire (ls_lock s) = None \<and> TryGetExclusiveLock (ls_lock s) = None
      \<and> TryUpgradeCheckpointLock SHARED (ls_lock s) = Inr None)
    \<and> (ls_shared s = [] \<and> ls_exclusive s = None \<longrightarrow> TryGetExclusiveLock (ls_lock s) \<noteq> None \<and> GetSharedLock (ls_lock s) \<noteq> None)"
  using lock_reachable_inv [OF assms] by (auto simp: lock_inv_def lock_operations)

text \<open>Thread 3 writes, upgrades and checkpoints.\<close>

lemma lock_example:
  "lock_step\<^sup>*\<^sup>* lock_start \<lparr>ls_lock = \<lparr>exclusive_lock = True, read_count = 1\<rparr>, ls_shared = [3], ls_exclusive = Some (3, Held)\<rparr>"
proof -
  let ?s = "\<lparr>ls_lock = \<lparr>exclusive_lock = False, read_count = 1\<rparr>, ls_shared = [3], ls_exclusive = None\<rparr>"
  have "lock_step lock_start ?s"
    using lock_step.shared [of lock_start "ls_lock ?s" 3] by (simp add: lock_start_def StorageLockInternals_def lock_operations)
  moreover have "lock_step ?s \<lparr>ls_lock = \<lparr>exclusive_lock = True, read_count = 1\<rparr>, ls_shared = [3], ls_exclusive = Some (3, Held)\<rparr>"
    using lock_step.upgrade [of 3 ?s "\<lparr>exclusive_lock = True, read_count = 1\<rparr>"] by (simp add: lock_operations)
  ultimately show ?thesis by (meson converse_rtranclp_into_rtranclp rtranclp.rtrancl_refl)
qed

theorem checkpoint_lock_exclusive_witness:
  "GetSharedLock \<lparr>exclusive_lock = True, read_count = 1\<rparr> = None
   \<and> TryUpgradeCheckpointLock SHARED \<lparr>exclusive_lock = True, read_count = 1\<rparr> = Inr None"
  using checkpoint_lock_exclusive [OF lock_example, of 3] by simp

end
