(* ===== verification/TransactionManager.thy ===== *)
theory TransactionManager
  imports Transactions StorageLock
begin

text \<open>
  The transaction manager of a database, \<open>transaction/duck_transaction_manager.cpp\<close>, and the operations of
  a transaction it calls, \<open>duck_transaction.cpp\<close>: time stamps, commit and rollback, and which finished
  transactions are cleaned up when.
\<close>

section \<open>State\<close>

definition MAXIMUM_QUERY_ID :: transaction_t where
  "MAXIMUM_QUERY_ID = 0xFFFFFFFFFFFFFFFF"

record transaction =
  start_time :: transaction_t
  transaction_id :: transaction_t
  commit_id :: transaction_t
  highest_active_query :: transaction_t
  catalog_version :: u64
  awaiting_cleanup :: bool
  active_query :: transaction_t
  tx_is_read_only :: bool
  tx_undo_buffer :: undo_buffer
  write_lock :: bool

definition DuckTransaction :: "transaction_t \<Rightarrow> transaction_t \<Rightarrow> u64 \<Rightarrow> transaction" where
  "DuckTransaction start_time_p transaction_id_p catalog_version_p =
     \<lparr>start_time = start_time_p, transaction_id = transaction_id_p, commit_id = 0, highest_active_query = 0,
      catalog_version = catalog_version_p, awaiting_cleanup = False, active_query = MAXIMUM_QUERY_ID,
      tx_is_read_only = True, tx_undo_buffer = [], write_lock = False\<rparr>"

record cleanup_info =
  lowest_start_time :: transaction_t
  info_transactions :: "transaction list"

record 'c manager =
  current_start_timestamp :: transaction_t
  current_transaction_id :: transaction_t
  lowest_active_id :: transaction_t
  lowest_active_start :: transaction_t
  last_commit :: transaction_t
  active_transactions :: "transaction list"
  recently_committed_transactions :: "transaction list"
  old_transactions :: "transaction list"
  checkpoint_lock :: storage_lock
  last_uncommitted_catalog_version :: u64
  last_committed_version :: u64
  cleanup_queue :: "cleanup_info list"
  current_query_number :: transaction_t
  mgr_db :: "'c database"

datatype parent_entry = DELETED_ENTRY | INDEX_ENTRY nat | OTHER_ENTRY

text \<open>
  What the manager asks of the attached database, its storage manager and configuration, the transaction's
  local storage, and the write-ahead log.  An operation that throws returns its error.
\<close>

record 'c environment =
  env_calls :: "'c calls"
  is_system :: bool
  is_temporary :: bool
  db_read_only :: bool
  in_memory :: bool
  is_loaded :: bool
  skip_checkpoint :: bool
  has_wal :: bool
  wal_full :: "nat \<Rightarrow> bool"
  entry_parent :: "nat \<Rightarrow> 'c \<Rightarrow> parent_entry"
  local_changes :: "transaction_t \<Rightarrow> 'c \<Rightarrow> bool"
  local_size :: "transaction_t \<Rightarrow> 'c \<Rightarrow> nat"
  local_commit :: "transaction_t \<Rightarrow> undo_buffer \<Rightarrow> 'c database \<Rightarrow> (undo_buffer \<times> 'c database) \<times> version_error option"
  local_rollback :: "transaction_t \<Rightarrow> 'c database \<Rightarrow> 'c database \<times> version_error option"
  modified_error :: "transaction_t \<Rightarrow> 'c \<Rightarrow> version_error option"
  wal_write :: "transaction_t \<Rightarrow> undo_buffer \<Rightarrow> 'c database \<Rightarrow> 'c database \<times> version_error option"
  wal_revert :: "transaction_t \<Rightarrow> 'c database \<Rightarrow> 'c database"
  wal_flush :: "transaction_t \<Rightarrow> 'c database \<Rightarrow> 'c database \<times> version_error option"

text \<open>\<open>last_commit\<close> has no initial value in the code.\<close>

definition DuckTransactionManager :: "transaction_t \<Rightarrow> transaction_t \<Rightarrow> 'c database \<Rightarrow> 'c manager" where
  "DuckTransactionManager last_commit_p query_number db =
     \<lparr>current_start_timestamp = 2, current_transaction_id = TRANSACTION_ID_START,
      lowest_active_id = TRANSACTION_ID_START, lowest_active_start = MAX_TRANSACTION_ID, last_commit = last_commit_p,
      active_transactions = [], recently_committed_transactions = [], old_transactions = [],
      checkpoint_lock = StorageLockInternals, last_uncommitted_catalog_version = TRANSACTION_ID_START,
      last_committed_version = 0, cleanup_queue = [], current_query_number = query_number, mgr_db = db\<rparr>"

section \<open>Transactions\<close>

definition StartTransaction :: "'c manager \<Rightarrow> version_error + transaction_t \<times> 'c manager" where
  "StartTransaction m =
     (if TRANSACTION_ID_START \<le> current_start_timestamp m then Inl InternalError
      else let start = current_start_timestamp m;
               m1 = m\<lparr>current_start_timestamp := start + 1\<rparr>;
               tid = current_transaction_id m1;
               m2 = m1\<lparr>current_transaction_id := tid + 1\<rparr>;
               m3 = (if active_transactions m2 = [] then m2\<lparr>lowest_active_start := start, lowest_active_id := tid\<rparr> else m2);
               transaction = DuckTransaction start tid (last_committed_version m3)
           in Inr (tid, m3\<lparr>active_transactions := active_transactions m3 @ [transaction]\<rparr>))"

text \<open>A reference to a transaction is its id; \<open>None\<close> when it dangles.\<close>

definition active_transaction :: "transaction_t \<Rightarrow> 'c manager \<Rightarrow> transaction option" where
  "active_transaction tid m = find (\<lambda>t. transaction_id t = tid) (active_transactions m)"

definition update_transaction :: "transaction_t \<Rightarrow> (transaction \<Rightarrow> transaction) \<Rightarrow> 'c manager \<Rightarrow> 'c manager" where
  "update_transaction tid f m =
     m\<lparr>active_transactions := map (\<lambda>t. if transaction_id t = tid then f t else t) (active_transactions m)\<rparr>"

definition GetNewQueryNumber :: "'c manager \<Rightarrow> transaction_t \<times> 'c manager" where
  "GetNewQueryNumber m = (current_query_number m, m\<lparr>current_query_number := current_query_number m + 1\<rparr>)"

text \<open>The part of \<open>MetaTransaction::SetActiveQuery\<close> for the transaction in this database.\<close>

definition SetActiveQuery :: "transaction_t \<Rightarrow> transaction_t \<Rightarrow> 'c manager \<Rightarrow> 'c manager" where
  "SetActiveQuery tid query_number m = update_transaction tid (\<lambda>t. t\<lparr>active_query := query_number\<rparr>) m"

definition TransactionData :: "transaction \<Rightarrow> transaction_data" where
  "TransactionData t = \<lparr>td_transaction_id = transaction_id t, td_start_time = start_time t\<rparr>"

text \<open>The key a transaction drops when it is destroyed.\<close>

definition destroy_transaction :: "transaction \<Rightarrow> storage_lock \<Rightarrow> storage_lock" where
  "destroy_transaction t l = (if write_lock t then release_key SHARED l else l)"

text \<open>\<open>SetReadWrite\<close> waits while a checkpoint has the exclusive key; it is called once per transaction.\<close>

definition SetReadWrite :: "transaction_t \<Rightarrow> 'c manager \<Rightarrow> 'c manager option" where
  "SetReadWrite tid m =
     (case active_transaction tid m of
        None \<Rightarrow> None
      | Some t \<Rightarrow>
          if \<not> tx_is_read_only t then None
          else map_option (\<lambda>l. update_transaction tid (\<lambda>t. t\<lparr>tx_is_read_only := False, write_lock := True\<rparr>)
                             (m\<lparr>checkpoint_lock := destroy_transaction t l\<rparr>))
                 (GetSharedLock (checkpoint_lock m)))"

definition tx_ChangesMade :: "'c environment \<Rightarrow> transaction \<Rightarrow> 'c database \<Rightarrow> bool" where
  "tx_ChangesMade env t db \<longleftrightarrow> ChangesMade (tx_undo_buffer t) \<or> local_changes env (transaction_id t) (db_other db)"

definition PushCatalogEntry ::
  "'c environment \<Rightarrow> nat \<Rightarrow> transaction_t \<Rightarrow> nat \<Rightarrow> nat \<Rightarrow> 'c manager \<Rightarrow> (version_error + 'c manager) option" where
  "PushCatalogEntry env block_size tid entry extra_data_size m =
     (case active_transaction tid m of
        None \<Rightarrow> None
      | Some t \<Rightarrow>
          if \<not> is_system env \<and> \<not> is_temporary env \<and> tx_is_read_only t then Some (Inl InternalError)
          else let version = last_uncommitted_catalog_version m + 1;
                   alloc_size = (if 0 < extra_data_size then 8 + (extra_data_size + 8) else 8)
               in map_option (\<lambda>ub. Inr (update_transaction tid (\<lambda>t. t\<lparr>catalog_version := version, tx_undo_buffer := ub\<rparr>)
                                     (m\<lparr>last_uncommitted_catalog_version := version\<rparr>)))
                    (CreateEntry block_size (CATALOG_ENTRY entry) alloc_size (tx_undo_buffer t)))"

section \<open>Properties of the undo buffer\<close>

record undo_properties =
  estimated_size :: nat
  has_updates :: bool
  has_deletes :: bool
  has_index_deletes :: bool
  has_catalog_changes :: bool
  has_dropped_entries :: bool

definition UndoBufferProperties :: undo_properties where
  "UndoBufferProperties = \<lparr>estimated_size = 0, has_updates = False, has_deletes = False, has_index_deletes = False,
     has_catalog_changes = False, has_dropped_entries = False\<rparr>"

fun property_entry :: "'c environment \<Rightarrow> 'c \<Rightarrow> (undo_entry, undo_properties, version_error) callback" where
  "property_entry env c (UPDATE_TUPLE _) p = Some (p\<lparr>has_updates := True\<rparr>, None)"
| "property_entry env c (DELETE_TUPLE info) p =
     (let d = du_info (de_info info);
          p1 = (if di_is_consecutive d then p\<lparr>estimated_size := estimated_size p + 8 * di_count d\<rparr> else p);
          p2 = (if has_indexes (env_calls env) (de_table info) c then p1\<lparr>has_index_deletes := True\<rparr> else p1)
      in Some (p2\<lparr>has_deletes := True\<rparr>, None))"
| "property_entry env c (CATALOG_ENTRY e) p =
     (let p1 = p\<lparr>has_catalog_changes := True\<rparr>
      in Some (case entry_parent env e c of
                 DELETED_ENTRY \<Rightarrow> p1\<lparr>has_dropped_entries := True\<rparr>
               | INDEX_ENTRY initial_index_size \<Rightarrow> p1\<lparr>estimated_size := estimated_size p1 + initial_index_size\<rparr>
               | OTHER_ENTRY \<Rightarrow> p1, None))"
| "property_entry env c _ p = Some (p, None)"

definition GetProperties :: "'c environment \<Rightarrow> 'c \<Rightarrow> undo_buffer \<Rightarrow> undo_properties option" where
  "GetProperties env c ub =
     (if \<not> ChangesMade ub then Some UndoBufferProperties
      else map_option fst (IterateEntries (property_entry env c) ub
             (UndoBufferProperties\<lparr>estimated_size := sum_list (map blk_position ub)\<rparr>)))"

section \<open>Checkpoints\<close>

datatype checkpoint_type = FULL_CHECKPOINT | CONCURRENT_CHECKPOINT

text \<open>The reasons not to checkpoint, with the ids of the other active transactions.\<close>

datatype checkpoint_reason = SystemTransaction | InMemoryDb | WhileLoading | NoReason | DisabledByConfig | NoCheckpointLock
  | DroppedEntries "transaction_t list" | PerformedUpdates "transaction_t list" | CommitFailed version_error

datatype checkpoint_decision = NoCheckpoint checkpoint_reason | DoCheckpoint checkpoint_type

fun can_checkpoint :: "checkpoint_decision \<Rightarrow> bool" where
  "can_checkpoint (NoCheckpoint _) = False"
| "can_checkpoint (DoCheckpoint _) = True"

definition tx_AutomaticCheckpoint :: "'c environment \<Rightarrow> transaction \<Rightarrow> 'c database \<Rightarrow> undo_properties \<Rightarrow> bool" where
  "tx_AutomaticCheckpoint env t db p =
     (if \<not> tx_ChangesMade env t db then False
      else if db_read_only env then False
      else wal_full env (local_size env (transaction_id t) (db_other db) + estimated_size p))"

definition TryGetCheckpointLock :: "transaction \<Rightarrow> storage_lock \<Rightarrow> version_error + storage_lock option" where
  "TryGetCheckpointLock t l = (if \<not> write_lock t then Inl InternalError else TryUpgradeCheckpointLock SHARED l)"

text \<open>The last component of the outcome is whether \<open>lock\<close> holds a key.\<close>

definition CanCheckpoint ::
  "'c environment \<Rightarrow> transaction \<Rightarrow> undo_properties \<Rightarrow> 'c manager \<Rightarrow>
   version_error + (checkpoint_decision \<times> storage_lock \<times> bool)" where
  "CanCheckpoint env t p m =
     (let l = checkpoint_lock m
      in if is_system env then Inr (NoCheckpoint SystemTransaction, l, False)
         else if in_memory env then Inr (NoCheckpoint InMemoryDb, l, False)
         else if \<not> is_loaded env then Inr (NoCheckpoint WhileLoading, l, False)
         else if \<not> tx_AutomaticCheckpoint env t (mgr_db m) p then Inr (NoCheckpoint NoReason, l, False)
         else if skip_checkpoint env then Inr (NoCheckpoint DisabledByConfig, l, False)
         else case TryGetCheckpointLock t l of
                Inl e \<Rightarrow> Inl e
              | Inr None \<Rightarrow> Inr (NoCheckpoint NoCheckpointLock, l, False)
              | Inr (Some l') \<Rightarrow>
                  let others = filter (\<lambda>tid. tid \<noteq> transaction_id t) (map transaction_id (active_transactions m))
                  in if (has_updates p \<or> has_deletes p \<or> has_dropped_entries p) \<and> others \<noteq> []
                     then if has_dropped_entries p then Inr (NoCheckpoint (DroppedEntries others), l', True)
                          else if has_updates p then Inr (NoCheckpoint (PerformedUpdates others), l', True)
                          else Inr (DoCheckpoint CONCURRENT_CHECKPOINT, l', True)
                     else Inr (DoCheckpoint FULL_CHECKPOINT, l', True))"

text \<open>
  \<open>Checkpoint\<close>: the checks before the lock, one attempt to get it, and the kind of checkpoint made with it.
  A forced checkpoint repeats the attempt until it succeeds or the query is interrupted.
\<close>

definition Checkpoint_check :: "'c environment \<Rightarrow> transaction option \<Rightarrow> bool \<Rightarrow> 'c database \<Rightarrow> version_error option" where
  "Checkpoint_check env current force db =
     (case current of
        None \<Rightarrow> None
      | Some t \<Rightarrow> if force then Some TransactionConflict
                  else if tx_ChangesMade env t db then Some TransactionConflict else None)"

text \<open>\<open>None\<close>: try again.\<close>

definition Checkpoint_attempt :: "bool \<Rightarrow> bool \<Rightarrow> storage_lock \<Rightarrow> (version_error + storage_lock) option" where
  "Checkpoint_attempt force interrupted l =
     (if force \<and> interrupted then Some (Inl TransactionConflict)
      else case TryGetExclusiveLock l of
             Some l' \<Rightarrow> Some (Inr l')
           | None \<Rightarrow> if force then None else Some (Inl TransactionConflict))"

definition Checkpoint_type :: "'c manager \<Rightarrow> checkpoint_type" where
  "Checkpoint_type m = (if last_commit m > lowest_active_start m then CONCURRENT_CHECKPOINT else FULL_CHECKPOINT)"

section \<open>Removal of a finished transaction\<close>

text \<open>The loop over the active transactions: the index of the transaction and the lowest ids of the others.\<close>

record active_scan =
  t_index :: nat
  scan_start_time :: transaction_t
  scan_transaction_id :: transaction_t
  scan_active_query :: transaction_t

fun scan_active :: "transaction_t \<Rightarrow> nat \<Rightarrow> transaction list \<Rightarrow> active_scan \<Rightarrow> active_scan" where
  "scan_active tid i [] s = s"
| "scan_active tid i (t # ts) s =
     (if transaction_id t = tid then scan_active tid (i + 1) ts (s\<lparr>t_index := i\<rparr>)
      else scan_active tid (i + 1) ts
        (s\<lparr>scan_start_time := min (scan_start_time s) (start_time t),
           scan_transaction_id := min (scan_transaction_id s) (transaction_id t),
           scan_active_query := min (scan_active_query s) (active_query t)\<rparr>))"

text \<open>The loop over the recently committed transactions: those that stay and those that move.\<close>

fun move_committed :: "transaction_t \<Rightarrow> transaction_t \<Rightarrow> transaction list \<Rightarrow> transaction list \<times> transaction list" where
  "move_committed lowest query [] = ([], [])"
| "move_committed lowest query (t # ts) =
     (if lowest \<le> commit_id t then (t # ts, [])
      else let (stay, moved) = move_committed lowest query ts
           in (stay, t\<lparr>awaiting_cleanup := True, highest_active_query := query\<rparr> # moved))"

fun count_collectable :: "transaction_t \<Rightarrow> transaction list \<Rightarrow> nat" where
  "count_collectable lowest_query [] = 0"
| "count_collectable lowest_query (t # ts) =
     (if lowest_query \<le> highest_active_query t then 0 else Suc (count_collectable lowest_query ts))"

text \<open>Where the transaction goes: recently committed, old, or directly to the cleanup.\<close>

definition place_transaction ::
  "'c environment \<Rightarrow> bool \<Rightarrow> transaction \<Rightarrow> 'c manager \<Rightarrow> transaction list \<times> 'c manager" where
  "place_transaction env store_transaction t m =
     (if store_transaction
      then if commit_id t \<noteq> 0
           then ([], m\<lparr>recently_committed_transactions := recently_committed_transactions m @ [t]\<rparr>)
           else ([], m\<lparr>old_transactions := old_transactions m @ [t\<lparr>highest_active_query := current_query_number m\<rparr>]\<rparr>)
      else if tx_ChangesMade env t (mgr_db m) then ([t\<lparr>awaiting_cleanup := True\<rparr>], m)
      else ([], m\<lparr>checkpoint_lock := destroy_transaction t (checkpoint_lock m)\<rparr>))"

definition RemoveTransaction ::
  "'c environment \<Rightarrow> transaction_t \<Rightarrow> bool \<Rightarrow> 'c manager \<Rightarrow> (cleanup_info \<times> 'c manager) option" where
  "RemoveTransaction env tid store_transaction m =
     (let active = active_transactions m;
          s = scan_active tid 0 active \<lparr>t_index = length active, scan_start_time = TRANSACTION_ID_START,
                scan_transaction_id = MAX_TRANSACTION_ID, scan_active_query = MAXIMUM_QUERY_ID\<rparr>;
          m1 = m\<lparr>lowest_active_start := scan_start_time s, lowest_active_id := scan_transaction_id s\<rparr>
      in if t_index s = length active then None
         else let (scheduled, m2) = place_transaction env store_transaction (active ! t_index s) m1;
                  active' = take (t_index s) active @ drop (Suc (t_index s)) active;
                  (stay, moved) = move_committed (scan_start_time s) (current_query_number m)
                    (recently_committed_transactions m2);
                  old = old_transactions m2 @ moved;
                  i = (if active' = [] then length old else count_collectable (scan_active_query s) old)
              in Some (\<lparr>lowest_start_time = scan_start_time s, info_transactions = scheduled @ take i old\<rparr>,
                       m2\<lparr>active_transactions := active', recently_committed_transactions := stay,
                          old_transactions := drop i old\<rparr>))"

definition ScheduleCleanup :: "cleanup_info \<Rightarrow> bool" where
  "ScheduleCleanup info \<longleftrightarrow> info_transactions info \<noteq> []"

definition enqueue_cleanup :: "cleanup_info \<times> 'c manager \<Rightarrow> 'c manager" where
  "enqueue_cleanup im =
     (let (info, m) = im in if ScheduleCleanup info then m\<lparr>cleanup_queue := cleanup_queue m @ [info]\<rparr> else m)"

text \<open>The cleanup of one transaction; an exception ends the process, as the function is \<open>noexcept\<close>.\<close>

fun cleanup_transactions ::
  "'c environment \<Rightarrow> transaction_t \<Rightarrow> transaction list \<Rightarrow> 'c database \<Rightarrow> 'c database option" where
  "cleanup_transactions env lowest [] db = Some db"
| "cleanup_transactions env lowest (t # ts) db =
     (if awaiting_cleanup t
      then case undo_Cleanup (env_calls env) lowest (tx_undo_buffer t) db of
             Some (db', None) \<Rightarrow> cleanup_transactions env lowest ts db'
           | _ \<Rightarrow> None
      else cleanup_transactions env lowest ts db)"

definition info_Cleanup :: "'c environment \<Rightarrow> cleanup_info \<Rightarrow> 'c database \<Rightarrow> 'c database option" where
  "info_Cleanup env info db = cleanup_transactions env (lowest_start_time info) (info_transactions info) db"

text \<open>The first entry of the queue is cleaned up and its transactions are destroyed.\<close>

definition cleanup_next :: "'c environment \<Rightarrow> 'c manager \<Rightarrow> 'c manager option" where
  "cleanup_next env m =
     (case cleanup_queue m of
        [] \<Rightarrow> Some m
      | info # rest \<Rightarrow>
          map_option (\<lambda>db. m\<lparr>cleanup_queue := rest, mgr_db := db,
                              checkpoint_lock := fold destroy_transaction (info_transactions info) (checkpoint_lock m)\<rparr>)
            (info_Cleanup env info (mgr_db m)))"

section \<open>Commit\<close>

definition ShouldWriteToWAL :: "'c environment \<Rightarrow> transaction \<Rightarrow> 'c database \<Rightarrow> bool" where
  "ShouldWriteToWAL env t db \<longleftrightarrow>
     (if \<not> tx_ChangesMade env t db then False else if is_system env then False else if \<not> has_wal env then False else True)"

text \<open>The last component of the outcome is whether there is a commit state.\<close>

definition WriteToWAL ::
  "'c environment \<Rightarrow> transaction \<Rightarrow> 'c database \<Rightarrow> transaction \<times> 'c database \<times> version_error option \<times> bool" where
  "WriteToWAL env t db =
     (let ((ub, db1), err1) = local_commit env (transaction_id t) (tx_undo_buffer t) db;
          (db2, err2) = (case err1 of None \<Rightarrow> wal_write env (transaction_id t) ub db1 | Some e \<Rightarrow> (db1, Some e));
          t' = t\<lparr>tx_undo_buffer := ub\<rparr>
      in case err2 of
           None \<Rightarrow> (t', db2, None, True)
         | Some e \<Rightarrow> (t', wal_revert env (transaction_id t) db2, Some e, False))"

text \<open>What the handler of \<open>Commit\<close> does; an exception in it ends the process.\<close>

definition revert_commit ::
  "'c environment \<Rightarrow> bool \<Rightarrow> iterator_state \<Rightarrow> transaction \<Rightarrow> version_error \<Rightarrow> 'c database \<Rightarrow>
   (transaction \<times> 'c database \<times> version_error option) option" where
  "revert_commit env commit_state it t e db =
     (case undo_RevertCommit (env_calls env) it (transaction_id t) (tx_undo_buffer t) db of
        Some (db', None) \<Rightarrow> Some (t, if commit_state then wal_revert env (transaction_id t) db' else db', Some e)
      | _ \<Rightarrow> None)"

definition tx_Commit ::
  "'c environment \<Rightarrow> transaction_t \<Rightarrow> bool \<Rightarrow> transaction \<Rightarrow> 'c database \<Rightarrow>
   (transaction \<times> 'c database \<times> version_error option) option" where
  "tx_Commit env new_commit_id commit_state tx db =
     (let t = tx\<lparr>commit_id := new_commit_id\<rparr>; tid = transaction_id t
      in if \<not> tx_ChangesMade env t db then Some (t, db, None)
         else case modified_error env tid (db_other db) of
           Some e \<Rightarrow> Some (t, db, Some e)
         | None \<Rightarrow>
             let ((ub, db1), err) = local_commit env tid (tx_undo_buffer t) db;
                 t1 = t\<lparr>tx_undo_buffer := ub\<rparr>
             in case err of
                  Some e \<Rightarrow> revert_commit env commit_state \<lparr>it_current = None, it_start = 0\<rparr> t1 e db1
                | None \<Rightarrow>
                    (case undo_Commit (env_calls env) (start_time t1) new_commit_id ub db1 of
                       None \<Rightarrow> None
                     | Some (db2, it, Some e) \<Rightarrow> revert_commit env commit_state it t1 e db2
                     | Some (db2, it, None) \<Rightarrow>
                         if commit_state
                         then case wal_flush env tid db2 of
                                (db3, Some e) \<Rightarrow> revert_commit env commit_state it t1 e db3
                              | (db3, None) \<Rightarrow> Some (t1, db3, None)
                         else Some (t1, db2, None)))"

definition tx_Rollback :: "'c environment \<Rightarrow> transaction \<Rightarrow> 'c database \<Rightarrow> ('c database \<times> version_error option) option" where
  "tx_Rollback env t db =
     (case local_rollback env (transaction_id t) db of
        (db1, Some e) \<Rightarrow> Some (db1, Some e)
      | (db1, None) \<Rightarrow> undo_Rollback (env_calls env) (tx_undo_buffer t) db1)"

definition GetCommitTimestamp :: "'c manager \<Rightarrow> transaction_t \<times> 'c manager" where
  "GetCommitTimestamp m =
     (let commit_ts = current_start_timestamp m
      in (commit_ts, m\<lparr>current_start_timestamp := commit_ts + 1, last_commit := commit_ts\<rparr>))"

text \<open>
  \<open>CommitTransaction\<close> up to the write-ahead log.  The outcome keeps the local variables: the undo
  properties, the decision, whether \<open>lock\<close> holds a key, and whether the log is to be written.
\<close>

record commit_locals =
  cl_properties :: undo_properties
  cl_decision :: checkpoint_decision
  cl_lock :: bool
  cl_write_wal :: bool

definition commit_begin ::
  "'c environment \<Rightarrow> transaction_t \<Rightarrow> 'c manager \<Rightarrow> (version_error + commit_locals \<times> 'c manager) option" where
  "commit_begin env tid m =
     (case active_transaction tid m of
        None \<Rightarrow> None
      | Some t \<Rightarrow>
          if \<not> is_system env \<and> \<not> is_temporary env \<and> tx_ChangesMade env t (mgr_db m) \<and> tx_is_read_only t
          then Some (Inl InternalError)
          else case GetProperties env (db_other (mgr_db m)) (tx_undo_buffer t) of
                 None \<Rightarrow> None
               | Some p \<Rightarrow>
                   (case CanCheckpoint env t p m of
                      Inl e \<Rightarrow> Some (Inl e)
                    | Inr (decision, l, locked) \<Rightarrow>
                        let wal = (\<not> can_checkpoint decision \<and> ShouldWriteToWAL env t (mgr_db m))
                        in if wal \<and> \<not> write_lock t then Some (Inl InternalError)
                           else Some (Inr (\<lparr>cl_properties = p, cl_decision = decision, cl_lock = locked, cl_write_wal = wal\<rparr>,
                                           m\<lparr>checkpoint_lock := l\<rparr>))))"

text \<open>The write-ahead log, written without the transaction lock.\<close>

definition commit_wal ::
  "'c environment \<Rightarrow> transaction_t \<Rightarrow> 'c manager \<Rightarrow> (version_error option \<times> bool \<times> 'c manager) option" where
  "commit_wal env tid m =
     (case active_transaction tid m of
        None \<Rightarrow> None
      | Some t \<Rightarrow>
          let (t', db, err, commit_state) = WriteToWAL env t (mgr_db m)
          in Some (err, commit_state, update_transaction tid (\<lambda>_. t') (m\<lparr>mgr_db := db\<rparr>)))"

text \<open>A failed rollback is a fatal error: \<open>Inl\<close>.  The outcome is the error of the commit and the decision.\<close>

definition commit_undo ::
  "'c environment \<Rightarrow> transaction_t \<Rightarrow> version_error option \<Rightarrow> bool \<Rightarrow> transaction \<Rightarrow> 'c manager \<Rightarrow>
   (version_error + version_error option \<times> 'c manager) option" where
  "commit_undo env new_commit_id err commit_state t m =
     (let tid = transaction_id t in
      case (case err of None \<Rightarrow> tx_Commit env new_commit_id commit_state t (mgr_db m) | Some e \<Rightarrow> Some (t, mgr_db m, Some e)) of
        None \<Rightarrow> None
      | Some (t1, db1, Some e) \<Rightarrow>
          let t2 = t1\<lparr>commit_id := 0\<rparr>
          in (case tx_Rollback env t2 db1 of
                None \<Rightarrow> None
              | Some (db2, Some e') \<Rightarrow> Some (Inl e')
              | Some (db2, None) \<Rightarrow> Some (Inr (Some e, update_transaction tid (\<lambda>_. t2) (m\<lparr>mgr_db := db2\<rparr>))))
      | Some (t1, db1, None) \<Rightarrow>
          if TRANSACTION_ID_START \<le> catalog_version t1
          then let version = last_committed_version m + 1
               in Some (Inr (None, update_transaction tid (\<lambda>_. t1\<lparr>catalog_version := version\<rparr>)
                                     (m\<lparr>mgr_db := db1, last_committed_version := version\<rparr>)))
          else Some (Inr (None, update_transaction tid (\<lambda>_. t1) (m\<lparr>mgr_db := db1\<rparr>))))"

definition commit_finish ::
  "'c environment \<Rightarrow> transaction_t \<Rightarrow> commit_locals \<Rightarrow> version_error option \<Rightarrow> bool \<Rightarrow> 'c manager \<Rightarrow>
   (version_error + version_error option \<times> checkpoint_decision \<times> 'c manager) option" where
  "commit_finish env tid v err commit_state m =
     (case active_transaction tid m of
        None \<Rightarrow> None
      | Some t \<Rightarrow>
          let (new_commit_id, m1) = GetCommitTimestamp m in
          case commit_undo env new_commit_id err commit_state t m1 of
            None \<Rightarrow> None
          | Some (Inl e) \<Rightarrow> Some (Inl e)
          | Some (Inr (error, m2)) \<Rightarrow>
              let decision = (case error of None \<Rightarrow> cl_decision v | Some e \<Rightarrow> NoCheckpoint (CommitFailed e));
                  m3 = (if \<not> can_checkpoint decision \<and> cl_lock v
                        then m2\<lparr>checkpoint_lock := release_key EXCLUSIVE (checkpoint_lock m2)\<rparr> else m2);
                  store_transaction = (has_updates (cl_properties v) \<or> has_index_deletes (cl_properties v)
                    \<or> has_catalog_changes (cl_properties v) \<or> error \<noteq> None)
              in map_option (\<lambda>im. Inr (error, decision, enqueue_cleanup im))
                   (RemoveTransaction env tid store_transaction m3))"

section \<open>Rollback\<close>

text \<open>The outcome has the error, thrown as a fatal one after the cleanup.\<close>

definition rollback_finish ::
  "'c environment \<Rightarrow> transaction_t \<Rightarrow> 'c manager \<Rightarrow> (version_error option \<times> 'c manager) option" where
  "rollback_finish env tid m =
     (case active_transaction tid m of
        None \<Rightarrow> None
      | Some t \<Rightarrow>
          (case tx_Rollback env t (mgr_db m) of
             None \<Rightarrow> None
           | Some (db, err) \<Rightarrow>
               map_option (\<lambda>im. (err, enqueue_cleanup im))
                 (RemoveTransaction env tid (tx_ChangesMade env t db) (m\<lparr>mgr_db := db\<rparr>))))"


end
