(* ===== verification/TransactionEffects.thy ===== *)
theory TransactionEffects
  imports Transactions
begin

text \<open>
  Commit and rollback of a transaction as substitutions in the row versions of all tables: the undo
  buffer names the rows the transaction inserted and deleted, and the loops over it replace its id there
  by the commit id, put it back, or remove it.
\<close>

section \<open>One table\<close>

abbreviation versions :: "'c database \<Rightarrow> nat \<Rightarrow> row_version list" where
  "versions db t \<equiv> coll_rows (db_tables db t)"

text \<open>A table whose row groups are loaded, and the version information an undo entry points to.\<close>

definition table_ok :: "row_group_collection \<Rightarrow> bool" where
  "table_ok c \<longleftrightarrow> coll_wf c \<and> row_start c = 0 \<and> finished_loading (row_groups c)"

definition points_to :: "row_group_collection \<Rightarrow> delete_undo \<Rightarrow> bool" where
  "points_to c u \<longleftrightarrow> undo_located (extents c) u
     \<and> attached (groups c ! du_version_info u) \<and> no_dropped (groups c ! du_version_info u)"

lemma table_shape: "table_ok c \<Longrightarrow> tree_shape (row_groups c)"
  by (simp add: table_ok_def coll_wf_def tree_wf_def tree_shape_def)

lemma table_length: "table_ok c \<Longrightarrow> length (coll_rows c) = total_rows c"
  by (simp add: table_ok_def length_coll_rows)

lemma upd_points_to:
  assumes "list_all2 (group_upd G Q) (groups c) (groups c')" "points_to c u"
  shows "points_to c' u"
proof -
  have l: "length (groups c') = length (groups c)"
    and u: "\<And>k. k < length (groups c) \<Longrightarrow> group_upd G Q (groups c ! k) (groups c' ! k)"
    using assms(1) by (simp_all add: list_all2_conv_all_nth)
  have "extents c' = extents c" using l u by (intro nth_equalityI) (auto simp: extents_def group_upd_def)
  moreover have "du_version_info u < length (groups c)" using assms(2) by (simp add: points_to_def undo_located_def extents_def)
  ultimately show ?thesis using assms(2) u [of "du_version_info u"] by (simp add: points_to_def group_upd_def)
qed

lemma rvm_CommitDelete_not_dropped:
  assumes "not_dropped (info_at (vector_info m) w)"
  shows "not_dropped (info_at (vector_info (rvm_CommitDelete m v z d)) w)"
proof -
  obtain m1 ci where g: "GetVectorInfo (m\<lparr>has_changes := True\<rparr>) v = (m1, ci)" by fastforce
  note i = GetVectorInfo_infos [OF g]
  show ?thesis using assms info_at_upd [OF i(1)] i(2) [of w]
    by (cases "w = v") (simp_all add: rvm_CommitDelete_def g put_info_def)
qed

lemma version_CommitDelete_ok:
  assumes ok: "table_ok c" and u: "points_to c u" and ne: "undo_rows u \<noteq> []"
    and del: "\<And>r. r \<in> set (undo_rows u) \<Longrightarrow> snd (coll_rows c ! r) \<noteq> NOT_DELETED_ID"
  shows "\<exists>c'. version_CommitDelete z u c = Some (Inr c') \<and> table_ok c' \<and> total_rows c' = total_rows c
    \<and> (\<forall>w. points_to c w \<longrightarrow> points_to c' w)
    \<and> (\<forall>j < total_rows c. coll_rows c' ! j =
         (if j \<in> set (undo_rows u) then (fst (coll_rows c ! j), z) else coll_rows c ! j))"
proof -
  let ?t = "row_groups c" and ?k = "du_version_info u" and ?d = "du_info u" and ?S = STANDARD_VECTOR_SIZE
  let ?v = "di_vector_idx ?d" and ?G = "row_group_size c"
  have wf: "coll_wf c" and base: "row_start c = 0" and fin: "finished_loading ?t" using ok by (simp_all add: table_ok_def)
  have c: "tree_wf 0 ?t" "contiguous 0 (groups c)" "\<forall>g\<in>set (groups c). group_wf ?G g" "valid_size ?G"
    "total_rows c = rows_end 0 (groups c)"
    using wf base by (simp_all add: coll_wf_def tree_wf_def)
  have k: "?k < length (groups c)" using u by (simp add: points_to_def undo_located_def extents_def)
  have kn: "?k < length (nodes ?t)" using k shape_nth(1) [OF table_shape [OF ok]] by simp
  define g where "g = snd (nodes ?t ! ?k)"
  have gk: "groups c ! ?k = unlinked g" using segments_nth [OF kn] by (simp add: g_def)
  have l: "du_base_row u = sg_start g + ?v * ?S"
    "\<And>i. i \<in> set (delete_rows ?d) \<Longrightarrow> i < ?S \<and> ?v * ?S + i < sg_count g"
    using u k by (simp_all add: points_to_def undo_located_def extents_def located_def gk)
  have mem: "unlinked g \<in> set (groups c)" using nth_mem [OF k] by (simp add: gk)
  have gw: "group_wf ?G g" using c(3) mem by (metis group_unlinked(2))
  have at: "attached g" "no_dropped g" using u by (simp_all add: points_to_def gk)
  let ?m = "loaded_manager g" and ?n = "sg_count g"
  have m: "rvm_wf ?n ?m" "\<forall>r\<ge>?n. snd (row_version_at ?m r) = NOT_DELETED_ID" "?n \<le> ?G" using gw by (simp_all add: group_wf_def)
  have row: "coll_rows c ! (sg_start g + r) = row_version_at ?m r" if "r < ?n" for r
    using coll_row_nth [OF wf mem, of "sg_start g + r"] that base by (simp add: holds_row_def group_rows_nth)
  have ver: "snd (row_version_at ?m (?v * ?S + i)) \<noteq> NOT_DELETED_ID" if i: "i \<in> set (delete_rows ?d)" for i
  proof -
    have "sg_start g + (?v * ?S + i) \<in> set (undo_rows u)" using i by (simp add: undo_rows_def l(1) add.assoc)
    from del [OF this] show ?thesis using row [of "?v * ?S + i"] l(2) [OF i] by simp
  qed
  have "delete_rows ?d \<noteq> []" using ne by (simp add: undo_rows_def)
  then have i: "hd (delete_rows ?d) \<in> set (delete_rows ?d)" by (rule list.set_sel(1))
  let ?i = "hd (delete_rows ?d)"
  have "row_version_at ?m (?v * ?S + ?i) = chunk_version (info_at (vector_info ?m) ?v) ?i"
    using version_in_vector [of ?i] l(2) [OF i] by (simp add: row_version_at_def)
  then have cv: "snd (chunk_version (info_at (vector_info ?m) ?v) ?i) \<noteq> NOT_DELETED_ID" using ver [OF i] by simp
  have nd: "not_dropped (info_at (vector_info ?m) ?v)" using at(2) by (simp add: no_dropped_def)
  obtain ci where ci: "info_at (vector_info ?m) ?v = Some (VECTOR_INFO ci)"
    using cv nd by (cases "info_at (vector_info ?m) ?v" rule: not_dropped.cases) auto
  have "info_wf ?n ?v (Some (VECTOR_INFO ci))" using m(1) ci by (metis rvm_wf_def)
  then have any: "any_deleted ci" using cv ci by (auto simp: cv_wf_def any_deleted_wf_def)
  let ?m' = "rvm_CommitDelete ?m ?v z ?d"
  note marks = CommitDelete_marks_aux [OF m(1) ci any, of z ?d]
  define g' where "g' = SetVersionInfo (Some ?m') g"
  have vinfo: "version_info (sg_data g) = Some ?m" "\<not> HasUnloadedDeletes g" using at(1) by (simp_all add: attached_def)
  note g' = manager_set [OF vinfo(2), of ?m', folded g'_def]
  have img: "r div ?S = ?v \<and> r mod ?S \<in> set (delete_rows ?d) \<longleftrightarrow> sg_start g + r \<in> set (undo_rows u)" for r
  proof
    assume "r div ?S = ?v \<and> r mod ?S \<in> set (delete_rows ?d)"
    then have "r mod ?S \<in> set (delete_rows ?d)" "r = ?v * ?S + r mod ?S" using div_mult_mod_eq [of r ?S] by simp_all
    then have "r mod ?S \<in> set (delete_rows ?d)" "sg_start g + r = du_base_row u + r mod ?S" unfolding l(1) by linarith+
    then show "sg_start g + r \<in> set (undo_rows u)" by (simp add: undo_rows_def)
  next
    assume "sg_start g + r \<in> set (undo_rows u)"
    then obtain k where k: "k \<in> set (delete_rows ?d)" "r = ?v * ?S + k" by (auto simp: undo_rows_def l(1))
    moreover have "k < ?S" using l(2) [OF k(1)] by simp
    moreover from this have "?S \<noteq> 0" by linarith
    ultimately show "r div ?S = ?v \<and> r mod ?S \<in> set (delete_rows ?d)" by simp
  qed
  have gv: "row_version_at ?m' r = (if sg_start g + r \<in> set (undo_rows u) then (fst (row_version_at ?m r), z) else row_version_at ?m r)" for r
    using marks img [of r] by simp
  let ?t' = "put_group ?k g' ?t" and ?g' = "unlinked g'"
  let ?Q = "\<lambda>r v v'. v' = (if r \<in> set (undo_rows u) then (fst v, z) else v)"
  let ?c = "c\<lparr>row_groups := ?t'\<rparr>"
  have ext: "sg_start g' = sg_start g" "sg_count g' = sg_count g" using g'(3) by (simp_all add: same_extent_def)
  have inb: "r < ?n" if "sg_start g + r \<in> set (undo_rows u)" for r
    using that l(2) by (auto simp: undo_rows_def l(1) add.assoc)
  have "snd (row_version_at ?m' r) = NOT_DELETED_ID" if "?n \<le> r" for r
    using that m(2) inb [of r] unfolding gv by (cases "sg_start g + r \<in> set (undo_rows u)") simp_all
  then have gw': "group_wf ?G g'" using m(3) conjunct1 [OF marks] g'(1,2) ext(2) by (simp add: group_wf_def)
  have segs: "segments ?t' = (groups c)[?k := ?g']" using put_segments(1) [OF kn] by simp
  have twf: "tree_wf 0 ?t'" using put_wf [OF c(1) kn] g'(3) by (simp add: g_def)
  have "group_upd ?G ?Q (groups c ! j) (segments ?t' ! j)" if j: "j < length (groups c)" for j
  proof (cases "j = ?k")
    case True
    have "no_dropped g'" using at(2) rvm_CommitDelete_not_dropped by (simp add: no_dropped_def g'(2))
    then have "group_upd ?G ?Q (unlinked g) ?g'"
      using gw' ext g'(2,4) gv by (simp add: group_upd_def group_rows_nth)
    then show ?thesis using True k by (simp add: segs gk)
  next
    case False
    have "sg_start (groups c ! j) + r \<notin> set (undo_rows u)" if r: "r < sg_count (groups c ! j)" for r
    proof
      assume a: "sg_start (groups c ! j) + r \<in> set (undo_rows u)"
      then obtain i where i: "i \<in> set (delete_rows ?d)" "sg_start (groups c ! j) + r = sg_start g + (?v * ?S + i)"
        by (auto simp: undo_rows_def l(1))
      have "holds_row (groups c ! ?k) (sg_start (groups c ! j) + r)" using l(2) [OF i(1)] by (simp add: holds_row_def gk i(2))
      moreover have "holds_row (groups c ! j) (sg_start (groups c ! j) + r)" using r by (simp add: holds_row_def)
      ultimately show False using holds_row_unique [OF c(2) k j] False by blast
    qed
    moreover have "group_wf ?G (groups c ! j)" using c(3) nth_mem [OF j] by blast
    ultimately show ?thesis using False j by (simp add: segs group_upd_def)
  qed
  then have upd: "list_all2 (group_upd ?G ?Q) (groups c) (groups ?c)" by (simp add: list_all2_conv_all_nth segs)
  note rows = group_upd_rows [OF upd c(2)]
  have cwf: "coll_wf ?c"
    using rows twf c(4,5) base rows_end_length [of 0 "groups ?c"] rows_end_length [of 0 "groups c"] by (simp add: coll_wf_def)
  have "finished_loading ?t'" using fin by (simp add: put_group_def)
  then have "table_ok ?c" using cwf base by (simp add: table_ok_def)
  moreover have "version_CommitDelete z u c = Some (Inr ?c)"
    using kn vinfo(1) by (simp add: version_CommitDelete_def Let_def g_def g'_def)
  moreover have "\<forall>j < total_rows c. coll_rows ?c ! j = (if j \<in> set (undo_rows u) then (fst (coll_rows c ! j), z) else coll_rows c ! j)"
    using rows length_coll_rows [OF wf] by (simp add: coll_rows_def)
  ultimately show ?thesis using upd_points_to [OF upd] by (intro exI [of _ ?c]) simp
qed

section \<open>What the undo buffer says\<close>

text \<open>The tables with appended rows, and the rows deleted, in the order of the entries.\<close>

definition inserted_tables :: "undo_entry list \<Rightarrow> nat list" where
  "inserted_tables es = concat (map (\<lambda>e. case e of INSERT_TUPLE a \<Rightarrow> [ai_table a] | _ \<Rightarrow> []) es)"

definition deleted_rows :: "undo_entry list \<Rightarrow> (nat \<times> nat) list" where
  "deleted_rows es = concat (map (\<lambda>e. case e of DELETE_TUPLE d \<Rightarrow> map (Pair (de_table d)) (undo_rows (de_info d)) | _ \<Rightarrow> []) es)"

lemma undo_lists [simp]:
  "inserted_tables [] = []" "deleted_rows [] = []"
  "inserted_tables (es @ es') = inserted_tables es @ inserted_tables es'"
  "deleted_rows (es @ es') = deleted_rows es @ deleted_rows es'"
  "inserted_tables (INSERT_TUPLE a # es) = ai_table a # inserted_tables es"
  "inserted_tables (CATALOG_ENTRY p # es) = inserted_tables es" "inserted_tables (DELETE_TUPLE d # es) = inserted_tables es"
  "inserted_tables (UPDATE_TUPLE p # es) = inserted_tables es" "inserted_tables (SEQUENCE_VALUE p # es) = inserted_tables es"
  "inserted_tables (EMPTY_ENTRY # es) = inserted_tables es"
  "deleted_rows (DELETE_TUPLE d # es) = map (Pair (de_table d)) (undo_rows (de_info d)) @ deleted_rows es"
  "deleted_rows (CATALOG_ENTRY p # es) = deleted_rows es" "deleted_rows (INSERT_TUPLE a # es) = deleted_rows es"
  "deleted_rows (UPDATE_TUPLE p # es) = deleted_rows es" "deleted_rows (SEQUENCE_VALUE p # es) = deleted_rows es"
  "deleted_rows (EMPTY_ENTRY # es) = deleted_rows es"
  by (simp_all add: inserted_tables_def deleted_rows_def)

lemma undo_lists_rev [simp]: "set (inserted_tables (rev es)) = set (inserted_tables es)"
  "set (deleted_rows (rev es)) = set (deleted_rows es)"
  by (auto simp: inserted_tables_def deleted_rows_def)

lemma distinct_deleted_rev: "distinct (deleted_rows es) \<Longrightarrow> distinct (deleted_rows (rev es))"
proof (induction es)
  case (Cons e es)
  have "deleted_rows (e # es) = deleted_rows [e] @ deleted_rows es" using undo_lists(4) [of "[e]" es] by simp
  then show ?case using Cons by (simp add: Int_commute)
qed simp

lemma in_inserted: "t \<in> set (inserted_tables es) \<longleftrightarrow> (\<exists>a. INSERT_TUPLE a \<in> set es \<and> ai_table a = t)"
  by (force simp: inserted_tables_def split: undo_entry.splits)

lemma in_deleted: "(t, j) \<in> set (deleted_rows es) \<longleftrightarrow> (\<exists>d. DELETE_TUPLE d \<in> set es \<and> de_table d = t \<and> j \<in> set (undo_rows (de_info d)))"
  by (force simp: deleted_rows_def split: undo_entry.splits)

text \<open>
  The undo buffer describes the changes of transaction \<open>tid\<close> in the row versions \<open>V\<close> of the tables: one
  entry for each table it appended to, whose rows are the last ones of the table and carry its id; entries
  that list the rows it deleted, each of them once and none of them its own; and all rows with its id are
  described.
\<close>

definition undo_describes :: "transaction_t \<Rightarrow> (nat \<Rightarrow> row_version list) \<Rightarrow> undo_entry list \<Rightarrow> bool" where
  "undo_describes tid V es \<longleftrightarrow>
     (\<forall>a. INSERT_TUPLE a \<in> set es \<longrightarrow> 0 < ai_count a \<and> ai_start_row a + ai_count a = length (V (ai_table a))
        \<and> (\<forall>j < length (V (ai_table a)). (fst (V (ai_table a) ! j) = tid \<longleftrightarrow> ai_start_row a \<le> j)
             \<and> (ai_start_row a \<le> j \<longrightarrow> snd (V (ai_table a) ! j) = NOT_DELETED_ID)))
   \<and> (\<forall>d. DELETE_TUPLE d \<in> set es \<longrightarrow> undo_rows (de_info d) \<noteq> []
        \<and> (\<forall>r\<in>set (undo_rows (de_info d)). r < length (V (de_table d))
             \<and> fst (V (de_table d) ! r) \<noteq> tid \<and> snd (V (de_table d) ! r) = tid))
   \<and> distinct (inserted_tables es) \<and> distinct (deleted_rows es) \<and> EMPTY_ENTRY \<notin> set es
   \<and> (\<forall>t. \<forall>v\<in>set (V t). fst v = tid \<longrightarrow> t \<in> set (inserted_tables es))
   \<and> (\<forall>t. \<forall>j < length (V t). snd (V t ! j) = tid \<longrightarrow> (t, j) \<in> set (deleted_rows es))"

lemma describesD:
  assumes "undo_describes tid V es"
  shows "INSERT_TUPLE a \<in> set es \<Longrightarrow> 0 < ai_count a \<and> ai_start_row a + ai_count a = length (V (ai_table a))"
    "INSERT_TUPLE a \<in> set es \<Longrightarrow> j < length (V (ai_table a)) \<Longrightarrow> fst (V (ai_table a) ! j) = tid \<longleftrightarrow> ai_start_row a \<le> j"
    "INSERT_TUPLE a \<in> set es \<Longrightarrow> j < length (V (ai_table a)) \<Longrightarrow> ai_start_row a \<le> j \<Longrightarrow> snd (V (ai_table a) ! j) = NOT_DELETED_ID"
    "DELETE_TUPLE d \<in> set es \<Longrightarrow> undo_rows (de_info d) \<noteq> []"
    "DELETE_TUPLE d \<in> set es \<Longrightarrow> r \<in> set (undo_rows (de_info d)) \<Longrightarrow> r < length (V (de_table d))
       \<and> fst (V (de_table d) ! r) \<noteq> tid \<and> snd (V (de_table d) ! r) = tid"
    "distinct (inserted_tables es)" "distinct (deleted_rows es)" "EMPTY_ENTRY \<notin> set es"
    "v \<in> set (V t) \<Longrightarrow> fst v = tid \<Longrightarrow> t \<in> set (inserted_tables es)"
    "k < length (V t) \<Longrightarrow> snd (V t ! k) = tid \<Longrightarrow> (t, k) \<in> set (deleted_rows es)"
  using assms unfolding undo_describes_def by blast+

text \<open>The rows of a table that are not the transaction's.\<close>

definition kept :: "transaction_t \<Rightarrow> row_version list \<Rightarrow> nat" where
  "kept tid vs = length (filter (\<lambda>v. fst v \<noteq> tid) vs)"

lemma kept_prefix:
  assumes "\<And>j. j < length vs \<Longrightarrow> fst (vs ! j) = tid \<longleftrightarrow> s \<le> j" "s \<le> length vs"
  shows "filter (\<lambda>v. fst v \<noteq> tid) vs = take s vs" "kept tid vs = s"
proof -
  have "fst v \<noteq> tid" if v: "v \<in> set (take s vs)" for v
  proof -
    obtain i where "i < s" "vs ! i = v" using v assms(2) unfolding in_set_conv_nth by auto
    then show ?thesis using assms(1) [of i] assms(2) by simp
  qed
  then have "filter (\<lambda>v. fst v \<noteq> tid) (take s vs) = take s vs" by (simp add: filter_id_conv)
  moreover have "fst v = tid" if v: "v \<in> set (drop s vs)" for v
  proof -
    obtain i where "i < length (drop s vs)" "drop s vs ! i = v" using v unfolding in_set_conv_nth by blast
    then show ?thesis using assms(1) [of "s + i"] assms(2) by simp
  qed
  then have "filter (\<lambda>v. fst v \<noteq> tid) (drop s vs) = []" by (simp add: filter_empty_conv)
  ultimately show f: "filter (\<lambda>v. fst v \<noteq> tid) vs = take s vs"
    using filter_append [of "\<lambda>v. fst v \<noteq> tid" "take s vs" "drop s vs"] by simp
  show "kept tid vs = s" using assms(2) by (simp add: kept_def f)
qed

lemma kept_insert:
  assumes "undo_describes tid V es" "INSERT_TUPLE a \<in> set es"
  shows "kept tid (V (ai_table a)) = ai_start_row a" "ai_start_row a < length (V (ai_table a))"
proof -
  show l: "ai_start_row a < length (V (ai_table a))" using describesD(1) [OF assms] by simp
  then show "kept tid (V (ai_table a)) = ai_start_row a"
    using describesD(2) [OF assms] by (intro kept_prefix) auto
qed

lemma kept_rows:
  assumes d: "undo_describes tid V es"
  shows "filter (\<lambda>v. fst v \<noteq> tid) (V t) = take (kept tid (V t)) (V t)" "kept tid (V t) \<le> length (V t)"
    "t \<notin> set (inserted_tables es) \<Longrightarrow> kept tid (V t) = length (V t)"
    "j < length (V t) \<Longrightarrow> fst (V t ! j) = tid \<longleftrightarrow> kept tid (V t) \<le> j"
proof -
  have own: "fst (V t ! j) = tid \<longleftrightarrow> kept tid (V t) \<le> j" if j: "j < length (V t)" for j
  proof (cases "t \<in> set (inserted_tables es)")
    case True
    then obtain a where a: "INSERT_TUPLE a \<in> set es" "ai_table a = t" by (auto simp: in_inserted)
    show ?thesis using describesD(2) [OF d a(1), of j] kept_insert(1) [OF d a(1)] j by (simp add: a(2))
  next
    case False
    then have "\<forall>v\<in>set (V t). fst v \<noteq> tid" using describesD(9) [OF d] by blast
    then show ?thesis using j by (simp add: kept_def filter_id_conv)
  qed
  show l: "kept tid (V t) \<le> length (V t)" by (simp add: kept_def)
  show "filter (\<lambda>v. fst v \<noteq> tid) (V t) = take (kept tid (V t)) (V t)" by (rule kept_prefix(1) [OF own l])
  show "j < length (V t) \<Longrightarrow> fst (V t ! j) = tid \<longleftrightarrow> kept tid (V t) \<le> j" by (rule own)
  assume "t \<notin> set (inserted_tables es)"
  then have "\<forall>v\<in>set (V t). fst v \<noteq> tid" using describesD(9) [OF d] by blast
  then show "kept tid (V t) = length (V t)" by (simp add: kept_def filter_id_conv)
qed

section \<open>The invariant of the loops\<close>

text \<open>
  Table \<open>t\<close> has \<open>n t\<close> rows, those of \<open>V t\<close> with the insertion ids of the transaction's rows replaced by
  \<open>x t\<close> and with the deletion ids \<open>y t\<close>.
\<close>

definition at_table ::
  "transaction_t \<Rightarrow> row_version list \<Rightarrow> delete_undo set \<Rightarrow> nat \<Rightarrow> transaction_t \<Rightarrow> (nat \<Rightarrow> transaction_t) \<Rightarrow>
   row_group_collection \<Rightarrow> bool" where
  "at_table tid vs us n x y c \<longleftrightarrow> table_ok c \<and> total_rows c = n \<and> (\<forall>u\<in>us. points_to c u)
     \<and> (\<forall>j < n. coll_rows c ! j = (if fst (vs ! j) = tid then x else fst (vs ! j), y j))"

definition undos :: "undo_entry list \<Rightarrow> nat \<Rightarrow> delete_undo set" where
  "undos es t = {de_info d | d. DELETE_TUPLE d \<in> set es \<and> de_table d = t}"

definition at_state ::
  "transaction_t \<Rightarrow> (nat \<Rightarrow> row_version list) \<Rightarrow> undo_entry list \<Rightarrow> (nat \<Rightarrow> nat) \<Rightarrow> (nat \<Rightarrow> transaction_t) \<Rightarrow>
   (nat \<times> nat \<Rightarrow> transaction_t) \<Rightarrow> 'c database \<Rightarrow> bool" where
  "at_state tid V es n x y db \<longleftrightarrow> (\<forall>t. at_table tid (V t) (undos es t) (n t) (x t) (\<lambda>j. y (t, j)) (db_tables db t))"

lemma at_state_cong:
  assumes "at_state tid V es n x y db" "db_tables db' = db_tables db"
  shows "at_state tid V es n x y db'"
  using assms by (simp add: at_state_def)

lemma on_table_step:
  assumes st: "at_state tid V es n x y db"
    and f: "\<exists>c'. f (db_tables db t) = Some (Inr c') \<and> at_table tid (V t) (undos es t) (n' t) (x' t) (\<lambda>j. y' (t, j)) c'"
    and other: "\<And>s. s \<noteq> t \<Longrightarrow> n' s = n s \<and> x' s = x s \<and> (\<forall>j. y' (s, j) = y (s, j))"
  shows "\<exists>db'. on_table t f db = Some (db', None) \<and> at_state tid V es n' x' y' db'"
proof -
  obtain c' where c': "f (db_tables db t) = Some (Inr c')" "at_table tid (V t) (undos es t) (n' t) (x' t) (\<lambda>j. y' (t, j)) c'"
    using f by blast
  have "at_state tid V es n' x' y' (set_table t c' db)"
    using st c'(2) other by (simp add: at_state_def set_table_def)
  then show ?thesis using c'(1) by (simp add: on_table_def)
qed

lemma commit_insert_ok:
  assumes d: "undo_describes tid V es" "INSERT_TUPLE a \<in> set es" and tid: "tid \<noteq> 0"
    and st: "at_table tid (V (ai_table a)) us (length (V (ai_table a))) tid y c"
  shows "\<exists>c'. coll_CommitAppend cid (ai_start_row a) (ai_count a) c = Some (Inr c')
    \<and> at_table tid (V (ai_table a)) us (length (V (ai_table a))) cid y c'"
proof -
  let ?vs = "V (ai_table a)" and ?lo = "ai_start_row a" and ?hi = "ai_start_row a + ai_count a"
  have c: "coll_wf c" "row_start c = 0" "finished_loading (row_groups c)" "total_rows c = length ?vs" "\<forall>u\<in>us. points_to c u"
    "\<And>j. j < length ?vs \<Longrightarrow> coll_rows c ! j = (if fst (?vs ! j) = tid then tid else fst (?vs ! j), y j)"
    using st by (simp_all add: at_table_def table_ok_def)
  have own: "fst (?vs ! j) = tid \<longleftrightarrow> ?lo \<le> j \<and> j < ?hi" if "j < length ?vs" for j
    using describesD(1,2) [OF d] that by simp
  have "\<forall>k < total_rows c. fst (coll_rows c ! k) = tid \<longleftrightarrow> ?lo \<le> row_start c + k \<and> row_start c + k < ?hi"
    using c(2,4,6) own by simp
  then have "\<forall>g\<in>set (groups c). tid \<noteq> 0 \<and> own_rows tid ?lo ?hi g" using tid coll_own_rows [OF c(1)] by blast
  from commit.on_range_ok [OF c(1) this, of cid] describesD(1) [OF d] c(2,4) obtain c' where
    c': "on_range (rg_CommitAppend cid) ?lo (ai_count a) c = Some (Inr c')" "coll_wf c'" "total_rows c' = total_rows c"
    "row_start c' = row_start c" "finished_loading (row_groups c) \<longrightarrow> finished_loading (row_groups c')"
    "list_all2 (group_rel (row_group_size c) (\<lambda>b v v'. v' = (if b then (cid, snd v) else v)) ?lo ?hi) (groups c) (groups c')"
    "\<forall>k < total_rows c. coll_rows c' ! k = (if ?lo \<le> row_start c + k \<and> row_start c + k < ?hi
       then (cid, snd (coll_rows c ! k)) else coll_rows c ! k)" by auto
  have "coll_rows c' ! j = (if fst (?vs ! j) = tid then cid else fst (?vs ! j), y j)" if "j < length ?vs" for j
    using c'(7) c(2,4) c(6) [OF that] own [OF that] that by simp
  moreover have "\<forall>u\<in>us. points_to c' u" using c(5) upd_points_to [OF c'(6)] by blast
  ultimately have "at_table tid ?vs us (length ?vs) cid y c'"
    using c'(2-5) c(2-4) by (simp add: at_table_def table_ok_def)
  then show ?thesis using c'(1) by (auto simp: coll_CommitAppend_def)
qed

lemma delete_ok:
  assumes ne: "undo_rows u \<noteq> []" and u: "u \<in> us"
    and st: "at_table tid vs us n x y c"
    and rows: "\<And>r. r \<in> set (undo_rows u) \<Longrightarrow> r < n \<and> y r \<noteq> NOT_DELETED_ID"
  shows "\<exists>c'. version_CommitDelete z u c = Some (Inr c')
    \<and> at_table tid vs us n x (\<lambda>j. if j \<in> set (undo_rows u) then z else y j) c'"
proof -
  have c: "table_ok c" "total_rows c = n" "\<forall>w\<in>us. points_to c w"
    "\<And>j. j < n \<Longrightarrow> coll_rows c ! j = (if fst (vs ! j) = tid then x else fst (vs ! j), y j)"
    using st by (simp_all add: at_table_def)
  have "snd (coll_rows c ! r) \<noteq> NOT_DELETED_ID" if "r \<in> set (undo_rows u)" for r using rows [OF that] c(4) by simp
  from version_CommitDelete_ok [OF c(1) _ ne this, of z] c(3) u obtain c' where
    c': "version_CommitDelete z u c = Some (Inr c')" "table_ok c'" "total_rows c' = total_rows c"
    "\<forall>w. points_to c w \<longrightarrow> points_to c' w"
    "\<forall>j < total_rows c. coll_rows c' ! j = (if j \<in> set (undo_rows u) then (fst (coll_rows c ! j), z) else coll_rows c ! j)"
    by blast
  have "at_table tid vs us n x (\<lambda>j. if j \<in> set (undo_rows u) then z else y j) c'"
    using c' c by (simp add: at_table_def)
  then show ?thesis using c'(1) by blast
qed

lemma truncated_points_to:
  assumes tr: "truncated s (groups c) (groups c')" and u: "points_to c u"
    and ne: "undo_rows u \<noteq> []" and rows: "\<And>r. r \<in> set (undo_rows u) \<Longrightarrow> r < s"
  shows "points_to c' u"
proof -
  let ?k = "du_version_info u" and ?d = "du_info u"
  have k: "?k < length (groups c)" using u by (simp add: points_to_def undo_located_def extents_def)
  have l: "du_base_row u = sg_start (groups c ! ?k) + di_vector_idx ?d * STANDARD_VECTOR_SIZE"
    "\<And>i. i \<in> set (delete_rows ?d) \<Longrightarrow> i < STANDARD_VECTOR_SIZE \<and> di_vector_idx ?d * STANDARD_VECTOR_SIZE + i < sg_count (groups c ! ?k)"
    using u k by (simp_all add: points_to_def undo_located_def extents_def located_def)
  have before: "sg_start (groups c ! ?k) + (di_vector_idx ?d * STANDARD_VECTOR_SIZE + i) < s" if "i \<in> set (delete_rows ?d)" for i
  proof -
    have "du_base_row u + i \<in> set (undo_rows u)" using that by (simp add: undo_rows_def)
    from rows [OF this] show ?thesis by (simp add: l(1))
  qed
  obtain i where i: "i \<in> set (delete_rows ?d)" using ne by (cases "delete_rows ?d") (auto simp: undo_rows_def)
  have "holds_row (groups c ! ?k) (sg_start (groups c ! ?k) + (di_vector_idx ?d * STANDARD_VECTOR_SIZE + i))"
    using l(2) [OF i] by (simp add: holds_row_def)
  then have k': "?k < length (groups c')" using tr k before [OF i] unfolding truncated_def by blast
  have g: "sg_start (groups c' ! ?k) = sg_start (groups c ! ?k)"
    "sg_count (groups c' ! ?k) = min (sg_count (groups c ! ?k)) (s - sg_start (groups c ! ?k))"
    "no_dropped (groups c ! ?k) \<longrightarrow> no_dropped (groups c' ! ?k)" "attached (groups c ! ?k) \<longrightarrow> attached (groups c' ! ?k)"
    using tr k' unfolding truncated_def by blast+
  have "located ?k (sg_start (groups c' ! ?k), sg_count (groups c' ! ?k)) u"
    using l before by (force simp: located_def g(1,2))
  then have "undo_located (extents c') u" using k' by (simp add: undo_located_def extents_def)
  then show ?thesis using u g(3,4) by (simp add: points_to_def)
qed

lemma revert_ok:
  assumes vs: "\<And>j. j < length vs \<Longrightarrow> fst (vs ! j) = tid \<longleftrightarrow> s \<le> j" "s \<le> length vs"
    and st: "at_table tid vs us n x y c" and n: "n = length vs \<or> n = s"
    and fresh: "\<And>j. j < s \<Longrightarrow> fst (vs ! j) \<noteq> x" and nd: "\<And>j. s \<le> j \<Longrightarrow> j < length vs \<Longrightarrow> y j = NOT_DELETED_ID"
    and us: "\<And>u. u \<in> us \<Longrightarrow> undo_rows u \<noteq> [] \<and> (\<forall>r\<in>set (undo_rows u). r < s)"
  shows "\<exists>c'. RevertAppendInternal s c = Some (Inr c') \<and> at_table tid vs us s x y c'"
proof -
  have c: "table_ok c" "total_rows c = n" "\<forall>w\<in>us. points_to c w"
    "\<And>j. j < n \<Longrightarrow> coll_rows c ! j = (if fst (vs ! j) = tid then x else fst (vs ! j), y j)"
    using st by (simp_all add: at_table_def)
  have sn: "s \<le> n" using n vs(2) by auto
  have old: "\<forall>k < s. fst (coll_rows c ! k) \<noteq> x"
    using c(4) vs sn fresh by simp
  have new: "\<forall>k. s \<le> k \<and> k < total_rows c \<longrightarrow> coll_rows c ! k = (x, NOT_DELETED_ID)"
    using c(2,4) vs n nd by auto
  from RevertAppendInternal_ok [OF _ table_shape [OF c(1)] _ _ old new] c(1,2) sn obtain c' where
    c': "RevertAppendInternal s c = Some (Inr c')" "coll_wf c'" "total_rows c' = s" "row_start c' = 0"
    "tree_shape (row_groups c')" "truncated s (groups c) (groups c')" "coll_rows c' = take s (coll_rows c)"
    by (auto simp: table_ok_def)
  have "\<forall>u\<in>us. points_to c' u" using truncated_points_to [OF c'(6)] c(3) us by blast
  moreover have "table_ok c'" using c' by (simp add: table_ok_def tree_shape_def)
  ultimately have "at_table tid vs us s x y c'" using c' c(4) sn by (simp add: at_table_def)
  then show ?thesis using c'(1) by blast
qed

section \<open>The loops\<close>

text \<open>
  A loop whose body reverts appends and sets deletion ids to \<open>z\<close>: the loop of \<open>RevertCommit\<close> with the
  transaction's id, and that of \<open>Rollback\<close> with no deletion.
\<close>

lemma undo_loop:
  assumes d: "undo_describes tid V es"
    and f: "\<And>a db. f (INSERT_TUPLE a) db = DataTable_RevertAppend calls (ai_table a) (ai_start_row a) (ai_count a) db"
      "\<And>e db. f (DELETE_TUPLE e) db = on_table (de_table e) (version_CommitDelete z (de_info e)) db"
      "\<And>p db. \<exists>db'. f (CATALOG_ENTRY p) db = Some (db', None) \<and> db_tables db' = db_tables db"
      "\<And>p db. \<exists>db'. f (UPDATE_TUPLE p) db = Some (db', None) \<and> db_tables db' = db_tables db"
      "\<And>p db. \<exists>db'. f (SEQUENCE_VALUE p) db = Some (db', None) \<and> db_tables db' = db_tables db"
  shows "set Q \<subseteq> set es \<Longrightarrow> distinct (deleted_rows Q) \<Longrightarrow> at_state tid V es n x y db \<Longrightarrow>
    (\<And>t. n t = length (V t) \<or> n t = kept tid (V t)) \<Longrightarrow> (\<And>t j. j < kept tid (V t) \<Longrightarrow> fst (V t ! j) \<noteq> x t) \<Longrightarrow>
    (\<And>p. p \<in> set (deleted_rows Q) \<Longrightarrow> y p \<noteq> NOT_DELETED_ID) \<Longrightarrow>
    (\<And>t j. kept tid (V t) \<le> j \<Longrightarrow> j < length (V t) \<Longrightarrow> y (t, j) = NOT_DELETED_ID) \<Longrightarrow>
    \<exists>db'. run_list f Q db = Some (db', None)
      \<and> at_state tid V es (\<lambda>t. if t \<in> set (inserted_tables Q) then kept tid (V t) else n t) x
          (\<lambda>p. if p \<in> set (deleted_rows Q) then z else y p) db'"
proof (induction Q arbitrary: n y db)
  case Nil
  then show ?case by simp
next
  case (Cons e Q)
  note pre = Cons.prems
  have sub: "e \<in> set es" "set Q \<subseteq> set es" using pre(1) by simp_all
  have rest: ?case if s: "f e db = Some (db1, None)" "at_state tid V es n1 x y1 db1"
      and n1: "\<And>t. n1 t = length (V t) \<or> n1 t = kept tid (V t)"
      and y1: "\<And>p. p \<in> set (deleted_rows Q) \<Longrightarrow> y1 p = y p"
        "\<And>t j. kept tid (V t) \<le> j \<Longrightarrow> j < length (V t) \<Longrightarrow> y1 (t, j) = y (t, j)"
      and eqs: "(\<lambda>t. if t \<in> set (inserted_tables Q) then kept tid (V t) else n1 t)
          = (\<lambda>t. if t \<in> set (inserted_tables (e # Q)) then kept tid (V t) else n t)"
        "(\<lambda>p. if p \<in> set (deleted_rows Q) then z else y1 p) = (\<lambda>p. if p \<in> set (deleted_rows (e # Q)) then z else y p)"
      and qs: "set (deleted_rows Q) \<subseteq> set (deleted_rows (e # Q))" "distinct (deleted_rows Q)" for db1 n1 y1
  proof -
    have "\<exists>db'. run_list f Q db1 = Some (db', None)
      \<and> at_state tid V es (\<lambda>t. if t \<in> set (inserted_tables Q) then kept tid (V t) else n1 t) x
          (\<lambda>p. if p \<in> set (deleted_rows Q) then z else y1 p) db'"
    proof (rule Cons.IH [OF sub(2) qs(2) s(2) n1 pre(5)])
      show "y1 p \<noteq> NOT_DELETED_ID" if "p \<in> set (deleted_rows Q)" for p
        using pre(6) [OF subsetD [OF qs(1) that]] y1(1) [OF that] by simp
      show "y1 (t, j) = NOT_DELETED_ID" if "kept tid (V t) \<le> j" "j < length (V t)" for t j
        using pre(7) [OF that] y1(2) [OF that] by simp
    qed
    then show ?thesis using s(1) unfolding eqs by simp
  qed
  have plain: ?case if h: "\<exists>db'. f e db = Some (db', None) \<and> db_tables db' = db_tables db"
    "inserted_tables (e # Q) = inserted_tables Q" "deleted_rows (e # Q) = deleted_rows Q"
  proof -
    from h(1) obtain db1 where "f e db = Some (db1, None)" "db_tables db1 = db_tables db" by blast
    then show ?thesis using rest [OF _ at_state_cong [OF pre(3)]] pre(2,4) h(2,3) by simp
  qed
  show ?case
  proof (cases e)
    case EMPTY_ENTRY
    then show ?thesis using sub(1) describesD(8) [OF d] by simp
  next
    case (CATALOG_ENTRY p)
    then show ?thesis using plain f(3) by simp
  next
    case (UPDATE_TUPLE p)
    then show ?thesis using plain f(4) by simp
  next
    case (SEQUENCE_VALUE p)
    then show ?thesis using plain f(5) by simp
  next
    case (INSERT_TUPLE a)
    let ?t = "ai_table a"
    have ain: "INSERT_TUPLE a \<in> set es" using sub(1) INSERT_TUPLE by simp
    note k = kept_insert [OF d ain]
    define db0 where "db0 = (if has_indexes calls ?t (db_other db)
      then db\<lparr>db_other := revert_indexes calls ?t (ai_start_row a) (min (ai_count a) (total_rows (db_tables db ?t) - ai_start_row a)) (db_other db)\<rparr>
      else db)"
    have t0: "db_tables db0 = db_tables db" by (simp add: db0_def)
    have s0: "at_state tid V es n x y db0" by (rule at_state_cong [OF pre(3) t0])
    have fe: "f e db = on_table ?t (RevertAppendInternal (ai_start_row a)) db0"
      by (simp add: INSERT_TUPLE f(1) DataTable_RevertAppend_def db0_def Let_def)
    have us: "undo_rows u \<noteq> [] \<and> (\<forall>r\<in>set (undo_rows u). r < ai_start_row a)" if h: "u \<in> undos es ?t" for u
    proof -
      obtain e' where e': "DELETE_TUPLE e' \<in> set es" "de_info e' = u" "de_table e' = ?t" using h by (auto simp: undos_def)
      have "r < ai_start_row a" if r: "r \<in> set (undo_rows u)" for r
        using describesD(5) [OF d e'(1), of r] kept_rows(4) [OF d, of r ?t] r e'(2,3) k(1) by simp
      then show ?thesis using describesD(4) [OF d e'(1)] e'(2) by blast
    qed
    have at0: "at_table tid (V ?t) (undos es ?t) (n ?t) (x ?t) (\<lambda>j. y (?t, j)) (db_tables db0 ?t)"
      using s0 by (simp add: at_state_def)
    have own: "\<And>j. j < length (V ?t) \<Longrightarrow> fst (V ?t ! j) = tid \<longleftrightarrow> ai_start_row a \<le> j"
      using kept_rows(4) [OF d] k(1) by simp
    have "\<exists>c'. RevertAppendInternal (ai_start_row a) (db_tables db0 ?t) = Some (Inr c')
      \<and> at_table tid (V ?t) (undos es ?t) (ai_start_row a) (x ?t) (\<lambda>j. y (?t, j)) c'"
    proof (rule revert_ok [OF own less_imp_le [OF k(2)] at0 _ _ _ us])
      show "n ?t = length (V ?t) \<or> n ?t = ai_start_row a" using pre(4) [of ?t] k(1) by simp
      show "fst (V ?t ! j) \<noteq> x ?t" if "j < ai_start_row a" for j using pre(5) [of j ?t] that k(1) by simp
      show "y (?t, j) = NOT_DELETED_ID" if "ai_start_row a \<le> j" "j < length (V ?t)" for j
        using pre(7) [of ?t j] that k(1) by simp
    qed
    then have "\<exists>db1. on_table ?t (RevertAppendInternal (ai_start_row a)) db0 = Some (db1, None)
      \<and> at_state tid V es (n(?t := kept tid (V ?t))) x y db1"
      by (intro on_table_step [OF s0]) (simp_all add: k(1))
    then obtain db1 where s: "f e db = Some (db1, None)" "at_state tid V es (n(?t := kept tid (V ?t))) x y db1" unfolding fe by blast
    show ?thesis using pre(2,4) by (intro rest [OF s]) (auto simp: INSERT_TUPLE)
  next
    case (DELETE_TUPLE e')
    let ?t = "de_table e'" and ?R = "set (undo_rows (de_info e'))"
    have ein: "DELETE_TUPLE e' \<in> set es" using sub(1) DELETE_TUPLE by simp
    have u: "de_info e' \<in> undos es ?t" using ein by (auto simp: undos_def)
    have at0: "at_table tid (V ?t) (undos es ?t) (n ?t) (x ?t) (\<lambda>j. y (?t, j)) (db_tables db ?t)"
      using pre(3) by (simp add: at_state_def)
    have below: "r < kept tid (V ?t)" if "r \<in> ?R" for r
      using describesD(5) [OF d ein that] kept_rows(4) [OF d, of r ?t] by auto
    have rows: "r < n ?t \<and> y (?t, r) \<noteq> NOT_DELETED_ID" if "r \<in> ?R" for r
    proof
      show "r < n ?t" using below [OF that] pre(4) [of ?t] kept_rows(2) [OF d, of ?t] by auto
      show "y (?t, r) \<noteq> NOT_DELETED_ID" using pre(6) [of "(?t, r)"] that by (simp add: DELETE_TUPLE)
    qed
    let ?y = "\<lambda>p. if fst p = ?t \<and> snd p \<in> ?R then z else y p"
    have "\<exists>db1. on_table ?t (version_CommitDelete z (de_info e')) db = Some (db1, None) \<and> at_state tid V es n x ?y db1"
      using delete_ok [OF describesD(4) [OF d ein] u at0 rows, of z]
      by (intro on_table_step [OF pre(3)]) simp_all
    then obtain db1 where s: "f e db = Some (db1, None)" "at_state tid V es n x ?y db1" unfolding DELETE_TUPLE f(2) by blast
    have disj: "set (map (Pair ?t) (undo_rows (de_info e'))) \<inter> set (deleted_rows Q) = {}" "distinct (deleted_rows Q)"
      using pre(2) by (simp_all add: DELETE_TUPLE)
    show ?thesis
    proof (rule rest [OF s])
      show "?y p = y p" if h: "p \<in> set (deleted_rows Q)" for p
      proof -
        have "p \<notin> set (map (Pair ?t) (undo_rows (de_info e')))" using h disj(1) by blast
        then show ?thesis by (cases p) auto
      qed
      show "?y (t, j) = y (t, j)" if "kept tid (V t) \<le> j" for t j using that below [of j] by auto
      show "(\<lambda>p. if p \<in> set (deleted_rows Q) then z else ?y p) = (\<lambda>p. if p \<in> set (deleted_rows (e # Q)) then z else y p)"
        by (rule ext) (auto simp: DELETE_TUPLE)
    qed (use pre(4) disj in \<open>simp_all add: DELETE_TUPLE\<close>)
  qed
qed

text \<open>The insertion and deletion ids after the commit of some of the entries.\<close>

definition commit_x :: "transaction_t \<Rightarrow> transaction_t \<Rightarrow> undo_entry list \<Rightarrow> nat \<Rightarrow> transaction_t" where
  "commit_x tid cid P t = (if t \<in> set (inserted_tables P) then cid else tid)"

definition commit_y :: "(nat \<Rightarrow> row_version list) \<Rightarrow> transaction_t \<Rightarrow> undo_entry list \<Rightarrow> nat \<times> nat \<Rightarrow> transaction_t" where
  "commit_y V cid P p = (if p \<in> set (deleted_rows P) then cid else snd (V (fst p) ! snd p))"

lemma commit_loop:
  assumes d: "undo_describes tid V es" and ids: "tid \<noteq> 0" "tid \<noteq> NOT_DELETED_ID" "cid \<noteq> NOT_DELETED_ID"
  shows "es = P @ Q \<Longrightarrow> at_state tid V es (\<lambda>t. length (V t)) (commit_x tid cid P) (commit_y V cid P) db \<Longrightarrow>
    \<exists>db' k r. run_count (CommitEntry calls start_time cid) Q db = Some (db', k, r)
      \<and> (r = None \<longrightarrow> k = length Q) \<and> (r \<noteq> None \<longrightarrow> k < length Q \<and> (\<exists>p. Q ! k = CATALOG_ENTRY p))
      \<and> at_state tid V es (\<lambda>t. length (V t)) (commit_x tid cid (P @ take k Q)) (commit_y V cid (P @ take k Q)) db'"
proof (induction Q arbitrary: P db)
  case Nil
  then show ?case by simp
next
  case (Cons e Q)
  note pre = Cons.prems
  have ein: "e \<in> set es" using pre(1) by simp
  have rest: ?case if s: "CommitEntry calls start_time cid e db = Some (db1, None)"
    "at_state tid V es (\<lambda>t. length (V t)) (commit_x tid cid (P @ [e])) (commit_y V cid (P @ [e])) db1" for db1
  proof -
    have "es = (P @ [e]) @ Q" using pre(1) by simp
    from Cons.IH [OF this s(2)] obtain db' k r where
      r: "run_count (CommitEntry calls start_time cid) Q db1 = Some (db', k, r)" "r = None \<longrightarrow> k = length Q"
      "r \<noteq> None \<longrightarrow> k < length Q \<and> (\<exists>p. Q ! k = CATALOG_ENTRY p)"
      "at_state tid V es (\<lambda>t. length (V t)) (commit_x tid cid ((P @ [e]) @ take k Q)) (commit_y V cid ((P @ [e]) @ take k Q)) db'"
      by blast
    then show ?thesis using s(1) by (intro exI [of _ db'] exI [of _ "Suc k"] exI [of _ r]) simp
  qed
  have plain: "at_state tid V es (\<lambda>t. length (V t)) (commit_x tid cid (P @ [e])) (commit_y V cid (P @ [e])) db1"
    if "inserted_tables [e] = []" "deleted_rows [e] = []" "db_tables db1 = db_tables db" for db1
  proof -
    have "commit_x tid cid (P @ [e]) = commit_x tid cid P" "commit_y V cid (P @ [e]) = commit_y V cid P"
      using that(1,2) by (simp_all add: fun_eq_iff commit_x_def commit_y_def)
    then show ?thesis using at_state_cong [OF pre(2) that(3)] by simp
  qed
  show ?case
  proof (cases e)
    case EMPTY_ENTRY
    then show ?thesis using ein describesD(8) [OF d] by simp
  next
    case (CATALOG_ENTRY p)
    obtain c r where cc: "commit_catalog calls start_time cid p (db_other db) = (c, r)" by fastforce
    show ?thesis
    proof (cases r)
      case None
      then show ?thesis using cc by (intro rest [of "db\<lparr>db_other := c\<rparr>"] plain) (simp_all add: CATALOG_ENTRY)
    next
      case (Some err)
      then show ?thesis using cc at_state_cong [OF pre(2), of "db\<lparr>db_other := c\<rparr>"]
        by (intro exI [of _ "db\<lparr>db_other := c\<rparr>"] exI [of _ 0] exI [of _ "Some err"]) (simp add: CATALOG_ENTRY)
    qed
  next
    case (UPDATE_TUPLE p)
    then show ?thesis by (intro rest [of "db\<lparr>version_number := (version_number db)(p := cid)\<rparr>"] plain) simp_all
  next
    case (SEQUENCE_VALUE p)
    then show ?thesis by (intro rest [of db] plain) simp_all
  next
    case (INSERT_TUPLE a)
    let ?t = "ai_table a"
    have ain: "INSERT_TUPLE a \<in> set es" using ein INSERT_TUPLE by simp
    have new: "?t \<notin> set (inserted_tables P)" using describesD(6) [OF d] pre(1) by (simp add: INSERT_TUPLE)
    have at0: "at_table tid (V ?t) (undos es ?t) (length (V ?t)) tid (\<lambda>j. commit_y V cid P (?t, j)) (db_tables db ?t)"
      using spec [OF pre(2) [unfolded at_state_def], of ?t] new by (simp add: commit_x_def)
    from commit_insert_ok [OF d ain ids(1) this, of cid]
    have "\<exists>db1. on_table ?t (coll_CommitAppend cid (ai_start_row a) (ai_count a)) db = Some (db1, None)
      \<and> at_state tid V es (\<lambda>t. length (V t)) (commit_x tid cid (P @ [e])) (commit_y V cid (P @ [e])) db1"
      by (intro on_table_step [OF pre(2)]) (simp_all add: commit_x_def commit_y_def INSERT_TUPLE)
    then show ?thesis using rest by (auto simp: INSERT_TUPLE)
  next
    case (DELETE_TUPLE e')
    let ?t = "de_table e'" and ?R = "set (undo_rows (de_info e'))"
    have din: "DELETE_TUPLE e' \<in> set es" using ein DELETE_TUPLE by simp
    have u: "de_info e' \<in> undos es ?t" using din by (auto simp: undos_def)
    have at0: "at_table tid (V ?t) (undos es ?t) (length (V ?t)) (commit_x tid cid P ?t) (\<lambda>j. commit_y V cid P (?t, j)) (db_tables db ?t)"
      using pre(2) by (simp add: at_state_def)
    have rows: "r < length (V ?t) \<and> commit_y V cid P (?t, r) \<noteq> NOT_DELETED_ID" if "r \<in> ?R" for r
      using describesD(5) [OF d din that] ids by (simp add: commit_y_def)
    have "\<exists>db1. on_table ?t (version_CommitDelete cid (de_info e')) db = Some (db1, None)
      \<and> at_state tid V es (\<lambda>t. length (V t)) (commit_x tid cid (P @ [e])) (commit_y V cid (P @ [e])) db1"
    proof (rule on_table_step [OF pre(2)])
      have "(\<lambda>j. commit_y V cid (P @ [e]) (?t, j)) = (\<lambda>j. if j \<in> ?R then cid else commit_y V cid P (?t, j))"
        by (auto simp: fun_eq_iff commit_y_def DELETE_TUPLE)
      moreover have "commit_x tid cid (P @ [e]) = commit_x tid cid P" by (simp add: fun_eq_iff commit_x_def DELETE_TUPLE)
      ultimately show "\<exists>c'. version_CommitDelete cid (de_info e') (db_tables db ?t) = Some (Inr c')
          \<and> at_table tid (V ?t) (undos es ?t) (length (V ?t)) (commit_x tid cid (P @ [e]) ?t) (\<lambda>j. commit_y V cid (P @ [e]) (?t, j)) c'"
        using delete_ok [OF describesD(4) [OF d din] u at0 rows, of cid] by simp
      show "length (V s) = length (V s) \<and> commit_x tid cid (P @ [e]) s = commit_x tid cid P s
          \<and> (\<forall>j. commit_y V cid (P @ [e]) (s, j) = commit_y V cid P (s, j))" if "s \<noteq> ?t" for s
        using that by (auto simp: commit_x_def commit_y_def DELETE_TUPLE)
    qed
    then show ?thesis using rest by (auto simp: DELETE_TUPLE)
  qed
qed

section \<open>Commit, failed commit and rollback\<close>

text \<open>A transaction's changes in a database, and what becomes of the row versions.\<close>

definition changes_of :: "transaction_t \<Rightarrow> undo_entry list \<Rightarrow> 'c database \<Rightarrow> bool" where
  "changes_of tid es db \<longleftrightarrow> undo_describes tid (versions db) es \<and> (\<forall>t. table_ok (db_tables db t))
     \<and> (\<forall>d. DELETE_TUPLE d \<in> set es \<longrightarrow> points_to (db_tables db (de_table d)) (de_info d))"

definition committed_version :: "transaction_t \<Rightarrow> transaction_t \<Rightarrow> row_version \<Rightarrow> row_version" where
  "committed_version tid cid v = (if fst v = tid then cid else fst v, if snd v = tid then cid else snd v)"

definition rolled_back :: "transaction_t \<Rightarrow> row_version list \<Rightarrow> row_version list" where
  "rolled_back tid vs = map (\<lambda>v. if snd v = tid then (fst v, NOT_DELETED_ID) else v) (filter (\<lambda>v. fst v \<noteq> tid) vs)"

lemma start_state:
  assumes "changes_of tid es db"
  shows "at_state tid (versions db) es (\<lambda>t. length (versions db t)) (\<lambda>t. tid) (\<lambda>p. snd (versions db (fst p) ! snd p)) db"
  using assms table_length by (fastforce simp: changes_of_def at_state_def at_table_def undos_def prod_eq_iff)

lemma deleted_ids:
  assumes d: "undo_describes tid V es"
  shows "(t, j) \<in> set (deleted_rows es) \<Longrightarrow> j < length (V t) \<and> snd (V t ! j) = tid \<and> j < kept tid (V t)"
    and "j < length (V t) \<Longrightarrow> (t, j) \<in> set (deleted_rows es) \<longleftrightarrow> snd (V t ! j) = tid"
proof -
  show *: "j < length (V t) \<and> snd (V t ! j) = tid \<and> j < kept tid (V t)" if h: "(t, j) \<in> set (deleted_rows es)" for j
  proof -
    obtain e where e: "DELETE_TUPLE e \<in> set es" "de_table e = t" "j \<in> set (undo_rows (de_info e))" using h in_deleted by blast
    then show ?thesis using describesD(5) [OF d e(1,3)] kept_rows(4) [OF d, of j t] by auto
  qed
  show "j < length (V t) \<Longrightarrow> (t, j) \<in> set (deleted_rows es) \<longleftrightarrow> snd (V t ! j) = tid"
    using * describesD(10) [OF d] by blast
qed

lemma committed_view:
  assumes d: "undo_describes tid V es"
    and s: "at_state tid V es (\<lambda>t. length (V t)) (commit_x tid cid es) (commit_y V cid es) db"
  shows "table_ok (db_tables db t) \<and> versions db t = map (committed_version tid cid) (V t)"
proof -
  have c: "table_ok (db_tables db t)" "total_rows (db_tables db t) = length (V t)"
    "\<And>j. j < length (V t) \<Longrightarrow> versions db t ! j =
      (if fst (V t ! j) = tid then commit_x tid cid es t else fst (V t ! j), commit_y V cid es (t, j))"
    using spec [OF s [unfolded at_state_def], of t] by (simp_all add: at_table_def)
  have "versions db t ! j = committed_version tid cid (V t ! j)" if j: "j < length (V t)" for j
  proof -
    have "fst (V t ! j) = tid \<Longrightarrow> t \<in> set (inserted_tables es)" using describesD(9) [OF d nth_mem [OF j]] by simp
    then show ?thesis using c(3) [OF j] deleted_ids(2) [OF d j]
      by (simp add: committed_version_def commit_x_def commit_y_def)
  qed
  then show ?thesis using c(1,2) table_length [OF c(1)] by (simp add: list_eq_iff_nth_eq)
qed

lemma rolled_back_view:
  assumes d: "undo_describes tid V es"
    and s: "at_state tid V es (\<lambda>t. kept tid (V t)) x (\<lambda>p. if p \<in> set (deleted_rows es) then NOT_DELETED_ID else snd (V (fst p) ! snd p)) db"
  shows "table_ok (db_tables db t) \<and> versions db t = rolled_back tid (V t)"
proof -
  let ?k = "kept tid (V t)"
  note k = kept_rows [OF d]
  have c: "table_ok (db_tables db t)" "total_rows (db_tables db t) = ?k"
    "\<And>j. j < ?k \<Longrightarrow> versions db t ! j = (if fst (V t ! j) = tid then x t else fst (V t ! j),
        if (t, j) \<in> set (deleted_rows es) then NOT_DELETED_ID else snd (V t ! j))"
    using spec [OF s [unfolded at_state_def], of t] by (simp_all add: at_table_def)
  have l: "length (rolled_back tid (V t)) = ?k" using k(2) [of t] by (simp add: rolled_back_def k(1))
  have "versions db t ! j = rolled_back tid (V t) ! j" if j: "j < ?k" for j
  proof -
    have j': "j < length (V t)" using j k(2) [of t] by linarith
    have "fst (V t ! j) \<noteq> tid" using k(4) [OF j'] j by simp
    moreover have "rolled_back tid (V t) ! j = (if snd (V t ! j) = tid then (fst (V t ! j), NOT_DELETED_ID) else V t ! j)"
      using j j' by (simp add: rolled_back_def k(1))
    ultimately show ?thesis using c(3) [OF j] deleted_ids(2) [OF d j'] by (simp add: prod_eq_iff)
  qed
  then show ?thesis using c(1,2) table_length [OF c(1)] l by (simp add: list_eq_iff_nth_eq)
qed

lemma Rollback_ok:
  assumes ub: "undo_wf ub" "undo_entries ub = es" and d: "undo_describes tid V es" and tid: "tid \<noteq> NOT_DELETED_ID"
    and s: "at_state tid V es n x (\<lambda>p. snd (V (fst p) ! snd p)) db"
    and n: "\<And>t. n t = kept tid (V t) \<or> n t = length (V t)"
    and x: "\<And>t j. j < kept tid (V t) \<Longrightarrow> fst (V t ! j) \<noteq> x t"
  shows "\<exists>db'. undo_Rollback calls ub db = Some (db', None) \<and> (\<forall>t. table_ok (db_tables db' t) \<and> versions db' t = rolled_back tid (V t))"
proof -
  have "\<exists>db'. run_list (RollbackEntry calls) (rev es) db = Some (db', None)
      \<and> at_state tid V es (\<lambda>t. if t \<in> set (inserted_tables (rev es)) then kept tid (V t) else n t) x
          (\<lambda>p. if p \<in> set (deleted_rows (rev es)) then NOT_DELETED_ID else snd (V (fst p) ! snd p)) db'"
  proof (rule undo_loop [OF d, where calls = calls])
    show "distinct (deleted_rows (rev es))" by (rule distinct_deleted_rev [OF describesD(7) [OF d]])
    show "snd (V (fst p) ! snd p) \<noteq> NOT_DELETED_ID" if "p \<in> set (deleted_rows (rev es))" for p
      using deleted_ids(1) [OF d, of "fst p" "snd p"] that tid by simp
    show "snd (V (fst (t, j)) ! snd (t, j)) = NOT_DELETED_ID" if h: "kept tid (V t) \<le> j" "j < length (V t)" for t j
    proof -
      have own: "fst (V t ! j) = tid" using kept_rows(4) [OF d h(2)] h(1) by simp
      then have "t \<in> set (inserted_tables es)" using describesD(9) [OF d nth_mem [OF h(2)]] by simp
      then obtain a where a: "INSERT_TUPLE a \<in> set es" "ai_table a = t" by (auto simp: in_inserted)
      then show ?thesis using describesD(2,3) [OF d a(1), of j] h(2) own by simp
    qed
  qed (use s n x in auto)
  then obtain db' where r: "run_list (RollbackEntry calls) (rev es) db = Some (db', None)"
    "at_state tid V es (\<lambda>t. if t \<in> set (inserted_tables es) then kept tid (V t) else n t) x
          (\<lambda>p. if p \<in> set (deleted_rows es) then NOT_DELETED_ID else snd (V (fst p) ! snd p)) db'" by auto
  have nn: "(\<lambda>t. if t \<in> set (inserted_tables es) then kept tid (V t) else n t) = (\<lambda>t. kept tid (V t))"
  proof
    fix t show "(if t \<in> set (inserted_tables es) then kept tid (V t) else n t) = kept tid (V t)"
      using n [of t] kept_rows(3) [OF d, of t] by auto
  qed
  from rolled_back_view [OF d r(2) [unfolded nn]]
  have "\<forall>t. table_ok (db_tables db' t) \<and> versions db' t = rolled_back tid (V t)" by blast
  moreover have "undo_Rollback calls ub db = Some (db', None)"
    using r(1) by (simp add: ub(2) undo_Rollback_def IterateEntries_ok(5) [OF ub(1)])
  ultimately show ?thesis by blast
qed

lemma RevertCommit_ok:
  assumes ub: "undo_wf ub" "undo_entries ub = es" and d: "undo_describes tid V es" and tid: "tid \<noteq> NOT_DELETED_ID" "cid \<noteq> NOT_DELETED_ID"
    and fresh: "\<And>t v. v \<in> set (V t) \<Longrightarrow> fst v \<noteq> cid"
    and k: "k < length es" "es ! k = CATALOG_ENTRY p"
    and s: "at_state tid V es (\<lambda>t. length (V t)) (commit_x tid cid (take k es)) (commit_y V cid (take k es)) db"
  shows "\<exists>db'. run_list (RevertCommit calls tid) (take (Suc k) es) db = Some (db', None)
    \<and> at_state tid V es (\<lambda>t. if t \<in> set (inserted_tables (take k es)) then kept tid (V t) else length (V t))
        (commit_x tid cid (take k es)) (\<lambda>p. snd (V (fst p) ! snd p)) db'"
proof -
  have es: "es = take k es @ CATALOG_ENTRY p # drop (Suc k) es" using id_take_nth_drop [OF k(1)] k(2) by simp
  have tk: "take (Suc k) es = take k es @ [CATALOG_ENTRY p]" using take_Suc_conv_app_nth [OF k(1)] k(2) by simp
  have lists: "inserted_tables (take (Suc k) es) = inserted_tables (take k es)" "deleted_rows (take (Suc k) es) = deleted_rows (take k es)"
    by (simp_all add: tk)
  have sub: "set (deleted_rows (take k es)) \<subseteq> set (deleted_rows es)" "distinct (deleted_rows (take k es))"
    using describesD(7) [OF d] arg_cong [OF es, of deleted_rows] by simp_all
  have nd: "commit_y V cid (take k es) (t, j) = NOT_DELETED_ID" if h: "kept tid (V t) \<le> j" "j < length (V t)" for t j
  proof -
    have own: "fst (V t ! j) = tid" using kept_rows(4) [OF d h(2)] h(1) by simp
    then have "t \<in> set (inserted_tables es)" using describesD(9) [OF d nth_mem [OF h(2)]] by simp
    then obtain a where a: "INSERT_TUPLE a \<in> set es" "ai_table a = t" by (auto simp: in_inserted)
    have "snd (V t ! j) = NOT_DELETED_ID" using describesD(2,3) [OF d a(1), of j] a(2) h(2) own by simp
    moreover have "(t, j) \<notin> set (deleted_rows (take k es))" using deleted_ids(1) [OF d, of t j] h(1) sub(1) by (meson leD subsetD)
    ultimately show ?thesis by (simp add: commit_y_def)
  qed
  have "\<exists>db'. run_list (RevertCommit calls tid) (take (Suc k) es) db = Some (db', None)
    \<and> at_state tid V es (\<lambda>t. if t \<in> set (inserted_tables (take (Suc k) es)) then kept tid (V t) else length (V t))
        (commit_x tid cid (take k es)) (\<lambda>p. if p \<in> set (deleted_rows (take (Suc k) es)) then tid else commit_y V cid (take k es) p) db'"
  proof (rule undo_loop [OF d, where calls = calls])
    show "set (take (Suc k) es) \<subseteq> set es" by (rule set_take_subset)
    show "distinct (deleted_rows (take (Suc k) es))" unfolding lists by (rule sub(2))
    show "fst (V t ! j) \<noteq> commit_x tid cid (take k es) t" if h: "j < kept tid (V t)" for t j
    proof -
      have j: "j < length (V t)" using h kept_rows(2) [OF d, of t] by linarith
      show ?thesis using kept_rows(4) [OF d j] h fresh [OF nth_mem [OF j]] by (simp add: commit_x_def)
    qed
    show "commit_y V cid (take k es) p \<noteq> NOT_DELETED_ID" if "p \<in> set (deleted_rows (take (Suc k) es))" for p
      using that tid(2) by (simp add: lists commit_y_def)
  qed (use s nd in auto)
  moreover have "(\<lambda>p. if p \<in> set (deleted_rows (take (Suc k) es)) then tid else commit_y V cid (take k es) p)
      = (\<lambda>p. snd (V (fst p) ! snd p))"
  proof
    fix p show "(if p \<in> set (deleted_rows (take (Suc k) es)) then tid else commit_y V cid (take k es) p) = snd (V (fst p) ! snd p)"
      using deleted_ids(1) [OF d, of "fst p" "snd p"] sub(1) by (auto simp: lists commit_y_def)
  qed
  ultimately show ?thesis by (simp only: lists)
qed

lemma commit_atomic_aux:
  fixes db :: "'c database"
  assumes ub: "undo_wf ub" and ch: "changes_of tid (undo_entries ub) db"
    and ids: "tid \<noteq> 0" "tid \<noteq> NOT_DELETED_ID" "cid \<noteq> NOT_DELETED_ID"
    and fresh: "\<forall>t. \<forall>v\<in>set (versions db t). fst v \<noteq> cid"
  shows "\<exists>db1 it r. undo_Commit calls start_time cid ub db = Some (db1, it, r)
    \<and> (r = None \<and> (\<forall>t. table_ok (db_tables db1 t) \<and> versions db1 t = map (committed_version tid cid) (versions db t))
       \<or> (\<exists>err p db2 db3. r = Some err \<and> CATALOG_ENTRY p \<in> set (undo_entries ub)
           \<and> undo_RevertCommit calls it tid ub db1 = Some (db2, None) \<and> undo_Rollback calls ub db2 = Some (db3, None)
           \<and> (\<forall>t. table_ok (db_tables db3 t) \<and> versions db3 t = rolled_back tid (versions db t))))"
proof -
  let ?es = "undo_entries ub" and ?V = "versions db"
  have d: "undo_describes tid ?V ?es" using ch by (simp add: changes_of_def)
  have "commit_x tid cid [] = (\<lambda>t. tid)" "commit_y ?V cid [] = (\<lambda>p. snd (?V (fst p) ! snd p))"
    by (simp_all add: fun_eq_iff commit_x_def commit_y_def)
  then have "at_state tid ?V ?es (\<lambda>t. length (?V t)) (commit_x tid cid []) (commit_y ?V cid []) db" using start_state [OF ch] by simp
  from commit_loop [OF d ids _ this, of ?es calls start_time] obtain db1 k r where
    run: "run_count (CommitEntry calls start_time cid) ?es db = Some (db1, k, r)"
    and k: "r = None \<longrightarrow> k = length ?es" "r \<noteq> None \<longrightarrow> k < length ?es \<and> (\<exists>p. ?es ! k = CATALOG_ENTRY p)"
    and s: "at_state tid ?V ?es (\<lambda>t. length (?V t)) (commit_x tid cid (take k ?es)) (commit_y ?V cid (take k ?es)) db1" by auto
  show ?thesis
  proof (cases r)
    case None
    then have "at_state tid ?V ?es (\<lambda>t. length (?V t)) (commit_x tid cid ?es) (commit_y ?V cid ?es) db1" using s k(1) by simp
    from committed_view [OF d this]
    have "\<forall>t. table_ok (db_tables db1 t) \<and> versions db1 t = map (committed_version tid cid) (?V t)" by blast
    moreover have "undo_Commit calls start_time cid ub db = Some (db1, \<lparr>it_current = None, it_start = 0\<rparr>, None)"
      using IterateEntries_ok(2) [OF ub, of "CommitEntry calls start_time cid" db db1 k] run None by (simp add: undo_Commit_def)
    ultimately show ?thesis
      by (intro exI [of _ db1] exI [of _ "\<lparr>it_current = None, it_start = 0\<rparr>"] exI [of _ None]) simp
  next
    case (Some err)
    obtain p where p: "k < length ?es" "?es ! k = CATALOG_ENTRY p" using k(2) Some by auto
    obtain it where it: "undo_Commit calls start_time cid ub db = Some (db1, it, Some err)"
      "\<And>(g :: (undo_entry, 'c database, version_error) callback) t. IterateEntries_until g it ub t = run_list g (take (Suc k) ?es) t"
      using IterateEntries_ok(3) [OF ub, of "CommitEntry calls start_time cid" db db1 k err] run Some unfolding undo_Commit_def by blast
    obtain db2 where db2: "undo_RevertCommit calls it tid ub db1 = Some (db2, None)"
      "at_state tid ?V ?es (\<lambda>t. if t \<in> set (inserted_tables (take k ?es)) then kept tid (?V t) else length (?V t))
        (commit_x tid cid (take k ?es)) (\<lambda>p. snd (?V (fst p) ! snd p)) db2"
      using RevertCommit_ok [OF ub refl d ids(2,3) _ p s, of calls] fresh it(2) unfolding undo_RevertCommit_def by auto
    have "\<exists>db3. undo_Rollback calls ub db2 = Some (db3, None) \<and> (\<forall>t. table_ok (db_tables db3 t) \<and> versions db3 t = rolled_back tid (?V t))"
    proof (rule Rollback_ok [OF ub refl d ids(2) db2(2)])
      show "(if t \<in> set (inserted_tables (take k ?es)) then kept tid (?V t) else length (?V t)) = kept tid (?V t)
        \<or> (if t \<in> set (inserted_tables (take k ?es)) then kept tid (?V t) else length (?V t)) = length (?V t)" for t
        by simp
      show "fst (?V t ! j) \<noteq> commit_x tid cid (take k ?es) t" if h: "j < kept tid (?V t)" for t j
      proof -
        have j: "j < length (?V t)" using h kept_rows(2) [OF d, of t] by linarith
        show ?thesis using kept_rows(4) [OF d j] h fresh nth_mem [OF j] by (auto simp: commit_x_def)
      qed
    qed
    moreover have "CATALOG_ENTRY p \<in> set ?es" using p nth_mem by metis
    ultimately show ?thesis using it(1) db2(1) by blast
  qed
qed

section \<open>Who sees it\<close>

definition visible_rows :: "transaction_data \<Rightarrow> row_version list \<Rightarrow> nat list" where
  "visible_rows r vs = filter (\<lambda>j. visible_to r (vs ! j)) [0..<length vs]"

text \<open>A reader other than the transaction \<open>tid\<close>, whose id is the id of a transaction.\<close>

definition other_reader :: "transaction_t \<Rightarrow> transaction_data \<Rightarrow> bool" where
  "other_reader tid r \<longleftrightarrow> reader r \<and> td_transaction_id r \<noteq> tid \<and> TRANSACTION_ID_START \<le> tid"

lemma other_reader_sees:
  assumes "other_reader tid r"
  shows "\<not> UseVersion r tid" "\<not> UseVersion r NOT_DELETED_ID"
proof -
  have r: "td_start_time r \<le> TRANSACTION_ID_START" "td_transaction_id r \<noteq> tid" "td_transaction_id r \<noteq> NOT_DELETED_ID"
    "TRANSACTION_ID_START \<le> tid" using assms by (simp_all add: other_reader_def reader_def reader_ids_def)
  have "TRANSACTION_ID_START < NOT_DELETED_ID" by (simp add: TRANSACTION_ID_START_def NOT_DELETED_ID_def)
  then show "\<not> UseVersion r tid" "\<not> UseVersion r NOT_DELETED_ID"
    using r by (auto simp: UseVersion_def sees_id_def TransactionVersionOperator_def)
qed

lemma committed_unseen:
  assumes r: "other_reader tid r" and cid: "td_start_time r \<le> cid" "td_transaction_id r \<noteq> cid"
  shows "visible_to r (committed_version tid cid v) = visible_to r v"
proof -
  have "\<not> UseVersion r cid" using cid by (simp add: UseVersion_def sees_id_def TransactionVersionOperator_def)
  then show ?thesis using other_reader_sees(1) [OF r] by (simp add: visible_to_def committed_version_def)
qed

lemma committed_seen:
  assumes "cid < td_start_time r"
  shows "visible_to r (committed_version tid cid v) \<longleftrightarrow>
    (UseVersion r (fst v) \<or> fst v = tid) \<and> \<not> (UseVersion r (snd v) \<or> snd v = tid)"
proof -
  have "UseVersion r cid" using assms by (simp add: UseVersion_def sees_id_def TransactionVersionOperator_def)
  then show ?thesis by (simp add: visible_to_def committed_version_def)
qed

lemma visible_rows_map:
  assumes "\<And>v. v \<in> set vs \<Longrightarrow> visible_to r (f v) = visible_to r v"
  shows "visible_rows r (map f vs) = visible_rows r vs"
  unfolding visible_rows_def length_map using assms by (intro filter_cong) auto

lemma rolled_back_unseen:
  assumes d: "undo_describes tid V es" and r: "other_reader tid r"
  shows "visible_rows r (rolled_back tid (V t)) = visible_rows r (V t)"
proof -
  let ?k = "kept tid (V t)"
  note sees = other_reader_sees [OF r]
  have k: "?k \<le> length (V t)" by (rule kept_rows(2) [OF d])
  have l: "length (rolled_back tid (V t)) = ?k" using k by (simp add: rolled_back_def kept_rows(1) [OF d])
  have "visible_rows r (V t) = filter (\<lambda>j. visible_to r (V t ! j)) ([0..<?k] @ [?k..<length (V t)])"
    using k upt_add_eq_append [of 0 ?k "length (V t) - ?k"] by (simp add: visible_rows_def)
  also have "\<dots> = filter (\<lambda>j. visible_to r (V t ! j)) [0..<?k]"
  proof -
    have "\<not> visible_to r (V t ! j)" if "j \<in> set [?k..<length (V t)]" for j
      using that kept_rows(4) [OF d, of j t] sees(1) by (simp add: visible_to_def)
    then have "filter (\<lambda>j. visible_to r (V t ! j)) [?k..<length (V t)] = []" by (simp add: filter_empty_conv)
    then show ?thesis by simp
  qed
  also have "\<dots> = visible_rows r (rolled_back tid (V t))"
    unfolding visible_rows_def l
  proof (intro filter_cong refl)
    fix j assume "j \<in> set [0..<?k]"
    then have "rolled_back tid (V t) ! j = (if snd (V t ! j) = tid then (fst (V t ! j), NOT_DELETED_ID) else V t ! j)"
      using k by (simp add: rolled_back_def kept_rows(1) [OF d])
    then show "visible_to r (V t ! j) = visible_to r (rolled_back tid (V t) ! j)" using sees by (simp add: visible_to_def)
  qed
  finally show ?thesis by simp
qed

section \<open>Properties\<close>

text \<open>
  C6: Commit is atomic.  The commit loop over a transaction's undo buffer ends.  Either it succeeds, and
  in all tables exactly the transaction's id has become the commit id, as insertion and as deletion id of
  every row and nowhere else; or a catalog entry throws, and then reverting the commit up to that entry
  and rolling back both succeed and leave every table without the rows the transaction inserted and with
  the rows it deleted restored, whatever part of the entries had been committed.
\<close>

theorem commit_atomic:
  assumes "undo_wf ub" "changes_of tid (undo_entries ub) db"
    and "tid \<noteq> 0" "tid \<noteq> NOT_DELETED_ID" "cid \<noteq> NOT_DELETED_ID"
    and "\<forall>t. \<forall>v\<in>set (versions db t). fst v \<noteq> cid"
  shows "\<exists>db1 it r. undo_Commit calls start_time cid ub db = Some (db1, it, r)
    \<and> (r = None \<and> (\<forall>t. table_ok (db_tables db1 t) \<and> versions db1 t = map (committed_version tid cid) (versions db t))
       \<or> (\<exists>err p db2 db3. r = Some err \<and> CATALOG_ENTRY p \<in> set (undo_entries ub)
           \<and> undo_RevertCommit calls it tid ub db1 = Some (db2, None) \<and> undo_Rollback calls ub db2 = Some (db3, None)
           \<and> (\<forall>t. table_ok (db_tables db3 t) \<and> versions db3 t = rolled_back tid (versions db t))))"
  using assms by (rule commit_atomic_aux)

text \<open>
  C7: Snapshot isolation of commits.  After a successful commit a transaction that started before the
  commit sees in every table exactly the rows it saw before; one that started after it sees the rows as if
  the committed transaction's changes were its own.
\<close>

theorem commit_isolation:
  assumes "undo_wf ub" "changes_of tid (undo_entries ub) db"
    and "tid \<noteq> 0" "tid \<noteq> NOT_DELETED_ID" "cid \<noteq> NOT_DELETED_ID"
    and "\<forall>t. \<forall>v\<in>set (versions db t). fst v \<noteq> cid"
    and "undo_Commit calls start_time cid ub db = Some (db1, it, None)"
  shows "(other_reader tid r \<and> td_start_time r \<le> cid \<and> td_transaction_id r \<noteq> cid \<longrightarrow>
      visible_rows r (versions db1 t) = visible_rows r (versions db t))
    \<and> (cid < td_start_time r \<longrightarrow> visible_rows r (versions db1 t) = filter (\<lambda>j. let v = versions db t ! j in
         (UseVersion r (fst v) \<or> fst v = tid) \<and> \<not> (UseVersion r (snd v) \<or> snd v = tid)) [0..<length (versions db t)])"
proof -
  have v: "versions db1 t = map (committed_version tid cid) (versions db t)"
    using commit_atomic_aux [OF assms(1-6), of calls start_time] assms(7) by auto
  show ?thesis
  proof (intro conjI impI)
    show "visible_rows r (versions db1 t) = visible_rows r (versions db t)"
      if "other_reader tid r \<and> td_start_time r \<le> cid \<and> td_transaction_id r \<noteq> cid"
      unfolding v using that committed_unseen by (intro visible_rows_map) blast
    show "visible_rows r (versions db1 t) = filter (\<lambda>j. let v = versions db t ! j in
         (UseVersion r (fst v) \<or> fst v = tid) \<and> \<not> (UseVersion r (snd v) \<or> snd v = tid)) [0..<length (versions db t)]"
      if "cid < td_start_time r"
      unfolding visible_rows_def v length_map using committed_seen [OF that] by (intro filter_cong refl) (simp add: Let_def)
  qed
qed

text \<open>
  C8: Rollback.  The rollback of a transaction that has not started to commit succeeds, removes the rows
  it inserted from every table, restores those it deleted, and no other transaction notices: each sees the
  same rows as before.
\<close>

theorem rollback_restores:
  assumes "undo_wf ub" "changes_of tid (undo_entries ub) db" "tid \<noteq> NOT_DELETED_ID"
  shows "\<exists>db'. undo_Rollback calls ub db = Some (db', None)
    \<and> (\<forall>t. table_ok (db_tables db' t) \<and> versions db' t = rolled_back tid (versions db t)
         \<and> (\<forall>r. other_reader tid r \<longrightarrow> visible_rows r (versions db' t) = visible_rows r (versions db t)))"
proof -
  have d: "undo_describes tid (versions db) (undo_entries ub)" using assms(2) by (simp add: changes_of_def)
  have "\<exists>db'. undo_Rollback calls ub db = Some (db', None)
      \<and> (\<forall>t. table_ok (db_tables db' t) \<and> versions db' t = rolled_back tid (versions db t))"
  proof (rule Rollback_ok [OF assms(1) refl d assms(3) start_state [OF assms(2)]])
    show "fst (versions db t ! j) \<noteq> tid" if "j < kept tid (versions db t)" for t j
      using kept_rows(4) [OF d, of j t] kept_rows(2) [OF d, of t] that by auto
  qed simp
  then show ?thesis using rolled_back_unseen [OF d] by auto
qed

subsection \<open>An example\<close>

text \<open>
  Table 0 has rows 2 to 4 of transaction \<open>TRANSACTION_ID_START\<close>, which also deleted row 0; all other
  tables are empty.
\<close>

definition changed_vector :: chunk_vector_info where
  "changed_vector = example_vector\<lparr>deleted := (deleted example_vector)(0 := TRANSACTION_ID_START), any_deleted := True\<rparr>"

definition changed_group :: row_group where
  "changed_group = SetVersionInfo (Some ((RowVersionManager 0)\<lparr>vector_info := [Some (VECTOR_INFO changed_vector)]\<rparr>)) (RowGroup 0 5)"

definition changed_rows :: row_group_collection where
  "changed_rows = example_rows\<lparr>row_groups := \<lparr>nodes = [(0, changed_group)], unloaded = [], finished_loading = True\<rparr>\<rparr>"

definition changed_db :: "unit database" where
  "changed_db = \<lparr>db_tables = (\<lambda>t. if t = 0 then changed_rows else example_table), version_number = (\<lambda>_. 0), db_other = ()\<rparr>"

definition changed_undo :: undo_buffer where
  "changed_undo = [\<lparr>blk_position = 32, blk_capacity = 4096, blk_entries =
     [(8, DELETE_TUPLE \<lparr>de_table = 0, de_info = \<lparr>du_version_info = 0, du_base_row = 0, du_info = \<lparr>di_vector_idx = 0, di_count = 1,
          di_is_consecutive = True, di_rows = (\<lambda>_. 0)\<rparr>\<rparr>\<rparr>),
      (8, INSERT_TUPLE \<lparr>ai_table = 0, ai_start_row = 2, ai_count = 3\<rparr>)]\<rparr>]"

lemma changed_group_manager:
  "loads changed_group" "loaded_manager changed_group = (RowVersionManager 0)\<lparr>vector_info := [Some (VECTOR_INFO changed_vector)]\<rparr>"
  "attached changed_group" "sg_start changed_group = 0" "sg_count changed_group = 5" "sg_next changed_group = None"
proof -
  have "\<not> HasUnloadedDeletes (RowGroup 0 5)" by (simp add: HasUnloadedDeletes_def RowGroup_def SegmentBase_def)
  note m = manager_set [OF this, of "(RowVersionManager 0)\<lparr>vector_info := [Some (VECTOR_INFO changed_vector)]\<rparr>", folded changed_group_def]
  show "loads changed_group" "attached changed_group"
    "loaded_manager changed_group = (RowVersionManager 0)\<lparr>vector_info := [Some (VECTOR_INFO changed_vector)]\<rparr>" by (rule m)+
  show "sg_start changed_group = 0" "sg_count changed_group = 5" "sg_next changed_group = None"
    by (simp_all add: changed_group_def SetVersionInfo_def RowGroup_def SegmentBase_def)
qed

lemma changed_vector_versions:
  "inserted changed_vector = inserted example_vector" "insert_id changed_vector = insert_id example_vector"
  "same_inserted_id changed_vector = same_inserted_id example_vector"
  "deleted changed_vector i = (if i = 0 then TRANSACTION_ID_START else NOT_DELETED_ID)" "any_deleted changed_vector"
  by (simp_all add: changed_vector_def example_vector_def vector_append_inserted ChunkVectorInfo_def)

lemma changed_group_rows:
  "group_rows changed_group = [(3, TRANSACTION_ID_START), (3, NOT_DELETED_ID), (TRANSACTION_ID_START, NOT_DELETED_ID),
     (TRANSACTION_ID_START, NOT_DELETED_ID), (TRANSACTION_ID_START, NOT_DELETED_ID)]"
proof -
  have u: "[0..<5] = [0, 1, 2, 3, 4::nat]" by (simp add: upt_rec)
  show ?thesis
    by (simp add: group_rows_def changed_group_manager u row_version_at_def version_in_def info_at_def STANDARD_VECTOR_SIZE_def
        RowVersionManager_def changed_vector_def example_vector_def vector_append_inserted ChunkVectorInfo_def)
qed

lemma changed_rows_ok: "table_ok changed_rows" "coll_rows changed_rows = group_rows changed_group"
  "groups changed_rows = [changed_group]" "total_rows changed_rows = 5"
proof -
  have "cv_wf 0 (ChunkVectorInfo 0)" by (simp add: ChunkVectorInfo_def cv_wf_def any_deleted_wf_def)
  then have "cv_wf 5 example_vector" unfolding example_vector_def by (intro vector_append_wf) (auto intro: vector_append_wf)
  then have "cv_wf 5 changed_vector" by (simp add: cv_wf_def any_deleted_wf_def changed_vector_versions)
  then have "\<forall>v. \<not> Suc 0 \<le> v \<longrightarrow> cv_wf (5 - v * 2048) changed_vector" by (auto simp: not_less_eq_eq)
  then have "group_wf 2048 changed_group"
    by (simp add: group_wf_def changed_group_manager rvm_wf_def info_at_def vector_rows_def STANDARD_VECTOR_SIZE_def
        row_version_at_def version_in_def RowVersionManager_def nth_Cons' changed_vector_versions)
  moreover show g: "groups changed_rows = [changed_group]"
    by (simp add: changed_rows_def segments_def unlinked_def changed_group_manager)
  ultimately show "table_ok changed_rows"
    by (simp add: table_ok_def changed_rows_def example_rows_def coll_wf_def tree_wf_def linked_def segments_def
        changed_group_manager valid_size_def STANDARD_VECTOR_SIZE_def)
  show "coll_rows changed_rows = group_rows changed_group" using g by (simp add: coll_rows_def)
  show "total_rows changed_rows = 5" by (simp add: changed_rows_def)
qed

lemma changed_undo_ok:
  "undo_wf changed_undo"
  "undo_entries changed_undo = [DELETE_TUPLE \<lparr>de_table = 0, de_info = \<lparr>du_version_info = 0, du_base_row = 0, du_info = \<lparr>di_vector_idx = 0, di_count = 1,
          di_is_consecutive = True, di_rows = (\<lambda>_. 0)\<rparr>\<rparr>\<rparr>, INSERT_TUPLE \<lparr>ai_table = 0, ai_start_row = 2, ai_count = 3\<rparr>]"
  by (simp_all add: changed_undo_def undo_wf_def undo_entries_def UNDO_ENTRY_HEADER_SIZE_def)

lemma empty_table_ok: "table_ok example_table" "coll_rows example_table = []"
  using example_table_wf by (simp_all add: table_ok_def)
    (simp_all add: example_table_def RowGroupCollection_def empty_segment_tree_def)

lemma changed_versions: "versions changed_db t = (if t = 0 then [(3, TRANSACTION_ID_START), (3, NOT_DELETED_ID),
    (TRANSACTION_ID_START, NOT_DELETED_ID), (TRANSACTION_ID_START, NOT_DELETED_ID), (TRANSACTION_ID_START, NOT_DELETED_ID)] else [])"
  by (simp add: changed_db_def changed_rows_ok(2) changed_group_rows empty_table_ok)

lemma changed_ids: "TRANSACTION_ID_START \<noteq> 0" "TRANSACTION_ID_START \<noteq> NOT_DELETED_ID" "TRANSACTION_ID_START \<noteq> 3"
  by (simp_all add: TRANSACTION_ID_START_def NOT_DELETED_ID_def)

lemma changed_describes: "undo_describes TRANSACTION_ID_START (versions changed_db) (undo_entries changed_undo)"
proof -
  have ne: "(3 :: transaction_t) \<noteq> TRANSACTION_ID_START" "NOT_DELETED_ID \<noteq> TRANSACTION_ID_START" using changed_ids by auto
  have sel: "nth [(3, TRANSACTION_ID_START), (3, NOT_DELETED_ID), (TRANSACTION_ID_START, NOT_DELETED_ID),
    (TRANSACTION_ID_START, NOT_DELETED_ID), (TRANSACTION_ID_START, NOT_DELETED_ID)] j =
      (if j \<le> 1 then (3, if j = 0 then TRANSACTION_ID_START else NOT_DELETED_ID) else (TRANSACTION_ID_START, NOT_DELETED_ID))"
    if "j < 5" for j :: nat
    using that unfolding less_5 by auto
  show ?thesis
    unfolding undo_describes_def changed_undo_ok(2)
    using ne sel by (auto simp: changed_versions undo_rows_def delete_rows_def all_less_5 nth_Cons' inserted_tables_def deleted_rows_def split: if_splits)
qed

lemma changed_changes: "changes_of TRANSACTION_ID_START (undo_entries changed_undo) changed_db"
proof -
  have "no_dropped changed_group"
    by (simp add: no_dropped_def changed_group_manager info_at_def nth_Cons')
  then have "points_to changed_rows \<lparr>du_version_info = 0, du_base_row = 0, du_info = \<lparr>di_vector_idx = 0, di_count = 1,
          di_is_consecutive = True, di_rows = (\<lambda>_. 0)\<rparr>\<rparr>"
    by (simp add: points_to_def undo_located_def located_def extents_def changed_rows_ok(3) changed_group_manager delete_rows_def
        STANDARD_VECTOR_SIZE_def)
  then show ?thesis using changed_describes changed_rows_ok(1) empty_table_ok(1)
    by (auto simp: changes_of_def changed_undo_ok(2) changed_db_def)
qed

text \<open>A catalog, update chains and indexes without state.\<close>

definition no_calls :: "unit calls" where
  "no_calls = \<lparr>commit_catalog = (\<lambda>_ _ _ c. (c, None)), revert_catalog = (\<lambda>_ _ c. c), undo_catalog = (\<lambda>_ c. c),
     cleanup_catalog = (\<lambda>_ c. c), rollback_update = (\<lambda>_ c. c), cleanup_update = (\<lambda>_ c. c), has_indexes = (\<lambda>_ _. False),
     revert_indexes = (\<lambda>_ _ _ c. c), remove_from_indexes = (\<lambda>_ _ c. c)\<rparr>"

lemma changed_facts:
  "undo_wf changed_undo" "changes_of TRANSACTION_ID_START (undo_entries changed_undo) changed_db"
  "TRANSACTION_ID_START \<noteq> 0" "TRANSACTION_ID_START \<noteq> NOT_DELETED_ID" "(9 :: transaction_t) \<noteq> NOT_DELETED_ID"
  "\<forall>t. \<forall>v\<in>set (versions changed_db t). fst v \<noteq> 9"
  by (rule changed_undo_ok changed_changes changed_ids)+
    (auto simp: changed_versions NOT_DELETED_ID_def TRANSACTION_ID_START_def)

lemma changed_no_catalog: "CATALOG_ENTRY p \<notin> set (undo_entries changed_undo)"
  by (simp add: changed_undo_ok(2))

theorem commit_atomic_witness:
  "\<exists>db1 it. undo_Commit no_calls 4 9 changed_undo changed_db = Some (db1, it, None)
     \<and> versions db1 0 = [(3, 9), (3, NOT_DELETED_ID), (9, NOT_DELETED_ID), (9, NOT_DELETED_ID), (9, NOT_DELETED_ID)]"
proof -
  have ne: "NOT_DELETED_ID \<noteq> TRANSACTION_ID_START" "3 \<noteq> TRANSACTION_ID_START" using changed_ids by auto
  show ?thesis
    using commit_atomic [OF changed_facts, of no_calls 4] changed_no_catalog ne
    by (auto simp: changed_versions committed_version_def)
qed

lemma changed_commit: "\<exists>db1 it. undo_Commit no_calls 4 9 changed_undo changed_db = Some (db1, it, None)"
  using commit_atomic_aux [OF changed_facts, of no_calls 4] changed_no_catalog by blast

text \<open>A reader that started before the commit and one that started after it.\<close>

theorem commit_isolation_witness:
  "\<exists>db1 it. undo_Commit no_calls 4 9 changed_undo changed_db = Some (db1, it, None)
     \<and> visible_rows \<lparr>td_transaction_id = TRANSACTION_ID_START + 1, td_start_time = 5\<rparr> (versions db1 0) = [0, 1]
     \<and> visible_rows \<lparr>td_transaction_id = TRANSACTION_ID_START + 2, td_start_time = 10\<rparr> (versions db1 0) = [1, 2, 3, 4]"
proof -
  let ?r = "\<lparr>td_transaction_id = TRANSACTION_ID_START + 1, td_start_time = 5\<rparr>"
  let ?s = "\<lparr>td_transaction_id = TRANSACTION_ID_START + 2, td_start_time = 10\<rparr>"
  obtain db1 it where c: "undo_Commit no_calls 4 9 changed_undo changed_db = Some (db1, it, None)" using changed_commit by blast
  have u: "[0..<5] = [0, 1, 2, 3, 4::nat]" by (simp add: upt_rec)
  have "other_reader TRANSACTION_ID_START ?r"
    by (simp add: other_reader_def reader_def reader_ids_def TRANSACTION_ID_START_def NOT_DELETED_ID_def)
  then have "visible_rows ?r (versions db1 0) = visible_rows ?r (versions changed_db 0)"
    using commit_isolation [OF changed_facts c, of ?r 0] by (simp add: TRANSACTION_ID_START_def)
  moreover have "visible_rows ?r (versions changed_db 0) = [0, 1]"
    by (simp add: visible_rows_def changed_versions u visible_to_def UseVersion_def sees_id_def TransactionVersionOperator_def
        TRANSACTION_ID_START_def NOT_DELETED_ID_def)
  moreover have "visible_rows ?s (versions db1 0) = [1, 2, 3, 4]"
    using commit_isolation [OF changed_facts c, of ?s 0]
    by (simp add: changed_versions u UseVersion_def sees_id_def TransactionVersionOperator_def
        TRANSACTION_ID_START_def NOT_DELETED_ID_def)
  ultimately show ?thesis using c by auto
qed

theorem rollback_restores_witness:
  "\<exists>db'. undo_Rollback no_calls changed_undo changed_db = Some (db', None)
     \<and> versions db' 0 = [(3, NOT_DELETED_ID), (3, NOT_DELETED_ID)]"
proof -
  have ne: "NOT_DELETED_ID \<noteq> TRANSACTION_ID_START" "3 \<noteq> TRANSACTION_ID_START" using changed_ids by auto
  show ?thesis
    using rollback_restores [OF changed_facts(1,2,4), of no_calls] ne
    by (auto simp: changed_versions rolled_back_def)
qed

end
