(* ===== verification/TransactionOrder.thy ===== *)
theory TransactionOrder
  imports TransactionManager TransactionEffects
begin

text \<open>
  All runs of the transaction manager: any number of transactions that start, work, commit and roll back
  in any interleaving of the sections that hold the transaction lock.  Time stamps order them and garbage
  collection waits for every reader.
\<close>

section \<open>Steps\<close>

text \<open>A commit that writes the log is interrupted twice; who has the exclusive checkpoint key.\<close>

datatype commit_phase = WriteLog commit_locals | FinishCommit commit_locals "version_error option" bool

datatype key_owner = InCommit transaction_t | Checkpointing

text \<open>
  \<open>sys_log\<close> and \<open>sys_stored\<close> are history: the id, start time and commit id of each transaction that
  committed, and the transactions whose changes readers may still need.  The mutexes for the log and for
  the start of transactions are left out: without them there are more runs.
\<close>

record 'c system =
  sys_manager :: "'c manager"
  sys_phase :: "transaction_t \<rightharpoonup> commit_phase"
  sys_key :: "key_owner option"
  sys_log :: "(transaction_t \<times> transaction_t \<times> transaction_t) list"
  sys_stored :: "transaction_t set"

definition needs_store :: "commit_locals \<Rightarrow> version_error option \<Rightarrow> bool" where
  "needs_store v err \<longleftrightarrow> has_updates (cl_properties v) \<or> has_index_deletes (cl_properties v)
     \<or> has_catalog_changes (cl_properties v) \<or> err \<noteq> None"

definition committed :: "transaction_t \<Rightarrow> commit_locals \<Rightarrow> version_error option \<Rightarrow> 'c manager \<Rightarrow> 'c manager \<Rightarrow> 'c system \<Rightarrow> 'c system" where
  "committed tid v err m m' s =
     s\<lparr>sys_manager := m', sys_phase := (sys_phase s)(tid := None),
       sys_log := (case (err, active_transaction tid m) of
           (None, Some t) \<Rightarrow> sys_log s @ [(tid, start_time t, current_start_timestamp m)] | _ \<Rightarrow> sys_log s),
       sys_stored := (if needs_store v err then insert tid (sys_stored s) else sys_stored s)\<rparr>"

inductive mgr_step :: "'c environment \<Rightarrow> 'c system \<Rightarrow> 'c system \<Rightarrow> bool" for env where
  start: "StartTransaction (sys_manager s) = Inr (tid, m) \<Longrightarrow> mgr_step env s (s\<lparr>sys_manager := m\<rparr>)"
| new_query: "GetNewQueryNumber (sys_manager s) = (q, m) \<Longrightarrow> mgr_step env s (s\<lparr>sys_manager := SetActiveQuery tid q m\<rparr>)"
| end_query: "mgr_step env s (s\<lparr>sys_manager := SetActiveQuery tid MAXIMUM_QUERY_ID (sys_manager s)\<rparr>)"
| read_write: "sys_phase s tid = None \<Longrightarrow> SetReadWrite tid (sys_manager s) = Some m \<Longrightarrow>
    mgr_step env s (s\<lparr>sys_manager := m\<rparr>)"
| catalog: "sys_phase s tid = None \<Longrightarrow> PushCatalogEntry env block_size tid e extra (sys_manager s) = Some (Inr m) \<Longrightarrow>
    mgr_step env s (s\<lparr>sys_manager := m\<rparr>)"
| work: "sys_phase s tid = None \<Longrightarrow>
    mgr_step env s (s\<lparr>sys_manager := update_transaction tid (\<lambda>t. t\<lparr>tx_undo_buffer := ub\<rparr>) (sys_manager s\<lparr>mgr_db := db\<rparr>)\<rparr>)"
| commit: "sys_phase s tid = None \<Longrightarrow> commit_begin env tid (sys_manager s) = Some (Inr (v, m)) \<Longrightarrow> \<not> cl_write_wal v \<Longrightarrow>
    commit_finish env tid v None False m = Some (Inr (err, d, m')) \<Longrightarrow>
    mgr_step env s ((committed tid v err m m' s)\<lparr>sys_key := (if can_checkpoint d then Some Checkpointing else sys_key s)\<rparr>)"
| commit_start: "sys_phase s tid = None \<Longrightarrow> commit_begin env tid (sys_manager s) = Some (Inr (v, m)) \<Longrightarrow> cl_write_wal v \<Longrightarrow>
    mgr_step env s (s\<lparr>sys_manager := m, sys_phase := (sys_phase s)(tid \<mapsto> WriteLog v),
      sys_key := (if cl_lock v then Some (InCommit tid) else sys_key s)\<rparr>)"
| commit_log: "sys_phase s tid = Some (WriteLog v) \<Longrightarrow> commit_wal env tid (sys_manager s) = Some (err, cs, m) \<Longrightarrow>
    mgr_step env s (s\<lparr>sys_manager := m, sys_phase := (sys_phase s)(tid \<mapsto> FinishCommit v err cs)\<rparr>)"
| commit_end: "sys_phase s tid = Some (FinishCommit v err cs) \<Longrightarrow>
    commit_finish env tid v err cs (sys_manager s) = Some (Inr (err', d, m')) \<Longrightarrow>
    mgr_step env s ((committed tid v err' (sys_manager s) m' s)\<lparr>sys_key := (if cl_lock v then None else sys_key s)\<rparr>)"
| rollback: "sys_phase s tid = None \<Longrightarrow> rollback_finish env tid (sys_manager s) = Some (err, m) \<Longrightarrow>
    mgr_step env s (s\<lparr>sys_manager := m\<rparr>)"
| cleanup: "cleanup_next env (sys_manager s) = Some m \<Longrightarrow> mgr_step env s (s\<lparr>sys_manager := m\<rparr>)"
| checkpoint: "Checkpoint_attempt force interrupted (checkpoint_lock (sys_manager s)) = Some (Inr l) \<Longrightarrow>
    mgr_step env s (s\<lparr>sys_manager := sys_manager s\<lparr>checkpoint_lock := l\<rparr>, sys_key := Some Checkpointing\<rparr>)"
| checkpoint_done: "sys_key s = Some Checkpointing \<Longrightarrow>
    mgr_step env s (s\<lparr>sys_manager := sys_manager s\<lparr>checkpoint_lock := release_key EXCLUSIVE (checkpoint_lock (sys_manager s))\<rparr>,
      sys_key := None\<rparr>)"

definition system_start :: "'c manager \<Rightarrow> 'c system" where
  "system_start m = \<lparr>sys_manager = m, sys_phase = Map.empty, sys_key = None, sys_log = [], sys_stored = {}\<rparr>"

text \<open>The states of a database that was opened with any uninitialised \<open>last_commit\<close>.\<close>

definition reachable :: "'c environment \<Rightarrow> 'c system \<Rightarrow> bool" where
  "reachable env s \<longleftrightarrow> (\<exists>lc q db. (mgr_step env)\<^sup>*\<^sup>* (system_start (DuckTransactionManager lc q db)) s)"

lemma reachable_induct [consumes 1, case_names init step]:
  assumes "reachable env s"
    and "\<And>lc q db. P (system_start (DuckTransactionManager lc q db))"
    and "\<And>s s'. reachable env s \<Longrightarrow> P s \<Longrightarrow> mgr_step env s s' \<Longrightarrow> P s'"
  shows "P s"
proof -
  obtain lc q db where r: "(mgr_step env)\<^sup>*\<^sup>* (system_start (DuckTransactionManager lc q db)) s"
    using assms(1) by (auto simp: reachable_def)
  then have "P s \<and> reachable env s"
  proof (induction rule: rtranclp_induct)
    case base
    show ?case using assms(2) by (auto simp: reachable_def)
  next
    case (step s s')
    then show ?case using assms(3) by (meson reachable_def rtranclp.rtrancl_into_rtrancl)
  qed
  then show ?thesis by simp
qed

section \<open>Removal\<close>

definition lowest_start :: "transaction list \<Rightarrow> transaction_t" where
  "lowest_start ts = foldl min TRANSACTION_ID_START (map start_time ts)"

lemma foldl_min_le: "foldl min (a :: 'x :: linorder) xs \<le> a \<and> (\<forall>x\<in>set xs. foldl min a xs \<le> x)"
proof (induction xs arbitrary: a)
  case (Cons x xs)
  then have "foldl min (min a x) xs \<le> min a x" by blast
  then show ?case using Cons.IH [of "min a x"] by simp
qed simp

lemma foldl_min_in: "foldl min (a :: 'x :: linorder) xs = a \<or> foldl min a xs \<in> set xs"
proof (induction xs arbitrary: a)
  case (Cons x xs)
  show ?case using Cons.IH [of "min a x"] by (auto simp: min_def split: if_splits)
qed simp

lemma lowest_start_le: "t \<in> set ts \<Longrightarrow> lowest_start ts \<le> start_time t" "lowest_start ts \<le> TRANSACTION_ID_START"
  using foldl_min_le [of TRANSACTION_ID_START "map start_time ts"] by (auto simp: lowest_start_def)

lemma lowest_start_greatest:
  "x \<le> TRANSACTION_ID_START \<Longrightarrow> (\<And>t. t \<in> set ts \<Longrightarrow> x \<le> start_time t) \<Longrightarrow> x \<le> lowest_start ts"
  using foldl_min_in [of TRANSACTION_ID_START "map start_time ts"] by (auto simp: lowest_start_def)

lemma lowest_start_Nil [simp]: "lowest_start [] = TRANSACTION_ID_START"
  by (simp add: lowest_start_def)

lemma scan_active_others:
  "tid \<notin> transaction_id ` set ts \<Longrightarrow> scan_active tid i ts s =
    s\<lparr>scan_start_time := foldl min (scan_start_time s) (map start_time ts),
      scan_transaction_id := foldl min (scan_transaction_id s) (map transaction_id ts),
      scan_active_query := foldl min (scan_active_query s) (map active_query ts)\<rparr>"
  by (induction ts arbitrary: i s) auto

lemma scan_active_append:
  "scan_active tid i (xs @ ys) s = scan_active tid (i + length xs) ys (scan_active tid i xs s)"
  by (induction xs arbitrary: i s) auto

lemma move_committed_split:
  "move_committed low q ts = (stay, moved) \<Longrightarrow>
    \<exists>pre. ts = pre @ stay \<and> moved = map (\<lambda>t. t\<lparr>awaiting_cleanup := True, highest_active_query := q\<rparr>) pre
      \<and> (\<forall>t\<in>set pre. commit_id t < low) \<and> (\<forall>t ts'. stay = t # ts' \<longrightarrow> low \<le> commit_id t)"
proof (induction ts arbitrary: stay moved)
  case (Cons t ts)
  show ?case
  proof (cases "low \<le> commit_id t")
    case False
    obtain st mo where m: "move_committed low q ts = (st, mo)" by fastforce
    from Cons.IH [OF m] obtain pre where "ts = pre @ st"
      "mo = map (\<lambda>t. t\<lparr>awaiting_cleanup := True, highest_active_query := q\<rparr>) pre"
      "\<forall>t\<in>set pre. commit_id t < low" "\<forall>t ts'. st = t # ts' \<longrightarrow> low \<le> commit_id t" by blast
    then show ?thesis using Cons.prems False m by (intro exI [of _ "t # pre"]) auto
  qed (use Cons.prems in auto)
qed simp

lemma count_collectable_le: "count_collectable q ts \<le> length ts"
  by (induction ts) auto

lemma count_collectable_take: "t \<in> set (take (count_collectable q ts) ts) \<Longrightarrow> highest_active_query t < q"
  by (induction ts) (auto simp: not_le split: if_splits)

text \<open>What \<open>RemoveTransaction\<close> does when the transaction is active, as one equation for each list.\<close>

lemma RemoveTransaction_spec:
  assumes a: "active_transactions m = xs @ t # ys" and t: "transaction_id t = tid"
    and d: "tid \<notin> transaction_id ` set (xs @ ys)"
  shows "\<exists>sched m2 pre stay old i. place_transaction env store t m = (sched, m2)
    \<and> recently_committed_transactions m2 = pre @ stay
    \<and> (\<forall>u\<in>set pre. commit_id u < lowest_start (xs @ ys))
    \<and> (\<forall>u us. stay = u # us \<longrightarrow> lowest_start (xs @ ys) \<le> commit_id u)
    \<and> old = old_transactions m2 @ map (\<lambda>u. u\<lparr>awaiting_cleanup := True, highest_active_query := current_query_number m\<rparr>) pre
    \<and> i \<le> length old \<and> (xs @ ys = [] \<longrightarrow> i = length old)
    \<and> (\<forall>u\<in>set (take i old). \<forall>v\<in>set (xs @ ys). highest_active_query u < active_query v)
    \<and> RemoveTransaction env tid store m =
        Some (\<lparr>lowest_start_time = lowest_start (xs @ ys), info_transactions = sched @ take i old\<rparr>,
              m2\<lparr>lowest_active_start := lowest_start (xs @ ys),
                 lowest_active_id := foldl min MAX_TRANSACTION_ID (map transaction_id (xs @ ys)),
                 active_transactions := xs @ ys, recently_committed_transactions := stay, old_transactions := drop i old\<rparr>)"
proof -
  let ?s0 = "\<lparr>t_index = length (active_transactions m), scan_start_time = TRANSACTION_ID_START,
                scan_transaction_id = MAX_TRANSACTION_ID, scan_active_query = MAXIMUM_QUERY_ID\<rparr>"
  let ?q = "foldl min MAXIMUM_QUERY_ID (map active_query (xs @ ys))"
  have s: "scan_active tid 0 (active_transactions m) ?s0 =
     \<lparr>t_index = length xs, scan_start_time = lowest_start (xs @ ys),
      scan_transaction_id = foldl min MAX_TRANSACTION_ID (map transaction_id (xs @ ys)), scan_active_query = ?q\<rparr>"
    using d t by (simp add: a scan_active_append scan_active_others lowest_start_def image_Un)
  obtain sched m2 where p: "place_transaction env store t m = (sched, m2)" by fastforce
  let ?m1 = "m\<lparr>lowest_active_start := lowest_start (xs @ ys),
     lowest_active_id := foldl min MAX_TRANSACTION_ID (map transaction_id (xs @ ys))\<rparr>"
  have p1: "place_transaction env store t ?m1 =
    (sched, m2\<lparr>lowest_active_start := lowest_start (xs @ ys), lowest_active_id := foldl min MAX_TRANSACTION_ID (map transaction_id (xs @ ys))\<rparr>)"
    using p by (auto simp: place_transaction_def split: if_splits)
  obtain stay moved where mv: "move_committed (lowest_start (xs @ ys)) (current_query_number m) (recently_committed_transactions m2) = (stay, moved)"
    by fastforce
  from move_committed_split [OF mv] obtain pre where pre: "recently_committed_transactions m2 = pre @ stay"
    "moved = map (\<lambda>t. t\<lparr>awaiting_cleanup := True, highest_active_query := current_query_number m\<rparr>) pre"
    "\<forall>t\<in>set pre. commit_id t < lowest_start (xs @ ys)" "\<forall>t ts'. stay = t # ts' \<longrightarrow> lowest_start (xs @ ys) \<le> commit_id t" by blast
  define old where "old = old_transactions m2 @ moved"
  define i where "i = (if xs @ ys = [] then length old else count_collectable ?q old)"
  have i: "i \<le> length old" "xs @ ys = [] \<longrightarrow> i = length old"
    using count_collectable_le [of ?q old] by (simp_all add: i_def del: append_is_Nil_conv)
  have q: "highest_active_query u < active_query v" if "u \<in> set (take i old)" "v \<in> set (xs @ ys)" for u v
  proof -
    have "xs @ ys \<noteq> []" using that(2) by auto
    then have "highest_active_query u < ?q" using that(1) count_collectable_take [of u ?q old] by (simp only: i_def if_False)
    also have "?q \<le> active_query v" using foldl_min_le [of MAXIMUM_QUERY_ID "map active_query (xs @ ys)"] that(2) by auto
    finally show ?thesis .
  qed
  have tk: "take (length xs) (xs @ t # ys) @ drop (Suc (length xs)) (xs @ t # ys) = xs @ ys" by simp
  have r: "RemoveTransaction env tid store m =
        Some (\<lparr>lowest_start_time = lowest_start (xs @ ys), info_transactions = sched @ take i old\<rparr>,
              m2\<lparr>lowest_active_start := lowest_start (xs @ ys),
                 lowest_active_id := foldl min MAX_TRANSACTION_ID (map transaction_id (xs @ ys)),
                 active_transactions := xs @ ys, recently_committed_transactions := stay, old_transactions := drop i old\<rparr>)"
  proof (cases "xs @ ys = []")
    case True
    show ?thesis unfolding RemoveTransaction_def Let_def s
      using p1 [unfolded True] mv [unfolded True]
      by (simp add: a True tk i_def flip: old_def del: append_is_Nil_conv)
  next
    case False
    then show ?thesis unfolding RemoveTransaction_def Let_def s
      by (simp add: a p1 mv tk i_def flip: old_def del: append_is_Nil_conv take_append drop_append foldl_append map_append)
  qed
  show ?thesis
    using p pre i q r by (intro exI [of _ sched] exI [of _ m2] exI [of _ pre] exI [of _ stay] exI [of _ old] exI [of _ i])
      (simp add: old_def del: append_is_Nil_conv take_append drop_append foldl_append map_append)
qed

section \<open>Time stamps and garbage collection\<close>

abbreviation starts :: "'c manager \<Rightarrow> transaction_t list" where
  "starts m \<equiv> map start_time (active_transactions m)"

abbreviation ids :: "'c manager \<Rightarrow> transaction_t list" where
  "ids m \<equiv> map transaction_id (active_transactions m)"

text \<open>
  Each started transaction and each commit takes one time stamp, and transactions stop starting at
  \<open>TRANSACTION_ID_START\<close>: no counter wraps around.
\<close>

definition issued :: "'c manager \<Rightarrow> nat" where
  "issued m = unat (current_transaction_id m) - unat TRANSACTION_ID_START"

definition clock_ok :: "'c manager \<Rightarrow> bool" where
  "clock_ok m \<longleftrightarrow> TRANSACTION_ID_START \<le> current_transaction_id m \<and> 2 + issued m \<le> unat (current_start_timestamp m)
     \<and> unat (current_start_timestamp m) + length (active_transactions m) \<le> 2 + 2 * issued m
     \<and> issued m + 2 \<le> unat TRANSACTION_ID_START"

definition active_ok :: "'c manager \<Rightarrow> bool" where
  "active_ok m \<longleftrightarrow> sorted_wrt (<) (starts m) \<and> sorted_wrt (<) (ids m)
     \<and> (\<forall>x\<in>set (starts m). 0 < x \<and> x < current_start_timestamp m \<and> x < TRANSACTION_ID_START)
     \<and> (\<forall>i\<in>set (ids m). TRANSACTION_ID_START \<le> i \<and> i < current_transaction_id m)
     \<and> (\<forall>t\<in>set (active_transactions m). commit_id t = 0 \<and> \<not> awaiting_cleanup t)"

definition lowest_ok :: "'c manager \<Rightarrow> bool" where
  "lowest_ok m \<longleftrightarrow> (starts m = [] \<longrightarrow> TRANSACTION_ID_START \<le> lowest_active_start m)
     \<and> (starts m \<noteq> [] \<longrightarrow> lowest_active_start m = hd (starts m) \<and> lowest_active_id m = hd (ids m))"

definition log_ok :: "'c system \<Rightarrow> bool" where
  "log_ok s \<longleftrightarrow> (let m = sys_manager s in
     sorted_wrt (<) (map (snd \<circ> snd) (sys_log s))
     \<and> (\<forall>(i, st, c)\<in>set (sys_log s). st < c \<and> c < current_start_timestamp m \<and> c \<le> last_commit m
          \<and> c \<notin> set (starts m) \<and> i \<notin> set (ids m) \<and> TRANSACTION_ID_START \<le> i \<and> i < current_transaction_id m)
     \<and> (\<forall>i\<in>sys_stored s. i \<notin> set (ids m) \<and> i < current_transaction_id m))"

definition logged :: "'c system \<Rightarrow> transaction \<Rightarrow> bool" where
  "logged s t \<longleftrightarrow> (transaction_id t, start_time t, commit_id t) \<in> set (sys_log s)"

definition recent_ok :: "'c system \<Rightarrow> bool" where
  "recent_ok s \<longleftrightarrow> (let m = sys_manager s in
     sorted_wrt (<) (map commit_id (recently_committed_transactions m))
     \<and> (\<forall>t\<in>set (recently_committed_transactions m). logged s t \<and> lowest_active_start m \<le> commit_id t))"

text \<open>A transaction that needs cleanup committed before any active transaction started.\<close>

definition old_ok :: "'c system \<Rightarrow> bool" where
  "old_ok s \<longleftrightarrow> (let m = sys_manager s in
     (\<forall>t\<in>set (old_transactions m). if awaiting_cleanup t then logged s t \<and> (\<forall>x\<in>set (starts m). commit_id t < x) else commit_id t = 0)
     \<and> (starts m = [] \<longrightarrow> old_transactions m = []))"

definition queue_ok :: "'c system \<Rightarrow> bool" where
  "queue_ok s \<longleftrightarrow> (let m = sys_manager s in
     \<forall>info\<in>set (cleanup_queue m). \<forall>t\<in>set (info_transactions info).
       if awaiting_cleanup t
       then logged s t \<and> (\<forall>x\<in>set (starts m). commit_id t < x \<or> lowest_start_time info \<le> x \<and> transaction_id t \<notin> sys_stored s)
       else commit_id t = 0)"

definition order_inv :: "'c system \<Rightarrow> bool" where
  "order_inv s \<longleftrightarrow> clock_ok (sys_manager s) \<and> active_ok (sys_manager s) \<and> lowest_ok (sys_manager s)
     \<and> log_ok s \<and> recent_ok s \<and> old_ok s \<and> queue_ok s"

lemmas order_inv_defs = order_inv_def clock_ok_def active_ok_def lowest_ok_def log_ok_def recent_ok_def old_ok_def queue_ok_def
  logged_def issued_def

lemma order_inv_cong [simp]: "order_inv (s\<lparr>sys_key := k\<rparr>) = order_inv s" "order_inv (s\<lparr>sys_phase := p\<rparr>) = order_inv s"
  by (simp_all add: order_inv_defs)

text \<open>Operations that leave the times alone.\<close>

definition same_times :: "'c manager \<Rightarrow> 'c manager \<Rightarrow> bool" where
  "same_times m m' \<longleftrightarrow> starts m' = starts m \<and> ids m' = ids m
     \<and> (\<forall>t\<in>set (active_transactions m'). commit_id t = 0 \<and> \<not> awaiting_cleanup t)
     \<and> current_start_timestamp m' = current_start_timestamp m \<and> current_transaction_id m' = current_transaction_id m
     \<and> lowest_active_start m' = lowest_active_start m \<and> lowest_active_id m' = lowest_active_id m
     \<and> last_commit m' = last_commit m \<and> recently_committed_transactions m' = recently_committed_transactions m
     \<and> old_transactions m' = old_transactions m \<and> (\<exists>n. cleanup_queue m' = drop n (cleanup_queue m))"

lemma same_times_order:
  assumes "order_inv s" "same_times (sys_manager s) (sys_manager s')" "sys_log s' = sys_log s" "sys_stored s' = sys_stored s"
  shows "order_inv s'"
proof -
  have l: "length (active_transactions (sys_manager s')) = length (active_transactions (sys_manager s))"
    using assms(2) by (metis length_map same_times_def)
  have emp: "(active_transactions (sys_manager s') = []) = (active_transactions (sys_manager s) = [])" using l by auto
  note e = assms(2) [unfolded same_times_def] assms(3,4) emp
  have lg: "logged s' = logged s" using e by (simp add: fun_eq_iff logged_def)
  have o: "clock_ok (sys_manager s)" "active_ok (sys_manager s)" "lowest_ok (sys_manager s)" "log_ok s" "recent_ok s" "old_ok s" "queue_ok s"
    using assms(1) by (simp_all add: order_inv_def)
  have "clock_ok (sys_manager s')" using o(1) e l by (simp add: clock_ok_def issued_def)
  moreover have "active_ok (sys_manager s')" using o(2) e by (simp add: active_ok_def del: set_map map_is_Nil_conv)
  moreover have "lowest_ok (sys_manager s')" using o(3) e by (simp add: lowest_ok_def del: set_map map_is_Nil_conv)
  moreover have "log_ok s'" using o(4) e by (simp add: log_ok_def Let_def del: set_map map_is_Nil_conv)
  moreover have "recent_ok s'" using o(5) e lg by (simp add: recent_ok_def Let_def del: set_map map_is_Nil_conv)
  moreover have "old_ok s'" using o(6) e lg by (simp add: old_ok_def Let_def del: set_map map_is_Nil_conv)
  moreover have "queue_ok s'"
  proof -
    have "set (cleanup_queue (sys_manager s')) \<subseteq> set (cleanup_queue (sys_manager s))" using e by (auto dest: in_set_dropD)
    then have "(if awaiting_cleanup t then logged s' t \<and> (\<forall>x\<in>set (starts (sys_manager s')). commit_id t < x
        \<or> lowest_start_time info \<le> x \<and> transaction_id t \<notin> sys_stored s') else commit_id t = 0)"
      if "info \<in> set (cleanup_queue (sys_manager s'))" "t \<in> set (info_transactions info)" for info t
    proof -
      have "info \<in> set (cleanup_queue (sys_manager s))" using that(1) \<open>_ \<subseteq> _\<close> by blast
      with o(7) that(2) have "(if awaiting_cleanup t then logged s t \<and> (\<forall>x\<in>set (starts (sys_manager s)). commit_id t < x
        \<or> lowest_start_time info \<le> x \<and> transaction_id t \<notin> sys_stored s) else commit_id t = 0)"
        unfolding queue_ok_def Let_def by blast
      moreover have "starts (sys_manager s') = starts (sys_manager s)" using e by blast
      ultimately show ?thesis using lg e(3) by (simp only:)
    qed
    then show ?thesis unfolding queue_ok_def Let_def by blast
  qed
  ultimately show ?thesis by (simp add: order_inv_def)
qed

lemma update_times:
  assumes "\<And>t. start_time (f t) = start_time t \<and> transaction_id (f t) = transaction_id t \<and> commit_id (f t) = commit_id t
    \<and> awaiting_cleanup (f t) = awaiting_cleanup t"
  shows "starts (update_transaction tid f m) = starts m" "ids (update_transaction tid f m) = ids m"
    "(\<forall>t\<in>set (active_transactions m). commit_id t = 0 \<and> \<not> awaiting_cleanup t) \<Longrightarrow>
     (\<forall>t\<in>set (active_transactions (update_transaction tid f m)). commit_id t = 0 \<and> \<not> awaiting_cleanup t)"
  using assms by (auto simp: update_transaction_def)

lemma update_fields [simp]:
  "current_start_timestamp (update_transaction tid f m) = current_start_timestamp m"
  "current_transaction_id (update_transaction tid f m) = current_transaction_id m"
  "lowest_active_start (update_transaction tid f m) = lowest_active_start m"
  "lowest_active_id (update_transaction tid f m) = lowest_active_id m"
  "last_commit (update_transaction tid f m) = last_commit m"
  "recently_committed_transactions (update_transaction tid f m) = recently_committed_transactions m"
  "old_transactions (update_transaction tid f m) = old_transactions m"
  "cleanup_queue (update_transaction tid f m) = cleanup_queue m"
  "checkpoint_lock (update_transaction tid f m) = checkpoint_lock m"
  "current_query_number (update_transaction tid f m) = current_query_number m"
  "mgr_db (update_transaction tid f m) = mgr_db m"
  by (simp_all add: update_transaction_def)

lemma same_times_update:
  assumes "active_ok m" "\<And>t. start_time (f t) = start_time t \<and> transaction_id (f t) = transaction_id t \<and> commit_id (f t) = commit_id t
    \<and> awaiting_cleanup (f t) = awaiting_cleanup t"
    and "active_transactions m' = active_transactions m" "current_start_timestamp m' = current_start_timestamp m"
    "current_transaction_id m' = current_transaction_id m" "lowest_active_start m' = lowest_active_start m"
    "lowest_active_id m' = lowest_active_id m" "last_commit m' = last_commit m"
    "recently_committed_transactions m' = recently_committed_transactions m" "old_transactions m' = old_transactions m"
    "cleanup_queue m' = cleanup_queue m"
  shows "same_times m (update_transaction tid f m')"
proof -
  have "\<exists>n. cleanup_queue m' = drop n (cleanup_queue m)" unfolding assms(11) by (rule exI [of _ 0]) (rule drop_0 [symmetric])
  moreover have "\<forall>t\<in>set (active_transactions (update_transaction tid f m')). commit_id t = 0 \<and> \<not> awaiting_cleanup t"
    by (rule update_times(3) [OF assms(2)]) (use assms(1) in \<open>simp add: active_ok_def assms(3)\<close>)
  ultimately show ?thesis
    using assms(3-) update_times(1,2) [OF assms(2), where m = m' and tid = tid] by (simp only: same_times_def update_fields simp_thms)
qed

lemma active_transactionD:
  assumes "active_transaction tid m = Some t"
  shows "t \<in> set (active_transactions m)" "transaction_id t = tid"
  using assms by (auto simp: active_transaction_def find_Some_iff)

lemma active_split:
  assumes "active_transaction tid m = Some t" "sorted_wrt (<) (ids m)"
  shows "\<exists>xs ys. active_transactions m = xs @ t # ys \<and> tid \<notin> transaction_id ` set (xs @ ys)"
proof -
  obtain xs ys where s: "active_transactions m = xs @ t # ys"
    using active_transactionD(1) [OF assms(1)] by (meson split_list)
  moreover have "sorted_wrt (<) (map transaction_id xs @ tid # map transaction_id ys)"
    using assms(2) active_transactionD(2) [OF assms(1)] unfolding s by simp
  then have "tid \<notin> transaction_id ` set (xs @ ys)" unfolding sorted_wrt_append by auto
  ultimately show ?thesis by blast
qed

text \<open>The lists after a removal.\<close>

definition placed :: "'c environment \<Rightarrow> bool \<Rightarrow> transaction \<Rightarrow> 'c manager \<Rightarrow> transaction list \<times> transaction list \<times> transaction list" where
  "placed env store t m =
     (if store then if commit_id t \<noteq> 0 then ([], recently_committed_transactions m @ [t], old_transactions m)
        else ([], recently_committed_transactions m, old_transactions m @ [t\<lparr>highest_active_query := current_query_number m\<rparr>])
      else (if tx_ChangesMade env t (mgr_db m) then [t\<lparr>awaiting_cleanup := True\<rparr>] else [], recently_committed_transactions m, old_transactions m))"

abbreviation collectable :: "transaction_t \<Rightarrow> transaction \<Rightarrow> transaction" where
  "collectable q u \<equiv> u\<lparr>awaiting_cleanup := True, highest_active_query := q\<rparr>"

lemma enqueue_fields:
  "active_transactions (enqueue_cleanup (info, m)) = active_transactions m"
  "recently_committed_transactions (enqueue_cleanup (info, m)) = recently_committed_transactions m"
  "old_transactions (enqueue_cleanup (info, m)) = old_transactions m"
  "cleanup_queue (enqueue_cleanup (info, m)) = cleanup_queue m @ (if info_transactions info = [] then [] else [info])"
  "lowest_active_start (enqueue_cleanup (info, m)) = lowest_active_start m"
  "lowest_active_id (enqueue_cleanup (info, m)) = lowest_active_id m"
  "current_start_timestamp (enqueue_cleanup (info, m)) = current_start_timestamp m"
  "current_transaction_id (enqueue_cleanup (info, m)) = current_transaction_id m"
  "last_commit (enqueue_cleanup (info, m)) = last_commit m"
  "checkpoint_lock (enqueue_cleanup (info, m)) = checkpoint_lock m"
  "mgr_db (enqueue_cleanup (info, m)) = mgr_db m"
  by (simp_all add: enqueue_cleanup_def ScheduleCleanup_def)

lemma remove_lists:
  assumes a: "active_transactions m = xs @ t # ys" and t: "transaction_id t = tid"
    and d: "tid \<notin> transaction_id ` set (xs @ ys)" and r: "RemoveTransaction env tid store m = Some im"
  shows "\<exists>sched R2 O2 pre old i info. placed env store t m = (sched, R2, O2)
    \<and> R2 = pre @ recently_committed_transactions (enqueue_cleanup im)
    \<and> (\<forall>u\<in>set pre. commit_id u < lowest_start (xs @ ys))
    \<and> (\<forall>u us. recently_committed_transactions (enqueue_cleanup im) = u # us \<longrightarrow> lowest_start (xs @ ys) \<le> commit_id u)
    \<and> old = O2 @ map (collectable (current_query_number m)) pre
    \<and> i \<le> length old \<and> (xs @ ys = [] \<longrightarrow> i = length old)
    \<and> (\<forall>u\<in>set (take i old). \<forall>v\<in>set (xs @ ys). highest_active_query u < active_query v)
    \<and> old_transactions (enqueue_cleanup im) = drop i old
    \<and> info = \<lparr>lowest_start_time = lowest_start (xs @ ys), info_transactions = sched @ take i old\<rparr>
    \<and> cleanup_queue (enqueue_cleanup im) = cleanup_queue m @ (if info_transactions info = [] then [] else [info])
    \<and> active_transactions (enqueue_cleanup im) = xs @ ys
    \<and> lowest_active_start (enqueue_cleanup im) = lowest_start (xs @ ys)
    \<and> lowest_active_id (enqueue_cleanup im) = foldl min MAX_TRANSACTION_ID (map transaction_id (xs @ ys))
    \<and> current_start_timestamp (enqueue_cleanup im) = current_start_timestamp m
    \<and> current_transaction_id (enqueue_cleanup im) = current_transaction_id m
    \<and> last_commit (enqueue_cleanup im) = last_commit m
    \<and> checkpoint_lock (enqueue_cleanup im) = (if store \<or> tx_ChangesMade env t (mgr_db m) then checkpoint_lock m
         else destroy_transaction t (checkpoint_lock m))
    \<and> mgr_db (enqueue_cleanup im) = mgr_db m"
proof -
  from RemoveTransaction_spec [OF a t d, of env store, unfolded r option.inject] obtain sched m2 pre stay old i where
    p: "place_transaction env store t m = (sched, m2)"
    and s: "recently_committed_transactions m2 = pre @ stay" "\<forall>u\<in>set pre. commit_id u < lowest_start (xs @ ys)"
      "\<forall>u us. stay = u # us \<longrightarrow> lowest_start (xs @ ys) \<le> commit_id u"
      "old = old_transactions m2 @ map (collectable (current_query_number m)) pre"
      "i \<le> length old" "xs @ ys = [] \<longrightarrow> i = length old"
      "\<forall>u\<in>set (take i old). \<forall>v\<in>set (xs @ ys). highest_active_query u < active_query v"
    and im: "im = (\<lparr>lowest_start_time = lowest_start (xs @ ys), info_transactions = sched @ take i old\<rparr>,
              m2\<lparr>lowest_active_start := lowest_start (xs @ ys),
                 lowest_active_id := foldl min MAX_TRANSACTION_ID (map transaction_id (xs @ ys)),
                 active_transactions := xs @ ys, recently_committed_transactions := stay, old_transactions := drop i old\<rparr>)"
    by (elim exE conjE) (rule that; assumption)
  have m2: "placed env store t m = (sched, recently_committed_transactions m2, old_transactions m2)"
    "cleanup_queue m2 = cleanup_queue m" "current_start_timestamp m2 = current_start_timestamp m"
    "current_transaction_id m2 = current_transaction_id m" "last_commit m2 = last_commit m"
    "checkpoint_lock m2 = (if store \<or> tx_ChangesMade env t (mgr_db m) then checkpoint_lock m else destroy_transaction t (checkpoint_lock m))"
    "mgr_db m2 = mgr_db m"
    using p by (auto simp: place_transaction_def placed_def split: if_splits)
  let ?info = "\<lparr>lowest_start_time = lowest_start (xs @ ys), info_transactions = sched @ take i old\<rparr>"
  have f: "recently_committed_transactions (enqueue_cleanup im) = stay" "old_transactions (enqueue_cleanup im) = drop i old"
    "cleanup_queue (enqueue_cleanup im) = cleanup_queue m @ (if info_transactions ?info = [] then [] else [?info])"
    "active_transactions (enqueue_cleanup im) = xs @ ys"
    "lowest_active_start (enqueue_cleanup im) = lowest_start (xs @ ys)"
    "lowest_active_id (enqueue_cleanup im) = foldl min MAX_TRANSACTION_ID (map transaction_id (xs @ ys))"
    "current_start_timestamp (enqueue_cleanup im) = current_start_timestamp m"
    "current_transaction_id (enqueue_cleanup im) = current_transaction_id m"
    "last_commit (enqueue_cleanup im) = last_commit m"
    "checkpoint_lock (enqueue_cleanup im) = (if store \<or> tx_ChangesMade env t (mgr_db m) then checkpoint_lock m
       else destroy_transaction t (checkpoint_lock m))"
    "mgr_db (enqueue_cleanup im) = mgr_db m"
    by (simp_all only: im enqueue_fields) (simp_all add: m2)
  show ?thesis
    unfolding f
    by (rule exI [of _ sched], rule exI [of _ "pre @ stay"], rule exI [of _ "old_transactions m2"], rule exI [of _ pre],
        rule exI [of _ old], rule exI [of _ i], rule exI [of _ ?info], intro conjI; (rule refl m2(1) [unfolded s(1)] s(2-7)))
qed

lemma no_wrap:
  assumes "clock_ok m" "active_transactions m \<noteq> []"
  shows "unat (current_start_timestamp m + 1) = unat (current_start_timestamp m) + 1"
    "current_start_timestamp m < current_start_timestamp m + 1" "0 < current_start_timestamp m"
proof -
  have "length (active_transactions m) \<noteq> 0" using assms(2) by simp
  then have b: "unat (current_start_timestamp m) + 1 < 2 ^ 64" "2 \<le> unat (current_start_timestamp m)"
    using assms(1) unfolding clock_ok_def by (simp_all add: TRANSACTION_ID_START_def)
  then show u: "unat (current_start_timestamp m + 1) = unat (current_start_timestamp m) + 1"
    by (simp add: unat_word_ariths)
  show "current_start_timestamp m < current_start_timestamp m + 1" "0 < current_start_timestamp m"
    using b u by (simp_all add: word_less_nat_alt)
qed

text \<open>A transaction that ends: it has committed with the next time stamp, or it has no commit id.\<close>

definition ends :: "'c environment \<Rightarrow> bool \<Rightarrow> transaction \<Rightarrow> transaction \<Rightarrow> 'c system \<Rightarrow> 'c manager \<Rightarrow> 'c system \<Rightarrow> bool" where
  "ends env store t t' s m1 s' \<longleftrightarrow> (let m = sys_manager s; c = current_start_timestamp m in
     start_time t' = start_time t \<and> transaction_id t' = transaction_id t \<and> \<not> awaiting_cleanup t'
     \<and> current_transaction_id m1 = current_transaction_id m
     \<and> recently_committed_transactions m1 = recently_committed_transactions m \<and> old_transactions m1 = old_transactions m
     \<and> cleanup_queue m1 = cleanup_queue m
     \<and> (current_start_timestamp m1 = c \<and> last_commit m1 = last_commit m \<or> current_start_timestamp m1 = c + 1 \<and> last_commit m1 = c)
     \<and> (commit_id t' = 0 \<and> (store \<or> \<not> tx_ChangesMade env t' (mgr_db m1)) \<and> sys_log s' = sys_log s
        \<or> commit_id t' = c \<and> current_start_timestamp m1 = c + 1 \<and> last_commit m1 = c
          \<and> sys_log s' = sys_log s @ [(transaction_id t, start_time t, c)])
     \<and> (sys_stored s' = sys_stored s \<or> store \<and> sys_stored s' = insert (transaction_id t) (sys_stored s)))"

lemma lowest_start_hd:
  assumes "sorted_wrt (<) (map start_time ts)" "\<forall>x\<in>set (map start_time ts). x < TRANSACTION_ID_START" "ts \<noteq> []"
  shows "lowest_start ts = hd (map start_time ts)"
proof -
  obtain u us where ts: "ts = u # us" using assms(3) by (cases ts) auto
  have "lowest_start ts \<le> start_time u" by (rule lowest_start_le) (simp add: ts)
  moreover have "start_time u \<le> lowest_start ts"
    by (rule lowest_start_greatest) (use assms(1,2) in \<open>auto simp: ts less_imp_le\<close>)
  ultimately show ?thesis by (simp add: ts)
qed

lemma foldl_min_hd: "sorted_wrt (<) (x # xs) \<Longrightarrow> (x :: 'x :: linorder) \<le> a \<Longrightarrow> foldl min a (x # xs) = x"
proof -
  assume s: "sorted_wrt (<) (x # xs)" and a: "x \<le> a"
  have "foldl min a (x # xs) \<le> x" using foldl_min_le [of a "x # xs"] by simp
  moreover have "foldl min a (x # xs) \<in> set (a # x # xs)" using foldl_min_in [of a "x # xs"] by auto
  then have "x \<le> foldl min a (x # xs)" using s a by (auto simp: less_imp_le)
  ultimately show ?thesis by simp
qed

lemma remove_order:
  assumes inv: "order_inv s" and a: "active_transactions (sys_manager s) = xs @ t # ys"
    and a1: "active_transactions m1 = xs @ t' # ys"
    and e: "ends env store t t' s m1 s'"
    and r: "RemoveTransaction env (transaction_id t) store m1 = Some im" and s': "sys_manager s' = enqueue_cleanup im"
  shows "order_inv s'"
proof -
  define m where "m = sys_manager s"
  define M where "M = enqueue_cleanup im"
  let ?tid = "transaction_id t" and ?c = "current_start_timestamp m" and ?q = "current_query_number m1"
  note A = a [folded m_def] and M = s' [folded M_def]
  have i: "clock_ok m" "active_ok m" "log_ok s" "recent_ok s" "old_ok s" "queue_ok s"
    using inv by (simp_all add: order_inv_def m_def)
  have E: "start_time t' = start_time t" "transaction_id t' = ?tid" "\<not> awaiting_cleanup t'"
    "current_transaction_id m1 = current_transaction_id m" "recently_committed_transactions m1 = recently_committed_transactions m"
    "old_transactions m1 = old_transactions m" "cleanup_queue m1 = cleanup_queue m"
    "current_start_timestamp m1 = ?c \<and> last_commit m1 = last_commit m \<or> current_start_timestamp m1 = ?c + 1 \<and> last_commit m1 = ?c"
    "commit_id t' = 0 \<and> (store \<or> \<not> tx_ChangesMade env t' (mgr_db m1)) \<and> sys_log s' = sys_log s
        \<or> commit_id t' = ?c \<and> current_start_timestamp m1 = ?c + 1 \<and> last_commit m1 = ?c
          \<and> sys_log s' = sys_log s @ [(?tid, start_time t, ?c)]"
    "sys_stored s' = sys_stored s \<or> store \<and> sys_stored s' = insert ?tid (sys_stored s)"
    using e by (simp_all add: ends_def Let_def m_def)
  have srt: "sorted_wrt (<) (starts m)" "sorted_wrt (<) (ids m)" using i(2) by (simp_all add: active_ok_def)
  have d: "?tid \<notin> transaction_id ` set (xs @ ys)"
    using srt(2) unfolding A map_append list.map sorted_wrt_append by auto
  obtain sched R2 O2 pre old i info where
    p: "placed env store t' m1 = (sched, R2, O2)" and R2: "R2 = pre @ recently_committed_transactions M"
    and pre: "\<forall>u\<in>set pre. commit_id u < lowest_start (xs @ ys)"
    and stay: "\<forall>u us. recently_committed_transactions M = u # us \<longrightarrow> lowest_start (xs @ ys) \<le> commit_id u"
    and old: "old = O2 @ map (collectable ?q) pre" and idle: "xs @ ys = [] \<longrightarrow> i = length old"
    and O: "old_transactions M = drop i old"
    and info: "info = \<lparr>lowest_start_time = lowest_start (xs @ ys), info_transactions = sched @ take i old\<rparr>"
    and Q: "cleanup_queue M = cleanup_queue m1 @ (if info_transactions info = [] then [] else [info])"
    and F: "active_transactions M = xs @ ys" "lowest_active_start M = lowest_start (xs @ ys)"
      "lowest_active_id M = foldl min MAX_TRANSACTION_ID (map transaction_id (xs @ ys))"
      "current_start_timestamp M = current_start_timestamp m1" "current_transaction_id M = current_transaction_id m1"
      "last_commit M = last_commit m1"
    using remove_lists [OF a1 E(2) d r, folded M_def] by (elim exE conjE) (rule that; assumption)
  have ne: "active_transactions m \<noteq> []" by (simp add: A)
  note nw = no_wrap [OF i(1) ne]
  have sub: "set (starts M) \<subseteq> set (starts m)" "set (ids M) \<subseteq> set (ids m)" by (auto simp: F A)
  have cM: "?c \<le> current_start_timestamp M" using E(8) nw(2) by (auto simp: F)
  have old_c: "x < ?c" if "x \<in> set (starts M)" for x using that sub(1) i(2) by (auto simp: active_ok_def)
  have srtM: "sorted_wrt (<) (starts M)" "sorted_wrt (<) (ids M)"
    using srt unfolding A F by (simp_all add: sorted_wrt_append)
  have tisM: "\<forall>x\<in>set (map start_time (xs @ ys)). x < TRANSACTION_ID_START"
    using i(2) by (auto simp: active_ok_def A)

  have "clock_ok M"
    using i(1) E(4,8) nw(1) by (auto simp: clock_ok_def issued_def F A)
  moreover have "active_ok M"
  proof -
    have "\<forall>x\<in>set (starts M). 0 < x \<and> x < current_start_timestamp M \<and> x < TRANSACTION_ID_START"
      using old_c cM tisM sub(1) i(2) by (auto simp: F A active_ok_def intro: less_le_trans)
    moreover have "\<forall>j\<in>set (ids M). TRANSACTION_ID_START \<le> j \<and> j < current_transaction_id M"
      using i(2) sub(2) by (auto simp: active_ok_def F E(4))
    moreover have "\<forall>u\<in>set (active_transactions M). commit_id u = 0 \<and> \<not> awaiting_cleanup u"
      using i(2) by (auto simp: active_ok_def F A)
    ultimately show ?thesis using srtM by (simp add: active_ok_def)
  qed
  moreover have "lowest_ok M"
  proof (cases "xs @ ys")
    case Nil
    then show ?thesis by (simp add: lowest_ok_def F)
  next
    case (Cons u us)
    have "transaction_id u \<le> MAX_TRANSACTION_ID"
    proof -
      have "MAX_TRANSACTION_ID = - 1" by (simp add: MAX_TRANSACTION_ID_def)
      then show ?thesis using word_order.extremum [of "transaction_id u"] by (simp only:)
    qed
    then have "lowest_active_id M = hd (ids M)"
      using srtM(2) unfolding F Cons by (simp only: list.map foldl_min_hd list.sel)
    moreover have "lowest_active_start M = hd (starts M)"
      using lowest_start_hd [OF _ tisM] srtM(1) by (simp add: F Cons)
    ultimately show ?thesis by (simp add: lowest_ok_def F Cons)
  qed
  moreover have "log_ok s'"
  proof -
    have "st < c \<and> c < current_start_timestamp M \<and> c \<le> last_commit M \<and> c \<notin> set (starts M) \<and> j \<notin> set (ids M)
        \<and> TRANSACTION_ID_START \<le> j \<and> j < current_transaction_id M" if j: "(j, st, c) \<in> set (sys_log s')" for j st c
    proof (cases "(j, st, c) \<in> set (sys_log s)")
      case True
      then have L: "st < c" "c < ?c" "c \<le> last_commit m" "c \<notin> set (starts m)" "j \<notin> set (ids m)"
        "TRANSACTION_ID_START \<le> j" "j < current_transaction_id m"
        using i(3) by (auto simp: log_ok_def Let_def simp flip: m_def)
      moreover have "c \<le> last_commit m1" using L(2,3) E(8) by auto
      ultimately show ?thesis using sub cM by (auto simp: F E(4) simp del: set_map intro: less_le_trans)
    next
      case False
      then have n: "j = ?tid" "st = start_time t" "c = ?c" "current_start_timestamp m1 = ?c + 1" "last_commit m1 = ?c"
        using j E(9) by auto
      have "start_time t < ?c" "TRANSACTION_ID_START \<le> ?tid" "?tid < current_transaction_id m"
        using i(2) by (auto simp: active_ok_def A)
      then show ?thesis using n nw(2) old_c d by (auto simp: F E(4))
    qed
    moreover have "sorted_wrt (<) (map (snd \<circ> snd) (sys_log s'))"
    proof -
      have "sorted_wrt (<) (map (snd \<circ> snd) (sys_log s))" "\<forall>c\<in>set (map (snd \<circ> snd) (sys_log s)). c < ?c"
        using i(3) by (auto simp: log_ok_def Let_def simp flip: m_def)
      then show ?thesis using E(9) by (auto simp: sorted_wrt_append)
    qed
    moreover have "j \<notin> set (ids M) \<and> j < current_transaction_id M" if "j \<in> sys_stored s'" for j
    proof (cases "j \<in> sys_stored s")
      case True
      then show ?thesis using i(3) sub(2) by (auto simp: log_ok_def Let_def F E(4) A simp flip: m_def)
    next
      case False
      then have "j = ?tid" using that E(10) by (auto split: if_splits)
      then show ?thesis using d i(2) by (auto simp: F E(4) active_ok_def A)
    qed
    ultimately show ?thesis unfolding log_ok_def Let_def M by fastforce
  qed
  moreover
  have lg: "logged s' u" if "logged s u" for u using that E(9) by (auto simp: logged_def)
  have lgt: "logged s' t'" if "commit_id t' \<noteq> 0" using that E(1,2,9) by (auto simp: logged_def)
  have R2_ok: "logged s' u" if "u \<in> set R2" for u
    using that p i(4) lg lgt by (auto simp: placed_def E(5) recent_ok_def Let_def split: if_splits simp flip: m_def)
  have "recent_ok s'"
  proof -
    have old: "sorted_wrt (<) (map commit_id (recently_committed_transactions m))" using i(4) by (simp add: recent_ok_def Let_def m_def)
    have "commit_id u < ?c" if "u \<in> set (recently_committed_transactions m)" for u
      using i(3,4) that by (fastforce simp: recent_ok_def log_ok_def logged_def Let_def simp flip: m_def)
    then have "sorted_wrt (<) (map commit_id R2)"
      using p old E(9) by (auto simp: placed_def E(5) sorted_wrt_append split: if_splits)
    then have srt: "sorted_wrt (<) (map commit_id (recently_committed_transactions M))"
      by (simp add: R2 sorted_wrt_append)
    have "lowest_start (xs @ ys) \<le> commit_id u" if "u \<in> set (recently_committed_transactions M)" for u
    proof (cases "recently_committed_transactions M")
      case (Cons v vs)
      then have "lowest_start (xs @ ys) \<le> commit_id v" using stay by blast
      then show ?thesis using srt that Cons by (auto intro: order_trans less_imp_le)
    qed (use that in simp)
    then show ?thesis using srt R2_ok unfolding recent_ok_def Let_def M by (auto simp: F R2)
  qed
  moreover
  have old_good: "if awaiting_cleanup u then logged s' u \<and> (\<forall>x\<in>set (starts M). commit_id u < x) else commit_id u = 0"
    if u: "u \<in> set old" for u
  proof -
    have m_old: "if awaiting_cleanup v then logged s v \<and> (\<forall>x\<in>set (starts m). commit_id v < x) else commit_id v = 0"
      if "v \<in> set (old_transactions m)" for v
      using i(5) that unfolding old_ok_def Let_def m_def by blast
    have "u \<in> set (old_transactions m) \<or> u = t'\<lparr>highest_active_query := ?q\<rparr> \<and> commit_id t' = 0" if "u \<in> set O2"
      using that p by (auto simp: placed_def E(6) split: if_splits)
    then consider "u \<in> set (old_transactions m)" | "u = t'\<lparr>highest_active_query := ?q\<rparr>" "commit_id t' = 0"
      | v where "v \<in> set pre" "u = collectable ?q v"
      using u by (auto simp: old)
    then show ?thesis
    proof cases
      case 1
      then show ?thesis using m_old [OF 1] lg sub(1) by (auto split: if_splits)
    next
      case 2
      then show ?thesis using E(3) by simp
    next
      case 3
      then have "logged s' v" using R2_ok by (simp add: R2)
      moreover have "commit_id v < x" if "x \<in> set (starts M)" for x
        using pre 3(1) that lowest_start_le(1) [of _ "xs @ ys"] by (auto simp: F intro: less_le_trans)
      ultimately show ?thesis using 3(2) by (simp add: logged_def)
    qed
  qed
  have "old_ok s'"
    using old_good in_set_dropD idle unfolding old_ok_def Let_def M O by (fastforce simp: F)
  moreover have "queue_ok s'"
  proof -
    have "if awaiting_cleanup u then logged s' u \<and> (\<forall>x\<in>set (starts M). commit_id u < x \<or> lowest_start_time f \<le> x \<and> transaction_id u \<notin> sys_stored s')
      else commit_id u = 0" if f: "f \<in> set (cleanup_queue M)" and u: "u \<in> set (info_transactions f)" for f u
    proof (cases "f \<in> set (cleanup_queue m)")
      case True
      then have q: "if awaiting_cleanup u then logged s u \<and> (\<forall>x\<in>set (starts m). commit_id u < x \<or> lowest_start_time f \<le> x \<and> transaction_id u \<notin> sys_stored s)
        else commit_id u = 0" using i(6) u unfolding queue_ok_def Let_def m_def by blast
      show ?thesis
      proof (cases "awaiting_cleanup u")
        case aw: True
        have "transaction_id u \<noteq> ?tid"
          using q aw i(3) by (fastforce simp: logged_def log_ok_def Let_def A simp flip: m_def)
        moreover have "set (active_transactions M) \<subseteq> set (active_transactions m)" by (auto simp: F A)
        ultimately show ?thesis using q aw lg E(10) by auto
      qed (use q in simp)
    next
      case False
      then have f: "f = info" using f Q E(7) by (auto split: if_splits)
      consider "u \<in> set (take i old)" | "u = t'\<lparr>awaiting_cleanup := True\<rparr>" "\<not> store" "tx_ChangesMade env t' (mgr_db m1)"
        using u p by (auto simp: f info placed_def split: if_splits)
      then show ?thesis
      proof cases
        case 1
        then show ?thesis using old_good [of u] by (auto dest: in_set_takeD split: if_splits)
      next
        case 2
        have c: "commit_id t' = ?c" using E(9) 2(2,3) by blast
        then have "logged s' u" using lgt nw(3) by (simp add: 2 logged_def)
        moreover have "?tid \<notin> sys_stored s'"
          using i(3) E(10) 2(2) by (auto simp: log_ok_def Let_def A simp flip: m_def)
        moreover have "lowest_start_time f \<le> x" if "x \<in> set (starts M)" for x
          using that lowest_start_le(1) [of _ "xs @ ys"] by (auto simp: f info F)
        ultimately show ?thesis using E(2) by (simp add: 2)
      qed
    qed
    then show ?thesis unfolding queue_ok_def Let_def M by blast
  qed
  ultimately show ?thesis by (simp add: order_inv_def M)
qed

subsection \<open>Every step\<close>

lemma revert_commit_tx: "revert_commit env cs it t e db = Some (t', db', err) \<Longrightarrow> t' = t \<and> err = Some e"
  by (auto simp: revert_commit_def split: option.splits prod.splits)

lemma tx_Commit_fields:
  assumes "tx_Commit env c cs t db = Some (t', db', err)"
  shows "start_time t' = start_time t \<and> transaction_id t' = transaction_id t \<and> awaiting_cleanup t' = awaiting_cleanup t
    \<and> commit_id t' = c \<and> write_lock t' = write_lock t"
  using assms unfolding tx_Commit_def Let_def
  by (auto split: if_splits option.splits prod.splits dest!: revert_commit_tx)

lemma commit_undo_effect:
  assumes "commit_undo env c err cs t m = Some (Inr (err', m'))"
  shows "\<exists>t' db v. start_time t' = start_time t \<and> transaction_id t' = transaction_id t \<and> awaiting_cleanup t' = awaiting_cleanup t
    \<and> commit_id t' = (if err' = None then c else 0) \<and> write_lock t' = write_lock t
    \<and> m' = update_transaction (transaction_id t) (\<lambda>_. t') (m\<lparr>mgr_db := db, last_committed_version := v\<rparr>)"
proof -
  let ?r = "case err of None \<Rightarrow> tx_Commit env c cs t (mgr_db m) | Some e \<Rightarrow> Some (t, mgr_db m, Some e)"
  obtain t1 db1 e1 where r: "?r = Some (t1, db1, e1)"
    using assms unfolding commit_undo_def Let_def by (cases ?r) auto
  have f: "start_time t1 = start_time t" "transaction_id t1 = transaction_id t" "awaiting_cleanup t1 = awaiting_cleanup t"
    "write_lock t1 = write_lock t" "e1 = None \<Longrightarrow> commit_id t1 = c"
    using r by (auto split: option.splits dest!: tx_Commit_fields)
  show ?thesis
  proof (cases e1)
    case None
    have "err' = None \<and> m' = (if TRANSACTION_ID_START \<le> catalog_version t1
        then update_transaction (transaction_id t) (\<lambda>_. t1\<lparr>catalog_version := last_committed_version m + 1\<rparr>)
          (m\<lparr>mgr_db := db1, last_committed_version := last_committed_version m + 1\<rparr>)
        else update_transaction (transaction_id t) (\<lambda>_. t1) (m\<lparr>mgr_db := db1\<rparr>))"
      using assms unfolding commit_undo_def Let_def r None by (auto split: if_splits)
    then show ?thesis using f None
      by (intro exI [of _ "if TRANSACTION_ID_START \<le> catalog_version t1 then t1\<lparr>catalog_version := last_committed_version m + 1\<rparr> else t1"]
          exI [of _ db1] exI [of _ "if TRANSACTION_ID_START \<le> catalog_version t1 then last_committed_version m + 1 else last_committed_version m"]) auto
  next
    case (Some e)
    obtain db2 where "err' = Some e \<and> m' = update_transaction (transaction_id t) (\<lambda>_. t1\<lparr>commit_id := 0\<rparr>) (m\<lparr>mgr_db := db2\<rparr>)"
      using assms unfolding commit_undo_def Let_def r Some by (auto split: option.splits prod.splits)
    then show ?thesis using f
      by (intro exI [of _ "t1\<lparr>commit_id := 0\<rparr>"] exI [of _ db2] exI [of _ "last_committed_version m"]) auto
  qed
qed

lemma update_split:
  assumes "active_transactions m = xs @ t # ys" "transaction_id t = tid" "tid \<notin> transaction_id ` set (xs @ ys)"
  shows "active_transactions (update_transaction tid f m) = xs @ f t # ys"
proof -
  have "map (\<lambda>u. if transaction_id u = tid then f u else u) us = us" if "set us \<subseteq> set (xs @ ys)" for us
    using assms(3) that by (intro map_idI) force
  then show ?thesis using assms(1,2) by (simp add: update_transaction_def)
qed

lemma order_active: "order_inv s \<Longrightarrow> active_ok (sys_manager s)"
  by (simp add: order_inv_def)

lemma commit_begin_lock:
  assumes "commit_begin env tid m = Some (Inr (v, m'))"
  shows "\<exists>t l. active_transaction tid m = Some t \<and> CanCheckpoint env t (cl_properties v) m = Inr (cl_decision v, l, cl_lock v)
    \<and> m' = m\<lparr>checkpoint_lock := l\<rparr> \<and> (cl_write_wal v \<longrightarrow> \<not> can_checkpoint (cl_decision v) \<and> write_lock t)"
  using assms unfolding commit_begin_def
  by (auto simp: Let_def split: option.splits if_splits sum.splits prod.splits)

lemma finish_order:
  assumes inv: "order_inv s" and m: "sys_manager s = m" and f: "commit_finish env tid v err cs m = Some (Inr (err', d, m'))"
  shows "order_inv (committed tid v err' m m' s)"
proof -
  obtain t where t: "active_transaction tid m = Some t"
    using f unfolding commit_finish_def by (auto split: option.splits)
  have act: "active_ok m" using order_active [OF inv] m by simp
  obtain xs ys where a: "active_transactions m = xs @ t # ys" and d': "tid \<notin> transaction_id ` set (xs @ ys)"
    using active_split [OF t] act by (auto simp: active_ok_def)
  have tid: "transaction_id t = tid" by (rule active_transactionD(2) [OF t])
  let ?m1 = "snd (GetCommitTimestamp m)" and ?c = "current_start_timestamp m"
  obtain m2 where u: "commit_undo env ?c err cs t ?m1 = Some (Inr (err', m2))"
    and r: "map_option (\<lambda>im. Inr (err', d, enqueue_cleanup im)) (RemoveTransaction env tid (needs_store v err')
       (if \<not> can_checkpoint d \<and> cl_lock v then m2\<lparr>checkpoint_lock := release_key EXCLUSIVE (checkpoint_lock m2)\<rparr> else m2))
       = Some (Inr (err', d, m') :: version_error + version_error option \<times> checkpoint_decision \<times> 'a manager)"
    using f unfolding commit_finish_def t needs_store_def
    by (auto simp: GetCommitTimestamp_def Let_def split: option.splits sum.splits prod.splits)
  let ?m3 = "if \<not> can_checkpoint d \<and> cl_lock v then m2\<lparr>checkpoint_lock := release_key EXCLUSIVE (checkpoint_lock m2)\<rparr> else m2"
  obtain im where im: "RemoveTransaction env tid (needs_store v err') ?m3 = Some im" "m' = enqueue_cleanup im" using r by auto
  from commit_undo_effect [OF u] obtain t' db w where t': "start_time t' = start_time t" "transaction_id t' = transaction_id t"
    "awaiting_cleanup t' = awaiting_cleanup t" "commit_id t' = (if err' = None then ?c else 0)"
    and m2: "m2 = update_transaction tid (\<lambda>_. t') (?m1\<lparr>mgr_db := db, last_committed_version := w\<rparr>)" by (auto simp: tid)
  have "active_transactions m2 = xs @ t' # ys"
    unfolding m2 by (rule update_split [OF _ tid d']) (simp add: GetCommitTimestamp_def Let_def a)
  then have a3: "active_transactions ?m3 = xs @ t' # ys" by simp
  have "\<not> awaiting_cleanup t" using act a by (simp add: active_ok_def)
  then have e: "ends env (needs_store v err') t t' s ?m3 (committed tid v err' m m' s)"
    using t' t by (auto simp: ends_def Let_def m m2 GetCommitTimestamp_def committed_def tid needs_store_def split: option.splits)
  show ?thesis
    by (rule remove_order [OF inv _ a3 e]) (use im a tid in \<open>simp_all add: m committed_def\<close>)
qed

lemma rollback_order:
  assumes inv: "order_inv s" and r: "rollback_finish env tid (sys_manager s) = Some (err, m')"
  shows "order_inv (s\<lparr>sys_manager := m'\<rparr>)"
proof -
  let ?m = "sys_manager s"
  obtain t where t: "active_transaction tid ?m = Some t" using r unfolding rollback_finish_def by (auto split: option.splits)
  have act: "active_ok ?m" by (rule order_active [OF inv])
  obtain xs ys where a: "active_transactions ?m = xs @ t # ys"
    using active_split [OF t] act by (auto simp: active_ok_def)
  have tid: "transaction_id t = tid" by (rule active_transactionD(2) [OF t])
  obtain db im where im: "RemoveTransaction env tid (tx_ChangesMade env t db) (?m\<lparr>mgr_db := db\<rparr>) = Some im" "m' = enqueue_cleanup im"
    using r unfolding rollback_finish_def t by (auto split: option.splits)
  have t0: "\<not> awaiting_cleanup t" "commit_id t = 0" using act a by (simp_all add: active_ok_def)
  show ?thesis
    by (rule remove_order [OF inv a, where t' = t and ?m1.0 = "?m\<lparr>mgr_db := db\<rparr>"])
      (use a im t0 tid in \<open>simp_all add: ends_def Let_def\<close>)
qed

lemma start_order:
  assumes inv: "order_inv s" and st: "StartTransaction (sys_manager s) = Inr (tid, m')"
  shows "order_inv (s\<lparr>sys_manager := m'\<rparr>)"
proof -
  let ?m = "sys_manager s" and ?c = "current_start_timestamp (sys_manager s)" and ?n = "current_transaction_id (sys_manager s)"
  have i: "clock_ok ?m" "active_ok ?m" "lowest_ok ?m" "log_ok s" "recent_ok s" "old_ok s" "queue_ok s"
    using inv by (simp_all add: order_inv_def)
  have lim: "?c < TRANSACTION_ID_START" using st by (auto simp: StartTransaction_def not_le Let_def split: if_splits)
  have m': "active_transactions m' = active_transactions ?m @ [DuckTransaction ?c ?n (last_committed_version ?m)]"
    "current_start_timestamp m' = ?c + 1" "current_transaction_id m' = ?n + 1"
    "lowest_active_start m' = (if active_transactions ?m = [] then ?c else lowest_active_start ?m)"
    "lowest_active_id m' = (if active_transactions ?m = [] then ?n else lowest_active_id ?m)"
    "last_commit m' = last_commit ?m" "recently_committed_transactions m' = recently_committed_transactions ?m"
    "old_transactions m' = old_transactions ?m" "cleanup_queue m' = cleanup_queue ?m"
    using st lim by (auto simp: StartTransaction_def Let_def split: if_splits)
  have S: "starts m' = starts ?m @ [?c]" "ids m' = ids ?m @ [?n]" by (simp_all add: m' DuckTransaction_def)
  have un: "unat (?c + 1) = unat ?c + 1" "unat (?n + 1) = unat ?n + 1"
    using i(1) lim by (auto simp: clock_ok_def issued_def TRANSACTION_ID_START_def unat_word_ariths word_less_nat_alt word_le_nat_alt)
  then have lt: "?c < ?c + 1" "?n < ?n + 1" by (simp_all add: word_less_nat_alt)
  have "clock_ok m'"
    using i(1) lim un lt by (auto simp: clock_ok_def issued_def m' word_less_nat_alt word_le_nat_alt)
  moreover have "active_ok m'"
  proof -
    have pos: "0 < ?c" using i(1) by (simp add: clock_ok_def word_less_nat_alt)
    have "\<forall>x\<in>set (starts ?m). x < ?c" "\<forall>j\<in>set (ids ?m). j < ?n" using i(2) by (simp_all add: active_ok_def)
    then show ?thesis using i(1,2) lim lt pos unfolding active_ok_def S
      by (auto simp: m' sorted_wrt_append DuckTransaction_def clock_ok_def dest: less_trans)
  qed
  moreover have "lowest_ok m'" using i(3) by (auto simp: lowest_ok_def m' hd_append DuckTransaction_def)
  moreover have "log_ok (s\<lparr>sys_manager := m'\<rparr>)"
  proof -
    have "st < c \<and> c < ?c + 1 \<and> c \<le> last_commit ?m \<and> c \<notin> set (starts m') \<and> j \<notin> set (ids m')
        \<and> TRANSACTION_ID_START \<le> j \<and> j < ?n + 1" if "(j, st, c) \<in> set (sys_log s)" for j st c
      using i(4) that lt unfolding S by (fastforce simp: log_ok_def Let_def)
    moreover have "j \<notin> set (ids m') \<and> j < ?n + 1" if "j \<in> sys_stored s" for j
      using i(4) that lt unfolding S by (fastforce simp: log_ok_def Let_def)
    ultimately show ?thesis using i(4) by (fastforce simp: log_ok_def Let_def m')
  qed
  moreover
  have lg: "logged (s\<lparr>sys_manager := m'\<rparr>) = logged s" by (simp add: fun_eq_iff logged_def)
  have past: "commit_id u < ?c" if "logged s u" for u
    using that i(4) by (fastforce simp: logged_def log_ok_def Let_def)
  have idle: "TRANSACTION_ID_START \<le> lowest_active_start ?m" if "active_transactions ?m = []"
    using i(3) that by (simp add: lowest_ok_def)
  have "recent_ok (s\<lparr>sys_manager := m'\<rparr>)"
    using i(5) idle lim by (auto simp: recent_ok_def Let_def lg m' intro: order_trans less_imp_le)
  moreover have "old_ok (s\<lparr>sys_manager := m'\<rparr>)"
    using i(6) past unfolding old_ok_def Let_def by (auto simp: lg m' DuckTransaction_def)
  moreover have "queue_ok (s\<lparr>sys_manager := m'\<rparr>)"
    using i(7) past unfolding queue_ok_def Let_def by (auto simp: lg m' DuckTransaction_def)
  ultimately show ?thesis by (simp add: order_inv_def)
qed

lemma same_times_lock: "active_ok m \<Longrightarrow> same_times m (m\<lparr>checkpoint_lock := l\<rparr>)"
  by (auto simp: same_times_def active_ok_def intro: exI [of _ 0])

lemma commit_wal_times:
  assumes "active_ok m" "commit_wal env tid m = Some (err, cs, m')"
  shows "same_times m m'"
proof -
  obtain t ub db where t: "active_transaction tid m = Some t"
    and m': "m' = update_transaction tid (\<lambda>_. t\<lparr>tx_undo_buffer := ub\<rparr>) (m\<lparr>mgr_db := db\<rparr>)"
    using assms(2) unfolding commit_wal_def WriteToWAL_def Let_def by (auto split: option.splits prod.splits)
  obtain xs ys where a: "active_transactions m = xs @ t # ys" "tid \<notin> transaction_id ` set (xs @ ys)"
    using active_split [OF t] assms(1) by (auto simp: active_ok_def)
  have "active_transactions m' = xs @ t\<lparr>tx_undo_buffer := ub\<rparr> # ys"
    unfolding m' by (rule update_split [OF _ active_transactionD(2) [OF t] a(2)]) (simp add: a)
  then show ?thesis using assms(1) a by (auto simp: same_times_def active_ok_def m' intro: exI [of _ 0])
qed

lemma cleanup_next_queue:
  assumes "cleanup_next env m = Some m'"
  shows "\<exists>db l. m' = m\<lparr>cleanup_queue := drop 1 (cleanup_queue m), mgr_db := db, checkpoint_lock := l\<rparr>"
proof (cases "cleanup_queue m")
  case Nil
  then have "m' = m\<lparr>cleanup_queue := drop 1 (cleanup_queue m), mgr_db := mgr_db m, checkpoint_lock := checkpoint_lock m\<rparr>"
    using assms by (simp add: cleanup_next_def)
  then show ?thesis by blast
qed (use assms in \<open>auto simp: cleanup_next_def\<close>)

lemma step_order:
  assumes "mgr_step env s s'" "order_inv s"
  shows "order_inv s'"
  using assms
proof (induction rule: mgr_step.induct)
  case (start s tid m)
  then show ?case by (simp add: start_order)
next
  case (new_query s q m tid)
  have "same_times (sys_manager s) (SetActiveQuery tid q m)"
    unfolding SetActiveQuery_def using new_query by (intro same_times_update order_active) (auto simp: GetNewQueryNumber_def)
  then show ?case by (intro same_times_order [OF new_query(2)]) simp_all
next
  case (end_query s tid)
  have "same_times (sys_manager s) (SetActiveQuery tid MAXIMUM_QUERY_ID (sys_manager s))"
    unfolding SetActiveQuery_def using end_query by (intro same_times_update order_active) auto
  then show ?case by (intro same_times_order [OF end_query]) simp_all
next
  case (read_write s tid m)
  have "same_times (sys_manager s) m"
    using read_write(2) unfolding SetReadWrite_def
    by (auto split: option.splits if_splits intro!: same_times_update order_active read_write(3))
  then show ?case by (intro same_times_order [OF read_write(3)]) simp_all
next
  case (catalog s tid block_size e extra m)
  have "same_times (sys_manager s) m"
    using catalog(2) unfolding PushCatalogEntry_def Let_def
    by (auto split: option.splits if_splits intro!: same_times_update order_active catalog(3))
  then show ?case by (intro same_times_order [OF catalog(3)]) simp_all
next
  case (work s tid ub db)
  have "same_times (sys_manager s) (update_transaction tid (\<lambda>t. t\<lparr>tx_undo_buffer := ub\<rparr>) (sys_manager s\<lparr>mgr_db := db\<rparr>))"
    by (intro same_times_update order_active work(2)) auto
  then show ?case by (intro same_times_order [OF work(2)]) simp_all
next
  case (commit s tid v m err d m')
  have "same_times (sys_manager s) m"
    using commit_begin_lock [OF commit(2)] same_times_lock [OF order_active [OF commit(5)]] by auto
  then have "order_inv (s\<lparr>sys_manager := m\<rparr>)" by (intro same_times_order [OF commit(5)]) simp_all
  moreover have "committed tid v err m m' (s\<lparr>sys_manager := m\<rparr>) = committed tid v err m m' s" by (simp add: committed_def split: option.split)
  ultimately have "order_inv (committed tid v err m m' s)" using finish_order [OF _ _ commit(4), of "s\<lparr>sys_manager := m\<rparr>"] by simp
  then show ?case by simp
next
  case (commit_start s tid v m)
  have "same_times (sys_manager s) m"
    using commit_begin_lock [OF commit_start(2)] same_times_lock [OF order_active [OF commit_start(4)]] by auto
  then show ?case by (intro same_times_order [OF commit_start(4)]) simp_all
next
  case (commit_log s tid v err cs m)
  have "same_times (sys_manager s) m" by (rule commit_wal_times [OF order_active [OF commit_log(3)] commit_log(2)])
  then show ?case by (intro same_times_order [OF commit_log(3)]) simp_all
next
  case (commit_end s tid v err cs err' d m')
  from finish_order [OF commit_end(3) refl commit_end(2)] show ?case by simp
next
  case (rollback s tid err m)
  then show ?case by (simp add: rollback_order)
next
  case (cleanup s m)
  have "same_times (sys_manager s) m"
    using cleanup_next_queue [OF cleanup(1)] order_active [OF cleanup(2)] by (auto simp: same_times_def active_ok_def intro: exI [of _ 1])
  then show ?case by (intro same_times_order [OF cleanup(2)]) simp_all
next
  case (checkpoint force interrupted s l)
  then show ?case by (intro same_times_order [OF checkpoint(2)]) (simp_all add: same_times_lock order_active)
next
  case (checkpoint_done s)
  then show ?case by (intro same_times_order [OF checkpoint_done(2)]) (simp_all add: same_times_lock order_active)
qed

lemma start_system_order: "order_inv (system_start (DuckTransactionManager lc q db))"
  by (simp add: order_inv_defs system_start_def DuckTransactionManager_def TRANSACTION_ID_START_def MAX_TRANSACTION_ID_def
      word_le_nat_alt)

lemma reachable_order: "reachable env s \<Longrightarrow> order_inv s"
  by (induction rule: reachable_induct) (auto intro: start_system_order step_order)

section \<open>Properties\<close>


text \<open>
  C9: Garbage collection waits for the readers.  In every run, a transaction whose undo buffer is about to
  be cleaned up, or is kept for that, has committed before every active transaction started.  The only
  exception are transactions that were never kept because they changed nothing a reader needs (no updates,
  no index deletes, no catalog changes): those may be cleaned up earlier, but then the cleanup is told to
  keep all versions that an active transaction may need.  Transactions that start later see the commit.
\<close>

theorem cleanup_waits_for_readers:
  assumes "reachable env s"
  shows "let m = sys_manager s in
     (\<forall>info\<in>set (cleanup_queue m). \<forall>t\<in>set (info_transactions info). awaiting_cleanup t \<longrightarrow>
        logged s t \<and> commit_id t < current_start_timestamp m
        \<and> (\<forall>a\<in>set (active_transactions m). commit_id t < start_time a
             \<or> lowest_start_time info \<le> start_time a \<and> transaction_id t \<notin> sys_stored s))
     \<and> (\<forall>t\<in>set (old_transactions m). awaiting_cleanup t \<longrightarrow>
          logged s t \<and> (\<forall>a\<in>set (active_transactions m). commit_id t < start_time a))"
proof -
  have i: "log_ok s" "old_ok s" "queue_ok s" using reachable_order [OF assms] by (simp_all add: order_inv_def)
  have "commit_id t < current_start_timestamp (sys_manager s)" if "logged s t" for t
    using that i(1) by (fastforce simp: logged_def log_ok_def Let_def)
  then show ?thesis using i(2,3) unfolding old_ok_def queue_ok_def Let_def by fastforce
qed


subsection \<open>An example\<close>

text \<open>
  A database in memory.  Transactions 0 and 1 start, 0 updates and commits, 1 rolls back, 2 starts; ids are
  counted from \<open>TRANSACTION_ID_START\<close>.
\<close>

definition plain_env :: "unit environment" where
  "plain_env = \<lparr>env_calls = no_calls, is_system = False, is_temporary = True, db_read_only = False, in_memory = True, is_loaded = True,
     skip_checkpoint = False, has_wal = False, wal_full = (\<lambda>_. False), entry_parent = (\<lambda>_ _. OTHER_ENTRY), local_changes = (\<lambda>_ _. False),
     local_size = (\<lambda>_ _. 0), local_commit = (\<lambda>_ ub db. ((ub, db), None)), local_rollback = (\<lambda>_ db. (db, None)),
     modified_error = (\<lambda>_ _. None), wal_write = (\<lambda>_ _ db. (db, None)), wal_revert = (\<lambda>_ db. db), wal_flush = (\<lambda>_ db. (db, None))\<rparr>"

definition update_undo :: undo_buffer where
  "update_undo = [\<lparr>blk_position = 16, blk_capacity = 4096, blk_entries = [(8, UPDATE_TUPLE 0)]\<rparr>]"

text \<open>Transactions 0 and 1 have started, 0 has filled its undo buffer.\<close>

definition two_started :: "undo_buffer \<Rightarrow> unit manager" where
  "two_started ub = \<lparr>current_start_timestamp = 4, current_transaction_id = TRANSACTION_ID_START + 2,
      lowest_active_id = TRANSACTION_ID_START, lowest_active_start = 2, last_commit = 0,
      active_transactions = [(DuckTransaction 2 TRANSACTION_ID_START 0)\<lparr>tx_undo_buffer := ub\<rparr>, DuckTransaction 3 (TRANSACTION_ID_START + 1) 0],
      recently_committed_transactions = [], old_transactions = [], checkpoint_lock = StorageLockInternals,
      last_uncommitted_catalog_version = TRANSACTION_ID_START, last_committed_version = 0, cleanup_queue = [],
      current_query_number = 1, mgr_db = changed_db\<rparr>"

lemma start_ids: "TRANSACTION_ID_START + 1 \<noteq> TRANSACTION_ID_START" "TRANSACTION_ID_START + 2 \<noteq> TRANSACTION_ID_START"
  "\<not> TRANSACTION_ID_START \<le> 0" "\<not> TRANSACTION_ID_START \<le> 2" "\<not> TRANSACTION_ID_START \<le> 3" "\<not> TRANSACTION_ID_START \<le> 4" "\<not> TRANSACTION_ID_START \<le> 5"
  "min TRANSACTION_ID_START 3 = 3" "min MAX_TRANSACTION_ID (TRANSACTION_ID_START + 1) = TRANSACTION_ID_START + 1"
  "4 < TRANSACTION_ID_START" "TRANSACTION_ID_START \<noteq> 0"
  by (simp_all add: TRANSACTION_ID_START_def MAX_TRANSACTION_ID_def min_def)

lemma reachable_step: "reachable env s \<Longrightarrow> mgr_step env s s' \<Longrightarrow> reachable env s'"
  unfolding reachable_def by (meson rtranclp.rtrancl_into_rtrancl)

lemma two_started_reachable: "reachable plain_env (system_start (two_started ub))"
proof -
  let ?m0 = "DuckTransactionManager 0 1 changed_db"
  have "reachable plain_env (system_start ?m0)" unfolding reachable_def by blast
  moreover obtain m1 where m1: "StartTransaction ?m0 = Inr (TRANSACTION_ID_START, m1)"
    by (simp add: StartTransaction_def Let_def DuckTransactionManager_def start_ids)
  ultimately have "reachable plain_env (system_start m1)"
    using reachable_step [OF _ mgr_step.start [of "system_start ?m0"]] by (auto simp: system_start_def)
  moreover obtain m2 where m2: "StartTransaction m1 = Inr (TRANSACTION_ID_START + 1, m2)"
    using m1 by (auto simp: StartTransaction_def Let_def DuckTransactionManager_def start_ids)
  ultimately have "reachable plain_env (system_start m2)"
    using reachable_step [OF _ mgr_step.start [of "system_start m1"]] by (auto simp: system_start_def)
  moreover have "two_started ub = update_transaction TRANSACTION_ID_START (\<lambda>t. t\<lparr>tx_undo_buffer := ub\<rparr>) (m2\<lparr>mgr_db := changed_db\<rparr>)"
    using m1 m2 by (auto simp: StartTransaction_def Let_def DuckTransactionManager_def start_ids two_started_def update_transaction_def DuckTransaction_def)
  ultimately show ?thesis
    using reachable_step [OF _ mgr_step.work [of "system_start m2" TRANSACTION_ID_START plain_env ub changed_db]]
    by (simp add: system_start_def)
qed

text \<open>Transaction 0 commits its update; 1 rolls back; 2 starts.\<close>

definition update_locals :: commit_locals where
  "update_locals = \<lparr>cl_properties = UndoBufferProperties\<lparr>estimated_size := 16, has_updates := True\<rparr>,
     cl_decision = NoCheckpoint InMemoryDb, cl_lock = False, cl_write_wal = False\<rparr>"

definition update_committed :: "unit manager" where
  "update_committed = (two_started [])\<lparr>current_start_timestamp := 5, last_commit := 4, lowest_active_start := 3,
      lowest_active_id := TRANSACTION_ID_START + 1,
      active_transactions := [DuckTransaction 3 (TRANSACTION_ID_START + 1) 0],
      recently_committed_transactions := [(DuckTransaction 2 TRANSACTION_ID_START 0)\<lparr>tx_undo_buffer := update_undo, commit_id := 4\<rparr>],
      mgr_db := changed_db\<lparr>version_number := (version_number changed_db)(0 := 4)\<rparr>\<rparr>"

lemma update_commit:
  "commit_begin plain_env TRANSACTION_ID_START (two_started update_undo) = Some (Inr (update_locals, two_started update_undo))"
  "commit_finish plain_env TRANSACTION_ID_START update_locals None False (two_started update_undo) =
     Some (Inr (None, NoCheckpoint InMemoryDb, update_committed))"
proof -
  note run = undo_Commit_def IterateEntries_def update_undo_def UNDO_ENTRY_HEADER_SIZE_def
  have u: "active_transaction TRANSACTION_ID_START (two_started ub) = Some ((DuckTransaction 2 TRANSACTION_ID_START 0)\<lparr>tx_undo_buffer := ub\<rparr>)" for ub
    by (simp add: active_transaction_def two_started_def DuckTransaction_def)
  show "commit_begin plain_env TRANSACTION_ID_START (two_started update_undo) = Some (Inr (update_locals, two_started update_undo))"
    by (simp add: commit_begin_def u plain_env_def GetProperties_def run ChangesMade_def CanCheckpoint_def
        ShouldWriteToWAL_def update_locals_def UndoBufferProperties_def)
  show "commit_finish plain_env TRANSACTION_ID_START update_locals None False (two_started update_undo) =
     Some (Inr (None, NoCheckpoint InMemoryDb, update_committed))"
    unfolding commit_finish_def u option.case
    by (simp add: GetCommitTimestamp_def Let_def commit_undo_def tx_Commit_def tx_ChangesMade_def ChangesMade_def
        plain_env_def run RemoveTransaction_def place_transaction_def update_locals_def update_transaction_def
        two_started_def DuckTransaction_def start_ids update_committed_def enqueue_cleanup_def ScheduleCleanup_def)
qed

definition update_collected :: "unit manager" where
  "update_collected = update_committed\<lparr>lowest_active_start := 5, lowest_active_id := TRANSACTION_ID_START + 2,
     current_start_timestamp := 6, current_transaction_id := TRANSACTION_ID_START + 3,
     active_transactions := [DuckTransaction 5 (TRANSACTION_ID_START + 2) 0], recently_committed_transactions := [],
     cleanup_queue := [\<lparr>lowest_start_time = TRANSACTION_ID_START, info_transactions = [(DuckTransaction 2 TRANSACTION_ID_START 0)\<lparr>
       tx_undo_buffer := update_undo, commit_id := 4, awaiting_cleanup := True, highest_active_query := 1\<rparr>]\<rparr>]\<rparr>"

lemma update_collect:
  "\<exists>m. rollback_finish plain_env (TRANSACTION_ID_START + 1) update_committed = Some (None, m)
     \<and> StartTransaction m = Inr (TRANSACTION_ID_START + 2, update_collected)"
  by (simp add: rollback_finish_def active_transaction_def update_committed_def two_started_def DuckTransaction_def tx_Rollback_def
      plain_env_def undo_Rollback_def tx_ChangesMade_def ChangesMade_def RemoveTransaction_def place_transaction_def Let_def
      destroy_transaction_def enqueue_cleanup_def ScheduleCleanup_def StartTransaction_def update_collected_def start_ids)

definition update_log :: "(transaction_t \<times> transaction_t \<times> transaction_t) list" where
  "update_log = [(TRANSACTION_ID_START, 2, 4)]"

lemma update_reachable:
  "reachable plain_env (system_start update_committed\<lparr>sys_log := update_log, sys_stored := {TRANSACTION_ID_START}\<rparr>)"
  "reachable plain_env (system_start update_collected\<lparr>sys_log := update_log, sys_stored := {TRANSACTION_ID_START}\<rparr>)"
proof -
  let ?s = "system_start (two_started update_undo)"
  have "mgr_step plain_env ?s ((committed TRANSACTION_ID_START update_locals None (two_started update_undo) update_committed ?s)
      \<lparr>sys_key := (if can_checkpoint (NoCheckpoint InMemoryDb) then Some Checkpointing else sys_key ?s)\<rparr>)"
    by (rule mgr_step.commit) (simp_all add: update_commit system_start_def, simp add: update_locals_def)
  from reachable_step [OF two_started_reachable this]
  show r: "reachable plain_env (system_start update_committed\<lparr>sys_log := update_log, sys_stored := {TRANSACTION_ID_START}\<rparr>)"
    by (simp add: committed_def system_start_def needs_store_def update_locals_def active_transaction_def two_started_def
        DuckTransaction_def update_log_def)
  obtain m where m: "rollback_finish plain_env (TRANSACTION_ID_START + 1) update_committed = Some (None, m)"
     "StartTransaction m = Inr (TRANSACTION_ID_START + 2, update_collected)" using update_collect by blast
  let ?u = "system_start update_committed\<lparr>sys_log := update_log, sys_stored := {TRANSACTION_ID_START}\<rparr>"
  have "reachable plain_env (?u\<lparr>sys_manager := m\<rparr>)"
    by (rule reachable_step [OF r mgr_step.rollback [where tid = "TRANSACTION_ID_START + 1"]]) (simp_all add: m(1) system_start_def)
  from reachable_step [OF this mgr_step.start [of "?u\<lparr>sys_manager := m\<rparr>"]] m(2)
  show "reachable plain_env (system_start update_collected\<lparr>sys_log := update_log, sys_stored := {TRANSACTION_ID_START}\<rparr>)"
    by (simp add: system_start_def)
qed


theorem cleanup_waits_for_readers_witness:
  "commit_id (hd (info_transactions (hd (cleanup_queue update_collected)))) < start_time (hd (active_transactions update_collected))
   \<and> awaiting_cleanup (hd (info_transactions (hd (cleanup_queue update_collected))))"
  using cleanup_waits_for_readers [OF update_reachable(2)]
  by (simp add: system_start_def Let_def update_collected_def DuckTransaction_def)


end
