(* ===== verification/CheckpointSafety.thy ===== *)
theory CheckpointSafety
  imports TransactionOrder
begin

text \<open>
  The checkpoint lock in all runs of the transaction manager: the shared keys of the transactions that
  write, wherever their objects are, and the exclusive key of a checkpoint.
\<close>

section \<open>The checkpoint lock\<close>

definition writers :: "transaction list \<Rightarrow> nat" where
  "writers ts = length (filter write_lock ts)"

lemma writers_simps [simp]: "writers [] = 0" "writers (t # ts) = (if write_lock t then 1 else 0) + writers ts"
  "writers (ts @ us) = writers ts + writers us" "writers (map (collectable q) ts) = writers ts"
  by (simp_all add: writers_def filter_map comp_def)

lemma writers_0: "writers ts = 0 \<longleftrightarrow> (\<forall>t\<in>set ts. \<not> write_lock t)"
  by (simp add: writers_def filter_empty_conv)

definition all_writers :: "'c manager \<Rightarrow> nat" where
  "all_writers m = writers (active_transactions m) + writers (recently_committed_transactions m)
     + writers (old_transactions m) + writers (concat (map info_transactions (cleanup_queue m)))"

text \<open>
  Each transaction object that writes has a shared key; while the exclusive key is held, none but the
  committing transaction can be active with one.
\<close>

definition phase_locals :: "commit_phase \<Rightarrow> commit_locals" where
  "phase_locals p = (case p of WriteLog v \<Rightarrow> v | FinishCommit v _ _ \<Rightarrow> v)"

definition key_inv :: "'c system \<Rightarrow> bool" where
  "key_inv s \<longleftrightarrow> (let m = sys_manager s in
     read_count (checkpoint_lock m) = all_writers m
     \<and> (exclusive_lock (checkpoint_lock m) \<longleftrightarrow> sys_key s \<noteq> None)
     \<and> (sys_key s \<noteq> None \<longrightarrow> all_writers m \<le> 1)
     \<and> (sys_key s = Some Checkpointing \<longrightarrow> writers (active_transactions m) = 0)
     \<and> (\<forall>tid. sys_key s = Some (InCommit tid) \<longrightarrow> sys_phase s tid \<noteq> None
          \<and> (\<exists>t\<in>set (active_transactions m). transaction_id t = tid \<and> write_lock t))
     \<and> (\<forall>tid p. sys_phase s tid = Some p \<longrightarrow> \<not> can_checkpoint (cl_decision (phase_locals p))
          \<and> (cl_lock (phase_locals p) \<longleftrightarrow> sys_key s = Some (InCommit tid))))"

lemma remove_writers:
  assumes a: "active_transactions m = xs @ t # ys" and t: "transaction_id t = tid"
    and d: "tid \<notin> transaction_id ` set (xs @ ys)" and r: "RemoveTransaction env tid store m = Some im"
    and c: "read_count (checkpoint_lock m) = all_writers m"
  shows "read_count (checkpoint_lock (enqueue_cleanup im)) = all_writers (enqueue_cleanup im)"
    "all_writers (enqueue_cleanup im) \<le> all_writers m"
    "writers (active_transactions (enqueue_cleanup im)) = writers (xs @ ys)"
    "exclusive_lock (checkpoint_lock (enqueue_cleanup im)) = exclusive_lock (checkpoint_lock m)"
proof -
  define M where "M = enqueue_cleanup im"
  obtain sched R2 O2 pre old i info where
    p: "placed env store t m = (sched, R2, O2)" and R2: "R2 = pre @ recently_committed_transactions M"
    and old: "old = O2 @ map (collectable (current_query_number m)) pre"
    and O: "old_transactions M = drop i old"
    and info: "info = \<lparr>lowest_start_time = lowest_start (xs @ ys), info_transactions = sched @ take i old\<rparr>"
    and Q: "cleanup_queue M = cleanup_queue m @ (if info_transactions info = [] then [] else [info])"
    and A: "active_transactions M = xs @ ys"
    and l: "checkpoint_lock M = (if store \<or> tx_ChangesMade env t (mgr_db m) then checkpoint_lock m else destroy_transaction t (checkpoint_lock m))"
    using remove_lists [OF a t d r, folded M_def] by (elim exE conjE) (rule that; assumption)
  have q: "writers (concat (map info_transactions (cleanup_queue M))) =
      writers (concat (map info_transactions (cleanup_queue m))) + writers sched + writers (take i old)"
    by (simp add: Q) (auto simp: info)
  have io: "writers (take i old) + writers (drop i old) = writers old" by (metis append_take_drop_id writers_simps(3))
  have R: "writers pre + writers (recently_committed_transactions M) = writers R2" by (simp add: R2)
  have "writers sched + writers R2 + writers O2 =
      (if store \<or> tx_ChangesMade env t (mgr_db m) then writers [t] else 0)
      + writers (recently_committed_transactions m) + writers (old_transactions m)"
    using p by (auto simp: placed_def split: if_splits)
  then have tot: "all_writers M + (if store \<or> tx_ChangesMade env t (mgr_db m) then 0 else writers [t]) = all_writers m"
    using q io R by (simp add: all_writers_def A a O old split: if_splits)
  show "writers (active_transactions (enqueue_cleanup im)) = writers (xs @ ys)" using A by (simp add: M_def)
  show "all_writers (enqueue_cleanup im) \<le> all_writers m" using tot unfolding M_def by linarith
  show "read_count (checkpoint_lock (enqueue_cleanup im)) = all_writers (enqueue_cleanup im)"
    using tot c l unfolding M_def [symmetric] by (auto simp: destroy_transaction_def release_key_def ReleaseSharedLock_def split: if_splits)
  show "exclusive_lock (checkpoint_lock (enqueue_cleanup im)) = exclusive_lock (checkpoint_lock m)"
    using l unfolding M_def [symmetric] by (auto simp: destroy_transaction_def release_key_def ReleaseSharedLock_def split: if_splits)
qed

lemma fold_destroy:
  "read_count (fold destroy_transaction ts l) = read_count l - writers ts"
  "exclusive_lock (fold destroy_transaction ts l) = exclusive_lock l"
  by (induction ts arbitrary: l) (auto simp: destroy_transaction_def release_key_def ReleaseSharedLock_def)

text \<open>Operations that keep the writers of each list.\<close>

definition same_writers :: "'c manager \<Rightarrow> 'c manager \<Rightarrow> bool" where
  "same_writers m m' \<longleftrightarrow> map (\<lambda>t. (transaction_id t, write_lock t)) (active_transactions m') =
       map (\<lambda>t. (transaction_id t, write_lock t)) (active_transactions m)
     \<and> recently_committed_transactions m' = recently_committed_transactions m
     \<and> old_transactions m' = old_transactions m \<and> cleanup_queue m' = cleanup_queue m"

lemma writers_map: "writers ts = length (filter snd (map (\<lambda>t. (transaction_id t, write_lock t)) ts))"
  by (simp add: writers_def filter_map comp_def)

lemma same_writers:
  assumes "same_writers m m'"
  shows "all_writers m' = all_writers m" "writers (active_transactions m') = writers (active_transactions m)"
    "(\<exists>t\<in>set (active_transactions m'). transaction_id t = tid \<and> write_lock t)
      \<longleftrightarrow> (\<exists>t\<in>set (active_transactions m). transaction_id t = tid \<and> write_lock t)"
proof -
  show w: "writers (active_transactions m') = writers (active_transactions m)"
    using assms by (simp only: writers_map same_writers_def)
  then show "all_writers m' = all_writers m" using assms by (simp add: all_writers_def same_writers_def)
  have ex: "(\<exists>t\<in>set ts. transaction_id t = tid \<and> write_lock t) \<longleftrightarrow> (tid, True) \<in> set (map (\<lambda>t. (transaction_id t, write_lock t)) ts)"
    for ts by force
  then show "(\<exists>t\<in>set (active_transactions m'). transaction_id t = tid \<and> write_lock t)
      \<longleftrightarrow> (\<exists>t\<in>set (active_transactions m). transaction_id t = tid \<and> write_lock t)"
    unfolding ex using assms by (simp only: same_writers_def)
qed

lemma same_writers_key:
  assumes "key_inv s" "same_writers (sys_manager s) (sys_manager s')" "checkpoint_lock (sys_manager s') = checkpoint_lock (sys_manager s)"
    and "sys_key s' = sys_key s" "sys_phase s' = sys_phase s"
  shows "key_inv s'"
  using assms(1,3-) same_writers [OF assms(2)] unfolding key_inv_def Let_def by simp

lemma same_writers_update:
  assumes "\<And>t. t \<in> set (active_transactions m') \<Longrightarrow> transaction_id t = tid \<Longrightarrow> transaction_id (f t) = transaction_id t \<and> write_lock (f t) = write_lock t"
    and "active_transactions m' = active_transactions m" "recently_committed_transactions m' = recently_committed_transactions m"
    "old_transactions m' = old_transactions m" "cleanup_queue m' = cleanup_queue m"
  shows "same_writers m (update_transaction tid f m')"
  using assms by (auto simp: same_writers_def update_transaction_def)

lemma CanCheckpoint_lock:
  assumes "CanCheckpoint env t p m = Inr (d, l, locked)"
  shows "read_count l = read_count (checkpoint_lock m)"
    "locked \<Longrightarrow> \<not> exclusive_lock (checkpoint_lock m) \<and> read_count l = 1 \<and> exclusive_lock l \<and> write_lock t"
    "\<not> locked \<Longrightarrow> l = checkpoint_lock m \<and> \<not> can_checkpoint d"
  using assms unfolding CanCheckpoint_def Let_def TryGetCheckpointLock_def TryUpgradeCheckpointLock_def
  by (auto split: if_splits sum.splits option.splits)

lemma finish_key:
  assumes f: "commit_finish env tid v err cs m = Some (Inr (err', d, m'))" and act: "active_ok m"
    and c: "read_count (checkpoint_lock m) = all_writers m"
  shows "\<exists>t. active_transaction tid m = Some t
    \<and> writers (active_transactions m) = writers (active_transactions m') + (if write_lock t then 1 else 0)
    \<and> read_count (checkpoint_lock m') = all_writers m' \<and> all_writers m' \<le> all_writers m
    \<and> exclusive_lock (checkpoint_lock m') = (exclusive_lock (checkpoint_lock m) \<and> (can_checkpoint d \<or> \<not> cl_lock v))
    \<and> (can_checkpoint d \<longrightarrow> d = cl_decision v)
    \<and> (\<forall>u\<in>set (active_transactions m). transaction_id u \<noteq> tid \<longrightarrow> u \<in> set (active_transactions m'))"
proof -
  obtain t where t: "active_transaction tid m = Some t"
    using f unfolding commit_finish_def by (auto split: option.splits)
  obtain xs ys where a: "active_transactions m = xs @ t # ys" and d': "tid \<notin> transaction_id ` set (xs @ ys)"
    using active_split [OF t] act by (auto simp: active_ok_def)
  have tid: "transaction_id t = tid" by (rule active_transactionD(2) [OF t])
  let ?m1 = "snd (GetCommitTimestamp m)" and ?c = "current_start_timestamp m"
  obtain m2 where u: "commit_undo env ?c err cs t ?m1 = Some (Inr (err', m2))"
    and dd: "d = (case err' of None \<Rightarrow> cl_decision v | Some e \<Rightarrow> NoCheckpoint (CommitFailed e))"
    and r: "map_option (\<lambda>im. Inr (err', d, enqueue_cleanup im)) (RemoveTransaction env tid (needs_store v err')
       (if \<not> can_checkpoint d \<and> cl_lock v then m2\<lparr>checkpoint_lock := release_key EXCLUSIVE (checkpoint_lock m2)\<rparr> else m2))
       = Some (Inr (err', d, m') :: version_error + version_error option \<times> checkpoint_decision \<times> 'a manager)"
    using f unfolding commit_finish_def t needs_store_def
    by (auto simp: GetCommitTimestamp_def Let_def split: option.splits sum.splits prod.splits)
  let ?m3 = "if \<not> can_checkpoint d \<and> cl_lock v then m2\<lparr>checkpoint_lock := release_key EXCLUSIVE (checkpoint_lock m2)\<rparr> else m2"
  obtain im where im: "RemoveTransaction env tid (needs_store v err') ?m3 = Some im" "m' = enqueue_cleanup im" using r by auto
  from commit_undo_effect [OF u] obtain t' db w where t': "transaction_id t' = transaction_id t" "write_lock t' = write_lock t"
    and m2: "m2 = update_transaction tid (\<lambda>_. t') (?m1\<lparr>mgr_db := db, last_committed_version := w\<rparr>)" by (auto simp: tid)
  have a2: "active_transactions m2 = xs @ t' # ys"
    unfolding m2 by (rule update_split [OF _ tid d']) (simp add: GetCommitTimestamp_def Let_def a)
  then have a3: "active_transactions ?m3 = xs @ t' # ys" by simp
  have same: "all_writers ?m3 = all_writers m" using t' by (simp add: all_writers_def a a2) (simp add: m2 GetCommitTimestamp_def Let_def)
  have l2: "checkpoint_lock m2 = checkpoint_lock m" by (simp add: m2 GetCommitTimestamp_def Let_def)
  then have c3: "read_count (checkpoint_lock ?m3) = all_writers ?m3"
    unfolding same using c by (simp add: release_key_def ReleaseExclusiveLock_def)
  note w = remove_writers [OF a3 _ d' im(1) c3]
  have e3: "exclusive_lock (checkpoint_lock ?m3) = (exclusive_lock (checkpoint_lock m) \<and> (can_checkpoint d \<or> \<not> cl_lock v))"
    using l2 by (simp add: release_key_def ReleaseExclusiveLock_def)
  have A: "active_transactions m' = xs @ ys" using remove_lists [OF a3 _ d' im(1)] t' tid im(2) by auto
  have "\<forall>u\<in>set (active_transactions m). transaction_id u \<noteq> tid \<longrightarrow> u \<in> set (active_transactions m')"
    using tid unfolding a A by auto
  then show ?thesis using t w [unfolded same] t' tid e3 dd im(2) by (simp add: a split: option.splits)
qed

lemma rollback_key:
  assumes r: "rollback_finish env tid m = Some (err, m')" and act: "active_ok m"
    and c: "read_count (checkpoint_lock m) = all_writers m"
  shows "\<exists>t. active_transaction tid m = Some t
    \<and> writers (active_transactions m') \<le> writers (active_transactions m)
    \<and> (\<forall>u\<in>set (active_transactions m). transaction_id u \<noteq> tid \<longrightarrow> u \<in> set (active_transactions m'))
    \<and> read_count (checkpoint_lock m') = all_writers m' \<and> all_writers m' \<le> all_writers m
    \<and> exclusive_lock (checkpoint_lock m') = exclusive_lock (checkpoint_lock m)"
proof -
  obtain t where t: "active_transaction tid m = Some t" using r unfolding rollback_finish_def by (auto split: option.splits)
  obtain xs ys where a: "active_transactions m = xs @ t # ys" and d: "tid \<notin> transaction_id ` set (xs @ ys)"
    using active_split [OF t] act by (auto simp: active_ok_def)
  have tid: "transaction_id t = tid" by (rule active_transactionD(2) [OF t])
  obtain db im where im: "RemoveTransaction env tid (tx_ChangesMade env t db) (m\<lparr>mgr_db := db\<rparr>) = Some im" "m' = enqueue_cleanup im"
    using r unfolding rollback_finish_def t by (auto split: option.splits)
  have a1: "active_transactions (m\<lparr>mgr_db := db\<rparr>) = xs @ t # ys" by (simp add: a)
  have "all_writers (m\<lparr>mgr_db := db\<rparr>) = all_writers m" by (simp add: all_writers_def)
  note w = remove_writers [OF a1 tid d im(1)] remove_lists [OF a1 tid d im(1)]
  have A: "active_transactions m' = xs @ ys" using w(5) im(2) by auto
  show ?thesis using t w(1-4) c tid A by (auto simp: a im(2) [symmetric] all_writers_def)
qed

lemma read_write_key:
  assumes "SetReadWrite tid m = Some m'" "active_ok m" "read_count (checkpoint_lock m) = all_writers m"
  shows "\<not> exclusive_lock (checkpoint_lock m) \<and> \<not> exclusive_lock (checkpoint_lock m')
    \<and> read_count (checkpoint_lock m') = all_writers m'"
proof -
  obtain t l where t: "active_transaction tid m = Some t" and l: "GetSharedLock (checkpoint_lock m) = Some l"
    and m': "m' = update_transaction tid (\<lambda>t. t\<lparr>tx_is_read_only := False, write_lock := True\<rparr>) (m\<lparr>checkpoint_lock := destroy_transaction t l\<rparr>)"
    using assms(1) unfolding SetReadWrite_def by (auto split: option.splits if_splits)
  obtain xs ys where a: "active_transactions m = xs @ t # ys" and d: "tid \<notin> transaction_id ` set (xs @ ys)"
    using active_split [OF t] assms(2) by (auto simp: active_ok_def)
  have "active_transactions m' = xs @ t\<lparr>tx_is_read_only := False, write_lock := True\<rparr> # ys"
    unfolding m' by (rule update_split [OF _ active_transactionD(2) [OF t] d]) (simp add: a)
  then have "all_writers m' + (if write_lock t then 1 else 0) = all_writers m + 1"
    by (simp add: all_writers_def a) (simp add: m')
  then show ?thesis using l assms(3)
    by (auto simp: m' GetSharedLock_def destroy_transaction_def release_key_def ReleaseSharedLock_def split: if_splits)
qed

lemma active_writers: "writers (active_transactions m) \<le> all_writers m"
  by (simp add: all_writers_def)

lemma one_writer: "t \<in> set ts \<Longrightarrow> write_lock t \<Longrightarrow> 0 < writers ts"
  by (auto simp: writers_def filter_empty_conv)

lemma key_phase:
  "key_inv s \<Longrightarrow> sys_phase s tid = Some p \<Longrightarrow> \<not> can_checkpoint (cl_decision (phase_locals p))
    \<and> (cl_lock (phase_locals p) \<longleftrightarrow> sys_key s = Some (InCommit tid))"
  by (simp add: key_inv_def Let_def)

lemma phase_locals_simps [simp]: "phase_locals (WriteLog v) = v" "phase_locals (FinishCommit v err cs) = v"
  by (simp_all add: phase_locals_def)

lemma step_key:
  assumes "mgr_step env s s'" "order_inv s" "key_inv s"
  shows "key_inv s'"
  using assms
proof (induction rule: mgr_step.induct)
  case (start s tid m)
  have "active_transactions m = active_transactions (sys_manager s) @ [DuckTransaction (current_start_timestamp (sys_manager s))
      (current_transaction_id (sys_manager s)) (last_committed_version (sys_manager s))]"
    "checkpoint_lock m = checkpoint_lock (sys_manager s)" "recently_committed_transactions m = recently_committed_transactions (sys_manager s)"
    "old_transactions m = old_transactions (sys_manager s)" "cleanup_queue m = cleanup_queue (sys_manager s)"
    using start(1) by (auto simp: StartTransaction_def Let_def split: if_splits)
  then show ?case using start(3) by (auto simp: key_inv_def all_writers_def DuckTransaction_def Let_def)
next
  case (new_query s q m tid)
  have "same_writers (sys_manager s) (SetActiveQuery tid q m)"
    unfolding SetActiveQuery_def using new_query(1) by (intro same_writers_update) (auto simp: GetNewQueryNumber_def)
  moreover have "checkpoint_lock (SetActiveQuery tid q m) = checkpoint_lock (sys_manager s)"
    using new_query(1) by (auto simp: SetActiveQuery_def GetNewQueryNumber_def)
  ultimately show ?case by (intro same_writers_key [OF new_query(3)]) simp_all
next
  case (end_query s tid)
  have "same_writers (sys_manager s) (SetActiveQuery tid MAXIMUM_QUERY_ID (sys_manager s))"
    unfolding SetActiveQuery_def by (intro same_writers_update) auto
  then show ?case by (intro same_writers_key [OF end_query(2)]) (simp_all add: SetActiveQuery_def)
next
  case (read_write s tid m)
  have "active_ok (sys_manager s)" "read_count (checkpoint_lock (sys_manager s)) = all_writers (sys_manager s)"
    using read_write(3,4) by (simp_all add: order_inv_def key_inv_def Let_def)
  from read_write_key [OF read_write(2) this] show ?case
    using read_write(4) by (auto simp: key_inv_def Let_def)
next
  case (catalog s tid block_size e extra m)
  have "same_writers (sys_manager s) m \<and> checkpoint_lock m = checkpoint_lock (sys_manager s)"
    using catalog(2) unfolding PushCatalogEntry_def Let_def
    by (auto split: option.splits if_splits intro!: same_writers_update)
  then show ?case by (intro same_writers_key [OF catalog(4)]) simp_all
next
  case (work s tid ub db)
  have "same_writers (sys_manager s) (update_transaction tid (\<lambda>t. t\<lparr>tx_undo_buffer := ub\<rparr>) (sys_manager s\<lparr>mgr_db := db\<rparr>))"
    by (intro same_writers_update) auto
  then show ?case by (intro same_writers_key [OF work(3)]) simp_all
next
  case (commit s tid v m err d m')
  let ?m = "sys_manager s"
  obtain t l where b: "active_transaction tid ?m = Some t" "CanCheckpoint env t (cl_properties v) ?m = Inr (cl_decision v, l, cl_lock v)"
    "m = ?m\<lparr>checkpoint_lock := l\<rparr>" using commit_begin_lock [OF commit(2)] by blast
  have k: "read_count (checkpoint_lock ?m) = all_writers ?m" "exclusive_lock (checkpoint_lock ?m) = (sys_key s \<noteq> None)"
    using commit(6) by (simp_all add: key_inv_def Let_def)
  note cl = CanCheckpoint_lock [OF b(2)]
  have m: "active_ok m" "read_count (checkpoint_lock m) = all_writers m" "active_transaction tid m = Some t"
    "all_writers m = all_writers ?m" "active_transactions m = active_transactions ?m"
    using order_active [OF commit(5)] k cl(1) b by (auto simp: active_ok_def all_writers_def active_transaction_def)
  have f: "writers (active_transactions m) = writers (active_transactions m') + (if write_lock t then 1 else 0)"
    "read_count (checkpoint_lock m') = all_writers m'" "all_writers m' \<le> all_writers m"
    "exclusive_lock (checkpoint_lock m') = (exclusive_lock (checkpoint_lock m) \<and> (can_checkpoint d \<or> \<not> cl_lock v))"
    "can_checkpoint d \<longrightarrow> d = cl_decision v"
    "\<forall>u\<in>set (active_transactions m). transaction_id u \<noteq> tid \<longrightarrow> u \<in> set (active_transactions m')"
    using finish_key [OF commit(4) m(1,2)] m(3) by auto
  show ?case
  proof (cases "cl_lock v")
    case True
    then have l: "sys_key s = None" "read_count l = 1" "exclusive_lock l" "write_lock t" using cl(2) k(2) by auto
    have w: "all_writers m = 1" using l(2) m(2) b(3) by simp
    have "writers (active_transactions m') = 0" using f(1) l(4) active_writers [of m] w by simp
    then show ?thesis using commit(1,6) f l True w b(3) by (auto simp: key_inv_def committed_def Let_def)
  next
    case False
    then have nd: "\<not> can_checkpoint d" "l = checkpoint_lock ?m" using cl(3) f(5) by auto
    have sub: "writers (active_transactions m') \<le> writers (active_transactions ?m)" using f(1) m(5) by simp
    have inc: "\<exists>u\<in>set (active_transactions m'). transaction_id u = tid' \<and> write_lock u" if o: "sys_key s = Some (InCommit tid')" for tid'
    proof -
      have "tid' \<noteq> tid" using commit(1,6) o by (auto simp: key_inv_def Let_def)
      moreover obtain u where "u \<in> set (active_transactions ?m)" "transaction_id u = tid'" "write_lock u"
        using commit(6) o by (auto simp: key_inv_def Let_def)
      ultimately show ?thesis using f(6) m(5) by auto
    qed
    then show ?thesis using commit(1,6) f False nd b(3) m(4) k(2) sub by (auto simp: key_inv_def committed_def Let_def)
  qed
next
  case (commit_start s tid v m)
  let ?m = "sys_manager s"
  obtain t l where b: "active_transaction tid ?m = Some t" "CanCheckpoint env t (cl_properties v) ?m = Inr (cl_decision v, l, cl_lock v)"
    "m = ?m\<lparr>checkpoint_lock := l\<rparr>" "\<not> can_checkpoint (cl_decision v)" "write_lock t"
    using commit_begin_lock [OF commit_start(2)] commit_start(3) by blast
  have w: "all_writers m = all_writers ?m" by (simp add: all_writers_def b(3))
  have t: "t \<in> set (active_transactions ?m)" "transaction_id t = tid" using active_transactionD [OF b(1)] by simp_all
  have "\<exists>t\<in>set (active_transactions m). transaction_id t = tid \<and> write_lock t" using t b(3,5) by auto
  then show ?case
    using commit_start(1,5) b(4) CanCheckpoint_lock [OF b(2)] w t
    by (cases "cl_lock v") (auto simp: key_inv_def Let_def b(3) split: if_splits)
next
  case (commit_log s tid v err cs m)
  have act: "active_ok (sys_manager s)" by (rule order_active [OF commit_log(3)])
  obtain t ub db where t: "active_transaction tid (sys_manager s) = Some t"
    and m: "m = update_transaction tid (\<lambda>_. t\<lparr>tx_undo_buffer := ub\<rparr>) (sys_manager s\<lparr>mgr_db := db\<rparr>)"
    using commit_log(2) unfolding commit_wal_def WriteToWAL_def Let_def by (auto split: option.splits prod.splits)
  obtain xs ys where a: "active_transactions (sys_manager s) = xs @ t # ys" "tid \<notin> transaction_id ` set (xs @ ys)"
    using active_split [OF t] act by (auto simp: active_ok_def)
  have "active_transactions m = xs @ t\<lparr>tx_undo_buffer := ub\<rparr> # ys"
    unfolding m by (rule update_split [OF _ active_transactionD(2) [OF t] a(2)]) (simp add: a)
  then have "same_writers (sys_manager s) m" using a by (auto simp: same_writers_def m)
  then have "key_inv (s\<lparr>sys_manager := m\<rparr>)" by (intro same_writers_key [OF commit_log(4)]) (simp_all add: m)
  then show ?case using key_phase [OF commit_log(4,1)] unfolding key_inv_def Let_def by auto
next
  case (commit_end s tid v err cs err' d m')
  let ?m = "sys_manager s"
  have k: "read_count (checkpoint_lock ?m) = all_writers ?m" "exclusive_lock (checkpoint_lock ?m) = (sys_key s \<noteq> None)"
    "\<not> can_checkpoint (cl_decision v)" "cl_lock v \<longleftrightarrow> sys_key s = Some (InCommit tid)"
    using commit_end(4) key_phase [OF commit_end(4,1)] by (simp_all add: key_inv_def Let_def)
  obtain t :: transaction where f: "writers (active_transactions ?m) = writers (active_transactions m') + (if write_lock t then 1 else 0)"
    "read_count (checkpoint_lock m') = all_writers m'" "all_writers m' \<le> all_writers ?m"
    "exclusive_lock (checkpoint_lock m') = (exclusive_lock (checkpoint_lock ?m) \<and> (can_checkpoint d \<or> \<not> cl_lock v))"
    "can_checkpoint d \<longrightarrow> d = cl_decision v"
    "\<forall>u\<in>set (active_transactions ?m). transaction_id u \<noteq> tid \<longrightarrow> u \<in> set (active_transactions m')"
    using finish_key [OF commit_end(2) order_active [OF commit_end(3)] k(1)] by blast
  have nd: "\<not> can_checkpoint d" using f(5) k(3) by auto
  show ?case
  proof (cases "cl_lock v")
    case True
    have "sys_phase s tid' = Some p \<longrightarrow> tid' \<noteq> tid \<longrightarrow> \<not> cl_lock (phase_locals p)" for tid' p
      using commit_end(4) k(4) True by (auto simp: key_inv_def Let_def)
    then show ?thesis using commit_end(4) f nd True k by (auto simp: key_inv_def committed_def Let_def)
  next
    case False
    have sub: "writers (active_transactions m') \<le> writers (active_transactions ?m)" using f(1) by simp
    have inc: "tid' \<noteq> tid \<and> (\<exists>u\<in>set (active_transactions m'). transaction_id u = tid' \<and> write_lock u)"
      if o: "sys_key s = Some (InCommit tid')" for tid'
    proof -
      have "tid' \<noteq> tid" using k(4) False o by auto
      moreover obtain u where "u \<in> set (active_transactions ?m)" "transaction_id u = tid'" "write_lock u"
        using commit_end(4) o by (auto simp: key_inv_def Let_def)
      ultimately show ?thesis using f(6) by auto
    qed
    then show ?thesis using commit_end(4) f False nd k sub by (auto simp: key_inv_def committed_def Let_def)
  qed
next
  case (rollback s tid err m)
  let ?m = "sys_manager s"
  have k: "read_count (checkpoint_lock ?m) = all_writers ?m" "exclusive_lock (checkpoint_lock ?m) = (sys_key s \<noteq> None)"
    using rollback(4) by (simp_all add: key_inv_def Let_def)
  have f: "writers (active_transactions m) \<le> writers (active_transactions ?m)"
    "\<forall>u\<in>set (active_transactions ?m). transaction_id u \<noteq> tid \<longrightarrow> u \<in> set (active_transactions m)"
    "read_count (checkpoint_lock m) = all_writers m" "all_writers m \<le> all_writers ?m"
    "exclusive_lock (checkpoint_lock m) = exclusive_lock (checkpoint_lock ?m)"
    using rollback_key [OF rollback(2) order_active [OF rollback(3)] k(1)] by auto
  have "\<exists>u\<in>set (active_transactions m). transaction_id u = tid' \<and> write_lock u"
    if o: "sys_key s = Some (InCommit tid')" for tid'
  proof -
    have "tid' \<noteq> tid" using rollback(1,4) o by (auto simp: key_inv_def Let_def)
    moreover obtain u where "u \<in> set (active_transactions ?m)" "transaction_id u = tid'" "write_lock u"
      using rollback(4) o by (auto simp: key_inv_def Let_def)
    ultimately show ?thesis using f(2) by auto
  qed
  then show ?case using rollback(4) f k by (auto simp: key_inv_def Let_def)
next
  case (cleanup s m)
  show ?case
  proof (cases "cleanup_queue (sys_manager s)")
    case Nil
    then show ?thesis using cleanup by (auto simp: cleanup_next_def key_inv_def)
  next
    case (Cons info rest)
    then obtain db where m: "m = sys_manager s\<lparr>cleanup_queue := rest, mgr_db := db,
        checkpoint_lock := fold destroy_transaction (info_transactions info) (checkpoint_lock (sys_manager s))\<rparr>"
      using cleanup(1) by (auto simp: cleanup_next_def)
    have "all_writers (sys_manager s) = all_writers m + writers (info_transactions info)"
      by (simp add: m all_writers_def Cons)
    then show ?thesis using cleanup(3) by (auto simp: key_inv_def Let_def m fold_destroy)
  qed
next
  case (checkpoint force interrupted s l)
  have l: "\<not> exclusive_lock (checkpoint_lock (sys_manager s))" "read_count (checkpoint_lock (sys_manager s)) = 0"
    "l = checkpoint_lock (sys_manager s)\<lparr>exclusive_lock := True\<rparr>"
    using checkpoint(1) by (auto simp: Checkpoint_attempt_def TryGetExclusiveLock_def split: if_splits option.splits)
  have "all_writers (sys_manager s\<lparr>checkpoint_lock := l\<rparr>) = all_writers (sys_manager s)" by (simp add: all_writers_def)
  then show ?case using checkpoint(3) l active_writers [of "sys_manager s"] by (auto simp: key_inv_def Let_def)
next
  case (checkpoint_done s)
  have "all_writers (sys_manager s\<lparr>checkpoint_lock := l\<rparr>) = all_writers (sys_manager s)" for l by (simp add: all_writers_def)
  then show ?case using checkpoint_done(1,3) by (auto simp: key_inv_def Let_def release_key_def ReleaseExclusiveLock_def)
qed

lemma start_system_key: "key_inv (system_start (DuckTransactionManager lc q db))"
  by (simp add: key_inv_def Let_def system_start_def DuckTransactionManager_def StorageLockInternals_def all_writers_def)

lemma reachable_key: "reachable env s \<Longrightarrow> key_inv s"
  by (induction rule: reachable_induct) (auto intro: start_system_key step_key reachable_order)

section \<open>Properties\<close>



text \<open>A checkpoint while two transactions that have not written are active.\<close>

lemma checkpoint_reachable:
  "reachable plain_env (system_start (two_started [])\<lparr>sys_manager := (two_started [])\<lparr>checkpoint_lock := \<lparr>exclusive_lock = True, read_count = 0\<rparr>\<rparr>,
     sys_key := Some Checkpointing\<rparr>)"
proof -
  have "mgr_step plain_env (system_start (two_started [])) ((system_start (two_started []))
      \<lparr>sys_manager := sys_manager (system_start (two_started []))\<lparr>checkpoint_lock := \<lparr>exclusive_lock = True, read_count = 0\<rparr>\<rparr>,
       sys_key := Some Checkpointing\<rparr>)"
    by (rule mgr_step.checkpoint [where force = False and interrupted = False])
      (simp add: system_start_def two_started_def StorageLockInternals_def Checkpoint_attempt_def TryGetExclusiveLock_def)
  from reachable_step [OF two_started_reachable this] show ?thesis by (simp add: system_start_def)
qed



end
