(* ===== verification/CommitVisibility.thy ===== *)
theory CommitVisibility
  imports TransactionOrder
begin

text \<open>
  The transaction manager and the row versions together: what the commit of a transaction changes for the
  transactions that run beside it and after it.
\<close>

section \<open>What other transactions see of a commit\<close>

lemma active_reader:
  assumes "reachable env s" "a \<in> set (active_transactions (sys_manager s))" "transaction_id a \<noteq> tid" "TRANSACTION_ID_START \<le> tid"
  shows "other_reader tid (TransactionData a)"
proof -
  have i: "clock_ok (sys_manager s)" "active_ok (sys_manager s)"
    using reachable_order [OF assms(1)] by (simp_all add: order_inv_def)
  have a: "0 < start_time a" "start_time a < TRANSACTION_ID_START" "transaction_id a < current_transaction_id (sys_manager s)"
    using i(2) assms(2) by (auto simp: active_ok_def)
  have "unat (transaction_id a) < unat (current_transaction_id (sys_manager s))" using a(3) by (simp add: word_less_nat_alt)
  then have "unat (transaction_id a) < unat NOT_DELETED_ID"
    using i(1) by (auto simp: clock_ok_def issued_def TRANSACTION_ID_START_def NOT_DELETED_ID_def)
  then show ?thesis using a(1,2) assms(3,4) by (auto simp: other_reader_def reader_def reader_ids_def TransactionData_def)
qed

lemma finish_db:
  assumes t: "active_transaction tid m = Some t" and act: "active_ok m"
    and ch: "tx_ChangesMade env t (mgr_db m)" "modified_error env tid (db_other (mgr_db m)) = None"
    and loc: "local_commit env tid (tx_undo_buffer t) (mgr_db m) = ((ub, db), None)"
    and f: "commit_finish env tid v None False m = Some (Inr (None, d, m'))"
  shows "\<exists>db1 it. undo_Commit (env_calls env) (start_time t) (current_start_timestamp m) ub db = Some (db1, it, None)
    \<and> mgr_db m' = db1 \<and> current_start_timestamp m' = current_start_timestamp m + 1
    \<and> (\<forall>a\<in>set (active_transactions m'). a \<in> set (active_transactions m) \<and> transaction_id a \<noteq> tid)"
proof -
  have tid: "transaction_id t = tid" by (rule active_transactionD(2) [OF t])
  obtain xs ys where a: "active_transactions m = xs @ t # ys" and d': "tid \<notin> transaction_id ` set (xs @ ys)"
    using active_split [OF t] act by (auto simp: active_ok_def)
  let ?m1 = "snd (GetCommitTimestamp m)" and ?c = "current_start_timestamp m"
  obtain m2 where u: "commit_undo env ?c None False t ?m1 = Some (Inr (None, m2))"
    and r: "map_option (\<lambda>im. Inr (None, d, enqueue_cleanup im)) (RemoveTransaction env tid (needs_store v None)
       (if \<not> can_checkpoint d \<and> cl_lock v then m2\<lparr>checkpoint_lock := release_key EXCLUSIVE (checkpoint_lock m2)\<rparr> else m2))
       = Some (Inr (None, d, m') :: version_error + version_error option \<times> checkpoint_decision \<times> 'a manager)"
    using f unfolding commit_finish_def t needs_store_def
    by (auto simp: GetCommitTimestamp_def Let_def split: option.splits sum.splits prod.splits)
  let ?m3 = "if \<not> can_checkpoint d \<and> cl_lock v then m2\<lparr>checkpoint_lock := release_key EXCLUSIVE (checkpoint_lock m2)\<rparr> else m2"
  obtain im where im: "RemoveTransaction env tid (needs_store v None) ?m3 = Some im" "m' = enqueue_cleanup im" using r by auto
  have cm: "tx_ChangesMade env (t\<lparr>commit_id := ?c\<rparr>) (mgr_db m)" using ch(1) by (simp add: tx_ChangesMade_def)
  obtain t1 db1 where c: "tx_Commit env ?c False t (mgr_db m) = Some (t1, db1, None)" and m2: "mgr_db m2 = db1"
  proof -
    have "mgr_db ?m1 = mgr_db m" by (simp add: GetCommitTimestamp_def Let_def)
    then show ?thesis using u that unfolding commit_undo_def Let_def
      by (auto split: option.splits prod.splits if_splits)
  qed
  have uc: "\<exists>it. undo_Commit (env_calls env) (start_time t) ?c ub db = Some (db1, it, None)"
    using c unfolding tx_Commit_def Let_def tid using cm ch(2) loc tid
    by (auto split: option.splits prod.splits if_splits dest: revert_commit_tx)
  from commit_undo_effect [OF u] obtain t' db2 w where t': "transaction_id t' = transaction_id t"
    and m2': "m2 = update_transaction tid (\<lambda>_. t') (?m1\<lparr>mgr_db := db2, last_committed_version := w\<rparr>)" by (auto simp: tid)
  have "active_transactions m2 = xs @ t' # ys"
    unfolding m2' by (rule update_split [OF _ tid d']) (simp add: GetCommitTimestamp_def Let_def a)
  then have a3: "active_transactions ?m3 = xs @ t' # ys" by simp
  have R: "active_transactions m' = xs @ ys" "mgr_db m' = mgr_db ?m3" "current_start_timestamp m' = current_start_timestamp ?m3"
    using remove_lists [OF a3 _ d' im(1)] t' tid im(2) by auto
  moreover have "mgr_db ?m3 = db1" "current_start_timestamp ?m3 = ?c + 1"
    using m2 by (simp_all) (simp add: m2' GetCommitTimestamp_def Let_def)
  ultimately show ?thesis using uc d' by (auto simp: a)
qed


text \<open>The example of the previous section as transaction 0.\<close>

lemma changed_commit_4: "\<exists>db1 it. undo_Commit no_calls 2 4 changed_undo changed_db = Some (db1, it, None)"
proof -
  have "(4 :: transaction_t) \<noteq> NOT_DELETED_ID" "\<forall>t. \<forall>v\<in>set (versions changed_db t). fst v \<noteq> 4"
    by (auto simp: changed_versions NOT_DELETED_ID_def TRANSACTION_ID_START_def)
  from commit_atomic_aux [OF changed_facts(1-4) this, of no_calls 2] changed_no_catalog show ?thesis by blast
qed

lemma changed_finish: "\<exists>d m'. commit_finish plain_env TRANSACTION_ID_START update_locals None False (two_started changed_undo) =
     Some (Inr (None, d, m')) \<and> current_start_timestamp m' = 5"
proof -
  obtain db1 it where c: "undo_Commit no_calls 2 4 changed_undo changed_db = Some (db1, it, None)" using changed_commit_4 by blast
  have u: "active_transaction TRANSACTION_ID_START (two_started ub) = Some ((DuckTransaction 2 TRANSACTION_ID_START 0)\<lparr>tx_undo_buffer := ub\<rparr>)" for ub
    by (simp add: active_transaction_def two_started_def DuckTransaction_def)
  have ne: "changed_undo \<noteq> []" by (simp add: changed_undo_def)
  show ?thesis
    unfolding commit_finish_def u option.case
    by (simp add: GetCommitTimestamp_def Let_def commit_undo_def tx_Commit_def tx_ChangesMade_def ChangesMade_def ne
        plain_env_def c RemoveTransaction_def place_transaction_def update_locals_def update_transaction_def
        two_started_def DuckTransaction_def start_ids enqueue_cleanup_def ScheduleCleanup_def)
qed


end
