(* ===== verification/ByteStrings.thy ===== *)
theory ByteStrings
  imports Prelude
begin

text \<open>
  Strings as the engine stores them: byte sequences.  The order of \<open>string_t\<close>
  (\<open>common/types/string_type.hpp\<close>), which first compares the four prefix bytes as one big-endian
  word, the prefix comparison of the string statistics
  (\<open>storage/statistics/string_stats.cpp\<close>), and the UTF-8 check every text value passes
  (\<open>utf8proc_wrapper.cpp\<close>), which skips eight ASCII bytes at a time.
\<close>

type_synonym byte = "8 word"

section \<open>Lexicographic order of bytes\<close>

text \<open>The order the comparisons implement: bytewise unsigned, a proper prefix is smaller.\<close>

fun bytes_less :: "byte list \<Rightarrow> byte list \<Rightarrow> bool" where
  "bytes_less [] [] = False"
| "bytes_less [] (y # ys) = True"
| "bytes_less (x # xs) [] = False"
| "bytes_less (x # xs) (y # ys) = (x < y \<or> x = y \<and> bytes_less xs ys)"

lemma bytes_less_irrefl [simp]: "\<not> bytes_less xs xs"
  by (induction xs) auto

lemma bytes_less_trans: "bytes_less xs ys \<Longrightarrow> bytes_less ys zs \<Longrightarrow> bytes_less xs zs"
proof (induction xs ys arbitrary: zs rule: bytes_less.induct)
  case (2 y ys)
  then show ?case by (cases zs) auto
next
  case (4 x xs y ys)
  then show ?case by (cases zs) auto
qed auto

lemma bytes_less_total: "xs \<noteq> ys \<Longrightarrow> bytes_less xs ys \<or> bytes_less ys xs"
  by (induction xs ys rule: bytes_less.induct) auto

lemma bytes_less_asym: "bytes_less xs ys \<Longrightarrow> \<not> bytes_less ys xs"
  using bytes_less_trans bytes_less_irrefl by blast

lemma bytes_not_less_trans: "\<not> bytes_less ys xs \<Longrightarrow> \<not> bytes_less zs ys \<Longrightarrow> \<not> bytes_less zs xs"
  by (metis bytes_less_trans bytes_less_total)

lemma bytes_less_Nil_right [simp]: "\<not> bytes_less xs []"
  by (cases xs) auto

lemma bytes_less_Nil_left [simp]: "bytes_less [] ys = (ys \<noteq> [])"
  by (cases ys) auto

lemma bytes_less_append_same [simp]: "bytes_less (us @ xs) (us @ ys) = bytes_less xs ys"
  by (induction us) auto

section \<open>Comparison of a fixed number of bytes\<close>

text \<open>\<open>memcmp(s, t, n)\<close>: the sign of the first difference among the first \<open>n\<close> bytes.\<close>

fun memcmp :: "byte list \<Rightarrow> byte list \<Rightarrow> nat \<Rightarrow> int" where
  "memcmp (x # xs) (y # ys) (Suc n) = (if x = y then memcmp xs ys n else if x < y then - 1 else 1)"
| "memcmp _ _ _ = 0"

text \<open>\<open>StringValueComparison\<close>: the loop of the string statistics over the bytes of both buffers.\<close>

fun StringValueComparison :: "byte list \<Rightarrow> nat \<Rightarrow> byte list \<Rightarrow> int" where
  "StringValueComparison (d # data) (Suc len) (c # comparison) =
    (if d < c then - 1
     else if d > c then 1
     else StringValueComparison data len comparison)"
| "StringValueComparison _ _ _ = 0"

lemma StringValueComparison_memcmp: "StringValueComparison xs n ys = memcmp xs ys n"
  by (induction xs ys n rule: memcmp.induct) auto

lemma memcmp_less:
  assumes "n \<le> length xs" "n \<le> length ys"
  shows "memcmp xs ys n < 0 \<longleftrightarrow> bytes_less (take n xs) (take n ys)"
  using assms by (induction xs ys n rule: memcmp.induct) auto

lemma memcmp_greater:
  assumes "n \<le> length xs" "n \<le> length ys"
  shows "memcmp xs ys n > 0 \<longleftrightarrow> bytes_less (take n ys) (take n xs)"
  using assms by (induction xs ys n rule: memcmp.induct) auto

lemma bytes_less_by_memcmp:
  "bytes_less xs ys \<longleftrightarrow>
    memcmp xs ys (min (length xs) (length ys)) < 0 \<or>
    memcmp xs ys (min (length xs) (length ys)) = 0 \<and> length xs < length ys"
proof (induction xs ys rule: bytes_less.induct)
  case (4 x xs y ys)
  then show ?case by auto
qed auto

lemma memcmp_swap: "memcmp ys xs n = - memcmp xs ys n"
  by (induction xs ys n rule: memcmp.induct) auto


text \<open>A string cut off or filled up with zero bytes to \<open>n\<close> bytes.\<close>

definition pad_bytes :: "nat \<Rightarrow> byte list \<Rightarrow> byte list" where
  "pad_bytes n s = take n (s @ replicate n 0)"

lemma length_pad_bytes [simp]: "length (pad_bytes n s) = n"
  by (simp add: pad_bytes_def)

lemma pad_bytes_simps [simp]:
  "pad_bytes 0 s = []"
  "pad_bytes (Suc n) [] = 0 # pad_bytes n []"
  "pad_bytes (Suc n) (x # xs) = x # pad_bytes n xs"
  by (simp_all add: pad_bytes_def take_Cons' flip: replicate_append_same)

lemma take_pad_bytes: "k \<le> n \<Longrightarrow> take k (pad_bytes n s) = pad_bytes k s"
  by (simp add: pad_bytes_def min_def)

lemma pad_bytes_id: "n \<le> length s \<Longrightarrow> pad_bytes n s = take n s"
  by (simp add: pad_bytes_def)

text \<open>A difference among the filled-up prefixes is a difference of the strings themselves.\<close>

lemma pad_bytes_less: "bytes_less (pad_bytes n xs) (pad_bytes n ys) \<Longrightarrow> bytes_less xs ys"
proof (induction n arbitrary: xs ys)
  case (Suc n)
  show ?case
  proof (cases xs)
    case Nil
    then show ?thesis using Suc by (cases ys) auto
  next
    case (Cons x xs')
    then show ?thesis using Suc.prems by (cases ys) (auto dest: Suc.IH)
  qed
qed simp

lemma pad_bytes_less_iff:
  assumes "pad_bytes n xs \<noteq> pad_bytes n ys"
  shows "bytes_less (pad_bytes n xs) (pad_bytes n ys) = bytes_less xs ys"
  by (metis assms bytes_less_asym bytes_less_total pad_bytes_less)

section \<open>The order of string_t\<close>

text \<open>
  A string carries its first four bytes, filled up with zeros, next to its length; the comparison
  loads them as one little-endian word and swaps its bytes.
\<close>

definition string_prefix :: "byte list \<Rightarrow> byte list" where
  "string_prefix s = take 4 (s @ replicate 4 0)"

definition load32 :: "byte list \<Rightarrow> 32 word" where
  "load32 bs = ucast (bs ! 0) OR push_bit 8 (ucast (bs ! 1)) OR push_bit 16 (ucast (bs ! 2))
      OR push_bit 24 (ucast (bs ! 3))"

definition byte_swap :: "32 word \<Rightarrow> 32 word" where
  "byte_swap v =
    (let t1 = drop_bit 16 v OR push_bit 16 v;
         t2 = t1 AND 0x00ff00ff;
         t3 = t1 AND 0xff00ff00
     in push_bit 8 t2 OR drop_bit 8 t3)"

definition string_GreaterThan :: "byte list \<Rightarrow> byte list \<Rightarrow> bool" where
  "string_GreaterThan left right =
    (let left_length = length left; right_length = length right;
         min_length = min left_length right_length;
         a_prefix = load32 (string_prefix left); b_prefix = load32 (string_prefix right)
     in if a_prefix \<noteq> b_prefix then byte_swap a_prefix > byte_swap b_prefix
        else let memcmp_res = memcmp left right min_length
             in memcmp_res > 0 \<or> memcmp_res = 0 \<and> left_length > right_length)"

lemma byte_bit: "bit (a :: byte) n \<Longrightarrow> n < 8"
  using bit_imp_le_length [of a n] by simp

lemma load32_plus:
  "load32 [a, b, c, d] = ucast a + push_bit 8 (ucast b) + push_bit 16 (ucast c) + push_bit 24 (ucast d)"
proof -
  let ?a = "ucast a :: 32 word" and ?b = "push_bit 8 (ucast b) :: 32 word"
  let ?c = "push_bit 16 (ucast c) :: 32 word" and ?d = "push_bit 24 (ucast d) :: 32 word"
  have 1: "?c AND ?d = 0" "?b AND (?c OR ?d) = 0" "?a AND (?b OR ?c OR ?d) = 0"
    by (rule bit_word_eqI; auto simp: bit_simps dest: byte_bit)+
  show ?thesis
    unfolding load32_def using 1 by (simp add: disjunctive_add_eq_or add.assoc)
qed

lemma ucast_nat: "(ucast (a :: byte) :: 32 word) = of_nat (unat a)"
  by (simp add: word_eq_iff_unsigned unat_of_nat)

lemma unat_load32:
  "unat (load32 [a, b, c, d]) = unat a + 256 * unat b + 65536 * unat c + 16777216 * unat d"
proof -
  have a: "unat a < 256" "unat b < 256" "unat c < 256" "unat d < 256"
    using unsigned_less [of a] unsigned_less [of b] unsigned_less [of c] unsigned_less [of d] by simp_all
  have e: "load32 [a, b, c, d] = of_nat (unat a + 256 * unat b + 65536 * unat c + 16777216 * unat d)"
    unfolding load32_plus ucast_nat by (simp add: push_bit_eq_mult) 
  have "unat a + 256 * unat b + 65536 * unat c + 16777216 * unat d < 4294967296" using a by linarith
  then have "(unat a + 256 * unat b + 65536 * unat c + 16777216 * unat d) mod 2 ^ LENGTH(32) = unat a + 256 * unat b + 65536 * unat c + 16777216 * unat d"
    by (intro mod_less) simp
  then show ?thesis unfolding e unat_of_nat .
qed
lemma lt_32: "n < 32 \<Longrightarrow> n \<in> set [0,1,2,3,4,5,6,7,8,9,10,11,12,13,14,15,16,17,18,19,20,21,22,23,24,25,26,27,28,29,30,31]" for n :: nat
proof -
  assume "n < 32"
  then have "n \<in> set [0..<32]" by simp
  also have "[0..<32] = [0,1,2,3,4,5,6,7,8,9,10,11,12,13,14,15,16,17,18,19,20,21,22,23,24,25,26,27,28,29,30,31]" by code_simp
  finally show ?thesis .
qed
lemma byte_swap_load32:
  "byte_swap (load32 [a, b, c, d]) = load32 [d, c, b, a]"
proof (rule bit_word_eqI)
  fix n :: nat assume "n < LENGTH(32)"
  then have n: "n < 32" by simp
  show "bit (byte_swap (load32 [a, b, c, d])) n = bit (load32 [d, c, b, a]) n"
    using lt_32 [OF n] unfolding list.set insert_iff empty_iff
    by (elim disjE; simp add: byte_swap_def load32_def Let_def bit_simps) (auto dest: byte_bit)
qed

lemma string_prefix_pad: "string_prefix s = pad_bytes 4 s"
  by (simp add: string_prefix_def pad_bytes_def)

lemma pad_bytes_4: obtains a b c d where "pad_bytes 4 s = [a, b, c, d]"
proof -
  have "length (pad_bytes 4 s) = 4" by simp
  moreover have "\<exists>a b c d. xs = [a, b, c, d]" if "length xs = 4" for xs :: "byte list"
    using that by (auto simp: numeral_eq_Suc length_Suc_conv)
  ultimately show thesis using that by blast
qed

lemma big_endian_less:
  "byte_swap (load32 [a, b, c, d]) < byte_swap (load32 [a', b', c', d']) \<longleftrightarrow>
    bytes_less [a, b, c, d] [a', b', c', d']"
proof -
  have "unat x < 256" for x :: byte using unsigned_less [of x] by simp
  note lt = this [of a] this [of b] this [of c] this [of d] this [of a'] this [of b'] this [of c'] this [of d']
  have eq: "x = y \<longleftrightarrow> unat x = unat y" for x y :: byte by (rule word_unat_eq_iff)
  show ?thesis
    unfolding byte_swap_load32 word_less_nat_alt unat_load32 bytes_less.simps eq
    using lt by auto
qed

lemma load32_inject: "load32 [a, b, c, d] = load32 [a', b', c', d'] \<longleftrightarrow> [a, b, c, d] = [a', b', c', d']"
  by (metis big_endian_less bytes_less_irrefl bytes_less_total)

lemma string_GreaterThan_less: "string_GreaterThan l r = bytes_less r l"
proof -
  obtain a b c d where l: "pad_bytes 4 l = [a, b, c, d]" by (rule pad_bytes_4)
  obtain a' b' c' d' where r: "pad_bytes 4 r = [a', b', c', d']" by (rule pad_bytes_4)
  show ?thesis
  proof (cases "pad_bytes 4 l = pad_bytes 4 r")
    case True
    then show ?thesis
      using bytes_less_by_memcmp [of r l] memcmp_swap [of l r]
      by (auto simp: string_GreaterThan_def Let_def string_prefix_pad min.commute)
  next
    case False
    then have "bytes_less r l \<longleftrightarrow> bytes_less (pad_bytes 4 r) (pad_bytes 4 l)"
      using pad_bytes_less_iff by metis
    then show ?thesis
      using False l r
      by (simp add: string_GreaterThan_def Let_def string_prefix_pad load32_inject big_endian_less
          del: bytes_less.simps)
  qed
qed

text \<open>
  C23: The comparison of two strings through the first four bytes, loaded as one word and byte swapped,
  with the comparison of the bytes only when these agree, and with a string's padding by zero bytes, is
  the lexicographic order of the byte sequences, a proper prefix being smaller.
\<close>
theorem string_GreaterThan_lex: "string_GreaterThan l r = bytes_less r l"
  by (rule string_GreaterThan_less)


section \<open>The UTF-8 check\<close>

datatype UnicodeType = INVALID | ASCII | UNICODE

text \<open>The loop over the extra bytes of a sequence; \<open>None\<close> is a byte that is not \<open>10xxxxxx\<close>.\<close>

fun extra_bytes :: "byte list \<Rightarrow> 32 word \<Rightarrow> 32 word option" where
  "extra_bytes [] utf8char = Some utf8char"
| "extra_bytes (c # cs) utf8char =
    (if c AND 0xC0 \<noteq> 0x80 then None
     else extra_bytes cs (push_bit 6 utf8char OR (ucast c AND 0x3F)))"

text \<open>\<open>UTF8ExtraByteLoop\<close>: \<open>rest\<close> holds the bytes after the first byte of the sequence.\<close>

definition UTF8ExtraByteLoop :: "nat \<Rightarrow> 32 word \<Rightarrow> 32 word \<Rightarrow> byte list \<Rightarrow> UnicodeType" where
  "UTF8ExtraByteLoop nextra_bytes cmask utf8char rest =
    (if length rest < nextra_bytes then INVALID
     else case extra_bytes (take nextra_bytes rest) utf8char of
       None \<Rightarrow> INVALID
     | Some u \<Rightarrow>
        if u AND cmask = 0 then INVALID
        else if u > 0x10FFFF then INVALID
        else if u AND 0x1FFF800 = 0xD800 then INVALID
        else UNICODE)"

text \<open>The kind of sequence a first byte starts: its extra bytes, the cmask and the first bits.\<close>

definition utf8_start :: "byte \<Rightarrow> (nat \<times> 32 word \<times> 32 word) option" where
  "utf8_start c =
    (if c AND 0xE0 = 0xC0 then Some (1, 0x000780, ucast c AND 0x1F)
     else if c AND 0xF0 = 0xE0 then Some (2, 0x00F800, ucast c AND 0x0F)
     else if c AND 0xF8 = 0xF0 then Some (3, 0x1F0000, ucast c AND 0x07)
     else None)"

text \<open>
  The inner loop of \<open>Analyze\<close> looks at single bytes until \<open>n\<close> of them are used up (a sequence may
  run past the end of the eight); it returns the type so far and the bytes that are left.
\<close>

fun analyze_bytes :: "nat \<Rightarrow> byte list \<Rightarrow> UnicodeType \<Rightarrow> UnicodeType \<times> byte list" where
  "analyze_bytes 0 s type = (type, s)"
| "analyze_bytes (Suc n) [] type = (type, [])"
| "analyze_bytes (Suc n) (c # s) type =
    (if c AND 0x80 = 0 then analyze_bytes n s type
     else case utf8_start c of
       None \<Rightarrow> (INVALID, s)
     | Some (nextra, cmask, utf8char) \<Rightarrow>
        let type' = UTF8ExtraByteLoop nextra cmask utf8char s
        in if type' = INVALID then (INVALID, s)
           else analyze_bytes (n - nextra) (drop nextra s) type')"

text \<open>The outer loop skips eight bytes at a time while all of them are ASCII.\<close>

function skip_ascii :: "byte list \<Rightarrow> byte list" where
  "skip_ascii s =
    (if 8 \<le> length s \<and> (\<forall>c \<in> set (take 8 s). c AND 0x80 = 0) then skip_ascii (drop 8 s) else s)"
  by pat_completeness auto
termination by (relation "measure length") auto

declare skip_ascii.simps [simp del]

lemma length_skip_ascii: "length (skip_ascii s) \<le> length s"
  by (induction s rule: skip_ascii.induct) (subst skip_ascii.simps, auto)

lemma length_analyze_bytes: "length (snd (analyze_bytes n s t)) \<le> length s"
proof (induction s arbitrary: n t rule: length_induct)
  case (1 s)
  show ?case
  proof (cases s)
    case (Cons c s')
    have "length (snd (analyze_bytes (n - k) (drop k s') t')) \<le> length s" for n k t'
      using 1 [rule_format, of "drop k s'" "n - k" t'] Cons by (simp add: less_Suc_eq_le)
    from this [where k = 0] this show ?thesis
      unfolding Cons by (cases n) (simp_all add: Let_def split: option.split)
  qed (cases n; simp)
qed

lemma length_analyze_bytes_less:
  "0 < n \<Longrightarrow> s \<noteq> [] \<Longrightarrow> length (snd (analyze_bytes n s t)) < length s"
proof (cases n)
  case (Suc m)
  assume "s \<noteq> []"
  then obtain c s' where s: "s = c # s'" by (cases s) auto
  have "length (snd (analyze_bytes (m - k) (drop k s') t')) \<le> length s'" for k t'
    using length_analyze_bytes [of "m - k" "drop k s'" t'] by simp
  from this [of 0 t] this show ?thesis
    unfolding Suc s
    by (auto simp: Let_def less_Suc_eq_le split: option.split prod.split)
qed simp

function analyze_loop :: "byte list \<Rightarrow> UnicodeType \<Rightarrow> UnicodeType" where
  "analyze_loop s type =
    (if s = [] then type
     else let s1 = skip_ascii s;
              (type', s2) = analyze_bytes (min 8 (length s1)) s1 type
          in if type' = INVALID then INVALID else analyze_loop s2 type')"
  by pat_completeness auto
termination
proof (relation "measure (length \<circ> fst)")
  fix s t s1 p t' s2
  assume "s \<noteq> []" "s1 = skip_ascii s" "p = analyze_bytes (min 8 (length s1)) s1 t" "(t', s2) = p"
  then have s2: "s2 = snd (analyze_bytes (min 8 (length s1)) s1 t)" by (metis snd_conv)
  show "((s2, t'), s, t) \<in> measure (length \<circ> fst)"
  proof (cases "s1 = []")
    case True
    then show ?thesis using s2 \<open>s \<noteq> []\<close> by simp
  next
    case False
    then have "length s2 < length s1"
      unfolding s2 by (intro length_analyze_bytes_less) auto
    then show ?thesis using length_skip_ascii [of s] \<open>s1 = _\<close> by simp
  qed
qed simp

declare analyze_loop.simps [simp del]

definition Analyze :: "byte list \<Rightarrow> UnicodeType" where
  "Analyze s = analyze_loop s ASCII"

definition StringIsValid :: "byte list \<Rightarrow> bool" where
  "StringIsValid s = (Analyze s \<noteq> INVALID)"

text \<open>The reference: one character after the other.\<close>

fun utf8_chars :: "byte list \<Rightarrow> UnicodeType \<Rightarrow> UnicodeType" where
  "utf8_chars [] type = type"
| "utf8_chars (c # s) type =
    (if c AND 0x80 = 0 then utf8_chars s type
     else case utf8_start c of
       None \<Rightarrow> INVALID
     | Some (nextra, cmask, utf8char) \<Rightarrow>
        if UTF8ExtraByteLoop nextra cmask utf8char s = INVALID then INVALID
        else utf8_chars (drop nextra s) UNICODE)"

lemma UTF8ExtraByteLoop_result: "UTF8ExtraByteLoop n m u s \<in> {INVALID, UNICODE}"
  by (simp add: UTF8ExtraByteLoop_def split: option.split)

lemma utf8_chars_split:
  "t \<noteq> INVALID \<Longrightarrow>
    utf8_chars s t = (case analyze_bytes n s t of (t', s') \<Rightarrow> if t' = INVALID then INVALID else utf8_chars s' t')"
proof (induction s arbitrary: n t rule: length_induct)
  case (1 s)
  show ?case
  proof (cases s)
    case (Cons c s')
    have valid: "UTF8ExtraByteLoop k m u s' = UNICODE" if "UTF8ExtraByteLoop k m u s' \<noteq> INVALID" for k m u
      using UTF8ExtraByteLoop_result that by blast
    have IH: "utf8_chars (drop k s') t' =
        (case analyze_bytes (n - k) (drop k s') t' of (t'', s'') \<Rightarrow> if t'' = INVALID then INVALID else utf8_chars s'' t'')"
      if "t' \<noteq> INVALID" for n k t'
      using 1(1) [rule_format, of "drop k s'" t' "n - k"] Cons that by simp
    from IH [OF 1(2), where k = 0] IH [of UNICODE] valid show ?thesis
      unfolding Cons using 1(2) by (cases n) (auto simp: Let_def valid split: option.split)
  qed (cases n; simp add: 1(2))
qed

lemma utf8_chars_skip: "utf8_chars (skip_ascii s) t = utf8_chars s t"
proof (induction s rule: skip_ascii.induct)
  case (1 s)
  have ascii: "utf8_chars (xs @ ys) t = utf8_chars ys t" if "\<forall>c \<in> set xs. c AND 0x80 = 0" for xs ys
    using that by (induction xs) auto
  show ?case
  proof (cases "8 \<le> length s \<and> (\<forall>c \<in> set (take 8 s). c AND 0x80 = 0)")
    case True
    then have "utf8_chars (skip_ascii s) t = utf8_chars (drop 8 s) t"
      using 1 by (subst skip_ascii.simps) simp
    also have "\<dots> = utf8_chars (take 8 s @ drop 8 s) t"
      using True by (subst ascii) auto
    finally show ?thesis by simp
  next
    case False
    then show ?thesis by (subst skip_ascii.simps) auto
  qed
qed

lemma analyze_loop_chars: "t \<noteq> INVALID \<Longrightarrow> analyze_loop s t = utf8_chars s t"
proof (induction s t rule: analyze_loop.induct)
  case (1 s t)
  show ?case
  proof (cases "s = []")
    case False
    let ?s1 = "skip_ascii s"
    obtain t' s2 where p: "analyze_bytes (min 8 (length ?s1)) ?s1 t = (t', s2)" by fastforce
    have "utf8_chars s t = utf8_chars ?s1 t" by (simp add: utf8_chars_skip)
    also have "\<dots> = (if t' = INVALID then INVALID else utf8_chars s2 t')"
      using utf8_chars_split [of t ?s1 "min 8 (length ?s1)"] p 1 by simp
    also have "\<dots> = analyze_loop s t"
      using 1(1) [OF False refl p [symmetric] refl] False p by (subst analyze_loop.simps) simp
    finally show ?thesis by simp
  qed (simp add: analyze_loop.simps)
qed

text \<open>
  C22: The validation of a byte sequence as UTF-8, which skips eight ASCII bytes at a time and validates the
  rest in runs of up to eight characters, gives the result of validating one character after the other.
\<close>
theorem Analyze_chars: "Analyze s = utf8_chars s ASCII"
  by (simp add: Analyze_def analyze_loop_chars)

end
