(* ===== verification/ColumnStatistics.thy ===== *)
theory ColumnStatistics
  imports ByteStrings
begin

text \<open>
  The statistics kept per column and per column segment: whether NULLs and values occur, and the
  smallest and largest value (for text: of the first eight bytes).  Modelled from
  \<open>storage/statistics/base_statistics.cpp\<close>, \<open>numeric_stats.cpp\<close>, \<open>string_stats.cpp\<close> and their
  headers, for the integer types, booleans, text, blobs and the validity mask.  A failed
  assertion or an exception is \<open>None\<close>.
\<close>

section \<open>Types and values\<close>

datatype LogicalType =
  LT_SQLNULL | LT_BOOLEAN | LT_TINYINT | LT_SMALLINT | LT_INTEGER | LT_BIGINT | LT_HUGEINT
| LT_UTINYINT | LT_USMALLINT | LT_UINTEGER | LT_UBIGINT | LT_UHUGEINT | LT_VARCHAR | LT_BLOB
| LT_VALIDITY

datatype PhysicalType =
  PT_BOOL | PT_INT8 | PT_INT16 | PT_INT32 | PT_INT64 | PT_INT128
| PT_UINT8 | PT_UINT16 | PT_UINT32 | PT_UINT64 | PT_UINT128 | PT_VARCHAR | PT_BIT

fun InternalType :: "LogicalType \<Rightarrow> PhysicalType" where
  "InternalType LT_BOOLEAN = PT_BOOL"
| "InternalType LT_TINYINT = PT_INT8"
| "InternalType LT_UTINYINT = PT_UINT8"
| "InternalType LT_SMALLINT = PT_INT16"
| "InternalType LT_USMALLINT = PT_UINT16"
| "InternalType LT_SQLNULL = PT_INT32"
| "InternalType LT_INTEGER = PT_INT32"
| "InternalType LT_UINTEGER = PT_UINT32"
| "InternalType LT_BIGINT = PT_INT64"
| "InternalType LT_UBIGINT = PT_UINT64"
| "InternalType LT_UHUGEINT = PT_UINT128"
| "InternalType LT_HUGEINT = PT_INT128"
| "InternalType LT_VARCHAR = PT_VARCHAR"
| "InternalType LT_BLOB = PT_VARCHAR"
| "InternalType LT_VALIDITY = PT_BIT"

text \<open>A value that is not NULL; a cell of a column is a \<open>Value option\<close>, with \<open>None\<close> for NULL.\<close>

datatype Value = NumericValue int | StringValue "byte list"

fun signed_bits :: "PhysicalType \<Rightarrow> (bool \<times> nat) option" where
  "signed_bits PT_INT8 = Some (True, 8)"
| "signed_bits PT_INT16 = Some (True, 16)"
| "signed_bits PT_INT32 = Some (True, 32)"
| "signed_bits PT_INT64 = Some (True, 64)"
| "signed_bits PT_INT128 = Some (True, 128)"
| "signed_bits PT_UINT8 = Some (False, 8)"
| "signed_bits PT_UINT16 = Some (False, 16)"
| "signed_bits PT_UINT32 = Some (False, 32)"
| "signed_bits PT_UINT64 = Some (False, 64)"
| "signed_bits PT_UINT128 = Some (False, 128)"
| "signed_bits PT_BOOL = Some (False, 1)"
| "signed_bits _ = None"

definition MinimumValue :: "PhysicalType \<Rightarrow> int" where
  "MinimumValue p = (case signed_bits p of Some (True, w) \<Rightarrow> - (2 ^ (w - 1)) | _ \<Rightarrow> 0)"

definition MaximumValue :: "PhysicalType \<Rightarrow> int" where
  "MaximumValue p =
    (case signed_bits p of
       Some (True, w) \<Rightarrow> 2 ^ (w - 1) - 1
     | Some (False, w) \<Rightarrow> 2 ^ w - 1
     | None \<Rightarrow> 0)"

text \<open>The values a column of a type can hold.\<close>

fun value_has_type :: "LogicalType \<Rightarrow> Value \<Rightarrow> bool" where
  "value_has_type t (NumericValue i) \<longleftrightarrow>
    signed_bits (InternalType t) \<noteq> None \<and> t \<noteq> LT_SQLNULL \<and>
    MinimumValue (InternalType t) \<le> i \<and> i \<le> MaximumValue (InternalType t)"
| "value_has_type t (StringValue s) \<longleftrightarrow>
    InternalType t = PT_VARCHAR \<and> length s < 2 ^ 32 \<and> (t = LT_VARCHAR \<longrightarrow> StringIsValid s)"

section \<open>The statistics records\<close>

datatype StatisticsType = NUMERIC_STATS | STRING_STATS | BASE_STATS

definition GetStatsType :: "LogicalType \<Rightarrow> StatisticsType" where
  "GetStatsType type =
    (if type = LT_SQLNULL then BASE_STATS
     else case InternalType type of PT_VARCHAR \<Rightarrow> STRING_STATS | PT_BIT \<Rightarrow> BASE_STATS | _ \<Rightarrow> NUMERIC_STATS)"

record NumericStatsData =
  has_min :: bool
  has_max :: bool
  num_min :: int
  num_max :: int

definition MAX_STRING_MINMAX_SIZE :: nat where
  "MAX_STRING_MINMAX_SIZE = 8"

record StringStatsData =
  str_min :: "byte list"
  str_max :: "byte list"
  has_unicode :: bool
  has_max_string_length :: bool
  max_string_length :: u32

datatype stats_data = NumericData NumericStatsData | StringData StringStatsData | NoData

record BaseStatistics =
  stats_type :: LogicalType
  has_null :: bool
  has_no_null :: bool
  distinct_count :: u64
  stats_union :: stats_data

definition CanHaveNull :: "BaseStatistics \<Rightarrow> bool" where
  "CanHaveNull stats = has_null stats"

definition CanHaveNoNull :: "BaseStatistics \<Rightarrow> bool" where
  "CanHaveNoNull stats = has_no_null stats"

text \<open>\<open>GetDataUnsafe\<close> of both kinds: the assertion fails on statistics of the other kind.\<close>

definition NumericStats_GetDataUnsafe :: "BaseStatistics \<Rightarrow> NumericStatsData option" where
  "NumericStats_GetDataUnsafe stats = (case stats_union stats of NumericData d \<Rightarrow> Some d | _ \<Rightarrow> None)"

definition StringStats_GetDataUnsafe :: "BaseStatistics \<Rightarrow> StringStatsData option" where
  "StringStats_GetDataUnsafe stats = (case stats_union stats of StringData d \<Rightarrow> Some d | _ \<Rightarrow> None)"

section \<open>Creation\<close>

definition NumericStats_CreateUnknown :: "LogicalType \<Rightarrow> stats_data" where
  "NumericStats_CreateUnknown type =
    NumericData \<lparr>has_min = False, has_max = False, num_min = 0, num_max = 0\<rparr>"

definition NumericStats_CreateEmpty :: "LogicalType \<Rightarrow> stats_data" where
  "NumericStats_CreateEmpty type =
    NumericData \<lparr>has_min = True, has_max = True,
      num_min = MaximumValue (InternalType type), num_max = MinimumValue (InternalType type)\<rparr>"

definition StringStats_CreateUnknown :: "stats_data" where
  "StringStats_CreateUnknown =
    StringData \<lparr>str_min = replicate MAX_STRING_MINMAX_SIZE 0,
      str_max = replicate MAX_STRING_MINMAX_SIZE 0xFF,
      has_unicode = True, has_max_string_length = False, max_string_length = 0\<rparr>"

definition StringStats_CreateEmpty :: "stats_data" where
  "StringStats_CreateEmpty =
    StringData \<lparr>str_min = replicate MAX_STRING_MINMAX_SIZE 0xFF,
      str_max = replicate MAX_STRING_MINMAX_SIZE 0,
      has_unicode = False, has_max_string_length = True, max_string_length = 0\<rparr>"

definition CreateUnknown :: "LogicalType \<Rightarrow> BaseStatistics" where
  "CreateUnknown type =
    \<lparr>stats_type = type, has_null = True, has_no_null = True, distinct_count = 0,
     stats_union = (case GetStatsType type of
        NUMERIC_STATS \<Rightarrow> NumericStats_CreateUnknown type
      | STRING_STATS \<Rightarrow> StringStats_CreateUnknown
      | BASE_STATS \<Rightarrow> NoData)\<rparr>"

definition CreateEmpty :: "LogicalType \<Rightarrow> BaseStatistics" where
  "CreateEmpty type =
    (if InternalType type = PT_BIT
     then \<lparr>stats_type = type, has_null = False, has_no_null = False, distinct_count = 0, stats_union = NoData\<rparr>
     else \<lparr>stats_type = type, has_null = False, has_no_null = True, distinct_count = 0,
       stats_union = (case GetStatsType type of
          NUMERIC_STATS \<Rightarrow> NumericStats_CreateEmpty type
        | STRING_STATS \<Rightarrow> StringStats_CreateEmpty
        | BASE_STATS \<Rightarrow> NoData)\<rparr>)"

section \<open>Updating with a new value\<close>

definition UpdateValue :: "int \<Rightarrow> NumericStatsData \<Rightarrow> NumericStatsData" where
  "UpdateValue new_value d =
    (let d1 = d\<lparr>num_min := if new_value < num_min d then new_value else num_min d\<rparr>
     in d1\<lparr>num_max := if new_value > num_max d1 then new_value else num_max d1\<rparr>)"

definition UpdateNumericStats :: "int \<Rightarrow> BaseStatistics \<Rightarrow> BaseStatistics option" where
  "UpdateNumericStats new_value stats =
    (case NumericStats_GetDataUnsafe stats of
       None \<Rightarrow> None
     | Some d \<Rightarrow> Some (stats\<lparr>stats_union := NumericData (UpdateValue new_value d)\<rparr>))"

text \<open>\<open>ConstructValue\<close>: the first eight bytes of the value, filled up with zeros.\<close>

definition ConstructValue :: "byte list \<Rightarrow> byte list" where
  "ConstructValue data =
    (let value_size = (if length data > MAX_STRING_MINMAX_SIZE then MAX_STRING_MINMAX_SIZE else length data)
     in take value_size data @ replicate (MAX_STRING_MINMAX_SIZE - value_size) 0)"

definition StringStats_Update :: "byte list \<Rightarrow> BaseStatistics \<Rightarrow> BaseStatistics option" where
  "StringStats_Update value stats =
    (case StringStats_GetDataUnsafe stats of
       None \<Rightarrow> None
     | Some d \<Rightarrow>
        let target = ConstructValue value;
            d1 = (if StringValueComparison target MAX_STRING_MINMAX_SIZE (str_min d) < 0
                  then d\<lparr>str_min := target\<rparr> else d);
            d2 = (if StringValueComparison target MAX_STRING_MINMAX_SIZE (str_max d1) > 0
                  then d1\<lparr>str_max := target\<rparr> else d1);
            d3 = (if length value > unat (max_string_length d2)
                  then d2\<lparr>max_string_length := of_nat (length value)\<rparr> else d2)
        in if stats_type stats = LT_VARCHAR \<and> \<not> has_unicode d3
           then case Analyze value of
                  UNICODE \<Rightarrow> Some (stats\<lparr>stats_union := StringData (d3\<lparr>has_unicode := True\<rparr>)\<rparr>)
                | INVALID \<Rightarrow> None
                | ASCII \<Rightarrow> Some (stats\<lparr>stats_union := StringData d3\<rparr>)
           else Some (stats\<lparr>stats_union := StringData d3\<rparr>))"

section \<open>Merging\<close>

definition NumericStats_Merge :: "BaseStatistics \<Rightarrow> BaseStatistics \<Rightarrow> BaseStatistics option" where
  "NumericStats_Merge stats other =
    (if stats_type other = LT_VALIDITY then Some stats
     else if stats_type stats \<noteq> stats_type other then None
     else case (NumericStats_GetDataUnsafe stats, NumericStats_GetDataUnsafe other) of
       (Some d, Some e) \<Rightarrow>
        let d1 = (if has_min e \<and> has_min d
                  then if num_min e < num_min d then d\<lparr>num_min := num_min e\<rparr> else d
                  else d\<lparr>has_min := False\<rparr>);
            d2 = (if has_max e \<and> has_max d1
                  then if num_max e > num_max d1 then d1\<lparr>num_max := num_max e\<rparr> else d1
                  else d1\<lparr>has_max := False\<rparr>)
        in Some (stats\<lparr>stats_union := NumericData d2\<rparr>)
     | _ \<Rightarrow> None)"

definition StringStats_Merge :: "BaseStatistics \<Rightarrow> BaseStatistics \<Rightarrow> BaseStatistics option" where
  "StringStats_Merge stats other =
    (if stats_type other = LT_VALIDITY then Some stats
     else if stats_type other = LT_SQLNULL then Some stats
     else case (StringStats_GetDataUnsafe stats, StringStats_GetDataUnsafe other) of
       (Some d, Some e) \<Rightarrow>
        let d1 = (if StringValueComparison (str_min e) MAX_STRING_MINMAX_SIZE (str_min d) < 0
                  then d\<lparr>str_min := str_min e\<rparr> else d);
            d2 = (if StringValueComparison (str_max e) MAX_STRING_MINMAX_SIZE (str_max d1) > 0
                  then d1\<lparr>str_max := str_max e\<rparr> else d1);
            d3 = d2\<lparr>has_unicode := has_unicode d2 \<or> has_unicode e,
                    has_max_string_length := has_max_string_length d2 \<and> has_max_string_length e,
                    max_string_length := max (max_string_length d2) (max_string_length e)\<rparr>
        in Some (stats\<lparr>stats_union := StringData d3\<rparr>)
     | _ \<Rightarrow> None)"

definition Merge :: "BaseStatistics \<Rightarrow> BaseStatistics \<Rightarrow> BaseStatistics option" where
  "Merge stats other =
    (let stats1 = stats\<lparr>has_null := has_null stats \<or> has_null other,
                        has_no_null := has_no_null stats \<or> has_no_null other\<rparr>
     in case GetStatsType (stats_type stats1) of
          NUMERIC_STATS \<Rightarrow> NumericStats_Merge stats1 other
        | STRING_STATS \<Rightarrow> StringStats_Merge stats1 other
        | BASE_STATS \<Rightarrow> Some stats1)"

section \<open>Statistics of a constant, verification\<close>

text \<open>\<open>NULL\<close> and \<open>value\<close> of \<open>FromConstant\<close>: a constant of the given type, possibly NULL.\<close>

definition FromConstantType :: "LogicalType \<Rightarrow> Value option \<Rightarrow> BaseStatistics option" where
  "FromConstantType type input =
    (case GetStatsType type of
       NUMERIC_STATS \<Rightarrow>
        (case input of
           None \<Rightarrow>
            Some ((CreateEmpty type)\<lparr>stats_union :=
              NumericData \<lparr>has_min = False, has_max = False,
                num_min = MaximumValue (InternalType type), num_max = MinimumValue (InternalType type)\<rparr>\<rparr>)
         | Some (NumericValue i) \<Rightarrow>
            Some ((CreateEmpty type)\<lparr>stats_union :=
              NumericData \<lparr>has_min = True, has_max = True, num_min = i, num_max = i\<rparr>\<rparr>)
         | Some (StringValue s) \<Rightarrow> None)
     | STRING_STATS \<Rightarrow>
        (case input of
           None \<Rightarrow> Some (CreateEmpty type)
         | Some (StringValue s) \<Rightarrow> StringStats_Update s (CreateEmpty type)
         | Some (NumericValue i) \<Rightarrow> None)
     | BASE_STATS \<Rightarrow> Some (CreateUnknown type))"

definition FromConstant :: "LogicalType \<Rightarrow> Value option \<Rightarrow> BaseStatistics option" where
  "FromConstant type input =
    (case FromConstantType type input of
       None \<Rightarrow> None
     | Some result \<Rightarrow>
        Some (result\<lparr>distinct_count := 1, has_null := (input = None), has_no_null := (input \<noteq> None)\<rparr>))"

definition NumericStats_Verify :: "NumericStatsData \<Rightarrow> PhysicalType \<Rightarrow> Value option list \<Rightarrow> bool" where
  "NumericStats_Verify d type rows =
    (type = PT_BOOL \<or>
     list_all (\<lambda>row. case row of
        Some (NumericValue i) \<Rightarrow> \<not> (has_min d \<and> i < num_min d) \<and> \<not> (has_max d \<and> i > num_max d)
      | Some (StringValue s) \<Rightarrow> False
      | None \<Rightarrow> True) rows)"

definition StringStats_Verify :: "StringStatsData \<Rightarrow> LogicalType \<Rightarrow> Value option list \<Rightarrow> bool" where
  "StringStats_Verify d type rows =
    list_all (\<lambda>row. case row of
        Some (StringValue s) \<Rightarrow>
         \<not> (has_max_string_length d \<and> length s > unat (max_string_length d)) \<and>
         \<not> (type = LT_VARCHAR \<and> \<not> has_unicode d \<and> Analyze s \<in> {UNICODE, INVALID}) \<and>
         \<not> StringValueComparison s (min (length s) MAX_STRING_MINMAX_SIZE) (str_min d) < 0 \<and>
         \<not> StringValueComparison s (min (length s) MAX_STRING_MINMAX_SIZE) (str_max d) > 0
      | Some (NumericValue i) \<Rightarrow> False
      | None \<Rightarrow> True) rows"

text \<open>\<open>BaseStatistics::Verify\<close>: \<open>False\<close> where it raises a statistics mismatch.\<close>

definition Verify :: "BaseStatistics \<Rightarrow> Value option list \<Rightarrow> bool" where
  "Verify stats rows =
    ((case stats_union stats of
        NumericData d \<Rightarrow> NumericStats_Verify d (InternalType (stats_type stats)) rows
      | StringData d \<Rightarrow> StringStats_Verify d (stats_type stats) rows
      | NoData \<Rightarrow> True) \<and>
     (has_null stats \<and> has_no_null stats \<or>
      list_all (\<lambda>row. (row \<noteq> None \<longrightarrow> has_no_null stats) \<and> (row = None \<longrightarrow> has_null stats)) rows))"


section \<open>What statistics promise\<close>

text \<open>
  The meaning of statistics: the set of cells they cover.  Text bounds speak of the first eight
  bytes, filled up with zeros.
\<close>

definition covers_number :: "NumericStatsData \<Rightarrow> int \<Rightarrow> bool" where
  "covers_number d i \<longleftrightarrow> (has_min d \<longrightarrow> num_min d \<le> i) \<and> (has_max d \<longrightarrow> i \<le> num_max d)"

definition covers_string :: "LogicalType \<Rightarrow> StringStatsData \<Rightarrow> byte list \<Rightarrow> bool" where
  "covers_string type d s \<longleftrightarrow>
    \<not> bytes_less (ConstructValue s) (str_min d) \<and> \<not> bytes_less (str_max d) (ConstructValue s) \<and>
    (has_max_string_length d \<longrightarrow> length s \<le> unat (max_string_length d)) \<and>
    (type = LT_VARCHAR \<longrightarrow> \<not> has_unicode d \<longrightarrow> Analyze s = ASCII)"

fun covers_value :: "BaseStatistics \<Rightarrow> Value \<Rightarrow> bool" where
  "covers_value stats (NumericValue i) =
    (case stats_union stats of NumericData d \<Rightarrow> covers_number d i | StringData d \<Rightarrow> False | NoData \<Rightarrow> True)"
| "covers_value stats (StringValue s) =
    (case stats_union stats of
       NumericData d \<Rightarrow> False | StringData d \<Rightarrow> covers_string (stats_type stats) d s | NoData \<Rightarrow> True)"

fun covers :: "BaseStatistics \<Rightarrow> Value option \<Rightarrow> bool" where
  "covers stats None = has_null stats"
| "covers stats (Some v) = (has_no_null stats \<and> covers_value stats v)"

text \<open>Statistics carry the data of their type, with bounds of eight bytes for text.\<close>

definition wf_stats :: "BaseStatistics \<Rightarrow> bool" where
  "wf_stats stats \<longleftrightarrow>
    (case stats_union stats of
       NumericData d \<Rightarrow> GetStatsType (stats_type stats) = NUMERIC_STATS
     | StringData d \<Rightarrow> GetStatsType (stats_type stats) = STRING_STATS \<and>
         length (str_min d) = MAX_STRING_MINMAX_SIZE \<and> length (str_max d) = MAX_STRING_MINMAX_SIZE
     | NoData \<Rightarrow> GetStatsType (stats_type stats) = BASE_STATS)"

lemma wf_statsE:
  assumes "wf_stats s"
  obtains (numeric) d where "stats_union s = NumericData d" "GetStatsType (stats_type s) = NUMERIC_STATS"
  | (string) d where "stats_union s = StringData d" "GetStatsType (stats_type s) = STRING_STATS"
      "length (str_min d) = MAX_STRING_MINMAX_SIZE" "length (str_max d) = MAX_STRING_MINMAX_SIZE"
  | (base) "stats_union s = NoData" "GetStatsType (stats_type s) = BASE_STATS"
  using assms by (cases "stats_union s") (auto simp: wf_stats_def)

lemma ConstructValue_pad: "ConstructValue s = pad_bytes MAX_STRING_MINMAX_SIZE s"
  by (auto simp: ConstructValue_def pad_bytes_def Let_def)

lemma length_ConstructValue [simp]: "length (ConstructValue s) = MAX_STRING_MINMAX_SIZE"
  by (simp add: ConstructValue_pad)

lemma compare_bounds:
  assumes "length a = MAX_STRING_MINMAX_SIZE" "length b = MAX_STRING_MINMAX_SIZE"
  shows "StringValueComparison a MAX_STRING_MINMAX_SIZE b < 0 \<longleftrightarrow> bytes_less a b"
    and "StringValueComparison a MAX_STRING_MINMAX_SIZE b > 0 \<longleftrightarrow> bytes_less b a"
  using assms by (simp_all add: StringValueComparison_memcmp memcmp_less memcmp_greater)

subsection \<open>Creation\<close>

lemma wf_CreateEmpty [simp]: "wf_stats (CreateEmpty t)" and wf_CreateUnknown [simp]: "wf_stats (CreateUnknown t)"
  by (cases t; simp add: CreateEmpty_def CreateUnknown_def wf_stats_def GetStatsType_def
      NumericStats_CreateEmpty_def StringStats_CreateEmpty_def NumericStats_CreateUnknown_def
      StringStats_CreateUnknown_def)+

lemma byte_le_max: "\<not> (0xFF :: byte) < c"
proof -
  have "(0xFF :: byte) = - 1" by simp
  then show ?thesis using word_order.extremum [of c] by (simp only: not_less)
qed

lemma bytes_less_max: "length s = n \<Longrightarrow> \<not> bytes_less (replicate n 0xFF) s"
proof (induction n arbitrary: s)
  case (Suc n)
  then show ?case by (cases s) (auto simp: byte_le_max)
qed simp

lemma bytes_less_zero: "length s = n \<Longrightarrow> \<not> bytes_less s (replicate n 0)"
proof (induction n arbitrary: s)
  case (Suc n)
  then show ?case by (cases s) auto
qed simp

text \<open>Unknown statistics cover every cell of their type.\<close>

lemma CreateUnknown_covers:
  assumes "\<And>v. x = Some v \<Longrightarrow> value_has_type t v"
  shows "covers (CreateUnknown t) x"
proof (cases x)
  case None
  then show ?thesis by (simp add: CreateUnknown_def)
next
  case (Some v)
  with assms have "value_has_type t v" by simp
  then show ?thesis
    unfolding Some
    by (cases v; cases t) (auto simp: CreateUnknown_def GetStatsType_def NumericStats_CreateUnknown_def
        StringStats_CreateUnknown_def covers_number_def covers_string_def bytes_less_max bytes_less_zero)
qed

subsection \<open>Updates\<close>

lemma UpdateNumericStats_covers:
  assumes "UpdateNumericStats i stats = Some stats'" "wf_stats stats"
  shows "wf_stats stats'"
    and "stats' = stats\<lparr>stats_union := stats_union stats'\<rparr>"
    and "covers_value stats' (NumericValue i)"
    and "covers_value stats v \<Longrightarrow> covers_value stats' v"
  using assms
  by (cases v; auto simp: UpdateNumericStats_def NumericStats_GetDataUnsafe_def UpdateValue_def Let_def
      covers_number_def wf_stats_def split: stats_data.splits)+


text \<open>The new text statistics, field by field.\<close>

lemma StringStats_UpdateE:
  assumes "StringStats_Update s stats = Some stats'" "wf_stats stats"
  obtains d d' where "stats_union stats = StringData d" "stats' = stats\<lparr>stats_union := StringData d'\<rparr>"
    and "length (str_min d) = MAX_STRING_MINMAX_SIZE" "length (str_max d) = MAX_STRING_MINMAX_SIZE"
    and "str_min d' = (if bytes_less (ConstructValue s) (str_min d) then ConstructValue s else str_min d)"
    and "str_max d' = (if bytes_less (str_max d) (ConstructValue s) then ConstructValue s else str_max d)"
    and "max_string_length d' =
      (if length s > unat (max_string_length d) then of_nat (length s) else max_string_length d)"
    and "has_max_string_length d' = has_max_string_length d"
    and "stats_type stats = LT_VARCHAR \<Longrightarrow> \<not> has_unicode d' \<Longrightarrow> \<not> has_unicode d \<and> Analyze s = ASCII"
  using assms(2)
proof (cases rule: wf_statsE)
  case (string d)
  note c = compare_bounds [OF length_ConstructValue string(3)] compare_bounds [OF length_ConstructValue string(4)]
  show thesis
    by (rule that [of d "case stats_union stats' of StringData d' \<Rightarrow> d' | _ \<Rightarrow> undefined"])
      (use assms(1) string in \<open>auto simp: StringStats_Update_def StringStats_GetDataUnsafe_def Let_def c
        split: if_splits UnicodeType.splits\<close>)
qed (use assms(1) in \<open>simp_all add: StringStats_Update_def StringStats_GetDataUnsafe_def\<close>)

lemma StringStats_Update_covers:
  assumes "StringStats_Update s stats = Some stats'" "wf_stats stats" "length s < 2 ^ 32"
  shows "wf_stats stats'"
    and "stats' = stats\<lparr>stats_union := stats_union stats'\<rparr>"
    and "covers_value stats' (StringValue s)"
    and "covers_value stats v \<Longrightarrow> covers_value stats' v"
proof -
  have len: "unat (of_nat (length s) :: u32) = length s"
    using assms(3) by (simp add: unat_of_nat)
  note trans = bytes_less_asym bytes_less_trans bytes_not_less_trans
  show "wf_stats stats'"
    using assms(1,2) by (elim StringStats_UpdateE) (auto simp: wf_stats_def)
  show "stats' = stats\<lparr>stats_union := stats_union stats'\<rparr>"
    using assms(1,2) by (elim StringStats_UpdateE) auto
  show "covers_value stats' (StringValue s)"
    using assms(1,2) by (elim StringStats_UpdateE) (auto simp: covers_string_def len bytes_less_asym)
  show "covers_value stats' v" if "covers_value stats v"
    using assms(1,2) that
    by (elim StringStats_UpdateE; cases v) (auto simp: covers_string_def len dest: bytes_less_trans)
qed


subsection \<open>Merging\<close>

lemma bytes_min: "\<not> bytes_less c (if bytes_less b a then b else a) \<longleftrightarrow> \<not> bytes_less c a \<or> \<not> bytes_less c b"
  using bytes_less_trans [of c b a] bytes_not_less_trans [of b a c] by (cases "bytes_less b a") auto

lemma bytes_max: "\<not> bytes_less (if bytes_less a b then b else a) c \<longleftrightarrow> \<not> bytes_less a c \<or> \<not> bytes_less b c"
  using bytes_less_trans [of a b c] bytes_not_less_trans [of b c a] by (cases "bytes_less a b") auto

lemma Merge_numeric:
  assumes s: "stats_union s = NumericData d" "wf_stats s"
    and t: "stats_union t = NumericData e" "wf_stats t" and type: "stats_type s = stats_type t"
  obtains d' where "Merge s t = Some (s\<lparr>has_null := has_null s \<or> has_null t,
      has_no_null := has_no_null s \<or> has_no_null t, stats_union := NumericData d'\<rparr>)"
    and "\<And>i. covers_number d i \<or> covers_number e i \<Longrightarrow> covers_number d' i"
proof -
  have v: "stats_type t \<noteq> LT_VALIDITY" using t by (auto simp: wf_stats_def GetStatsType_def)
  define d1 where "d1 = (if has_min e \<and> has_min d
      then if num_min e < num_min d then d\<lparr>num_min := num_min e\<rparr> else d else d\<lparr>has_min := False\<rparr>)"
  define d2 where "d2 = (if has_max e \<and> has_max d1
      then if num_max e > num_max d1 then d1\<lparr>num_max := num_max e\<rparr> else d1 else d1\<lparr>has_max := False\<rparr>)"
  show thesis
  proof (rule that [of d2])
    show "Merge s t = Some (s\<lparr>has_null := has_null s \<or> has_null t,
      has_no_null := has_no_null s \<or> has_no_null t, stats_union := NumericData d2\<rparr>)"
      using s t type v
      by (simp add: Merge_def NumericStats_Merge_def NumericStats_GetDataUnsafe_def wf_stats_def
          Let_def flip: d1_def d2_def)
    show "covers_number d2 i" if "covers_number d i \<or> covers_number e i" for i
      using that by (auto simp: d2_def d1_def covers_number_def)
  qed
qed

lemma Merge_string:
  assumes s: "stats_union s = StringData d" "wf_stats s"
    and t: "stats_union t = StringData e" "wf_stats t" and type: "stats_type s = stats_type t"
  obtains d' where "Merge s t = Some (s\<lparr>has_null := has_null s \<or> has_null t,
      has_no_null := has_no_null s \<or> has_no_null t, stats_union := StringData d'\<rparr>)"
    and "length (str_min d') = MAX_STRING_MINMAX_SIZE" "length (str_max d') = MAX_STRING_MINMAX_SIZE"
    and "\<And>v. covers_string (stats_type s) d v \<or> covers_string (stats_type s) e v \<Longrightarrow>
      covers_string (stats_type s) d' v"
proof -
  have v: "stats_type t \<noteq> LT_VALIDITY" "stats_type t \<noteq> LT_SQLNULL"
    using t by (auto simp: wf_stats_def GetStatsType_def)
  have len: "length (str_min d) = MAX_STRING_MINMAX_SIZE" "length (str_max d) = MAX_STRING_MINMAX_SIZE"
    "length (str_min e) = MAX_STRING_MINMAX_SIZE" "length (str_max e) = MAX_STRING_MINMAX_SIZE"
    using s t by (simp_all add: wf_stats_def)
  define d' where "d' = d\<lparr>
      str_min := if bytes_less (str_min e) (str_min d) then str_min e else str_min d,
      str_max := if bytes_less (str_max d) (str_max e) then str_max e else str_max d,
      has_unicode := has_unicode d \<or> has_unicode e,
      has_max_string_length := has_max_string_length d \<and> has_max_string_length e,
      max_string_length := max (max_string_length d) (max_string_length e)\<rparr>"
  show thesis
  proof (rule that [of d'])
    show "Merge s t = Some (s\<lparr>has_null := has_null s \<or> has_null t,
      has_no_null := has_no_null s \<or> has_no_null t, stats_union := StringData d'\<rparr>)"
      using s t type v
      by (simp add: Merge_def StringStats_Merge_def StringStats_GetDataUnsafe_def wf_stats_def
          Let_def compare_bounds len d'_def)
    show "length (str_min d') = MAX_STRING_MINMAX_SIZE" "length (str_max d') = MAX_STRING_MINMAX_SIZE"
      by (simp_all add: d'_def len)
    show "covers_string (stats_type s) d' v"
      if "covers_string (stats_type s) d v \<or> covers_string (stats_type s) e v" for v
    proof -
      have "\<not> bytes_less (ConstructValue v) (str_min d')"
        using that unfolding d'_def by (auto simp: covers_string_def bytes_min bytes_max)
      moreover have "\<not> bytes_less (str_max d') (ConstructValue v)"
        using that unfolding d'_def by (auto simp: covers_string_def bytes_min bytes_max)
      ultimately show ?thesis
        using that by (auto simp: covers_string_def d'_def max_def word_le_nat_alt)
    qed
  qed
qed

text \<open>Merged statistics of one type cover whatever either of them covers.\<close>

lemma Merge_covers:
  assumes "wf_stats s" "wf_stats t" "stats_type s = stats_type t"
  obtains s' where "Merge s t = Some s'" "wf_stats s'" "stats_type s' = stats_type s"
    and "\<And>x. covers s x \<or> covers t x \<Longrightarrow> covers s' x"
  using assms(1)
proof (cases rule: wf_statsE)
  case (numeric d)
  obtain e where "stats_union t = NumericData e"
    using assms(2,3) numeric(2) by (auto elim!: wf_statsE)
  with numeric(1) assms obtain d' where d': "Merge s t = Some (s\<lparr>has_null := has_null s \<or> has_null t,
      has_no_null := has_no_null s \<or> has_no_null t, stats_union := NumericData d'\<rparr>)"
    and c: "\<And>i. covers_number d i \<or> covers_number e i \<Longrightarrow> covers_number d' i"
    by (metis Merge_numeric)
  show thesis
  proof (rule that [OF d'])
    show "covers (s\<lparr>has_null := has_null s \<or> has_null t, has_no_null := has_no_null s \<or> has_no_null t,
        stats_union := NumericData d'\<rparr>) x" if "covers s x \<or> covers t x" for x
      using that numeric(1) \<open>stats_union t = _\<close> c assms(3)
      by (cases x) (auto elim!: covers_value.elims)
  qed (use numeric d' in \<open>auto simp: wf_stats_def\<close>)
next
  case (string d)
  obtain e where "stats_union t = StringData e"
    using assms(2,3) string(2) by (auto elim!: wf_statsE)
  with string(1) assms obtain d' where d': "Merge s t = Some (s\<lparr>has_null := has_null s \<or> has_null t,
      has_no_null := has_no_null s \<or> has_no_null t, stats_union := StringData d'\<rparr>)"
    and len: "length (str_min d') = MAX_STRING_MINMAX_SIZE" "length (str_max d') = MAX_STRING_MINMAX_SIZE"
    and c: "\<And>i. covers_string (stats_type s) d i \<or> covers_string (stats_type s) e i \<Longrightarrow> covers_string (stats_type s) d' i"
    by (metis Merge_string)
  show thesis
  proof (rule that [OF d'])
    show "covers (s\<lparr>has_null := has_null s \<or> has_null t, has_no_null := has_no_null s \<or> has_no_null t,
        stats_union := StringData d'\<rparr>) x" if "covers s x \<or> covers t x" for x
      using that string(1) \<open>stats_union t = _\<close> c assms(3)
      by (cases x) (auto elim!: covers_value.elims)
  qed (use string d' len in \<open>auto simp: wf_stats_def\<close>)
next
  case base
  have "stats_union t = NoData"
    using assms(2,3) base(2) by (auto elim!: wf_statsE)
  then show thesis
    using base assms
    by (intro that [of "s\<lparr>has_null := has_null s \<or> has_null t, has_no_null := has_no_null s \<or> has_no_null t\<rparr>"])
      (auto simp: Merge_def wf_stats_def elim!: covers.elims covers_value.elims)
qed

lemma Merge_validity:
  assumes "stats_type t = LT_VALIDITY \<or> GetStatsType (stats_type s) = BASE_STATS"
  shows "Merge s t = Some (s\<lparr>has_null := has_null s \<or> has_null t, has_no_null := has_no_null s \<or> has_no_null t\<rparr>)"
  using assms by (auto simp: Merge_def NumericStats_Merge_def StringStats_Merge_def Let_def split: StatisticsType.split)

subsection \<open>Constants and verification\<close>

lemma StringStats_Update_valid:
  assumes "wf_stats stats" "stats_union stats = StringData d" "stats_type stats = LT_VARCHAR \<longrightarrow> StringIsValid s"
  obtains stats' where "StringStats_Update s stats = Some stats'"
proof -
  have "StringStats_Update s stats \<noteq> None"
    using assms by (auto simp: StringStats_Update_def StringStats_GetDataUnsafe_def Let_def StringIsValid_def
        split: UnicodeType.split)
  then show thesis using that by auto
qed

lemma FromConstant_covers:
  assumes "\<And>v. x = Some v \<Longrightarrow> value_has_type t v" "t \<noteq> LT_SQLNULL" "t \<noteq> LT_VALIDITY"
  shows "\<exists>s. FromConstant t x = Some s \<and> wf_stats s \<and> stats_type s = t \<and> covers s x"
proof (cases "InternalType t = PT_VARCHAR")
  case False
  then have "GetStatsType t = NUMERIC_STATS" "InternalType t \<noteq> PT_BIT"
    using assms(2,3) by (cases t; simp add: GetStatsType_def)+
  then show ?thesis
    using assms(1) False
    by (cases x; cases "the x") (auto simp: FromConstant_def FromConstantType_def CreateEmpty_def
        wf_stats_def covers_number_def)
next
  case True
  then have t: "GetStatsType t = STRING_STATS" using assms(2) by (simp add: GetStatsType_def)
  have e: "stats_union (CreateEmpty t) = StringStats_CreateEmpty" "stats_type (CreateEmpty t) = t"
    using True t by (simp_all add: CreateEmpty_def)
  show ?thesis
  proof (cases x)
    case None
    then show ?thesis
      using t e by (auto simp: FromConstant_def FromConstantType_def wf_stats_def StringStats_CreateEmpty_def)
  next
    case (Some v)
    with assms(1) True obtain s where v: "v = StringValue s" "length s < 2 ^ 32" "t = LT_VARCHAR \<longrightarrow> StringIsValid s"
      by (cases v) (auto dest!: assms(1))
    obtain st where st: "StringStats_Update s (CreateEmpty t) = Some st"
      using StringStats_Update_valid [of "CreateEmpty t"] e v(3) unfolding StringStats_CreateEmpty_def
      by (metis wf_CreateEmpty)
    note c = StringStats_Update_covers [OF st wf_CreateEmpty v(2)]
    have "stats_type st = t" using c(2) e(2) by (metis BaseStatistics.select_convs(1) BaseStatistics.surjective BaseStatistics.update_convs(5))
    then show ?thesis
      using st c t by (auto simp: FromConstant_def FromConstantType_def Some v(1) wf_stats_def split: stats_data.splits)
  qed
qed

text \<open>Covered cells always pass the verification.\<close>

lemma bytes_less_take:
  "bytes_less (take k xs) (take k ys) \<Longrightarrow> k \<le> length xs \<Longrightarrow> k \<le> length ys \<Longrightarrow> bytes_less xs ys"
proof (induction k arbitrary: xs ys)
  case (Suc k)
  then show ?case by (cases xs; cases ys) auto
qed simp

lemma compare_prefix:
  assumes "length b = MAX_STRING_MINMAX_SIZE" "k = min (length v) MAX_STRING_MINMAX_SIZE"
  shows "StringValueComparison v k b < 0 \<Longrightarrow> bytes_less (ConstructValue v) b"
    and "StringValueComparison v k b > 0 \<Longrightarrow> bytes_less b (ConstructValue v)"
proof -
  have "take k v = take k (ConstructValue v)"
    using assms(2) by (simp add: ConstructValue_pad pad_bytes_def)
  then have p: "memcmp v b k < 0 \<longleftrightarrow> bytes_less (take k (ConstructValue v)) (take k b)"
    "memcmp v b k > 0 \<longleftrightarrow> bytes_less (take k b) (take k (ConstructValue v))"
    using assms by (simp_all add: memcmp_less memcmp_greater)
  show "StringValueComparison v k b < 0 \<Longrightarrow> bytes_less (ConstructValue v) b"
    unfolding StringValueComparison_memcmp p using assms by (elim bytes_less_take) simp_all
  show "StringValueComparison v k b > 0 \<Longrightarrow> bytes_less b (ConstructValue v)"
    unfolding StringValueComparison_memcmp p using assms by (elim bytes_less_take) simp_all
qed

lemma Verify_complete:
  assumes "wf_stats s" "\<And>x. x \<in> set rows \<Longrightarrow> covers s x"
  shows "Verify s rows"
proof -
  have flags: "has_null s \<and> has_no_null s \<or>
      list_all (\<lambda>row. (row \<noteq> None \<longrightarrow> has_no_null s) \<and> (row = None \<longrightarrow> has_null s)) rows"
    using assms(2) by (force simp: list_all_iff elim!: covers.elims)
  show ?thesis
    using assms(1)
  proof (cases rule: wf_statsE)
    case (numeric d)
    have "case x of Some (NumericValue i) \<Rightarrow> \<not> (has_min d \<and> i < num_min d) \<and> \<not> (has_max d \<and> i > num_max d)
        | Some (StringValue v) \<Rightarrow> False | None \<Rightarrow> True" if "x \<in> set rows" for x
      using assms(2) [OF that] numeric(1)
      by (auto simp: covers_number_def split: option.split elim!: covers.elims covers_value.elims)
    then show ?thesis using numeric flags by (simp add: Verify_def NumericStats_Verify_def list_all_iff)
  next
    case (string d)
    have "case x of Some (StringValue v) \<Rightarrow>
         \<not> (has_max_string_length d \<and> length v > unat (max_string_length d)) \<and>
         \<not> (stats_type s = LT_VARCHAR \<and> \<not> has_unicode d \<and> Analyze v \<in> {UNICODE, INVALID}) \<and>
         \<not> StringValueComparison v (min (length v) MAX_STRING_MINMAX_SIZE) (str_min d) < 0 \<and>
         \<not> StringValueComparison v (min (length v) MAX_STRING_MINMAX_SIZE) (str_max d) > 0
        | Some (NumericValue i) \<Rightarrow> False | None \<Rightarrow> True" if "x \<in> set rows" for x
      using assms(2) [OF that] string(1) compare_prefix [OF string(3) refl] compare_prefix [OF string(4) refl]
      by (auto simp: covers_string_def split: option.split elim!: covers.elims covers_value.elims)
    then show ?thesis using string flags by (simp add: Verify_def StringStats_Verify_def list_all_iff)
  next
    case base
    then show ?thesis using flags by (simp add: Verify_def)
  qed
qed

text \<open>
  C20: Merging the statistics of two parts of a column never fails, and what it gives passes the
  verification of the rows of both parts: the minimum and maximum (for text the first eight bytes), the
  longest string, whether there is non-ASCII text and whether there are NULLs.
\<close>
theorem Merge_Verify:
  assumes "wf_stats s" "wf_stats t" "stats_type s = stats_type t"
    and "\<forall>x \<in> set rows. covers s x" "\<forall>x \<in> set rows'. covers t x"
  shows "\<exists>s'. Merge s t = Some s' \<and> stats_type s' = stats_type s \<and> wf_stats s' \<and>
    (\<forall>x \<in> set (rows @ rows'). covers s' x) \<and> Verify s' (rows @ rows')"
proof -
  obtain s' where s': "Merge s t = Some s'" "wf_stats s'" "stats_type s' = stats_type s"
    "\<And>x. covers s x \<or> covers t x \<Longrightarrow> covers s' x"
    using Merge_covers [OF assms(1-3)] by metis
  then have "\<forall>x \<in> set (rows @ rows'). covers s' x" using assms(4,5) by auto
  then show ?thesis using s' Verify_complete [OF s'(2), of "rows @ rows'"] by auto
qed

definition example_text_stats :: "byte list \<Rightarrow> BaseStatistics" where
  "example_text_stats s = the (FromConstant LT_VARCHAR (Some (StringValue s)))"

theorem Merge_Verify_witness:
  "\<exists>s'. Merge (example_text_stats [98, 99]) (example_text_stats [97]) = Some s' \<and>
    stats_type s' = stats_type (example_text_stats [98, 99]) \<and> wf_stats s' \<and>
    (\<forall>x \<in> set ([Some (StringValue [98, 99])] @ [Some (StringValue [97])]). covers s' x) \<and>
    Verify s' ([Some (StringValue [98, 99])] @ [Some (StringValue [97])])"
proof (rule Merge_Verify)
  have ok: "wf_stats (example_text_stats s) \<and> stats_type (example_text_stats s) = LT_VARCHAR \<and>
      covers (example_text_stats s) (Some (StringValue s))"
    if "s = [98, 99] \<or> s = [97]" for s
  proof -
    have "Analyze s \<noteq> INVALID" using that by (elim disjE) (simp_all only:, code_simp+)
    then have "value_has_type LT_VARCHAR (StringValue s)" using that by (auto simp: StringIsValid_def)
    then obtain st where "FromConstant LT_VARCHAR (Some (StringValue s)) = Some st" "wf_stats st"
      "stats_type st = LT_VARCHAR" "covers st (Some (StringValue s))"
      using FromConstant_covers [of "Some (StringValue s)" LT_VARCHAR] by auto
    then show ?thesis by (simp add: example_text_stats_def)
  qed
  show "wf_stats (example_text_stats [98, 99])" "wf_stats (example_text_stats [97])"
    "stats_type (example_text_stats [98, 99]) = stats_type (example_text_stats [97])"
    "\<forall>x \<in> set [Some (StringValue [98, 99])]. covers (example_text_stats [98, 99]) x"
    "\<forall>x \<in> set [Some (StringValue [97])]. covers (example_text_stats [97]) x"
    using ok by simp_all
qed

end
