(* ===== verification/TableFilters.thy ===== *)
theory TableFilters
  imports ColumnStatistics
begin

text \<open>
  The filters pushed down into a table scan (\<open>planner/table_filter.cpp\<close>, \<open>planner/filter/*.cpp\<close>):
  what they mean for a cell, how a scan decides from the statistics of a column that a filter is
  always false or always true (\<open>CheckStatistics\<close>, with the zone map checks of
  \<open>storage/statistics/numeric_stats.cpp\<close> and \<open>string_stats.cpp\<close>), and how the filters of a column
  are collected.  Struct and expression filters are not modelled.
\<close>

section \<open>Comparisons\<close>

datatype ExpressionType =
  COMPARE_EQUAL | COMPARE_NOTEQUAL | COMPARE_LESSTHAN | COMPARE_GREATERTHAN
| COMPARE_LESSTHANOREQUALTO | COMPARE_GREATERTHANOREQUALTO
| COMPARE_DISTINCT_FROM | COMPARE_NOT_DISTINCT_FROM

text \<open>\<open>GreaterThan::Operation\<close> on two values of one type.\<close>

fun GreaterThan :: "Value \<Rightarrow> Value \<Rightarrow> bool" where
  "GreaterThan (NumericValue l) (NumericValue r) = (l > r)"
| "GreaterThan (StringValue l) (StringValue r) = string_GreaterThan l r"
| "GreaterThan _ _ = False"

text \<open>The comparison of a value with a constant; the other operators rest on the two.\<close>

fun Compare :: "ExpressionType \<Rightarrow> Value \<Rightarrow> Value \<Rightarrow> bool" where
  "Compare COMPARE_EQUAL v c = (v = c)"
| "Compare COMPARE_NOTEQUAL v c = (\<not> v = c)"
| "Compare COMPARE_GREATERTHAN v c = GreaterThan v c"
| "Compare COMPARE_GREATERTHANOREQUALTO v c = (\<not> GreaterThan c v)"
| "Compare COMPARE_LESSTHAN v c = GreaterThan c v"
| "Compare COMPARE_LESSTHANOREQUALTO v c = (\<not> GreaterThan v c)"
| "Compare COMPARE_DISTINCT_FROM v c = (\<not> v = c)"
| "Compare COMPARE_NOT_DISTINCT_FROM v c = (v = c)"

section \<open>Filters\<close>

text \<open>
  A constant carries its type.  The data of a dynamic filter is shared with the operator that fills
  it: whether it is initialised, and its comparison.
\<close>

datatype TableFilter =
  ConstantFilter ExpressionType LogicalType Value
| IsNullFilter
| IsNotNullFilter
| ConjunctionOrFilter "TableFilter list"
| ConjunctionAndFilter "TableFilter list"
| OptionalFilter TableFilter
| InFilter LogicalType "Value list"
| DynamicFilter "(bool \<times> ExpressionType \<times> LogicalType \<times> Value) option"

text \<open>
  The meaning of a filter: whether the expression \<open>ToExpression\<close> makes of it is true on a cell
  (neither false nor NULL).  A comparison with NULL is NULL, except for \<open>IS DISTINCT FROM\<close>.
\<close>

definition compare_cell :: "ExpressionType \<Rightarrow> Value option \<Rightarrow> Value \<Rightarrow> bool" where
  "compare_cell cmp x c = (case x of None \<Rightarrow> cmp = COMPARE_DISTINCT_FROM | Some v \<Rightarrow> Compare cmp v c)"

fun satisfies :: "TableFilter \<Rightarrow> Value option \<Rightarrow> bool" where
  "satisfies (ConstantFilter cmp t c) x = compare_cell cmp x c"
| "satisfies IsNullFilter x = (x = None)"
| "satisfies IsNotNullFilter x = (x \<noteq> None)"
| "satisfies (ConjunctionOrFilter fs) x = (\<exists>f \<in> set fs. satisfies f x)"
| "satisfies (ConjunctionAndFilter fs) x = (\<forall>f \<in> set fs. satisfies f x)"
| "satisfies (OptionalFilter f) x = satisfies f x"
| "satisfies (InFilter t vs) x = (case x of None \<Rightarrow> False | Some v \<Rightarrow> v \<in> set vs)"
| "satisfies (DynamicFilter data) x =
    (case data of
       Some (True, cmp, t, c) \<Rightarrow> compare_cell cmp x c
     | _ \<Rightarrow> True)"

text \<open>A filter fits a column when its constants have the column's type.\<close>

fun wt_filter :: "LogicalType \<Rightarrow> TableFilter \<Rightarrow> bool" where
  "wt_filter type (ConstantFilter cmp t c) = (t = type \<and> value_has_type type c)"
| "wt_filter type (ConjunctionOrFilter fs) = list_all (wt_filter type) fs"
| "wt_filter type (ConjunctionAndFilter fs) = list_all (wt_filter type) fs"
| "wt_filter type (OptionalFilter f) = wt_filter type f"
| "wt_filter type (InFilter t vs) = (t = type \<and> vs \<noteq> [] \<and> list_all (value_has_type type) vs)"
| "wt_filter type (DynamicFilter data) =
    (case data of None \<Rightarrow> True | Some (initialized, cmp, t, c) \<Rightarrow> t = type \<and> value_has_type type c)"
| "wt_filter type _ = True"

section \<open>Zone maps\<close>

datatype FilterPropagateResult =
  NO_PRUNING_POSSIBLE | FILTER_ALWAYS_TRUE | FILTER_ALWAYS_FALSE | FILTER_TRUE_OR_NULL | FILTER_FALSE_OR_NULL

definition ConstantExactRange :: "int \<Rightarrow> int \<Rightarrow> int \<Rightarrow> bool" where
  "ConstantExactRange lo hi const = (const = lo \<and> const = hi)"

definition ConstantValueInRange :: "int \<Rightarrow> int \<Rightarrow> int \<Rightarrow> bool" where
  "ConstantValueInRange lo hi const = (\<not> (const < lo \<or> const > hi))"

text \<open>\<open>CheckZonemapTemplated\<close> for one constant.\<close>

fun CheckZonemapConstant :: "ExpressionType \<Rightarrow> int \<Rightarrow> int \<Rightarrow> int \<Rightarrow> FilterPropagateResult" where
  "CheckZonemapConstant cmp min_value max_value const =
    (if cmp = COMPARE_EQUAL \<or> cmp = COMPARE_NOT_DISTINCT_FROM then
       if ConstantExactRange min_value max_value const then FILTER_ALWAYS_TRUE
       else if ConstantValueInRange min_value max_value const then NO_PRUNING_POSSIBLE
       else FILTER_ALWAYS_FALSE
     else if cmp = COMPARE_NOTEQUAL \<or> cmp = COMPARE_DISTINCT_FROM then
       if \<not> ConstantValueInRange min_value max_value const then FILTER_ALWAYS_TRUE
       else if ConstantExactRange min_value max_value const then FILTER_ALWAYS_FALSE
       else NO_PRUNING_POSSIBLE
     else if cmp = COMPARE_GREATERTHANOREQUALTO then
       if min_value \<ge> const then FILTER_ALWAYS_TRUE
       else if max_value \<ge> const then NO_PRUNING_POSSIBLE
       else FILTER_ALWAYS_FALSE
     else if cmp = COMPARE_GREATERTHAN then
       if min_value > const then FILTER_ALWAYS_TRUE
       else if max_value > const then NO_PRUNING_POSSIBLE
       else FILTER_ALWAYS_FALSE
     else if cmp = COMPARE_LESSTHANOREQUALTO then
       if max_value \<le> const then FILTER_ALWAYS_TRUE
       else if min_value \<le> const then NO_PRUNING_POSSIBLE
       else FILTER_ALWAYS_FALSE
     else
       if max_value < const then FILTER_ALWAYS_TRUE
       else if min_value < const then NO_PRUNING_POSSIBLE
       else FILTER_ALWAYS_FALSE)"

text \<open>\<open>StringStats::CheckZonemap\<close> for one constant.\<close>

fun CheckZonemapString :: "byte list \<Rightarrow> byte list \<Rightarrow> ExpressionType \<Rightarrow> byte list \<Rightarrow> FilterPropagateResult" where
  "CheckZonemapString min_data max_data cmp const =
    (let k = min MAX_STRING_MINMAX_SIZE (length const);
         min_comp = StringValueComparison const k min_data;
         max_comp = StringValueComparison const k max_data
     in if cmp = COMPARE_EQUAL \<or> cmp = COMPARE_NOT_DISTINCT_FROM then
          if min_comp \<ge> 0 \<and> max_comp \<le> 0 then NO_PRUNING_POSSIBLE else FILTER_ALWAYS_FALSE
        else if cmp = COMPARE_NOTEQUAL \<or> cmp = COMPARE_DISTINCT_FROM then
          if min_comp < 0 \<or> max_comp > 0 then FILTER_ALWAYS_TRUE else NO_PRUNING_POSSIBLE
        else if cmp = COMPARE_GREATERTHANOREQUALTO \<or> cmp = COMPARE_GREATERTHAN then
          if max_comp \<le> 0 then NO_PRUNING_POSSIBLE else FILTER_ALWAYS_FALSE
        else
          if min_comp \<ge> 0 then NO_PRUNING_POSSIBLE else FILTER_ALWAYS_FALSE)"

declare CheckZonemapConstant.simps [simp del] CheckZonemapString.simps [simp del]

text \<open>
  The loop over the constants of a filter, and over the children of a disjunction: the first
  result other than "always false" decides.
\<close>

fun first_not_false :: "FilterPropagateResult option list \<Rightarrow> FilterPropagateResult option" where
  "first_not_false [] = Some FILTER_ALWAYS_FALSE"
| "first_not_false (r # rs) =
    (case r of
       None \<Rightarrow> None
     | Some prune_result \<Rightarrow>
        if prune_result = NO_PRUNING_POSSIBLE then Some NO_PRUNING_POSSIBLE
        else if prune_result = FILTER_ALWAYS_TRUE then Some FILTER_ALWAYS_TRUE
        else first_not_false rs)"

text \<open>The loop over the children of a conjunction, with the result so far.\<close>

fun all_true :: "FilterPropagateResult \<Rightarrow> FilterPropagateResult option list \<Rightarrow> FilterPropagateResult option" where
  "all_true result [] = Some result"
| "all_true result (r # rs) =
    (case r of
       None \<Rightarrow> None
     | Some prune_result \<Rightarrow>
        if prune_result = FILTER_ALWAYS_FALSE then Some FILTER_ALWAYS_FALSE
        else if prune_result \<noteq> result then all_true NO_PRUNING_POSSIBLE rs
        else all_true result rs)"

definition NumericStats_CheckZonemap ::
  "BaseStatistics \<Rightarrow> ExpressionType \<Rightarrow> Value list \<Rightarrow> FilterPropagateResult option" where
  "NumericStats_CheckZonemap stats cmp constants =
    (case NumericStats_GetDataUnsafe stats of
       None \<Rightarrow> None
     | Some d \<Rightarrow>
        if \<not> (has_min d \<and> has_max d) then Some NO_PRUNING_POSSIBLE
        else if InternalType (stats_type stats) = PT_BOOL then None
        else first_not_false (map (\<lambda>c. case c of
            NumericValue i \<Rightarrow> Some (CheckZonemapConstant cmp (num_min d) (num_max d) i)
          | StringValue s \<Rightarrow> None) constants))"

definition StringStats_CheckZonemap ::
  "BaseStatistics \<Rightarrow> ExpressionType \<Rightarrow> Value list \<Rightarrow> FilterPropagateResult option" where
  "StringStats_CheckZonemap stats cmp constants =
    (case StringStats_GetDataUnsafe stats of
       None \<Rightarrow> None
     | Some d \<Rightarrow>
        first_not_false (map (\<lambda>c. case c of
            StringValue s \<Rightarrow> Some (CheckZonemapString (str_min d) (str_max d) cmp s)
          | NumericValue i \<Rightarrow> None) constants))"

text \<open>The switch on the constant's physical type, shared by constant and IN filters.\<close>

definition CheckZonemapOfType ::
  "LogicalType \<Rightarrow> BaseStatistics \<Rightarrow> ExpressionType \<Rightarrow> Value list \<Rightarrow> FilterPropagateResult option" where
  "CheckZonemapOfType type stats cmp constants =
    (case InternalType type of
       PT_VARCHAR \<Rightarrow> StringStats_CheckZonemap stats cmp constants
     | PT_BOOL \<Rightarrow> Some NO_PRUNING_POSSIBLE
     | PT_BIT \<Rightarrow> Some NO_PRUNING_POSSIBLE
     | _ \<Rightarrow> NumericStats_CheckZonemap stats cmp constants)"

definition ConstantFilter_CheckStatistics ::
  "ExpressionType \<Rightarrow> LogicalType \<Rightarrow> Value \<Rightarrow> BaseStatistics \<Rightarrow> FilterPropagateResult option" where
  "ConstantFilter_CheckStatistics cmp type const stats =
    (if \<not> CanHaveNoNull stats then Some FILTER_ALWAYS_FALSE
     else case CheckZonemapOfType type stats cmp [const] of
       None \<Rightarrow> None
     | Some result \<Rightarrow>
        if result = FILTER_ALWAYS_TRUE \<and> CanHaveNull stats then Some NO_PRUNING_POSSIBLE
        else Some result)"

fun CheckStatistics :: "TableFilter \<Rightarrow> BaseStatistics \<Rightarrow> FilterPropagateResult option" where
  "CheckStatistics (ConstantFilter cmp t c) stats = ConstantFilter_CheckStatistics cmp t c stats"
| "CheckStatistics IsNullFilter stats =
    (if \<not> CanHaveNull stats then Some FILTER_ALWAYS_FALSE
     else if \<not> CanHaveNoNull stats then Some FILTER_ALWAYS_TRUE
     else Some NO_PRUNING_POSSIBLE)"
| "CheckStatistics IsNotNullFilter stats =
    (if \<not> CanHaveNoNull stats then Some FILTER_ALWAYS_FALSE
     else if \<not> CanHaveNull stats then Some FILTER_ALWAYS_TRUE
     else Some NO_PRUNING_POSSIBLE)"
| "CheckStatistics (ConjunctionOrFilter fs) stats = first_not_false (map (\<lambda>f. CheckStatistics f stats) fs)"
| "CheckStatistics (ConjunctionAndFilter fs) stats =
    all_true FILTER_ALWAYS_TRUE (map (\<lambda>f. CheckStatistics f stats) fs)"
| "CheckStatistics (OptionalFilter f) stats = CheckStatistics f stats"
| "CheckStatistics (InFilter t vs) stats = CheckZonemapOfType t stats COMPARE_EQUAL vs"
| "CheckStatistics (DynamicFilter data) stats =
    (case data of
       None \<Rightarrow> Some NO_PRUNING_POSSIBLE
     | Some (initialized, cmp, t, c) \<Rightarrow>
        if \<not> initialized then Some NO_PRUNING_POSSIBLE
        else ConstantFilter_CheckStatistics cmp t c stats)"

section \<open>Soundness of the zone maps\<close>

text \<open>The checks never answer with the two results that mention NULL.\<close>

definition or_null :: "FilterPropagateResult \<Rightarrow> bool" where
  "or_null r = (r = FILTER_TRUE_OR_NULL \<or> r = FILTER_FALSE_OR_NULL)"

lemma first_not_false_False:
  assumes "first_not_false rs = Some FILTER_ALWAYS_FALSE" "r \<in> set rs" "\<And>x. r = Some x \<Longrightarrow> \<not> or_null x"
  shows "r = Some FILTER_ALWAYS_FALSE"
  using assms
proof (induction rs)
  case (Cons a rs)
  then obtain x where "a = Some x" "x \<noteq> NO_PRUNING_POSSIBLE" "x \<noteq> FILTER_ALWAYS_TRUE"
    "first_not_false rs = Some FILTER_ALWAYS_FALSE"
    by (auto split: option.splits if_splits)
  with Cons show ?case by (cases x) (auto simp: or_null_def)
qed simp

lemma first_not_false_True:
  "first_not_false rs = Some FILTER_ALWAYS_TRUE \<Longrightarrow> Some FILTER_ALWAYS_TRUE \<in> set rs"
  by (induction rs) (auto split: option.splits if_splits)

lemma first_not_false_None: "first_not_false rs = None \<Longrightarrow> None \<in> set rs"
  by (induction rs) (auto split: option.splits if_splits)

lemma first_not_false_or_null: "first_not_false rs = Some r \<Longrightarrow> \<not> or_null r"
  by (induction rs) (auto simp: or_null_def split: option.splits if_splits)

lemma all_true_or_null: "all_true result rs = Some r \<Longrightarrow> \<not> or_null result \<Longrightarrow> \<not> or_null r"
  by (induction rs arbitrary: result) (auto simp: or_null_def split: option.splits if_splits)

lemma CheckZonemapConstant_or_null: "\<not> or_null (CheckZonemapConstant cmp lo hi c)"
  by (cases cmp) (auto simp: CheckZonemapConstant.simps or_null_def)

lemma CheckZonemapString_or_null: "\<not> or_null (CheckZonemapString lo hi cmp c)"
  by (auto simp: CheckZonemapString.simps or_null_def Let_def)

lemma CheckZonemapOfType_or_null: "CheckZonemapOfType t s cmp cs = Some r \<Longrightarrow> \<not> or_null r"
  by (auto simp: CheckZonemapOfType_def NumericStats_CheckZonemap_def StringStats_CheckZonemap_def
      split: option.splits PhysicalType.splits if_splits dest: first_not_false_or_null)
    (auto simp: or_null_def)

lemma ConstantFilter_CheckStatistics_or_null:
  "ConstantFilter_CheckStatistics cmp t c s = Some r \<Longrightarrow> \<not> or_null r"
  by (auto simp: ConstantFilter_CheckStatistics_def split: option.splits if_splits
      dest: CheckZonemapOfType_or_null) (auto simp: or_null_def)

lemma CheckStatistics_or_null: "CheckStatistics f s = Some r \<Longrightarrow> \<not> or_null r"
proof (induction f arbitrary: r)
  case (ConjunctionOrFilter fs)
  then show ?case by (auto dest: first_not_false_or_null)
next
  case (ConjunctionAndFilter fs)
  then show ?case by (auto simp: or_null_def dest: all_true_or_null)
next
  case (ConstantFilter cmp t c)
  then show ?case using ConstantFilter_CheckStatistics_or_null by simp
next
  case (InFilter t vs)
  then show ?case using CheckZonemapOfType_or_null by simp
next
  case (DynamicFilter data)
  then show ?case using ConstantFilter_CheckStatistics_or_null
    by (auto simp: or_null_def [of NO_PRUNING_POSSIBLE] split: if_splits option.splits prod.splits)
qed (auto simp: or_null_def split: if_splits)

lemma all_true_False:
  "all_true result rs = Some FILTER_ALWAYS_FALSE \<Longrightarrow> result \<noteq> FILTER_ALWAYS_FALSE \<Longrightarrow>
    Some FILTER_ALWAYS_FALSE \<in> set rs"
  by (induction rs arbitrary: result) (auto split: option.splits if_splits)

lemma all_true_True:
  "all_true result rs = Some FILTER_ALWAYS_TRUE \<Longrightarrow>
    result = FILTER_ALWAYS_TRUE \<and> (\<forall>r \<in> set rs. r = Some FILTER_ALWAYS_TRUE)"
  by (induction rs arbitrary: result) (auto split: option.splits if_splits)

lemma all_true_None: "all_true result rs = None \<Longrightarrow> None \<in> set rs"
  by (induction rs arbitrary: result) (auto split: option.splits if_splits)


text \<open>One constant against the bounds of numbers.\<close>

lemma CheckZonemapConstant_sound:
  assumes "lo \<le> i" "i \<le> hi"
  shows "CheckZonemapConstant cmp lo hi c = FILTER_ALWAYS_FALSE \<Longrightarrow> \<not> Compare cmp (NumericValue i) (NumericValue c)"
    and "CheckZonemapConstant cmp lo hi c = FILTER_ALWAYS_TRUE \<Longrightarrow> Compare cmp (NumericValue i) (NumericValue c)"
  using assms
  by (cases cmp; auto simp: CheckZonemapConstant.simps ConstantExactRange_def ConstantValueInRange_def
      split: if_splits)+

text \<open>A constant whose first bytes lie outside the bounds of the column's first bytes.\<close>

lemma prefix_below:
  assumes "length lo = MAX_STRING_MINMAX_SIZE" "\<not> bytes_less (ConstructValue s) lo"
    and "StringValueComparison c (min MAX_STRING_MINMAX_SIZE (length c)) lo < 0"
  shows "bytes_less c s"
proof -
  let ?k = "min MAX_STRING_MINMAX_SIZE (length c)"
  have c: "bytes_less (take ?k c) (take ?k lo)"
    using assms by (simp add: StringValueComparison_memcmp memcmp_less)
  have "\<not> bytes_less (take ?k (ConstructValue s)) (take ?k lo)"
    using assms bytes_less_take [of ?k "ConstructValue s" lo] by auto
  then have "bytes_less (take ?k c) (take ?k (ConstructValue s))"
    using c bytes_not_less_trans by blast
  then have "bytes_less (pad_bytes ?k c) (pad_bytes ?k s)"
    by (simp add: ConstructValue_pad take_pad_bytes pad_bytes_id)
  then show ?thesis by (rule pad_bytes_less)
qed

lemma prefix_above:
  assumes "length hi = MAX_STRING_MINMAX_SIZE" "\<not> bytes_less hi (ConstructValue s)"
    and "StringValueComparison c (min MAX_STRING_MINMAX_SIZE (length c)) hi > 0"
  shows "bytes_less s c"
proof -
  let ?k = "min MAX_STRING_MINMAX_SIZE (length c)"
  have c: "bytes_less (take ?k hi) (take ?k c)"
    using assms by (simp add: StringValueComparison_memcmp memcmp_greater)
  have "\<not> bytes_less (take ?k hi) (take ?k (ConstructValue s))"
    using assms bytes_less_take [of ?k hi "ConstructValue s"] by auto
  then have "bytes_less (take ?k (ConstructValue s)) (take ?k c)"
    using c bytes_not_less_trans by blast
  then have "bytes_less (pad_bytes ?k s) (pad_bytes ?k c)"
    by (simp add: ConstructValue_pad take_pad_bytes pad_bytes_id)
  then show ?thesis by (rule pad_bytes_less)
qed

lemma CheckZonemapString_sound:
  assumes "length lo = MAX_STRING_MINMAX_SIZE" "length hi = MAX_STRING_MINMAX_SIZE"
    and "\<not> bytes_less (ConstructValue s) lo" "\<not> bytes_less hi (ConstructValue s)"
  shows "CheckZonemapString lo hi cmp c = FILTER_ALWAYS_FALSE \<Longrightarrow> \<not> Compare cmp (StringValue s) (StringValue c)"
    and "CheckZonemapString lo hi cmp c = FILTER_ALWAYS_TRUE \<Longrightarrow> Compare cmp (StringValue s) (StringValue c)"
proof -
  have "bytes_less c s \<Longrightarrow> \<not> bytes_less s c" "bytes_less c s \<Longrightarrow> s \<noteq> c" "bytes_less s c \<Longrightarrow> s \<noteq> c"
    using bytes_less_asym by auto
  note facts = this prefix_below [OF assms(1,3), of c] prefix_above [OF assms(2,4), of c]
  show "CheckZonemapString lo hi cmp c = FILTER_ALWAYS_FALSE \<Longrightarrow> \<not> Compare cmp (StringValue s) (StringValue c)"
    using facts by (cases cmp) (auto simp: CheckZonemapString.simps Let_def string_GreaterThan_less split: if_splits)
  show "CheckZonemapString lo hi cmp c = FILTER_ALWAYS_TRUE \<Longrightarrow> Compare cmp (StringValue s) (StringValue c)"
    using facts by (cases cmp) (auto simp: CheckZonemapString.simps Let_def string_GreaterThan_less split: if_splits)
qed

text \<open>A list of constants: "false" refutes all of them, "true" proves one.\<close>

lemma NumericStats_CheckZonemap_sound:
  assumes r: "NumericStats_CheckZonemap s cmp cs = Some r" and v: "covers_value s v"
  shows "r = FILTER_ALWAYS_FALSE \<Longrightarrow> c \<in> set cs \<Longrightarrow> \<not> Compare cmp v c"
    and "r = FILTER_ALWAYS_TRUE \<Longrightarrow> \<exists>c \<in> set cs. Compare cmp v c"
proof -
  obtain d where d: "stats_union s = NumericData d"
    using r by (auto simp: NumericStats_CheckZonemap_def NumericStats_GetDataUnsafe_def
        split: option.splits stats_data.splits)
  with v obtain i where i: "v = NumericValue i" "covers_number d i" by (cases v) auto
  let ?check = "\<lambda>c. case c of NumericValue i \<Rightarrow> Some (CheckZonemapConstant cmp (num_min d) (num_max d) i)
      | StringValue s \<Rightarrow> None"
  have b: "num_min d \<le> i" "i \<le> num_max d" and f: "first_not_false (map ?check cs) = Some r"
    if "r \<noteq> NO_PRUNING_POSSIBLE"
    using r i(2) that by (auto simp: NumericStats_CheckZonemap_def NumericStats_GetDataUnsafe_def d
        covers_number_def split: if_splits)
  show "\<not> Compare cmp v c" if "r = FILTER_ALWAYS_FALSE" "c \<in> set cs"
  proof -
    have "?check c = Some FILTER_ALWAYS_FALSE"
      by (rule first_not_false_False [OF f [unfolded that(1)]])
        (use that CheckZonemapConstant_or_null in \<open>auto split: Value.splits\<close>)
    then show ?thesis using CheckZonemapConstant_sound(1) b that i(1) by (cases c) auto
  qed
  show "\<exists>c \<in> set cs. Compare cmp v c" if "r = FILTER_ALWAYS_TRUE"
  proof -
    from f that have "Some FILTER_ALWAYS_TRUE \<in> set (map ?check cs)" by (intro first_not_false_True) simp
    then obtain c where c: "c \<in> set cs" "?check c = Some FILTER_ALWAYS_TRUE" by auto
    have "Compare cmp v c"
      using c(2) CheckZonemapConstant_sound(2) b that i(1) by (cases c rule: Value.exhaust) auto
    with c show ?thesis by blast
  qed
qed

lemma StringStats_CheckZonemap_sound:
  assumes r: "StringStats_CheckZonemap s cmp cs = Some r" and v: "covers_value s v" and "wf_stats s"
  shows "r = FILTER_ALWAYS_FALSE \<Longrightarrow> c \<in> set cs \<Longrightarrow> \<not> Compare cmp v c"
    and "r = FILTER_ALWAYS_TRUE \<Longrightarrow> \<exists>c \<in> set cs. Compare cmp v c"
proof -
  obtain d where d: "stats_union s = StringData d"
    using r by (auto simp: StringStats_CheckZonemap_def StringStats_GetDataUnsafe_def
        split: option.splits stats_data.splits)
  with v obtain w where w: "v = StringValue w" "covers_string (stats_type s) d w" by (cases v) auto
  let ?check = "\<lambda>c. case c of StringValue s \<Rightarrow> Some (CheckZonemapString (str_min d) (str_max d) cmp s)
      | NumericValue i \<Rightarrow> None"
  have f: "first_not_false (map ?check cs) = Some r"
    using r by (simp add: StringStats_CheckZonemap_def StringStats_GetDataUnsafe_def d)
  have sound: "CheckZonemapString (str_min d) (str_max d) cmp u = FILTER_ALWAYS_FALSE \<Longrightarrow> \<not> Compare cmp v (StringValue u)"
    "CheckZonemapString (str_min d) (str_max d) cmp u = FILTER_ALWAYS_TRUE \<Longrightarrow> Compare cmp v (StringValue u)" for u
    using CheckZonemapString_sound [of "str_min d" "str_max d" w cmp u] w assms(3) d
    by (auto simp: covers_string_def wf_stats_def)
  show "\<not> Compare cmp v c" if "r = FILTER_ALWAYS_FALSE" "c \<in> set cs"
  proof -
    have "?check c = Some FILTER_ALWAYS_FALSE"
      by (rule first_not_false_False [OF f [unfolded that(1)]])
        (use that CheckZonemapString_or_null in \<open>auto split: Value.splits\<close>)
    then show ?thesis using sound(1) by (cases c) auto
  qed
  show "\<exists>c \<in> set cs. Compare cmp v c" if "r = FILTER_ALWAYS_TRUE"
  proof -
    from f that have "Some FILTER_ALWAYS_TRUE \<in> set (map ?check cs)" by (intro first_not_false_True) simp
    then obtain c where c: "c \<in> set cs" "?check c = Some FILTER_ALWAYS_TRUE" by auto
    have "Compare cmp v c" using c(2) sound(2) by (cases c rule: Value.exhaust) auto
    with c show ?thesis by blast
  qed
qed

lemma CheckZonemapOfType_sound:
  assumes "CheckZonemapOfType t s cmp cs = Some r" "wf_stats s" "covers_value s v"
  shows "r = FILTER_ALWAYS_FALSE \<Longrightarrow> c \<in> set cs \<Longrightarrow> \<not> Compare cmp v c"
    and "r = FILTER_ALWAYS_TRUE \<Longrightarrow> \<exists>c \<in> set cs. Compare cmp v c"
  using assms NumericStats_CheckZonemap_sound [of s cmp cs r v] StringStats_CheckZonemap_sound [of s cmp cs r v]
  by (auto simp: CheckZonemapOfType_def split: PhysicalType.splits)

lemma ConstantFilter_CheckStatistics_sound:
  assumes r: "ConstantFilter_CheckStatistics cmp t c s = Some r" and s: "wf_stats s" "covers s x"
  shows "r = FILTER_ALWAYS_FALSE \<Longrightarrow> has_null s \<longrightarrow> cmp \<noteq> COMPARE_DISTINCT_FROM \<Longrightarrow> \<not> compare_cell cmp x c"
    and "r = FILTER_ALWAYS_TRUE \<Longrightarrow> compare_cell cmp x c"
proof -
  have zone: "CheckZonemapOfType t s cmp [c] = Some r" "r = FILTER_ALWAYS_TRUE \<Longrightarrow> \<not> has_null s"
    if "has_no_null s" "r \<noteq> NO_PRUNING_POSSIBLE"
    using r that by (auto simp: ConstantFilter_CheckStatistics_def CanHaveNoNull_def CanHaveNull_def
        split: option.splits if_splits)
  show "\<not> compare_cell cmp x c" if "r = FILTER_ALWAYS_FALSE" "has_null s \<longrightarrow> cmp \<noteq> COMPARE_DISTINCT_FROM"
    using that s zone(1) CheckZonemapOfType_sound(1) [of t s cmp "[c]" r _ c]
    by (cases x) (auto simp: compare_cell_def)
  show "compare_cell cmp x c" if "r = FILTER_ALWAYS_TRUE"
  proof (cases "has_no_null s")
    case True
    then show ?thesis
      using that s zone CheckZonemapOfType_sound(2) [of t s cmp "[c]" r]
      by (cases x) (auto simp: compare_cell_def)
  next
    case False
    then show ?thesis using r that by (simp add: ConstantFilter_CheckStatistics_def CanHaveNoNull_def)
  qed
qed

text \<open>
  Two shapes the checks are not sound for when the column has NULLs: a comparison with
  \<open>IS DISTINCT FROM\<close> (true on NULL, but refuted by the bounds) and an \<open>IN\<close> list (proved by the
  bounds, although NULL does not satisfy it).
\<close>

fun distinct_free :: "TableFilter \<Rightarrow> bool" where
  "distinct_free (ConstantFilter cmp t c) = (cmp \<noteq> COMPARE_DISTINCT_FROM)"
| "distinct_free (ConjunctionOrFilter fs) = list_all distinct_free fs"
| "distinct_free (ConjunctionAndFilter fs) = list_all distinct_free fs"
| "distinct_free (OptionalFilter f) = distinct_free f"
| "distinct_free (DynamicFilter (Some (i, cmp, t, c))) = (cmp \<noteq> COMPARE_DISTINCT_FROM)"
| "distinct_free _ = True"

fun in_free :: "TableFilter \<Rightarrow> bool" where
  "in_free (InFilter t vs) = False"
| "in_free (ConjunctionOrFilter fs) = list_all in_free fs"
| "in_free (ConjunctionAndFilter fs) = list_all in_free fs"
| "in_free (OptionalFilter f) = in_free f"
| "in_free _ = True"

lemma CheckStatistics_false:
  assumes "wf_stats s" "covers s x" "has_null s \<longrightarrow> distinct_free f"
    and "CheckStatistics f s = Some FILTER_ALWAYS_FALSE"
  shows "\<not> satisfies f x"
  using assms(3,4)
proof (induction f)
  case (ConstantFilter cmp t c)
  then show ?case using ConstantFilter_CheckStatistics_sound(1) assms(1,2) by auto
next
  case (ConjunctionOrFilter fs)
  then have "\<forall>g \<in> set fs. CheckStatistics g s = Some FILTER_ALWAYS_FALSE"
    using first_not_false_False [of "map (\<lambda>f. CheckStatistics f s) fs"] CheckStatistics_or_null by auto
  with ConjunctionOrFilter show ?case by (auto simp: list_all_iff)
next
  case (ConjunctionAndFilter fs)
  then have "Some FILTER_ALWAYS_FALSE \<in> set (map (\<lambda>f. CheckStatistics f s) fs)"
    by (intro all_true_False) auto
  then obtain g where "g \<in> set fs" "CheckStatistics g s = Some FILTER_ALWAYS_FALSE" by auto
  then show ?case using ConjunctionAndFilter by (auto simp: list_all_iff)
next
  case (InFilter t vs)
  show ?case
  proof (cases x)
    case (Some v)
    then have "covers_value s v" using assms(2) by simp
    then show ?thesis
      using InFilter CheckZonemapOfType_sound(1) [of t s COMPARE_EQUAL vs FILTER_ALWAYS_FALSE v] assms(1)
      by (auto simp: Some)
  qed simp
next
  case (DynamicFilter data)
  then show ?case using ConstantFilter_CheckStatistics_sound(1) assms(1,2)
    by (auto split: option.splits if_splits prod.splits)
qed (use assms in \<open>auto simp: CanHaveNull_def CanHaveNoNull_def split: if_splits elim: covers.elims\<close>)

lemma CheckStatistics_true:
  assumes "wf_stats s" "covers s x" "has_null s \<longrightarrow> in_free f"
    and "CheckStatistics f s = Some FILTER_ALWAYS_TRUE"
  shows "satisfies f x"
  using assms(3,4)
proof (induction f)
  case (ConstantFilter cmp t c)
  then show ?case using ConstantFilter_CheckStatistics_sound(2) assms(1,2) by auto
next
  case (ConjunctionOrFilter fs)
  then have "Some FILTER_ALWAYS_TRUE \<in> set (map (\<lambda>f. CheckStatistics f s) fs)"
    by (intro first_not_false_True) auto
  then obtain g where "g \<in> set fs" "CheckStatistics g s = Some FILTER_ALWAYS_TRUE" by auto
  then show ?case using ConjunctionOrFilter by (auto simp: list_all_iff)
next
  case (ConjunctionAndFilter fs)
  then show ?case by (auto simp: list_all_iff dest: all_true_True)
next
  case (InFilter t vs)
  with assms(2) obtain v where v: "x = Some v" "covers_value s v"
    by (cases x) (auto simp: )
  then show ?case
    using InFilter CheckZonemapOfType_sound(2) [of t s COMPARE_EQUAL vs FILTER_ALWAYS_TRUE v] assms(1)
    by auto
next
  case (DynamicFilter data)
  then show ?case using ConstantFilter_CheckStatistics_sound(2) assms(1,2)
    by (auto split: option.splits if_splits prod.splits)
qed (use assms in \<open>auto simp: CanHaveNull_def CanHaveNoNull_def split: if_splits elim: covers.elims\<close>)


text \<open>Well-typed filters never raise on the statistics of their column.\<close>

lemma first_not_false_total: "(\<And>r. r \<in> set rs \<Longrightarrow> r \<noteq> None) \<Longrightarrow> first_not_false rs \<noteq> None"
  using first_not_false_None by blast

lemma all_true_total: "(\<And>r. r \<in> set rs \<Longrightarrow> r \<noteq> None) \<Longrightarrow> all_true result rs \<noteq> None"
  using all_true_None by blast

lemma CheckZonemapOfType_total:
  assumes "wf_stats s" "list_all (value_has_type (stats_type s)) cs" "cs \<noteq> []"
  shows "CheckZonemapOfType (stats_type s) s cmp cs \<noteq> None"
proof -
  obtain c where c: "c \<in> set cs" "value_has_type (stats_type s) c"
    using assms(2,3) by (cases cs) auto
  show ?thesis
    using assms(1)
  proof (cases rule: wf_statsE)
    case (numeric d)
    then have "\<exists>i. c = NumericValue i" if "c \<in> set cs" for c
      using assms(2) that by (cases c) (auto simp: list_all_iff GetStatsType_def split: if_splits)
    then have "NumericStats_CheckZonemap s cmp cs \<noteq> None" if "InternalType (stats_type s) \<noteq> PT_BOOL"
      using that numeric(1)
      by (auto simp del: not_None_eq simp: NumericStats_CheckZonemap_def NumericStats_GetDataUnsafe_def
          intro!: first_not_false_total) fastforce
    then show ?thesis
      using numeric by (auto simp: CheckZonemapOfType_def GetStatsType_def split: PhysicalType.split if_splits)
  next
    case (string d)
    then have "\<exists>i. c = StringValue i" if "c \<in> set cs" for c
      using assms(2) that by (cases c) (auto simp: list_all_iff GetStatsType_def split: if_splits PhysicalType.splits)
    then have "StringStats_CheckZonemap s cmp cs \<noteq> None"
      using string(1)
      by (auto simp del: not_None_eq simp: StringStats_CheckZonemap_def StringStats_GetDataUnsafe_def
          intro!: first_not_false_total) fastforce
    then show ?thesis
      using string by (auto simp: CheckZonemapOfType_def GetStatsType_def split: PhysicalType.splits if_splits)
  next
    case base
    then have "stats_type s \<in> {LT_SQLNULL, LT_VALIDITY}"
      by (cases "stats_type s") (auto simp: GetStatsType_def)
    then have False using c by (cases c) auto
    then show ?thesis ..
  qed
qed

lemma ConstantFilter_CheckStatistics_total:
  assumes "wf_stats s" "value_has_type (stats_type s) c"
  shows "ConstantFilter_CheckStatistics cmp (stats_type s) c s \<noteq> None"
  using CheckZonemapOfType_total [of s "[c]" cmp] assms
  by (auto simp: ConstantFilter_CheckStatistics_def)

lemma CheckStatistics_total:
  assumes "wf_stats s" "wt_filter (stats_type s) f"
  shows "CheckStatistics f s \<noteq> None"
  using assms(2)
proof (induction f)
  case (ConstantFilter cmp t c)
  then show ?case using ConstantFilter_CheckStatistics_total [OF assms(1)] by auto
next
  case (ConjunctionOrFilter fs)
  then have "r \<noteq> None" if "r \<in> set (map (\<lambda>f. CheckStatistics f s) fs)" for r
    using that by (auto simp: list_all_iff)
  then show ?case unfolding CheckStatistics.simps by (rule first_not_false_total)
next
  case (ConjunctionAndFilter fs)
  then have "r \<noteq> None" if "r \<in> set (map (\<lambda>f. CheckStatistics f s) fs)" for r
    using that by (auto simp: list_all_iff)
  then show ?case unfolding CheckStatistics.simps by (rule all_true_total)
next
  case (InFilter t vs)
  then show ?case using CheckZonemapOfType_total [OF assms(1)] by auto
next
  case (DynamicFilter data)
  then show ?case using ConstantFilter_CheckStatistics_total [OF assms(1)]
    by (auto split: option.split prod.split)
qed auto

section \<open>Statistics decide a filter soundly\<close>

text \<open>
  C15: What the statistics of a column say about a filter is true of every cell they cover: a filter that
  is always false holds on none of them, a filter that is always true holds on all.  The exceptions are an
  \<open>IS DISTINCT FROM\<close> (always false) and an \<open>IN\<close> list (always true) on a column that may hold NULL.
\<close>
theorem CheckStatistics_sound:
  assumes "wf_stats s" "covers s x"
  shows "(CheckStatistics f s = Some FILTER_ALWAYS_FALSE \<and> (has_null s \<longrightarrow> distinct_free f) \<longrightarrow> \<not> satisfies f x)
    \<and> (CheckStatistics f s = Some FILTER_ALWAYS_TRUE \<and> (has_null s \<longrightarrow> in_free f) \<longrightarrow> satisfies f x)"
  using CheckStatistics_false [OF assms] CheckStatistics_true [OF assms] by blast

text \<open>The statistics of an integer column with the values from \<open>lo\<close> to \<open>hi\<close>, and NULL or not.\<close>

definition example_stats :: "bool \<Rightarrow> int \<Rightarrow> int \<Rightarrow> BaseStatistics" where
  "example_stats nulls lo hi = \<lparr>stats_type = LT_INTEGER, has_null = nulls, has_no_null = True, distinct_count = 0,
     stats_union = NumericData \<lparr>has_min = True, has_max = True, num_min = lo, num_max = hi\<rparr>\<rparr>"

lemma example_stats_wf: "wf_stats (example_stats nulls lo hi)"
  by (simp add: example_stats_def wf_stats_def GetStatsType_def)

theorem CheckStatistics_sound_witness:
  "(let f = ConjunctionAndFilter [ConstantFilter COMPARE_GREATERTHAN LT_INTEGER (NumericValue 9), IsNotNullFilter];
        s = example_stats True 3 8; x = Some (NumericValue 5)
    in (CheckStatistics f s = Some FILTER_ALWAYS_FALSE \<and> (has_null s \<longrightarrow> distinct_free f) \<longrightarrow> \<not> satisfies f x)
     \<and> (CheckStatistics f s = Some FILTER_ALWAYS_TRUE \<and> (has_null s \<longrightarrow> in_free f) \<longrightarrow> satisfies f x))
   \<and> CheckStatistics (ConstantFilter COMPARE_GREATERTHAN LT_INTEGER (NumericValue 9)) (example_stats True 3 8) =
       Some FILTER_ALWAYS_FALSE"
  unfolding Let_def
  by (rule conjI, rule CheckStatistics_sound [OF example_stats_wf])
    (simp_all add: example_stats_def covers_number_def ConstantFilter_CheckStatistics_def CheckZonemapOfType_def, code_simp)



text \<open>The two exceptions of the soundness theorem are real.\<close>

lemma distinct_from_skips_nulls:
  "CheckStatistics (ConstantFilter COMPARE_DISTINCT_FROM LT_INTEGER (NumericValue 5)) (example_stats True 5 5) = Some FILTER_ALWAYS_FALSE
   \<and> covers (example_stats True 5 5) None
   \<and> satisfies (ConstantFilter COMPARE_DISTINCT_FROM LT_INTEGER (NumericValue 5)) None"
  by code_simp

lemma in_filter_ignores_nulls:
  "CheckStatistics (InFilter LT_INTEGER [NumericValue 5]) (example_stats True 5 5) = Some FILTER_ALWAYS_TRUE
   \<and> covers (example_stats True 5 5) None \<and> \<not> satisfies (InFilter LT_INTEGER [NumericValue 5]) None"
  by code_simp

end
