(* ===== verification/FilterExecution.thy ===== *)
theory FilterExecution
  imports TableFilters
begin

text \<open>
  \<open>ColumnSegment::FilterSelection\<close> and its templates (\<open>storage/table/column_segment.cpp\<close>).  A vector
  in unified format has a selection into its data and a validity mask (\<open>None\<close>: all valid).  The
  selection vector \<open>sel\<close> holds the rows approved so far, so its length is the approved count.
  Reading past it, or an exception, is \<open>None\<close>.
\<close>

record UnifiedVectorFormat =
  vec_type :: LogicalType
  vec_sel :: "nat list"
  vec_data :: "Value list"
  vec_validity :: "bool list option"

definition AllValid :: "UnifiedVectorFormat \<Rightarrow> bool" where
  "AllValid vdata = (vec_validity vdata = None)"

definition RowIsValid :: "UnifiedVectorFormat \<Rightarrow> nat \<Rightarrow> bool" where
  "RowIsValid vdata i = (case vec_validity vdata of None \<Rightarrow> True | Some m \<Rightarrow> m ! i)"

fun TemplatedFilterSelection ::
  "ExpressionType \<Rightarrow> bool \<Rightarrow> UnifiedVectorFormat \<Rightarrow> Value \<Rightarrow> nat list \<Rightarrow> nat list" where
  "TemplatedFilterSelection OP HAS_NULL vdata predicate [] = []"
| "TemplatedFilterSelection OP HAS_NULL vdata predicate (idx # sel) =
    (let vector_idx = vec_sel vdata ! idx;
         comparison_result = ((\<not> HAS_NULL \<or> RowIsValid vdata vector_idx) \<and>
           Compare OP (vec_data vdata ! vector_idx) predicate);
         rest = TemplatedFilterSelection OP HAS_NULL vdata predicate sel
     in if comparison_result then idx # rest else rest)"

definition FilterSelectionSwitch ::
  "UnifiedVectorFormat \<Rightarrow> Value \<Rightarrow> nat list \<Rightarrow> ExpressionType \<Rightarrow> nat list option" where
  "FilterSelectionSwitch vdata predicate sel cmp =
    (if cmp = COMPARE_DISTINCT_FROM \<or> cmp = COMPARE_NOT_DISTINCT_FROM then None
     else if AllValid vdata then Some (TemplatedFilterSelection cmp False vdata predicate sel)
     else Some (TemplatedFilterSelection cmp True vdata predicate sel))"

definition TemplatedNullSelection :: "bool \<Rightarrow> UnifiedVectorFormat \<Rightarrow> nat list \<Rightarrow> nat list" where
  "TemplatedNullSelection IS_NULL vdata sel =
    (if AllValid vdata then if IS_NULL then [] else sel
     else filter (\<lambda>idx. RowIsValid vdata (vec_sel vdata ! idx) \<noteq> IS_NULL) sel)"

text \<open>
  The merge of a child's rows into the rows of a disjunction, without duplicates; \<open>temp_count\<close> rows
  of the child's selection are read.
\<close>

fun add_new :: "nat list \<Rightarrow> nat list \<Rightarrow> nat list" where
  "add_new [] result_sel = result_sel"
| "add_new (new_idx # idxs) result_sel =
    add_new idxs (if new_idx \<in> set result_sel then result_sel else result_sel @ [new_idx])"

definition merge_child :: "nat \<times> nat list \<Rightarrow> nat list \<Rightarrow> nat list option" where
  "merge_child child result_sel =
    (case child of (temp_count, temp_sel) \<Rightarrow>
      if length temp_sel < temp_count then None
      else Some (add_new (take temp_count temp_sel) result_sel))"

text \<open>The result is the returned count and the new selection.\<close>

function FilterSelection ::
  "TableFilter \<Rightarrow> UnifiedVectorFormat \<Rightarrow> nat \<Rightarrow> nat list \<Rightarrow> (nat \<times> nat list) option"
  and FilterSelection_or ::
  "TableFilter list \<Rightarrow> UnifiedVectorFormat \<Rightarrow> nat \<Rightarrow> nat list \<Rightarrow> nat list \<Rightarrow> nat list option"
  and FilterSelection_and ::
  "TableFilter list \<Rightarrow> UnifiedVectorFormat \<Rightarrow> nat \<Rightarrow> nat list \<Rightarrow> nat list option" where
  "FilterSelection (OptionalFilter f) vdata scan_count sel = Some (scan_count, sel)"
| "FilterSelection (ConjunctionOrFilter fs) vdata scan_count sel =
    map_option (\<lambda>s. (length s, s)) (FilterSelection_or fs vdata scan_count sel [])"
| "FilterSelection (ConjunctionAndFilter fs) vdata scan_count sel =
    map_option (\<lambda>s. (length s, s)) (FilterSelection_and fs vdata scan_count sel)"
| "FilterSelection (ConstantFilter cmp t c) vdata scan_count sel =
    (if vec_type vdata \<noteq> t \<or> \<not> value_has_type t c then None
     else map_option (\<lambda>s. (length s, s)) (FilterSelectionSwitch vdata c sel cmp))"
| "FilterSelection IsNullFilter vdata scan_count sel =
    (let s = TemplatedNullSelection True vdata sel in Some (length s, s))"
| "FilterSelection IsNotNullFilter vdata scan_count sel =
    (let s = TemplatedNullSelection False vdata sel in Some (length s, s))"
| "FilterSelection (InFilter t vs) vdata scan_count sel = None"
| "FilterSelection (DynamicFilter data) vdata scan_count sel = None"
| "FilterSelection_or [] vdata scan_count sel result_sel = Some result_sel"
| "FilterSelection_or (f # fs) vdata scan_count sel result_sel =
    (case FilterSelection f vdata scan_count sel of
       None \<Rightarrow> None
     | Some child \<Rightarrow>
        (case merge_child child result_sel of
           None \<Rightarrow> None
         | Some result_sel' \<Rightarrow> FilterSelection_or fs vdata scan_count sel result_sel'))"
| "FilterSelection_and [] vdata scan_count sel = Some sel"
| "FilterSelection_and (f # fs) vdata scan_count sel =
    (case FilterSelection f vdata scan_count sel of
       None \<Rightarrow> None
     | Some (_, sel') \<Rightarrow> FilterSelection_and fs vdata scan_count sel')"
  by pat_completeness auto
termination
  by (relation "measure (\<lambda>x. case x of
      Inl (f, _) \<Rightarrow> size f
    | Inr (Inl (fs, _)) \<Rightarrow> size_list size fs
    | Inr (Inr (fs, _)) \<Rightarrow> size_list size fs)") auto

text \<open>The cell a row of the vector shows.\<close>

definition vector_cell :: "UnifiedVectorFormat \<Rightarrow> nat \<Rightarrow> Value option" where
  "vector_cell vdata idx =
    (let i = vec_sel vdata ! idx in if RowIsValid vdata i then Some (vec_data vdata ! i) else None)"

text \<open>
  What execution lets pass: an optional filter passes everything, since the condition it stands for
  is evaluated above the scan.
\<close>

fun passes_filter :: "TableFilter \<Rightarrow> Value option \<Rightarrow> bool" where
  "passes_filter (OptionalFilter f) x = True"
| "passes_filter (ConjunctionOrFilter fs) x = (\<exists>f \<in> set fs. passes_filter f x)"
| "passes_filter (ConjunctionAndFilter fs) x = (\<forall>f \<in> set fs. passes_filter f x)"
| "passes_filter f x = satisfies f x"

lemma satisfies_passes_filter: "satisfies f x \<Longrightarrow> passes_filter f x"
  by (induction f) auto

text \<open>
  The filters a scan can execute: no \<open>IN\<close> list, dynamic filter or \<open>IS [NOT] DISTINCT FROM\<close> outside an
  optional filter, and no optional filter directly below a disjunction.
\<close>

fun is_optional :: "TableFilter \<Rightarrow> bool" where
  "is_optional (OptionalFilter f) = True"
| "is_optional _ = False"

fun executable :: "LogicalType \<Rightarrow> TableFilter \<Rightarrow> bool" where
  "executable type (OptionalFilter f) = True"
| "executable type (ConjunctionOrFilter fs) = list_all (\<lambda>f. executable type f \<and> \<not> is_optional f) fs"
| "executable type (ConjunctionAndFilter fs) = list_all (executable type) fs"
| "executable type (ConstantFilter cmp t c) =
    (t = type \<and> value_has_type t c \<and> cmp \<noteq> COMPARE_DISTINCT_FROM \<and> cmp \<noteq> COMPARE_NOT_DISTINCT_FROM)"
| "executable type (InFilter t vs) = False"
| "executable type (DynamicFilter data) = False"
| "executable type f = True"

lemma TemplatedFilterSelection_filter:
  assumes "HAS_NULL = (\<not> AllValid vdata)" "OP \<noteq> COMPARE_DISTINCT_FROM"
  shows "TemplatedFilterSelection OP HAS_NULL vdata c sel =
    filter (\<lambda>i. compare_cell OP (vector_cell vdata i) c) sel"
  using assms
  by (induction sel) (auto simp: Let_def vector_cell_def compare_cell_def AllValid_def RowIsValid_def)

lemma TemplatedNullSelection_filter:
  "TemplatedNullSelection n vdata sel = filter (\<lambda>i. (vector_cell vdata i = None) = n) sel"
  by (auto simp: TemplatedNullSelection_def vector_cell_def AllValid_def RowIsValid_def Let_def
      intro!: filter_cong)

lemma add_new_set: "set (add_new xs r) = set xs \<union> set r" and add_new_distinct: "distinct r \<Longrightarrow> distinct (add_new xs r)"
  by (induction xs arbitrary: r) auto


definition selects :: "TableFilter \<Rightarrow> UnifiedVectorFormat \<Rightarrow> nat \<Rightarrow> nat list \<Rightarrow> bool" where
  "selects f vdata scan_count sel \<longleftrightarrow>
    (\<exists>n s. FilterSelection f vdata scan_count sel = Some (n, s) \<and> (\<not> is_optional f \<longrightarrow> n = length s) \<and>
      distinct s \<and> set s = {i \<in> set sel. passes_filter f (vector_cell vdata i)})"

lemma FilterSelection_or_selects:
  assumes "\<And>f. f \<in> set fs \<Longrightarrow> selects f vdata n sel \<and> \<not> is_optional f" "distinct r"
  shows "\<exists>s. FilterSelection_or fs vdata n sel r = Some s \<and> distinct s \<and>
    set s = set r \<union> {i \<in> set sel. \<exists>f \<in> set fs. passes_filter f (vector_cell vdata i)}"
  using assms
proof (induction fs arbitrary: r)
  case (Cons f fs)
  then obtain s where s: "FilterSelection f vdata n sel = Some (length s, s)"
    "set s = {i \<in> set sel. passes_filter f (vector_cell vdata i)}"
    unfolding selects_def by (metis list.set_intros(1))
  have "distinct (add_new s r)" using Cons.prems(2) by (rule add_new_distinct)
  then obtain s' where "FilterSelection_or fs vdata n sel (add_new s r) = Some s'" "distinct s'"
    "set s' = set (add_new s r) \<union> {i \<in> set sel. \<exists>f \<in> set fs. passes_filter f (vector_cell vdata i)}"
    using Cons.IH [of "add_new s r"] Cons.prems(1) by auto
  then show ?case
    using s by (auto simp: merge_child_def add_new_set)
qed simp

lemma FilterSelection_and_selects:
  assumes "\<And>f sel. f \<in> set fs \<Longrightarrow> distinct sel \<Longrightarrow> selects f vdata n sel" "distinct sel"
  shows "\<exists>s. FilterSelection_and fs vdata n sel = Some s \<and> distinct s \<and>
    set s = {i \<in> set sel. \<forall>f \<in> set fs. passes_filter f (vector_cell vdata i)}"
  using assms
proof (induction fs arbitrary: sel)
  case (Cons f fs)
  then have "selects f vdata n sel" by simp
  then obtain m s where s: "FilterSelection f vdata n sel = Some (m, s)" "distinct s"
    "set s = {i \<in> set sel. passes_filter f (vector_cell vdata i)}"
    unfolding selects_def by blast
  then obtain s' where "FilterSelection_and fs vdata n s = Some s'" "distinct s'"
    "set s' = {i \<in> set s. \<forall>f \<in> set fs. passes_filter f (vector_cell vdata i)}"
    using Cons.IH [of s] Cons.prems(1) by auto
  then show ?case using s by auto
qed simp

lemma FilterSelection_selects:
  assumes "executable (vec_type vdata) f" "distinct sel"
  shows "selects f vdata scan_count sel"
  using assms
proof (induction f arbitrary: sel)
  case (ConstantFilter cmp t c)
  then show ?case
    using TemplatedFilterSelection_filter [of "\<not> AllValid vdata" vdata cmp c sel]
    by (auto simp: selects_def FilterSelectionSwitch_def)
next
  case (ConjunctionOrFilter fs)
  then have "\<And>f. f \<in> set fs \<Longrightarrow> selects f vdata scan_count sel \<and> \<not> is_optional f"
    by (auto simp: list_all_iff)
  then have "\<exists>s. FilterSelection_or fs vdata scan_count sel [] = Some s \<and> distinct s \<and>
      set s = set [] \<union> {i \<in> set sel. \<exists>f \<in> set fs. passes_filter f (vector_cell vdata i)}"
    by (intro FilterSelection_or_selects) auto
  then show ?case by (auto simp: selects_def)
next
  case (ConjunctionAndFilter fs)
  then have "\<And>f sel. f \<in> set fs \<Longrightarrow> distinct sel \<Longrightarrow> selects f vdata scan_count sel"
    by (auto simp: list_all_iff)
  from FilterSelection_and_selects [OF this ConjunctionAndFilter.prems(2)] show ?case
    by (auto simp: selects_def)
qed (auto simp: selects_def TemplatedNullSelection_filter Let_def)


definition example_cell_vector :: UnifiedVectorFormat where
  "example_cell_vector = \<lparr>vec_type = LT_INTEGER, vec_sel = [2, 0, 1, 1],
     vec_data = [NumericValue 4, NumericValue 7, NumericValue 9], vec_validity = Some [True, False, True]\<rparr>"

definition example_filter :: TableFilter where
  "example_filter = ConjunctionOrFilter [ConstantFilter COMPARE_LESSTHAN LT_INTEGER (NumericValue 5), IsNullFilter]"


end
