(* ===== verification/ZoneMaps.thy ===== *)
theory ZoneMaps
  imports FilterExecution ChunkInfo
begin

text \<open>
  How a scan uses the statistics: a row group is skipped when a filter is always false on the
  statistics of its column, a filter that is always true is not executed
  (\<open>RowGroup::CheckZonemap\<close>, \<open>ScanFilterInfo\<close>), and inside a row group the vectors of a segment
  are skipped when a filter is always false on the statistics of the segment
  (\<open>RowGroup::CheckZonemapSegments\<close>, \<open>ColumnData::CheckZonemap\<close>).
\<close>

section \<open>The filters of a scan\<close>

definition COLUMN_IDENTIFIER_ROW_ID :: nat where
  "COLUMN_IDENTIFIER_ROW_ID = 18446744073709551615"

record ScanFilter =
  scan_column_index :: nat
  table_column_index :: nat
  scan_filter :: TableFilter
  always_true :: bool

record ScanFilterInfo =
  filter_list :: "ScanFilter list"
  column_has_filter :: "bool list"
  base_column_has_filter :: "bool list"
  always_true_filters :: nat

definition ScanFilterInfo_Initialize :: "(nat \<times> TableFilter) list \<Rightarrow> nat list \<Rightarrow> ScanFilterInfo" where
  "ScanFilterInfo_Initialize filters column_ids =
    (let has = map (\<lambda>col_idx. map_of filters col_idx \<noteq> None) [0..<length column_ids]
     in \<lparr>filter_list = map (\<lambda>(column, tf). \<lparr>scan_column_index = column,
            table_column_index = column_ids ! column, scan_filter = tf, always_true = False\<rparr>) filters,
         column_has_filter = has, base_column_has_filter = has, always_true_filters = 0\<rparr>)"

definition HasFilters :: "ScanFilterInfo \<Rightarrow> bool" where
  "HasFilters info = (always_true_filters info < length (filter_list info))"

definition ColumnHasFilters :: "nat \<Rightarrow> ScanFilterInfo \<Rightarrow> bool" where
  "ColumnHasFilters column_idx info =
    (if column_idx < length (column_has_filter info) then column_has_filter info ! column_idx else False)"

definition CheckAllFilters :: "ScanFilterInfo \<Rightarrow> ScanFilterInfo" where
  "CheckAllFilters info = info\<lparr>always_true_filters := 0,
     column_has_filter := base_column_has_filter info,
     filter_list := map (\<lambda>f. f\<lparr>always_true := False\<rparr>) (filter_list info)\<rparr>"

definition SetFilterAlwaysTrue :: "nat \<Rightarrow> ScanFilterInfo \<Rightarrow> ScanFilterInfo" where
  "SetFilterAlwaysTrue filter_idx info =
    (let f = filter_list info ! filter_idx
     in if always_true f then info
        else info\<lparr>filter_list := (filter_list info)[filter_idx := f\<lparr>always_true := True\<rparr>],
          column_has_filter := (column_has_filter info)[scan_column_index f := False],
          always_true_filters := always_true_filters info + 1\<rparr>)"

section \<open>Skipping a row group\<close>

text \<open>\<open>CheckRowIdFilter\<close>: statistics made up for the row identifiers \<open>beg_row\<close> to \<open>end_row\<close>.\<close>

definition row_id_stats :: "nat \<Rightarrow> nat \<Rightarrow> BaseStatistics" where
  "row_id_stats beg_row end_row =
    (CreateEmpty LT_BIGINT)\<lparr>stats_union :=
      NumericData \<lparr>has_min = True, has_max = True, num_min = int beg_row, num_max = int end_row\<rparr>\<rparr>"

definition CheckRowIdFilter :: "TableFilter \<Rightarrow> nat \<Rightarrow> nat \<Rightarrow> FilterPropagateResult option" where
  "CheckRowIdFilter tf beg_row end_row = CheckStatistics tf (row_id_stats beg_row end_row)"

record scan_group =
  zg_start :: nat
  zg_count :: nat
  zg_stats :: "nat \<Rightarrow> BaseStatistics"

definition filter_result :: "scan_group \<Rightarrow> ScanFilter \<Rightarrow> FilterPropagateResult option" where
  "filter_result rg entry =
    (if table_column_index entry = COLUMN_IDENTIFIER_ROW_ID
     then CheckRowIdFilter (scan_filter entry) (zg_start rg) (zg_start rg + zg_count rg)
     else CheckStatistics (scan_filter entry) (zg_stats rg (table_column_index entry)))"

fun check_zonemap_loop :: "scan_group \<Rightarrow> nat list \<Rightarrow> ScanFilterInfo \<Rightarrow> (bool \<times> ScanFilterInfo) option" where
  "check_zonemap_loop rg [] filters = Some (True, filters)"
| "check_zonemap_loop rg (i # is) filters =
    (let entry = filter_list filters ! i
     in case filter_result rg entry of
          None \<Rightarrow> None
        | Some prune_result \<Rightarrow>
           if prune_result = FILTER_ALWAYS_FALSE then Some (False, filters)
           else if is_optional (scan_filter entry) then check_zonemap_loop rg is (SetFilterAlwaysTrue i filters)
           else if prune_result = FILTER_ALWAYS_TRUE then check_zonemap_loop rg is (SetFilterAlwaysTrue i filters)
           else check_zonemap_loop rg is filters)"

definition rg_CheckZonemap :: "scan_group \<Rightarrow> ScanFilterInfo \<Rightarrow> (bool \<times> ScanFilterInfo) option" where
  "rg_CheckZonemap rg filters =
    (let filters1 = CheckAllFilters filters
     in check_zonemap_loop rg [0..<length (filter_list filters1)] filters1)"

section \<open>Skipping the vectors of a segment\<close>

text \<open>
  The scan of a column is at row \<open>row_index\<close> in one of its segments; the segments are those from the
  current one on, so the head of the list is \<open>current\<close> and the empty list the null pointer.  What
  updates the column has is summed up in their statistics.
\<close>

record segment_info =
  si_start :: nat
  si_count :: nat
  si_stats :: BaseStatistics

record column_scan =
  cs_row_index :: nat
  cs_segments :: "segment_info list"
  segment_checked :: bool

fun drop_segments :: "nat \<Rightarrow> segment_info list \<Rightarrow> segment_info list" where
  "drop_segments row_index [] = []"
| "drop_segments row_index (s # ss) =
    (if row_index \<ge> si_start s + si_count s then drop_segments row_index ss else s # ss)"

definition NextInternal :: "nat \<Rightarrow> column_scan \<Rightarrow> column_scan" where
  "NextInternal n st =
    (if cs_segments st = [] then st
     else let row = cs_row_index st + n; segs = drop_segments row (cs_segments st)
          in st\<lparr>cs_row_index := row, cs_segments := segs,
                segment_checked := (if segs = cs_segments st then segment_checked st else False)\<rparr>)"

definition ColumnData_CheckZonemap ::
  "BaseStatistics option \<Rightarrow> TableFilter \<Rightarrow> column_scan \<Rightarrow> (FilterPropagateResult \<times> column_scan) option" where
  "ColumnData_CheckZonemap update_stats tf st =
    (if segment_checked st then Some (NO_PRUNING_POSSIBLE, st)
     else case cs_segments st of
       [] \<Rightarrow> Some (NO_PRUNING_POSSIBLE, st)
     | current # _ \<Rightarrow>
        let st1 = st\<lparr>segment_checked := True\<rparr>
        in case CheckStatistics tf (si_stats current) of
             None \<Rightarrow> None
           | Some prune_result \<Rightarrow>
              if prune_result = NO_PRUNING_POSSIBLE then Some (NO_PRUNING_POSSIBLE, st1)
              else case update_stats of
                None \<Rightarrow> Some (prune_result, st1)
              | Some us \<Rightarrow>
                 (case CheckStatistics tf us of
                    None \<Rightarrow> None
                  | Some update_result \<Rightarrow>
                     if prune_result = update_result then Some (prune_result, st1)
                     else Some (NO_PRUNING_POSSIBLE, st1)))"

text \<open>
  The scan of a row group: the vector it is at, the row where the scan of the table ends, and the
  scans of its columns, by their place in the scan.
\<close>

record group_scan =
  gs_vector_index :: nat
  gs_max_row :: nat
  max_row_group_row :: nat
  column_scans :: "column_scan list"
  gs_column_ids :: "nat list"

definition NextVector :: "group_scan \<Rightarrow> group_scan" where
  "NextVector state = state\<lparr>gs_vector_index := gs_vector_index state + 1,
     column_scans := map (\<lambda>(c, st). if c = COLUMN_IDENTIFIER_ROW_ID then st
         else NextInternal STANDARD_VECTOR_SIZE st) (zip (gs_column_ids state) (column_scans state))\<rparr>"

fun check_segments_loop ::
  "scan_group \<Rightarrow> (nat \<Rightarrow> BaseStatistics option) \<Rightarrow> ScanFilter list \<Rightarrow> group_scan \<Rightarrow> (bool \<times> group_scan) option" where
  "check_segments_loop rg update_stats [] state = Some (True, state)"
| "check_segments_loop rg update_stats (entry # entries) state =
    (if always_true entry then check_segments_loop rg update_stats entries state
     else let column_idx = scan_column_index entry;
              base_column_idx = table_column_index entry;
              tf = scan_filter entry;
              checked = (if base_column_idx = COLUMN_IDENTIFIER_ROW_ID
                then map_option (\<lambda>r. (r, state))
                  (CheckRowIdFilter tf (zg_start rg) (zg_start rg + zg_count rg))
                else map_option (\<lambda>(r, st). (r, state\<lparr>column_scans := (column_scans state)[column_idx := st]\<rparr>))
                  (ColumnData_CheckZonemap (update_stats base_column_idx) tf (column_scans state ! column_idx)))
          in case checked of
               None \<Rightarrow> None
             | Some (prune_result, state1) \<Rightarrow>
                if prune_result \<noteq> FILTER_ALWAYS_FALSE then check_segments_loop rg update_stats entries state1
                else case cs_segments (column_scans state1 ! column_idx) of
                  [] \<Rightarrow> check_segments_loop rg update_stats entries state1
                | current # _ \<Rightarrow>
                   let end_row = si_start current + si_count current;
                       target_row = (if end_row \<ge> gs_max_row state1 then gs_max_row state1 else end_row);
                       target_vector_index = (target_row - zg_start rg) div STANDARD_VECTOR_SIZE
                   in if gs_vector_index state1 = target_vector_index then Some (True, state1)
                      else Some (False, (NextVector ^^ (target_vector_index - gs_vector_index state1)) state1))"

definition CheckZonemapSegments ::
  "scan_group \<Rightarrow> (nat \<Rightarrow> BaseStatistics option) \<Rightarrow> ScanFilterInfo \<Rightarrow> group_scan \<Rightarrow> (bool \<times> group_scan) option" where
  "CheckZonemapSegments rg update_stats filters state =
    check_segments_loop rg update_stats (filter_list filters) state"


section \<open>No qualifying row is skipped\<close>

text \<open>
  A row is the cells of its columns, with its identifier under the row id column.  Rows of the row
  group lie in its range and are covered by the statistics of its columns.
\<close>

definition group_row :: "scan_group \<Rightarrow> (nat \<Rightarrow> Value option) \<Rightarrow> bool" where
  "group_row rg row \<longleftrightarrow>
    (\<forall>c. c \<noteq> COLUMN_IDENTIFIER_ROW_ID \<longrightarrow> wf_stats (zg_stats rg c) \<and> covers (zg_stats rg c) (row c)) \<and>
    (\<exists>r. row COLUMN_IDENTIFIER_ROW_ID = Some (NumericValue (int r)) \<and> zg_start rg \<le> r \<and> r < zg_start rg + zg_count rg)"

definition stats_of :: "scan_group \<Rightarrow> nat \<Rightarrow> BaseStatistics" where
  "stats_of rg c = (if c = COLUMN_IDENTIFIER_ROW_ID then row_id_stats (zg_start rg) (zg_start rg + zg_count rg)
     else zg_stats rg c)"

lemma filter_result_stats:
  "filter_result rg entry = CheckStatistics (scan_filter entry) (stats_of rg (table_column_index entry))"
  by (simp add: filter_result_def stats_of_def CheckRowIdFilter_def)

lemma row_id_stats_covers:
  "b \<le> r \<Longrightarrow> r \<le> e \<Longrightarrow> covers (row_id_stats b e) (Some (NumericValue (int r)))" "wf_stats (row_id_stats b e)"
  by (simp_all add: row_id_stats_def CreateEmpty_def covers_number_def wf_stats_def GetStatsType_def)

lemma stats_of_covers:
  assumes "group_row rg row"
  shows "wf_stats (stats_of rg c)" "covers (stats_of rg c) (row c)"
  using assms row_id_stats_covers by (auto simp: group_row_def stats_of_def)

text \<open>A filter the statistics prove holds for what execution asks of it.\<close>

lemma CheckStatistics_true_passes:
  assumes "wf_stats s" "covers s x" "executable type f" "CheckStatistics f s = Some FILTER_ALWAYS_TRUE"
  shows "passes_filter f x"
  using assms(3,4)
proof (induction f)
  case (ConstantFilter cmp t c)
  then show ?case using CheckStatistics_true [OF assms(1,2), of "ConstantFilter cmp t c"] by simp
next
  case (ConjunctionOrFilter fs)
  then have "Some FILTER_ALWAYS_TRUE \<in> set (map (\<lambda>f. CheckStatistics f s) fs)"
    by (intro first_not_false_True) auto
  then obtain g where "g \<in> set fs" "CheckStatistics g s = Some FILTER_ALWAYS_TRUE" by auto
  then show ?case using ConjunctionOrFilter by (auto simp: list_all_iff)
next
  case (ConjunctionAndFilter fs)
  then show ?case by (auto simp: list_all_iff dest: all_true_True)
next
  case IsNullFilter
  then show ?case using CheckStatistics_true [OF assms(1,2), of IsNullFilter] by simp
next
  case IsNotNullFilter
  then show ?case using CheckStatistics_true [OF assms(1,2), of IsNotNullFilter] by simp
qed auto

subsection \<open>The flags\<close>

definition active :: "ScanFilterInfo \<Rightarrow> ScanFilter list" where
  "active info = filter (\<lambda>f. \<not> always_true f) (filter_list info)"

definition wf_info :: "ScanFilterInfo \<Rightarrow> bool" where
  "wf_info info \<longleftrightarrow> always_true_filters info = length (filter always_true (filter_list info))"

lemma wf_CheckAllFilters: "wf_info (CheckAllFilters info)"
  by (simp add: wf_info_def CheckAllFilters_def o_def)

lemma filter_update_length:
  "i < length xs \<Longrightarrow> \<not> P (xs ! i) \<Longrightarrow> P y \<Longrightarrow> length (filter P (xs[i := y])) = Suc (length (filter P xs))"
proof (induction xs arbitrary: i)
  case (Cons x xs)
  then show ?case by (cases i) auto
qed simp

lemma wf_SetFilterAlwaysTrue:
  "wf_info info \<Longrightarrow> i < length (filter_list info) \<Longrightarrow> wf_info (SetFilterAlwaysTrue i info)"
  by (simp add: wf_info_def SetFilterAlwaysTrue_def Let_def filter_update_length)

text \<open>The filters stay the same but for their flags.\<close>

definition filter_key :: "ScanFilter \<Rightarrow> nat \<times> nat \<times> TableFilter" where
  "filter_key f = (scan_column_index f, table_column_index f, scan_filter f)"

lemma filter_key_always_true [simp]: "filter_key (f\<lparr>always_true := b\<rparr>) = filter_key f"
  by (simp add: filter_key_def)

definition same_filters :: "ScanFilterInfo \<Rightarrow> ScanFilterInfo \<Rightarrow> bool" where
  "same_filters a b \<longleftrightarrow> map filter_key (filter_list a) = map filter_key (filter_list b)"

lemma same_filters_nth:
  assumes "same_filters a b" "i < length (filter_list a)"
  shows "scan_filter (filter_list b ! i) = scan_filter (filter_list a ! i)"
    and "table_column_index (filter_list b ! i) = table_column_index (filter_list a ! i)"
    and "length (filter_list b) = length (filter_list a)"
proof -
  have len: "length (filter_list b) = length (filter_list a)"
    using arg_cong [of _ _ length, OF assms(1) [unfolded same_filters_def]] by simp
  then show "length (filter_list b) = length (filter_list a)" .
  have "filter_key (filter_list b ! i) = filter_key (filter_list a ! i)"
    using arg_cong [of _ _ "\<lambda>xs. xs ! i", OF assms(1) [unfolded same_filters_def]] assms(2) len by simp
  then show "scan_filter (filter_list b ! i) = scan_filter (filter_list a ! i)"
    and "table_column_index (filter_list b ! i) = table_column_index (filter_list a ! i)"
    by (simp_all add: filter_key_def)
qed

lemma map_update_id: "i < length xs \<Longrightarrow> (map f xs)[i := f (xs ! i)] = map f xs"
  by (metis list_update_id map_update)

lemma same_filters_SetFilterAlwaysTrue:
  assumes "same_filters a b"
  shows "same_filters a (SetFilterAlwaysTrue i b)"
proof -
  have "map filter_key ((filter_list b)[i := (filter_list b ! i)\<lparr>always_true := True\<rparr>]) =
      map filter_key (filter_list b)"
    by (cases "i < length (filter_list b)") (simp_all add: map_update map_update_id list_update_beyond)
  then show ?thesis using assms by (simp add: same_filters_def SetFilterAlwaysTrue_def Let_def)
qed

lemma flags_SetFilterAlwaysTrue:
  assumes "\<And>f. f \<in> set (filter_list info) \<Longrightarrow> always_true f \<Longrightarrow> P (scan_filter f) (table_column_index f)"
    and "i < length (filter_list info)" "P (scan_filter (filter_list info ! i)) (table_column_index (filter_list info ! i))"
    and "f \<in> set (filter_list (SetFilterAlwaysTrue i info))" "always_true f"
  shows "P (scan_filter f) (table_column_index f)"
  using assms by (auto simp: SetFilterAlwaysTrue_def Let_def split: if_splits dest!: set_update_subset_insert [THEN subsetD])

lemma length_SetFilterAlwaysTrue [simp]: "length (filter_list (SetFilterAlwaysTrue i info)) = length (filter_list info)"
  by (simp add: SetFilterAlwaysTrue_def Let_def)

lemma check_zonemap_loop_sound:
  assumes row: "group_row rg row"
    and exec: "\<And>f. f \<in> set (filter_list info0) \<Longrightarrow> executable (types (table_column_index f)) (scan_filter f)"
    and dist: "\<And>f. f \<in> set (filter_list info0) \<Longrightarrow>
        has_null (stats_of rg (table_column_index f)) \<longrightarrow> distinct_free (scan_filter f)"
    and "check_zonemap_loop rg is info = Some (scan, info')" "\<forall>i \<in> set is. i < length (filter_list info)"
    and "wf_info info" "same_filters info0 info"
    and "\<And>f. f \<in> set (filter_list info) \<Longrightarrow> always_true f \<Longrightarrow> passes_filter (scan_filter f) (row (table_column_index f))"
  shows "wf_info info' \<and> same_filters info0 info' \<and>
    (\<forall>f \<in> set (filter_list info'). always_true f \<longrightarrow> passes_filter (scan_filter f) (row (table_column_index f))) \<and>
    (\<not> scan \<longrightarrow> (\<exists>f \<in> set (filter_list info0). \<not> satisfies (scan_filter f) (row (table_column_index f))))"
  using assms(4-8)
proof (induction "is" arbitrary: info)
  case (Cons i "is")
  define entry where "entry = filter_list info ! i"
  have i: "i < length (filter_list info)" using Cons.prems(2) by simp
  have same: "length (filter_list info) = length (filter_list info0)"
    using same_filters_nth(3) [OF Cons.prems(4)] Cons.prems(4) by (metis length_map same_filters_def)
  define e0 where "e0 = filter_list info0 ! i"
  have e0: "e0 \<in> set (filter_list info0)" "scan_filter e0 = scan_filter entry"
    "table_column_index e0 = table_column_index entry"
    using same_filters_nth [OF Cons.prems(4), of i] i same by (simp_all add: e0_def entry_def)
  define r where "r = CheckStatistics (scan_filter entry) (stats_of rg (table_column_index entry))"
  note covers = stats_of_covers [OF row, of "table_column_index entry"]
  have flag: ?case if "check_zonemap_loop rg is (SetFilterAlwaysTrue i info) = Some (scan, info')"
    and p: "passes_filter (scan_filter entry) (row (table_column_index entry))"
  proof (rule Cons.IH)
    show "check_zonemap_loop rg is (SetFilterAlwaysTrue i info) = Some (scan, info')" by fact
    show "\<forall>i' \<in> set is. i' < length (filter_list (SetFilterAlwaysTrue i info))" using Cons.prems(2) by simp
    show "wf_info (SetFilterAlwaysTrue i info)" using Cons.prems(3) i by (rule wf_SetFilterAlwaysTrue)
    show "same_filters info0 (SetFilterAlwaysTrue i info)"
      using Cons.prems(4) by (rule same_filters_SetFilterAlwaysTrue)
    show "passes_filter (scan_filter f) (row (table_column_index f))"
      if "f \<in> set (filter_list (SetFilterAlwaysTrue i info))" "always_true f" for f
      using flags_SetFilterAlwaysTrue [of info "\<lambda>g c. passes_filter g (row c)" i f] Cons.prems(5) i p that
      by (simp add: entry_def)
  qed
  from Cons.prems(1) obtain res where res: "r = Some res"
    by (auto simp: Let_def filter_result_stats r_def entry_def split: option.splits)
  consider (false) "res = FILTER_ALWAYS_FALSE" | (opt) "res \<noteq> FILTER_ALWAYS_FALSE" "is_optional (scan_filter entry)"
    | (true) "res = FILTER_ALWAYS_TRUE" "\<not> is_optional (scan_filter entry)"
    | (none) "res \<noteq> FILTER_ALWAYS_FALSE" "res \<noteq> FILTER_ALWAYS_TRUE" "\<not> is_optional (scan_filter entry)"
    by (cases res) auto
  then show ?case
  proof cases
    case false
    then have "\<not> satisfies (scan_filter entry) (row (table_column_index entry))"
      using CheckStatistics_false [OF covers] dist [OF e0(1)] res e0 by (simp add: r_def)
    moreover have "scan = False" "info' = info"
      using Cons.prems(1) res false by (simp_all add: Let_def filter_result_stats r_def entry_def)
    ultimately show ?thesis using Cons.prems(3-5) e0 by (metis (full_types))
  next
    case opt
    then show ?thesis
      using Cons.prems(1) res
      by (intro flag) (auto simp: Let_def filter_result_stats r_def entry_def elim: is_optional.elims)
  next
    case true
    then show ?thesis
      using Cons.prems(1) res CheckStatistics_true_passes [OF covers] exec [OF e0(1)] e0
      by (intro flag) (auto simp: Let_def filter_result_stats r_def entry_def)
  next
    case none
    then show ?thesis
      using Cons.prems res
      by (intro Cons.IH [of info]) (auto simp: Let_def filter_result_stats r_def entry_def)
  qed
qed auto

text \<open>
  The check of a row group: skipping it loses no row, and a row passes the filters that are left to
  execute exactly when it passes all of them.
\<close>

lemma rg_CheckZonemap_sound:
  assumes row: "group_row rg row"
    and exec: "\<And>f. f \<in> set (filter_list info) \<Longrightarrow> executable (types (table_column_index f)) (scan_filter f)"
    and dist: "\<And>f. f \<in> set (filter_list info) \<Longrightarrow>
        has_null (stats_of rg (table_column_index f)) \<longrightarrow> distinct_free (scan_filter f)"
    and r: "rg_CheckZonemap rg info = Some (scan, info')"
  shows "\<not> scan \<Longrightarrow> \<exists>f \<in> set (filter_list info). \<not> satisfies (scan_filter f) (row (table_column_index f))"
    and "(\<forall>f \<in> set (active info'). passes_filter (scan_filter f) (row (table_column_index f))) \<longleftrightarrow>
      (\<forall>f \<in> set (filter_list info). passes_filter (scan_filter f) (row (table_column_index f)))"
    and "HasFilters info' \<longleftrightarrow> active info' \<noteq> []"
proof -
  have s: "same_filters info (CheckAllFilters info)"
    by (simp add: same_filters_def CheckAllFilters_def o_def)
  note loop = check_zonemap_loop_sound [OF row, where types = types and info = "CheckAllFilters info" and ?info0.0 = info]
  have "wf_info info' \<and> same_filters info info' \<and>
    (\<forall>f \<in> set (filter_list info'). always_true f \<longrightarrow> passes_filter (scan_filter f) (row (table_column_index f))) \<and>
    (\<not> scan \<longrightarrow> (\<exists>f \<in> set (filter_list info). \<not> satisfies (scan_filter f) (row (table_column_index f))))"
  proof (rule loop)
    show "check_zonemap_loop rg [0..<length (filter_list (CheckAllFilters info))] (CheckAllFilters info) = Some (scan, info')"
      using r by (simp add: rg_CheckZonemap_def Let_def)
    show "passes_filter (scan_filter f) (row (table_column_index f))"
      if "f \<in> set (filter_list (CheckAllFilters info))" "always_true f" for f
      using that by (auto simp: CheckAllFilters_def)
  qed (use exec dist s wf_CheckAllFilters in auto)
  note res = this
  then show "\<not> scan \<Longrightarrow> \<exists>f \<in> set (filter_list info). \<not> satisfies (scan_filter f) (row (table_column_index f))"
    by blast
  have same: "(\<lambda>f. (scan_filter f, table_column_index f)) ` set (filter_list info') =
      (\<lambda>f. (scan_filter f, table_column_index f)) ` set (filter_list info)"
    (is "?k ` _ = _")
  proof -
    have "?k ` set (filter_list x) = (\<lambda>(a, b, c). (c, b)) ` set (map filter_key (filter_list x))" for x by (force simp: filter_key_def)
    moreover have "map filter_key (filter_list info) = map filter_key (filter_list info')"
      using res by (simp add: same_filters_def)
    ultimately show ?thesis by metis
  qed
  show "(\<forall>f \<in> set (active info'). passes_filter (scan_filter f) (row (table_column_index f))) \<longleftrightarrow>
      (\<forall>f \<in> set (filter_list info). passes_filter (scan_filter f) (row (table_column_index f)))"
  proof -
    have "(\<forall>f \<in> set (active info'). passes_filter (scan_filter f) (row (table_column_index f))) \<longleftrightarrow>
        (\<forall>f \<in> set (filter_list info'). passes_filter (scan_filter f) (row (table_column_index f)))"
      using res by (auto simp: active_def)
    also have "\<dots> \<longleftrightarrow> (\<forall>(g, c) \<in> (\<lambda>f. (scan_filter f, table_column_index f)) ` set (filter_list info'). passes_filter g (row c))"
      by auto
    also have "\<dots> \<longleftrightarrow> (\<forall>f \<in> set (filter_list info). passes_filter (scan_filter f) (row (table_column_index f)))"
      unfolding same by auto
    finally show ?thesis .
  qed
  show "HasFilters info' \<longleftrightarrow> active info' \<noteq> []"
    using res sum_length_filter_compl [of always_true "filter_list info'"]
    by (simp add: HasFilters_def active_def wf_info_def flip: length_greater_0_conv) linarith
qed


section \<open>The position of a scan\<close>

text \<open>
  The scan of a column stands at a row of its first segment or at the row after it; its segments follow
  each other without gaps, up to the row \<open>end_row\<close> where the column ends.
\<close>

abbreviation segment_end :: "segment_info \<Rightarrow> nat" where
  "segment_end s \<equiv> si_start s + si_count s"

definition scan_at :: "nat \<Rightarrow> nat \<Rightarrow> column_scan \<Rightarrow> bool" where
  "scan_at end_row row st \<longleftrightarrow>
    (cs_segments st \<noteq> [] \<longrightarrow> cs_row_index st = row \<and> si_start (hd (cs_segments st)) \<le> row \<and>
      row \<le> segment_end (hd (cs_segments st)) \<and> end_row \<le> segment_end (last (cs_segments st))) \<and>
    (row < end_row \<longrightarrow> cs_segments st \<noteq> [])"

fun gapless :: "segment_info list \<Rightarrow> bool" where
  "gapless (s # t # ss) = (si_start t = si_start s + si_count s \<and> gapless (t # ss))"
| "gapless _ = True"

lemma gapless_tl: "gapless (s # ss) \<Longrightarrow> gapless ss"
  by (cases ss) auto

text \<open>
  What the statistics of a column's segments and updates know of its cells: a cell that is not null is
  covered by the statistics of its segment, or by those of the updates.
\<close>

definition segment_ok :: "LogicalType \<Rightarrow> BaseStatistics option \<Rightarrow> (nat \<Rightarrow> Value option) \<Rightarrow> segment_info \<Rightarrow> bool" where
  "segment_ok ty us cells s \<longleftrightarrow> wf_stats (si_stats s) \<and> stats_type (si_stats s) = ty \<and>
    (\<forall>u. us = Some u \<longrightarrow> wf_stats u \<and> stats_type u = ty) \<and>
    (\<forall>r. si_start s \<le> r \<and> r < si_start s + si_count s \<longrightarrow>
      cells r = None \<or> covers (si_stats s) (cells r) \<or> (\<exists>u. us = Some u \<and> covers u (cells r)))"

definition column_scan_ok ::
  "nat \<Rightarrow> LogicalType \<Rightarrow> BaseStatistics option \<Rightarrow> (nat \<Rightarrow> Value option) \<Rightarrow> nat \<Rightarrow> column_scan \<Rightarrow> bool" where
  "column_scan_ok end_row ty us cells row st \<longleftrightarrow>
    scan_at end_row row st \<and> gapless (cs_segments st) \<and> (\<forall>s \<in> set (cs_segments st). segment_ok ty us cells s)"

lemma drop_segments_suffix:
  assumes "gapless segs" "segs \<noteq> [] \<longrightarrow> si_start (hd segs) \<le> row"
  shows "gapless (drop_segments row segs) \<and> set (drop_segments row segs) \<subseteq> set segs \<and>
    (drop_segments row segs \<noteq> [] \<longrightarrow> si_start (hd (drop_segments row segs)) \<le> row \<and>
      row < segment_end (hd (drop_segments row segs)) \<and> last (drop_segments row segs) = last segs) \<and>
    (segs \<noteq> [] \<and> row < segment_end (last segs) \<longrightarrow> drop_segments row segs \<noteq> [])"
  using assms
proof (induction row segs rule: drop_segments.induct)
  case (2 row s ss)
  show ?case
  proof (cases "segment_end s \<le> row")
    case True
    have "gapless ss" "ss \<noteq> [] \<longrightarrow> si_start (hd ss) \<le> row"
      using "2.prems" True gapless_tl [of s ss] by (auto elim: gapless.elims)
    then show ?thesis using "2.IH" [OF True] True by auto
  qed (use "2.prems" in auto)
qed simp

lemma NextInternal_ok:
  assumes "column_scan_ok end_row ty us cells row st"
  shows "column_scan_ok end_row ty us cells (row + n) (NextInternal n st)"
proof (cases "cs_segments st = []")
  case False
  then have "si_start (hd (cs_segments st)) \<le> row + n" "gapless (cs_segments st)" "cs_row_index st = row"
    "end_row \<le> segment_end (last (cs_segments st))"
    using assms by (auto simp: column_scan_ok_def scan_at_def)
  then show ?thesis
    using assms False drop_segments_suffix [of "cs_segments st" "row + n"]
    by (auto simp: column_scan_ok_def scan_at_def NextInternal_def Let_def)
qed (use assms in \<open>auto simp: column_scan_ok_def scan_at_def NextInternal_def\<close>)

text \<open>The scan of a row group stands at the first row of its current vector in every column.\<close>

definition group_scan_ok ::
  "scan_group \<Rightarrow> (nat \<Rightarrow> LogicalType) \<Rightarrow> (nat \<Rightarrow> BaseStatistics option) \<Rightarrow> (nat \<Rightarrow> nat \<Rightarrow> Value option) \<Rightarrow> group_scan \<Rightarrow> bool" where
  "group_scan_ok rg types us cells state \<longleftrightarrow>
    length (column_scans state) = length (gs_column_ids state) \<and>
    (\<forall>i < length (gs_column_ids state). let c = gs_column_ids state ! i; st = column_scans state ! i
       in if c = COLUMN_IDENTIFIER_ROW_ID then cs_segments st = []
          else column_scan_ok (zg_start rg + zg_count rg) (types c) (us c) (cells c) (zg_start rg + gs_vector_index state * STANDARD_VECTOR_SIZE) st)"

lemma NextVector_ok:
  assumes "group_scan_ok rg types us cells state"
  shows "group_scan_ok rg types us cells (NextVector state)"
proof -
  have "column_scan_ok end_row ty us' cells' (zg_start rg + (gs_vector_index state + 1) * STANDARD_VECTOR_SIZE)
      (NextInternal STANDARD_VECTOR_SIZE st)"
    if "column_scan_ok end_row ty us' cells' (zg_start rg + gs_vector_index state * STANDARD_VECTOR_SIZE) st" for ty us' cells' st end_row
    using NextInternal_ok [OF that, of STANDARD_VECTOR_SIZE] by (simp add: algebra_simps)
  then show ?thesis using assms by (auto simp: group_scan_ok_def NextVector_def Let_def)
qed

lemma NextVectors_ok: "group_scan_ok rg types us cells state \<Longrightarrow> group_scan_ok rg types us cells ((NextVector ^^ n) state)"
  by (induction n) (auto intro: NextVector_ok)

lemma NextVectors_simps [simp]:
  "gs_vector_index ((NextVector ^^ n) state) = gs_vector_index state + n"
  "gs_max_row ((NextVector ^^ n) state) = gs_max_row state"
  "max_row_group_row ((NextVector ^^ n) state) = max_row_group_row state"
  "gs_column_ids ((NextVector ^^ n) state) = gs_column_ids state"
  by (induction n) (auto simp: NextVector_def)

lemma column_scan_ok_checked [simp]:
  "column_scan_ok end_row ty us cells row (st\<lparr>segment_checked := b\<rparr>) = column_scan_ok end_row ty us cells row st"
  by (simp add: column_scan_ok_def scan_at_def)

lemma ColumnData_CheckZonemap_state:
  "ColumnData_CheckZonemap us tf st = Some (r, st') \<Longrightarrow> st' = st \<or> st' = st\<lparr>segment_checked := True\<rparr>"
  by (auto simp: ColumnData_CheckZonemap_def Let_def split: if_splits list.splits option.splits)

lemma column_scan_update_ok:
  assumes "group_scan_ok rg types us cells state" "st' = column_scans state ! i \<or> st' = (column_scans state ! i)\<lparr>segment_checked := b\<rparr>"
  shows "group_scan_ok rg types us cells (state\<lparr>column_scans := (column_scans state)[i := st']\<rparr>)"
  using assms unfolding group_scan_ok_def Let_def
  by (cases "i < length (column_scans state)") (auto simp: nth_list_update list_update_beyond)

text \<open>A segment that is pruned for a column holds no cell that satisfies the filter.\<close>

lemma ColumnData_CheckZonemap_false:
  assumes "ColumnData_CheckZonemap us tf st = Some (FILTER_ALWAYS_FALSE, st')"
    and "cs_segments st = s # ss" "segment_ok ty us cells s" "distinct_free tf" "\<not> satisfies tf None"
    and "si_start s \<le> r" "r < si_start s + si_count s"
  shows "\<not> satisfies tf (cells r)"
proof -
  have seg: "CheckStatistics tf (si_stats s) = Some FILTER_ALWAYS_FALSE"
    and upd: "\<And>u. us = Some u \<Longrightarrow> CheckStatistics tf u = Some FILTER_ALWAYS_FALSE"
    using assms(1,2)
    by (auto simp: ColumnData_CheckZonemap_def Let_def split: if_splits option.splits)
  have "cells r = None \<or> covers (si_stats s) (cells r) \<or> (\<exists>u. us = Some u \<and> covers u (cells r))"
    using assms(3,6,7) unfolding segment_ok_def by presburger
  then consider "cells r = None" | "covers (si_stats s) (cells r)" | u where "us = Some u" "covers u (cells r)"
    by (elim disjE exE conjE) (iprover+)
  then show ?thesis
  proof cases
    case 2
    then show ?thesis using assms(3,4) CheckStatistics_false [OF _ _ _ seg] by (auto simp: segment_ok_def)
  next
    case 3
    then show ?thesis using assms(3,4) CheckStatistics_false [OF _ _ _ upd [OF 3(1)]] by (auto simp: segment_ok_def)
  qed (use assms(5) in simp)
qed

definition segment_filter :: "nat list \<Rightarrow> ScanFilter \<Rightarrow> bool" where
  "segment_filter column_ids entry \<longleftrightarrow> scan_column_index entry < length column_ids \<and>
    table_column_index entry = column_ids ! scan_column_index entry \<and>
    distinct_free (scan_filter entry) \<and> \<not> satisfies (scan_filter entry) None"

lemma check_segments_loop_sound:
  assumes "check_segments_loop rg us entries state = Some (scan, state')"
    and "group_scan_ok rg types us cells state"
    and "\<forall>e \<in> set entries. \<not> always_true e \<longrightarrow> segment_filter (gs_column_ids state) e"
  shows "group_scan_ok rg types us cells state' \<and> gs_vector_index state \<le> gs_vector_index state' \<and>
    gs_max_row state' = gs_max_row state \<and> gs_column_ids state' = gs_column_ids state \<and>
    max_row_group_row state' = max_row_group_row state \<and>
    (scan \<longrightarrow> gs_vector_index state' = gs_vector_index state) \<and>
    (\<not> scan \<longrightarrow> zg_start rg + gs_vector_index state * STANDARD_VECTOR_SIZE < gs_max_row state \<longrightarrow>
      gs_vector_index state < gs_vector_index state') \<and>
    (\<not> scan \<longrightarrow> (\<exists>e \<in> set entries. \<not> always_true e \<and> (\<forall>r. zg_start rg + gs_vector_index state * STANDARD_VECTOR_SIZE \<le> r \<and>
      r < zg_start rg + gs_vector_index state' * STANDARD_VECTOR_SIZE \<longrightarrow>
      \<not> satisfies (scan_filter e) (cells (table_column_index e) r))))"
  using assms
proof (induction entries arbitrary: state)
  case (Cons entry entries)
  show ?case
  proof (cases "always_true entry")
    case True
    then show ?thesis using Cons by auto
  next
    case False
    define i where "i = scan_column_index entry"
    define c where "c = table_column_index entry"
    have entry: "i < length (gs_column_ids state)" "c = gs_column_ids state ! i"
      "distinct_free (scan_filter entry)" "\<not> satisfies (scan_filter entry) None"
      using Cons.prems(3) False by (auto simp: segment_filter_def i_def c_def)
    define checked where "checked = (if c = COLUMN_IDENTIFIER_ROW_ID
        then map_option (\<lambda>r. (r, state)) (CheckRowIdFilter (scan_filter entry) (zg_start rg) (zg_start rg + zg_count rg))
        else map_option (\<lambda>(r, st). (r, state\<lparr>column_scans := (column_scans state)[i := st]\<rparr>))
          (ColumnData_CheckZonemap (us c) (scan_filter entry) (column_scans state ! i)))"
    have step: "check_segments_loop rg us (entry # entries) state =
       (case checked of None \<Rightarrow> None
        | Some (prune_result, state1) \<Rightarrow>
           if prune_result \<noteq> FILTER_ALWAYS_FALSE then check_segments_loop rg us entries state1
           else case cs_segments (column_scans state1 ! i) of
             [] \<Rightarrow> check_segments_loop rg us entries state1
           | current # _ \<Rightarrow>
              let end_row = si_start current + si_count current;
                  target_row = (if end_row \<ge> gs_max_row state1 then gs_max_row state1 else end_row);
                  target_vector_index = (target_row - zg_start rg) div STANDARD_VECTOR_SIZE
              in if gs_vector_index state1 = target_vector_index then Some (True, state1)
                 else Some (False, (NextVector ^^ (target_vector_index - gs_vector_index state1)) state1))"
      using False by (simp only: check_segments_loop.simps if_False Let_def checked_def i_def c_def)
    from Cons.prems(1) obtain res state1 where ch: "checked = Some (res, state1)"
      unfolding step by (auto split: option.splits)
    have state1: "group_scan_ok rg types us cells state1" "gs_vector_index state1 = gs_vector_index state"
      "gs_max_row state1 = gs_max_row state" "max_row_group_row state1 = max_row_group_row state"
      "gs_column_ids state1 = gs_column_ids state"
      using ch Cons.prems(2) column_scan_update_ok [OF Cons.prems(2), of _ i True]
      by (auto simp: checked_def split: if_splits dest!: ColumnData_CheckZonemap_state)
    have continue: ?thesis if "check_segments_loop rg us entries state1 = Some (scan, state')"
      using Cons.IH [OF that state1(1)] Cons.prems(3) by (auto simp: state1)
    show ?thesis
    proof (cases "res = FILTER_ALWAYS_FALSE \<and> cs_segments (column_scans state1 ! i) \<noteq> []")
      case True
      then obtain s ss where segs: "cs_segments (column_scans state1 ! i) = s # ss"
        by (cases "cs_segments (column_scans state1 ! i)") auto
      define target where "target = ((if si_start s + si_count s \<ge> gs_max_row state1 then gs_max_row state1
          else si_start s + si_count s) - zg_start rg) div STANDARD_VECTOR_SIZE"
      have res: "Some (scan, state') = (if gs_vector_index state1 = target then Some (True, state1)
          else Some (False, (NextVector ^^ (target - gs_vector_index state1)) state1))"
        using Cons.prems(1) [unfolded step ch] True
        by (simp only: option.case prod.case segs list.case Let_def target_def) simp
      have "c \<noteq> COLUMN_IDENTIFIER_ROW_ID"
        using Cons.prems(2) entry(1,2) ch segs by (auto simp: checked_def group_scan_ok_def Let_def split: if_splits)
      then have data: "\<exists>st'. ColumnData_CheckZonemap (us c) (scan_filter entry) (column_scans state ! i) = Some (FILTER_ALWAYS_FALSE, st')"
        and col: "column_scan_ok (zg_start rg + zg_count rg) (types c) (us c) (cells c) (zg_start rg + gs_vector_index state1 * STANDARD_VECTOR_SIZE) (column_scans state1 ! i)"
        using ch True state1(1) entry(1,2) state1(4) by (auto simp: checked_def group_scan_ok_def Let_def)
      have segs0: "cs_segments (column_scans state ! i) = s # ss"
        using ch segs \<open>c \<noteq> COLUMN_IDENTIFIER_ROW_ID\<close> entry(1) Cons.prems(2)
        by (auto simp: checked_def group_scan_ok_def Let_def dest!: ColumnData_CheckZonemap_state)
      have seg: "segment_ok (types c) (us c) (cells c) s" "si_start s \<le> zg_start rg + gs_vector_index state * STANDARD_VECTOR_SIZE"
        "zg_start rg + gs_vector_index state * STANDARD_VECTOR_SIZE \<le> segment_end s"
        using col segs by (auto simp: column_scan_ok_def scan_at_def state1(2))
      have "target * STANDARD_VECTOR_SIZE \<le> si_start s + si_count s - zg_start rg"
        unfolding target_def by (rule order_trans [OF div_times_less_eq_dividend]) auto
      then have "r < si_start s + si_count s"
        if "zg_start rg \<le> r" "r < zg_start rg + target * STANDARD_VECTOR_SIZE" for r
        using that by arith
      then have "\<not> satisfies (scan_filter entry) (cells c r)"
        if "zg_start rg + gs_vector_index state * STANDARD_VECTOR_SIZE \<le> r" "r < zg_start rg + target * STANDARD_VECTOR_SIZE" for r
        using data ColumnData_CheckZonemap_false [OF _ segs0 seg(1) entry(3,4), of _ r] seg(2) that by auto
      then have skip: "\<forall>r. zg_start rg + gs_vector_index state * STANDARD_VECTOR_SIZE \<le> r \<and>
          r < zg_start rg + target * STANDARD_VECTOR_SIZE \<longrightarrow> \<not> satisfies (scan_filter entry) (cells (table_column_index entry) r)"
        by (simp add: c_def)
      show ?thesis
      proof (cases "gs_vector_index state1 = target")
        case True
        then show ?thesis using res state1 by simp
      next
        case neq: False
        define state2 where "state2 = (NextVector ^^ (target - gs_vector_index state1)) state1"
        have "gs_vector_index state < target" if "zg_start rg + gs_vector_index state * STANDARD_VECTOR_SIZE < gs_max_row state"
        proof -
          have "gs_vector_index state * STANDARD_VECTOR_SIZE \<le>
              (if si_start s + si_count s \<ge> gs_max_row state1 then gs_max_row state1 else si_start s + si_count s) - zg_start rg"
            using that seg(3) by (auto simp: state1)
          then have "gs_vector_index state \<le> target"
            unfolding target_def by (simp add: less_eq_div_iff_mult_less_eq STANDARD_VECTOR_SIZE_def)
          then show ?thesis using neq by (simp add: state1)
        qed
        moreover have "scan = False" "state' = state2" using res neq by (simp_all add: state2_def)
        moreover have "group_scan_ok rg types us cells state2"
          unfolding state2_def by (rule NextVectors_ok) (rule state1(1))
        moreover have "gs_vector_index state2 = max target (gs_vector_index state)"
          "gs_max_row state2 = gs_max_row state" "max_row_group_row state2 = max_row_group_row state"
          "gs_column_ids state2 = gs_column_ids state"
          by (auto simp: state2_def state1)
        ultimately show ?thesis
          using skip False by (auto simp: max_def intro!: bexI [of _ entry])
      qed
    next
      case False
      then show ?thesis
        using Cons.prems(1) [unfolded step ch] by (intro continue) (auto split: list.splits if_splits)
    qed
  qed
qed simp


text \<open>
  \<open>RowGroup::InitializeScan\<close>: the row group is checked, and the scans of its columns set to their first
  segment.  Whether their segment has been checked is left as the last row group's scan left it.
\<close>

definition ColumnData_InitializeScan :: "segment_info list \<Rightarrow> column_scan \<Rightarrow> column_scan" where
  "ColumnData_InitializeScan segs st = st\<lparr>cs_segments := segs,
     cs_row_index := (case segs of [] \<Rightarrow> 0 | s # _ \<Rightarrow> si_start s)\<rparr>"

definition rg_InitializeScan ::
  "scan_group \<Rightarrow> (nat \<Rightarrow> segment_info list) \<Rightarrow> ScanFilterInfo \<Rightarrow> group_scan \<Rightarrow> (bool \<times> ScanFilterInfo \<times> group_scan) option" where
  "rg_InitializeScan rg segs filters state =
    (case rg_CheckZonemap rg filters of
       None \<Rightarrow> None
     | Some (scan, filters1) \<Rightarrow>
        if \<not> scan then Some (False, filters1, state)
        else let state1 = state\<lparr>gs_vector_index := 0, max_row_group_row :=
                   (if zg_start rg > gs_max_row state then 0 else min (zg_count rg) (gs_max_row state - zg_start rg))\<rparr>
             in if max_row_group_row state1 = 0 then Some (False, filters1, state1)
                else Some (True, filters1, state1\<lparr>column_scans := map (\<lambda>(c, st).
                    if c = COLUMN_IDENTIFIER_ROW_ID then st\<lparr>cs_segments := []\<rparr>
                    else ColumnData_InitializeScan (segs c) st) (zip (gs_column_ids state1) (column_scans state1))\<rparr>))"

text \<open>Filters of the right types raise no exception.\<close>

lemma ColumnData_CheckZonemap_total:
  assumes "column_scan_ok end_row ty us cells row st" "wt_filter ty tf"
  shows "ColumnData_CheckZonemap us tf st \<noteq> None"
proof (cases "cs_segments st")
  case (Cons s ss)
  then have "segment_ok ty us cells s" using assms(1) by (simp add: column_scan_ok_def)
  then have "CheckStatistics tf (si_stats s) \<noteq> None" "us = Some u \<Longrightarrow> CheckStatistics tf u \<noteq> None" for u
    using assms(2) by (auto simp: segment_ok_def CheckStatistics_total simp del: not_None_eq)
  then show ?thesis
    using Cons by (cases us) (auto simp: ColumnData_CheckZonemap_def Let_def)
qed (simp add: ColumnData_CheckZonemap_def)

lemma CheckRowIdFilter_total: "wt_filter LT_BIGINT tf \<Longrightarrow> CheckRowIdFilter tf b e \<noteq> None"
  using CheckStatistics_total [of "row_id_stats b e" tf] row_id_stats_covers(2) [of b e]
  by (simp add: CheckRowIdFilter_def row_id_stats_def CreateEmpty_def)

lemma check_segments_loop_total:
  assumes "group_scan_ok rg types us cells state" "types COLUMN_IDENTIFIER_ROW_ID = LT_BIGINT"
    and "\<forall>e \<in> set entries. \<not> always_true e \<longrightarrow>
      segment_filter (gs_column_ids state) e \<and> wt_filter (types (table_column_index e)) (scan_filter e)"
  shows "check_segments_loop rg us entries state \<noteq> None"
  using assms
proof (induction entries arbitrary: state)
  case (Cons entry entries)
  show ?case
  proof (cases "always_true entry")
    case True
    then show ?thesis using Cons by auto
  next
    case False
    define i where "i = scan_column_index entry"
    define c where "c = table_column_index entry"
    have entry: "i < length (gs_column_ids state)" "c = gs_column_ids state ! i" "wt_filter (types c) (scan_filter entry)"
      using Cons.prems(3) False by (auto simp: segment_filter_def i_def c_def)
    have IH: "check_segments_loop rg us entries (state\<lparr>column_scans := (column_scans state)[i := st']\<rparr>) \<noteq> None"
      if "st' = column_scans state ! i \<or> st' = (column_scans state ! i)\<lparr>segment_checked := True\<rparr>" for st'
      using Cons.IH [OF column_scan_update_ok [OF Cons.prems(1) that] Cons.prems(2)] Cons.prems(3) by simp
    have IH0: "check_segments_loop rg us entries state \<noteq> None" using Cons by simp
    show ?thesis
    proof (cases "c = COLUMN_IDENTIFIER_ROW_ID")
      case True
      then obtain r where "CheckRowIdFilter (scan_filter entry) (zg_start rg) (zg_start rg + zg_count rg) = Some r"
        "cs_segments (column_scans state ! i) = []"
        using CheckRowIdFilter_total [of "scan_filter entry"] entry Cons.prems(1,2) by (fastforce simp: group_scan_ok_def Let_def)
      then show ?thesis using IH0 False True by (auto simp: Let_def i_def c_def)
    next
      case data_column: False
      then have "column_scan_ok (zg_start rg + zg_count rg) (types c) (us c) (cells c)
          (zg_start rg + gs_vector_index state * STANDARD_VECTOR_SIZE) (column_scans state ! i)"
        using Cons.prems(1) entry(1,2) by (simp add: group_scan_ok_def Let_def)
      from ColumnData_CheckZonemap_total [OF this entry(3)] obtain r st'
        where "ColumnData_CheckZonemap (us c) (scan_filter entry) (column_scans state ! i) = Some (r, st')" by fastforce
      then show ?thesis
        using IH [of st'] ColumnData_CheckZonemap_state False data_column
        by (fastforce simp: Let_def i_def c_def split: list.split)
    qed
  qed
qed simp

lemma nth_SetFilterAlwaysTrue:
  "j < length (filter_list info) \<Longrightarrow> filter_list (SetFilterAlwaysTrue i info) ! j =
    (if i = j then (filter_list info ! j)\<lparr>always_true := True\<rparr> else filter_list info ! j)"
  by (auto simp: SetFilterAlwaysTrue_def Let_def nth_list_update)

lemma filter_result_flag [simp]: "filter_result rg (f\<lparr>always_true := b\<rparr>) = filter_result rg f"
  by (simp add: filter_result_def)

lemma check_zonemap_loop_total:
  assumes "\<forall>j < length (filter_list info). filter_result rg (filter_list info ! j) \<noteq> None"
    and "\<forall>i \<in> set is. i < length (filter_list info)"
  shows "check_zonemap_loop rg is info \<noteq> None"
  using assms
proof (induction "is" arbitrary: info)
  case (Cons i "is")
  obtain r where r: "filter_result rg (filter_list info ! i) = Some r" using Cons.prems by auto
  have "check_zonemap_loop rg is (SetFilterAlwaysTrue i info) \<noteq> None" "check_zonemap_loop rg is info \<noteq> None"
    by (rule Cons.IH; use Cons.prems in \<open>auto simp: nth_SetFilterAlwaysTrue\<close>)+
  then show ?case using r by (auto simp: Let_def)
qed simp

text \<open>Flags are only set; after the check every optional filter has its flag set.\<close>

lemma check_zonemap_loop_flags:
  assumes "check_zonemap_loop rg is info = Some (True, info')" "\<forall>i \<in> set is. i < length (filter_list info)"
  shows "length (filter_list info') = length (filter_list info) \<and>
    (\<forall>j < length (filter_list info). (always_true (filter_list info ! j) \<longrightarrow> always_true (filter_list info' ! j)) \<and>
      filter_key (filter_list info' ! j) = filter_key (filter_list info ! j)) \<and>
    (\<forall>i \<in> set is. is_optional (scan_filter (filter_list info ! i)) \<longrightarrow> always_true (filter_list info' ! i))"
  using assms
proof (induction "is" arbitrary: info)
  case (Cons i "is")
  from Cons.prems(1) consider
      (set) "check_zonemap_loop rg is (SetFilterAlwaysTrue i info) = Some (True, info')"
    | (keep) "\<not> is_optional (scan_filter (filter_list info ! i))" "check_zonemap_loop rg is info = Some (True, info')"
    by (auto simp: Let_def split: option.splits if_splits)
  then show ?case
  proof cases
    case set
    then show ?thesis
      using Cons.IH [OF set] Cons.prems(2) by (simp add: nth_SetFilterAlwaysTrue)
  next
    case keep
    then show ?thesis using Cons.IH [OF keep(2)] Cons.prems(2) by auto
  qed
qed simp

text \<open>The flags of the columns agree with those of the filters.\<close>

definition column_flags_ok :: "ScanFilterInfo \<Rightarrow> bool" where
  "column_flags_ok info \<longleftrightarrow> distinct (map scan_column_index (filter_list info)) \<and>
    {i. i < length (base_column_has_filter info) \<and> base_column_has_filter info ! i} =
      scan_column_index ` set (filter_list info) \<and>
    {i. ColumnHasFilters i info} = scan_column_index ` set (active info)"

lemma ScanFilterInfo_Initialize_flags:
  assumes "distinct (map fst filters)" "\<forall>i \<in> fst ` set filters. i < length column_ids"
  shows "column_flags_ok (ScanFilterInfo_Initialize filters column_ids)"
proof -
  define info where "info = ScanFilterInfo_Initialize filters column_ids"
  have "map scan_column_index (filter_list info) = map fst filters"
    by (simp add: info_def ScanFilterInfo_Initialize_def Let_def split_def o_def)
  moreover from arg_cong [OF this, of set] have "scan_column_index ` set (filter_list info) = fst ` set filters"
    by (simp only: set_map)
  moreover have "{i. i < length (base_column_has_filter info) \<and> base_column_has_filter info ! i} = fst ` set filters"
  proof (intro set_eqI)
    show "i \<in> {i. i < length (base_column_has_filter info) \<and> base_column_has_filter info ! i} \<longleftrightarrow> i \<in> fst ` set filters" for i
      using assms(2)
      by (cases "i < length column_ids") (auto simp: info_def ScanFilterInfo_Initialize_def Let_def map_of_eq_None_iff simp del: not_None_eq)
  qed
  moreover have "{i. ColumnHasFilters i info} =
      {i. i < length (base_column_has_filter info) \<and> base_column_has_filter info ! i}"
    by (auto simp: info_def ScanFilterInfo_Initialize_def Let_def ColumnHasFilters_def)
  moreover have "active info = filter_list info"
    by (simp add: active_def info_def ScanFilterInfo_Initialize_def Let_def split_def filter_id_conv)
  ultimately show ?thesis
    using assms(1) by (simp add: column_flags_ok_def flip: info_def)
qed

lemma CheckAllFilters_flags:
  assumes "column_flags_ok info"
  shows "column_flags_ok (CheckAllFilters info)"
proof -
  have "active (CheckAllFilters info) = filter_list (CheckAllFilters info)"
    by (simp add: active_def CheckAllFilters_def filter_id_conv)
  moreover have "scan_column_index ` set (filter_list (CheckAllFilters info)) = scan_column_index ` set (filter_list info)"
    "map scan_column_index (filter_list (CheckAllFilters info)) = map scan_column_index (filter_list info)"
    by (simp_all add: CheckAllFilters_def o_def image_image)
  moreover have "{i. ColumnHasFilters i (CheckAllFilters info)} =
      {i. i < length (base_column_has_filter info) \<and> base_column_has_filter info ! i}"
    by (auto simp: ColumnHasFilters_def CheckAllFilters_def)
  ultimately show ?thesis
    using assms by (simp add: column_flags_ok_def) (simp add: CheckAllFilters_def)
qed

lemma filter_update_removes:
  "distinct xs \<Longrightarrow> i < length xs \<Longrightarrow> \<not> P y \<Longrightarrow> set (filter P (xs[i := y])) = set (filter P xs) - {xs ! i}"
proof (induction xs arbitrary: i)
  case (Cons x xs)
  then show ?case by (cases i) auto
qed simp

lemma distinct_mapD: "distinct (map f xs) \<Longrightarrow> distinct xs"
  by (simp add: distinct_map)

lemma SetFilterAlwaysTrue_flags:
  assumes "column_flags_ok info" "i < length (filter_list info)"
  shows "column_flags_ok (SetFilterAlwaysTrue i info)"
proof (cases "always_true (filter_list info ! i)")
  case False
  define f where "f = filter_list info ! i"
  define info' where "info' = SetFilterAlwaysTrue i info"
  have d: "distinct (map scan_column_index (filter_list info))" using assms(1) by (simp add: column_flags_ok_def)
  have m: "map scan_column_index (filter_list info') = map scan_column_index (filter_list info)"
    using assms(2) by (auto simp: info'_def nth_SetFilterAlwaysTrue intro!: nth_equalityI)
  then have image: "scan_column_index ` set (filter_list info') = scan_column_index ` set (filter_list info)"
    by (metis set_map)
  have base: "base_column_has_filter info' = base_column_has_filter info"
    and has: "column_has_filter info' = (column_has_filter info)[scan_column_index f := False]"
    using False by (simp_all add: info'_def SetFilterAlwaysTrue_def Let_def f_def)
  have act: "set (active info') = set (active info) - {f}"
    using False filter_update_removes [OF distinct_mapD [OF d] assms(2)]
    by (simp add: active_def info'_def SetFilterAlwaysTrue_def Let_def f_def)
  have "inj_on scan_column_index (set (filter_list info))" "f \<in> set (filter_list info)"
    using d assms(2) by (auto simp: distinct_map f_def)
  then have "scan_column_index ` (set (active info) - {f}) = scan_column_index ` set (active info) - {scan_column_index f}"
    by (auto simp: active_def inj_on_def)
  moreover have "{i. ColumnHasFilters i info'} = {i. ColumnHasFilters i info} - {scan_column_index f}"
  proof (intro set_eqI)
    show "x \<in> {i. ColumnHasFilters i info'} \<longleftrightarrow> x \<in> {i. ColumnHasFilters i info} - {scan_column_index f}" for x
      by (cases "x = scan_column_index f") (auto simp: ColumnHasFilters_def has)
  qed
  ultimately show ?thesis
    using assms(1) m image base by (simp add: column_flags_ok_def act flip: info'_def)
qed (use assms in \<open>simp add: SetFilterAlwaysTrue_def\<close>)

lemma check_zonemap_loop_keeps:
  assumes "check_zonemap_loop rg is info = Some (scan, info')" "\<forall>i \<in> set is. i < length (filter_list info)"
    and "column_flags_ok info" "wf_info info"
  shows "column_flags_ok info' \<and> wf_info info'"
  using assms
proof (induction "is" arbitrary: info)
  case (Cons i "is")
  from Cons.prems(1) consider "info' = info"
    | "check_zonemap_loop rg is (SetFilterAlwaysTrue i info) = Some (scan, info')"
    | "check_zonemap_loop rg is info = Some (scan, info')"
    by (auto simp: Let_def split: option.splits if_splits)
  then show ?case
    by cases (use Cons wf_SetFilterAlwaysTrue SetFilterAlwaysTrue_flags in auto)
qed simp

text \<open>What the filters of a scan are after a row group is to be scanned.\<close>

lemma rg_CheckZonemap_keeps:
  assumes "rg_CheckZonemap rg info = Some (True, info')" "column_flags_ok info"
  shows "column_flags_ok info'" "wf_info info'"
    and "map filter_key (filter_list info') = map filter_key (filter_list info)"
    and "\<forall>f \<in> set (filter_list info'). \<not> always_true f \<longrightarrow> \<not> is_optional (scan_filter f)"
proof -
  define info0 where "info0 = CheckAllFilters info"
  have loop: "check_zonemap_loop rg [0..<length (filter_list info0)] info0 = Some (True, info')"
    using assms(1) by (simp add: rg_CheckZonemap_def Let_def info0_def)
  have "column_flags_ok info' \<and> wf_info info'"
    by (rule check_zonemap_loop_keeps [OF loop])
      (use assms(2) CheckAllFilters_flags wf_CheckAllFilters in \<open>auto simp: info0_def\<close>)
  then show "column_flags_ok info'" "wf_info info'" by auto
  have flags: "length (filter_list info') = length (filter_list info0)"
    "\<And>j. j < length (filter_list info0) \<Longrightarrow> filter_key (filter_list info' ! j) = filter_key (filter_list info0 ! j)"
    "\<And>j. j < length (filter_list info0) \<Longrightarrow> is_optional (scan_filter (filter_list info0 ! j)) \<Longrightarrow> always_true (filter_list info' ! j)"
    using check_zonemap_loop_flags [OF loop] by auto
  have "map filter_key (filter_list info') = map filter_key (filter_list info0)"
    using flags(1,2) by (auto intro!: nth_equalityI)
  then show "map filter_key (filter_list info') = map filter_key (filter_list info)"
    by (simp add: info0_def CheckAllFilters_def o_def)
  show "\<forall>f \<in> set (filter_list info'). \<not> always_true f \<longrightarrow> \<not> is_optional (scan_filter f)"
    using flags by (auto simp: in_set_conv_nth filter_key_def)
qed

text \<open>The segments of a column, from the start of the row group to its end.\<close>

definition column_segments_ok ::
  "scan_group \<Rightarrow> LogicalType \<Rightarrow> BaseStatistics option \<Rightarrow> (nat \<Rightarrow> Value option) \<Rightarrow> segment_info list \<Rightarrow> bool" where
  "column_segments_ok rg ty us cells segs \<longleftrightarrow> gapless segs \<and> (\<forall>s \<in> set segs. segment_ok ty us cells s) \<and>
    (segs \<noteq> [] \<longrightarrow> si_start (hd segs) = zg_start rg \<and> zg_start rg + zg_count rg \<le> segment_end (last segs)) \<and>
    (0 < zg_count rg \<longrightarrow> segs \<noteq> [])"

lemma ColumnData_InitializeScan_ok:
  "column_segments_ok rg ty us cells segs \<Longrightarrow>
    column_scan_ok (zg_start rg + zg_count rg) ty us cells (zg_start rg) (ColumnData_InitializeScan segs st)"
  by (cases segs) (auto simp: column_segments_ok_def column_scan_ok_def scan_at_def ColumnData_InitializeScan_def)

lemma rg_InitializeScan_ok:
  assumes "rg_InitializeScan rg segs filters state = Some (True, filters', state')"
    and "length (column_scans state) = length (gs_column_ids state)"
    and "\<And>c. c \<in> set (gs_column_ids state) \<Longrightarrow> c \<noteq> COLUMN_IDENTIFIER_ROW_ID \<Longrightarrow> column_segments_ok rg (types c) (us c) (cells c) (segs c)"
  shows "group_scan_ok rg types us cells state'" "gs_vector_index state' = 0" "gs_max_row state' = gs_max_row state"
    "gs_column_ids state' = gs_column_ids state"
    "max_row_group_row state' = min (zg_count rg) (gs_max_row state - zg_start rg)"
    "rg_CheckZonemap rg filters = Some (True, filters')"
  using assms
  by (auto simp: rg_InitializeScan_def Let_def group_scan_ok_def intro!: ColumnData_InitializeScan_ok
      split: option.splits prod.splits if_splits)

section \<open>Pruning is sound\<close>


lemma example_results:
  "CheckStatistics (ConstantFilter COMPARE_GREATERTHAN LT_INTEGER (NumericValue 9)) (example_stats True 3 12) = Some NO_PRUNING_POSSIBLE"
  "CheckStatistics (ConstantFilter COMPARE_LESSTHAN LT_INTEGER (NumericValue 20)) (example_stats True 3 12) = Some NO_PRUNING_POSSIBLE"
  "CheckStatistics (OptionalFilter IsNullFilter) (example_stats True 3 12) = Some NO_PRUNING_POSSIBLE"
  "CheckStatistics (ConstantFilter COMPARE_GREATERTHAN LT_INTEGER (NumericValue 9)) (example_stats False 3 8) = Some FILTER_ALWAYS_FALSE"
  by code_simp+

lemma example_covers:
  "covers (example_stats True lo hi) None" "lo \<le> i \<Longrightarrow> i \<le> hi \<Longrightarrow> covers (example_stats b lo hi) (Some (NumericValue i))"
  by (simp_all add: example_stats_def covers_number_def)

definition example_zone_group :: scan_group where
  "example_zone_group = \<lparr>zg_start = 0, zg_count = 6144, zg_stats = (\<lambda>_. example_stats True 3 12)\<rparr>"

definition example_filters :: ScanFilterInfo where
  "example_filters = ScanFilterInfo_Initialize
     [(0, ConstantFilter COMPARE_GREATERTHAN LT_INTEGER (NumericValue 9)), (1, ConstantFilter COMPARE_LESSTHAN LT_INTEGER (NumericValue 20)),
      (2, OptionalFilter IsNullFilter)] [4, 5, 6]"

definition example_group_row :: "nat \<Rightarrow> Value option" where
  "example_group_row c = (if c = COLUMN_IDENTIFIER_ROW_ID then Some (NumericValue (int 7))
     else if c = 6 then None else Some (NumericValue 5))"



definition example_scan :: group_scan where
  "example_scan = \<lparr>gs_vector_index = 0, gs_max_row = 6144, max_row_group_row = 6144,
     column_scans = [\<lparr>cs_row_index = 0, cs_segments =
         [\<lparr>si_start = 0, si_count = 4096, si_stats = example_stats False 3 8\<rparr>,
          \<lparr>si_start = 4096, si_count = 2048, si_stats = example_stats False 3 12\<rparr>], segment_checked = False\<rparr>],
     gs_column_ids = [4]\<rparr>"

definition example_filter_info :: ScanFilterInfo where
  "example_filter_info = ScanFilterInfo_Initialize [(0, ConstantFilter COMPARE_GREATERTHAN LT_INTEGER (NumericValue 9))] [4]"

definition example_cells :: "nat \<Rightarrow> nat \<Rightarrow> Value option" where
  "example_cells c r = (if r < 5000 then Some (NumericValue 5) else None)"


end
