(* ===== verification/TableScan.thy ===== *)
theory TableScan
  imports ZoneMaps RowGroups
begin

text \<open>
  The scan of a row group, \<open>RowGroup::TemplatedScan<TABLE_SCAN_REGULAR>\<close> and the column scans below it
  (\<open>storage/table/row_group.cpp\<close>, \<open>column_data.cpp\<close>): for each vector the segments' statistics, the
  versions of the rows and the table filters, in this order.  What a column holds is a parameter: the
  vector in unified format that scanning a vector of the column gives the reader, with its updates and
  validity merged in.
\<close>

section \<open>Scanning a column\<close>

text \<open>
  \<open>ColumnData::ScanVector\<close> moves the scan of a column over the rows it reads, into the next segments; at
  the end of a segment it stays there.  A scan without a current segment reads through a null pointer.
\<close>

fun scan_vector_loop :: "nat \<Rightarrow> nat \<Rightarrow> bool \<Rightarrow> segment_info list \<Rightarrow> nat \<times> nat \<times> bool \<times> segment_info list" where
  "scan_vector_loop remaining row checked [] = (remaining, row, checked, [])"
| "scan_vector_loop remaining row checked (current # segs) =
    (if remaining = 0 then (remaining, row, checked, current # segs)
     else let scan_count = min remaining (si_start current + si_count current - row);
              row' = row + scan_count;
              remaining' = remaining - scan_count
          in if remaining' > 0 \<and> segs \<noteq> [] then scan_vector_loop remaining' row' False segs
             else (remaining', row', checked, current # segs))"

definition ScanVector :: "nat \<Rightarrow> column_scan \<Rightarrow> (nat \<times> column_scan) option" where
  "ScanVector n st =
    (if cs_segments st = [] then None
     else case scan_vector_loop n (cs_row_index st) (segment_checked st) (cs_segments st) of
       (remaining, row, checked, segs) \<Rightarrow>
         Some (n - remaining, st\<lparr>cs_row_index := row, cs_segments := segs, segment_checked := checked\<rparr>))"

definition GetVectorCount :: "nat \<Rightarrow> nat \<Rightarrow> nat" where
  "GetVectorCount cnt vector_index = min STANDARD_VECTOR_SIZE (cnt - vector_index * STANDARD_VECTOR_SIZE)"

text \<open>\<open>ColumnData::Filter\<close>: scan the vector, then reduce the selection to the rows that pass.\<close>

definition ColumnData_Filter ::
  "nat \<Rightarrow> UnifiedVectorFormat \<Rightarrow> nat \<Rightarrow> column_scan \<Rightarrow> nat list \<Rightarrow> TableFilter \<Rightarrow> (column_scan \<times> nat list) option" where
  "ColumnData_Filter cnt vdata vector_index st sel tf =
    (case ScanVector (GetVectorCount cnt vector_index) st of
       None \<Rightarrow> None
     | Some (scan_count, st') \<Rightarrow>
        (case FilterSelection tf vdata scan_count sel of
           None \<Rightarrow> None
         | Some (_, sel') \<Rightarrow> Some (st', sel')))"

section \<open>Scanning a vector of a row group\<close>

record scan_source =
  ss_group :: scan_group
  ss_updates :: "nat \<Rightarrow> BaseStatistics option"
  ss_vectors :: "nat \<Rightarrow> nat \<Rightarrow> UnifiedVectorFormat"

definition row_id_vector :: "nat \<Rightarrow> UnifiedVectorFormat" where
  "row_id_vector first = \<lparr>vec_type = LT_BIGINT, vec_sel = [0..<STANDARD_VECTOR_SIZE],
     vec_data = map (\<lambda>i. NumericValue (int (first + i))) [0..<STANDARD_VECTOR_SIZE], vec_validity = None\<rparr>"

text \<open>
  The table filters over one vector, in the order of the adaptive filter: the approved rows and the
  vectors read so far, by their place in the scan.
\<close>

fun filter_vector_loop ::
  "scan_source \<Rightarrow> nat \<Rightarrow> ScanFilter list \<Rightarrow> group_scan \<Rightarrow> nat list \<Rightarrow> (nat \<Rightarrow> UnifiedVectorFormat option) \<Rightarrow>
    (group_scan \<times> nat list \<times> (nat \<Rightarrow> UnifiedVectorFormat option)) option" where
  "filter_vector_loop src max_count [] state sel data = Some (state, sel, data)"
| "filter_vector_loop src max_count (f # fs) state sel data =
    (if always_true f then filter_vector_loop src max_count fs state sel data
     else let scan_idx = scan_column_index f; column_idx = table_column_index f; vi = gs_vector_index state;
              first = zg_start (ss_group src) + vi * STANDARD_VECTOR_SIZE
          in if column_idx = COLUMN_IDENTIFIER_ROW_ID then
               (case CheckRowIdFilter (scan_filter f) first (first + max_count) of
                  None \<Rightarrow> None
                | Some prune_result \<Rightarrow>
                   if prune_result = FILTER_ALWAYS_FALSE then filter_vector_loop src max_count fs state [] data
                   else let vdata = row_id_vector first; data' = data(scan_idx := Some vdata)
                     in if prune_result = FILTER_ALWAYS_TRUE then filter_vector_loop src max_count fs state sel data'
                        else case FilterSelection (scan_filter f) vdata (length sel) sel of
                            None \<Rightarrow> None
                          | Some (_, sel') \<Rightarrow> filter_vector_loop src max_count fs state sel' data')
             else let vdata = ss_vectors src column_idx vi
               in (case ColumnData_Filter (zg_count (ss_group src)) vdata vi (column_scans state ! scan_idx) sel (scan_filter f) of
                     None \<Rightarrow> None
                   | Some (st, sel') \<Rightarrow>
                      filter_vector_loop src max_count fs (state\<lparr>column_scans := (column_scans state)[scan_idx := st]\<rparr>)
                        sel' (data(scan_idx := Some vdata))))"

text \<open>
  The other columns: read for the approved rows, or skipped when there are none.  A result column is its
  cells.
\<close>

fun scan_columns ::
  "scan_source \<Rightarrow> (nat \<Rightarrow> bool) \<Rightarrow> nat \<Rightarrow> (nat \<times> column_scan) list \<Rightarrow> nat \<Rightarrow> column_scan list option" where
  "scan_columns src filtered vi [] i = Some []"
| "scan_columns src filtered vi ((c, st) # cols) i =
    (case (if c = COLUMN_IDENTIFIER_ROW_ID \<or> filtered i then Some st
           else map_option snd (ScanVector (GetVectorCount (zg_count (ss_group src)) vi) st)) of
       None \<Rightarrow> None
     | Some st' \<Rightarrow> map_option (\<lambda>sts. st' # sts) (scan_columns src filtered vi cols (Suc i)))"

definition skip_columns :: "(nat \<Rightarrow> bool) \<Rightarrow> group_scan \<Rightarrow> group_scan" where
  "skip_columns filtered state = state\<lparr>column_scans := map (\<lambda>(i, c, st).
      if c = COLUMN_IDENTIFIER_ROW_ID \<or> filtered i then st else NextInternal STANDARD_VECTOR_SIZE st)
    (enumerate 0 (zip (gs_column_ids state) (column_scans state)))\<rparr>"

definition result_column ::
  "scan_source \<Rightarrow> (nat \<Rightarrow> bool) \<Rightarrow> (nat \<Rightarrow> UnifiedVectorFormat option) \<Rightarrow> nat \<Rightarrow> nat list \<Rightarrow> nat \<Rightarrow> nat \<Rightarrow> Value option list" where
  "result_column src filtered data vi sel i c =
    (if filtered i then (case data i of Some vdata \<Rightarrow> map (vector_cell vdata) sel | None \<Rightarrow> [])
     else if c = COLUMN_IDENTIFIER_ROW_ID
       then map (\<lambda>idx. Some (NumericValue (int (zg_start (ss_group src) + vi * STANDARD_VECTOR_SIZE + idx)))) sel
     else map (vector_cell (ss_vectors src c vi)) sel)"

text \<open>The rows of a chunk are kept beside its columns, by their place in the row group.\<close>

record scan_chunk =
  sc_rows :: "nat list"
  sc_columns :: "Value option list list"

text \<open>
  One pass of the loop: \<open>Inl\<close> goes on with the next vector, \<open>Inr\<close> ends the call with a chunk.  The
  filters are run in the order \<open>permutation\<close> of the adaptive filter.
\<close>

definition scan_vector_step ::
  "scan_source \<Rightarrow> transaction_data \<Rightarrow> ScanFilterInfo \<Rightarrow> nat list \<Rightarrow> sel_vector \<Rightarrow> row_group \<times> group_scan \<Rightarrow>
    ((row_group \<times> group_scan) + (row_group \<times> group_scan \<times> scan_chunk)) option" where
  "scan_vector_step src t filters permutation valid_sel gs =
    (case gs of (g, state) \<Rightarrow>
      let current_row = gs_vector_index state * STANDARD_VECTOR_SIZE
      in if current_row \<ge> max_row_group_row state then Some (Inr (g, state, \<lparr>sc_rows = [], sc_columns = []\<rparr>))
         else case CheckZonemapSegments (ss_group src) (ss_updates src) filters state of
           None \<Rightarrow> None
         | Some (False, state1) \<Rightarrow> Some (Inl (g, state1))
         | Some (True, state1) \<Rightarrow>
            let max_count = min STANDARD_VECTOR_SIZE (max_row_group_row state - current_row);
                vi = gs_vector_index state1
            in case rg_GetSelVector t vi valid_sel max_count g of
                 Inl e \<Rightarrow> None
               | Inr (g1, cnt, sel) \<Rightarrow>
                  if cnt = 0 then Some (Inl (g1, NextVector state1))
                  else let has_filters = HasFilters filters;
                           sel0 = selected max_count (cnt, sel);
                           filtered = (\<lambda>i. has_filters \<and> ColumnHasFilters i filters)
                    in case (if has_filters then filter_vector_loop src max_count
                               (map (\<lambda>i. filter_list filters ! i) permutation) state1 sel0 (\<lambda>_. None)
                             else Some (state1, sel0, \<lambda>_. None)) of
                         None \<Rightarrow> None
                       | Some (state2, sel2, data) \<Rightarrow>
                          if sel2 = [] then
                            Some (Inl (g1, (skip_columns filtered state2)\<lparr>gs_vector_index := vi + 1\<rparr>))
                          else case scan_columns src filtered vi (zip (gs_column_ids state2) (column_scans state2)) 0 of
                              None \<Rightarrow> None
                            | Some sts \<Rightarrow>
                               Some (Inr (g1, state2\<lparr>column_scans := sts, gs_vector_index := vi + 1\<rparr>,
                                 \<lparr>sc_rows = map (\<lambda>idx. vi * STANDARD_VECTOR_SIZE + idx) sel2,
                                  sc_columns = map (\<lambda>(i, c). result_column src filtered data vi sel2 i c)
                                    (enumerate 0 (gs_column_ids state2))\<rparr>)))"

text \<open>
  The call, \<open>TemplatedScan\<close>, and the calls that scan the whole row group, until a chunk is empty.  An
  exception is \<open>None\<close>, and so is running out of fuel.
\<close>

fun TemplatedScan ::
  "nat \<Rightarrow> scan_source \<Rightarrow> transaction_data \<Rightarrow> ScanFilterInfo \<Rightarrow> (nat \<Rightarrow> nat list) \<Rightarrow> (nat \<Rightarrow> sel_vector) \<Rightarrow> row_group \<times> group_scan \<Rightarrow>
    (row_group \<times> group_scan \<times> scan_chunk) option" where
  "TemplatedScan 0 src t filters perms sels gs = None"
| "TemplatedScan (Suc fuel) src t filters perms sels gs =
    (case scan_vector_step src t filters (perms (gs_vector_index (snd gs))) (sels (gs_vector_index (snd gs))) gs of
       None \<Rightarrow> None
     | Some (Inl gs') \<Rightarrow> TemplatedScan fuel src t filters perms sels gs'
     | Some (Inr result) \<Rightarrow> Some result)"

fun scan_row_group ::
  "nat \<Rightarrow> scan_source \<Rightarrow> transaction_data \<Rightarrow> ScanFilterInfo \<Rightarrow> (nat \<Rightarrow> nat list) \<Rightarrow> (nat \<Rightarrow> sel_vector) \<Rightarrow> row_group \<times> group_scan \<Rightarrow>
    (row_group \<times> group_scan \<times> scan_chunk list) option" where
  "scan_row_group 0 src t filters perms sels gs = None"
| "scan_row_group (Suc fuel) src t filters perms sels gs =
    (case TemplatedScan (Suc fuel) src t filters perms sels gs of
       None \<Rightarrow> None
     | Some (g, state, chunk) \<Rightarrow>
        if sc_rows chunk = [] then Some (g, state, [])
        else map_option (\<lambda>(g', state', chunks). (g', state', chunk # chunks))
          (scan_row_group fuel src t filters perms sels (g, state)))"


section \<open>A column scan advances by a vector\<close>

lemma scan_vector_loop_ok:
  assumes "gapless segs" "segs \<noteq> []" "si_start (hd segs) \<le> row" "row \<le> segment_end (hd segs)"
    and "row + n \<le> segment_end (last segs)"
  shows "\<exists>checked' segs'. scan_vector_loop n row checked segs = (0, row + n, checked', segs') \<and>
    gapless segs' \<and> segs' \<noteq> [] \<and> set segs' \<subseteq> set segs \<and> last segs' = last segs \<and>
    si_start (hd segs') \<le> row + n \<and> row + n \<le> segment_end (hd segs')"
  using assms
proof (induction segs arbitrary: n row checked)
  case (Cons s ss)
  show ?case
  proof (cases "n \<le> segment_end s - row")
    case True
    then show ?thesis using Cons.prems by (cases "n = 0") (auto simp: min_def)
  next
    case False
    then have ne: "ss \<noteq> []" using Cons.prems by (cases ss) auto
    then obtain u us where ss: "ss = u # us" by (cases ss) auto
    have "si_start u = segment_end s" "gapless ss" using Cons.prems(1) by (auto simp: ss)
    moreover have "scan_vector_loop n row checked (s # ss) = scan_vector_loop (n - (segment_end s - row)) (segment_end s) False ss"
      using False ne Cons.prems(4) by (simp add: Let_def min_def del: scan_vector_loop.simps(2) add: scan_vector_loop.simps(2) [of n row checked s ss])
    moreover have "segment_end s + (n - (segment_end s - row)) = row + n" using False Cons.prems(4) by simp
    ultimately show ?thesis
      using Cons.IH [of "segment_end s" "n - (segment_end s - row)" False] Cons.prems False ne
      by (auto simp: ss simp del: scan_vector_loop.simps)
  qed
qed simp

lemma ScanVector_ok:
  assumes "column_scan_ok end_row ty us cells row st" "row < end_row" "row + n \<le> end_row"
  shows "\<exists>st'. ScanVector n st = Some (n, st') \<and> column_scan_ok end_row ty us cells (row + n) st'"
proof -
  have st: "cs_segments st \<noteq> []" "cs_row_index st = row" "gapless (cs_segments st)"
    "si_start (hd (cs_segments st)) \<le> row" "row \<le> segment_end (hd (cs_segments st))"
    "end_row \<le> segment_end (last (cs_segments st))" "\<forall>s \<in> set (cs_segments st). segment_ok ty us cells s"
    using assms(1,2) by (auto simp: column_scan_ok_def scan_at_def)
  then obtain checked' segs' where l: "scan_vector_loop n row (segment_checked st) (cs_segments st) = (0, row + n, checked', segs')"
    "gapless segs'" "segs' \<noteq> []" "set segs' \<subseteq> set (cs_segments st)" "last segs' = last (cs_segments st)"
    "si_start (hd segs') \<le> row + n" "row + n \<le> segment_end (hd segs')"
    using scan_vector_loop_ok [of "cs_segments st" row n] assms(3) by fastforce
  then show ?thesis
    using st by (auto simp: ScanVector_def column_scan_ok_def scan_at_def)
qed

section \<open>The scan of one vector\<close>

text \<open>
  What the scan relies on: the vectors hold the cells the table has for the reader; a filter belongs to
  its column, runs on the column's type, and no two filters share a column; the flags of the columns agree
  with those of the filters.
\<close>

definition source_ok ::
  "scan_source \<Rightarrow> (nat \<Rightarrow> LogicalType) \<Rightarrow> (nat \<Rightarrow> nat \<Rightarrow> Value option) \<Rightarrow> nat list \<Rightarrow> bool" where
  "source_ok src types cells column_ids \<longleftrightarrow>
    (\<forall>r. cells COLUMN_IDENTIFIER_ROW_ID r = Some (NumericValue (int r))) \<and> types COLUMN_IDENTIFIER_ROW_ID = LT_BIGINT \<and>
    (\<forall>c \<in> set column_ids. c \<noteq> COLUMN_IDENTIFIER_ROW_ID \<longrightarrow>
      (\<forall>v. vec_type (ss_vectors src c v) = types c \<and>
        (\<forall>i < STANDARD_VECTOR_SIZE. v * STANDARD_VECTOR_SIZE + i < zg_count (ss_group src) \<longrightarrow>
          vector_cell (ss_vectors src c v) i = cells c (zg_start (ss_group src) + v * STANDARD_VECTOR_SIZE + i))))"

definition scan_filters_ok :: "(nat \<Rightarrow> LogicalType) \<Rightarrow> nat list \<Rightarrow> ScanFilter list \<Rightarrow> bool" where
  "scan_filters_ok types column_ids fs \<longleftrightarrow> distinct (map scan_column_index fs) \<and>
    (\<forall>f \<in> set fs. \<not> always_true f \<longrightarrow>
      segment_filter column_ids f \<and> executable (types (table_column_index f)) (scan_filter f) \<and>
      wt_filter (types (table_column_index f)) (scan_filter f))"

text \<open>
  Half way through a vector the columns in \<open>done\<close> have been read; their scans stand at the next vector, if
  the row group has one.
\<close>

definition mid_scan_ok :: "scan_source \<Rightarrow> (nat \<Rightarrow> LogicalType) \<Rightarrow> (nat \<Rightarrow> nat \<Rightarrow> Value option) \<Rightarrow> nat set \<Rightarrow> group_scan \<Rightarrow> bool" where
  "mid_scan_ok src types cells D state \<longleftrightarrow>
    length (column_scans state) = length (gs_column_ids state) \<and>
    (\<forall>i < length (gs_column_ids state). let c = gs_column_ids state ! i; st = column_scans state ! i; rg = ss_group src;
         row = zg_start rg + gs_vector_index state * STANDARD_VECTOR_SIZE; end_row = zg_start rg + zg_count rg
       in if c = COLUMN_IDENTIFIER_ROW_ID then cs_segments st = []
          else if i \<in> D then row + STANDARD_VECTOR_SIZE < end_row \<longrightarrow>
            column_scan_ok end_row (types c) (ss_updates src c) (cells c) (row + STANDARD_VECTOR_SIZE) st
          else column_scan_ok end_row (types c) (ss_updates src c) (cells c) row st)"

lemma mid_scan_start: "mid_scan_ok src types cells {} state \<longleftrightarrow> group_scan_ok (ss_group src) types (ss_updates src) cells state"
  by (simp add: mid_scan_ok_def group_scan_ok_def Let_def)

lemma ScanVector_mid:
  assumes "mid_scan_ok src types cells D state" "i < length (gs_column_ids state)" "i \<notin> D"
    and "gs_column_ids state ! i \<noteq> COLUMN_IDENTIFIER_ROW_ID"
    and "gs_vector_index state * STANDARD_VECTOR_SIZE < zg_count (ss_group src)"
  shows "\<exists>n st'. ScanVector (GetVectorCount (zg_count (ss_group src)) (gs_vector_index state)) (column_scans state ! i) = Some (n, st')
    \<and> mid_scan_ok src types cells (insert i D) (state\<lparr>column_scans := (column_scans state)[i := st']\<rparr>)"
proof -
  define n where "n = GetVectorCount (zg_count (ss_group src)) (gs_vector_index state)"
  define c where "c = gs_column_ids state ! i"
  define row where "row = zg_start (ss_group src) + gs_vector_index state * STANDARD_VECTOR_SIZE"
  define end_row where "end_row = zg_start (ss_group src) + zg_count (ss_group src)"
  have st: "column_scan_ok end_row (types c) (ss_updates src c) (cells c) row (column_scans state ! i)"
    using assms(1-4) by (simp add: mid_scan_ok_def Let_def row_def end_row_def c_def)
  have n: "row < end_row" "row + n \<le> end_row" "row + STANDARD_VECTOR_SIZE < end_row \<Longrightarrow> n = STANDARD_VECTOR_SIZE"
    using assms(5) by (auto simp: n_def GetVectorCount_def row_def end_row_def min_def)
  from ScanVector_ok [OF st n(1,2)] obtain st' where st': "ScanVector n (column_scans state ! i) = Some (n, st')"
    "column_scan_ok end_row (types c) (ss_updates src c) (cells c) (row + n) st'" by blast
  then have "mid_scan_ok src types cells (insert i D) (state\<lparr>column_scans := (column_scans state)[i := st']\<rparr>)"
    using assms(1,2,4) n(3) unfolding mid_scan_ok_def Let_def row_def [symmetric] end_row_def [symmetric]
    by (auto simp: nth_list_update row_def [symmetric] end_row_def [symmetric] c_def)
  then show ?thesis using st' by (auto simp: n_def)
qed

lemma row_id_vector_cell: "i < STANDARD_VECTOR_SIZE \<Longrightarrow> vector_cell (row_id_vector first) i = Some (NumericValue (int (first + i)))"
  by (simp add: vector_cell_def row_id_vector_def RowIsValid_def Let_def)

lemma FilterSelection_step:
  assumes "executable (vec_type vdata) tf" "distinct sel" "\<And>i. i \<in> set sel \<Longrightarrow> vector_cell vdata i = cell i"
  shows "\<exists>n sel'. FilterSelection tf vdata cnt sel = Some (n, sel') \<and> distinct sel' \<and>
    set sel' = {i \<in> set sel. passes_filter tf (cell i)}"
proof -
  have "{i \<in> set sel. passes_filter tf (vector_cell vdata i)} = {i \<in> set sel. passes_filter tf (cell i)}"
    using assms(3) by auto
  then show ?thesis
    using FilterSelection_selects [OF assms(1,2), of cnt] by (auto simp: selects_def)
qed


lemma prune_cases:
  fixes r :: FilterPropagateResult
  obtains "r = FILTER_ALWAYS_FALSE" | "r = FILTER_ALWAYS_TRUE" | "r \<noteq> FILTER_ALWAYS_FALSE" "r \<noteq> FILTER_ALWAYS_TRUE"
  by blast

lemma row_id_prune:
  assumes "CheckRowIdFilter tf b e = Some r" "b \<le> i" "i < e"
  shows "r = FILTER_ALWAYS_FALSE \<Longrightarrow> \<not> satisfies tf (Some (NumericValue (int i)))"
    and "r = FILTER_ALWAYS_TRUE \<Longrightarrow> executable LT_BIGINT tf \<Longrightarrow> passes_filter tf (Some (NumericValue (int i)))"
  using assms CheckStatistics_false [of "row_id_stats b e" "Some (NumericValue (int i))" tf]
    CheckStatistics_true_passes [where s = "row_id_stats b e" and x = "Some (NumericValue (int i))" and type = LT_BIGINT and f = tf]
    row_id_stats_covers(1) [of b i e] row_id_stats_covers(2) [of b e]
  by (auto simp: CheckRowIdFilter_def row_id_stats_def CreateEmpty_def)

definition act :: "ScanFilter list \<Rightarrow> ScanFilter set" where
  "act fs = {f \<in> set fs. \<not> always_true f}"

lemma act_simps [simp]: "act [] = {}" "act (f # fs) = (if always_true f then act fs else insert f (act fs))"
  by (auto simp: act_def)

text \<open>The vectors read so far hold the cells of the columns in \<open>D\<close> for the approved rows.\<close>

definition data_ok ::
  "(nat \<Rightarrow> nat \<Rightarrow> Value option) \<Rightarrow> nat list \<Rightarrow> nat \<Rightarrow> nat \<Rightarrow> nat set \<Rightarrow> nat list \<Rightarrow> (nat \<Rightarrow> UnifiedVectorFormat option) \<Rightarrow> bool" where
  "data_ok cells column_ids first m D sel data \<longleftrightarrow> (sel \<noteq> [] \<longrightarrow> (\<forall>i \<in> D. \<exists>vdata. data i = Some vdata \<and>
     (\<forall>idx < m. vector_cell vdata idx = cells (column_ids ! i) (first + idx))))"

definition same_scan :: "group_scan \<Rightarrow> group_scan \<Rightarrow> bool" where
  "same_scan a b \<longleftrightarrow> gs_column_ids b = gs_column_ids a \<and> gs_vector_index b = gs_vector_index a \<and>
    gs_max_row b = gs_max_row a \<and> max_row_group_row b = max_row_group_row a"

lemma filter_vector_loop_ok:
  assumes src: "source_ok src types cells (gs_column_ids state)"
    and first: "first = zg_start (ss_group src) + gs_vector_index state * STANDARD_VECTOR_SIZE"
    and m: "0 < m" "m \<le> STANDARD_VECTOR_SIZE" "gs_vector_index state * STANDARD_VECTOR_SIZE + m \<le> zg_count (ss_group src)"
    and fs: "scan_filters_ok types (gs_column_ids state) fs"
    and mid: "mid_scan_ok src types cells D state" "D \<inter> scan_column_index ` act fs = {}"
    and sel: "distinct sel" "set sel \<subseteq> {..<m}"
    and data: "data_ok cells (gs_column_ids state) first m D sel data"
  shows "\<exists>state' sel' data'. filter_vector_loop src m fs state sel data = Some (state', sel', data') \<and>
    same_scan state state' \<and> mid_scan_ok src types cells (D \<union> scan_column_index ` act fs) state' \<and> distinct sel' \<and>
    {i \<in> set sel. \<forall>f \<in> act fs. satisfies (scan_filter f) (cells (table_column_index f) (first + i))} \<subseteq> set sel' \<and>
    set sel' \<subseteq> {i \<in> set sel. \<forall>f \<in> act fs. passes_filter (scan_filter f) (cells (table_column_index f) (first + i))} \<and>
    data_ok cells (gs_column_ids state) first m (D \<union> scan_column_index ` act fs) sel' data'"
  using assms
proof (induction fs arbitrary: state sel data D)
  case Nil
  then show ?case by (auto simp: same_scan_def)
next
  case (Cons f fs)
  show ?case
  proof (cases "always_true f")
    case True
    then show ?thesis using Cons.IH [OF Cons.prems(1-5) _ Cons.prems(7)] Cons.prems by (auto simp: scan_filters_ok_def)
  next
    case False
    define i where "i = scan_column_index f"
    define c where "c = table_column_index f"
    define vi where "vi = gs_vector_index state"
    have f: "i < length (gs_column_ids state)" "c = gs_column_ids state ! i" "executable (types c) (scan_filter f)"
      "c \<in> set (gs_column_ids state)" "i \<notin> D" "i \<notin> scan_column_index ` act fs"
      using Cons.prems(6,8) False
      by (auto simp: scan_filters_ok_def segment_filter_def i_def c_def act_def)
    have fs': "scan_filters_ok types (gs_column_ids state) fs" using Cons.prems(6) by (auto simp: scan_filters_ok_def)
    have continue: ?thesis
      if step: "filter_vector_loop src m (f # fs) state sel data = filter_vector_loop src m fs state1 sel1 data1"
        and s1: "same_scan state state1" "mid_scan_ok src types cells (insert i D) state1"
        and sel1: "distinct sel1" "{j \<in> set sel. satisfies (scan_filter f) (cells c (first + j))} \<subseteq> set sel1"
          "set sel1 \<subseteq> {j \<in> set sel. passes_filter (scan_filter f) (cells c (first + j))}"
        and data1: "data_ok cells (gs_column_ids state) first m (insert i D) sel1 data1"
      for state1 sel1 data1
    proof -
      note s1' = s1(1) [unfolded same_scan_def]
      have "insert i D \<inter> scan_column_index ` act fs = {}" "set sel1 \<subseteq> {..<m}"
        using Cons.prems(8,10) f(6) False sel1(3) by auto
      with s1(2) sel1(1) data1 fs' Cons.prems(1-5)
      obtain state' sel' data' where IH: "filter_vector_loop src m fs state1 sel1 data1 = Some (state', sel', data')"
        "same_scan state1 state'" "mid_scan_ok src types cells (insert i D \<union> scan_column_index ` act fs) state'" "distinct sel'"
        "{j \<in> set sel1. \<forall>f \<in> act fs. satisfies (scan_filter f) (cells (table_column_index f) (first + j))} \<subseteq> set sel'"
        "set sel' \<subseteq> {j \<in> set sel1. \<forall>f \<in> act fs. passes_filter (scan_filter f) (cells (table_column_index f) (first + j))}"
        "data_ok cells (gs_column_ids state) first m (insert i D \<union> scan_column_index ` act fs) sel' data'"
        using Cons.IH [of state1 "insert i D" sel1 data1] s1' by auto
      have "D \<union> scan_column_index ` act (f # fs) = insert i D \<union> scan_column_index ` act fs"
        using False by (auto simp: i_def)
      moreover have "same_scan state state'" using s1' IH(2) by (simp add: same_scan_def)
      moreover have "{j \<in> set sel. \<forall>g \<in> act (f # fs). satisfies (scan_filter g) (cells (table_column_index g) (first + j))} \<subseteq> set sel'"
        using IH(5) sel1(2) False by (auto simp: c_def)
      moreover have "set sel' \<subseteq> {j \<in> set sel. \<forall>g \<in> act (f # fs). passes_filter (scan_filter g) (cells (table_column_index g) (first + j))}"
        using IH(6) sel1(3) False by (auto simp: c_def)
      ultimately show ?thesis using step IH by auto
    qed
    show ?thesis
    proof (cases "c = COLUMN_IDENTIFIER_ROW_ID")
      case True
      have types: "types c = LT_BIGINT" "cells c j = Some (NumericValue (int j))" for j
        using Cons.prems(1) True by (auto simp: source_ok_def)
      have mid: "mid_scan_ok src types cells (insert i D) state"
        using Cons.prems(7) f(2) True by (simp add: mid_scan_ok_def Let_def)
      have wt: "wt_filter LT_BIGINT (scan_filter f)"
        using Cons.prems(6) False types by (auto simp: scan_filters_ok_def c_def)
      obtain r where r: "CheckRowIdFilter (scan_filter f) first (first + m) = Some r"
        using CheckRowIdFilter_total [OF wt] by blast
      have step: "filter_vector_loop src m (f # fs) state sel data =
          (if r = FILTER_ALWAYS_FALSE then filter_vector_loop src m fs state [] data
           else if r = FILTER_ALWAYS_TRUE then filter_vector_loop src m fs state sel (data(i := Some (row_id_vector first)))
           else case FilterSelection (scan_filter f) (row_id_vector first) (length sel) sel of
             None \<Rightarrow> None
           | Some (_, sel') \<Rightarrow> filter_vector_loop src m fs state sel' (data(i := Some (row_id_vector first))))"
        using False True r unfolding c_def i_def by (simp add: Let_def flip: Cons.prems(2))
      have cell: "vector_cell (row_id_vector first) j = cells c (first + j)" if "j < m" for j
        using that Cons.prems(4) by (simp add: row_id_vector_cell types)
      have data': "data_ok cells (gs_column_ids state) first m (insert i D) sel1 (data(i := Some (row_id_vector first)))"
        if "set sel1 \<subseteq> set sel" for sel1
        using Cons.prems(11) cell f(2,5) that by (auto simp: data_ok_def)
      have prune: "r = FILTER_ALWAYS_FALSE \<Longrightarrow> \<not> satisfies (scan_filter f) (cells c (first + j))"
        "r = FILTER_ALWAYS_TRUE \<Longrightarrow> passes_filter (scan_filter f) (cells c (first + j))" if "j \<in> set sel" for j
        using row_id_prune [OF r, of "first + j"] that Cons.prems(10) f(3) types by auto
      show ?thesis
      proof (rule prune_cases [of r])
        assume FILTER_ALWAYS_FALSE: "r = FILTER_ALWAYS_FALSE"
        show ?thesis
          by (rule continue [of state "[]" data])
            (use FILTER_ALWAYS_FALSE prune mid in \<open>auto simp: step same_scan_def data_ok_def simp del: filter_vector_loop.simps\<close>)
      next
        assume FILTER_ALWAYS_TRUE: "r = FILTER_ALWAYS_TRUE"
        show ?thesis
          by (rule continue [of state sel "data(i := Some (row_id_vector first))"])
            (use FILTER_ALWAYS_TRUE prune mid data' Cons.prems(9) in \<open>auto simp: step same_scan_def simp del: filter_vector_loop.simps\<close>)
      next
        assume NO_PRUNING_POSSIBLE: "r \<noteq> FILTER_ALWAYS_FALSE" "r \<noteq> FILTER_ALWAYS_TRUE"
        obtain k sel' where sel': "FilterSelection (scan_filter f) (row_id_vector first) (length sel) sel = Some (k, sel')"
          "distinct sel'" "set sel' = {j \<in> set sel. passes_filter (scan_filter f) (cells c (first + j))}"
        proof -
          have "executable (vec_type (row_id_vector first)) (scan_filter f)"
            using f(3) types by (simp add: row_id_vector_def)
          moreover have "vector_cell (row_id_vector first) j = cells c (first + j)" if "j \<in> set sel" for j
            using that cell Cons.prems(10) by auto
          ultimately have "\<exists>n sel'. FilterSelection (scan_filter f) (row_id_vector first) (length sel) sel = Some (n, sel') \<and>
              distinct sel' \<and> set sel' = {j \<in> set sel. passes_filter (scan_filter f) (cells c (first + j))}"
            by (rule FilterSelection_step [OF _ Cons.prems(9)])
          then show ?thesis using that by blast
        qed
        show ?thesis
          by (rule continue [of state sel' "data(i := Some (row_id_vector first))"])
            (use NO_PRUNING_POSSIBLE sel' mid data' in \<open>auto simp: step same_scan_def satisfies_passes_filter simp del: filter_vector_loop.simps\<close>)
      qed
    next
      case data_column: False
      define vdata where "vdata = ss_vectors src c vi"
      have cell: "vec_type vdata = types c" "\<And>j. j < m \<Longrightarrow> vector_cell vdata j = cells c (first + j)"
        using Cons.prems(1,2,4,5) f(4) data_column by (auto simp: source_ok_def vdata_def vi_def)
      have vi: "vi * STANDARD_VECTOR_SIZE < zg_count (ss_group src)" using Cons.prems(3,5) by (simp add: vi_def)
      obtain n st' where st': "ScanVector (GetVectorCount (zg_count (ss_group src)) vi) (column_scans state ! i) = Some (n, st')"
        "mid_scan_ok src types cells (insert i D) (state\<lparr>column_scans := (column_scans state)[i := st']\<rparr>)"
        using ScanVector_mid [OF Cons.prems(7) f(1,5)] data_column f(2) vi by (auto simp: vi_def)
      obtain k sel' where sel': "FilterSelection (scan_filter f) vdata n sel = Some (k, sel')" "distinct sel'"
        "set sel' = {j \<in> set sel. passes_filter (scan_filter f) (cells c (first + j))}"
        using FilterSelection_step [of vdata "scan_filter f" sel "\<lambda>j. cells c (first + j)" n] f(3) cell Cons.prems(9,10)
        by auto
      show ?thesis
      proof (rule continue)
        show "filter_vector_loop src m (f # fs) state sel data = filter_vector_loop src m fs
            (state\<lparr>column_scans := (column_scans state)[i := st']\<rparr>) sel' (data(i := Some vdata))"
          using False data_column st'(1) sel'(1) by (simp add: Let_def ColumnData_Filter_def i_def c_def vi_def vdata_def)
        show "data_ok cells (gs_column_ids state) first m (insert i D) sel' (data(i := Some vdata))"
          using Cons.prems(11) cell(2) sel'(3) f(2,5) by (auto simp: data_ok_def)
        show "same_scan state (state\<lparr>column_scans := (column_scans state)[i := st']\<rparr>)"
          by (simp add: same_scan_def)
        show "mid_scan_ok src types cells (insert i D) (state\<lparr>column_scans := (column_scans state)[i := st']\<rparr>)" by fact
        show "distinct sel'" by fact
        show "{j \<in> set sel. satisfies (scan_filter f) (cells c (first + j))} \<subseteq> set sel'"
          unfolding sel'(3) using satisfies_passes_filter by auto
        show "set sel' \<subseteq> {j \<in> set sel. passes_filter (scan_filter f) (cells c (first + j))}"
          unfolding sel'(3) by (rule subset_refl)
      qed
    qed
  qed
qed


lemma mid_scan_column:
  assumes "mid_scan_ok src types cells D state" "i < length (gs_column_ids state)" "i \<notin> D"
    and "gs_column_ids state ! i \<noteq> COLUMN_IDENTIFIER_ROW_ID"
    and "gs_vector_index state * STANDARD_VECTOR_SIZE < zg_count (ss_group src)"
  defines "c \<equiv> gs_column_ids state ! i" and "end_row \<equiv> zg_start (ss_group src) + zg_count (ss_group src)"
    and "row \<equiv> zg_start (ss_group src) + (gs_vector_index state + 1) * STANDARD_VECTOR_SIZE"
  shows "\<exists>n st'. ScanVector (GetVectorCount (zg_count (ss_group src)) (gs_vector_index state)) (column_scans state ! i) = Some (n, st')
      \<and> (row < end_row \<longrightarrow> column_scan_ok end_row (types c) (ss_updates src c) (cells c) row st')"
    and "column_scan_ok end_row (types c) (ss_updates src c) (cells c) row
      (NextInternal STANDARD_VECTOR_SIZE (column_scans state ! i))"
proof -
  have st: "column_scan_ok end_row (types c) (ss_updates src c) (cells c)
      (zg_start (ss_group src) + gs_vector_index state * STANDARD_VECTOR_SIZE) (column_scans state ! i)"
    using assms(1-4) by (simp add: mid_scan_ok_def Let_def end_row_def c_def)
  from NextInternal_ok [OF this, of STANDARD_VECTOR_SIZE]
  show "column_scan_ok end_row (types c) (ss_updates src c) (cells c) row
      (NextInternal STANDARD_VECTOR_SIZE (column_scans state ! i))"
    by (simp add: row_def algebra_simps)
  obtain n st' where st': "ScanVector (GetVectorCount (zg_count (ss_group src)) (gs_vector_index state)) (column_scans state ! i) = Some (n, st')"
    "mid_scan_ok src types cells (insert i D) (state\<lparr>column_scans := (column_scans state)[i := st']\<rparr>)"
    using ScanVector_mid [OF assms(1-5)] by blast
  then have "row < end_row \<longrightarrow> column_scan_ok end_row (types c) (ss_updates src c) (cells c) row st'"
    using assms(1,2,4) by (auto simp: mid_scan_ok_def Let_def row_def end_row_def c_def algebra_simps)
  then show "\<exists>n st'. ScanVector (GetVectorCount (zg_count (ss_group src)) (gs_vector_index state)) (column_scans state ! i) = Some (n, st')
      \<and> (row < end_row \<longrightarrow> column_scan_ok end_row (types c) (ss_updates src c) (cells c) row st')"
    using st'(1) by blast
qed

lemma scan_columns_ok:
  assumes "\<And>j. j < length cols \<Longrightarrow> fst (cols ! j) \<noteq> COLUMN_IDENTIFIER_ROW_ID \<Longrightarrow> \<not> filtered (k + j) \<Longrightarrow>
    \<exists>n st'. ScanVector (GetVectorCount (zg_count (ss_group src)) vi) (snd (cols ! j)) = Some (n, st') \<and> P (k + j) st'"
  shows "\<exists>sts. scan_columns src filtered vi cols k = Some sts \<and> length sts = length cols \<and>
    (\<forall>j < length cols. if fst (cols ! j) = COLUMN_IDENTIFIER_ROW_ID \<or> filtered (k + j) then sts ! j = snd (cols ! j)
       else P (k + j) (sts ! j))"
  using assms
proof (induction cols arbitrary: k)
  case (Cons col cols)
  obtain c st where col: "col = (c, st)" by fastforce
  have "\<exists>n st'. ScanVector (GetVectorCount (zg_count (ss_group src)) vi) (snd (cols ! j)) = Some (n, st') \<and> P (Suc k + j) st'"
    if "j < length cols" "fst (cols ! j) \<noteq> COLUMN_IDENTIFIER_ROW_ID" "\<not> filtered (Suc k + j)" for j
    using Cons.prems [of "Suc j"] that by auto
  from Cons.IH [OF this] obtain sts where sts: "scan_columns src filtered vi cols (Suc k) = Some sts" "length sts = length cols"
    "\<forall>j < length cols. if fst (cols ! j) = COLUMN_IDENTIFIER_ROW_ID \<or> filtered (Suc k + j) then sts ! j = snd (cols ! j)
       else P (Suc k + j) (sts ! j)" by blast
  obtain st' where st': "(if c = COLUMN_IDENTIFIER_ROW_ID \<or> filtered k then Some st
      else map_option snd (ScanVector (GetVectorCount (zg_count (ss_group src)) vi) st)) = Some st'"
    "if c = COLUMN_IDENTIFIER_ROW_ID \<or> filtered k then st' = st else P k st'"
    using Cons.prems [of 0] col by (cases "c = COLUMN_IDENTIFIER_ROW_ID \<or> filtered k") auto
  have "scan_columns src filtered vi (col # cols) k = Some (st' # sts)"
    using st'(1) sts(1) by (simp add: col)
  then show ?case
    using sts(2,3) st'(2) by (auto simp: col nth_Cons split: nat.split)
qed simp

text \<open>All columns have been read or skipped: the scan stands at the next vector.\<close>

lemma scan_columns_next:
  assumes "mid_scan_ok src types cells D state" "\<And>i. i < length (gs_column_ids state) \<Longrightarrow> filtered i \<longleftrightarrow> i \<in> D"
    and "gs_vector_index state * STANDARD_VECTOR_SIZE < zg_count (ss_group src)"
  shows "\<exists>sts. scan_columns src filtered (gs_vector_index state) (zip (gs_column_ids state) (column_scans state)) 0 = Some sts \<and>
    length sts = length (gs_column_ids state) \<and>
    ((gs_vector_index state + 1) * STANDARD_VECTOR_SIZE < zg_count (ss_group src) \<longrightarrow>
      group_scan_ok (ss_group src) types (ss_updates src) cells
        (state\<lparr>column_scans := sts, gs_vector_index := gs_vector_index state + 1\<rparr>))"
proof -
  define row where "row = zg_start (ss_group src) + (gs_vector_index state + 1) * STANDARD_VECTOR_SIZE"
  define end_row where "end_row = zg_start (ss_group src) + zg_count (ss_group src)"
  define P where "P i st \<longleftrightarrow> (row < end_row \<longrightarrow> column_scan_ok end_row (types (gs_column_ids state ! i))
      (ss_updates src (gs_column_ids state ! i)) (cells (gs_column_ids state ! i)) row st)" for i st
  have len: "length (column_scans state) = length (gs_column_ids state)" using assms(1) by (simp add: mid_scan_ok_def)
  have "\<exists>n st'. ScanVector (GetVectorCount (zg_count (ss_group src)) (gs_vector_index state)) (snd (zip (gs_column_ids state) (column_scans state) ! j)) = Some (n, st')
      \<and> P (0 + j) st'"
    if "j < length (zip (gs_column_ids state) (column_scans state))"
      "fst (zip (gs_column_ids state) (column_scans state) ! j) \<noteq> COLUMN_IDENTIFIER_ROW_ID" "\<not> filtered (0 + j)" for j
    using mid_scan_column(1) [OF assms(1) _ _ _ assms(3), of j] assms(2) that len by (simp add: P_def row_def end_row_def)
  from scan_columns_ok [of _ filtered 0 src "gs_vector_index state" P, OF this] obtain sts
    where sts: "scan_columns src filtered (gs_vector_index state) (zip (gs_column_ids state) (column_scans state)) 0 = Some sts"
      "length sts = length (gs_column_ids state)"
      "\<forall>j < length (gs_column_ids state). if gs_column_ids state ! j = COLUMN_IDENTIFIER_ROW_ID \<or> filtered j
         then sts ! j = column_scans state ! j else P j (sts ! j)"
    using len by (auto cong: if_cong)
  have "(gs_vector_index state + 1) * STANDARD_VECTOR_SIZE < zg_count (ss_group src) \<longrightarrow>
      group_scan_ok (ss_group src) types (ss_updates src) cells
        (state\<lparr>column_scans := sts, gs_vector_index := gs_vector_index state + 1\<rparr>)"
    using sts(2,3) assms(1,2) by (fastforce simp: group_scan_ok_def mid_scan_ok_def Let_def P_def row_def end_row_def algebra_simps)
  then show ?thesis using sts(1,2) by blast
qed

lemma skip_columns_next:
  assumes "mid_scan_ok src types cells D state" "\<And>i. i < length (gs_column_ids state) \<Longrightarrow> filtered i \<longleftrightarrow> i \<in> D"
    and "gs_vector_index state * STANDARD_VECTOR_SIZE < zg_count (ss_group src)"
    and "(gs_vector_index state + 1) * STANDARD_VECTOR_SIZE < zg_count (ss_group src)"
  shows "group_scan_ok (ss_group src) types (ss_updates src) cells
        ((skip_columns filtered state)\<lparr>gs_vector_index := gs_vector_index state + 1\<rparr>)"
  using assms mid_scan_column(2) [OF assms(1) _ _ _ assms(3)]
  unfolding group_scan_ok_def mid_scan_ok_def Let_def skip_columns_def
  by (auto simp: nth_enumerate_eq algebra_simps)


section \<open>The scan of a row group\<close>

definition visible_row :: "transaction_data \<Rightarrow> row_version_manager option \<Rightarrow> nat \<Rightarrow> bool" where
  "visible_row t v row = (case v of None \<Rightarrow> True | Some m \<Rightarrow> rvm_Fetch m t row)"

text \<open>The versions are those of the row group: loading them again gives the same.\<close>

definition versions_ok :: "nat \<Rightarrow> row_version_manager option \<Rightarrow> row_group \<Rightarrow> bool" where
  "versions_ok n v g \<longleftrightarrow> (\<exists>g'. GetVersionInfo g = Inr (g', v)) \<and> (\<forall>m. v = Some m \<longrightarrow> rvm_wf n m)"

lemma GetVersionInfo_again: "GetVersionInfo g = Inr (g', v) \<Longrightarrow> GetVersionInfo g' = Inr (g', v)"
  by (auto simp: GetVersionInfo_def HasUnloadedDeletes_def SetVersionInfo_def split: if_splits sum.splits)

lemma rg_GetSelVector_rows:
  assumes "reader t" "versions_ok n v g" "k \<le> vector_rows n vi"
  shows "\<exists>g' cnt sel'. rg_GetSelVector t vi sel k g = Inr (g', cnt, sel') \<and> versions_ok n v g' \<and>
    selected k (cnt, sel') = filter (\<lambda>i. visible_row t v (vi * STANDARD_VECTOR_SIZE + i)) [0..<k]"
proof -
  obtain g' where g': "GetVersionInfo g = Inr (g', v)" "GetVersionInfo g' = Inr (g', v)"
    using assms(2) GetVersionInfo_again by (auto simp: versions_ok_def)
  show ?thesis
  proof (cases v)
    case None
    then show ?thesis
      using g' by (auto simp: rg_GetSelVector_def versions_ok_def selected_def visible_row_def)
  next
    case (Some m)
    then have "rvm_wf n m" using assms(2) by (simp add: versions_ok_def)
    then show ?thesis
      using g' Some rvm_scan_is_fetch [OF assms(1) _ assms(3), of m sel]
      by (auto simp: rg_GetSelVector_def versions_ok_def visible_row_def intro: prod.exhaust [of "rvm_GetSelVector m t vi sel k"])
  qed
qed

text \<open>The rows a scan must return, and those it may return.\<close>

definition wanted :: "(nat \<Rightarrow> bool) \<Rightarrow> (nat \<Rightarrow> nat \<Rightarrow> Value option) \<Rightarrow> nat \<Rightarrow> ScanFilter set \<Rightarrow> nat \<Rightarrow> bool" where
  "wanted vis cells start fs row \<longleftrightarrow> vis row \<and>
    (\<forall>f \<in> fs. satisfies (scan_filter f) (cells (table_column_index f) (start + row)))"

definition allowed :: "(nat \<Rightarrow> bool) \<Rightarrow> (nat \<Rightarrow> nat \<Rightarrow> Value option) \<Rightarrow> nat \<Rightarrow> ScanFilter set \<Rightarrow> nat \<Rightarrow> bool" where
  "allowed vis cells start fs row \<longleftrightarrow> vis row \<and>
    (\<forall>f \<in> fs. passes_filter (scan_filter f) (cells (table_column_index f) (start + row)))"

definition scan_env ::
  "scan_source \<Rightarrow> (nat \<Rightarrow> LogicalType) \<Rightarrow> (nat \<Rightarrow> nat \<Rightarrow> Value option) \<Rightarrow> transaction_data \<Rightarrow> ScanFilterInfo \<Rightarrow> (nat \<Rightarrow> nat list) \<Rightarrow> nat list \<Rightarrow> bool" where
  "scan_env src types cells t filters perms column_ids \<longleftrightarrow>
    reader t \<and> source_ok src types cells column_ids \<and> scan_filters_ok types column_ids (filter_list filters) \<and>
    column_flags_ok filters \<and> wf_info filters \<and>
    (\<forall>v. distinct (perms v) \<and> set (perms v) = {..<length (filter_list filters)})"

definition scan_inv ::
  "scan_source \<Rightarrow> (nat \<Rightarrow> LogicalType) \<Rightarrow> (nat \<Rightarrow> nat \<Rightarrow> Value option) \<Rightarrow> nat list \<Rightarrow> nat \<Rightarrow> nat \<Rightarrow> group_scan \<Rightarrow> bool" where
  "scan_inv src types cells column_ids mr n state \<longleftrightarrow>
    gs_column_ids state = column_ids \<and> max_row_group_row state = n \<and> n \<le> zg_count (ss_group src) \<and>
    length (column_scans state) = length column_ids \<and>
    gs_max_row state = mr \<and> (0 < n \<longrightarrow> zg_start (ss_group src) + n \<le> mr) \<and>
    (gs_vector_index state * STANDARD_VECTOR_SIZE < n \<longrightarrow>
      group_scan_ok (ss_group src) types (ss_updates src) cells state)"

text \<open>The rows of a chunk, from those between two vectors, and its columns.\<close>

definition chunk_ok ::
  "(nat \<Rightarrow> bool) \<Rightarrow> (nat \<Rightarrow> nat \<Rightarrow> Value option) \<Rightarrow> nat \<Rightarrow> ScanFilter set \<Rightarrow> nat list \<Rightarrow> nat \<Rightarrow> nat \<Rightarrow> scan_chunk \<Rightarrow> bool" where
  "chunk_ok vis cells start fs column_ids b e chunk \<longleftrightarrow>
    distinct (sc_rows chunk) \<and> (\<forall>r \<in> set (sc_rows chunk). b \<le> r \<and> r < e \<and> allowed vis cells start fs r) \<and>
    (\<forall>r. b \<le> r \<and> r < e \<and> wanted vis cells start fs r \<longrightarrow> r \<in> set (sc_rows chunk)) \<and>
    (sc_rows chunk \<noteq> [] \<longrightarrow> sc_columns chunk = map (\<lambda>c. map (\<lambda>r. cells c (start + r)) (sc_rows chunk)) column_ids)"

definition none_wanted :: "(nat \<Rightarrow> bool) \<Rightarrow> (nat \<Rightarrow> nat \<Rightarrow> Value option) \<Rightarrow> nat \<Rightarrow> ScanFilter set \<Rightarrow> nat \<Rightarrow> nat \<Rightarrow> bool" where
  "none_wanted vis cells start fs b e \<longleftrightarrow> (\<forall>r. b \<le> r \<and> r < e \<longrightarrow> \<not> wanted vis cells start fs r)"

lemma scan_filters_act:
  assumes "scan_env src types cells t filters perms column_ids"
  shows "act (map (\<lambda>i. filter_list filters ! i) (perms v)) = set (active filters)"
    and "scan_filters_ok types column_ids (map (\<lambda>i. filter_list filters ! i) (perms v))"
    and "(HasFilters filters \<and> ColumnHasFilters i filters) \<longleftrightarrow> i \<in> scan_column_index ` set (active filters)"
    and "HasFilters filters \<longleftrightarrow> active filters \<noteq> []"
proof -
  have perm: "distinct (perms v)" "set (perms v) = {..<length (filter_list filters)}"
    and ok: "scan_filters_ok types column_ids (filter_list filters)" "column_flags_ok filters" "wf_info filters"
    using assms by (auto simp: scan_env_def)
  have set: "set (map (\<lambda>i. filter_list filters ! i) (perms v)) = set (filter_list filters)"
    by (auto simp: perm(2) in_set_conv_nth)
  then show "act (map (\<lambda>i. filter_list filters ! i) (perms v)) = set (active filters)"
    by (auto simp: act_def active_def)
  have "inj_on (\<lambda>i. scan_column_index (filter_list filters ! i)) (set (perms v))"
    using ok(1) unfolding scan_filters_ok_def perm(2)
    by (auto simp: inj_on_def distinct_conv_nth)
  then have "distinct (map scan_column_index (map (\<lambda>i. filter_list filters ! i) (perms v)))"
    using perm(1) by (simp add: distinct_map o_def)
  then show "scan_filters_ok types column_ids (map (\<lambda>i. filter_list filters ! i) (perms v))"
    using ok(1) unfolding scan_filters_ok_def set by blast
  show has: "HasFilters filters \<longleftrightarrow> active filters \<noteq> []"
    using ok(3) sum_length_filter_compl [of always_true "filter_list filters"]
    by (simp add: HasFilters_def active_def wf_info_def flip: length_greater_0_conv) linarith
  have "{i. ColumnHasFilters i filters} = scan_column_index ` set (active filters)"
    using ok(2) by (simp add: column_flags_ok_def)
  then show "(HasFilters filters \<and> ColumnHasFilters i filters) \<longleftrightarrow> i \<in> scan_column_index ` set (active filters)"
    using has by auto
qed


definition step_ok ::
  "scan_source \<Rightarrow> (nat \<Rightarrow> LogicalType) \<Rightarrow> (nat \<Rightarrow> nat \<Rightarrow> Value option) \<Rightarrow> nat list \<Rightarrow> (nat \<Rightarrow> bool) \<Rightarrow> ScanFilter set \<Rightarrow> nat \<Rightarrow> nat \<Rightarrow>
    row_version_manager option \<Rightarrow> nat \<Rightarrow> (row_group \<times> group_scan) + (row_group \<times> group_scan \<times> scan_chunk) \<Rightarrow> bool" where
  "step_ok src types cells column_ids vis fs mr n v vi r \<longleftrightarrow>
    (case r of
       Inl (g', state') \<Rightarrow> versions_ok (zg_count (ss_group src)) v g' \<and> scan_inv src types cells column_ids mr n state' \<and>
         vi < gs_vector_index state' \<and> vi * STANDARD_VECTOR_SIZE < n \<and>
         none_wanted vis cells (zg_start (ss_group src)) fs (vi * STANDARD_VECTOR_SIZE) (min n (gs_vector_index state' * STANDARD_VECTOR_SIZE))
     | Inr (g', state', chunk) \<Rightarrow> versions_ok (zg_count (ss_group src)) v g' \<and> scan_inv src types cells column_ids mr n state' \<and>
         (if n \<le> vi * STANDARD_VECTOR_SIZE then sc_rows chunk = [] \<and> gs_vector_index state' = vi
          else sc_rows chunk \<noteq> [] \<and> gs_vector_index state' = Suc vi \<and>
            chunk_ok vis cells (zg_start (ss_group src)) fs column_ids (vi * STANDARD_VECTOR_SIZE)
              (min n (Suc vi * STANDARD_VECTOR_SIZE)) chunk))"

lemma group_scan_ok_length:
  "group_scan_ok rg types us cells state \<Longrightarrow> length (column_scans state) = length (gs_column_ids state)"
  by (simp add: group_scan_ok_def)

lemma scan_vector_step_ok:
  assumes env: "scan_env src types cells t filters perms column_ids"
    and inv: "scan_inv src types cells column_ids mr n state"
    and vers: "versions_ok (zg_count (ss_group src)) v g"
  shows "\<exists>r. scan_vector_step src t filters (perms (gs_vector_index state)) sel (g, state) = Some r \<and>
    step_ok src types cells column_ids (visible_row t v) (set (active filters)) mr n v (gs_vector_index state) r"
proof (cases "n \<le> gs_vector_index state * STANDARD_VECTOR_SIZE")
  case True
  then show ?thesis
    using inv vers by (auto simp: scan_vector_step_def step_ok_def scan_inv_def Let_def)
next
  case False
  define vi where "vi = gs_vector_index state"
  define rg where "rg = ss_group src"
  define S where "S = STANDARD_VECTOR_SIZE"
  define fs where "fs = set (active filters)"
  define vis where "vis = visible_row t v"
  define m where "m = min S (n - vi * S)"
  have state: "gs_column_ids state = column_ids" "max_row_group_row state = n" "n \<le> zg_count rg"
    "zg_start rg + n \<le> gs_max_row state" "vi * S < n" "group_scan_ok rg types (ss_updates src) cells state"
    using inv False by (auto simp: scan_inv_def rg_def vi_def S_def)
  have mr: "gs_max_row state = mr" using inv by (simp add: scan_inv_def)
  have m: "0 < m" "m \<le> S" "vi * S + m \<le> zg_count rg" "m \<le> vector_rows (zg_count rg) vi" "vi * S + m = min n (Suc vi * S)"
    using state(3,5) by (auto simp: m_def vector_rows_def S_def STANDARD_VECTOR_SIZE_def)
  have src: "source_ok src types cells column_ids" "types COLUMN_IDENTIFIER_ROW_ID = LT_BIGINT" "reader t"
    and filters: "\<forall>f \<in> set (filter_list filters). \<not> always_true f \<longrightarrow> segment_filter column_ids f \<and>
      wt_filter (types (table_column_index f)) (scan_filter f)"
    using env by (auto simp: scan_env_def source_ok_def scan_filters_ok_def)
  obtain scan state1 where seg: "CheckZonemapSegments rg (ss_updates src) filters state = Some (scan, state1)"
    using check_segments_loop_total [OF state(6) src(2)] filters state(1) unfolding CheckZonemapSegments_def
    by (metis option.exhaust prod.exhaust)
  have state1: "group_scan_ok rg types (ss_updates src) cells state1" "vi \<le> gs_vector_index state1"
    "gs_max_row state1 = gs_max_row state" "gs_column_ids state1 = column_ids" "max_row_group_row state1 = n"
    "scan \<Longrightarrow> gs_vector_index state1 = vi"
    and skip: "\<not> scan \<Longrightarrow> vi < gs_vector_index state1"
    "\<not> scan \<Longrightarrow> \<exists>e \<in> fs. \<forall>r. zg_start rg + vi * S \<le> r \<and> r < zg_start rg + gs_vector_index state1 * S \<longrightarrow>
       \<not> satisfies (scan_filter e) (cells (table_column_index e) r)"
    using check_segments_loop_sound [OF seg [unfolded CheckZonemapSegments_def] state(6)] filters state(1,2,4,5)
    by (auto simp: vi_def S_def fs_def active_def)
  show ?thesis
  proof (cases scan)
    case False
    have "none_wanted vis cells (zg_start rg) fs (vi * S) (min n (gs_vector_index state1 * S))"
      unfolding none_wanted_def
    proof (intro allI impI)
      fix r assume r: "vi * S \<le> r \<and> r < min n (gs_vector_index state1 * S)"
      obtain e where "e \<in> fs" "\<not> satisfies (scan_filter e) (cells (table_column_index e) (zg_start rg + r))"
        using skip(2) [OF False] r by (metis add_less_cancel_left add_le_cancel_left min_less_iff_conj)
      then show "\<not> wanted vis cells (zg_start rg) fs r" by (auto simp: wanted_def)
    qed
    moreover have "scan_inv src types cells column_ids mr n state1"
      using state1(1,3-5) group_scan_ok_length [OF state1(1)] state(3,4) mr by (simp add: scan_inv_def rg_def)
    ultimately show ?thesis
      using False seg vers skip(1) state(2,5)
      by (auto simp: scan_vector_step_def step_ok_def Let_def rg_def vi_def S_def fs_def vis_def)
  next
    case True
    have vi1: "gs_vector_index state1 = vi" using state1(6) True by simp
    obtain g1 cnt sel1 where g1: "rg_GetSelVector t vi sel m g = Inr (g1, cnt, sel1)" "versions_ok (zg_count rg) v g1"
      "selected m (cnt, sel1) = filter (\<lambda>i. vis (vi * S + i)) [0..<m]"
      using rg_GetSelVector_rows [OF src(3) _ m(4), of v g sel] vers by (auto simp: rg_def vis_def S_def)
    show ?thesis
    proof (cases "cnt = 0")
      case cnt: True
      then have "filter (\<lambda>i. vis (vi * S + i)) [0..<m] = []"
        using g1(3) m(1) by (simp add: selected_def sel_prefix_def)
      then have "\<not> vis r" if "vi * S \<le> r" "r < vi * S + m" for r
        using that unfolding filter_empty_conv by (auto dest!: bspec [of _ _ "r - vi * S"])
      then have "none_wanted vis cells (zg_start rg) fs (vi * S) (min n (Suc vi * S))"
        unfolding none_wanted_def wanted_def m(5) [symmetric] by blast
      moreover have "scan_inv src types cells column_ids mr n (NextVector state1)"
        using NextVector_ok [OF state1(1)] group_scan_ok_length [OF NextVector_ok [OF state1(1)]] state1(3-5) state(3,4) mr
        by (simp add: scan_inv_def rg_def NextVector_def)
      moreover have "gs_vector_index (NextVector state1) = Suc vi" by (simp add: NextVector_def vi1)
      moreover have "scan_vector_step src t filters (perms vi) sel (g, state) = Some (Inl (g1, NextVector state1))"
        using seg True g1(1) cnt vi1 state(2,5) by (simp add: scan_vector_step_def Let_def rg_def m_def vi_def S_def)
      ultimately show ?thesis
        using g1(2) state(5) by (auto simp: step_ok_def rg_def vi_def S_def fs_def vis_def)
    next
      case cnt: False
      define sel0 where "sel0 = filter (\<lambda>i. vis (vi * S + i)) [0..<m]"
      define filtered where "filtered = (\<lambda>i. HasFilters filters \<and> ColumnHasFilters i filters)"
      define D where "D = scan_column_index ` fs"
      have filtered: "filtered i \<longleftrightarrow> i \<in> D" for i
        using scan_filters_act(3) [OF env] by (simp add: filtered_def D_def fs_def)
      define loop where "loop = (if HasFilters filters then filter_vector_loop src m
          (map (\<lambda>i. filter_list filters ! i) (perms vi)) state1 sel0 (\<lambda>_. None) else Some (state1, sel0, \<lambda>_. None))"
      have "\<exists>state2 sel2 data. loop = Some (state2, sel2, data) \<and> same_scan state1 state2 \<and>
          mid_scan_ok src types cells D state2 \<and> distinct sel2 \<and>
          {i \<in> set sel0. \<forall>f \<in> fs. satisfies (scan_filter f) (cells (table_column_index f) (zg_start rg + vi * S + i))} \<subseteq> set sel2 \<and>
          set sel2 \<subseteq> {i \<in> set sel0. \<forall>f \<in> fs. passes_filter (scan_filter f) (cells (table_column_index f) (zg_start rg + vi * S + i))} \<and>
          data_ok cells column_ids (zg_start rg + vi * S) m D sel2 data"
      proof (cases "HasFilters filters")
        case has: True
        have "act (map (\<lambda>i. filter_list filters ! i) (perms vi)) = fs"
          using scan_filters_act(1) [OF env] by (simp add: fs_def)
        moreover have "scan_filters_ok types column_ids (map (\<lambda>i. filter_list filters ! i) (perms vi))"
          by (rule scan_filters_act(2) [OF env])
        moreover have "mid_scan_ok src types cells {} state1" using state1(1) by (simp add: mid_scan_start rg_def)
        moreover have "source_ok src types cells (gs_column_ids state1)" using src(1) state1(4) by simp
        moreover have "zg_start rg + vi * S = zg_start (ss_group src) + gs_vector_index state1 * STANDARD_VECTOR_SIZE"
          by (simp add: vi1 rg_def S_def)
        moreover have "m \<le> STANDARD_VECTOR_SIZE" "gs_vector_index state1 * STANDARD_VECTOR_SIZE + m \<le> zg_count (ss_group src)"
          using m(2,3) by (simp_all add: vi1 rg_def S_def)
        moreover have "distinct sel0" "set sel0 \<subseteq> {..<m}" by (auto simp: sel0_def)
        moreover have "data_ok cells column_ids (zg_start rg + vi * S) m {} sel0 (\<lambda>_. None)" by (simp add: data_ok_def)
        moreover note filter_vector_loop_ok [of src types cells state1 "zg_start rg + vi * S" m
            "map (\<lambda>i. filter_list filters ! i) (perms vi)" "{}" sel0 "\<lambda>_. None"]
        ultimately show ?thesis using m(1) has state1(4) by (simp add: loop_def D_def)
      next
        case no: False
        then have "fs = {}" using scan_filters_act(4) [OF env] by (simp add: fs_def)
        then show ?thesis
          using no state1(1) by (auto simp: loop_def D_def mid_scan_start rg_def same_scan_def sel0_def data_ok_def)
      qed
      then obtain state2 sel2 data where loop: "loop = Some (state2, sel2, data)" "same_scan state1 state2"
        "mid_scan_ok src types cells D state2" "distinct sel2"
        "{i \<in> set sel0. \<forall>f \<in> fs. satisfies (scan_filter f) (cells (table_column_index f) (zg_start rg + vi * S + i))} \<subseteq> set sel2"
        "set sel2 \<subseteq> {i \<in> set sel0. \<forall>f \<in> fs. passes_filter (scan_filter f) (cells (table_column_index f) (zg_start rg + vi * S + i))}"
        "data_ok cells column_ids (zg_start rg + vi * S) m D sel2 data" by blast
      have step: "scan_vector_step src t filters (perms vi) sel (g, state) =
          (if sel2 = [] then Some (Inl (g1, (skip_columns filtered state2)\<lparr>gs_vector_index := vi + 1\<rparr>))
           else case scan_columns src filtered vi (zip (gs_column_ids state2) (column_scans state2)) 0 of
               None \<Rightarrow> None
             | Some sts \<Rightarrow>
                Some (Inr (g1, state2\<lparr>column_scans := sts, gs_vector_index := vi + 1\<rparr>,
                  \<lparr>sc_rows = map (\<lambda>idx. vi * STANDARD_VECTOR_SIZE + idx) sel2,
                   sc_columns = map (\<lambda>(i, c). result_column src filtered data vi sel2 i c) (enumerate 0 (gs_column_ids state2))\<rparr>)))"
      proof -
        have n: "(n \<le> vi * STANDARD_VECTOR_SIZE) = False" "min STANDARD_VECTOR_SIZE (n - vi * STANDARD_VECTOR_SIZE) = m"
          using state(5) by (simp_all add: S_def m_def)
        have c: "CheckZonemapSegments (ss_group src) (ss_updates src) filters state = Some (True, state1)" "(cnt = 0) = False"
          using seg True cnt by (simp_all add: rg_def)
        have "scan_vector_step src t filters (perms vi) sel (g, state) = (case loop of None \<Rightarrow> None
          | Some (state2, sel2, data) \<Rightarrow>
             if sel2 = [] then Some (Inl (g1, (skip_columns filtered state2)\<lparr>gs_vector_index := vi + 1\<rparr>))
             else case scan_columns src filtered vi (zip (gs_column_ids state2) (column_scans state2)) 0 of
               None \<Rightarrow> None
             | Some sts \<Rightarrow>
                Some (Inr (g1, state2\<lparr>column_scans := sts, gs_vector_index := vi + 1\<rparr>,
                  \<lparr>sc_rows = map (\<lambda>idx. vi * STANDARD_VECTOR_SIZE + idx) sel2,
                   sc_columns = map (\<lambda>(i, c). result_column src filtered data vi sel2 i c) (enumerate 0 (gs_column_ids state2))\<rparr>)))"
          unfolding scan_vector_step_def loop_def filtered_def
          by (simp only: prod.case Let_def vi_def [symmetric] state(2) n if_False c option.case bool.case vi1 g1(1) sum.case
              g1(3) [folded sel0_def])
        then show ?thesis by (simp only: loop(1) option.case prod.case)
      qed
      have state2: "gs_column_ids state2 = column_ids" "gs_vector_index state2 = vi" "gs_max_row state2 = gs_max_row state"
        "max_row_group_row state2 = n"
        using loop(2) state1(3-5) vi1 by (auto simp: same_scan_def)
      have in_vector: "vi * S + i \<in> {vi * S..<min n (Suc vi * S)}" if "i < m" for i
        using that m(5) by auto
      have must: "r - vi * S \<in> set sel2" if "vi * S \<le> r" "r < min n (Suc vi * S)" "wanted vis cells (zg_start rg) fs r" for r
      proof -
        have "r - vi * S \<in> set sel0" using that m(5) by (auto simp: sel0_def wanted_def)
        then show ?thesis using loop(5) that by (auto simp: wanted_def add.assoc)
      qed
      have vi_count: "gs_vector_index state2 * STANDARD_VECTOR_SIZE < zg_count (ss_group src)"
        using state(3,5) state2(2) by (simp add: rg_def S_def)
      show ?thesis
      proof (cases "sel2 = []")
        case empty: True
        define state3 where "state3 = (skip_columns filtered state2)\<lparr>gs_vector_index := vi + 1\<rparr>"
        have "scan_inv src types cells column_ids mr n state3"
          using skip_columns_next [OF loop(3) filtered vi_count] state(3,4) state2 mr loop(3)
          by (auto simp: scan_inv_def rg_def state3_def skip_columns_def mid_scan_ok_def)
        moreover have "none_wanted vis cells (zg_start rg) fs (vi * S) (min n (Suc vi * S))"
          using must empty by (auto simp: none_wanted_def)
        moreover have "gs_vector_index state3 = Suc vi" by (simp add: state3_def)
        ultimately show ?thesis
          using g1(2) state(5) step empty by (auto simp: step_ok_def rg_def vi_def S_def fs_def vis_def state3_def)
      next
        case nonempty: False
        obtain sts where sts: "scan_columns src filtered vi (zip (gs_column_ids state2) (column_scans state2)) 0 = Some sts"
          "length sts = length column_ids"
          "(vi + 1) * STANDARD_VECTOR_SIZE < zg_count (ss_group src) \<Longrightarrow> group_scan_ok (ss_group src) types (ss_updates src) cells
            (state2\<lparr>column_scans := sts, gs_vector_index := vi + 1\<rparr>)"
          using scan_columns_next [OF loop(3) filtered vi_count] state2(1,2) by auto
        define state3 where "state3 = state2\<lparr>column_scans := sts, gs_vector_index := vi + 1\<rparr>"
        define chunk where "chunk = \<lparr>sc_rows = map (\<lambda>idx. vi * STANDARD_VECTOR_SIZE + idx) sel2,
           sc_columns = map (\<lambda>(i, c). result_column src filtered data vi sel2 i c) (enumerate 0 (gs_column_ids state2))\<rparr>"
        have "scan_inv src types cells column_ids mr n state3"
          using sts(2,3) state(3,4) state2 mr by (auto simp: scan_inv_def rg_def state3_def)
        moreover have "chunk_ok vis cells (zg_start rg) fs column_ids (vi * S) (min n (Suc vi * S)) chunk"
        proof -
          have sub: "i < m" "vis (vi * S + i)" "\<forall>f \<in> fs. passes_filter (scan_filter f) (cells (table_column_index f) (zg_start rg + (vi * S + i)))"
            if "i \<in> set sel2" for i
            using loop(6) that by (auto simp: sel0_def add.assoc)
          have rows: "sc_rows chunk = map (\<lambda>i. vi * S + i) sel2" by (simp add: chunk_def S_def)
          have "distinct (sc_rows chunk)" using loop(4) by (simp add: rows distinct_map)
          moreover have "\<forall>r \<in> set (sc_rows chunk). vi * S \<le> r \<and> r < min n (Suc vi * S) \<and> allowed vis cells (zg_start rg) fs r"
            using sub in_vector by (auto simp: rows allowed_def)
          moreover have "r \<in> set (sc_rows chunk)" if "vi * S \<le> r" "r < min n (Suc vi * S)" "wanted vis cells (zg_start rg) fs r" for r
            using must [OF that] that(1) by (auto simp: rows image_iff intro!: bexI [of _ "r - vi * S"])
          moreover have "sc_columns chunk = map (\<lambda>c. map (\<lambda>r. cells c (zg_start rg + r)) (sc_rows chunk)) column_ids"
          proof -
            have "result_column src filtered data vi sel2 i (column_ids ! i) = map (\<lambda>r. cells (column_ids ! i) (zg_start rg + r)) (sc_rows chunk)"
              if i: "i < length column_ids" for i
            proof (cases "i \<in> D")
              case True
              then obtain vdata where "data i = Some vdata" "\<forall>idx < m. vector_cell vdata idx = cells (column_ids ! i) (zg_start rg + vi * S + idx)"
                using loop(7) nonempty by (auto simp: data_ok_def)
              then show ?thesis using True filtered sub(1) by (simp add: result_column_def rows add.assoc)
            next
              case False
              have "vector_cell (ss_vectors src (column_ids ! i) vi) j = cells (column_ids ! i) (zg_start rg + vi * S + j)"
                if "column_ids ! i \<noteq> COLUMN_IDENTIFIER_ROW_ID" "j < m" for j
                using src(1) that m(2,3) i by (auto simp: source_ok_def rg_def S_def)
              moreover have "cells COLUMN_IDENTIFIER_ROW_ID r = Some (NumericValue (int r))" for r
                using src(1) by (simp add: source_ok_def)
              ultimately show ?thesis
                using False filtered sub(1) by (simp add: result_column_def rows rg_def S_def add.assoc)
            qed
            then show ?thesis
              by (auto simp: chunk_def state2(1) nth_enumerate_eq intro!: nth_equalityI)
          qed
          ultimately show ?thesis by (simp add: chunk_ok_def)
        qed
        moreover have "sc_rows chunk \<noteq> []" "gs_vector_index state3 = Suc vi" using nonempty by (simp_all add: chunk_def state3_def)
        ultimately show ?thesis
          using g1(2) state(5) step nonempty sts(1)
          by (auto simp: step_ok_def rg_def vi_def S_def fs_def vis_def state3_def chunk_def)
      qed
    qed
  qed
qed


lemma chunk_okI:
  assumes "distinct (sc_rows chunk)" "\<And>r. r \<in> set (sc_rows chunk) \<Longrightarrow> b \<le> r \<and> r < e \<and> allowed vis cells start fs r"
    and "\<And>r. b \<le> r \<Longrightarrow> r < e \<Longrightarrow> wanted vis cells start fs r \<Longrightarrow> r \<in> set (sc_rows chunk)"
    and "sc_rows chunk \<noteq> [] \<Longrightarrow> sc_columns chunk = map (\<lambda>c. map (\<lambda>r. cells c (start + r)) (sc_rows chunk)) column_ids"
  shows "chunk_ok vis cells start fs column_ids b e chunk"
  unfolding chunk_ok_def using assms by blast

lemma chunk_okD:
  assumes "chunk_ok vis cells start fs column_ids b e chunk"
  shows "distinct (sc_rows chunk)"
    and "r \<in> set (sc_rows chunk) \<Longrightarrow> b \<le> r" "r \<in> set (sc_rows chunk) \<Longrightarrow> r < e"
    and "r \<in> set (sc_rows chunk) \<Longrightarrow> allowed vis cells start fs r"
    and "b \<le> r \<Longrightarrow> r < e \<Longrightarrow> wanted vis cells start fs r \<Longrightarrow> r \<in> set (sc_rows chunk)"
    and "sc_rows chunk \<noteq> [] \<Longrightarrow> sc_columns chunk = map (\<lambda>c. map (\<lambda>r. cells c (start + r)) (sc_rows chunk)) column_ids"
  using assms unfolding chunk_ok_def by blast+

lemma chunk_ok_empty:
  assumes "sc_rows chunk = []"
  shows "chunk_ok vis cells start fs column_ids b e chunk \<longleftrightarrow> none_wanted vis cells start fs b e"
  using assms unfolding chunk_ok_def none_wanted_def by auto

lemma none_wanted_empty: "e \<le> b \<Longrightarrow> none_wanted vis cells start fs b e"
  by (auto simp: none_wanted_def)

text \<open>What one call returns.\<close>

definition call_ok ::
  "scan_source \<Rightarrow> (nat \<Rightarrow> LogicalType) \<Rightarrow> (nat \<Rightarrow> nat \<Rightarrow> Value option) \<Rightarrow> nat list \<Rightarrow> (nat \<Rightarrow> bool) \<Rightarrow> ScanFilter set \<Rightarrow> nat \<Rightarrow> nat \<Rightarrow>
    row_version_manager option \<Rightarrow> nat \<Rightarrow> row_group \<times> group_scan \<times> scan_chunk \<Rightarrow> bool" where
  "call_ok src types cells column_ids vis fs mr n v vi r \<longleftrightarrow>
    (case r of (g', state', chunk) \<Rightarrow>
      versions_ok (zg_count (ss_group src)) v g' \<and> scan_inv src types cells column_ids mr n state' \<and>
      vi \<le> gs_vector_index state' \<and>
      chunk_ok vis cells (zg_start (ss_group src)) fs column_ids (vi * STANDARD_VECTOR_SIZE)
        (min n (gs_vector_index state' * STANDARD_VECTOR_SIZE)) chunk \<and>
      (if sc_rows chunk = [] then n \<le> gs_vector_index state' * STANDARD_VECTOR_SIZE else vi < gs_vector_index state'))"

lemma step_call:
  "step_ok src types cells column_ids vis fs mr n v vi (Inr r) \<Longrightarrow> call_ok src types cells column_ids vis fs mr n v vi r"
  by (cases r) (auto simp: step_ok_def call_ok_def chunk_ok_empty none_wanted_empty split: if_splits)

lemma none_wanted_chunk:
  assumes "none_wanted vis cells start fs b (min n e)" "chunk_ok vis cells start fs column_ids e e' chunk" "b \<le> e" "e' \<le> n"
  shows "chunk_ok vis cells start fs column_ids b e' chunk"
proof (rule chunk_okI)
  note c = chunk_okD [OF assms(2)]
  show "distinct (sc_rows chunk)" by (rule c)
  show "b \<le> r \<and> r < e' \<and> allowed vis cells start fs r" if "r \<in> set (sc_rows chunk)" for r
    using c(2-4) [OF that] assms(3) by auto
  show "r \<in> set (sc_rows chunk)" if "b \<le> r" "r < e'" "wanted vis cells start fs r" for r
    using c(5) [OF _ that(2,3)] assms(1,4) that unfolding none_wanted_def by (cases "r < e") auto
  show "sc_columns chunk = map (\<lambda>c. map (\<lambda>r. cells c (start + r)) (sc_rows chunk)) column_ids" if "sc_rows chunk \<noteq> []"
    by (rule c) (rule that)
qed

lemma step_then_call:
  assumes "step_ok src types cells column_ids vis fs mr n v vi (Inl (g1, state1))"
    and "call_ok src types cells column_ids vis fs mr n v (gs_vector_index state1) r"
  shows "call_ok src types cells column_ids vis fs mr n v vi r"
proof -
  obtain g' state' chunk where r: "r = (g', state', chunk)" by (cases r) auto
  have vi: "vi < gs_vector_index state1" and nw: "none_wanted vis cells (zg_start (ss_group src)) fs
      (vi * STANDARD_VECTOR_SIZE) (min n (gs_vector_index state1 * STANDARD_VECTOR_SIZE))"
    using assms(1) by (simp_all add: step_ok_def)
  have le: "vi * STANDARD_VECTOR_SIZE \<le> gs_vector_index state1 * STANDARD_VECTOR_SIZE"
    using vi by (intro mult_le_mono1) simp
  have c: "chunk_ok vis cells (zg_start (ss_group src)) fs column_ids (gs_vector_index state1 * STANDARD_VECTOR_SIZE)
      (min n (gs_vector_index state' * STANDARD_VECTOR_SIZE)) chunk"
    using assms(2) by (simp add: call_ok_def r)
  have "chunk_ok vis cells (zg_start (ss_group src)) fs column_ids (vi * STANDARD_VECTOR_SIZE)
      (min n (gs_vector_index state' * STANDARD_VECTOR_SIZE)) chunk"
    by (rule none_wanted_chunk [OF nw c le]) simp
  then show ?thesis using assms(2) vi by (simp add: call_ok_def r split: if_splits)
qed

lemma TemplatedScan_ok:
  assumes env: "scan_env src types cells t filters perms column_ids"
    and "scan_inv src types cells column_ids mr n state" "versions_ok (zg_count (ss_group src)) v g"
    and "n \<le> (gs_vector_index state + k) * STANDARD_VECTOR_SIZE"
  shows "\<exists>r. TemplatedScan (Suc k) src t filters perms sels (g, state) = Some r \<and>
    call_ok src types cells column_ids (visible_row t v) (set (active filters)) mr n v (gs_vector_index state) r"
  using assms(2-4)
proof (induction k arbitrary: g state)
  case 0
  then obtain r where r: "scan_vector_step src t filters (perms (gs_vector_index state)) (sels (gs_vector_index state)) (g, state) = Some r"
    "step_ok src types cells column_ids (visible_row t v) (set (active filters)) mr n v (gs_vector_index state) r"
    using scan_vector_step_ok [OF env] by blast
  have "\<nexists>gs1. r = Inl gs1" using r(2) 0(3) by (auto simp: step_ok_def)
  then obtain res where "r = Inr res" by (cases r) auto
  then show ?case using r step_call by fastforce
next
  case (Suc k)
  obtain r where r: "scan_vector_step src t filters (perms (gs_vector_index state)) (sels (gs_vector_index state)) (g, state) = Some r"
    "step_ok src types cells column_ids (visible_row t v) (set (active filters)) mr n v (gs_vector_index state) r"
    using scan_vector_step_ok [OF env Suc.prems(1,2)] by blast
  show ?case
  proof (cases r)
    case (Inr res)
    then show ?thesis using r step_call by fastforce
  next
    case (Inl gs1)
    obtain g1 state1 where gs1: "gs1 = (g1, state1)" by fastforce
    note step = r(2) [unfolded Inl gs1]
    have "n \<le> (gs_vector_index state1 + k) * STANDARD_VECTOR_SIZE"
    proof (rule order_trans [OF Suc.prems(3)])
      show "(gs_vector_index state + Suc k) * STANDARD_VECTOR_SIZE \<le> (gs_vector_index state1 + k) * STANDARD_VECTOR_SIZE"
        using step by (intro mult_le_mono1) (simp add: step_ok_def)
    qed
    then obtain res where res: "TemplatedScan (Suc k) src t filters perms sels (g1, state1) = Some res"
      "call_ok src types cells column_ids (visible_row t v) (set (active filters)) mr n v (gs_vector_index state1) res"
      using Suc.IH [of state1 g1] step by (auto simp: step_ok_def)
    moreover have "TemplatedScan (Suc (Suc k)) src t filters perms sels (g, state) =
        TemplatedScan (Suc k) src t filters perms sels (g1, state1)"
      using r(1) Inl gs1 by simp
    ultimately show ?thesis using step_then_call [OF step] by auto
  qed
qed

text \<open>The chunks of a row group, from vector \<open>vi\<close> on.\<close>

definition scan_rows :: "scan_chunk list \<Rightarrow> nat list" where
  "scan_rows chunks = concat (map sc_rows chunks)"

definition scan_result_ok ::
  "(nat \<Rightarrow> bool) \<Rightarrow> (nat \<Rightarrow> nat \<Rightarrow> Value option) \<Rightarrow> nat \<Rightarrow> ScanFilter set \<Rightarrow> nat list \<Rightarrow> nat \<Rightarrow> nat \<Rightarrow> scan_chunk list \<Rightarrow> bool" where
  "scan_result_ok vis cells start fs column_ids b n chunks \<longleftrightarrow>
    distinct (scan_rows chunks) \<and> (\<forall>r \<in> set (scan_rows chunks). b \<le> r \<and> r < n \<and> allowed vis cells start fs r) \<and>
    (\<forall>r. b \<le> r \<and> r < n \<and> wanted vis cells start fs r \<longrightarrow> r \<in> set (scan_rows chunks)) \<and>
    (\<forall>chunk \<in> set chunks. sc_columns chunk = map (\<lambda>c. map (\<lambda>r. cells c (start + r)) (sc_rows chunk)) column_ids)"

lemma scan_result_okD:
  assumes "scan_result_ok vis cells start fs column_ids b n chunks"
  shows "distinct (scan_rows chunks)"
    and "r \<in> set (scan_rows chunks) \<Longrightarrow> b \<le> r \<and> r < n \<and> allowed vis cells start fs r"
    and "b \<le> r \<Longrightarrow> r < n \<Longrightarrow> wanted vis cells start fs r \<Longrightarrow> r \<in> set (scan_rows chunks)"
    and "chunk \<in> set chunks \<Longrightarrow> sc_columns chunk = map (\<lambda>c. map (\<lambda>r. cells c (start + r)) (sc_rows chunk)) column_ids"
  using assms unfolding scan_result_ok_def by blast+

lemma scan_result_nil: "scan_result_ok vis cells start fs column_ids b n [] \<longleftrightarrow> none_wanted vis cells start fs b n"
  by (auto simp: scan_result_ok_def scan_rows_def none_wanted_def)

lemma scan_result_cons:
  assumes "chunk_ok vis cells start fs column_ids b (min n e) chunk" "sc_rows chunk \<noteq> []" "b \<le> e"
    and "scan_result_ok vis cells start fs column_ids e n chunks"
  shows "scan_result_ok vis cells start fs column_ids b n (chunk # chunks)"
proof -
  have rows: "scan_rows (chunk # chunks) = sc_rows chunk @ scan_rows chunks" by (simp add: scan_rows_def)
  note c = chunk_okD [OF assms(1)]
  note d = scan_result_okD [OF assms(4)]
  have "r \<in> set (sc_rows chunk) \<union> set (scan_rows chunks)" if "b \<le> r" "r < n" "wanted vis cells start fs r" for r
    using c(5) [OF that(1) _ that(3)] d(3) [OF _ that(2,3)] that by (cases "r < e") auto
  moreover have "set (sc_rows chunk) \<inter> set (scan_rows chunks) = {}"
  proof -
    have "r < e \<and> e \<le> r" if "r \<in> set (sc_rows chunk)" "r \<in> set (scan_rows chunks)" for r
      using c(3) [OF that(1)] d(2) [OF that(2)] by auto
    then show ?thesis by (metis disjoint_iff not_less)
  qed
  ultimately show ?thesis
    unfolding scan_result_ok_def rows
  proof (intro conjI ballI allI impI)
    assume i: "set (sc_rows chunk) \<inter> set (scan_rows chunks) = {}"
    show "distinct (sc_rows chunk @ scan_rows chunks)" using i c(1) d(1) by simp
  next
    fix r assume "r \<in> set (sc_rows chunk @ scan_rows chunks)"
    then consider "r \<in> set (sc_rows chunk)" | "r \<in> set (scan_rows chunks)" by auto
    then have "b \<le> r \<and> r < n \<and> allowed vis cells start fs r"
    proof cases
      case 1
      then show ?thesis using c(2-4) [OF 1] by auto
    next
      case 2
      then show ?thesis using d(2) [OF 2] assms(3) by auto
    qed
    then show "b \<le> r" "r < n" "allowed vis cells start fs r" by auto
  next
    fix chunk' assume "chunk' \<in> set (chunk # chunks)"
    then show "sc_columns chunk' = map (\<lambda>c. map (\<lambda>r. cells c (start + r)) (sc_rows chunk')) column_ids"
      using c(6) [OF assms(2)] d(4) [of chunk'] by auto
  next
    fix r assume "b \<le> r \<and> r < n \<and> wanted vis cells start fs r"
    then show "r \<in> set (sc_rows chunk @ scan_rows chunks)"
      using \<open>\<And>r. b \<le> r \<Longrightarrow> r < n \<Longrightarrow> wanted vis cells start fs r \<Longrightarrow> r \<in> set (sc_rows chunk) \<union> set (scan_rows chunks)\<close> by auto
  qed
qed

lemma scan_row_group_ok:
  assumes env: "scan_env src types cells t filters perms column_ids"
    and "scan_inv src types cells column_ids mr n state" "versions_ok (zg_count (ss_group src)) v g"
    and "n \<le> (gs_vector_index state + k) * STANDARD_VECTOR_SIZE"
  shows "\<exists>g' state' chunks. scan_row_group (Suc k) src t filters perms sels (g, state) = Some (g', state', chunks) \<and>
    versions_ok (zg_count (ss_group src)) v g' \<and> scan_inv src types cells column_ids mr n state' \<and>
    scan_result_ok (visible_row t v) cells (zg_start (ss_group src)) (set (active filters)) column_ids
      (gs_vector_index state * STANDARD_VECTOR_SIZE) n chunks"
  using assms(2-4)
proof (induction k arbitrary: g state)
  case 0
  then obtain g' state' chunk where r: "TemplatedScan (Suc 0) src t filters perms sels (g, state) = Some (g', state', chunk)"
    "call_ok src types cells column_ids (visible_row t v) (set (active filters)) mr n v (gs_vector_index state) (g', state', chunk)"
    using TemplatedScan_ok [OF env 0] by (metis prod_cases3)
  then have "sc_rows chunk = []"
    using 0(3) chunk_okD(2,3) [of "visible_row t v" cells "zg_start (ss_group src)" "set (active filters)" column_ids
        "gs_vector_index state * STANDARD_VECTOR_SIZE" "min n (gs_vector_index state' * STANDARD_VECTOR_SIZE)" chunk "hd (sc_rows chunk)"]
    by (cases "sc_rows chunk") (auto simp: call_ok_def)
  then show ?case
    using r 0(3) none_wanted_empty by (auto simp: scan_result_nil call_ok_def simp del: TemplatedScan.simps)
next
  case (Suc k)
  obtain g1 state1 chunk where r: "TemplatedScan (Suc (Suc k)) src t filters perms sels (g, state) = Some (g1, state1, chunk)"
    "call_ok src types cells column_ids (visible_row t v) (set (active filters)) mr n v (gs_vector_index state) (g1, state1, chunk)"
    using TemplatedScan_ok [OF env Suc.prems] by (metis prod_cases3)
  show ?case
  proof (cases "sc_rows chunk = []")
    case True
    then show ?thesis
      using r by (auto simp: scan_result_nil call_ok_def chunk_ok_empty min_def simp del: TemplatedScan.simps)
  next
    case False
    have call: "gs_vector_index state < gs_vector_index state1" "scan_inv src types cells column_ids mr n state1"
      "versions_ok (zg_count (ss_group src)) v g1"
      "chunk_ok (visible_row t v) cells (zg_start (ss_group src)) (set (active filters)) column_ids
        (gs_vector_index state * STANDARD_VECTOR_SIZE) (min n (gs_vector_index state1 * STANDARD_VECTOR_SIZE)) chunk"
      using r(2) False by (auto simp: call_ok_def)
    have "n \<le> (gs_vector_index state1 + k) * STANDARD_VECTOR_SIZE"
    proof (rule order_trans [OF Suc.prems(3)])
      show "(gs_vector_index state + Suc k) * STANDARD_VECTOR_SIZE \<le> (gs_vector_index state1 + k) * STANDARD_VECTOR_SIZE"
        using call(1) by (intro mult_le_mono1) simp
    qed
    then obtain g' state' chunks where IH: "scan_row_group (Suc k) src t filters perms sels (g1, state1) = Some (g', state', chunks)"
      "versions_ok (zg_count (ss_group src)) v g'" "scan_inv src types cells column_ids mr n state'"
      "scan_result_ok (visible_row t v) cells (zg_start (ss_group src)) (set (active filters)) column_ids
        (gs_vector_index state1 * STANDARD_VECTOR_SIZE) n chunks"
      using Suc.IH [OF call(2,3)] by blast
    have "scan_row_group (Suc (Suc k)) src t filters perms sels (g, state) = Some (g', state', chunk # chunks)"
      using r(1) False IH(1) by (simp del: TemplatedScan.simps)
    then show ?thesis
      using IH(2,3) scan_result_cons [OF call(4) False _ IH(4)] call(1) by auto
  qed
qed


section \<open>The scan of a table\<close>

text \<open>
  \<open>RowGroupCollection::InitializeScan\<close> and the calls of \<open>CollectionScanState::Scan\<close> until it returns false,
  over the row groups in the order of the segment tree.  A chunk's rows are now row identifiers.
\<close>

record table_group =
  tg_source :: scan_source
  tg_segments :: "nat \<Rightarrow> segment_info list"
  tg_versions :: row_group

definition row_ids :: "nat \<Rightarrow> scan_chunk list \<Rightarrow> scan_chunk list" where
  "row_ids start = map (\<lambda>chunk. chunk\<lparr>sc_rows := map (\<lambda>r. start + r) (sc_rows chunk)\<rparr>)"

fun scan_table ::
  "nat \<Rightarrow> transaction_data \<Rightarrow> (nat \<Rightarrow> nat list) \<Rightarrow> (nat \<Rightarrow> sel_vector) \<Rightarrow> bool \<Rightarrow> ScanFilterInfo \<Rightarrow> group_scan \<Rightarrow> table_group list \<Rightarrow>
    scan_chunk list option" where
  "scan_table fuel t perms sels first filters state [] = Some []"
| "scan_table fuel t perms sels first filters state (grp # groups) =
    (let rg = ss_group (tg_source grp)
     in if \<not> first \<and> zg_start rg \<ge> gs_max_row state then Some []
        else case rg_InitializeScan rg (tg_segments grp) filters state of
          None \<Rightarrow> None
        | Some (False, filters1, state1) \<Rightarrow> scan_table fuel t perms sels first filters1 state1 groups
        | Some (True, filters1, state1) \<Rightarrow>
           (case scan_row_group fuel (tg_source grp) t filters1 perms sels (tg_versions grp, state1) of
              None \<Rightarrow> None
            | Some (_, state2, chunks) \<Rightarrow>
               if gs_max_row state2 \<le> zg_start rg + zg_count rg then Some (row_ids (zg_start rg) chunks)
               else map_option (\<lambda>rest. row_ids (zg_start rg) chunks @ rest)
                 (scan_table fuel t perms sels False filters1 state2 groups)))"

text \<open>What the table filters are, and what a row group is.\<close>

definition table_filters_ok :: "(nat \<Rightarrow> LogicalType) \<Rightarrow> nat list \<Rightarrow> ScanFilter list \<Rightarrow> bool" where
  "table_filters_ok types column_ids fs \<longleftrightarrow>
    (\<forall>f \<in> set fs. scan_column_index f < length column_ids \<and> table_column_index f = column_ids ! scan_column_index f \<and>
      executable (types (table_column_index f)) (scan_filter f) \<and> wt_filter (types (table_column_index f)) (scan_filter f) \<and>
      distinct_free (scan_filter f) \<and> (is_optional (scan_filter f) \<or> \<not> satisfies (scan_filter f) None))"

definition table_group_ok ::
  "(nat \<Rightarrow> LogicalType) \<Rightarrow> (nat \<Rightarrow> nat \<Rightarrow> Value option) \<Rightarrow> nat list \<Rightarrow> row_version_manager option \<Rightarrow> table_group \<Rightarrow> bool" where
  "table_group_ok types cells column_ids v grp \<longleftrightarrow>
    (let src = tg_source grp; rg = ss_group src
     in source_ok src types cells column_ids \<and>
        (\<forall>c \<in> set column_ids. c \<noteq> COLUMN_IDENTIFIER_ROW_ID \<longrightarrow>
          column_segments_ok rg (types c) (ss_updates src c) (cells c) (tg_segments grp c)) \<and>
        (\<forall>c. c \<noteq> COLUMN_IDENTIFIER_ROW_ID \<longrightarrow> wf_stats (zg_stats rg c) \<and> stats_type (zg_stats rg c) = types c) \<and>
        (\<forall>r < zg_count rg. group_row rg (\<lambda>c. cells c (zg_start rg + r))) \<and>
        versions_ok (zg_count rg) v (tg_versions grp))"

lemma wanted_keys:
  assumes "filter_key ` A = filter_key ` B"
  shows "wanted vis cells start A = wanted vis cells start B" "allowed vis cells start A = allowed vis cells start B"
proof -
  have "(\<forall>f \<in> A. P (scan_filter f) (table_column_index f)) \<longleftrightarrow> (\<forall>f \<in> B. P (scan_filter f) (table_column_index f))" for P
  proof -
    have keys: "(\<forall>f \<in> A. P (scan_filter f) (table_column_index f)) \<longleftrightarrow> (\<forall>(a, b, c) \<in> filter_key ` A. P c b)" for A
      by (simp add: filter_key_def)
    show ?thesis by (simp only: keys assms)
  qed
  from this [of "\<lambda>f c. satisfies f (cells c (start + r))" for r] this [of "\<lambda>f c. passes_filter f (cells c (start + r))" for r]
  show "wanted vis cells start A = wanted vis cells start B" "allowed vis cells start A = allowed vis cells start B"
    by (auto simp: wanted_def allowed_def fun_eq_iff)
qed


definition same_columns :: "group_scan \<Rightarrow> group_scan \<Rightarrow> bool" where
  "same_columns a b \<longleftrightarrow> gs_column_ids b = gs_column_ids a \<and> gs_max_row b = gs_max_row a \<and>
    length (column_scans b) = length (column_scans a)"

lemma rg_CheckZonemap_total:
  assumes "\<forall>f \<in> set (filter_list info). filter_result rg f \<noteq> None"
  shows "rg_CheckZonemap rg info \<noteq> None"
  using assms unfolding rg_CheckZonemap_def Let_def
  by (intro check_zonemap_loop_total) (auto simp: CheckAllFilters_def simp del: not_None_eq)

lemma check_zonemap_loop_keys:
  assumes "check_zonemap_loop rg is info = Some (scan, info')"
  shows "map filter_key (filter_list info') = map filter_key (filter_list info)"
  using assms
proof (induction "is" arbitrary: info)
  case (Cons i "is")
  have "map filter_key (filter_list (SetFilterAlwaysTrue i info)) = map filter_key (filter_list info)"
    using same_filters_SetFilterAlwaysTrue [of info info i] by (simp add: same_filters_def)
  then show ?case using Cons by (auto simp: Let_def split: option.splits if_splits)
qed simp

lemma rg_CheckZonemap_info:
  assumes "rg_CheckZonemap rg info = Some (scan, info')" "column_flags_ok info"
  shows "column_flags_ok info'" "map filter_key (filter_list info') = map filter_key (filter_list info)"
proof -
  define info0 where "info0 = CheckAllFilters info"
  have loop: "check_zonemap_loop rg [0..<length (filter_list info0)] info0 = Some (scan, info')"
    using assms(1) by (simp add: rg_CheckZonemap_def Let_def info0_def)
  have "column_flags_ok info' \<and> wf_info info'"
    by (rule check_zonemap_loop_keeps [OF loop])
      (use assms(2) CheckAllFilters_flags wf_CheckAllFilters in \<open>auto simp: info0_def\<close>)
  then show "column_flags_ok info'" by simp
  show "map filter_key (filter_list info') = map filter_key (filter_list info)"
    using check_zonemap_loop_keys [OF loop] by (simp add: info0_def CheckAllFilters_def o_def)
qed

lemma scan_result_mono:
  assumes "scan_result_ok vis cells start fs column_ids b n chunks"
    and "\<And>r. r < n \<Longrightarrow> allowed vis cells start fs r \<Longrightarrow> allowed vis cells start fs' r"
    and "\<And>r. wanted vis cells start fs' r \<Longrightarrow> wanted vis cells start fs r"
  shows "scan_result_ok vis cells start fs' column_ids b n chunks"
  using scan_result_okD [OF assms(1)] assms(2,3) unfolding scan_result_ok_def by blast

lemma row_id_stats_type: "stats_type (row_id_stats b e) = LT_BIGINT"
  by (simp add: row_id_stats_def CreateEmpty_def)

lemma scan_group_ok:
  assumes t: "reader t" and grp: "table_group_ok types cells (gs_column_ids state) v grp"
    and info: "column_flags_ok info" "table_filters_ok types (gs_column_ids state) (filter_list info)"
    and perms: "\<And>v. distinct (perms v) \<and> set (perms v) = {..<length (filter_list info)}"
    and state: "length (column_scans state) = length (gs_column_ids state)"
    and k: "zg_count (ss_group (tg_source grp)) \<le> k * STANDARD_VECTOR_SIZE"
  defines "src \<equiv> tg_source grp" and "rg \<equiv> ss_group (tg_source grp)"
    and "n \<equiv> min (zg_count (ss_group (tg_source grp))) (gs_max_row state - zg_start (ss_group (tg_source grp)))"
  shows "\<exists>scan info1 state1. rg_InitializeScan rg (tg_segments grp) info state = Some (scan, info1, state1) \<and>
    column_flags_ok info1 \<and> map filter_key (filter_list info1) = map filter_key (filter_list info) \<and> same_columns state state1 \<and>
    (if scan then \<exists>g' state2 chunks. scan_row_group (Suc k) src t info1 perms sels (tg_versions grp, state1) = Some (g', state2, chunks) \<and>
        same_columns state state2 \<and>
        scan_result_ok (visible_row t v) cells (zg_start rg) (set (filter_list info)) (gs_column_ids state) 0 n chunks
     else none_wanted (visible_row t v) cells (zg_start rg) (set (filter_list info)) 0 n)"
proof -
  have grp': "source_ok src types cells (gs_column_ids state)"
    "\<And>c. c \<in> set (gs_column_ids state) \<Longrightarrow> c \<noteq> COLUMN_IDENTIFIER_ROW_ID \<Longrightarrow>
      column_segments_ok rg (types c) (ss_updates src c) (cells c) (tg_segments grp c)"
    "\<And>r. r < zg_count rg \<Longrightarrow> group_row rg (\<lambda>c. cells c (zg_start rg + r))"
    "versions_ok (zg_count rg) v (tg_versions grp)"
    using grp by (simp_all add: table_group_ok_def Let_def src_def rg_def)
  have stats: "wf_stats (stats_of rg c)" "stats_type (stats_of rg c) = types c" for c
    using grp row_id_stats_covers(2) [of "zg_start rg" "zg_start rg + zg_count rg"] row_id_stats_type
    by (auto simp: table_group_ok_def Let_def rg_def stats_of_def source_ok_def)
  have f: "\<And>f. f \<in> set (filter_list info) \<Longrightarrow> executable (types (table_column_index f)) (scan_filter f)"
    "\<And>f. f \<in> set (filter_list info) \<Longrightarrow> has_null (stats_of rg (table_column_index f)) \<longrightarrow> distinct_free (scan_filter f)"
    using info(2) by (auto simp: table_filters_ok_def)
  have "\<forall>f \<in> set (filter_list info). filter_result rg f \<noteq> None"
    using CheckStatistics_total [OF stats(1)] stats(2) info(2) by (auto simp: filter_result_stats table_filters_ok_def)
  then obtain scan0 info1 where zone: "rg_CheckZonemap rg info = Some (scan0, info1)"
    using rg_CheckZonemap_total by (metis option.exhaust prod.exhaust)
  note sound = rg_CheckZonemap_sound [OF grp'(3) f zone]
  show ?thesis
  proof (cases "scan0 \<and> n \<noteq> 0")
    case False
    then have "rg_InitializeScan rg (tg_segments grp) info state =
        Some (False, info1, if scan0 then state\<lparr>gs_vector_index := 0, max_row_group_row := 0\<rparr> else state)"
      using zone by (auto simp: rg_InitializeScan_def Let_def n_def rg_def)
    moreover have "none_wanted (visible_row t v) cells (zg_start rg) (set (filter_list info)) 0 n"
    proof (cases scan0)
      case True
      then show ?thesis using False by (simp add: none_wanted_def)
    next
      case no: False
      show ?thesis
        using sound(1) [OF _ _ _ no] by (auto simp: none_wanted_def wanted_def n_def rg_def)
    qed
    ultimately show ?thesis
      using rg_CheckZonemap_info [OF zone info(1)] by (auto simp: same_columns_def)
  next
    case True
    define ids where "ids = gs_column_ids state"
    have zone1: "rg_CheckZonemap rg info = Some (True, info1)" using zone True by simp
    have "\<exists>state1. rg_InitializeScan rg (tg_segments grp) info state = Some (True, info1, state1)"
      using zone True by (auto simp: rg_InitializeScan_def Let_def n_def rg_def)
    then obtain state1 where init: "rg_InitializeScan rg (tg_segments grp) info state = Some (True, info1, state1)" by blast
    note state1 = rg_InitializeScan_ok [where types = types and us = "ss_updates src" and cells = cells, OF init state grp'(2)]
    note keeps = rg_CheckZonemap_keeps [OF zone1 info(1)]
    have len: "length (filter_list info1) = length (filter_list info)"
      using arg_cong [OF keeps(3), of length] by simp
    have "scan_filters_ok types ids (filter_list info1)"
      unfolding scan_filters_ok_def
    proof (intro conjI ballI impI)
      show "distinct (map scan_column_index (filter_list info1))" using keeps(1) by (simp add: column_flags_ok_def)
    next
      fix f assume a: "f \<in> set (filter_list info1)" "\<not> always_true f"
      have "filter_key f \<in> filter_key ` set (filter_list info)"
        using a(1) arg_cong [OF keeps(3), of set] by (simp only: set_map) blast
      then obtain f0 where f0: "f0 \<in> set (filter_list info)" "filter_key f = filter_key f0" by blast
      then have "scan_column_index f < length ids \<and> table_column_index f = ids ! scan_column_index f \<and>
          executable (types (table_column_index f)) (scan_filter f) \<and> wt_filter (types (table_column_index f)) (scan_filter f) \<and>
          distinct_free (scan_filter f) \<and> (is_optional (scan_filter f) \<or> \<not> satisfies (scan_filter f) None)"
        using bspec [OF info(2) [unfolded table_filters_ok_def] f0(1)] by (auto simp: filter_key_def ids_def)
      then show "segment_filter ids f" "executable (types (table_column_index f)) (scan_filter f)"
        "wt_filter (types (table_column_index f)) (scan_filter f)"
        using keeps(4) a by (auto simp: segment_filter_def)
    qed
    then have env: "scan_env src types cells t info1 perms ids"
      using t grp'(1) keeps(1,2) perms len by (simp add: scan_env_def ids_def)
    have n: "max_row_group_row state1 = n" "n \<le> zg_count rg" "0 < n \<Longrightarrow> zg_start rg + n \<le> gs_max_row state"
      using state1(5) by (auto simp: n_def rg_def)
    have inv: "scan_inv src types cells ids (gs_max_row state) n state1"
      using state1 n group_scan_ok_length [OF state1(1)] by (simp add: scan_inv_def src_def rg_def ids_def)
    have fuel: "n \<le> (gs_vector_index state1 + k) * STANDARD_VECTOR_SIZE"
      using k n(2) state1(2) by (simp add: rg_def)
    obtain g' state2 chunks where res: "scan_row_group (Suc k) src t info1 perms sels (tg_versions grp, state1) = Some (g', state2, chunks)"
      "scan_inv src types cells ids (gs_max_row state) n state2"
      "scan_result_ok (visible_row t v) cells (zg_start rg) (set (active info1)) ids 0 n chunks"
      using scan_row_group_ok [OF env inv _ fuel, of v "tg_versions grp" sels] grp'(4) state1(2)
      by (auto simp: src_def rg_def)
    have "scan_result_ok (visible_row t v) cells (zg_start rg) (set (filter_list info)) ids 0 n chunks"
    proof (rule scan_result_mono [OF res(3)])
      fix r assume r: "r < n" "allowed (visible_row t v) cells (zg_start rg) (set (active info1)) r"
      then show "allowed (visible_row t v) cells (zg_start rg) (set (filter_list info)) r"
        using sound(2) [of r] n(2) by (auto simp: allowed_def)
    next
      fix r assume "wanted (visible_row t v) cells (zg_start rg) (set (filter_list info)) r"
      then have "wanted (visible_row t v) cells (zg_start rg) (set (filter_list info1)) r"
        using wanted_keys(1) [of "set (filter_list info1)" "set (filter_list info)"] arg_cong [OF keeps(3), of set]
        by (simp only: set_map)
      then show "wanted (visible_row t v) cells (zg_start rg) (set (active info1)) r"
        by (auto simp: wanted_def active_def)
    qed
    moreover have "same_columns state state1" "same_columns state state2"
      using inv res(2) state by (simp_all add: same_columns_def scan_inv_def ids_def)
    ultimately show ?thesis
      using init res(1) keeps(1,3) by (auto simp: ids_def)
  qed
qed


fun table_groups_ok ::
  "(nat \<Rightarrow> LogicalType) \<Rightarrow> (nat \<Rightarrow> nat \<Rightarrow> Value option) \<Rightarrow> nat list \<Rightarrow> (nat \<Rightarrow> row_version_manager option) \<Rightarrow> nat \<Rightarrow> nat \<Rightarrow> table_group list \<Rightarrow> bool" where
  "table_groups_ok types cells column_ids versions k start [] = True"
| "table_groups_ok types cells column_ids versions k start (grp # groups) =
    (let rg = ss_group (tg_source grp)
     in zg_start rg = start \<and> zg_count rg \<le> k * STANDARD_VECTOR_SIZE \<and>
        table_group_ok types cells column_ids (versions start) grp \<and>
        table_groups_ok types cells column_ids versions k (start + zg_count rg) groups)"

definition table_rows :: "table_group list \<Rightarrow> nat" where
  "table_rows groups = sum_list (map (\<lambda>grp. zg_count (ss_group (tg_source grp))) groups)"

text \<open>The reader sees a row of the table when the versions of its row group say so.\<close>

fun table_visible ::
  "transaction_data \<Rightarrow> (nat \<Rightarrow> row_version_manager option) \<Rightarrow> table_group list \<Rightarrow> nat \<Rightarrow> bool" where
  "table_visible t versions [] r = False"
| "table_visible t versions (grp # groups) r =
    (let rg = ss_group (tg_source grp)
     in if zg_start rg \<le> r \<and> r < zg_start rg + zg_count rg then visible_row t (versions (zg_start rg)) (r - zg_start rg)
        else table_visible t versions groups r)"

lemma scan_result_append:
  assumes "scan_result_ok vis cells start fs column_ids b (min n e) xs" "scan_result_ok vis cells start fs column_ids e (min n e') ys"
    and "b \<le> e" "e \<le> e'"
  shows "scan_result_ok vis cells start fs column_ids b (min n e') (xs @ ys)"
proof -
  note x = scan_result_okD [OF assms(1)] and y = scan_result_okD [OF assms(2)]
  have rows: "scan_rows (xs @ ys) = scan_rows xs @ scan_rows ys" by (simp add: scan_rows_def)
  show ?thesis
    unfolding scan_result_ok_def rows
  proof (intro conjI ballI allI impI)
    show "distinct (scan_rows xs @ scan_rows ys)" using x(1,2) y(1,2) by (fastforce simp: disjoint_iff)
  next
    fix r assume "r \<in> set (scan_rows xs @ scan_rows ys)"
    then have "b \<le> r \<and> r < min n e' \<and> allowed vis cells start fs r" using x(2) [of r] y(2) [of r] assms(3,4) by auto
    then show "b \<le> r" "r < min n e'" "allowed vis cells start fs r" by auto
  next
    fix r assume "b \<le> r \<and> r < min n e' \<and> wanted vis cells start fs r"
    then show "r \<in> set (scan_rows xs @ scan_rows ys)" using x(3) [of r] y(3) [of r] by (cases "r < e") auto
  next
    fix chunk assume "chunk \<in> set (xs @ ys)"
    then show "sc_columns chunk = map (\<lambda>c. map (\<lambda>r. cells c (start + r)) (sc_rows chunk)) column_ids"
      using x(4) [of chunk] y(4) [of chunk] by auto
  qed
qed

lemma scan_rows_row_ids: "scan_rows (row_ids start chunks) = map (\<lambda>r. start + r) (scan_rows chunks)"
  by (induction chunks) (auto simp: scan_rows_def row_ids_def)

lemma scan_result_row_ids:
  assumes "scan_result_ok vis cells start fs column_ids 0 n chunks" "\<And>r. r < n \<Longrightarrow> vis' (start + r) = vis r" "m = start + n"
  shows "scan_result_ok vis' cells 0 fs column_ids start m (row_ids start chunks)"
proof -
  note d = scan_result_okD [OF assms(1)]
  have al: "allowed vis' cells 0 fs (start + r) = allowed vis cells start fs r"
    and wa: "wanted vis' cells 0 fs (start + r) = wanted vis cells start fs r" if "r < n" for r
    using assms(2) [OF that] by (auto simp: allowed_def wanted_def)
  show ?thesis
    unfolding scan_result_ok_def scan_rows_row_ids
  proof (intro conjI ballI allI impI)
    show "distinct (map (\<lambda>r. start + r) (scan_rows chunks))" using d(1) by (simp add: distinct_map)
  next
    fix r assume "r \<in> set (map (\<lambda>r. start + r) (scan_rows chunks))"
    then show "start \<le> r" "r < m" "allowed vis' cells 0 fs r" using d(2) al assms(3) by auto
  next
    fix r assume r: "start \<le> r \<and> r < m \<and> wanted vis' cells 0 fs r"
    then have "r - start < n" "start + (r - start) = r" using assms(3) by auto
    then have "r - start \<in> set (scan_rows chunks)" using d(3) [of "r - start"] wa [of "r - start"] r by auto
    then show "r \<in> set (map (\<lambda>r. start + r) (scan_rows chunks))"
      using \<open>start + (r - start) = r\<close> by (metis image_eqI list.set_map)
  next
    fix chunk assume "chunk \<in> set (row_ids start chunks)"
    then obtain chunk0 where c: "chunk0 \<in> set chunks" "chunk = chunk0\<lparr>sc_rows := map (\<lambda>r. start + r) (sc_rows chunk0)\<rparr>"
      by (auto simp: row_ids_def)
    then show "sc_columns chunk = map (\<lambda>c. map (\<lambda>r. cells c (0 + r)) (sc_rows chunk)) column_ids"
      using d(4) [OF c(1)] by (simp add: o_def)
  qed
qed

lemma scan_result_vis:
  assumes "scan_result_ok vis cells 0 fs column_ids b n chunks" "\<And>r. b \<le> r \<Longrightarrow> r < n \<Longrightarrow> vis' r = vis r"
  shows "scan_result_ok vis' cells 0 fs column_ids b n chunks"
  using assms unfolding scan_result_ok_def wanted_def allowed_def by blast

lemma scan_result_keys:
  assumes "filter_key ` A = filter_key ` B"
  shows "scan_result_ok vis cells start A column_ids b n chunks = scan_result_ok vis cells start B column_ids b n chunks"
  unfolding scan_result_ok_def wanted_keys [OF assms] by (rule refl)

lemma table_filters_keys:
  assumes "filter_key ` set fs = filter_key ` set gs"
  shows "table_filters_ok types column_ids fs = table_filters_ok types column_ids gs"
proof -
  have "table_filters_ok types column_ids fs \<longleftrightarrow> (\<forall>(i, c, f) \<in> filter_key ` set fs. i < length column_ids \<and> c = column_ids ! i \<and>
      executable (types c) f \<and> wt_filter (types c) f \<and> distinct_free f \<and> (is_optional f \<or> \<not> satisfies f None))" for fs
    by (simp add: table_filters_ok_def filter_key_def)
  then show ?thesis by (simp only: assms)
qed

lemma scan_result_empty:
  assumes "scan_result_ok vis cells start fs column_ids b e chunks" "e \<le> b" "e' \<le> b"
  shows "scan_result_ok vis cells start fs column_ids b e' chunks"
proof -
  note d = scan_result_okD [OF assms(1)]
  have none: "set (scan_rows chunks) = {}"
  proof (rule equals0I)
    fix r assume "r \<in> set (scan_rows chunks)"
    then show False using d(2) [of r] assms(2) by simp
  qed
  show ?thesis
    unfolding scan_result_ok_def none using d(1,4) assms(3) by auto
qed

lemma scan_table_ok:
  assumes t: "reader t"
  shows "\<lbrakk>table_groups_ok types cells column_ids versions k b groups; column_flags_ok info;
      table_filters_ok types column_ids (filter_list info);
      \<And>v. distinct (perms v) \<and> set (perms v) = {..<length (filter_list info)};
      length (column_scans state) = length column_ids; gs_column_ids state = column_ids\<rbrakk> \<Longrightarrow>
    \<exists>chunks. scan_table (Suc k) t perms sels first info state groups = Some chunks \<and>
      scan_result_ok (table_visible t versions groups) cells 0 (set (filter_list info)) column_ids b
        (min (gs_max_row state) (b + table_rows groups)) chunks"
proof (induction groups arbitrary: first info state b)
  case Nil
  then show ?case by (simp add: scan_result_nil none_wanted_empty table_rows_def)
next
  case (Cons grp groups)
  define rg where "rg = ss_group (tg_source grp)"
  define mr where "mr = gs_max_row state"
  define e where "e = b + zg_count rg"
  have grp: "zg_start rg = b" "zg_count rg \<le> k * STANDARD_VECTOR_SIZE" "table_group_ok types cells column_ids (versions b) grp"
    "table_groups_ok types cells column_ids versions k e groups"
    using Cons.prems(1) by (simp_all add: Let_def rg_def e_def)
  have total: "b + table_rows (grp # groups) = e + table_rows groups" by (simp add: table_rows_def e_def rg_def)
  show ?case
  proof (cases "\<not> first \<and> b \<ge> mr")
    case True
    then show ?thesis using grp(1) by (simp add: Let_def mr_def scan_result_nil none_wanted_empty flip: rg_def)
  next
    case False
    have a: "table_group_ok types cells (gs_column_ids state) (versions b) grp"
      "table_filters_ok types (gs_column_ids state) (filter_list info)"
      "length (column_scans state) = length (gs_column_ids state)"
      "zg_count (ss_group (tg_source grp)) \<le> k * STANDARD_VECTOR_SIZE"
      using grp Cons.prems by (simp_all add: rg_def)
    from scan_group_ok [where perms = perms and sels = sels, OF t a(1) Cons.prems(2) a(2) Cons.prems(4) a(3,4),
        folded rg_def mr_def, unfolded grp(1) Cons.prems(6)]
    obtain scan info1 state1 where init: "rg_InitializeScan rg (tg_segments grp) info state = Some (scan, info1, state1)"
      "column_flags_ok info1" "map filter_key (filter_list info1) = map filter_key (filter_list info)" "same_columns state state1"
      and res: "if scan then \<exists>g' state2 chunks. scan_row_group (Suc k) (tg_source grp) t info1 perms sels (tg_versions grp, state1) = Some (g', state2, chunks) \<and>
          same_columns state state2 \<and>
          scan_result_ok (visible_row t (versions b)) cells b (set (filter_list info)) column_ids 0 (min (zg_count rg) (mr - b)) chunks
        else none_wanted (visible_row t (versions b)) cells b (set (filter_list info)) 0 (min (zg_count rg) (mr - b))"
      by blast
    define V where "V = table_visible t versions (grp # groups)"
    have V: "V (b + r) = visible_row t (versions b) r" if "r < zg_count rg" for r
      using that grp(1) by (simp add: V_def Let_def flip: rg_def)
    have V': "V r = table_visible t versions groups r" if "e \<le> r" for r
      using that grp(1) by (simp add: V_def Let_def e_def flip: rg_def)
    have keys: "filter_key ` set (filter_list info1) = filter_key ` set (filter_list info)"
      using arg_cong [OF init(3), of set] by (simp only: set_map)
    have rest: "\<exists>chunks. scan_table (Suc k) t perms sels first' info1 state' groups = Some chunks \<and>
        scan_result_ok V cells 0 (set (filter_list info)) column_ids e (min mr (e + table_rows groups)) chunks"
      if "same_columns state state'" for first' state'
    proof -
      have "gs_column_ids state' = column_ids" "length (column_scans state') = length column_ids" "gs_max_row state' = mr"
        using that Cons.prems(5,6) by (simp_all add: same_columns_def mr_def)
      moreover have "table_filters_ok types column_ids (filter_list info1)"
        using Cons.prems(3) table_filters_keys [OF keys] by simp
      moreover have "distinct (perms v) \<and> set (perms v) = {..<length (filter_list info1)}" for v
        using Cons.prems(4) arg_cong [OF init(3), of length] by simp
      ultimately obtain chunks where "scan_table (Suc k) t perms sels first' info1 state' groups = Some chunks"
        "scan_result_ok (table_visible t versions groups) cells 0 (set (filter_list info1)) column_ids e (min mr (e + table_rows groups)) chunks"
        using Cons.IH [OF grp(4) init(2), of state' first'] by blast
      moreover from this(2) have "scan_result_ok V cells 0 (set (filter_list info)) column_ids e (min mr (e + table_rows groups)) chunks"
        unfolding scan_result_keys [OF keys] by (rule scan_result_vis) (rule V')
      ultimately show ?thesis by blast
    qed
    have join: "scan_result_ok V cells 0 (set (filter_list info)) column_ids b (min mr (e + table_rows groups)) (xs @ ys)"
      if "scan_result_ok V cells 0 (set (filter_list info)) column_ids b (min mr e) xs"
        "scan_result_ok V cells 0 (set (filter_list info)) column_ids e (min mr (e + table_rows groups)) ys" for xs ys
      using scan_result_append [OF that] by (simp add: e_def)
    have own: "scan_result_ok V cells 0 (set (filter_list info)) column_ids b (min mr e) (row_ids b chunks)"
      if "scan_result_ok (visible_row t (versions b)) cells b (set (filter_list info)) column_ids 0 (min (zg_count rg) (mr - b)) chunks" for chunks
    proof (cases "b \<le> mr")
      case True
      show ?thesis by (rule scan_result_row_ids [OF that]) (use V True in \<open>auto simp: e_def\<close>)
    next
      case False
      have "scan_result_ok V cells 0 (set (filter_list info)) column_ids b b (row_ids b chunks)"
        by (rule scan_result_row_ids [OF that]) (use V False in auto)
      then show ?thesis by (rule scan_result_empty) (use False in simp_all)
    qed
    show ?thesis
    proof (cases scan)
      case no: False
      have none: "scan_result_ok V cells 0 (set (filter_list info)) column_ids b (min mr e) []"
      proof -
        have "scan_result_ok (visible_row t (versions b)) cells b (set (filter_list info)) column_ids 0 (min (zg_count rg) (mr - b)) []"
          unfolding scan_result_nil using res no by (simp only: if_False)
        from own [OF this] show ?thesis by (simp only: row_ids_def list.map)
      qed
      obtain chunks where "scan_table (Suc k) t perms sels first info1 state1 groups = Some chunks"
        "scan_result_ok V cells 0 (set (filter_list info)) column_ids b (min mr (e + table_rows groups)) chunks"
        using rest [OF init(4), of first] join [OF none, unfolded append_Nil] by blast
      then show ?thesis
        using False init(1) no grp(1) by (auto simp: Let_def total V_def mr_def simp flip: rg_def simp del: table_visible.simps scan_row_group.simps)
    next
      case yes: True
      obtain g' state2 chunks where sc: "scan_row_group (Suc k) (tg_source grp) t info1 perms sels (tg_versions grp, state1) = Some (g', state2, chunks)"
        "same_columns state state2"
        "scan_result_ok (visible_row t (versions b)) cells b (set (filter_list info)) column_ids 0 (min (zg_count rg) (mr - b)) chunks"
        using res yes by auto
      have mr: "gs_max_row state2 = mr" using sc(2) by (simp add: same_columns_def mr_def)
      show ?thesis
      proof (cases "mr \<le> e")
        case True
        then have "min mr (e + table_rows groups) = min mr e" by simp
        then show ?thesis
          using own [OF sc(3)] False init(1) yes sc(1) grp(1) mr True
          by (auto simp: Let_def total V_def mr_def e_def simp flip: rg_def simp del: table_visible.simps scan_row_group.simps)
      next
        case more: False
        obtain ys where ys: "scan_table (Suc k) t perms sels False info1 state2 groups = Some ys"
          "scan_result_ok V cells 0 (set (filter_list info)) column_ids e (min mr (e + table_rows groups)) ys"
          using rest [OF sc(2)] by blast
        then show ?thesis
          using join [OF own [OF sc(3)] ys(2)] False init(1) yes sc(1) grp(1) mr more
          by (auto simp: Let_def total V_def mr_def e_def simp flip: rg_def simp del: table_visible.simps scan_row_group.simps)
      qed
    qed
  qed
qed

lemma ScanFilterInfo_Initialize_ScanFilter:
  "filter_key ` set (filter_list (ScanFilterInfo_Initialize filters column_ids)) = (\<lambda>(i, tf). (i, column_ids ! i, tf)) ` set filters"
  by (auto simp: ScanFilterInfo_Initialize_def Let_def filter_key_def image_image intro!: image_cong)



text \<open>A table of three rows, the second of which is NULL.\<close>

definition example_table_cells :: "nat \<Rightarrow> nat \<Rightarrow> Value option" where
  "example_table_cells c r = (if c = COLUMN_IDENTIFIER_ROW_ID then Some (NumericValue (int r))
     else if r = 1 then None else Some (NumericValue (int (1 + 2 * r))))"

definition example_types :: "nat \<Rightarrow> LogicalType" where
  "example_types c = (if c = COLUMN_IDENTIFIER_ROW_ID then LT_BIGINT else LT_INTEGER)"

definition example_table_group :: table_group where
  "example_table_group = \<lparr>tg_source = \<lparr>ss_group = \<lparr>zg_start = 0, zg_count = 3, zg_stats = (\<lambda>_. example_stats True 1 5)\<rparr>,
       ss_updates = (\<lambda>_. None),
       ss_vectors = (\<lambda>_ _. \<lparr>vec_type = LT_INTEGER, vec_sel = [0, 1, 2],
         vec_data = [NumericValue 1, NumericValue 9, NumericValue 5], vec_validity = Some [True, False, True]\<rparr>)\<rparr>,
     tg_segments = (\<lambda>_. [\<lparr>si_start = 0, si_count = 3, si_stats = example_stats False 1 5\<rparr>]),
     tg_versions = RowGroup 0 3\<rparr>"

definition example_table_scan :: group_scan where
  "example_table_scan = \<lparr>gs_vector_index = 0, gs_max_row = 3, max_row_group_row = 0,
     column_scans = [\<lparr>cs_row_index = 0, cs_segments = [], segment_checked = False\<rparr>], gs_column_ids = [7]\<rparr>"

lemma less_3: "r < 3 \<longleftrightarrow> r = 0 \<or> r = 1 \<or> r = (2::nat)" by auto

lemma example_source_ok: "source_ok (tg_source example_table_group) example_types example_table_cells [7]"
proof -
  have cell: "vector_cell (ss_vectors (tg_source example_table_group) 7 v) i = example_table_cells 7 (v * STANDARD_VECTOR_SIZE + i)"
    if "v * STANDARD_VECTOR_SIZE + i < 3" for v i
  proof -
    have "v = 0" using that by (cases v) (auto simp: STANDARD_VECTOR_SIZE_def)
    moreover from this that have "i = 0 \<or> i = 1 \<or> i = 2" by auto
    ultimately show ?thesis
      by (auto simp: example_table_group_def example_table_cells_def COLUMN_IDENTIFIER_ROW_ID_def vector_cell_def RowIsValid_def Let_def)
  qed
  have "zg_start (ss_group (tg_source example_table_group)) = 0" "zg_count (ss_group (tg_source example_table_group)) = 3"
    "vec_type (ss_vectors (tg_source example_table_group) 7 v) = LT_INTEGER" for v
    by (simp_all add: example_table_group_def)
  then show ?thesis
    using cell by (simp add: source_ok_def example_types_def) (simp add: example_table_cells_def COLUMN_IDENTIFIER_ROW_ID_def)
qed

lemma example_table_ok: "table_groups_ok example_types example_table_cells [7] (\<lambda>_. None) 1 0 [example_table_group]"
proof -
  have "segment_ok LT_INTEGER None (example_table_cells 7) \<lparr>si_start = 0, si_count = 3, si_stats = example_stats False 1 5\<rparr>"
    by (auto simp: segment_ok_def example_stats_wf less_3 example_table_cells_def COLUMN_IDENTIFIER_ROW_ID_def example_covers
        simp del: covers.simps) (simp add: example_stats_def)
  then have "column_segments_ok (ss_group (tg_source example_table_group)) LT_INTEGER None (example_table_cells 7)
      (tg_segments example_table_group 7)"
    by (simp add: column_segments_ok_def example_table_group_def)
  moreover have "group_row (ss_group (tg_source example_table_group)) (\<lambda>c. example_table_cells c (0 + r))" if "r < 3" for r
    using that by (auto simp: group_row_def example_table_group_def less_3 example_table_cells_def example_stats_wf example_covers
        simp del: covers.simps)
  moreover have "versions_ok 3 None (RowGroup 0 3)"
    by (simp add: versions_ok_def GetVersionInfo_def HasUnloadedDeletes_def RowGroup_def SegmentBase_def)
  moreover have "stats_type (example_stats True 1 5) = LT_INTEGER" by (simp add: example_stats_def)
  ultimately show ?thesis
    using example_source_ok
    by (simp add: table_group_ok_def Let_def STANDARD_VECTOR_SIZE_def)
      (simp add: example_table_group_def example_types_def COLUMN_IDENTIFIER_ROW_ID_def example_stats_wf)
qed


end
