(* ===== verification/FilterSets.thy ===== *)
theory FilterSets
  imports TableFilters
begin

text \<open>
  How the filters of a scan are collected (\<open>planner/table_filter.cpp\<close>): those of the plan, those
  added while the query runs, and their unification.
\<close>

section \<open>Filter sets\<close>

text \<open>
  A \<open>TableFilterSet\<close> maps columns to filters; the code's ordered map is the list of its entries,
  ordered by column.
\<close>

type_synonym TableFilterSet = "(idx_t \<times> TableFilter) list"

fun map_set :: "idx_t \<Rightarrow> 'v \<Rightarrow> (idx_t \<times> 'v) list \<Rightarrow> (idx_t \<times> 'v) list" where
  "map_set k v [] = [(k, v)]"
| "map_set k v ((k', v') # m) =
    (if k = k' then (k, v) # m
     else if k < k' then (k, v) # (k', v') # m
     else (k', v') # map_set k v m)"

definition PushFilter :: "idx_t \<Rightarrow> TableFilter \<Rightarrow> TableFilterSet \<Rightarrow> TableFilterSet" where
  "PushFilter column_index tf filters =
    (case map_of filters column_index of
       None \<Rightarrow> map_set column_index tf filters
     | Some entry \<Rightarrow>
        (case entry of
           ConjunctionAndFilter child_filters \<Rightarrow>
            map_set column_index (ConjunctionAndFilter (child_filters @ [tf])) filters
         | _ \<Rightarrow> map_set column_index (ConjunctionAndFilter [entry, tf]) filters))"

text \<open>
  \<open>UnifyFilters\<close> keeps of the children of a conjunction the tightest bound on each side; the loop
  stops at the first equality.  Its state: the filters kept so far and the best bounds, each a
  comparison with its constant.
\<close>

type_synonym constant_filter = "ExpressionType \<times> LogicalType \<times> Value"

fun constant_filter :: "constant_filter \<Rightarrow> TableFilter" where
  "constant_filter (cmp, t, c) = ConstantFilter cmp t c"

record unify_state =
  unified :: "TableFilter list"
  best_greater :: "constant_filter option"
  best_less :: "constant_filter option"
  equal_filter :: "constant_filter option"

text \<open>\<open>ConstantFilter::Compare\<close> on the constant of another filter.\<close>

fun ConstantFilter_Compare :: "constant_filter \<Rightarrow> Value \<Rightarrow> bool" where
  "ConstantFilter_Compare (cmp, t, c) v = Compare cmp v c"

fun unify_loop :: "TableFilter list \<Rightarrow> unify_state \<Rightarrow> unify_state" where
  "unify_loop [] s = s"
| "unify_loop (ConstantFilter cmp t c # fs) s =
    (if cmp = COMPARE_EQUAL then s\<lparr>equal_filter := Some (cmp, t, c)\<rparr>
     else if cmp = COMPARE_GREATERTHANOREQUALTO then
       unify_loop fs
        (case best_greater s of
           None \<Rightarrow> s\<lparr>best_greater := Some (cmp, t, c)\<rparr>
         | Some best \<Rightarrow>
            if ConstantFilter_Compare best c then s\<lparr>best_greater := Some (cmp, t, c)\<rparr> else s)
     else if cmp = COMPARE_LESSTHANOREQUALTO then
       unify_loop fs
        (case best_less s of
           None \<Rightarrow> s\<lparr>best_less := Some (cmp, t, c)\<rparr>
         | Some best \<Rightarrow>
            if ConstantFilter_Compare best c then s\<lparr>best_less := Some (cmp, t, c)\<rparr> else s)
     else unify_loop fs (s\<lparr>unified := unified s @ [ConstantFilter cmp t c]\<rparr>))"
| "unify_loop (f # fs) s = unify_loop fs (s\<lparr>unified := unified s @ [f]\<rparr>)"

definition option_list :: "'a option \<Rightarrow> 'a list" where
  "option_list x = (case x of None \<Rightarrow> [] | Some a \<Rightarrow> [a])"

definition unify_filter :: "TableFilter \<Rightarrow> TableFilter" where
  "unify_filter tf =
    (case tf of
       ConjunctionAndFilter child_filters \<Rightarrow>
        let s = unify_loop child_filters
              \<lparr>unified = [], best_greater = None, best_less = None, equal_filter = None\<rparr>
        in (case equal_filter s of
              Some e \<Rightarrow> constant_filter e
            | None \<Rightarrow> ConjunctionAndFilter (unified s @
                map constant_filter (option_list (best_greater s) @ option_list (best_less s))))
     | _ \<Rightarrow> tf)"

definition UnifyFilters :: "TableFilterSet \<Rightarrow> TableFilterSet" where
  "UnifyFilters filters = map (\<lambda>(column, tf). (column, unify_filter tf)) filters"

text \<open>
  \<open>GetFinalTableFilters\<close>: the filters of the plan, then those the operators of the query added at
  run time (one set per operator); \<open>None\<close> is the null pointer.
\<close>

fun push_entry :: "idx_t \<times> TableFilter \<Rightarrow> TableFilterSet \<Rightarrow> TableFilterSet" where
  "push_entry (column, ConjunctionAndFilter child_filters) result =
    fold (PushFilter column) child_filters result"
| "push_entry (column, tf) result = PushFilter column tf result"

definition GetFinalTableFilters ::
  "TableFilterSet option \<Rightarrow> TableFilterSet list \<Rightarrow> TableFilterSet option" where
  "GetFinalTableFilters existing_filters filters =
    (let result = (case existing_filters of
           None \<Rightarrow> []
         | Some existing \<Rightarrow> fold (\<lambda>(column, tf). PushFilter column tf) existing []);
         result1 = fold (fold push_entry) filters result
     in if result1 = [] then None else Some (UnifyFilters result1))"

text \<open>A row satisfies a set of filters when every column satisfies its filter.\<close>

definition filters_hold :: "TableFilterSet \<Rightarrow> (idx_t \<Rightarrow> Value option) \<Rightarrow> bool" where
  "filters_hold filters row = (\<forall>(column, tf) \<in> set filters. satisfies tf (row column))"


subsection \<open>Pushing a filter is conjunction\<close>

definition wf_filters :: "(idx_t \<times> 'v) list \<Rightarrow> bool" where
  "wf_filters filters = sorted_wrt (<) (map fst filters)"

lemma set_map_set:
  "wf_filters m \<Longrightarrow> set (map_set k v m) = insert (k, v) {e \<in> set m. fst e \<noteq> k}"
proof (induction k v m rule: map_set.induct)
  case (2 k v k' v' m)
  then have m: "wf_filters m" "\<And>e. e \<in> set m \<Longrightarrow> k' < fst e" by (auto simp: wf_filters_def)
  show ?case
  proof (cases "k \<le> k'")
    case True
    then have "fst e \<noteq> k" if "e \<in> set m" for e using m(2) [OF that] by simp
    then show ?thesis using True by auto
  next
    case False
    then show ?thesis using 2(1) m(1) by auto
  qed
qed simp

lemma wf_map_set: "wf_filters m \<Longrightarrow> wf_filters (map_set k v m)"
proof (induction k v m rule: map_set.induct)
  case (2 k v k' v' m)
  then have m: "wf_filters m" "\<forall>e \<in> set m. k' < fst e" by (auto simp: wf_filters_def)
  then show ?case
    using 2 set_map_set [OF m(1), of k v] by (auto simp: wf_filters_def)
qed (simp add: wf_filters_def)

lemma map_of_wf: "wf_filters m \<Longrightarrow> map_of m k = Some v \<longleftrightarrow> (k, v) \<in> set m"
proof (rule map_of_eq_Some_iff)
  assume "wf_filters m"
  then show "distinct (map fst m)" by (simp add: wf_filters_def strict_sorted_iff)
qed

lemma wf_PushFilter: "wf_filters fs \<Longrightarrow> wf_filters (PushFilter c f fs)"
  by (simp add: PushFilter_def wf_map_set split: option.split TableFilter.split)

lemma filters_hold_map_set:
  assumes "wf_filters fs"
  shows "filters_hold (map_set c g fs) row \<longleftrightarrow>
    satisfies g (row c) \<and> (\<forall>(k, f) \<in> set fs. k \<noteq> c \<longrightarrow> satisfies f (row k))"
  by (auto simp: filters_hold_def set_map_set [OF assms])

lemma PushFilter_holds:
  assumes "wf_filters fs"
  shows "filters_hold (PushFilter c f fs) row \<longleftrightarrow> filters_hold fs row \<and> satisfies f (row c)"
proof (cases "map_of fs c")
  case None
  then have "k \<noteq> c" if "(k, g) \<in> set fs" for k g
    using that None by (force simp: map_of_eq_None_iff)
  then have "filters_hold fs row \<longleftrightarrow> (\<forall>(k, f) \<in> set fs. k \<noteq> c \<longrightarrow> satisfies f (row k))"
    by (fastforce simp: filters_hold_def)
  then show ?thesis
    using None assms by (auto simp: PushFilter_def filters_hold_map_set)
next
  case (Some e)
  have e: "g = e" if "(c, g) \<in> set fs" for g
    using that Some map_of_wf [OF assms, of c g] by (metis option.inject)
  have ce: "(c, e) \<in> set fs"
    using Some map_of_wf [OF assms, of c e] by blast
  have "filters_hold fs row \<longleftrightarrow> satisfies e (row c) \<and> (\<forall>(k, f) \<in> set fs. k \<noteq> c \<longrightarrow> satisfies f (row k))"
  proof (intro iffI conjI ballI)
    assume h: "filters_hold fs row"
    then show "satisfies e (row c)" using ce by (auto simp: filters_hold_def)
    show "case p of (k, f) \<Rightarrow> k \<noteq> c \<longrightarrow> satisfies f (row k)" if "p \<in> set fs" for p
      using h that by (auto simp: filters_hold_def)
  next
    assume h: "satisfies e (row c) \<and> (\<forall>(k, f) \<in> set fs. k \<noteq> c \<longrightarrow> satisfies f (row k))"
    have "satisfies f (row k)" if "(k, f) \<in> set fs" for k f
      using h e [of f] that by (cases "k = c") auto
    then show "filters_hold fs row" by (auto simp: filters_hold_def)
  qed
  then show ?thesis
    using Some assms by (cases e) (auto simp: PushFilter_def filters_hold_map_set)
qed

subsection \<open>Unifying filters\<close>

text \<open>Of two bounds on the same side the tighter one is enough.\<close>

definition same_kind :: "Value \<Rightarrow> Value \<Rightarrow> bool" where
  "same_kind v w = (case (v, w) of
      (NumericValue _, NumericValue _) \<Rightarrow> True | (StringValue _, StringValue _) \<Rightarrow> True | _ \<Rightarrow> False)"

lemma value_has_type_same_kind: "value_has_type t v \<Longrightarrow> value_has_type t w \<Longrightarrow> same_kind v w"
  by (cases v; cases w) (auto simp: same_kind_def)

lemma tighter_bound:
  assumes "same_kind b c" "same_kind b x" "cmp \<in> {COMPARE_GREATERTHANOREQUALTO, COMPARE_LESSTHANOREQUALTO}"
  shows "Compare cmp c b \<Longrightarrow> Compare cmp x c \<Longrightarrow> Compare cmp x b"
    and "\<not> Compare cmp c b \<Longrightarrow> Compare cmp x b \<Longrightarrow> Compare cmp x c"
proof -
  show "Compare cmp c b \<Longrightarrow> Compare cmp x c \<Longrightarrow> Compare cmp x b"
    using assms by (cases b; cases c; cases x)
      (auto simp: same_kind_def string_GreaterThan_less dest: bytes_not_less_trans)
  show "\<not> Compare cmp c b \<Longrightarrow> Compare cmp x b \<Longrightarrow> Compare cmp x c"
    using assms by (cases b; cases c; cases x)
      (auto simp: same_kind_def string_GreaterThan_less dest: bytes_not_less_trans bytes_less_trans)
qed


text \<open>What a state of the loop asks of a cell.\<close>

definition unify_holds :: "unify_state \<Rightarrow> Value option \<Rightarrow> bool" where
  "unify_holds s x \<longleftrightarrow>
    (\<forall>f \<in> set (unified s). satisfies f x) \<and>
    (\<forall>e \<in> set_option (best_greater s) \<union> set_option (best_less s). satisfies (constant_filter e) x)"

definition wf_unify :: "LogicalType \<Rightarrow> unify_state \<Rightarrow> bool" where
  "wf_unify type s \<longleftrightarrow> equal_filter s = None \<and>
    (\<forall>(cmp, t, c) \<in> set_option (best_greater s). cmp = COMPARE_GREATERTHANOREQUALTO \<and> value_has_type type c) \<and>
    (\<forall>(cmp, t, c) \<in> set_option (best_less s). cmp = COMPARE_LESSTHANOREQUALTO \<and> value_has_type type c)"

fun is_equality :: "TableFilter \<Rightarrow> bool" where
  "is_equality (ConstantFilter cmp t c) = (cmp = COMPARE_EQUAL)"
| "is_equality _ = False"

lemma tighter_cell:
  assumes "value_has_type type b" "value_has_type type c" "\<And>v. x = Some v \<Longrightarrow> value_has_type type v"
    and "cmp \<in> {COMPARE_GREATERTHANOREQUALTO, COMPARE_LESSTHANOREQUALTO}"
  shows "Compare cmp c b \<Longrightarrow> compare_cell cmp x c \<Longrightarrow> compare_cell cmp x b"
    and "\<not> Compare cmp c b \<Longrightarrow> compare_cell cmp x b \<Longrightarrow> compare_cell cmp x c"
proof -
  have "same_kind b c \<and> same_kind b v" if "x = Some v" for v
    using assms(1-3) value_has_type_same_kind that by blast
  then show "Compare cmp c b \<Longrightarrow> compare_cell cmp x c \<Longrightarrow> compare_cell cmp x b"
    and "\<not> Compare cmp c b \<Longrightarrow> compare_cell cmp x b \<Longrightarrow> compare_cell cmp x c"
    using tighter_bound [of b c "the x" cmp] assms(4) by (cases x; force simp: compare_cell_def)+
qed

lemma unify_loop_exact:
  assumes "wf_unify type s" "list_all (wt_filter type) fs" "\<And>v. x = Some v \<Longrightarrow> value_has_type type v"
    and "\<not> list_ex is_equality fs"
  shows "equal_filter (unify_loop fs s) = None \<and>
    (unify_holds (unify_loop fs s) x \<longleftrightarrow> unify_holds s x \<and> (\<forall>f \<in> set fs. satisfies f x))"
  using assms(1,2,4)
proof (induction fs s rule: unify_loop.induct)
  case (2 cmp t c fs s)
  then have c: "value_has_type type c" and fs: "list_all (wt_filter type) fs" "\<not> list_ex is_equality fs"
    and ne: "cmp \<noteq> COMPARE_EQUAL" by auto
  note tight = tighter_cell(1) [OF _ c, where cmp = cmp and x = x, OF _ assms(3)]
    tighter_cell(2) [OF _ c, where cmp = cmp and x = x, OF _ assms(3)]
  consider (ge) "cmp = COMPARE_GREATERTHANOREQUALTO" | (le) "cmp = COMPARE_LESSTHANOREQUALTO"
    | (other) "cmp \<noteq> COMPARE_GREATERTHANOREQUALTO" "cmp \<noteq> COMPARE_LESSTHANOREQUALTO" by blast
  then show ?case
  proof cases
    case ge
    define s' where "s' = (case best_greater s of
        None \<Rightarrow> s\<lparr>best_greater := Some (cmp, t, c)\<rparr>
      | Some best \<Rightarrow> if ConstantFilter_Compare best c then s\<lparr>best_greater := Some (cmp, t, c)\<rparr> else s)"
    have "wf_unify type s'" "unify_holds s' x \<longleftrightarrow> unify_holds s x \<and> compare_cell cmp x c"
      using 2(4) c ge tight by (auto simp: s'_def wf_unify_def unify_holds_def split: option.splits if_splits)
    then show ?thesis
      using 2(1) [OF ne ge] fs ge by (auto simp: s'_def)
  next
    case le
    define s' where "s' = (case best_less s of
        None \<Rightarrow> s\<lparr>best_less := Some (cmp, t, c)\<rparr>
      | Some best \<Rightarrow> if ConstantFilter_Compare best c then s\<lparr>best_less := Some (cmp, t, c)\<rparr> else s)"
    have "wf_unify type s'" "unify_holds s' x \<longleftrightarrow> unify_holds s x \<and> compare_cell cmp x c"
      using 2(4) c le tight by (auto simp: s'_def wf_unify_def unify_holds_def split: option.splits if_splits)
    then show ?thesis
      using 2(2) [OF ne _ le] fs le by (auto simp: s'_def)
  next
    case other
    then show ?thesis
      using 2(3) [OF ne other] 2(4) fs ne by (auto simp: wf_unify_def unify_holds_def)
  qed
qed (auto simp: wf_unify_def unify_holds_def)

lemma unify_loop_equal:
  "list_ex is_equality fs \<Longrightarrow> equal_filter s = None \<Longrightarrow>
    \<exists>e. equal_filter (unify_loop fs s) = Some e \<and> constant_filter e \<in> set fs"
proof (induction fs s rule: unify_loop.induct)
  case (2 cmp t c fs s)
  then show ?case by (auto split: option.splits if_splits)
qed auto


lemma unify_filter_cases:
  obtains (and_filter) fs where "f = ConjunctionAndFilter fs" | (same) "unify_filter f = f"
    "\<And>fs. f \<noteq> ConjunctionAndFilter fs"
  by (cases f) (auto simp: unify_filter_def)

definition equality_inside :: "TableFilter \<Rightarrow> bool" where
  "equality_inside f = (case f of ConjunctionAndFilter fs \<Rightarrow> list_ex is_equality fs | _ \<Rightarrow> False)"

lemma set_option_list [simp]: "set (option_list x) = set_option x"
  by (cases x) (simp_all add: option_list_def)

lemma unify_filter_exact:
  assumes "wt_filter type f" "\<And>v. x = Some v \<Longrightarrow> value_has_type type v" "\<not> equality_inside f"
  shows "satisfies (unify_filter f) x = satisfies f x"
proof (cases f rule: unify_filter_cases)
  case (and_filter fs)
  let ?s = "\<lparr>unified = [], best_greater = None, best_less = None, equal_filter = None\<rparr>"
  have "equal_filter (unify_loop fs ?s) = None \<and>
      (unify_holds (unify_loop fs ?s) x \<longleftrightarrow> unify_holds ?s x \<and> (\<forall>f \<in> set fs. satisfies f x))"
    using assms unfolding and_filter
    by (intro unify_loop_exact) (auto simp: wf_unify_def equality_inside_def)
  then show ?thesis
    by (simp add: and_filter unify_filter_def Let_def unify_holds_def set_option_list ball_Un)
qed simp

lemma unify_filter_weaker:
  assumes "wt_filter type f" "\<And>v. x = Some v \<Longrightarrow> value_has_type type v" "satisfies f x"
  shows "satisfies (unify_filter f) x"
proof (cases "equality_inside f")
  case True
  then obtain fs where f: "f = ConjunctionAndFilter fs" "list_ex is_equality fs"
    by (auto simp: equality_inside_def split: TableFilter.splits)
  obtain e where e: "equal_filter (unify_loop fs
      \<lparr>unified = [], best_greater = None, best_less = None, equal_filter = None\<rparr>) = Some e"
    "constant_filter e \<in> set fs"
    using unify_loop_equal [OF f(2)] by (metis unify_state.select_convs(4))
  then show ?thesis using assms(3) by (auto simp: f unify_filter_def Let_def)
next
  case False
  then show ?thesis using unify_filter_exact assms by blast
qed

subsection \<open>The filters a scan runs with\<close>

definition wt_filters :: "(idx_t \<Rightarrow> LogicalType) \<Rightarrow> TableFilterSet \<Rightarrow> bool" where
  "wt_filters types filters = (\<forall>(c, f) \<in> set filters. wt_filter (types c) f)"

definition wt_row :: "(idx_t \<Rightarrow> LogicalType) \<Rightarrow> (idx_t \<Rightarrow> Value option) \<Rightarrow> bool" where
  "wt_row types row = (\<forall>c v. row c = Some v \<longrightarrow> value_has_type (types c) v)"

text \<open>What pushing keeps of a set: order, types, and (for \<open>eq\<close>) that no conjunction holds an equality.\<close>

definition good_set :: "(idx_t \<Rightarrow> LogicalType) \<Rightarrow> bool \<Rightarrow> TableFilterSet \<Rightarrow> bool" where
  "good_set types eq fs \<longleftrightarrow> wf_filters fs \<and> wt_filters types fs \<and>
    (eq \<longrightarrow> (\<forall>(c, f) \<in> set fs. \<not> is_equality f \<and> \<not> equality_inside f))"

lemma good_set_PushFilter:
  assumes "good_set types eq fs" "wt_filter (types c) f" "eq \<longrightarrow> \<not> is_equality f \<and> \<not> equality_inside f"
  shows "good_set types eq (PushFilter c f fs)"
proof -
  have wf: "wf_filters fs" using assms(1) by (simp add: good_set_def)
  have e: "wt_filter (types c) e" "eq \<longrightarrow> \<not> is_equality e \<and> \<not> equality_inside e" if "map_of fs c = Some e" for e
    using that assms(1) map_of_wf [OF wf, of c e] by (auto simp: good_set_def wt_filters_def)
  have set_ok: "good_set types eq (map_set c g fs)"
    if "wt_filter (types c) g" "eq \<longrightarrow> \<not> is_equality g \<and> \<not> equality_inside g" for g
    using that assms(1) wf by (auto simp: good_set_def wt_filters_def set_map_set wf_map_set)
  show ?thesis
  proof (cases "map_of fs c")
    case None
    then show ?thesis using set_ok assms(2,3) by (simp add: PushFilter_def)
  next
    case (Some g)
    then show ?thesis
      using e [OF Some] assms(2,3) set_ok
      by (cases g) (auto simp: PushFilter_def equality_inside_def)
  qed
qed

lemma fold_PushFilter:
  assumes "good_set types eq r" "\<And>f. f \<in> set fs \<Longrightarrow> wt_filter (types c) f"
    and "\<And>f. f \<in> set fs \<Longrightarrow> eq \<longrightarrow> \<not> is_equality f \<and> \<not> equality_inside f"
  shows "good_set types eq (fold (PushFilter c) fs r) \<and>
    (filters_hold (fold (PushFilter c) fs r) row \<longleftrightarrow> filters_hold r row \<and> (\<forall>f \<in> set fs. satisfies f (row c)))"
  using assms
proof (induction fs arbitrary: r)
  case (Cons f fs)
  then have "good_set types eq (PushFilter c f r)" by (intro good_set_PushFilter) auto
  moreover have "filters_hold (PushFilter c f r) row \<longleftrightarrow> filters_hold r row \<and> satisfies f (row c)"
    using Cons.prems(1) by (intro PushFilter_holds) (simp add: good_set_def)
  ultimately show ?case using Cons.IH [of "PushFilter c f r"] Cons.prems by auto
qed simp


text \<open>Pushing an entry of a dynamic set, which splits a conjunction.\<close>

definition entry_ok :: "(idx_t \<Rightarrow> LogicalType) \<Rightarrow> bool \<Rightarrow> idx_t \<times> TableFilter \<Rightarrow> bool" where
  "entry_ok types eq e \<longleftrightarrow> wt_filter (types (fst e)) (snd e) \<and>
    (eq \<longrightarrow> \<not> is_equality (snd e) \<and> \<not> equality_inside (snd e) \<and>
      (\<forall>fs. snd e = ConjunctionAndFilter fs \<longrightarrow> \<not> list_ex equality_inside fs))"

lemma push_entry_holds:
  assumes "good_set types eq r" "entry_ok types eq e"
  shows "good_set types eq (push_entry e r) \<and>
    (filters_hold (push_entry e r) row \<longleftrightarrow> filters_hold r row \<and> satisfies (snd e) (row (fst e)))"
proof (cases "\<exists>c fs. e = (c, ConjunctionAndFilter fs)")
  case True
  then obtain c fs where e: "e = (c, ConjunctionAndFilter fs)" by blast
  show ?thesis
    using fold_PushFilter [OF assms(1), of fs c row] assms(2)
    by (auto simp: e entry_ok_def list_all_iff list_ex_iff equality_inside_def)
next
  case False
  obtain c f where e: "e = (c, f)" by fastforce
  with False have "push_entry e r = PushFilter c f r" by (cases f) auto
  then show ?thesis
    using fold_PushFilter [OF assms(1), of "[f]" c row] assms(2) by (auto simp: e entry_ok_def)
qed

lemma fold_push_entries:
  assumes "good_set types eq r" "\<And>e. e \<in> set es \<Longrightarrow> entry_ok types eq e"
  shows "good_set types eq (fold push_entry es r) \<and>
    (filters_hold (fold push_entry es r) row \<longleftrightarrow> filters_hold r row \<and> filters_hold es row)"
  using assms
proof (induction es arbitrary: r)
  case (Cons e es)
  then show ?case
    using push_entry_holds [of types eq r e row] by (auto simp: filters_hold_def)
qed (simp add: filters_hold_def)

lemma fold_push_sets:
  assumes "good_set types eq r" "\<And>es e. es \<in> set sets \<Longrightarrow> e \<in> set es \<Longrightarrow> entry_ok types eq e"
  shows "good_set types eq (fold (fold push_entry) sets r) \<and>
    (filters_hold (fold (fold push_entry) sets r) row \<longleftrightarrow>
      filters_hold r row \<and> (\<forall>es \<in> set sets. filters_hold es row))"
  using assms
proof (induction sets arbitrary: r)
  case (Cons es sets)
  then show ?case using fold_push_entries [of types eq r es row] by auto
qed simp

lemma fold_push_existing:
  assumes "good_set types eq r" "\<And>e. e \<in> set es \<Longrightarrow> entry_ok types eq e"
  shows "good_set types eq (fold (\<lambda>(c, f). PushFilter c f) es r) \<and>
    (filters_hold (fold (\<lambda>(c, f). PushFilter c f) es r) row \<longleftrightarrow> filters_hold r row \<and> filters_hold es row)"
  using assms
proof (induction es arbitrary: r)
  case (Cons e es)
  obtain c f where e: "e = (c, f)" by fastforce
  then have "entry_ok types eq (c, f)" using Cons.prems(2) by auto
  then have "good_set types eq (PushFilter c f r) \<and>
      (filters_hold (PushFilter c f r) row \<longleftrightarrow> filters_hold r row \<and> satisfies f (row c))"
    using fold_PushFilter [OF Cons.prems(1), of "[f]" c row] by (auto simp: entry_ok_def)
  then show ?case using Cons by (auto simp: e filters_hold_def)
qed (simp add: filters_hold_def)

definition option_set :: "TableFilterSet option \<Rightarrow> TableFilterSet" where
  "option_set filters = (case filters of None \<Rightarrow> [] | Some fs \<Rightarrow> fs)"

lemma GetFinalTableFilters_holds:
  assumes "GetFinalTableFilters existing dynamic = Some final" "wt_row types row"
    and "\<And>es e. es \<in> insert (option_set existing) (set dynamic) \<Longrightarrow> e \<in> set es \<Longrightarrow> entry_ok types eq e"
  shows "filters_hold (option_set existing) row \<and> (\<forall>es \<in> set dynamic. filters_hold es row) \<Longrightarrow>
      filters_hold final row"
    and "eq \<Longrightarrow> filters_hold final row \<Longrightarrow>
      filters_hold (option_set existing) row \<and> (\<forall>es \<in> set dynamic. filters_hold es row)"
proof -
  define r0 where "r0 = fold (\<lambda>(c, f). PushFilter c f) (option_set existing) []"
  define r1 where "r1 = fold (fold push_entry) dynamic r0"
  have final: "final = UnifyFilters r1"
    using assms(1) by (auto simp: GetFinalTableFilters_def Let_def r1_def r0_def option_set_def
        split: option.splits if_splits)
  have "good_set types eq []" by (simp add: good_set_def wf_filters_def wt_filters_def)
  then have r0: "good_set types eq r0 \<and> (filters_hold r0 row \<longleftrightarrow> filters_hold (option_set existing) row)"
    using fold_push_existing [of types eq "[]" "option_set existing" row] assms(3)
    unfolding r0_def by (auto simp: filters_hold_def)
  then have r1: "good_set types eq r1 \<and> (filters_hold r1 row \<longleftrightarrow>
      filters_hold (option_set existing) row \<and> (\<forall>es \<in> set dynamic. filters_hold es row))"
    using fold_push_sets [of types eq r0 dynamic row] assms(3) unfolding r1_def by blast
  have typed: "\<And>c v. row c = Some v \<Longrightarrow> value_has_type (types c) v"
    using assms(2) by (simp add: wt_row_def)
  show "filters_hold final row"
    if "filters_hold (option_set existing) row \<and> (\<forall>es \<in> set dynamic. filters_hold es row)"
    using that r1 typed unfolding final
    by (auto simp: filters_hold_def UnifyFilters_def good_set_def wt_filters_def intro: unify_filter_weaker)
  show "filters_hold (option_set existing) row \<and> (\<forall>es \<in> set dynamic. filters_hold es row)"
    if eq and "filters_hold final row"
  proof -
    have "satisfies f (row c)" if cf: "(c, f) \<in> set r1" for c f
    proof -
      have "wt_filter (types c) f" "\<not> equality_inside f"
        using r1 cf \<open>eq\<close> by (auto simp: good_set_def wt_filters_def)
      then show ?thesis
        using unify_filter_exact [of "types c" f "row c"] typed \<open>filters_hold final row\<close> cf
        by (auto simp: final filters_hold_def UnifyFilters_def)
    qed
    then have "filters_hold r1 row" by (auto simp: filters_hold_def)
    then show ?thesis using r1 by blast
  qed
qed

text \<open>
  C19: The filters of the plan and those the operators of the query add while it runs are combined into
  one set without losing a qualifying row: a row that satisfies all of them satisfies the combined set.
  Unless a comparison for equality is among them, the combined set is exactly their conjunction.
\<close>
theorem GetFinalTableFilters_conjunction:
  assumes "GetFinalTableFilters existing dynamic = Some final" "wt_row types row"
    and "\<forall>es \<in> insert (option_set existing) (set dynamic). \<forall>e \<in> set es. entry_ok types eq e"
  shows "(filters_hold (option_set existing) row \<and> (\<forall>es \<in> set dynamic. filters_hold es row) \<longrightarrow> filters_hold final row)
    \<and> (eq \<and> filters_hold final row \<longrightarrow>
        filters_hold (option_set existing) row \<and> (\<forall>es \<in> set dynamic. filters_hold es row))"
  using GetFinalTableFilters_holds [OF assms(1,2)] assms(3) by blast

definition example_existing :: TableFilterSet where
  "example_existing = [(0, ConstantFilter COMPARE_GREATERTHANOREQUALTO LT_INTEGER (NumericValue 3)), (2, IsNotNullFilter)]"

definition example_dynamic :: "TableFilterSet list" where
  "example_dynamic = [[(0, ConjunctionAndFilter [ConstantFilter COMPARE_GREATERTHANOREQUALTO LT_INTEGER (NumericValue 5),
     ConstantFilter COMPARE_LESSTHANOREQUALTO LT_INTEGER (NumericValue 9)])]]"

definition example_row :: "idx_t \<Rightarrow> Value option" where
  "example_row c = (if c = 0 then Some (NumericValue 4) else None)"

theorem GetFinalTableFilters_conjunction_witness:
  "(let final = the (GetFinalTableFilters (Some example_existing) example_dynamic)
    in (filters_hold (option_set (Some example_existing)) example_row \<and>
        (\<forall>es \<in> set example_dynamic. filters_hold es example_row) \<longrightarrow> filters_hold final example_row)
     \<and> (True \<and> filters_hold final example_row \<longrightarrow>
        filters_hold (option_set (Some example_existing)) example_row \<and> (\<forall>es \<in> set example_dynamic. filters_hold es example_row)))
   \<and> \<not> filters_hold (the (GetFinalTableFilters (Some example_existing) example_dynamic)) example_row"
proof (unfold Let_def, rule conjI, rule GetFinalTableFilters_conjunction)
  have "GetFinalTableFilters (Some example_existing) example_dynamic \<noteq> None" by code_simp
  then show "GetFinalTableFilters (Some example_existing) example_dynamic =
      Some (the (GetFinalTableFilters (Some example_existing) example_dynamic))" by simp
  show "wt_row (\<lambda>_. LT_INTEGER) example_row" by (auto simp: wt_row_def example_row_def MinimumValue_def MaximumValue_def)
  show "\<forall>es \<in> insert (option_set (Some example_existing)) (set example_dynamic). \<forall>e \<in> set es. entry_ok (\<lambda>_. LT_INTEGER) True e"
    by (auto simp: option_set_def example_existing_def example_dynamic_def entry_ok_def equality_inside_def is_equality_def
        MinimumValue_def MaximumValue_def)
  show "\<not> filters_hold (the (GetFinalTableFilters (Some example_existing) example_dynamic)) example_row" by code_simp
qed

text \<open>
  With an equality the rest of the column's filters is dropped: a prefix search pushed down as a range,
  and a value a join adds.
\<close>

lemma UnifyFilters_drops_range:
  "(let prefix = ConjunctionAndFilter [ConstantFilter COMPARE_GREATERTHANOREQUALTO LT_VARCHAR (StringValue [97]),
          ConstantFilter COMPARE_LESSTHAN LT_VARCHAR (StringValue [98])];
        final = GetFinalTableFilters (Some [(0, prefix)])
          [[(0, ConstantFilter COMPARE_EQUAL LT_VARCHAR (StringValue [122]))]];
        row = (\<lambda>c. Some (StringValue [122]))
    in final = Some [(0, ConstantFilter COMPARE_EQUAL LT_VARCHAR (StringValue [122]))] \<and>
       filters_hold (the final) row \<and> \<not> filters_hold [(0, prefix)] row)"
  by code_simp

end
