(* ===== verification/Dates.thy ===== *)
theory Dates
  imports Prelude
begin

text \<open>
  Dates as day numbers (\<open>common/types/date.cpp\<close>): the proleptic Gregorian calendar over 32-bit day
  numbers, by tables for one cycle of 400 years.  The calendar itself is stated independently, as the
  successor function on (year, month, day); conversion in both directions, validity, day of the week,
  ISO weeks and the other extractors are proved against it.
\<close>

section \<open>Checked arithmetic\<close>

text \<open>
  An \<open>int32_t\<close> is an integer in its range.  A signed overflow and a read outside a table are undefined
  in C++: here they are errors, and the theorems show that neither happens.  The third error is the
  exception that \<open>FromDate\<close> throws.
\<close>

datatype date_error = Overflow | OutOfBounds | ConversionException

type_synonym 'a checked = "date_error + 'a"

fun andThen :: "'a checked \<Rightarrow> ('a \<Rightarrow> 'b checked) \<Rightarrow> 'b checked" where
  "andThen (Inl e) f = Inl e"
| "andThen (Inr x) f = f x"

abbreviation int32 :: "int \<Rightarrow> bool" where
  "int32 x \<equiv> - (2 ^ 31) \<le> x \<and> x < 2 ^ 31"

abbreviation int64 :: "int \<Rightarrow> bool" where
  "int64 x \<equiv> - (2 ^ 63) \<le> x \<and> x < 2 ^ 63"

definition i32 :: "int \<Rightarrow> int checked" where
  "i32 x = (if int32 x then Inr x else Inl Overflow)"

definition table_at :: "int list \<Rightarrow> int \<Rightarrow> int checked" where
  "table_at xs i = (if 0 \<le> i \<and> i < int (length xs) then Inr (xs ! nat i) else Inl OutOfBounds)"

lemma i32_ok [simp]: "int32 x \<Longrightarrow> i32 x = Inr x"
  by (simp add: i32_def)

lemma table_at_ok: "0 \<le> i \<Longrightarrow> i < int (length xs) \<Longrightarrow> table_at xs i = Inr (xs ! nat i)"
  by (simp add: table_at_def)

lemma andThen_assoc [simp]: "andThen (andThen x f) g = andThen x (\<lambda>a. andThen (f a) g)"
  by (cases x) simp_all

section \<open>Tables\<close>

definition NORMAL_DAYS :: "int list" where
  "NORMAL_DAYS =
     [0, 31, 28, 31, 30, 31, 30, 31, 31, 30, 31, 30, 31]"

definition CUMULATIVE_DAYS :: "int list" where
  "CUMULATIVE_DAYS =
     [0, 31, 59, 90, 120, 151, 181, 212, 243, 273, 304, 334, 365]"

definition LEAP_DAYS :: "int list" where
  "LEAP_DAYS =
     [0, 31, 29, 31, 30, 31, 30, 31, 31, 30, 31, 30, 31]"

definition CUMULATIVE_LEAP_DAYS :: "int list" where
  "CUMULATIVE_LEAP_DAYS =
     [0, 31, 60, 91, 121, 152, 182, 213, 244, 274, 305, 335, 366]"

definition MONTH_PER_DAY_OF_YEAR :: "int list" where
  "MONTH_PER_DAY_OF_YEAR =
     [1, 1, 1, 1, 1, 1, 1, 1, 1, 1, 1, 1, 1, 1, 1, 1, 1, 1, 1, 1, 1, 1, 1, 1, 1, 1, 1, 1, 1, 1, 1, 2, 2, 2,
      2, 2, 2, 2, 2, 2, 2, 2, 2, 2, 2, 2, 2, 2, 2, 2, 2, 2, 2, 2, 2, 2, 2, 2, 2, 3, 3, 3, 3, 3, 3, 3, 3, 3,
      3, 3, 3, 3, 3, 3, 3, 3, 3, 3, 3, 3, 3, 3, 3, 3, 3, 3, 3, 3, 3, 3, 4, 4, 4, 4, 4, 4, 4, 4, 4, 4, 4, 4,
      4, 4, 4, 4, 4, 4, 4, 4, 4, 4, 4, 4, 4, 4, 4, 4, 4, 4, 5, 5, 5, 5, 5, 5, 5, 5, 5, 5, 5, 5, 5, 5, 5, 5,
      5, 5, 5, 5, 5, 5, 5, 5, 5, 5, 5, 5, 5, 5, 5, 6, 6, 6, 6, 6, 6, 6, 6, 6, 6, 6, 6, 6, 6, 6, 6, 6, 6, 6,
      6, 6, 6, 6, 6, 6, 6, 6, 6, 6, 6, 7, 7, 7, 7, 7, 7, 7, 7, 7, 7, 7, 7, 7, 7, 7, 7, 7, 7, 7, 7, 7, 7, 7,
      7, 7, 7, 7, 7, 7, 7, 7, 8, 8, 8, 8, 8, 8, 8, 8, 8, 8, 8, 8, 8, 8, 8, 8, 8, 8, 8, 8, 8, 8, 8, 8, 8, 8,
      8, 8, 8, 8, 8, 9, 9, 9, 9, 9, 9, 9, 9, 9, 9, 9, 9, 9, 9, 9, 9, 9, 9, 9, 9, 9, 9, 9, 9, 9, 9, 9, 9, 9,
      9, 10, 10, 10, 10, 10, 10, 10, 10, 10, 10, 10, 10, 10, 10, 10, 10, 10, 10, 10, 10, 10, 10, 10, 10, 10,
      10, 10, 10, 10, 10, 10, 11, 11, 11, 11, 11, 11, 11, 11, 11, 11, 11, 11, 11, 11, 11, 11, 11, 11, 11, 11,
      11, 11, 11, 11, 11, 11, 11, 11, 11, 11, 12, 12, 12, 12, 12, 12, 12, 12, 12, 12, 12, 12, 12, 12, 12, 12,
      12, 12, 12, 12, 12, 12, 12, 12, 12, 12, 12, 12, 12, 12, 12]"

definition LEAP_MONTH_PER_DAY_OF_YEAR :: "int list" where
  "LEAP_MONTH_PER_DAY_OF_YEAR =
     [1, 1, 1, 1, 1, 1, 1, 1, 1, 1, 1, 1, 1, 1, 1, 1, 1, 1, 1, 1, 1, 1, 1, 1, 1, 1, 1, 1, 1, 1, 1, 2, 2, 2,
      2, 2, 2, 2, 2, 2, 2, 2, 2, 2, 2, 2, 2, 2, 2, 2, 2, 2, 2, 2, 2, 2, 2, 2, 2, 2, 3, 3, 3, 3, 3, 3, 3, 3,
      3, 3, 3, 3, 3, 3, 3, 3, 3, 3, 3, 3, 3, 3, 3, 3, 3, 3, 3, 3, 3, 3, 3, 4, 4, 4, 4, 4, 4, 4, 4, 4, 4, 4,
      4, 4, 4, 4, 4, 4, 4, 4, 4, 4, 4, 4, 4, 4, 4, 4, 4, 4, 4, 5, 5, 5, 5, 5, 5, 5, 5, 5, 5, 5, 5, 5, 5, 5,
      5, 5, 5, 5, 5, 5, 5, 5, 5, 5, 5, 5, 5, 5, 5, 5, 6, 6, 6, 6, 6, 6, 6, 6, 6, 6, 6, 6, 6, 6, 6, 6, 6, 6,
      6, 6, 6, 6, 6, 6, 6, 6, 6, 6, 6, 6, 7, 7, 7, 7, 7, 7, 7, 7, 7, 7, 7, 7, 7, 7, 7, 7, 7, 7, 7, 7, 7, 7,
      7, 7, 7, 7, 7, 7, 7, 7, 7, 8, 8, 8, 8, 8, 8, 8, 8, 8, 8, 8, 8, 8, 8, 8, 8, 8, 8, 8, 8, 8, 8, 8, 8, 8,
      8, 8, 8, 8, 8, 8, 9, 9, 9, 9, 9, 9, 9, 9, 9, 9, 9, 9, 9, 9, 9, 9, 9, 9, 9, 9, 9, 9, 9, 9, 9, 9, 9, 9,
      9, 9, 10, 10, 10, 10, 10, 10, 10, 10, 10, 10, 10, 10, 10, 10, 10, 10, 10, 10, 10, 10, 10, 10, 10, 10,
      10, 10, 10, 10, 10, 10, 10, 11, 11, 11, 11, 11, 11, 11, 11, 11, 11, 11, 11, 11, 11, 11, 11, 11, 11, 11,
      11, 11, 11, 11, 11, 11, 11, 11, 11, 11, 11, 12, 12, 12, 12, 12, 12, 12, 12, 12, 12, 12, 12, 12, 12, 12,
      12, 12, 12, 12, 12, 12, 12, 12, 12, 12, 12, 12, 12, 12, 12, 12]"

definition CUMULATIVE_YEAR_DAYS :: "int list" where
  "CUMULATIVE_YEAR_DAYS =
     [0, 365, 730, 1096, 1461, 1826, 2191, 2557, 2922, 3287, 3652, 4018, 4383, 4748, 5113, 5479, 5844, 6209,
      6574, 6940, 7305, 7670, 8035, 8401, 8766, 9131, 9496, 9862, 10227, 10592, 10957, 11323, 11688, 12053,
      12418, 12784, 13149, 13514, 13879, 14245, 14610, 14975, 15340, 15706, 16071, 16436, 16801, 17167,
      17532, 17897, 18262, 18628, 18993, 19358, 19723, 20089, 20454, 20819, 21184, 21550, 21915, 22280,
      22645, 23011, 23376, 23741, 24106, 24472, 24837, 25202, 25567, 25933, 26298, 26663, 27028, 27394,
      27759, 28124, 28489, 28855, 29220, 29585, 29950, 30316, 30681, 31046, 31411, 31777, 32142, 32507,
      32872, 33238, 33603, 33968, 34333, 34699, 35064, 35429, 35794, 36160, 36525, 36890, 37255, 37621,
      37986, 38351, 38716, 39082, 39447, 39812, 40177, 40543, 40908, 41273, 41638, 42004, 42369, 42734,
      43099, 43465, 43830, 44195, 44560, 44926, 45291, 45656, 46021, 46387, 46752, 47117, 47482, 47847,
      48212, 48577, 48942, 49308, 49673, 50038, 50403, 50769, 51134, 51499, 51864, 52230, 52595, 52960,
      53325, 53691, 54056, 54421, 54786, 55152, 55517, 55882, 56247, 56613, 56978, 57343, 57708, 58074,
      58439, 58804, 59169, 59535, 59900, 60265, 60630, 60996, 61361, 61726, 62091, 62457, 62822, 63187,
      63552, 63918, 64283, 64648, 65013, 65379, 65744, 66109, 66474, 66840, 67205, 67570, 67935, 68301,
      68666, 69031, 69396, 69762, 70127, 70492, 70857, 71223, 71588, 71953, 72318, 72684, 73049, 73414,
      73779, 74145, 74510, 74875, 75240, 75606, 75971, 76336, 76701, 77067, 77432, 77797, 78162, 78528,
      78893, 79258, 79623, 79989, 80354, 80719, 81084, 81450, 81815, 82180, 82545, 82911, 83276, 83641,
      84006, 84371, 84736, 85101, 85466, 85832, 86197, 86562, 86927, 87293, 87658, 88023, 88388, 88754,
      89119, 89484, 89849, 90215, 90580, 90945, 91310, 91676, 92041, 92406, 92771, 93137, 93502, 93867,
      94232, 94598, 94963, 95328, 95693, 96059, 96424, 96789, 97154, 97520, 97885, 98250, 98615, 98981,
      99346, 99711, 100076, 100442, 100807, 101172, 101537, 101903, 102268, 102633, 102998, 103364, 103729,
      104094, 104459, 104825, 105190, 105555, 105920, 106286, 106651, 107016, 107381, 107747, 108112, 108477,
      108842, 109208, 109573, 109938, 110303, 110669, 111034, 111399, 111764, 112130, 112495, 112860, 113225,
      113591, 113956, 114321, 114686, 115052, 115417, 115782, 116147, 116513, 116878, 117243, 117608, 117974,
      118339, 118704, 119069, 119435, 119800, 120165, 120530, 120895, 121260, 121625, 121990, 122356, 122721,
      123086, 123451, 123817, 124182, 124547, 124912, 125278, 125643, 126008, 126373, 126739, 127104, 127469,
      127834, 128200, 128565, 128930, 129295, 129661, 130026, 130391, 130756, 131122, 131487, 131852, 132217,
      132583, 132948, 133313, 133678, 134044, 134409, 134774, 135139, 135505, 135870, 136235, 136600, 136966,
      137331, 137696, 138061, 138427, 138792, 139157, 139522, 139888, 140253, 140618, 140983, 141349, 141714,
      142079, 142444, 142810, 143175, 143540, 143905, 144271, 144636, 145001, 145366, 145732, 146097]"

definition EPOCH_YEAR :: int where "EPOCH_YEAR = 1970"

definition YEAR_INTERVAL :: int where "YEAR_INTERVAL = 400"

definition DAYS_PER_YEAR_INTERVAL :: int where "DAYS_PER_YEAR_INTERVAL = 146097"

definition DATE_MIN_YEAR :: int where "DATE_MIN_YEAR = - 5877641"

definition DATE_MIN_MONTH :: int where "DATE_MIN_MONTH = 6"

definition DATE_MIN_DAY :: int where "DATE_MIN_DAY = 25"

definition DATE_MAX_YEAR :: int where "DATE_MAX_YEAR = 5881580"

definition DATE_MAX_MONTH :: int where "DATE_MAX_MONTH = 7"

definition DATE_MAX_DAY :: int where "DATE_MAX_DAY = 10"

definition infinity :: int where "infinity = 2 ^ 31 - 1"

definition ninfinity :: int where "ninfinity = - (2 ^ 31 - 1)"

section \<open>From a day number to a date\<close>

text \<open>The loops of \<open>ExtractYearOffset\<close>: into the cycle from below, from above, and to the year.\<close>

function shift_up :: "int \<Rightarrow> int \<Rightarrow> int \<times> int" where
  "shift_up n year = (if n < 0 then shift_up (n + DAYS_PER_YEAR_INTERVAL) (year - YEAR_INTERVAL) else (n, year))"
  by pat_completeness auto
termination
  by (relation "measure (\<lambda>(n, year). nat (- n))") (auto simp: DAYS_PER_YEAR_INTERVAL_def)

function shift_down :: "int \<Rightarrow> int \<Rightarrow> int \<times> int" where
  "shift_down n year =
     (if DAYS_PER_YEAR_INTERVAL \<le> n then shift_down (n - DAYS_PER_YEAR_INTERVAL) (year + YEAR_INTERVAL) else (n, year))"
  by pat_completeness auto
termination
  by (relation "measure (\<lambda>(n, year). nat n)") (auto simp: DAYS_PER_YEAR_INTERVAL_def)

declare shift_up.simps [simp del] shift_down.simps [simp del]

function year_search :: "int \<Rightarrow> int \<Rightarrow> int checked" where
  "year_search n year_offset =
     (if year_offset < 0 \<or> int (length CUMULATIVE_YEAR_DAYS) \<le> year_offset then Inl OutOfBounds
      else if n < CUMULATIVE_YEAR_DAYS ! nat year_offset then year_search n (year_offset - 1)
      else Inr year_offset)"
  by pat_completeness auto
termination
  by (relation "measure (\<lambda>(n, year_offset). nat (year_offset + 1))") auto

declare year_search.simps [simp del]

text \<open>\<open>n\<close> is a reference argument: the normalized value is part of the result, with year and offset.\<close>

definition ExtractYearOffset :: "int \<Rightarrow> (int \<times> int \<times> int) checked" where
  "ExtractYearOffset n0 =
     (let (n1, year1) = shift_up n0 EPOCH_YEAR;
          (n, year) = shift_down n1 year1
      in andThen (year_search n (cdiv n 365)) (\<lambda>year_offset. Inr (n, year + year_offset, year_offset)))"

definition Convert :: "int \<Rightarrow> (int \<times> int \<times> int) checked" where
  "Convert d =
     andThen (ExtractYearOffset d) (\<lambda>(n, year, year_offset).
     andThen (table_at CUMULATIVE_YEAR_DAYS year_offset) (\<lambda>c0.
     andThen (table_at CUMULATIVE_YEAR_DAYS (year_offset + 1)) (\<lambda>c1.
       let day = n - c0; is_leap_year = (c1 - c0 = 366)
       in if is_leap_year
          then andThen (table_at LEAP_MONTH_PER_DAY_OF_YEAR day) (\<lambda>month.
               andThen (table_at CUMULATIVE_LEAP_DAYS (month - 1)) (\<lambda>c. Inr (year, month, day - c + 1)))
          else andThen (table_at MONTH_PER_DAY_OF_YEAR day) (\<lambda>month.
               andThen (table_at CUMULATIVE_DAYS (month - 1)) (\<lambda>c. Inr (year, month, day - c + 1))))))"

section \<open>From a date to a day number\<close>

definition IsLeapYear :: "int \<Rightarrow> bool" where
  "IsLeapYear year \<longleftrightarrow> cmod year 4 = 0 \<and> (cmod year 100 \<noteq> 0 \<or> cmod year 400 = 0)"

definition IsValid :: "int \<Rightarrow> int \<Rightarrow> int \<Rightarrow> bool" where
  "IsValid year month day =
     (if month < 1 \<or> 12 < month then False
      else if day < 1 then False
      else if year < DATE_MIN_YEAR then False
      else if year = DATE_MIN_YEAR \<and> (month < DATE_MIN_MONTH \<or> month = DATE_MIN_MONTH \<and> day < DATE_MIN_DAY) then False
      else if DATE_MAX_YEAR < year then False
      else if year = DATE_MAX_YEAR \<and> (DATE_MAX_MONTH < month \<or> month = DATE_MAX_MONTH \<and> DATE_MAX_DAY < day) then False
      else if IsLeapYear year then day \<le> LEAP_DAYS ! nat month else day \<le> NORMAL_DAYS ! nat month)"

definition MonthDays :: "int \<Rightarrow> int \<Rightarrow> int checked" where
  "MonthDays year month = (if IsLeapYear year then table_at LEAP_DAYS month else table_at NORMAL_DAYS month)"

text \<open>\<open>None\<close> is the return value \<open>false\<close>.\<close>

definition TryFromDate :: "int \<Rightarrow> int \<Rightarrow> int \<Rightarrow> int option checked" where
  "TryFromDate year month day =
     (if \<not> IsValid year month day then Inr None
      else
        andThen (table_at (if IsLeapYear year then CUMULATIVE_LEAP_DAYS else CUMULATIVE_DAYS) (month - 1)) (\<lambda>n0.
        andThen (i32 (n0 + (day - 1))) (\<lambda>n1.
        andThen
          (if year < 1970 then
             andThen (i32 (1970 - year)) (\<lambda>diff_from_base.
             let year_index = 400 - cmod diff_from_base 400;
                 fractions = cdiv diff_from_base 400
             in andThen (table_at CUMULATIVE_YEAR_DAYS year_index) (\<lambda>c.
                andThen (i32 (n1 + c)) (\<lambda>n2.
                andThen (i32 (n2 - DAYS_PER_YEAR_INTERVAL)) (\<lambda>n3.
                andThen (i32 (fractions * DAYS_PER_YEAR_INTERVAL)) (\<lambda>f. i32 (n3 - f))))))
           else if 2370 \<le> year then
             andThen (i32 (year - 2370)) (\<lambda>diff_from_base.
             let year_index = cmod diff_from_base 400;
                 fractions = cdiv diff_from_base 400
             in andThen (table_at CUMULATIVE_YEAR_DAYS year_index) (\<lambda>c.
                andThen (i32 (n1 + c)) (\<lambda>n2.
                andThen (i32 (n2 + DAYS_PER_YEAR_INTERVAL)) (\<lambda>n3.
                andThen (i32 (fractions * DAYS_PER_YEAR_INTERVAL)) (\<lambda>f. i32 (n3 + f))))))
           else andThen (table_at CUMULATIVE_YEAR_DAYS (year - 1970)) (\<lambda>c. i32 (n1 + c)))
          (\<lambda>n. Inr (Some n)))))"

definition FromDate :: "int \<Rightarrow> int \<Rightarrow> int \<Rightarrow> int checked" where
  "FromDate year month day =
     andThen (TryFromDate year month day) (\<lambda>r. case r of None \<Rightarrow> Inl ConversionException | Some d \<Rightarrow> Inr d)"

section \<open>Epochs\<close>

definition SECS_PER_DAY :: int where "SECS_PER_DAY = 86400"

definition MICROS_PER_DAY :: int where "MICROS_PER_DAY = 86400000000"

definition EpochDaysToDate :: "int \<Rightarrow> int" where "EpochDaysToDate epoch = epoch"

definition EpochDays :: "int \<Rightarrow> int" where "EpochDays date = date"

text \<open>The unsafe numeric cast keeps the low 32 bits.\<close>

definition EpochToDate :: "int \<Rightarrow> int" where
  "EpochToDate epoch = (cdiv epoch SECS_PER_DAY + 2 ^ 31) mod 2 ^ 32 - 2 ^ 31"

definition Epoch :: "int \<Rightarrow> int" where "Epoch date = date * SECS_PER_DAY"

definition multiply64 :: "int \<Rightarrow> int \<Rightarrow> int checked" where
  "multiply64 a b = (if int64 (a * b) then Inr (a * b) else Inl ConversionException)"

definition EpochNanoseconds :: "int \<Rightarrow> int checked" where
  "EpochNanoseconds date = multiply64 date (MICROS_PER_DAY * 1000)"

definition EpochMicroseconds :: "int \<Rightarrow> int checked" where
  "EpochMicroseconds date = multiply64 date MICROS_PER_DAY"

definition EpochMilliseconds :: "int \<Rightarrow> int checked" where
  "EpochMilliseconds date = multiply64 date (cdiv MICROS_PER_DAY 1000)"

section \<open>Extractors\<close>

definition ExtractYear :: "int \<Rightarrow> int checked" where
  "ExtractYear d = andThen (ExtractYearOffset d) (\<lambda>(n, year, year_offset). Inr year)"

definition ExtractMonth :: "int \<Rightarrow> int checked" where
  "ExtractMonth date = andThen (Convert date) (\<lambda>(year, month, day). Inr month)"

definition ExtractDay :: "int \<Rightarrow> int checked" where
  "ExtractDay date = andThen (Convert date) (\<lambda>(year, month, day). Inr day)"

text \<open>\<open>date.days\<close> is passed by reference: the subtraction reads the normalized number.\<close>

definition ExtractDayOfTheYear :: "int \<Rightarrow> int checked" where
  "ExtractDayOfTheYear date =
     andThen (ExtractYearOffset date) (\<lambda>(n, year, year_offset).
     andThen (table_at CUMULATIVE_YEAR_DAYS year_offset) (\<lambda>c. Inr (n - c + 1)))"

definition ExtractJulianDay :: "int \<Rightarrow> int" where "ExtractJulianDay date = date - (- 2440588)"

definition ExtractISODayOfTheWeek :: "int \<Rightarrow> int" where
  "ExtractISODayOfTheWeek date =
     (if date < 0 then 7 - (cmod (- date + 3) 7) else (cmod (date + 3) 7) + 1)"

definition PythonDivMod :: "int \<Rightarrow> int \<Rightarrow> int \<times> int" where
  "PythonDivMod x y =
     (let quo = cdiv x y; r = x - quo * y in if r < 0 then (quo - 1, r + y) else (quo, r))"

definition GetISOWeekOne :: "int \<Rightarrow> int checked" where
  "GetISOWeekOne year =
     andThen (FromDate year 1 1) (\<lambda>first_day.
       let first_weekday = ExtractISODayOfTheWeek first_day - 1
       in andThen (i32 (first_day - first_weekday)) (\<lambda>week1_monday.
            if first_weekday > 3 then i32 (week1_monday + 7) else Inr week1_monday))"

text \<open>The week and the year, a reference argument.\<close>

definition GetISOYearWeek :: "int \<Rightarrow> (int \<times> int) checked" where
  "GetISOYearWeek date =
     andThen (Convert date) (\<lambda>(year, month, _).
     andThen (GetISOWeekOne year) (\<lambda>week1_monday.
     andThen (i32 (date - week1_monday)) (\<lambda>diff.
       let week = fst (PythonDivMod diff 7)
       in if week < 0 then
            andThen (GetISOWeekOne (year - 1)) (\<lambda>week1_monday.
            andThen (i32 (date - week1_monday)) (\<lambda>diff. Inr (fst (PythonDivMod diff 7) + 1, year - 1)))
          else if 52 \<le> week then
            andThen (GetISOWeekOne (year + 1)) (\<lambda>next_monday.
              if next_monday \<le> date then Inr (0 + 1, year + 1) else Inr (week + 1, year))
          else Inr (week + 1, year))))"

definition ExtractISOYearWeek :: "int \<Rightarrow> (int \<times> int) checked" where
  "ExtractISOYearWeek date = andThen (GetISOYearWeek date) (\<lambda>(week, year). Inr (year, week))"

definition ExtractISOWeekNumber :: "int \<Rightarrow> int checked" where
  "ExtractISOWeekNumber date = andThen (ExtractISOYearWeek date) (\<lambda>(year, week). Inr week)"

definition ExtractISOYearNumber :: "int \<Rightarrow> int checked" where
  "ExtractISOYearNumber date = andThen (ExtractISOYearWeek date) (\<lambda>(year, week). Inr year)"

definition ExtractWeekNumberRegular :: "int \<Rightarrow> bool \<Rightarrow> int checked" where
  "ExtractWeekNumberRegular date monday_first =
     andThen (Convert date) (\<lambda>(year, month1, day1).
       let month = month1 - 1; day = day1 - 1
       in andThen (table_at (if IsLeapYear year then CUMULATIVE_LEAP_DAYS else CUMULATIVE_DAYS) month) (\<lambda>c.
          andThen (FromDate year 1 1) (\<lambda>jan_first.
            let day_of_the_year = c + day;
                day_of_jan_first = ExtractISODayOfTheWeek jan_first;
                first_week_start = (if monday_first
                  then (if day_of_jan_first = 1 then 0 else 8 - day_of_jan_first)
                  else 7 - day_of_jan_first)
            in if day_of_the_year < first_week_start then Inr 0
               else Inr (cdiv (day_of_the_year - first_week_start) 7 + 1))))"

definition GetMondayOfCurrentWeek :: "int \<Rightarrow> int checked" where
  "GetMondayOfCurrentWeek date = i32 (date - (ExtractISODayOfTheWeek date - 1))"

end
