(* ===== verification/Calendar.thy ===== *)
theory Calendar
  imports Dates
begin

text \<open>
  The calendar, and the date functions against it.  The specification is the successor function of
  (year, month, day); \<open>day_number\<close> is the number of days from 1970-01-01 to a date in closed form.
\<close>

section \<open>The calendar\<close>

definition leap :: "int \<Rightarrow> bool" where
  "leap y \<longleftrightarrow> 4 dvd y \<and> (\<not> 100 dvd y \<or> 400 dvd y)"

definition month_length :: "int \<Rightarrow> int \<Rightarrow> int" where
  "month_length y m = (if m = 2 then (if leap y then 29 else 28) else if m \<in> {4, 6, 9, 11} then 30 else 31)"

definition civil :: "int \<times> int \<times> int \<Rightarrow> bool" where
  "civil = (\<lambda>(y, m, d). 1 \<le> m \<and> m \<le> 12 \<and> 1 \<le> d \<and> d \<le> month_length y m)"

definition next_day :: "int \<times> int \<times> int \<Rightarrow> int \<times> int \<times> int" where
  "next_day = (\<lambda>(y, m, d). if d < month_length y m then (y, m, d + 1) else if m < 12 then (y, m + 1, 1) else (y + 1, 1, 1))"

text \<open>The leap years up to a year, and the day number of its first day.\<close>

definition leaps :: "int \<Rightarrow> int" where
  "leaps y = y div 4 - y div 100 + y div 400"

definition jan1 :: "int \<Rightarrow> int" where
  "jan1 y = 365 * (y - 1970) + (leaps (y - 1) - leaps 1969)"

definition month_start :: "int \<Rightarrow> int \<Rightarrow> int" where
  "month_start y m = (if leap y then CUMULATIVE_LEAP_DAYS else CUMULATIVE_DAYS) ! nat (m - 1)"

definition day_number :: "int \<times> int \<times> int \<Rightarrow> int" where
  "day_number = (\<lambda>(y, m, d). jan1 y + month_start y m + d - 1)"

lemma div_step: "0 < k \<Longrightarrow> y div k = (y - 1) div k + of_bool (k dvd y)" for y k :: int
proof -
  assume k: "0 < k"
  show ?thesis
  proof (cases "k dvd y")
    case True
    then obtain q where "y = k * q" by (rule dvdE)
    then have "(y - 1) div k = q - 1" using k by (intro int_div_pos_eq [of _ _ _ "k - 1"]) (auto simp: algebra_simps)
    then show ?thesis using True k \<open>y = k * q\<close> by simp
  next
    case False
    then have "0 < y mod k" using k by (simp add: dvd_eq_mod_eq_0 order_less_le)
    moreover have "y - 1 = k * (y div k) + (y mod k - 1)" using mult_div_mod_eq [of k y] by linarith
    ultimately have "(y - 1) div k = y div k"
      using k pos_mod_bound [OF k, of y] by (intro int_div_pos_eq [of _ _ _ "y mod k - 1"]) linarith+
    then show ?thesis using False by simp
  qed
qed

lemma leap_cases: "of_bool (leap y) = (of_bool (4 dvd y) - of_bool (100 dvd y) + of_bool (400 dvd y) :: int)"
proof -
  have "400 dvd y \<Longrightarrow> 100 dvd y" by (rule dvd_trans [of 100 400 y]) simp_all
  moreover have "100 dvd y \<Longrightarrow> 4 dvd y" by (rule dvd_trans [of 4 100 y]) simp_all
  ultimately show ?thesis unfolding leap_def
    by (cases "4 dvd y"; cases "100 dvd y"; cases "400 dvd y") (simp_all only: of_bool_eq simp_thms)
qed

lemma leaps_step: "leaps y = leaps (y - 1) + of_bool (leap y)"
  unfolding leaps_def leap_cases using div_step [of 4 y] div_step [of 100 y] div_step [of 400 y] by simp

lemma jan1_step: "jan1 (y + 1) = jan1 y + 365 + of_bool (leap y)"
  using leaps_step [of y] by (simp add: jan1_def)

lemma jan1_mono: "y \<le> y' \<Longrightarrow> jan1 y + 365 * (y' - y) \<le> jan1 y'"
proof (induction "nat (y' - y)" arbitrary: y)
  case (Suc n)
  then have "jan1 (y + 1) + 365 * (y' - (y + 1)) \<le> jan1 y'" by (intro Suc.hyps(1)) auto
  moreover have "jan1 y + 365 \<le> jan1 (y + 1)" by (simp add: jan1_step)
  ultimately show ?case by (simp add: algebra_simps)
qed simp

lemma jan1_less_iff: "jan1 y < jan1 y' \<longleftrightarrow> y < y'"
  using jan1_mono [of y y'] jan1_mono [of y' y] by (cases y y' rule: linorder_cases) auto

lemma leaps_cycle: "leaps (y + 400 * q) = leaps y + 97 * q"
proof -
  have "(y + 400 * q) div 4 = y div 4 + 100 * q" "(y + 400 * q) div 100 = y div 100 + 4 * q"
    "(y + 400 * q) div 400 = y div 400 + q"
    using div_mult_self2 [of 4 y "100 * q"] div_mult_self2 [of 100 y "4 * q"] by simp_all
  then show ?thesis by (simp add: leaps_def)
qed

lemma jan1_cycle: "jan1 (y + 400 * q) = jan1 y + 146097 * q"
  using leaps_cycle [of "y - 1" q] by (simp add: jan1_def algebra_simps)

lemma leap_cycle: "leap (y + 400 * q) = leap y"
proof -
  have "4 dvd y + 400 * q \<longleftrightarrow> 4 dvd y" "100 dvd y + 400 * q \<longleftrightarrow> 100 dvd y" "400 dvd y + 400 * q \<longleftrightarrow> 400 dvd y"
    by (simp_all add: dvd_add_left_iff)
  then show ?thesis by (simp add: leap_def)
qed

lemma IsLeapYear_leap [simp]: "IsLeapYear y = leap y"
proof -
  have "cmod y k = 0 \<longleftrightarrow> k dvd y" if "0 < k" for k
    using that by (cases "y < 0") (simp_all add: c_arith flip: dvd_eq_mod_eq_0)
  then show ?thesis by (simp add: IsLeapYear_def leap_def)
qed

section \<open>The tables\<close>

lemma twelve: "1 \<le> m \<Longrightarrow> m \<le> 12 \<Longrightarrow> m \<in> {1, 2, 3, 4, 5, 6, 7, 8, 9, 10, 11, 12}" for m :: int
  by (simp only: insert_iff empty_iff) presburger

lemma lengths [simp]:
  "length NORMAL_DAYS = 13" "length LEAP_DAYS = 13" "length CUMULATIVE_DAYS = 13" "length CUMULATIVE_LEAP_DAYS = 13"
  "length MONTH_PER_DAY_OF_YEAR = 365" "length LEAP_MONTH_PER_DAY_OF_YEAR = 366" "length CUMULATIVE_YEAR_DAYS = 401"
  by code_simp+

lemma CUMULATIVE_YEAR_DAYS_eq: "CUMULATIVE_YEAR_DAYS = map (\<lambda>k. jan1 (1970 + k)) [0..400]"
  by code_simp

lemma year_table: "0 \<le> j \<Longrightarrow> j \<le> 400 \<Longrightarrow> CUMULATIVE_YEAR_DAYS ! nat j = jan1 (1970 + j)"
  unfolding CUMULATIVE_YEAR_DAYS_eq using nth_upto [of 0 "nat j" 400] nth_map [of "nat j" "[0..400]"]
  by (simp only: length_upto) simp

lemma month_table:
  assumes "1 \<le> m" "m \<le> 12"
  shows "(if leap y then LEAP_DAYS else NORMAL_DAYS) ! nat m = month_length y m"
    and "(if leap y then CUMULATIVE_LEAP_DAYS else CUMULATIVE_DAYS) ! nat m = month_start y m + month_length y m"
  using twelve [OF assms]
  by (auto simp: month_length_def month_start_def NORMAL_DAYS_def LEAP_DAYS_def CUMULATIVE_DAYS_def CUMULATIVE_LEAP_DAYS_def)

lemma month_start_next: "1 \<le> m \<Longrightarrow> m < 12 \<Longrightarrow> month_start y (m + 1) = month_start y m + month_length y m"
  using month_table(2) [of m y] by (simp add: month_start_def)

lemma month_start_1: "month_start y 1 = 0"
  by (simp add: month_start_def CUMULATIVE_DAYS_def CUMULATIVE_LEAP_DAYS_def)

lemma month_length_pos: "28 \<le> month_length y m" "month_length y m \<le> 31"
  by (simp_all add: month_length_def)

lemma year_end: "month_start y 12 + month_length y 12 = 365 + of_bool (leap y)"
  by (simp add: month_length_def month_start_def CUMULATIVE_DAYS_def CUMULATIVE_LEAP_DAYS_def)

lemma month_of_day_tables:
  "list_all (\<lambda>(d, m). 1 \<le> m \<and> m \<le> 12 \<and> CUMULATIVE_DAYS ! nat (m - 1) \<le> d \<and> d < CUMULATIVE_DAYS ! nat m)
     (zip [0..364] MONTH_PER_DAY_OF_YEAR)"
  "list_all (\<lambda>(d, m). 1 \<le> m \<and> m \<le> 12 \<and> CUMULATIVE_LEAP_DAYS ! nat (m - 1) \<le> d \<and> d < CUMULATIVE_LEAP_DAYS ! nat m)
     (zip [0..365] LEAP_MONTH_PER_DAY_OF_YEAR)"
  by code_simp+

lemma month_of_day:
  assumes "0 \<le> d" "d < 365 + of_bool (leap y)"
  shows "\<exists>m. table_at (if leap y then LEAP_MONTH_PER_DAY_OF_YEAR else MONTH_PER_DAY_OF_YEAR) d = Inr m
    \<and> 1 \<le> m \<and> m \<le> 12 \<and> month_start y m \<le> d \<and> d < month_start y m + month_length y m"
proof -
  have *: "\<exists>m. table_at T d = Inr m \<and> 1 \<le> m \<and> m \<le> 12 \<and> C ! nat (m - 1) \<le> d \<and> d < C ! nat m"
    if T: "list_all (\<lambda>(d, m). 1 \<le> m \<and> m \<le> 12 \<and> C ! nat (m - 1) \<le> d \<and> d < C ! nat m) (zip [0..N] T)"
      and N: "int (length T) = N + 1" "d \<le> N" for T C N
  proof -
    have i: "nat d < length T" "nat d < length [0..N]" using N assms(1) by auto
    have "[0..N] ! nat d = d" using nth_upto [of 0 "nat d" N] assms(1) N by simp
    then have "zip [0..N] T ! nat d = (d, T ! nat d)" using i by simp
    then have "(d, T ! nat d) \<in> set (zip [0..N] T)" using i by (metis nth_mem length_zip min_less_iff_conj)
    then show ?thesis using T i assms(1) by (auto simp: list_all_iff table_at_def)
  qed
  show ?thesis
  proof (cases "leap y")
    case True
    from * [OF month_of_day_tables(2)] assms obtain m where
      m: "table_at LEAP_MONTH_PER_DAY_OF_YEAR d = Inr m" "1 \<le> m" "m \<le> 12" "CUMULATIVE_LEAP_DAYS ! nat (m - 1) \<le> d"
        "d < CUMULATIVE_LEAP_DAYS ! nat m" using True by auto
    then show ?thesis using month_table(2) [OF m(2,3), of y] True by (auto simp: month_start_def)
  next
    case False
    from * [OF month_of_day_tables(1)] assms obtain m where
      m: "table_at MONTH_PER_DAY_OF_YEAR d = Inr m" "1 \<le> m" "m \<le> 12" "CUMULATIVE_DAYS ! nat (m - 1) \<le> d"
        "d < CUMULATIVE_DAYS ! nat m" using False by auto
    then show ?thesis using month_table(2) [OF m(2,3), of y] False by (auto simp: month_start_def)
  qed
qed

section \<open>From day numbers to dates\<close>

lemma shift_up_eq: "n < 0 \<Longrightarrow> shift_up n y = (n mod 146097, y + 400 * (n div 146097))"
proof (induction n y rule: shift_up.induct)
  case (1 n y)
  have m: "(n + 146097) mod 146097 = n mod 146097" "(n + 146097) div 146097 = n div 146097 + 1" by simp_all
  show ?case
  proof (cases "n + 146097 < 0")
    case True
    then show ?thesis using 1 m by (subst shift_up.simps) (simp add: DAYS_PER_YEAR_INTERVAL_def YEAR_INTERVAL_def)
  next
    case False
    then have "n mod 146097 = n + 146097" "n div 146097 = - 1"
      using 1(2) m mod_pos_pos_trivial [of "n + 146097" 146097] div_pos_pos_trivial [of "n + 146097" 146097] by simp_all
    then show ?thesis using 1(2) False
      by (subst shift_up.simps, subst shift_up.simps) (simp add: DAYS_PER_YEAR_INTERVAL_def YEAR_INTERVAL_def)
  qed
qed

lemma shift_down_eq: "0 \<le> n \<Longrightarrow> shift_down n y = (n mod 146097, y + 400 * (n div 146097))"
proof (induction n y rule: shift_down.induct)
  case (1 n y)
  have m: "(n - 146097) mod 146097 = n mod 146097" "(n - 146097) div 146097 = n div 146097 - 1" by simp_all
  show ?case
  proof (cases "146097 \<le> n")
    case True
    then show ?thesis using 1 m by (subst shift_down.simps) (simp add: DAYS_PER_YEAR_INTERVAL_def YEAR_INTERVAL_def)
  next
    case False
    then show ?thesis using 1(2)
      by (subst shift_down.simps) (simp add: DAYS_PER_YEAR_INTERVAL_def mod_pos_pos_trivial div_pos_pos_trivial)
  qed
qed

lemma year_search_ok:
  assumes "0 \<le> n" "0 \<le> off" "off \<le> 400" "n < 146097" "off < 400 \<longrightarrow> n < jan1 (1970 + (off + 1))"
  shows "\<exists>j. year_search n off = Inr j \<and> 0 \<le> j \<and> j < 400 \<and> jan1 (1970 + j) \<le> n \<and> n < jan1 (1970 + (j + 1))"
  using assms
proof (induction n off rule: year_search.induct)
  case (1 n off)
  note t = year_table [OF "1.prems"(2,3)]
  have z: "jan1 1970 = 0" "jan1 2370 = 146097" by code_simp+
  show ?case
  proof (cases "n < jan1 (1970 + off)")
    case True
    then have "0 < off" using "1.prems"(1,2) z by (cases "off = 0") auto
    then have "\<exists>j. year_search n (off - 1) = Inr j \<and> 0 \<le> j \<and> j < 400 \<and> jan1 (1970 + j) \<le> n \<and> n < jan1 (1970 + (j + 1))"
      using "1.IH" "1.prems" True t by auto
    then show ?thesis using True t "1.prems" by (subst year_search.simps) simp
  next
    case False
    then have "off < 400" using "1.prems" z by (cases "off = 400") auto
    then show ?thesis using False t "1.prems" by (subst year_search.simps) simp
  qed
qed

lemma ExtractYearOffset_ok:
  "\<exists>y j. ExtractYearOffset d = Inr (d - jan1 y + jan1 (1970 + j), y, j) \<and> 0 \<le> j \<and> j < 400
     \<and> leap y = leap (1970 + j) \<and> jan1 y \<le> d \<and> d < jan1 (y + 1)"
proof -
  let ?n = "d mod 146097" and ?q = "d div 146097"
  have n: "0 \<le> ?n" "?n < 146097" by simp_all
  have s: "shift_down (fst (shift_up d 1970)) (snd (shift_up d 1970)) = (?n, 1970 + 400 * ?q)"
  proof (cases "d < 0")
    case True
    then show ?thesis using n by (simp add: shift_up_eq) (simp add: shift_down_eq)
  next
    case False
    then have "shift_up d 1970 = (d, 1970)" by (subst shift_up.simps) simp
    then show ?thesis using False by (simp add: shift_down_eq)
  qed
  have off: "0 \<le> ?n div 365" "?n div 365 \<le> 400" using n by linarith+
  have "?n < jan1 (1970 + (?n div 365 + 1))" if "?n div 365 < 400"
  proof -
    have "jan1 1970 + 365 * (1970 + (?n div 365 + 1) - 1970) \<le> jan1 (1970 + (?n div 365 + 1))"
      using off by (intro jan1_mono) simp
    moreover have "jan1 1970 = 0" by code_simp
    moreover have "k < 365 * (k div 365 + 1)" for k :: int by presburger
    moreover note this [of ?n]
    ultimately show ?thesis by simp
  qed
  then obtain j where j: "year_search ?n (?n div 365) = Inr j" "0 \<le> j" "j < 400" "jan1 (1970 + j) \<le> ?n"
    "?n < jan1 (1970 + (j + 1))"
    using year_search_ok [OF n(1) off n(2)] by blast
  let ?y = "1970 + j + 400 * ?q"
  have J: "jan1 ?y = jan1 (1970 + j) + 146097 * ?q" "jan1 (?y + 1) = jan1 (1970 + (j + 1)) + 146097 * ?q"
    using jan1_cycle [of "1970 + j" ?q] jan1_cycle [of "1970 + (j + 1)" ?q] by (simp_all add: algebra_simps)
  have d: "d = 146097 * ?q + ?n" by simp
  have "ExtractYearOffset d = Inr (?n, 1970 + 400 * ?q + j, j)"
    using s j(1) cdiv_nonneg [OF n(1), of 365] by (auto simp: ExtractYearOffset_def EPOCH_YEAR_def split: prod.splits)
  moreover have "?n = d - jan1 ?y + jan1 (1970 + j)" using J d by linarith
  moreover have "jan1 ?y \<le> d" "d < jan1 (?y + 1)" using J d j(4,5) by linarith+
  moreover have "leap ?y = leap (1970 + j)" by (rule leap_cycle)
  moreover have "1970 + 400 * ?q + j = ?y" by simp
  ultimately have "ExtractYearOffset d = Inr (d - jan1 ?y + jan1 (1970 + j), ?y, j) \<and> 0 \<le> j \<and> j < 400
     \<and> leap ?y = leap (1970 + j) \<and> jan1 ?y \<le> d \<and> d < jan1 (?y + 1)" using j(2,3) by (simp only: simp_thms)
  then show ?thesis by blast
qed

lemma Convert_ok: "\<exists>y m dd. Convert d = Inr (y, m, dd) \<and> civil (y, m, dd) \<and> day_number (y, m, dd) = d"
proof -
  obtain y j where e: "ExtractYearOffset d = Inr (d - jan1 y + jan1 (1970 + j), y, j)" "0 \<le> j" "j < 400"
    "leap y = leap (1970 + j)" "jan1 y \<le> d" "d < jan1 (y + 1)" using ExtractYearOffset_ok by blast
  have T: "table_at CUMULATIVE_YEAR_DAYS j = Inr (jan1 (1970 + j))"
    "table_at CUMULATIVE_YEAR_DAYS (j + 1) = Inr (jan1 (1970 + (j + 1)))"
    using e year_table [of j] year_table [of "j + 1"] by (simp_all add: table_at_ok)
  have L: "jan1 (1970 + (j + 1)) - jan1 (1970 + j) = 366 \<longleftrightarrow> leap y"
    using jan1_step [of "1970 + j"] e(4) by (simp add: add.assoc)
  let ?d = "d - jan1 y"
  obtain m where m: "table_at (if leap y then LEAP_MONTH_PER_DAY_OF_YEAR else MONTH_PER_DAY_OF_YEAR) ?d = Inr m"
    "1 \<le> m" "m \<le> 12" "month_start y m \<le> ?d" "?d < month_start y m + month_length y m"
    using month_of_day [of ?d y] e jan1_step [of y] by auto
  have M: "table_at (if leap y then CUMULATIVE_LEAP_DAYS else CUMULATIVE_DAYS) (m - 1) = Inr (month_start y m)"
    using m by (simp add: table_at_ok month_start_def)
  have "Convert d = Inr (y, m, ?d - month_start y m + 1)"
    using m(1) M L by (cases "leap y") (simp_all add: Convert_def e(1) T)
  then show ?thesis using m
    by (intro exI [of _ y] exI [of _ m] exI [of _ "?d - month_start y m + 1"]) (simp add: civil_def day_number_def)
qed

lemma day_number_year: "civil (y, m, d) \<Longrightarrow> jan1 y \<le> day_number (y, m, d) \<and> day_number (y, m, d) < jan1 (y + 1)"
proof -
  assume c: "civil (y, m, d)"
  then have m: "1 \<le> m" "m \<le> 12" "1 \<le> d" "d \<le> month_length y m" by (simp_all add: civil_def)
  have "0 \<le> month_start y m \<and> month_start y m + month_length y m \<le> 365 + of_bool (leap y)"
    using twelve [OF m(1,2)]
    by (auto simp: month_length_def month_start_def CUMULATIVE_DAYS_def CUMULATIVE_LEAP_DAYS_def)
  then show ?thesis using m jan1_step [of y] by (simp add: day_number_def)
qed

lemma month_start_mono:
  assumes "1 \<le> m" "m < m'" "m' \<le> 12"
  shows "month_start y m + month_length y m \<le> month_start y m'"
proof -
  have "month_start y m + month_length y m \<le> month_start y (m + 1 + int k)" if "m + 1 + int k \<le> 12" for k
    using that
  proof (induction k)
    case 0
    then show ?case using month_start_next [of m y] assms(1) by simp
  next
    case (Suc k)
    then show ?case using month_start_next [of "m + 1 + int k" y] month_length_pos(1) [of y "m + 1 + int k"] assms(1)
      by (simp add: add.assoc [symmetric])
  qed
  from this [of "nat (m' - m - 1)"] show ?thesis using assms by simp
qed

text \<open>Dates in the order of the calendar.\<close>

definition earlier :: "int \<times> int \<times> int \<Rightarrow> int \<times> int \<times> int \<Rightarrow> bool" where
  "earlier = (\<lambda>(y, m, d) (y', m', d'). y < y' \<or> y = y' \<and> (m < m' \<or> m = m' \<and> d < d'))"

lemma day_number_less:
  assumes "civil a" "civil b" "earlier a b"
  shows "day_number a < day_number b"
proof -
  obtain y m d y' m' d' where ab: "a = (y, m, d)" "b = (y', m', d')" by (metis prod_cases3)
  consider "y < y'" | "y = y'" "m < m'" | "y = y'" "m = m'" "d < d'" using assms(3) by (auto simp: ab earlier_def)
  then show ?thesis
  proof cases
    case 1
    then have "jan1 (y + 1) \<le> jan1 y'" using jan1_mono [of "y + 1" y'] by simp
    then show ?thesis using day_number_year [of y m d] day_number_year [of y' m' d'] assms(1,2) by (simp add: ab)
  next
    case 2
    then have "month_start y m + month_length y m \<le> month_start y m'"
      using assms(1,2) by (intro month_start_mono) (simp_all add: ab civil_def)
    then show ?thesis using 2 assms(1,2) by (simp add: ab civil_def day_number_def)
  qed (simp add: ab day_number_def)
qed

lemma earlier_total: "a = b \<or> earlier a b \<or> earlier b a"
  by (cases a; cases b) (auto simp: earlier_def)

lemma day_number_inj: "civil a \<Longrightarrow> civil b \<Longrightarrow> day_number a = day_number b \<Longrightarrow> a = b"
  using earlier_total [of a b] day_number_less [of a b] day_number_less [of b a] by auto

lemma day_number_less_iff: "civil a \<Longrightarrow> civil b \<Longrightarrow> day_number a < day_number b \<longleftrightarrow> earlier a b"
  using earlier_total [of a b] day_number_less [of a b] day_number_less [of b a] by auto

lemma Convert_eq: "Convert d = Inr x \<longleftrightarrow> civil x \<and> day_number x = d"
  using Convert_ok [of d] day_number_inj by (cases x) force

lemma next_day_ok: "civil x \<Longrightarrow> civil (next_day x) \<and> day_number (next_day x) = day_number x + 1"
proof -
  assume c: "civil x"
  obtain y m d where x: "x = (y, m, d)" by (rule prod_cases3)
  have m: "1 \<le> m" "m \<le> 12" "1 \<le> d" "d \<le> month_length y m" using c by (simp_all add: x civil_def)
  consider "d < month_length y m" | "d = month_length y m" "m < 12" | "d = month_length y m" "m = 12" using m by linarith
  then show ?thesis
  proof cases
    case 1
    then show ?thesis using m by (simp add: x next_day_def civil_def day_number_def)
  next
    case 2
    then show ?thesis using m month_start_next [of m y] month_length_pos(1) [of y "m + 1"]
      by (simp add: x next_day_def civil_def day_number_def)
  next
    case 3
    then show ?thesis using m month_length_pos(1) [of "y + 1" 1] year_end [of y] jan1_step [of y]
      by (simp add: x next_day_def civil_def day_number_def month_start_1)
  qed
qed

text \<open>
  The calendar.  Day 0 is 1970-01-01, and the date of the day after day d is the successor of the
  date of d in the Gregorian calendar, for all d: conversion from a day number never reads outside its
  tables, and it is determined by these two facts.
\<close>

theorem Convert_calendar:
  "Convert 0 = Inr (1970, 1, 1) \<and> (\<exists>x. Convert d = Inr x \<and> civil x \<and> Convert (d + 1) = Inr (next_day x))"
proof -
  have "Convert 0 = Inr (1970, 1, 1)"
    unfolding Convert_eq by (simp add: civil_def month_length_def day_number_def jan1_def month_start_1)
  moreover obtain x where "Convert d = Inr x" "civil x" "day_number x = d" using Convert_ok [of d] by blast
  ultimately show ?thesis using next_day_ok [of x]
    by (intro conjI exI [of _ x]) (simp_all add: Convert_eq)
qed

section \<open>From dates to day numbers\<close>

lemma IsValid_eq:
  "IsValid y m d \<longleftrightarrow> civil (y, m, d) \<and> \<not> earlier (y, m, d) (- 5877641, 6, 25) \<and> \<not> earlier (5881580, 7, 10) (y, m, d)"
proof -
  have "(if leap y then d \<le> LEAP_DAYS ! nat m else d \<le> NORMAL_DAYS ! nat m) \<longleftrightarrow> d \<le> month_length y m"
    if "1 \<le> m" "m \<le> 12" using month_table(1) [OF that, of y] by (simp split: if_splits)
  then show ?thesis
    by (auto simp: IsValid_def civil_def earlier_def DATE_MIN_YEAR_def DATE_MIN_MONTH_def DATE_MIN_DAY_def
        DATE_MAX_YEAR_def DATE_MAX_MONTH_def DATE_MAX_DAY_def)
qed

lemma range_ends: "civil (- 5877641, 6, 25)" "civil (5881580, 7, 10)"
  "day_number (- 5877641, 6, 25) = - 2147483646" "day_number (5881580, 7, 10) = 2147483646"
  by code_simp+

lemma IsValid_day_number:
  "IsValid y m d \<longleftrightarrow> civil (y, m, d) \<and> - 2147483646 \<le> day_number (y, m, d) \<and> day_number (y, m, d) \<le> 2147483646"
proof -
  have "earlier (y, m, d) (- 5877641, 6, 25) \<longleftrightarrow> day_number (y, m, d) < - 2147483646"
    "earlier (5881580, 7, 10) (y, m, d) \<longleftrightarrow> 2147483646 < day_number (y, m, d)" if "civil (y, m, d)"
    using day_number_less_iff [OF that range_ends(1)] day_number_less_iff [OF range_ends(2) that] range_ends(3,4) by auto
  then show ?thesis unfolding IsValid_eq by auto
qed

lemma IsValid_year: "IsValid y m d \<Longrightarrow> - 5877641 \<le> y \<and> y \<le> 5881580"
  unfolding IsValid_eq by (auto simp: earlier_def)

lemma TryFromDate_ok:
  assumes v: "IsValid y m d"
  shows "TryFromDate y m d = Inr (Some (day_number (y, m, d)))"
proof -
  have c: "civil (y, m, d)" and r: "- 2147483646 \<le> day_number (y, m, d)" "day_number (y, m, d) \<le> 2147483646"
    using v by (simp_all add: IsValid_day_number)
  have y: "- 5877641 \<le> y" "y \<le> 5881580" using IsValid_year [OF v] by simp_all
  define D where "D = month_start y m + (d - 1)"
  have D: "0 \<le> D" "D \<le> 365" "day_number (y, m, d) = jan1 y + D"
    using day_number_year [OF c] jan1_step [of y] by (cases "leap y"; simp add: D_def day_number_def)+
  have T: "leap y \<Longrightarrow> table_at CUMULATIVE_LEAP_DAYS (m - 1) = Inr (month_start y m)"
    "\<not> leap y \<Longrightarrow> table_at CUMULATIVE_DAYS (m - 1) = Inr (month_start y m)"
    using c by (simp_all add: table_at_ok month_start_def civil_def)
  have Y: "table_at CUMULATIVE_YEAR_DAYS j = Inr (jan1 (1970 + j))" "0 \<le> jan1 (1970 + j)" "jan1 (1970 + j) \<le> 146097"
    if "0 \<le> j" "j \<le> 400" for j
  proof -
    have "jan1 1970 = 0" "jan1 2370 = 146097" by code_simp+
    then show "0 \<le> jan1 (1970 + j)" "jan1 (1970 + j) \<le> 146097"
      using jan1_mono [of 1970 "1970 + j"] jan1_mono [of "1970 + j" 2370] that by simp_all
  qed (use that year_table in \<open>simp add: table_at_ok\<close>)
  have F: "0 \<le> k div 400 * 146097 \<and> k div 400 * 146097 \<le> 2147479803" if "0 \<le> k" "k \<le> 5879611" for k :: int
  proof -
    have "0 \<le> k div 400 \<and> k div 400 \<le> 5879611 div 400" using that by (simp add: zdiv_mono1 pos_imp_zdiv_nonneg_iff)
    then show ?thesis by simp
  qed
  note start = v T D_def [symmetric]
  consider "y < 1970" | "1970 \<le> y" "y < 2370" | "2370 \<le> y" by linarith
  then show ?thesis
  proof cases
    case 1
    define k where "k = 1970 - y"
    have k: "0 \<le> k" "k \<le> 5879611" "0 \<le> 400 - k mod 400" "400 - k mod 400 \<le> 400"
      using 1 y by (simp_all add: k_def pos_mod_bound less_imp_le)
    have J: "jan1 y = jan1 (1970 + (400 - k mod 400)) - 146097 - k div 400 * 146097"
    proof -
      have "y = 1970 + (400 - k mod 400) + 400 * (- (k div 400) - 1)" proof -
        have "400 * (- (k div 400) - 1) = - (k div 400 * 400) - 400" by simp
        then show ?thesis using div_mult_mod_eq [of k 400] k_def by linarith
      qed
      then have "jan1 y = jan1 (1970 + (400 - k mod 400)) + 146097 * (- (k div 400) - 1)" using jan1_cycle by metis
      then show ?thesis by (simp add: algebra_simps)
    qed
    define f where "f = k div 400 * 146097"
    note B = Y [OF k(3,4)] F [OF k(1,2), folded f_def] J [folded f_def]
    have "TryFromDate y m d = andThen (i32 (1970 - y)) (\<lambda>_. andThen (i32 (D + jan1 (1970 + (400 - k mod 400))))
        (\<lambda>n2. andThen (i32 (n2 - 146097)) (\<lambda>n3. andThen (i32 f)
        (\<lambda>f. andThen (i32 (n3 - f)) (\<lambda>n. Inr (Some n))))))"
      using 1 D(1,2) y k by (simp add: TryFromDate_def start B(1) c_arith k_def [symmetric] f_def DAYS_PER_YEAR_INTERVAL_def)
    also have "\<dots> = Inr (Some (jan1 y + D))" using B(2-) D r y 1 by simp
    finally show ?thesis by (simp add: D(3))
  next
    case 2
    have j: "0 \<le> y - 1970" "y - 1970 \<le> 400" using 2 by simp_all
    show ?thesis using 2 D Y [OF j] by (simp add: TryFromDate_def start)
  next
    case 3
    define k where "k = y - 2370"
    have k: "0 \<le> k" "k \<le> 5879611" "0 \<le> k mod 400" "k mod 400 \<le> 400"
      using 3 y by (simp_all add: k_def pos_mod_bound less_imp_le)
    have J: "jan1 y = jan1 (1970 + k mod 400) + 146097 + k div 400 * 146097"
    proof -
      have "y = 1970 + k mod 400 + 400 * (k div 400 + 1)"
      proof -
        have "400 * (k div 400 + 1) = k div 400 * 400 + 400" by simp
        then show ?thesis using div_mult_mod_eq [of k 400] k_def by linarith
      qed
      then have "jan1 y = jan1 (1970 + k mod 400) + 146097 * (k div 400 + 1)" using jan1_cycle by metis
      then show ?thesis by (simp add: algebra_simps)
    qed
    define f where "f = k div 400 * 146097"
    note B = Y [OF k(3,4)] F [OF k(1,2), folded f_def] J [folded f_def]
    have "TryFromDate y m d = andThen (i32 (y - 2370)) (\<lambda>_. andThen (i32 (D + jan1 (1970 + k mod 400)))
        (\<lambda>n2. andThen (i32 (n2 + 146097)) (\<lambda>n3. andThen (i32 f)
        (\<lambda>f. andThen (i32 (n3 + f)) (\<lambda>n. Inr (Some n))))))"
      using 3 D(1,2) y k by (simp add: TryFromDate_def start B(1) c_arith k_def [symmetric] f_def DAYS_PER_YEAR_INTERVAL_def)
    also have "\<dots> = Inr (Some (jan1 y + D))" using B(2-) D r y 3 by simp
    finally show ?thesis by (simp add: D(3))
  qed
qed

lemma TryFromDate_invalid: "\<not> IsValid y m d \<Longrightarrow> TryFromDate y m d = Inr None"
  by (simp add: TryFromDate_def)

lemma Convert_valid:
  assumes "- 2147483646 \<le> n" "n \<le> 2147483646"
  shows "\<exists>y m d. Convert n = Inr (y, m, d) \<and> IsValid y m d \<and> TryFromDate y m d = Inr (Some n)"
proof -
  obtain y m d where x: "Convert n = Inr (y, m, d)" "civil (y, m, d)" "day_number (y, m, d) = n" using Convert_ok [of n] by blast
  then have "IsValid y m d" using assms by (simp add: IsValid_day_number)
  then show ?thesis using x TryFromDate_ok by blast
qed

text \<open>
  C39: Dates and day numbers correspond.  TryFromDate accepts exactly the valid dates, without overflow
  or reads outside its tables; the day number it gives lies strictly between the two infinities and
  converts back to the date.  Conversely the date of every such day number is accepted and gives the
  number back.
\<close>

theorem date_round_trip:
  "(if IsValid y m d
    then \<exists>k. TryFromDate y m d = Inr (Some k) \<and> ninfinity < k \<and> k < infinity \<and> Convert k = Inr (y, m, d)
    else TryFromDate y m d = Inr None)
   \<and> (ninfinity < n \<and> n < infinity \<longrightarrow>
      (\<exists>y m d. Convert n = Inr (y, m, d) \<and> TryFromDate y m d = Inr (Some n)))"
proof (intro conjI impI)
  have "\<exists>k. TryFromDate y m d = Inr (Some k) \<and> ninfinity < k \<and> k < infinity \<and> Convert k = Inr (y, m, d)" if "IsValid y m d"
    using TryFromDate_ok [OF that] that by (auto simp: IsValid_day_number Convert_eq infinity_def ninfinity_def)
  then show "if IsValid y m d
    then \<exists>k. TryFromDate y m d = Inr (Some k) \<and> ninfinity < k \<and> k < infinity \<and> Convert k = Inr (y, m, d)
    else TryFromDate y m d = Inr None" by (simp add: TryFromDate_invalid)
  assume "ninfinity < n \<and> n < infinity"
  then have "- 2147483646 \<le> n" "n \<le> 2147483646" by (simp_all add: infinity_def ninfinity_def)
  from Convert_valid [OF this] show "\<exists>y m d. Convert n = Inr (y, m, d) \<and> TryFromDate y m d = Inr (Some n)" by blast
qed

theorem date_round_trip_witness:
  "(\<exists>k. TryFromDate 2000 2 29 = Inr (Some k) \<and> Convert k = Inr (2000, 2, 29)) \<and> TryFromDate 1900 2 29 = Inr None
   \<and> (\<exists>y m d. Convert (- 1) = Inr (y, m, d) \<and> TryFromDate y m d = Inr (Some (- 1)))"
proof -
  have "IsValid 2000 2 29" "\<not> IsValid 1900 2 29" by code_simp+
  then show ?thesis
    using date_round_trip [of 2000 2 29 "- 1"] date_round_trip [of 1900 2 29 "- 1"]
    by (auto simp: infinity_def ninfinity_def)
qed

section \<open>Weeks\<close>

text \<open>Days of the week from Monday (0); the Monday and the Thursday of a day's week.\<close>

definition weekday :: "int \<Rightarrow> int" where "weekday n = (n + 3) mod 7"

definition monday :: "int \<Rightarrow> int" where "monday n = n - weekday n"

definition year_of :: "int \<Rightarrow> int" where
  "year_of n = (case Convert n of Inr (y, m, d) \<Rightarrow> y | Inl e \<Rightarrow> 0)"

lemma weekday_range: "0 \<le> weekday n" "weekday n \<le> 6"
  using pos_mod_bound [of 7 "n + 3"] by (simp_all add: weekday_def)

lemma ISODay_eq: "ExtractISODayOfTheWeek n = weekday n + 1"
proof (cases "n < 0")
  case True
  have "7 - ((- n + 3) mod 7) = (n + 3) mod 7 + 1" by presburger
  then show ?thesis using True by (simp add: ExtractISODayOfTheWeek_def weekday_def cmod_nonneg)
qed (simp add: ExtractISODayOfTheWeek_def weekday_def cmod_nonneg)

lemma PythonDivMod_eq: "fst (PythonDivMod x 7) = x div 7"
proof (cases "0 \<le> x")
  case True
  then show ?thesis using minus_div_mult_eq_mod [of x 7] by (simp add: PythonDivMod_def cdiv_nonneg Let_def)
next
  case False
  have "(if x - - ((- x) div 7) * 7 < 0 then - ((- x) div 7) - 1 else - ((- x) div 7)) = x div 7" by presburger
  then show ?thesis using False by (simp add: PythonDivMod_def cdiv_neg Let_def split: if_splits)
qed

lemma year_of_eq: "year_of n = y \<longleftrightarrow> jan1 y \<le> n \<and> n < jan1 (y + 1)"
proof -
  obtain y' m d where c: "Convert n = Inr (y', m, d)" "civil (y', m, d)" "day_number (y', m, d) = n"
    using Convert_ok [of n] by blast
  then have b: "jan1 y' \<le> n" "n < jan1 (y' + 1)" using day_number_year [of y' m d] by simp_all
  show ?thesis
  proof
    assume h: "jan1 y \<le> n \<and> n < jan1 (y + 1)"
    then have "jan1 y < jan1 (y' + 1)" "jan1 y' < jan1 (y + 1)" using b by linarith+
    then show "year_of n = y" using c(1) by (simp add: jan1_less_iff year_of_def)
  qed (use b c(1) in \<open>auto simp: year_of_def\<close>)
qed

lemma year_of_bounds: "jan1 (year_of n) \<le> n" "n < jan1 (year_of n + 1)"
  using year_of_eq [of n "year_of n"] by simp_all

lemma FromDate_jan1:
  "- 5877640 \<le> y \<Longrightarrow> y \<le> 5881580 \<Longrightarrow> FromDate y 1 1 = Inr (jan1 y) \<and> - 2147483456 \<le> jan1 y \<and> jan1 y \<le> 2147483455"
  "y < - 5877640 \<Longrightarrow> FromDate y 1 1 = Inl ConversionException"
  "5881580 < y \<Longrightarrow> FromDate y 1 1 = Inl ConversionException"
proof -
  have c: "civil (y, 1, 1)" by (simp add: civil_def month_length_def)
  then have v: "IsValid y 1 1 \<longleftrightarrow> - 5877640 \<le> y \<and> y \<le> 5881580" unfolding IsValid_eq by (auto simp: earlier_def)
  have e: "jan1 (- 5877640) = - 2147483456" "jan1 5881580 = 2147483455" by code_simp+
  have "day_number (y, 1, 1) = jan1 y" by (simp add: day_number_def month_start_1)
  then show "- 5877640 \<le> y \<Longrightarrow> y \<le> 5881580 \<Longrightarrow>
      FromDate y 1 1 = Inr (jan1 y) \<and> - 2147483456 \<le> jan1 y \<and> jan1 y \<le> 2147483455"
    using TryFromDate_ok [of y 1 1] v e jan1_mono [of "- 5877640" y] jan1_mono [of y 5881580] by (simp add: FromDate_def)
  show "y < - 5877640 \<Longrightarrow> FromDate y 1 1 = Inl ConversionException"
    "5881580 < y \<Longrightarrow> FromDate y 1 1 = Inl ConversionException"
    using v by (simp_all add: FromDate_def TryFromDate_invalid)
qed

text \<open>
  The weeks are numbered by \<open>week\<close>, from the week of 1969-12-29; then everything about weeks is linear
  arithmetic over \<open>week\<close> and the first days \<open>J\<close> and \<open>K\<close> of a year and the next.
\<close>

lemma jan1_le: "y \<le> y' \<Longrightarrow> jan1 y \<le> jan1 y'"
  using jan1_less_iff [of y' y] by linarith

definition week :: "int \<Rightarrow> int" where "week n = (n + 3) div 7"

lemma monday_week: "monday n = 7 * week n - 3" "7 * week n - 3 \<le> n" "n \<le> 7 * week n + 3"
proof -
  have "7 * week n + weekday n = n + 3" using mult_div_mod_eq [of 7 "n + 3"] by (simp add: weekday_def week_def)
  then show "monday n = 7 * week n - 3" "7 * week n - 3 \<le> n" "n \<le> 7 * week n + 3"
    using weekday_range [of n] by (simp_all add: monday_def)
qed

lemma week_one: "monday (J + 3) = J - weekday J + (if 3 < weekday J then 7 else 0)"
proof -
  have "7 * week (J + 3) - 3 \<le> J + 3" "J + 3 \<le> 7 * week (J + 3) + 3" "7 * week J - 3 \<le> J" "J \<le> 7 * week J + 3"
    using monday_week(2,3) by blast+
  moreover have "weekday J = J - (7 * week J - 3)" using monday_week(1) [of J] by (simp add: monday_def)
  ultimately show ?thesis unfolding monday_week(1) by presburger
qed

lemma GetISOWeekOne_ok:
  assumes "- 5877640 \<le> y" "y \<le> 5881580"
  shows "GetISOWeekOne y = Inr (monday (jan1 y + 3))"
  using FromDate_jan1(1) [OF assms] weekday_range [of "jan1 y"] week_one [of "jan1 y"]
  by (simp add: GetISOWeekOne_def ISODay_eq Let_def)

lemma GetISOWeekOne_throws: "y < - 5877640 \<Longrightarrow> GetISOWeekOne y = Inl ConversionException"
  by (simp add: GetISOWeekOne_def FromDate_jan1(2))

lemma week_diff: "(n - monday (J + 3)) div 7 = week n - week (J + 3)"
  using div_mult_self2 [of 7 "n + 3" "- week (J + 3)"] by (simp add: monday_week(1) week_def algebra_simps)

text \<open>The number of the week of \<open>n\<close> in the year that starts on \<open>J\<close>, counted by the Thursdays.\<close>

lemma week_number: "(monday n + 3 - J) div 7 = week n - week (J + 3)"
proof -
  have "(monday n + 3 - J) div 7 = week n + (- J) div 7"
    using div_mult_self2 [of 7 "- J" "week n"] by (simp add: monday_week(1))
  moreover have "(J + 3 + 3) div 7 = - ((- J) div 7)" by presburger
  ultimately show ?thesis by (simp add: week_def)
qed

lemma week_cases:
  assumes "J \<le> n" "n < K"
  shows "week n - week (J + 3) < 0 \<longleftrightarrow> monday n + 3 < J"
    and "monday (K + 3) \<le> n \<longleftrightarrow> K \<le> monday n + 3"
    and "J - 4 \<le> monday n + 3" "monday n + 3 < K + 3"
    and "J + 365 \<le> K \<Longrightarrow> monday (K + 3) \<le> n \<Longrightarrow> 52 \<le> week n - week (J + 3)"
proof -
  note w = monday_week [of n] monday_week [of "J + 3"] monday_week [of "K + 3"] assms
  show "week n - week (J + 3) < 0 \<longleftrightarrow> monday n + 3 < J" unfolding w(1) using w(2,3,5,6) by linarith
  have "7 * week (K + 3) - 3 \<le> n \<longleftrightarrow> week (K + 3) \<le> week n" using w(2,3) by linarith
  moreover have "K \<le> 7 * week n - 3 + 3 \<longleftrightarrow> week (K + 3) \<le> week n" using w(8,9) by linarith
  ultimately show "monday (K + 3) \<le> n \<longleftrightarrow> K \<le> monday n + 3" unfolding w(1,7) by blast
  show "J - 4 \<le> monday n + 3" "monday n + 3 < K + 3" unfolding w(1) using w by linarith+
  show "52 \<le> week n - week (J + 3)" if "J + 365 \<le> K" "monday (K + 3) \<le> n"
  proof -
    have "week (K + 3) \<le> week n" using that(2) w(2,3) unfolding w(7) by linarith
    moreover have "week (J + 3) + 52 \<le> week (K + 3)" using that(1) w(5,6,8,9) by linarith
    ultimately show ?thesis by linarith
  qed
qed

text \<open>ISO 8601: a week belongs to the year of its Thursday and is numbered by the Thursdays of that year.\<close>

definition iso_year :: "int \<Rightarrow> int" where "iso_year n = year_of (monday n + 3)"

definition iso_week :: "int \<Rightarrow> int" where "iso_week n = (monday n + 3 - jan1 (iso_year n)) div 7 + 1"

lemma year_of_range:
  assumes "- 2147483646 \<le> n" "n \<le> 2147483646"
  shows "- 5877641 \<le> year_of n" "year_of n \<le> 5881580"
proof -
  have "jan1 (- 5877641) = - 2147483821" "jan1 5881580 = 2147483455" "jan1 5881581 = 2147483821" by code_simp+
  then have "jan1 (- 5877641) < jan1 (year_of n + 1)" "jan1 (year_of n) < jan1 5881581"
    using year_of_bounds [of n] assms by linarith+
  then show "- 5877641 \<le> year_of n" "year_of n \<le> 5881580" by (simp_all add: jan1_less_iff)
qed

lemma GetISOYearWeek_ok:
  assumes n: "- 2147483646 \<le> n" "n \<le> 2147483646" and y: "- 5877641 < year_of n" "- 5877641 < iso_year n"
  shows "GetISOYearWeek n = Inr (iso_week n, iso_year n)"
proof -
  let ?y = "year_of n" and ?t = "monday n + 3"
  let ?J = "jan1 ?y" and ?K = "jan1 (?y + 1)"
  obtain m d where c: "Convert n = Inr (?y, m, d)" using Convert_ok [of n] by (auto simp: year_of_def)
  have J: "?J \<le> n" "n < ?K" using year_of_bounds by simp_all
  have r: "- 5877640 \<le> ?y" "?y \<le> 5881580" using year_of_range [OF n] y by simp_all
  have len: "?J + 365 \<le> ?K" using jan1_mono [of ?y "?y + 1"] by simp
  have w1: "GetISOWeekOne ?y = Inr (monday (?J + 3))" by (rule GetISOWeekOne_ok [OF r])
  have d32: "int32 (n - monday (jan1 x + 3))" if "x = ?y \<or> x = ?y - 1" for x
  proof -
    have "jan1 ?y \<le> jan1 (?y - 1) + 366" using jan1_step [of "?y - 1"] by (cases "leap (?y - 1)") simp_all
    then have "jan1 x \<le> n" "n \<le> jan1 x + 732" using that J jan1_mono [of "?y - 1" ?y] jan1_step [of ?y]
      by (auto split: if_splits) (cases "leap ?y"; simp)+
    then show ?thesis using monday_week [of "jan1 x + 3"] by simp
  qed
  have start: "GetISOYearWeek n = (let week = week n - week (?J + 3) in
      if week < 0 then andThen (GetISOWeekOne (?y - 1)) (\<lambda>week1_monday.
        andThen (i32 (n - week1_monday)) (\<lambda>diff. Inr (fst (PythonDivMod diff 7) + 1, ?y - 1)))
      else if 52 \<le> week then andThen (GetISOWeekOne (?y + 1)) (\<lambda>next_monday.
          if next_monday \<le> n then Inr (0 + 1, ?y + 1) else Inr (week + 1, ?y))
      else Inr (week + 1, ?y))"
    using d32 [of ?y] by (simp add: GetISOYearWeek_def c w1 PythonDivMod_eq week_diff)
  note cases = week_cases [OF J]
  consider "?t < ?J" | "?J \<le> ?t" "?t < ?K" | "?K \<le> ?t" by linarith
  then show ?thesis
  proof cases
    case 1
    have "jan1 (?y - 1) \<le> ?t" using cases(3) jan1_mono [of "?y - 1" ?y] by simp
    then have iy: "iso_year n = ?y - 1" using 1 by (simp add: iso_year_def year_of_eq)
    then have "GetISOWeekOne (?y - 1) = Inr (monday (jan1 (?y - 1) + 3))" using y r by (intro GetISOWeekOne_ok) simp_all
    then show ?thesis using 1 cases(1) iy d32 [of "?y - 1"] week_number [of n "jan1 (?y - 1)"]
      by (simp add: start PythonDivMod_eq week_diff iso_week_def)
  next
    case 2
    then have iy: "iso_year n = ?y" by (simp add: iso_year_def year_of_eq)
    show ?thesis
    proof (cases "52 \<le> week n - week (?J + 3)")
      case True
      have "?y + 1 \<le> 5881580"
      proof (rule ccontr)
        assume "\<not> ?thesis"
        then have "?y = 5881580" using r by simp
        moreover have "jan1 5881580 = 2147483455" by code_simp
        ultimately have "?J = 2147483455" by simp
        moreover have "7 * week n - 3 \<le> n" "?J + 3 \<le> 7 * week (?J + 3) + 3" by (rule monday_week)+
        ultimately show False using True n(2) by linarith
      qed
      then have "GetISOWeekOne (?y + 1) = Inr (monday (?K + 3))" using r by (intro GetISOWeekOne_ok) simp_all
      moreover have "\<not> monday (?K + 3) \<le> n" using 2(2) cases(2) by simp
      ultimately show ?thesis using True iy week_number [of n ?J] by (simp add: start iso_week_def)
    next
      case False
      then show ?thesis using 2 cases(1) iy week_number [of n ?J] by (simp add: start iso_week_def)
    qed
  next
    case 3
    then have m: "monday (?K + 3) \<le> n" using cases(2) by simp
    have lt: "?t < jan1 (?y + 1 + 1)" using cases(4) jan1_mono [of "?y + 1" "?y + 1 + 1"] by simp
    then have iy: "iso_year n = ?y + 1" using 3 by (simp add: iso_year_def year_of_eq)
    have "?y + 1 \<le> 5881580"
    proof (rule ccontr)
      assume "\<not> ?thesis"
      then have "?y = 5881580" using r by simp
      moreover have "jan1 5881581 = 2147483821" by code_simp
      ultimately have "?K = 2147483821" by simp
      then show False using 3 n(2) monday_week [of n] by linarith
    qed
    then have "GetISOWeekOne (?y + 1) = Inr (monday (?K + 3))" using r by (intro GetISOWeekOne_ok) simp_all
    moreover have "52 \<le> week n - week (?J + 3)" using cases(5) len m by simp
    moreover have "(?t - ?K) div 7 = 0" using 3 cases(4) by (simp add: div_pos_pos_trivial)
    ultimately show ?thesis using m iy by (simp add: start iso_week_def)
  qed
qed

lemma GetISOYearWeek_throws:
  assumes n: "- 2147483646 \<le> n" "n \<le> 2147483646" and y: "\<not> (- 5877641 < year_of n \<and> - 5877641 < iso_year n)"
  shows "GetISOYearWeek n = Inl ConversionException"
proof -
  let ?y = "year_of n" and ?t = "monday n + 3"
  obtain m d where c: "Convert n = Inr (?y, m, d)" using Convert_ok [of n] by (auto simp: year_of_def)
  show ?thesis
  proof (cases "?y = - 5877641")
    case True
    then show ?thesis by (simp add: GetISOYearWeek_def c GetISOWeekOne_throws)
  next
    case False
    then have y': "- 5877640 \<le> ?y" "?y \<le> 5881580" "iso_year n \<le> - 5877641" using year_of_range [OF n] y by auto
    have J: "jan1 ?y \<le> n" "n < jan1 (?y + 1)" using year_of_bounds by simp_all
    have "?t < jan1 (- 5877640)" using year_of_bounds(2) [of ?t] y'(3) jan1_mono [of "iso_year n + 1" "- 5877640"]
      by (simp add: iso_year_def)
    then have "?t < jan1 ?y" using jan1_le [OF y'(1)] by linarith
    moreover have d: "jan1 (- 5877640) + 365 \<le> jan1 (- 5877640 + 1)" by code_simp
    moreover have "jan1 ?y < jan1 (- 5877640 + 1)"
      using \<open>?t < jan1 (- 5877640)\<close> week_cases(3) [OF J] d by linarith
    ultimately have "?y = - 5877640" "week n - week (jan1 ?y + 3) < 0" using y'(1) week_cases(1) [OF J]
      by (simp_all add: jan1_less_iff)
    moreover have "int32 (n - monday (jan1 ?y + 3))"
      using J monday_week [of "jan1 ?y + 3"] jan1_step [of ?y] by (cases "leap ?y") simp_all
    ultimately show ?thesis
      using GetISOWeekOne_ok [OF y'(1,2)] by (simp add: GetISOYearWeek_def c PythonDivMod_eq week_diff GetISOWeekOne_throws)
  qed
qed
text \<open>
  ISO weeks.  For every finite date the ISO year and week are those of the Thursday of its week: the
  year is the Thursday's, the week its count of Thursdays.  The one exception is the lower end of the
  range, where the code needs January 1st of a year that has none in the range and throws: every date of
  the year -5877641, and those of the following January that belong to a week of that year.
\<close>

theorem ExtractISOYearWeek_correct:
  assumes "ninfinity < n" "n < infinity"
  shows "ExtractISOYearWeek n =
    (if - 5877641 < year_of n \<and> - 5877641 < iso_year n then Inr (iso_year n, iso_week n) else Inl ConversionException)"
proof -
  have n: "- 2147483646 \<le> n" "n \<le> 2147483646" using assms by (simp_all add: infinity_def ninfinity_def)
  show ?thesis using GetISOYearWeek_ok [OF n] GetISOYearWeek_throws [OF n] by (auto simp: ExtractISOYearWeek_def)
qed

theorem ExtractISOYearWeek_correct_witness:
  "ExtractISOYearWeek (- 1096) = Inr (1966, 52) \<and> ExtractISOYearWeek (- 2147483646) = Inl ConversionException"
proof -
  have "year_of (- 1096) = 1967" "iso_year (- 1096) = 1966" "iso_week (- 1096) = 52" "year_of (- 2147483646) = - 5877641"
    by code_simp+
  then show ?thesis
    using ExtractISOYearWeek_correct [of "- 1096"] ExtractISOYearWeek_correct [of "- 2147483646"]
    by (simp add: infinity_def ninfinity_def)
qed

lemma card_every_seventh: "card {d. s \<le> d \<and> d \<le> n \<and> (d - s) mod 7 = 0} = (if n < s then 0 else nat ((n - s) div 7 + 1))"
  for s n :: int
proof -
  have "{d. s \<le> d \<and> d \<le> n \<and> (d - s) mod 7 = 0} = (\<lambda>k. s + 7 * k) ` {0..(n - s) div 7}"
  proof (intro set_eqI iffI)
    fix d assume d: "d \<in> {d. s \<le> d \<and> d \<le> n \<and> (d - s) mod 7 = 0}"
    then have "d = s + 7 * ((d - s) div 7)" using mult_div_mod_eq [of 7 "d - s"] by simp
    moreover have "(d - s) div 7 \<in> {0..(n - s) div 7}"
      using d by (auto simp: zdiv_mono1 pos_imp_zdiv_nonneg_iff)
    ultimately show "d \<in> (\<lambda>k. s + 7 * k) ` {0..(n - s) div 7}" by (rule image_eqI)
  next
    fix d assume "d \<in> (\<lambda>k. s + 7 * k) ` {0..(n - s) div 7}"
    then obtain k where k: "d = s + 7 * k" "0 \<le> k" "k \<le> (n - s) div 7" by auto
    have "7 * ((n - s) div 7) \<le> n - s" using mult_div_mod_eq [of 7 "n - s"] pos_mod_sign [of 7 "n - s"] by linarith
    then show "d \<in> {d. s \<le> d \<and> d \<le> n \<and> (d - s) mod 7 = 0}" using k by simp
  qed
  moreover have "inj_on (\<lambda>k. s + 7 * k) {0..(n - s) div 7}" by (simp add: inj_on_def)
  moreover have "n < s \<Longrightarrow> (n - s) div 7 < 0" by (simp add: pos_imp_zdiv_neg_iff)
  ultimately show ?thesis by (simp add: card_image)
qed

lemma shift_mod: "(x - (J + (r - (J + 3) mod 7) mod 7)) mod 7 = (x + 3 - r) mod 7" for x J r :: int
proof -
  have "(x - (J + (r - (J + 3) mod 7) mod 7)) mod 7 = (x - J - (r - (J + 3) mod 7) mod 7) mod 7" by (simp only: diff_diff_eq)
  also have "\<dots> = (x - J - (r - (J + 3) mod 7)) mod 7" by (rule mod_diff_right_eq)
  also have "\<dots> = (x - J - r + (J + 3) mod 7) mod 7" by (rule arg_cong [of _ _ "\<lambda>z. z mod 7"]) simp
  also have "\<dots> = (x - J - r + (J + 3)) mod 7" by (rule mod_add_right_eq)
  also have "x - J - r + (J + 3) = x + 3 - r" by simp
  finally show ?thesis .
qed

text \<open>
  Weeks of the year and day of the year.  ExtractWeekNumberRegular counts the Mondays, or the Sundays,
  from January 1st up to the date, and ExtractDayOfTheYear the days, for every date of a year whose
  January 1st is in the range.
\<close>

theorem week_and_day_of_year:
  assumes "ninfinity < n" "n < infinity" "- 5877641 < year_of n"
  shows "ExtractWeekNumberRegular n monday_first =
      Inr (int (card {d. jan1 (year_of n) \<le> d \<and> d \<le> n \<and> weekday d = (if monday_first then 0 else 6)}))
    \<and> ExtractDayOfTheYear n = Inr (int (card {d. jan1 (year_of n) \<le> d \<and> d \<le> n}))"
proof -
  have n: "- 2147483646 \<le> n" "n \<le> 2147483646" using assms(1,2) by (simp_all add: infinity_def ninfinity_def)
  obtain y m d where c: "Convert n = Inr (y, m, d)" "civil (y, m, d)" "day_number (y, m, d) = n" using Convert_ok [of n] by blast
  then have y: "year_of n = y" by (simp add: year_of_def)
  let ?J = "jan1 y" and ?r = "if monday_first then 0 else 6 :: int"
  have J: "?J \<le> n" using year_of_bounds(1) [of n] y by simp
  have F: "FromDate y 1 1 = Inr ?J" using FromDate_jan1(1) [of y] year_of_range [OF n] assms(3) y by simp
  have T: "leap y \<Longrightarrow> table_at CUMULATIVE_LEAP_DAYS (m - 1) = Inr (month_start y m)"
    "\<not> leap y \<Longrightarrow> table_at CUMULATIVE_DAYS (m - 1) = Inr (month_start y m)"
    using c(2) by (simp_all add: table_at_ok month_start_def civil_def)
  have D: "month_start y m + (d - 1) = n - ?J" using c(3) by (simp add: day_number_def)
  define s where "s = (?r - weekday ?J) mod 7"
  have s: "0 \<le> s" "s < 7" by (simp_all add: s_def)
  have s': "s = (if monday_first then if weekday ?J = 0 then 0 else 7 - weekday ?J else 6 - weekday ?J)"
  proof -
    have "(- w) mod 7 = (if w = 0 then 0 else 7 - w)" "(6 - w) mod 7 = 6 - w" if "0 \<le> w" "w \<le> 6" for w :: int
      using that by presburger+
    then show ?thesis using weekday_range [of ?J] by (simp add: s_def)
  qed
  have "ExtractWeekNumberRegular n monday_first = Inr (if n - ?J < s then 0 else (n - ?J - s) div 7 + 1)"
    using T D s s' by (auto simp: ExtractWeekNumberRegular_def c(1) F ISODay_eq Let_def cdiv_nonneg)
  moreover have "{d. ?J \<le> d \<and> d \<le> n \<and> weekday d = ?r} = {d. ?J + s \<le> d \<and> d \<le> n \<and> (d - (?J + s)) mod 7 = 0}"
  proof (rule Collect_cong)
    fix x
    have eq: "weekday x = ?r \<longleftrightarrow> (x - (?J + s)) mod 7 = 0"
    proof -
      have "(x - (?J + s)) mod 7 = (x + 3 - ?r) mod 7" unfolding s_def weekday_def by (rule shift_mod)
      also have "\<dots> = 0 \<longleftrightarrow> (x + 3) mod 7 = ?r" by (cases monday_first) (simp, simp, presburger)
      finally show ?thesis by (simp add: weekday_def)
    qed
    show "(?J \<le> x \<and> x \<le> n \<and> weekday x = ?r) = (?J + s \<le> x \<and> x \<le> n \<and> (x - (?J + s)) mod 7 = 0)"
    proof -
      have "?J + s \<le> x" if h: "?J \<le> x" "(x - (?J + s)) mod 7 = 0"
      proof -
        obtain q where q: "x - (?J + s) = 7 * q" using h(2) by (metis mod_0_imp_dvd dvdE)
        then have "0 \<le> q" using h(1) s by linarith
        then show ?thesis using q by linarith
      qed
      then show ?thesis using eq s by auto
    qed
  qed
  ultimately have W: "ExtractWeekNumberRegular n monday_first =
      Inr (int (card {d. ?J \<le> d \<and> d \<le> n \<and> weekday d = ?r}))"
    using card_every_seventh [of "?J + s" n] s pos_imp_zdiv_nonneg_iff [of 7 "n - ?J - s"]
    by (auto simp: algebra_simps)
  obtain y' j where e: "ExtractYearOffset n = Inr (n - jan1 y' + jan1 (1970 + j), y', j)" "0 \<le> j" "j < 400"
    "jan1 y' \<le> n" "n < jan1 (y' + 1)" using ExtractYearOffset_ok [of n] by blast
  then have "y' = y" using year_of_eq [of n y'] y by simp
  then have "ExtractDayOfTheYear n = Inr (n - ?J + 1)"
    using e year_table [of j] by (simp add: ExtractDayOfTheYear_def table_at_ok)
  moreover have "{d. ?J \<le> d \<and> d \<le> n} = {?J..n}" by auto
  ultimately show ?thesis using W J by (simp add: y)
qed

theorem week_and_day_of_year_witness:
  "ExtractWeekNumberRegular 59 True = Inr 8 \<and> ExtractWeekNumberRegular 3 False = Inr 1 \<and> ExtractDayOfTheYear 59 = Inr 60"
proof -
  have "year_of 59 = 1970" "year_of 3 = 1970" by code_simp+
  have "jan1 1970 = 0" by code_simp
  have "{d. 0 \<le> d \<and> d \<le> 59 \<and> weekday d = 0} = set (filter (\<lambda>d. weekday d = 0) [0..59])"
    "{d. 0 \<le> d \<and> d \<le> 3 \<and> weekday d = 6} = set (filter (\<lambda>d. weekday d = 6) [0..3])" by auto
  moreover have "card (set (filter (\<lambda>d. weekday d = 0) [0..59])) = 8" "card (set (filter (\<lambda>d. weekday d = 6) [0..3])) = 1"
    by code_simp+
  moreover have "{d. (0::int) \<le> d \<and> d \<le> 59} = {0..59}" by auto
  ultimately show ?thesis
    using week_and_day_of_year [of 59 True] week_and_day_of_year [of 3 False]
    by (simp add: infinity_def ninfinity_def \<open>year_of 59 = 1970\<close> \<open>year_of 3 = 1970\<close> \<open>jan1 1970 = 0\<close>)
qed

end
