(* ===== verification/DateText.thy ===== *)
theory DateText
  imports Calendar
begin

text \<open>
  Dates as text (\<open>DateToStringCast\<close> of \<open>common/types/cast_helpers.hpp\<close>, the parser of
  \<open>common/types/date.cpp\<close>): printing a date and parsing a string, with the two infinities and years
  before Christ.
\<close>

section \<open>Characters\<close>

definition CharacterIsSpace :: "char \<Rightarrow> bool" where
  "CharacterIsSpace c \<longleftrightarrow> of_char c \<in> {32, 9, 10, 11, 12, 13 :: nat}"

definition CharacterIsDigit :: "char \<Rightarrow> bool" where
  "CharacterIsDigit c \<longleftrightarrow> 48 \<le> (of_char c :: nat) \<and> (of_char c :: nat) \<le> 57"

definition CharacterToLower :: "char \<Rightarrow> char" where
  "CharacterToLower c = (if 65 \<le> (of_char c :: nat) \<and> (of_char c :: nat) \<le> 90 then char_of (of_char c + 32 :: nat) else c)"

text \<open>\<open>c - '0'\<close> and \<open>'0' + k\<close>; the table of the formatting library holds the numbers below 100, two characters each.\<close>

definition char_digit :: "char \<Rightarrow> int" where "char_digit c = int (of_char c) - 48"

definition digit_char :: "nat \<Rightarrow> char" where "digit_char k = char_of (48 + k)"

definition digits :: string where
  "digits = ''0001020304050607080910111213141516171819'' @ ''2021222324252627282930313233343536373839'' @
     ''4041424344454647484950515253545556575859'' @ ''6061626364656667686970717273747576777879'' @
     ''8081828384858687888990919293949596979899''"

section \<open>Printing\<close>

text \<open>The characters that are written before \<open>ptr\<close>, in front of those from \<open>ptr\<close> on.\<close>

fun FormatUnsigned :: "nat \<Rightarrow> string \<Rightarrow> string" where
  "FormatUnsigned v ptr =
     (if 100 \<le> v
      then let index = (v mod 100) * 2 in FormatUnsigned (v div 100) (digits ! index # digits ! (index + 1) # ptr)
      else if v < 10 then digit_char v # ptr
      else let index = v * 2 in digits ! index # digits ! (index + 1) # ptr)"

declare FormatUnsigned.simps [simp del]

text \<open>The length of the text, the year to print, the length of the year, and whether BC is added.\<close>

definition YearLength :: "int \<Rightarrow> nat \<times> int \<times> nat \<times> bool" where
  "YearLength year0 =
     (let add_bc = (year0 \<le> 0);
          year = (if add_bc then - year0 + 1 else year0);
          year_length = 4 + of_bool (10000 \<le> year) + of_bool (100000 \<le> year) + of_bool (1000000 \<le> year)
            + of_bool (10000000 \<le> year)
      in (6 + (if add_bc then 5 else 0) + year_length, year, year_length, add_bc))"

definition FormatComponent :: "int \<Rightarrow> string" where
  "FormatComponent number =
     (if number < 10 then [CHR ''-'', CHR ''0'', digit_char (nat number)]
      else let index = nat (number * 2) in [CHR ''-'', digits ! index, digits ! (index + 1)])"

text \<open>The year is right-aligned in its part of the buffer; more digits than that would be written before it.\<close>

definition Format :: "int \<Rightarrow> int \<Rightarrow> int \<Rightarrow> nat \<Rightarrow> bool \<Rightarrow> string checked" where
  "Format year month day year_length add_bc =
     (let y = FormatUnsigned (nat year) []
      in if year_length < length y then Inl OutOfBounds
         else Inr (replicate (year_length - length y) CHR ''0'' @ y @ FormatComponent month @ FormatComponent day
                @ (if add_bc then '' (BC)'' else [])))"

definition PINF :: string where "PINF = ''infinity''"

definition NINF :: string where "NINF = ''-infinity''"

definition EPOCH :: string where "EPOCH = ''epoch''"

text \<open>The buffer has \<open>length\<close> characters and is not initialized: the text has to fill it.\<close>

definition ToString :: "int \<Rightarrow> string checked" where
  "ToString date =
     (if date = infinity then Inr PINF
      else if date = ninfinity then Inr NINF
      else andThen (Convert date) (\<lambda>(year0, month, day).
        let (len, year, year_length, add_bc) = YearLength year0
        in andThen (Format year month day year_length add_bc) (\<lambda>s. if length s = len then Inr s else Inl OutOfBounds)))"

section \<open>Parsing\<close>

datatype DateCastResult = ERROR_INCORRECT_FORMAT | ERROR_RANGE

text \<open>Every read is of \<open>buf ! pos\<close> with \<open>pos\<close> below the length.\<close>

function skip_spaces :: "string \<Rightarrow> nat \<Rightarrow> nat" where
  "skip_spaces buf pos = (if pos < length buf \<and> CharacterIsSpace (buf ! pos) then skip_spaces buf (pos + 1) else pos)"
  by pat_completeness auto
termination by (relation "measure (\<lambda>(buf, pos). length buf - pos)") auto

declare skip_spaces.simps [simp del]

text \<open>\<open>None\<close> is the return value \<open>false\<close>; otherwise the number and the new position.\<close>

definition ParseDoubleDigit :: "string \<Rightarrow> nat \<Rightarrow> (int \<times> nat) option" where
  "ParseDoubleDigit buf pos =
     (if pos < length buf \<and> CharacterIsDigit (buf ! pos)
      then let result = char_digit (buf ! pos); pos = pos + 1
           in if pos < length buf \<and> CharacterIsDigit (buf ! pos)
              then Some (char_digit (buf ! pos) + result * 10, pos + 1)
              else Some (result, pos)
      else None)"

fun TryConvertDateSpecial :: "string \<Rightarrow> nat \<Rightarrow> string \<Rightarrow> nat option" where
  "TryConvertDateSpecial buf p [] = Some p"
| "TryConvertDateSpecial buf p (s # special) =
     (if p < length buf
      then if CharacterToLower (buf ! p) \<noteq> s then None else TryConvertDateSpecial buf (p + 1) special
      else None)"

text \<open>The loop over the digits of the year: the year, its length and the position, or an early return.\<close>

function parse_year :: "string \<Rightarrow> nat \<Rightarrow> int \<Rightarrow> nat \<Rightarrow> (DateCastResult + int \<times> nat \<times> nat) checked" where
  "parse_year buf pos year year_length =
     (if pos < length buf \<and> CharacterIsDigit (buf ! pos)
      then if 100000000 \<le> year then Inr (Inl ERROR_RANGE)
           else andThen (i32 (char_digit (buf ! pos) + year * 10)) (\<lambda>year. parse_year buf (pos + 1) year (year_length + 1))
      else Inr (Inr (year, year_length, pos)))"
  by pat_completeness auto
termination by (relation "measure (\<lambda>(buf, pos, year, n). length buf - pos)") auto

declare parse_year.simps [simp del]

text \<open>From the first character that is no digit: the special values.\<close>

definition convert_special :: "string \<Rightarrow> nat \<Rightarrow> bool \<Rightarrow> DateCastResult + int \<times> bool \<times> nat" where
  "convert_special buf pos yearneg =
     (let finish = (\<lambda>result p. let p = skip_spaces buf p
            in if p = length buf then Inr (result, True, p) else Inl ERROR_INCORRECT_FORMAT)
      in case TryConvertDateSpecial buf pos PINF of
           Some p \<Rightarrow> finish (if yearneg then ninfinity else infinity) p
         | None \<Rightarrow> (case TryConvertDateSpecial buf pos EPOCH of
             Some p \<Rightarrow> finish 0 p
           | None \<Rightarrow> Inl ERROR_INCORRECT_FORMAT))"

definition at_bc :: "string \<Rightarrow> nat \<Rightarrow> bool" where
  "at_bc buf pos \<longleftrightarrow> 5 \<le> length buf - pos \<and> CharacterIsSpace (buf ! pos) \<and> buf ! (pos + 1) = CHR ''(''
     \<and> CharacterToLower (buf ! (pos + 2)) = CHR ''b'' \<and> CharacterToLower (buf ! (pos + 3)) = CHR ''c''
     \<and> buf ! (pos + 4) = CHR '')''"

text \<open>From behind the day: the optional BC, what follows, and the date.\<close>

definition convert_tail :: "string \<Rightarrow> nat \<Rightarrow> bool \<Rightarrow> bool \<Rightarrow> int \<Rightarrow> int \<Rightarrow> int \<Rightarrow> (DateCastResult + int \<times> bool \<times> nat) checked" where
  "convert_tail buf pos0 strict yearneg year0 month day =
     (if at_bc buf pos0 \<and> (yearneg \<or> year0 = 0) then Inr (Inl ERROR_INCORRECT_FORMAT)
      else
        let (year, pos1) = (if at_bc buf pos0 then (- year0 + 1, pos0 + 5) else (year0, pos0));
            pos = (if strict then skip_spaces buf pos1 else pos1)
        in if strict \<and> pos < length buf then Inr (Inl ERROR_INCORRECT_FORMAT)
           else if \<not> strict \<and> pos < length buf \<and> CharacterIsDigit (buf ! pos) then Inr (Inl ERROR_INCORRECT_FORMAT)
           else andThen (TryFromDate year month day) (\<lambda>r. Inr (case r of
                  Some result \<Rightarrow> Inr (result, False, pos) | None \<Rightarrow> Inl ERROR_RANGE)))"

text \<open>From behind the year: separator, month, separator, day.\<close>

definition convert_fields :: "string \<Rightarrow> nat \<Rightarrow> bool \<Rightarrow> bool \<Rightarrow> int \<Rightarrow> (DateCastResult + int \<times> bool \<times> nat) checked" where
  "convert_fields buf pos strict yearneg year =
     (if length buf \<le> pos then Inr (Inl ERROR_INCORRECT_FORMAT)
      else let sep = buf ! pos
           in if sep \<notin> {CHR '' '', CHR ''-'', CHR ''/'', char_of (92 :: nat)} then Inr (Inl ERROR_INCORRECT_FORMAT)
              else case ParseDoubleDigit buf (pos + 1) of
                     None \<Rightarrow> Inr (Inl ERROR_INCORRECT_FORMAT)
                   | Some (month, pos) \<Rightarrow>
                       if length buf \<le> pos \<or> buf ! pos \<noteq> sep \<or> length buf \<le> pos + 1 then Inr (Inl ERROR_INCORRECT_FORMAT)
                       else case ParseDoubleDigit buf (pos + 1) of
                              None \<Rightarrow> Inr (Inl ERROR_INCORRECT_FORMAT)
                            | Some (day, pos) \<Rightarrow> convert_tail buf pos strict yearneg year month day)"

text \<open>The outputs \<open>result\<close>, \<open>special\<close> and \<open>pos\<close> of a successful call.\<close>

definition TryConvertDate :: "string \<Rightarrow> bool \<Rightarrow> (DateCastResult + int \<times> bool \<times> nat) checked" where
  "TryConvertDate buf strict =
     (let pos = skip_spaces buf 0
      in if length buf \<le> pos then Inr (Inl ERROR_INCORRECT_FORMAT)
         else
           let yearneg = (buf ! pos = CHR ''-''); pos = (if yearneg then pos + 1 else pos)
           in if length buf \<le> pos then Inr (Inl ERROR_INCORRECT_FORMAT)
              else if \<not> CharacterIsDigit (buf ! pos) then Inr (convert_special buf pos yearneg)
              else andThen (parse_year buf pos 0 0) (\<lambda>r. case r of
                     Inl e \<Rightarrow> Inr (Inl e)
                   | Inr (year, year_length, pos) \<Rightarrow>
                       if year_length < 2 \<and> strict then Inr (Inl ERROR_INCORRECT_FORMAT)
                       else convert_fields buf pos strict yearneg (if yearneg then - year else year)))"

text \<open>\<open>FromCString\<close>: both errors are thrown as a conversion exception.\<close>

definition FromCString :: "string \<Rightarrow> bool \<Rightarrow> int checked" where
  "FromCString buf strict = andThen (TryConvertDate buf strict) (\<lambda>r. case r of
     Inl e \<Rightarrow> Inl ConversionException | Inr (result, special, pos) \<Rightarrow> Inr result)"

definition FromString :: "string \<Rightarrow> bool \<Rightarrow> int checked" where
  "FromString str strict = FromCString str strict"

definition Date_Format :: "int \<Rightarrow> int \<Rightarrow> int \<Rightarrow> string checked" where
  "Date_Format year month day = andThen (FromDate year month day) ToString"

section \<open>Digits\<close>

lemma char_eqs: "of_char (char_of n) = (n :: nat)" if "n < 256"
  using that by simp

lemma digit_char [simp]:
  assumes "k < 10"
  shows "CharacterIsDigit (digit_char k)" "char_digit (digit_char k) = int k"
proof -
  have e: "of_char (char_of (48 + k)) = 48 + k" by (rule char_eqs) (use assms in simp)
  then show "CharacterIsDigit (digit_char k)" "char_digit (digit_char k) = int k"
    unfolding CharacterIsDigit_def char_digit_def digit_char_def e using assms by simp_all
qed

lemma digits_map: "digits = concat (map (\<lambda>k. [digit_char (k div 10), digit_char (k mod 10)]) [0..<100])"
  by code_simp

lemma digits_at:
  assumes "k < 100"
  shows "digits ! (k * 2) = digit_char (k div 10)" "digits ! (k * 2 + 1) = digit_char (k mod 10)"
proof -
  have *: "concat (map (\<lambda>k. [f k, g k]) [0..<n]) ! (k * 2) = f k \<and> concat (map (\<lambda>k. [f k, g k]) [0..<n]) ! (k * 2 + 1) = g k
    \<and> length (concat (map (\<lambda>k. [f k, g k]) [0..<n])) = n * 2" if "k < n"
    for f g :: "nat \<Rightarrow> char" and k n
    using that
  proof (induction n)
    case (Suc n)
    have l: "length (concat (map (\<lambda>k. [f k, g k]) [0..<n])) = n * 2" for n by (induction n) simp_all
    show ?case
    proof (cases "k = n")
      case False
      then show ?thesis using Suc l by (simp add: nth_append)
    qed (simp add: l nth_append)
  qed simp
  show "digits ! (k * 2) = digit_char (k div 10)" "digits ! (k * 2 + 1) = digit_char (k mod 10)"
    unfolding digits_map using * [OF assms, of "\<lambda>k. digit_char (k div 10)" "\<lambda>k. digit_char (k mod 10)"] by (simp_all only: simp_thms)
qed

text \<open>The number that a text of digits denotes.\<close>

fun text_value :: "int \<Rightarrow> string \<Rightarrow> int" where
  "text_value v [] = v"
| "text_value v (c # cs) = text_value (char_digit c + v * 10) cs"

lemma text_value_append: "text_value v (xs @ ys) = text_value (text_value v xs) ys"
  by (induction xs arbitrary: v) simp_all

lemma text_value_zeros: "text_value 0 (replicate n (digit_char 0) @ ys) = text_value 0 ys"
  by (induction n) simp_all

lemma digit_char_0: "CHR ''0'' = digit_char 0" by code_simp

lemma text_value_mono: "list_all CharacterIsDigit cs \<Longrightarrow> 0 \<le> v \<Longrightarrow> v \<le> text_value v cs"
proof (induction cs arbitrary: v)
  case (Cons c cs)
  then have "0 \<le> char_digit c" by (simp add: CharacterIsDigit_def char_digit_def)
  then have "v \<le> char_digit c + v * 10" using Cons.prems by simp
  also have "\<dots> \<le> text_value (char_digit c + v * 10) cs" using Cons \<open>0 \<le> char_digit c\<close> by simp
  finally show ?case by simp
qed simp

lemma FormatUnsigned_ok:
  "\<exists>ds. FormatUnsigned v ptr = ds @ ptr \<and> list_all CharacterIsDigit ds \<and> text_value 0 ds = int v \<and> 1 \<le> length ds
     \<and> (\<forall>k\<ge>1. v < 10 ^ k \<longrightarrow> length ds \<le> k)"
proof (induction v ptr rule: FormatUnsigned.induct)
  case (1 v ptr)
  show ?case
  proof (cases "100 \<le> v")
    case True
    let ?r = "v mod 100"
    let ?p = "digits ! (?r * 2) # digits ! (?r * 2 + 1) # ptr"
    from 1 [OF True refl] obtain ds where
      d: "FormatUnsigned (v div 100) ?p = ds @ ?p" "list_all CharacterIsDigit ds" "text_value 0 ds = int (v div 100)"
        "1 \<le> length ds" "\<forall>k\<ge>1. v div 100 < 10 ^ k \<longrightarrow> length ds \<le> k" by blast
    let ?ds = "ds @ [digit_char (?r div 10), digit_char (?r mod 10)]"
    have r: "?r < 100" "?r div 10 < 10" "?r mod 10 < 10" by (simp_all add: less_mult_imp_div_less)
    have "FormatUnsigned v ptr = ?ds @ ptr"
      using d(1) True r(1) by (subst FormatUnsigned.simps) (simp add: digits_at Let_def del: One_nat_def)
    moreover have "text_value 0 ?ds = int v"
    proof -
      have "text_value 0 ?ds = int (?r mod 10) + (int (?r div 10) + int (v div 100) * 10) * 10"
        by (simp only: text_value_append text_value.simps d(3) digit_char(2) r(2,3))
      also have "\<dots> = int ((v div 100 * 10 + ?r div 10) * 10 + ?r mod 10)" by (simp only: of_nat_add of_nat_mult of_nat_numeral ac_simps)
      also have "(v div 100 * 10 + ?r div 10) * 10 + ?r mod 10 = v"
        using div_mult_mod_eq [of v 100] div_mult_mod_eq [of ?r 10] by (simp add: algebra_simps)
      finally show ?thesis .
    qed
    moreover have "length ?ds \<le> k" if "1 \<le> k" "v < 10 ^ k" for k
    proof -
      have "k \<noteq> 1" using that True by auto
      moreover have "k \<noteq> 2" using that True by auto
      ultimately have "3 \<le> k" using that(1) by linarith
      define j where "j = k - 2"
      have j: "k = j + 2" "1 \<le> j" using \<open>3 \<le> k\<close> by (simp_all add: j_def)
      then have "v div 100 < 10 ^ j" using that(2) by (simp add: less_mult_imp_div_less power_add)
      then show ?thesis using d(5) j by simp
    qed
    ultimately show ?thesis using d(2) r by (intro exI [of _ ?ds]) simp
  next
    case False
    then show ?thesis
    proof (cases "v < 10")
      case True
      then show ?thesis by (subst FormatUnsigned.simps) (auto intro!: exI [of _ "[digit_char v]"])
    next
      case F: False
      let ?ds = "[digit_char (v div 10), digit_char (v mod 10)]"
      have r: "v < 100" "v div 10 < 10" "v mod 10 < 10" using False by simp_all
      have "FormatUnsigned v ptr = ?ds @ ptr"
        using F r(1) by (subst FormatUnsigned.simps) (simp add: digits_at Let_def del: One_nat_def)
      moreover have "text_value 0 ?ds = int v"
      proof -
        have "text_value 0 ?ds = int (v div 10 * 10 + v mod 10)"
          by (simp only: text_value.simps digit_char(2) r(2,3) of_nat_add of_nat_mult of_nat_numeral) simp
        then show ?thesis by (simp only: div_mult_mod_eq)
      qed
      moreover have "length ?ds \<le> k" if "1 \<le> k" "v < 10 ^ k" for k
        using that F by (cases "k = 1") auto
      ultimately show ?thesis using r by (intro exI [of _ ?ds]) simp
    qed
  qed
qed

lemma FormatComponent_ok:
  assumes "1 \<le> v" "v \<le> 31"
  shows "FormatComponent v = [CHR ''-'', digit_char (nat v div 10), digit_char (nat v mod 10)]"
  using assms digits_at [of "nat v"]
  by (auto simp: FormatComponent_def Let_def digit_char_0 nat_mult_distrib)

section \<open>Reading what was printed\<close>

lemma drop_next: "drop p xs = c # ys \<Longrightarrow> p < length xs \<and> xs ! p = c \<and> drop (Suc p) xs = ys"
  by (metis Cons_nth_drop_Suc drop_eq_Nil linorder_not_less list.distinct(1) list.inject)

lemma digit_facts: "CharacterIsDigit c \<Longrightarrow> \<not> CharacterIsSpace c" "CharacterIsDigit c \<Longrightarrow> c \<noteq> CHR ''-''"
  "\<not> CharacterIsDigit CHR ''-''"
  "CharacterIsDigit c \<Longrightarrow> 0 \<le> char_digit c \<and> char_digit c \<le> 9"
  by (auto simp: CharacterIsDigit_def CharacterIsSpace_def char_digit_def)

lemma skip_spaces_stop: "drop p buf = [] \<or> (\<exists>c cs. drop p buf = c # cs \<and> \<not> CharacterIsSpace c) \<Longrightarrow> skip_spaces buf p = p"
  by (subst skip_spaces.simps) (auto dest!: drop_next)

lemma parse_year_ok:
  assumes "drop p buf = ds @ c # cs" "list_all CharacterIsDigit ds" "\<not> CharacterIsDigit c" "0 \<le> y"
    "text_value y ds < 100000000"
  shows "parse_year buf p y n = Inr (Inr (text_value y ds, n + length ds, p + length ds))"
  using assms
proof (induction ds arbitrary: p y n)
  case Nil
  then show ?case by (subst parse_year.simps) (auto dest!: drop_next)
next
  case (Cons d ds)
  from drop_next [of p buf d "ds @ c # cs"] Cons.prems(1)
  have p: "p < length buf" "buf ! p = d" "drop (Suc p) buf = ds @ c # cs" by simp_all
  let ?y = "char_digit d + y * 10"
  have d: "CharacterIsDigit d" "list_all CharacterIsDigit ds" using Cons.prems(2) by simp_all
  have y: "0 \<le> ?y" using digit_facts(4) [OF d(1)] Cons.prems(4) by simp
  have v: "?y \<le> text_value ?y ds" by (rule text_value_mono [OF d(2) y])
  have "parse_year buf (p + 1) ?y (n + 1) = Inr (Inr (text_value ?y ds, n + 1 + length ds, p + 1 + length ds))"
    using Cons.IH [of "p + 1" ?y "n + 1"] p(3) d(2) Cons.prems(3,5) y by simp
  moreover have "int32 ?y" "y < 100000000" using v y Cons.prems(4,5) digit_facts(4) [OF d(1)] by simp_all
  ultimately show ?case using p(1,2) d(1) by (subst parse_year.simps) simp
qed

lemma ParseDoubleDigit_ok:
  assumes "drop p buf = digit_char a # digit_char b # cs" "a < 10" "b < 10"
  shows "ParseDoubleDigit buf p = Some (int (a * 10 + b), p + 2)"
  using drop_next [OF assms(1)] drop_next [of "Suc p" buf "digit_char b" cs] assms(2,3) by (simp add: ParseDoubleDigit_def)

lemma convert_tail_ok:
  assumes "drop p buf = (if bc then '' (BC)'' else [])" and "p \<le> length buf" and "bc \<longrightarrow> y \<noteq> 0"
    and "TryFromDate (if bc then - y + 1 else y) m d = Inr (Some n)"
  shows "convert_tail buf p strict False y m d = Inr (Inr (n, False, length buf))"
proof (cases bc)
  case True
  then have l: "length buf - p = 5" using arg_cong [OF assms(1), of length] by simp
  have c: "buf ! (p + k) = '' (BC)'' ! k" if "k < 5" for k
    using assms(1) True l that by (metis nth_drop [of p buf k] assms(2))
  have low: "CharacterToLower CHR ''B'' = CHR ''b''" "CharacterToLower CHR ''C'' = CHR ''c''" by code_simp+
  have at: "at_bc buf p"
    using l c [of 0] c [of 1] c [of 2] c [of 3] c [of 4] low by (simp add: at_bc_def CharacterIsSpace_def)
  have e: "p + 5 = length buf" using l assms(2) by simp
  have "skip_spaces buf (p + 5) = p + 5" by (rule skip_spaces_stop) (simp add: e)
  then show ?thesis using True assms(3,4) at e by (simp add: convert_tail_def)
next
  case False
  then have e: "p = length buf" using assms(1,2) by simp
  have "skip_spaces buf p = p" by (rule skip_spaces_stop) (simp add: e)
  moreover have "\<not> at_bc buf p" by (simp add: at_bc_def e)
  ultimately show ?thesis using False assms(4) e by (simp add: convert_tail_def)
qed

lemma TryConvertDate_ok:
  assumes buf: "buf = ys @ CHR ''-'' # digit_char m1 # digit_char m2 # CHR ''-'' # digit_char d1 # digit_char d2
      # (if bc then '' (BC)'' else [])"
    and ys: "list_all CharacterIsDigit ys" "2 \<le> length ys" "text_value 0 ys = y" "y < 100000000" "bc \<longrightarrow> y \<noteq> 0"
    and dig: "m1 < 10" "m2 < 10" "d1 < 10" "d2 < 10"
    and ok: "TryFromDate (if bc then - y + 1 else y) (int (m1 * 10 + m2)) (int (d1 * 10 + d2)) = Inr (Some n)"
  shows "TryConvertDate buf strict = Inr (Inr (n, False, length buf))"
proof -
  let ?tail = "if bc then '' (BC)'' else []" and ?L = "length ys"
  obtain c cs where c: "ys = c # cs" using ys(2) by (cases ys) auto
  then have cd: "CharacterIsDigit c" using ys(1) by simp
  have start: "skip_spaces buf 0 = 0" by (rule skip_spaces_stop) (use cd digit_facts(1) in \<open>simp add: buf c\<close>)
  have d0: "drop 0 buf = ys @ CHR ''-'' # digit_char m1 # digit_char m2 # CHR ''-'' # digit_char d1 # digit_char d2 # ?tail"
    by (simp add: buf)
  have y: "parse_year buf 0 0 0 = Inr (Inr (y, ?L, ?L))"
    using parse_year_ok [OF d0 ys(1) digit_facts(3), of 0 0] ys(3,4) by simp
  have drops: "drop ?L buf = CHR ''-'' # digit_char m1 # digit_char m2 # CHR ''-'' # digit_char d1 # digit_char d2 # ?tail"
    "drop (?L + 1) buf = digit_char m1 # digit_char m2 # CHR ''-'' # digit_char d1 # digit_char d2 # ?tail"
    "drop (?L + 3) buf = CHR ''-'' # digit_char d1 # digit_char d2 # ?tail"
    "drop (?L + 4) buf = digit_char d1 # digit_char d2 # ?tail" "drop (?L + 6) buf = ?tail"
    by (simp_all add: buf)
  have sep: "?L < length buf" "buf ! ?L = CHR ''-''" "?L + 3 < length buf" "buf ! (?L + 3) = CHR ''-''" "?L + 4 < length buf"
    using drop_next [OF drops(1)] drop_next [OF drops(3)] drop_next [OF drops(4)] by simp_all
  have tail: "convert_tail buf (?L + 6) strict False y (int (m1 * 10 + m2)) (int (d1 * 10 + d2)) = Inr (Inr (n, False, length buf))"
    by (rule convert_tail_ok [OF drops(5) _ ys(5) ok]) (simp add: buf)
  have "convert_fields buf ?L strict False y = Inr (Inr (n, False, length buf))"
    using ParseDoubleDigit_ok [OF drops(2) dig(1,2)] ParseDoubleDigit_ok [OF drops(4) dig(3,4)] sep tail
    by (simp add: convert_fields_def numeral_eq_Suc del: of_nat_add of_nat_mult)
  moreover have "buf ! 0 = c" "buf \<noteq> []" using buf c by simp_all
  ultimately show ?thesis using cd digit_facts(2) [OF cd] y ys(2) by (simp add: TryConvertDate_def start)
qed

lemma Format_ok:
  assumes "civil (y, m, d)" "- 9999998 \<le> y" "y \<le> 99999999" "YearLength y = (len, y', yl, bc)"
  shows "\<exists>ys. Format y' m d yl bc = Inr (ys @ CHR ''-'' # digit_char (nat m div 10) # digit_char (nat m mod 10) # CHR ''-''
        # digit_char (nat d div 10) # digit_char (nat d mod 10) # (if bc then '' (BC)'' else []))
    \<and> list_all CharacterIsDigit ys \<and> length ys = yl \<and> text_value 0 ys = y' \<and> len = yl + 6 + (if bc then 5 else 0)
    \<and> 4 \<le> yl \<and> 1 \<le> y' \<and> y' < 100000000 \<and> y = (if bc then - y' + 1 else y')"
proof -
  have e: "bc = (y \<le> 0)" "y' = (if y \<le> 0 then - y + 1 else y)" "len = yl + 6 + (if bc then 5 else 0)"
    "yl = 4 + of_bool (10000 \<le> y') + of_bool (100000 \<le> y') + of_bool (1000000 \<le> y') + of_bool (10000000 \<le> y')"
    using assms(4) by (auto simp: YearLength_def Let_def)
  have y': "1 \<le> y'" "y' < 100000000" using assms(2,3) e(2) by auto
  obtain ds where ds: "FormatUnsigned (nat y') [] = ds @ []" "list_all CharacterIsDigit ds" "text_value 0 ds = int (nat y')"
    "\<forall>k\<ge>1. nat y' < 10 ^ k \<longrightarrow> length ds \<le> k" using FormatUnsigned_ok [of "nat y'" "[]"] by blast
  have "y' < 10 ^ yl" using y' e(4) by (auto split: if_splits)
  then have "nat y' < 10 ^ yl" using y'(1) by (simp add: nat_less_iff)
  then have len: "length ds \<le> yl" using ds(4) e(4) by simp
  let ?ys = "replicate (yl - length ds) CHR ''0'' @ ds"
  have m: "1 \<le> m" "m \<le> 12" "1 \<le> d" "d \<le> 31" using assms(1) month_length_pos(2) [of y m] by (auto simp: civil_def)
  have "Format y' m d yl bc = Inr (?ys @ FormatComponent m @ FormatComponent d @ (if bc then '' (BC)'' else []))"
    using ds(1) len by (simp add: Format_def)
  then have "Format y' m d yl bc = Inr (?ys @ CHR ''-'' # digit_char (nat m div 10) # digit_char (nat m mod 10) # CHR ''-''
        # digit_char (nat d div 10) # digit_char (nat d mod 10) # (if bc then '' (BC)'' else []))"
    using m by (simp add: FormatComponent_ok)
  moreover have "list_all CharacterIsDigit ?ys" using ds(2) by (auto simp: digit_char_0 list_all_iff)
  moreover have "text_value 0 ?ys = y'" using ds(3) y'(1) by (simp add: digit_char_0 text_value_zeros)
  moreover have "length ?ys = yl" using len by simp
  moreover have "4 \<le> yl" "y = (if bc then - y' + 1 else y')" using e(1,2,4) by simp_all
  ultimately show ?thesis using e(3) y' by blast
qed

lemma ToString_FromCString_finite:
  assumes "ninfinity < n" "n < infinity"
  shows "\<exists>s. ToString n = Inr s \<and> FromCString s strict = Inr n"
proof -
  have n: "- 2147483646 \<le> n" "n \<le> 2147483646" using assms by (simp_all add: infinity_def ninfinity_def)
  from Convert_valid [OF n] obtain y m d where
    c: "Convert n = Inr (y, m, d)" "IsValid y m d" "TryFromDate y m d = Inr (Some n)" by blast
  have cv: "civil (y, m, d)" using c(2) by (simp add: IsValid_eq)
  have r: "- 9999998 \<le> y" "y \<le> 99999999" using IsValid_year [OF c(2)] by auto
  obtain len y' yl bc where yl: "YearLength y = (len, y', yl, bc)" by (metis prod_cases4)
  obtain ys where f: "Format y' m d yl bc = Inr (ys @ CHR ''-'' # digit_char (nat m div 10) # digit_char (nat m mod 10) # CHR ''-''
        # digit_char (nat d div 10) # digit_char (nat d mod 10) # (if bc then '' (BC)'' else []))"
    "list_all CharacterIsDigit ys" "length ys = yl" "text_value 0 ys = y'" "len = yl + 6 + (if bc then 5 else 0)"
    "4 \<le> yl" "1 \<le> y'" "y' < 100000000" "y = (if bc then - y' + 1 else y')" using Format_ok [OF cv r yl] by blast
  let ?s = "ys @ CHR ''-'' # digit_char (nat m div 10) # digit_char (nat m mod 10) # CHR ''-''
        # digit_char (nat d div 10) # digit_char (nat d mod 10) # (if bc then '' (BC)'' else [])"
  have t: "ToString n = Inr ?s"
    using assms c(1) yl f(1,3,5) by (simp add: ToString_def)
  have md: "nat m \<le> 12" "nat d \<le> 31" "1 \<le> m" "1 \<le> d" using cv month_length_pos(2) [of y m] by (auto simp: civil_def)
  have "int (nat m div 10 * 10 + nat m mod 10) = m" "int (nat d div 10 * 10 + nat d mod 10) = d"
    using md by (simp_all only: div_mult_mod_eq)
  then have "TryConvertDate ?s strict = Inr (Inr (n, False, length ?s))"
    using c(3) f md by (intro TryConvertDate_ok [OF refl, where y = y']) simp_all
  then have "FromCString ?s strict = Inr n" by (simp add: FromCString_def)
  with t show ?thesis by blast
qed

section \<open>Any string\<close>

lemma parse_year_total:
  "0 \<le> y \<Longrightarrow> \<exists>r. parse_year buf p y n = Inr r"
proof (induction buf p y n rule: parse_year.induct)
  case (1 buf p y n)
  show ?case
  proof (cases "p < length buf \<and> CharacterIsDigit (buf ! p) \<and> y < 100000000")
    case True
    let ?y = "char_digit (buf ! p) + y * 10"
    have "0 \<le> ?y \<and> int32 ?y" using digit_facts(4) [of "buf ! p"] True 1(2) by simp
    then show ?thesis using 1(1) [of ?y] True by (subst parse_year.simps) auto
  qed (subst parse_year.simps, auto)
qed

lemma TryFromDate_total: "TryFromDate y m d = Inr None \<or> (\<exists>n. TryFromDate y m d = Inr (Some n) \<and> ninfinity < n \<and> n < infinity)"
  using TryFromDate_ok [of y m d] TryFromDate_invalid [of y m d]
  by (cases "IsValid y m d") (auto simp: IsValid_day_number infinity_def ninfinity_def)

text \<open>An outcome of the parser: an error of its own, or a date of the type.\<close>

fun proper :: "(DateCastResult + int \<times> bool \<times> nat) checked \<Rightarrow> bool" where
  "proper (Inl e) = False"
| "proper (Inr (Inl e)) = True"
| "proper (Inr (Inr (n, special, pos))) = (ninfinity \<le> n \<and> n \<le> infinity)"

lemma convert_tail_proper: "proper (convert_tail buf p strict neg y m d)"
proof -
  have "proper (andThen (TryFromDate y' m d) (\<lambda>r. Inr (case r of Some result \<Rightarrow> Inr (result, False, q) | None \<Rightarrow> Inl ERROR_RANGE)))"
    for y' q using TryFromDate_total [of y' m d] by auto
  then show ?thesis by (simp add: convert_tail_def Let_def)
qed

lemma convert_fields_proper: "proper (convert_fields buf p strict neg y)"
  using convert_tail_proper by (simp add: convert_fields_def Let_def split: option.split)

lemma convert_special_proper: "proper (Inr (convert_special buf p neg))"
  by (simp add: convert_special_def Let_def infinity_def ninfinity_def split: option.split)

lemma TryConvertDate_proper: "proper (TryConvertDate buf strict)"
proof -
  have "proper (andThen (parse_year buf p 0 0) (\<lambda>r. case r of
      Inl e \<Rightarrow> Inr (Inl e)
    | Inr (year, year_length, pos) \<Rightarrow> if year_length < 2 \<and> strict then Inr (Inl ERROR_INCORRECT_FORMAT)
        else convert_fields buf pos strict neg (if neg then - year else year)))" for p neg
    using parse_year_total [of 0 buf p 0] convert_fields_proper by (auto split: sum.split)
  then show ?thesis using convert_special_proper by (simp add: TryConvertDate_def Let_def)
qed

text \<open>
  C40: Dates as text.  Parsing what ToString prints gives the date back, in strict and in lenient mode,
  for every date between the infinities and for the infinities, including years before Christ and years of
  more than four digits; printing fills its buffer exactly.  And for every string at all the parser gives
  a date of the type or throws the conversion exception: no overflow, no read outside a table.
\<close>

theorem date_text_round_trip:
  "(ninfinity \<le> n \<and> n \<le> infinity \<longrightarrow> (\<exists>s. ToString n = Inr s \<and> FromString s strict = Inr n))
   \<and> (FromString buf strict = Inl ConversionException
      \<or> (\<exists>k. FromString buf strict = Inr k \<and> ninfinity \<le> k \<and> k \<le> infinity))"
proof
  show "FromString buf strict = Inl ConversionException \<or> (\<exists>k. FromString buf strict = Inr k \<and> ninfinity \<le> k \<and> k \<le> infinity)"
    using TryConvertDate_proper [of buf strict]
    by (cases "TryConvertDate buf strict" rule: proper.cases) (auto simp: FromString_def FromCString_def)
  have "FromString PINF strict = Inr infinity" "FromString NINF strict = Inr ninfinity" for strict
    by (cases strict; code_simp)+
  moreover have "ToString infinity = Inr PINF" "ToString ninfinity = Inr NINF"
    by (simp_all add: ToString_def infinity_def ninfinity_def)
  ultimately show "ninfinity \<le> n \<and> n \<le> infinity \<longrightarrow> (\<exists>s. ToString n = Inr s \<and> FromString s strict = Inr n)"
    using ToString_FromCString_finite [of n strict] by (cases "n = infinity"; cases "n = ninfinity") (auto simp: FromString_def)
qed

theorem date_text_round_trip_witness:
  "(\<exists>s. ToString (- 719529) = Inr s \<and> s = ''0002-12-31 (BC)'' \<and> FromString s True = Inr (- 719529))
   \<and> FromString ''2000-02-30'' True = Inl ConversionException"
proof -
  have "ToString (- 719529) = Inr ''0002-12-31 (BC)''" "FromString ''2000-02-30'' True = Inl ConversionException" by code_simp+
  then show ?thesis using date_text_round_trip [of "- 719529" True "''2000-02-30''"] by (auto simp: infinity_def ninfinity_def)
qed

end
