(* ===== verification/Spec2Isabelle.thy ===== *)
theory Spec2Isabelle
  imports PredicateTransfer TransferOperators CheckpointSafety CommitVisibility TableScan FilterSets
    DateText
begin

text \<open>
  A model of parts of DuckDB with robust predicate transfer, the fork under \<open>src/\<close>.  Paths below are
  relative to \<open>src/src/\<close>; headers are under \<open>include/duckdb/\<close>.

  The program's own optimizer pass, predicate transfer, sits between the join order optimizer and
  execution.  Before a join runs, Bloom filters built on one table's join column are passed to the
  tables it joins with, which drop rows without a partner.  The pass reads a logical plan, builds a
  transfer graph over its tables, decides which table creates and which one uses filters, and inserts
  \<open>CREATE_BF\<close> and \<open>USE_BF\<close> operators; at run time those build and probe the filters.  Scans below them
  read row groups whose rows carry version information, the multi-version concurrency control of the
  storage.

  Theories, in the order they build on each other:

  \<^item> \<open>Prelude\<close>: integer types, loops that may fail, selection vectors.
  \<^item> \<open>BloomFilter\<close> (\<open>optimizer/predicate_transfer/bloom_filter\<close>): sizing, hashing, insertion and lookup of
    the register-blocked filter, with the batched loops; no false negatives, order independence of
    atomic insertion, and the overflow of the sizing arithmetic.  Locale \<open>approx_filter\<close> is what its
    clients rely on.
  \<^item> \<open>TransferOperators\<close> (\<open>execution/operator/persistent/physical_create_bf.cpp\<close>,
    \<open>execution/operator/filter/physical_use_bf.cpp\<close>): the finalize tasks and the probing of chunks.
  \<^item> \<open>LogicalPlans\<close> (\<open>optimizer/predicate_transfer/table_operator_namager.cpp\<close>): plans, table operators,
    renamings.
  \<^item> \<open>TransferGraph\<close> (\<open>transfer_graph_manager.cpp\<close>, \<open>dag.cpp\<close>): edges, join key groups, the spanning forest
    and the transfers along it.
  \<^item> \<open>PredicateTransfer\<close> (\<open>predicate_transfer_optimizer.cpp\<close>): the pass itself, the plan that results,
    and what running its filters does to join results.
  \<^item> \<open>ChunkInfo\<close> (\<open>storage/table/chunk_info.cpp\<close>): insertion and deletion ids of the rows of a vector.
    Locales \<open>version_operator_laws\<close> and \<open>chunk_info_class\<close> are the interfaces of the version operators and
    of the two subclasses.
  \<^item> \<open>RowVersions\<close> (\<open>storage/table/row_version_manager.cpp\<close>): the version manager of a row group.
  \<^item> \<open>SegmentTree\<close> (\<open>storage/table/segment_tree.hpp\<close>): the ordered segments of a table, loaded on demand,
    and the search by row number.
  \<^item> \<open>RowGroups\<close> (\<open>storage/table/row_group.cpp\<close>, \<open>row_group_collection.cpp\<close>): the versioned rows of row groups
    and of a table.
  \<^item> \<open>TableRows\<close>, \<open>TableChanges\<close>, \<open>TableDeletes\<close>: the abstract view of a table, the list of its rows'
    versions, and what append, commit, revert, cleanup and delete do to it.  Locale \<open>range_operation\<close> is the
    interface of an operation that the collection applies to a range of rows, row group by row group.

  \<^item> \<open>UndoBuffer\<close> (\<open>transaction/undo_buffer.cpp\<close>, \<open>undo_buffer_allocator.cpp\<close>): the entries of a transaction's
    undo buffer in their blocks, and the loops over them; it behaves as a list.
  \<^item> \<open>Transactions\<close> (\<open>transaction/commit_state.cpp\<close>, \<open>rollback_state.cpp\<close>, \<open>cleanup_state.cpp\<close>): what each
    entry does at commit, failed commit, rollback and cleanup.
  \<^item> \<open>TransactionEffects\<close>: commit and rollback as substitutions in the row versions of all tables;
    atomicity with a failing catalog entry, what other transactions see, and an example database.
  \<^item> \<open>StorageLock\<close> (\<open>storage/storage_lock.cpp\<close>): the checkpoint lock with its upgrade.
  \<^item> \<open>TransactionManager\<close> (\<open>transaction/duck_transaction_manager.cpp\<close>, \<open>duck_transaction.cpp\<close>): start, commit
    with or without write-ahead log, rollback, checkpoints, and the garbage collection of transactions.
  \<^item> \<open>TransactionOrder\<close>, \<open>CheckpointSafety\<close>, \<open>CommitVisibility\<close>: all interleavings of the manager's critical
    sections as a step relation, and its invariants: the order of time stamps, which transactions are
    kept, who holds the checkpoint lock; and what a commit makes visible to whom.

  \<^item> \<open>ByteStrings\<close> (\<open>common/types/string_type.hpp\<close>, \<open>third_party/utf8proc\<close> beside \<open>src/src\<close>): the order of
    strings with its comparison of swapped prefixes, and the UTF-8 check against a reference decoder.
  \<^item> \<open>ColumnStatistics\<close> (\<open>storage/statistics/base_statistics.cpp\<close>, \<open>numeric_stats.cpp\<close>, \<open>string_stats.cpp\<close>):
    bounds of integers and of the first bytes of strings, and whether there are NULLs; what statistics
    \<open>cover\<close> is kept by update and merge and accepted by \<open>Verify\<close>.
  \<^item> \<open>TableFilters\<close> (\<open>planner/filter\<close>), \<open>FilterSets\<close> (\<open>planner/table_filter.cpp\<close>), \<open>FilterExecution\<close>
    (\<open>storage/table/column_segment.cpp\<close>): what a filter means, its check against statistics, the
    collection and unification of filters, and the selection of the rows of a vector.
  \<^item> \<open>ZoneMaps\<close> (\<open>storage/table/scan_state.cpp\<close>, \<open>row_group.cpp\<close>, \<open>column_data.cpp\<close>): skipping row groups and
    the vectors of segments.
  \<^item> \<open>TableScan\<close> (\<open>row_group.cpp\<close>, \<open>scan_state.cpp\<close>): the scan of a table, with the row versions of
    \<open>RowGroups\<close>, the pruning of \<open>ZoneMaps\<close> and the filters of \<open>FilterExecution\<close>.  The loop of
    \<open>TemplatedScan\<close> takes fuel: each pass moves on by a vector, so \<open>Suc k\<close> is enough for a row group of at
    most \<open>k\<close> vectors, which the theorem assumes and its witness instantiates.  What a vector of a column
    decodes to and the order of the adaptive filter are parameters.

  \<^item> \<open>Dates\<close>, \<open>Calendar\<close>, \<open>DateText\<close> (\<open>common/types/date.cpp\<close>, \<open>cast_helpers.hpp\<close>): dates as day numbers,
    the Gregorian calendar they are proved against, printing and parsing.  Signed overflow and reads
    outside a table are error values.

  Conventions.  Addresses are numbers; a null pointer or an internal error is \<open>None\<close> (or an error value
  where the code throws different errors), and the lemmas show when it does not happen.  A table's
  columns, counts and indexes are natural numbers, transaction ids and hash values are 64-bit words,
  filter sectors 32-bit words.  Loops over an \<open>unordered_set\<close> take the iteration order as a parameter;
  an \<open>unordered_map\<close> that is iterated is an association list.  Loops that the code does not bound are
  \<open>partial_function (option)\<close>, and the lemmas show that they end.

  Not modelled: locks other than the checkpoint lock (each operation is a step), memory and file management,
  the join operators; of statistics and filters the floating point, nested and temporal types and the
  struct and expression filters; of scans sampling, prefetching, committed and parallel scans and the
  filters specialised to a compression; and everything the manifest lists as such.
\<close>

end
